(* ===== verification/Prelude.thy ===== *)
theory Prelude
  imports Main "HOL-Library.Signed_Division"
begin

text \<open>
  Shared ground of the development: the C++ arithmetic macros of \<open>source/core/Macro.h\<close>, the
  status codes of \<open>include/MNN/ErrorCode.hpp\<close>, addresses, and the generic list lemmas the
  component theories use. \<open>size_t\<close> values are natural numbers (a subtraction of the code that
  could go below zero is written out as wrapping, \<open>size_sub\<close>); \<open>int\<close> values are integers,
  divided with the truncating \<open>sdiv\<close> and \<open>smod\<close> of C.
\<close>

named_theorems mnn_simps \<open>unfolding of the small accessors of the model\<close>

section \<open>Arithmetic macros\<close>

definition up_div :: "nat \<Rightarrow> nat \<Rightarrow> nat" where
  "up_div x y = (x + y - 1) div y"

definition up_div_int :: "int \<Rightarrow> int \<Rightarrow> int" where
  "up_div_int x y = (x + y - 1) sdiv y"

definition round_up_int :: "int \<Rightarrow> int \<Rightarrow> int" where
  "round_up_int x y = (x + y - 1) sdiv y * y"

text \<open>Subtraction on a 64-bit \<open>size_t\<close> wraps around.\<close>

definition size_sub :: "nat \<Rightarrow> nat \<Rightarrow> nat" where
  "size_sub a b = (if b \<le> a then a - b else a + 2 ^ 64 - b)"

lemma up_div_ge: "0 < a \<Longrightarrow> x \<le> up_div x a * a"
proof -
  assume "0 < a"
  have "(x + a - 1) = (x + a - 1) div a * a + (x + a - 1) mod a" by simp
  moreover have "(x + a - 1) mod a < a" using \<open>0 < a\<close> by simp
  ultimately show ?thesis unfolding up_div_def using \<open>0 < a\<close> by linarith
qed

lemma up_div_less: "0 < a \<Longrightarrow> up_div x a * a < x + a"
proof -
  assume "0 < a"
  have "(x + a - 1) div a * a \<le> x + a - 1" by simp
  then show ?thesis unfolding up_div_def using \<open>0 < a\<close> by linarith
qed

lemma up_div_dvd [simp]: "a dvd up_div x a * a"
  by simp

lemma up_div_mult:
  assumes "0 < a" and "a dvd x"
  shows "up_div x a * a = x"
proof -
  from assms(2) obtain k where x: "x = a * k" ..
  have "(a * k + a - 1) div a = k"
    by (rule div_nat_eqI) (use assms(1) in auto)
  then show ?thesis using assms(1) by (simp add: up_div_def x)
qed

lemma sdiv_pos: "0 \<le> a \<Longrightarrow> 0 < b \<Longrightarrow> (a::int) sdiv b = a div b"
  by (cases "0 < a") (auto simp: signed_divide_int_def)

lemma smod_pos: "0 \<le> a \<Longrightarrow> 0 < b \<Longrightarrow> (a::int) smod b = a mod b"
  by (cases "0 < a") (auto simp: signed_modulo_int_def)

lemma round_up_int_bounds:
  assumes "0 \<le> x" and "0 < y"
  shows "x \<le> round_up_int x y" and "round_up_int x y < x + y" and "y dvd round_up_int x y"
proof -
  have eq: "round_up_int x y = (x + y - 1) div y * y"
    using assms by (simp add: round_up_int_def sdiv_pos)
  have "x + y - 1 = (x + y - 1) div y * y + (x + y - 1) mod y" by simp
  moreover have "0 \<le> (x + y - 1) mod y" and "(x + y - 1) mod y < y" using assms by auto
  ultimately show "x \<le> round_up_int x y" and "round_up_int x y < x + y" unfolding eq by linarith+
  show "y dvd round_up_int x y" unfolding eq by simp
qed

section \<open>Status codes and addresses\<close>

datatype error_code = NO_ERROR | OUT_OF_MEMORY | NOT_SUPPORT | COMPUTE_SIZE_ERROR
  | NO_EXECUTION | INVALID_VALUE

text \<open>A pointer value; 0 is the null pointer.\<close>

type_synonym addr = nat

section \<open>Disjoint address ranges\<close>

definition disjoint_ranges :: "nat \<Rightarrow> nat \<Rightarrow> nat \<Rightarrow> nat \<Rightarrow> bool" where
  "disjoint_ranges a m b n \<longleftrightarrow> a + m \<le> b \<or> b + n \<le> a"

lemma disjoint_ranges_iff:
  "disjoint_ranges a m b n \<Longrightarrow> {a..<a + m} \<inter> {b..<b + n} = {}"
  by (auto simp: disjoint_ranges_def)

lemma disjoint_ranges_sym: "disjoint_ranges a m b n \<longleftrightarrow> disjoint_ranges b n a m"
  by (auto simp: disjoint_ranges_def)

section \<open>Reading an updated list\<close>

lemma nth_list_update_if: "xs[n := y] ! i = (if n = i \<and> i < length xs then y else xs ! i)"
  by (cases "n < length xs") (auto simp: nth_list_update list_update_beyond)

section \<open>Lists sorted by a key\<close>

text \<open>
  The multiset and multimap containers of the code keep their elements ordered by a key and insert
  a new element behind the equal ones.
\<close>

definition insert_by :: "('a \<Rightarrow> nat) \<Rightarrow> 'a \<Rightarrow> 'a list \<Rightarrow> 'a list" where
  "insert_by k x xs = takeWhile (\<lambda>y. k y \<le> k x) xs @ x # dropWhile (\<lambda>y. k y \<le> k x) xs"

abbreviation sorted_by :: "('a \<Rightarrow> nat) \<Rightarrow> 'a list \<Rightarrow> bool" where
  "sorted_by k xs \<equiv> sorted (map k xs)"

lemma set_insert_by [simp]: "set (insert_by k x xs) = insert x (set xs)"
proof -
  have "set xs = set (takeWhile (\<lambda>y. k y \<le> k x) xs) \<union> set (dropWhile (\<lambda>y. k y \<le> k x) xs)"
    by (metis set_append takeWhile_dropWhile_id)
  then show ?thesis by (auto simp: insert_by_def)
qed

lemma length_insert_by [simp]: "length (insert_by k x xs) = Suc (length xs)"
proof -
  have "length xs = length (takeWhile (\<lambda>y. k y \<le> k x) xs) + length (dropWhile (\<lambda>y. k y \<le> k x) xs)"
    by (metis length_append takeWhile_dropWhile_id)
  then show ?thesis by (simp add: insert_by_def)
qed

lemma insert_by_neq_Nil [simp]: "insert_by k x xs \<noteq> []"
  by (simp add: insert_by_def)

lemma insert_by_Cons:
  "insert_by k x (y # ys) = (if k y \<le> k x then y # insert_by k x ys else x # y # ys)"
  by (simp add: insert_by_def)

lemma insert_by_Nil [simp]: "insert_by k x [] = [x]"
  by (simp add: insert_by_def)

lemma distinct_insert_by: "x \<notin> set xs \<Longrightarrow> distinct xs \<Longrightarrow> distinct (insert_by k x xs)"
  by (induction xs) (auto simp: insert_by_Cons)

lemma sorted_insert_by: "sorted_by k xs \<Longrightarrow> sorted_by k (insert_by k x xs)"
proof (induction xs)
  case (Cons y ys)
  then show ?case
    by (auto simp: insert_by_Cons intro: order_trans dest: order.trans)
qed simp

lemma insert_by_cong: "(\<And>y. y \<in> insert x (set xs) \<Longrightarrow> k y = k' y) \<Longrightarrow> insert_by k x xs = insert_by k' x xs"
  by (induction xs) (auto simp: insert_by_Cons)

text \<open>Erasing one element, found by identity inside the range of equal keys.\<close>

definition erase_by :: "('a \<Rightarrow> nat) \<Rightarrow> 'a \<Rightarrow> 'a list \<Rightarrow> 'a list" where
  "erase_by k x xs =
     (let lo = takeWhile (\<lambda>y. k y < k x) xs; rest = dropWhile (\<lambda>y. k y < k x) xs;
          eq = takeWhile (\<lambda>y. k y \<le> k x) rest; hi = dropWhile (\<lambda>y. k y \<le> k x) rest
      in lo @ remove1 x eq @ hi)"

lemma erase_by_Cons:
  "erase_by k x (y # ys) =
     (if k y < k x then y # erase_by k x ys
      else remove1 x (takeWhile (\<lambda>z. k z \<le> k x) (y # ys)) @ dropWhile (\<lambda>z. k z \<le> k x) (y # ys))"
  by (simp add: erase_by_def Let_def)

lemma erase_by_Nil [simp]: "erase_by k x [] = []"
  by (simp add: erase_by_def Let_def)

lemma remove1_takeWhile:
  "sorted_by k xs \<Longrightarrow>
   remove1 x (takeWhile (\<lambda>y. k y \<le> k x) xs) @ dropWhile (\<lambda>y. k y \<le> k x) xs = remove1 x xs"
proof (induction xs)
  case (Cons y ys)
  show ?case
  proof (cases "k y \<le> k x")
    case True
    with Cons show ?thesis by simp
  next
    case False
    then have "y \<noteq> x" by auto
    moreover have "x \<notin> set ys" using Cons.prems False by auto
    ultimately show ?thesis using False by (simp add: remove1_idem)
  qed
qed simp

text \<open>On a sorted list the range search finds the element wherever it is.\<close>

lemma erase_by_remove1: "sorted_by k xs \<Longrightarrow> erase_by k x xs = remove1 x xs"
proof (induction xs)
  case (Cons y ys)
  show ?case
  proof (cases "k y < k x")
    case True
    with Cons show ?thesis by (auto simp: erase_by_Cons)
  next
    case False
    then show ?thesis
      using remove1_takeWhile [OF Cons.prems] by (simp only: erase_by_Cons if_False)
  qed
qed simp

lemma sorted_remove1: "sorted_by k xs \<Longrightarrow> sorted_by k (remove1 x xs)"
  by (induction xs) (auto dest: notin_set_remove1 [THEN contrapos_pp] set_remove1_subset [THEN subsetD])

text \<open>The first element whose key is not below the bound, and its position.\<close>

definition lower_bound :: "('a \<Rightarrow> nat) \<Rightarrow> nat \<Rightarrow> 'a list \<Rightarrow> 'a option" where
  "lower_bound k v xs = (case dropWhile (\<lambda>y. k y < v) xs of [] \<Rightarrow> None | x # _ \<Rightarrow> Some x)"

lemma lower_bound_Some: "lower_bound k v xs = Some x \<Longrightarrow> x \<in> set xs \<and> v \<le> k x"
  by (induction xs) (auto simp: lower_bound_def split: if_splits)

lemma lower_bound_None: "lower_bound k v xs = None \<Longrightarrow> x \<in> set xs \<Longrightarrow> k x < v"
  by (induction xs) (auto simp: lower_bound_def split: if_splits list.splits)

lemma lower_bound_least:
  "sorted_by k xs \<Longrightarrow> lower_bound k v xs = Some x \<Longrightarrow> y \<in> set xs \<Longrightarrow> v \<le> k y \<Longrightarrow> k x \<le> k y"
  by (induction xs) (auto simp: lower_bound_def split: if_splits)

end
