(* ===== verification/Tensor_Model.thy ===== *)
theory Tensor_Model
  imports Prelude
begin

text \<open>
  The shape data of a tensor and its elementary operations: \<open>source/core/Tensor.cpp\<close>,
  \<open>include/MNN/Tensor.hpp\<close> and the shape part of \<open>source/core/TensorUtils.cpp\<close>. The dimension
  array \<open>NativeInsideDescribe::dims\<close> has \<open>MNN_MAX_TENSOR_DIM\<close> entries whatever the number of
  dimensions is, so entries behind \<open>dimensions\<close> keep their old values; it is kept as two lists,
  extents and strides. \<open>int\<close> values are unbounded integers (overflow of a signed \<open>int\<close> is undefined
  in C++), \<open>size_t\<close> values are taken modulo \<open>2 ^ 64\<close> where the code multiplies sizes.
\<close>

section \<open>The tensor\<close>

datatype type_code = halide_type_int | halide_type_uint | halide_type_float | halide_type_handle
  | halide_type_bfloat

record halide_type =
  code :: type_code
  bits :: int

definition type_bytes :: "halide_type \<Rightarrow> int" where
  "type_bytes h = (bits h + 7) sdiv 8"

definition int32_type :: halide_type where
  "int32_type = \<lparr>code = halide_type_int, bits = 32\<rparr>"

definition float_type :: halide_type where
  "float_type = \<lparr>code = halide_type_float, bits = 32\<rparr>"

datatype data_format = NCHW | NHWC | NC4HW4 | NHWC4 | FORMAT_UNKNOWN

datatype dimension_type = TENSORFLOW | CAFFE | CAFFE_C4

datatype data_type = DT_INVALID | DT_FLOAT | DT_DOUBLE | DT_INT32 | DT_UINT8 | DT_INT16 | DT_INT8
  | DT_STRING | DT_INT64 | DT_BOOL | DT_QINT8 | DT_QUINT8 | DT_QINT32 | DT_BFLOAT16 | DT_QINT16
  | DT_QUINT16 | DT_UINT16 | DT_HALF | DT_OTHER

record tensor_array_attr =
  isDynamicSize :: bool
  isIdenticalShape :: bool
  arraySize :: int
  elemShape :: "int list list"

record pad =
  pad_left :: int
  pad_right :: int
  pad_bottom :: int
  pad_top :: int

record tensor =
  dimensions :: int
  extents :: "int list"
  strides :: "int list"
  ttype :: halide_type
  dimensionFormat :: data_format
  contents :: "int list"
  arrayAttr :: "tensor_array_attr option"
  channel_pack_num :: int
  support_pack16 :: bool
  mPads :: pad

definition max_dim :: nat where
  "max_dim = 9"

text \<open>\<open>length(i)\<close>, \<open>stride(i)\<close> and their setters at an index inside the array.\<close>

definition len_at :: "tensor \<Rightarrow> nat \<Rightarrow> int" where
  "len_at t i = extents t ! i"

definition stride_at :: "tensor \<Rightarrow> nat \<Rightarrow> int" where
  "stride_at t i = strides t ! i"

definition setLength :: "nat \<Rightarrow> int \<Rightarrow> tensor \<Rightarrow> tensor" where
  "setLength i v t = t\<lparr>extents := (extents t)[i := v]\<rparr>"

definition setStride :: "nat \<Rightarrow> int \<Rightarrow> tensor \<Rightarrow> tensor" where
  "setStride i v t = t\<lparr>strides := (strides t)[i := v]\<rparr>"

text \<open>A loop \<open>for (i = a; i < b; ++i) setLength(i, f(i))\<close>.\<close>

definition fill_lengths :: "nat \<Rightarrow> nat \<Rightarrow> (nat \<Rightarrow> int) \<Rightarrow> tensor \<Rightarrow> tensor" where
  "fill_lengths a b f t = fold (\<lambda>i. setLength i (f i)) [a..<b] t"

abbreviation ndim :: "tensor \<Rightarrow> nat" where
  "ndim t \<equiv> nat (dimensions t)"

definition shape :: "tensor \<Rightarrow> int list" where
  "shape t = map (len_at t) [0..<ndim t]"

definition wf_tensor :: "tensor \<Rightarrow> bool" where
  "wf_tensor t \<longleftrightarrow> length (extents t) = max_dim \<and> length (strides t) = max_dim \<and>
     0 \<le> dimensions t \<and> dimensions t \<le> int max_dim"

section \<open>Accessors\<close>

definition getDimensionType :: "tensor \<Rightarrow> dimension_type" where
  "getDimensionType t = (if dimensionFormat t = NHWC then TENSORFLOW else CAFFE)"

definition getDimType :: "tensor \<Rightarrow> dimension_type" where
  "getDimType t =
     (case dimensionFormat t of NCHW \<Rightarrow> CAFFE | NC4HW4 \<Rightarrow> CAFFE_C4 | NHWC \<Rightarrow> TENSORFLOW | _ \<Rightarrow> TENSORFLOW)"

definition width :: "tensor \<Rightarrow> int" where
  "width t = (if getDimensionType t = TENSORFLOW then len_at t 2 else len_at t 3)"

definition height :: "tensor \<Rightarrow> int" where
  "height t = (if getDimensionType t = TENSORFLOW then len_at t 1 else len_at t 2)"

definition channel :: "tensor \<Rightarrow> int" where
  "channel t = (if getDimensionType t = TENSORFLOW then len_at t 3 else len_at t 1)"

definition batch :: "tensor \<Rightarrow> int" where
  "batch t = len_at t 0"

text \<open>\<open>setType\<close> leaves the type alone for the data types it does not know.\<close>

definition setType :: "data_type \<Rightarrow> tensor \<Rightarrow> tensor" where
  "setType d t =
     (case d of
        DT_DOUBLE \<Rightarrow> t\<lparr>ttype := float_type\<rparr>
      | DT_FLOAT \<Rightarrow> t\<lparr>ttype := float_type\<rparr>
      | DT_BFLOAT16 \<Rightarrow> t\<lparr>ttype := \<lparr>code = halide_type_bfloat, bits = 16\<rparr>\<rparr>
      | DT_QINT32 \<Rightarrow> t\<lparr>ttype := int32_type\<rparr>
      | DT_INT32 \<Rightarrow> t\<lparr>ttype := int32_type\<rparr>
      | DT_BOOL \<Rightarrow> t\<lparr>ttype := int32_type\<rparr>
      | DT_INT64 \<Rightarrow> t\<lparr>ttype := int32_type\<rparr>
      | DT_QINT8 \<Rightarrow> t\<lparr>ttype := \<lparr>code = halide_type_int, bits = 8\<rparr>\<rparr>
      | DT_INT8 \<Rightarrow> t\<lparr>ttype := \<lparr>code = halide_type_int, bits = 8\<rparr>\<rparr>
      | DT_QUINT8 \<Rightarrow> t\<lparr>ttype := \<lparr>code = halide_type_uint, bits = 8\<rparr>\<rparr>
      | DT_UINT8 \<Rightarrow> t\<lparr>ttype := \<lparr>code = halide_type_uint, bits = 8\<rparr>\<rparr>
      | DT_QUINT16 \<Rightarrow> t\<lparr>ttype := \<lparr>code = halide_type_uint, bits = 16\<rparr>\<rparr>
      | DT_UINT16 \<Rightarrow> t\<lparr>ttype := \<lparr>code = halide_type_uint, bits = 16\<rparr>\<rparr>
      | DT_QINT16 \<Rightarrow> t\<lparr>ttype := \<lparr>code = halide_type_int, bits = 16\<rparr>\<rparr>
      | DT_INT16 \<Rightarrow> t\<lparr>ttype := \<lparr>code = halide_type_int, bits = 16\<rparr>\<rparr>
      | _ \<Rightarrow> t)"

definition align_up4 :: "int \<Rightarrow> int" where
  "align_up4 x = round_up_int x 4"

text \<open>\<open>usize\<close>: the product of the extents in bytes, in \<open>size_t\<close> arithmetic.\<close>

definition usize :: "tensor \<Rightarrow> int" where
  "usize t = fold
     (\<lambda>i d. (d * (if dimensionFormat t = NC4HW4 \<and> i = 1 then align_up4 (len_at t i) else len_at t i)) mod 2 ^ 64)
     [0..<ndim t] (type_bytes (ttype t))"

definition to_int32 :: "int \<Rightarrow> int" where
  "to_int32 x = (x + 2 ^ 31) mod 2 ^ 32 - 2 ^ 31"

definition tensor_size :: "tensor \<Rightarrow> int" where
  "tensor_size t = to_int32 (usize t)"

definition elementSize :: "tensor \<Rightarrow> int" where
  "elementSize t = tensor_size t sdiv type_bytes (ttype t)"

definition getRawSize :: "tensor \<Rightarrow> int" where
  "getRawSize t = fold (\<lambda>i d. (d * len_at t i) mod 2 ^ 64) [0..<ndim t] 1"

definition getTensorChannelPack :: "tensor \<Rightarrow> int" where
  "getTensorChannelPack t = (if support_pack16 t then channel_pack_num t else 4)"

definition setTensorChannelPack :: "int \<Rightarrow> tensor \<Rightarrow> tensor" where
  "setTensorChannelPack p t = t\<lparr>channel_pack_num := (if support_pack16 t then p else 4)\<rparr>"

definition setTensorPad :: "int \<Rightarrow> int \<Rightarrow> int \<Rightarrow> int \<Rightarrow> tensor \<Rightarrow> tensor" where
  "setTensorPad l r b u t = t\<lparr>mPads :=
     \<lparr>pad_left = max (pad_left (mPads t)) l, pad_right = max (pad_right (mPads t)) r,
      pad_bottom = max (pad_bottom (mPads t)) b, pad_top = max (pad_top (mPads t)) u\<rparr>\<rparr>"

section \<open>Changing the shape\<close>

definition adjustTensorForCompability :: "tensor \<Rightarrow> tensor" where
  "adjustTensorForCompability t = fill_lengths (ndim t) 4 (\<lambda>_. 1) t"

text \<open>\<open>memcpy\<close> of the first \<open>n\<close> dimension records.\<close>

definition copy_dims :: "nat \<Rightarrow> tensor \<Rightarrow> tensor \<Rightarrow> tensor" where
  "copy_dims n src t = t\<lparr>extents := take n (extents src) @ drop n (extents t),
     strides := take n (strides src) @ drop n (strides t)\<rparr>"

definition copyShape :: "tensor \<Rightarrow> tensor \<Rightarrow> bool \<Rightarrow> bool \<Rightarrow> tensor" where
  "copyShape source dest copyFormat copyRef =
     (let t1 = copy_dims (ndim source) source (dest\<lparr>dimensions := dimensions source\<rparr>);
          t2 = (if copyFormat then t1\<lparr>dimensionFormat := dimensionFormat source\<rparr> else t1);
          t3 = (if copyRef then t2\<lparr>ttype := ttype source\<rparr> else t2)
      in adjustTensorForCompability t3)"

text \<open>\<open>setShape\<close> runs from the last dimension to the first, with the stride so far.\<close>

definition setShape :: "int list \<Rightarrow> tensor \<Rightarrow> tensor" where
  "setShape alldims t =
     fst (fold (\<lambda>i (u, stride).
             (setLength i (alldims ! i) (setStride i stride u), stride * alldims ! i))
           (rev [0..<length alldims]) (t\<lparr>dimensions := int (length alldims)\<rparr>, 1))"

definition setLinearLayout :: "tensor \<Rightarrow> tensor" where
  "setLinearLayout t =
     fst (fold (\<lambda>i (u, sz).
             let index = ndim t - i - 1;
                 extent = (if index = 1 \<and> dimensionFormat t = NC4HW4 then round_up_int (len_at u index) 4
                           else len_at u index)
             in (setStride index sz u, sz * extent))
           [0..<ndim t] (t, 1))"

text \<open>
  \<open>setupTensorInfo\<close>: the wrapper keeps its own number of dimensions when the formats differ.
\<close>

definition caffe_format :: "data_format \<Rightarrow> bool" where
  "caffe_format f \<longleftrightarrow> f = NCHW \<or> f = NC4HW4"

definition tf_format :: "data_format \<Rightarrow> bool" where
  "tf_format f \<longleftrightarrow> f = NHWC \<or> f = NHWC4"

definition setupTensorInfo :: "tensor \<Rightarrow> tensor \<Rightarrow> data_format \<Rightarrow> tensor" where
  "setupTensorInfo t wrap mid =
     (let w0 = wrap\<lparr>dimensionFormat := mid\<rparr>; f = dimensionFormat t; n = ndim wrap;
          w1 = (if (caffe_format f \<and> caffe_format mid) \<or> (tf_format f \<and> tf_format mid) then
                  copyShape t w0 False False
                else if caffe_format f \<and> tf_format mid then
                  setLength (n - 1) (len_at t 1)
                    (setLength 0 (len_at t 0) (fill_lengths 1 (n - 1) (\<lambda>i. len_at t (i + 1)) w0))
                else if tf_format f \<and> caffe_format mid then
                  setLength 1 (len_at t (ndim t - 1))
                    (setLength 0 (len_at t 0) (fill_lengths 2 n (\<lambda>i. len_at t (i - 1)) w0))
                else w0)
      in (setLinearLayout w1)\<lparr>ttype := ttype t\<rparr>)"

section \<open>Construction\<close>

text \<open>
  \<open>Tensor(dimSize, type)\<close>: the entries of a fresh dimension array start at zero, by the default
  constructor of \<open>halide_dimension_t\<close>.
\<close>

definition new_tensor :: "int \<Rightarrow> data_format \<Rightarrow> tensor" where
  "new_tensor n f = \<lparr>dimensions = n, extents = replicate max_dim 0, strides = replicate max_dim 0,
     ttype = float_type, dimensionFormat = f, contents = [], arrayAttr = None, channel_pack_num = 4,
     support_pack16 = True, mPads = \<lparr>pad_left = 0, pad_right = 0, pad_bottom = 0, pad_top = 0\<rparr>\<rparr>"

definition format_of :: "dimension_type \<Rightarrow> data_format" where
  "format_of d = (case d of CAFFE \<Rightarrow> NCHW | TENSORFLOW \<Rightarrow> NHWC | CAFFE_C4 \<Rightarrow> NC4HW4)"

definition createDevice :: "int list \<Rightarrow> halide_type \<Rightarrow> dimension_type \<Rightarrow> tensor" where
  "createDevice ds h d =
     setLinearLayout ((fill_lengths 0 (length ds) (\<lambda>i. ds ! i)
       (new_tensor (int (length ds)) (format_of d)))\<lparr>ttype := h\<rparr>)"

text \<open>The axes of \<open>Tensor(const Tensor*, DimensionType)\<close> when the layout changes.\<close>

definition axis_map :: "dimension_type \<Rightarrow> nat \<Rightarrow> nat list" where
  "axis_map originType n =
     (if originType = CAFFE then 0 # [2..<n] @ [1] else 0 # (n - 1) # [1..<n - 1])"

definition new_like :: "tensor \<Rightarrow> dimension_type \<Rightarrow> tensor" where
  "new_like t d =
     (let u0 = (new_tensor (dimensions t) (format_of d))\<lparr>ttype := ttype t\<rparr>;
          u1 = fill_lengths 0 (ndim t) (len_at t) u0;
          d' = (if d = CAFFE_C4 then CAFFE else d);
          origin = getDimensionType t;
          u2 = (if origin \<noteq> d' \<and> 3 \<le> dimensions t
                then fill_lengths 0 (ndim t) (\<lambda>i. len_at t (axis_map origin (ndim t) ! i)) u1
                else u1);
          u3 = setLinearLayout u2
      in fill_lengths (ndim t) 4 (\<lambda>_. 1) u3)"

definition create :: "int list \<Rightarrow> halide_type \<Rightarrow> dimension_type \<Rightarrow> tensor" where
  "create ds h d =
     new_like ((fill_lengths 0 (length ds) (\<lambda>i. ds ! i)
       (new_tensor (int (length ds)) (format_of d)))\<lparr>ttype := h\<rparr>) d"

section \<open>Lemmas on the dimension array\<close>

lemma setLength_sel [simp]:
  "extents (setLength i v t) = (extents t)[i := v]" "strides (setLength i v t) = strides t"
  "dimensions (setLength i v t) = dimensions t" "ttype (setLength i v t) = ttype t"
  "dimensionFormat (setLength i v t) = dimensionFormat t" "contents (setLength i v t) = contents t"
  "arrayAttr (setLength i v t) = arrayAttr t"
  by (simp_all add: setLength_def)

lemma setStride_sel [simp]:
  "extents (setStride i v t) = extents t" "strides (setStride i v t) = (strides t)[i := v]"
  "dimensions (setStride i v t) = dimensions t" "ttype (setStride i v t) = ttype t"
  "dimensionFormat (setStride i v t) = dimensionFormat t" "contents (setStride i v t) = contents t"
  "arrayAttr (setStride i v t) = arrayAttr t"
  by (simp_all add: setStride_def)

lemma fill_lengths_empty [simp]: "b \<le> a \<Longrightarrow> fill_lengths a b f t = t"
  by (simp add: fill_lengths_def)

lemma fill_lengths_Suc: "a \<le> b \<Longrightarrow> fill_lengths a (Suc b) f t = setLength b (f b) (fill_lengths a b f t)"
  by (simp add: fill_lengths_def)

lemma fill_lengths_sel [simp]:
  "strides (fill_lengths a b f t) = strides t" "dimensions (fill_lengths a b f t) = dimensions t"
  "ttype (fill_lengths a b f t) = ttype t" "dimensionFormat (fill_lengths a b f t) = dimensionFormat t"
  "contents (fill_lengths a b f t) = contents t" "arrayAttr (fill_lengths a b f t) = arrayAttr t"
  "length (extents (fill_lengths a b f t)) = length (extents t)"
proof (induction b)
  case (Suc b)
  { case 1 show ?case using Suc.IH(1) by (cases "a \<le> b") (simp_all add: fill_lengths_Suc) }
  { case 2 show ?case using Suc.IH(2) by (cases "a \<le> b") (simp_all add: fill_lengths_Suc) }
  { case 3 show ?case using Suc.IH(3) by (cases "a \<le> b") (simp_all add: fill_lengths_Suc) }
  { case 4 show ?case using Suc.IH(4) by (cases "a \<le> b") (simp_all add: fill_lengths_Suc) }
  { case 5 show ?case using Suc.IH(5) by (cases "a \<le> b") (simp_all add: fill_lengths_Suc) }
  { case 6 show ?case using Suc.IH(6) by (cases "a \<le> b") (simp_all add: fill_lengths_Suc) }
  { case 7 show ?case using Suc.IH(7) by (cases "a \<le> b") (simp_all add: fill_lengths_Suc) }
qed simp_all

lemma len_fill_lengths [simp]:
  "len_at (fill_lengths a b f t) i =
     (if a \<le> i \<and> i < b \<and> i < length (extents t) then f i else len_at t i)"
proof (induction b)
  case (Suc b)
  show ?case
  proof (cases "a \<le> b")
    case True
    then have "len_at (fill_lengths a (Suc b) f t) i =
        (if b = i \<and> i < length (extents t) then f b else len_at (fill_lengths a b f t) i)"
      by (simp add: fill_lengths_Suc len_at_def nth_list_update_if)
    then show ?thesis using Suc.IH True by auto
  qed simp
qed simp

lemma len_setLength [simp]:
  "len_at (setLength j v t) i = (if i = j \<and> i < length (extents t) then v else len_at t i)"
  by (auto simp: len_at_def nth_list_update_if)

lemma len_at_update [simp]:
  "len_at (t\<lparr>dimensions := n\<rparr>) i = len_at t i" "len_at (t\<lparr>ttype := h\<rparr>) i = len_at t i"
  "len_at (t\<lparr>dimensionFormat := f\<rparr>) i = len_at t i" "len_at (setStride j s t) i = len_at t i"
  "len_at (t\<lparr>strides := ss\<rparr>) i = len_at t i" "len_at (t\<lparr>arrayAttr := aa\<rparr>) i = len_at t i"
  by (simp_all add: len_at_def)

lemma length_shape [simp]: "length (shape t) = ndim t"
  by (simp add: shape_def)

lemma nth_shape [simp]: "i < ndim t \<Longrightarrow> shape t ! i = len_at t i"
  by (simp add: shape_def)

lemma shape_eqI: "ndim t = length xs \<Longrightarrow> (\<And>i. i < length xs \<Longrightarrow> len_at t i = xs ! i) \<Longrightarrow> shape t = xs"
  by (rule nth_equalityI) simp_all

lemma wf_tensorD [dest]:
  "wf_tensor t \<Longrightarrow> length (extents t) = 9" "wf_tensor t \<Longrightarrow> ndim t \<le> 9"
  "wf_tensor t \<Longrightarrow> length (strides t) = 9"
  by (auto simp: wf_tensor_def max_dim_def nat_le_iff)

text \<open>The shape after the usual loop over all dimensions.\<close>

lemma shape_fill:
  assumes "nat n \<le> length (extents t)"
  shows "shape (fill_lengths 0 (nat n) f (t\<lparr>dimensions := n\<rparr>)) = map f [0..<nat n]"
  by (rule shape_eqI) (use assms in auto)

lemma wf_fill_lengths: "wf_tensor t \<Longrightarrow> wf_tensor (fill_lengths a b f t)"
  by (simp add: wf_tensor_def)

lemma wf_setLength: "wf_tensor t \<Longrightarrow> wf_tensor (setLength i v t)"
  by (simp add: wf_tensor_def)

lemma shape_copy_dims:
  assumes "ndim src \<le> length (extents src)"
  shows "shape (copy_dims (ndim src) src (t\<lparr>dimensions := dimensions src\<rparr>)) = shape src"
  using assms by (intro shape_eqI) (auto simp: copy_dims_def len_at_def nth_append)

end
