(* ===== verification/Pipeline_Model.thy ===== *)
theory Pipeline_Model
  imports Tensor_Model
begin

text \<open>
  Memory planning of a network: \<open>Pipeline::_allocForTensor\<close> of \<open>source/core/Pipeline.cpp\<close> with its helpers,
  and \<open>Backend::onAcquireBuffer\<close> of \<open>source/core/Backend.cpp\<close>. A \<open>Tensor*\<close> is a number; tensors that were
  cloned share their \<open>NativeInsideDescribe\<close>, which \<open>content\<close> names. The virtual functions of the backends and
  the kernels' \<open>onResize\<close> are given by a record of operations: \<open>'m\<close> stands for \<open>MemObj*\<close>, \<open>'p\<close> for everything
  the backends keep. A memory object belongs to one tensor (\<open>setSharedMem\<close> is not used here).
\<close>

section \<open>State\<close>

datatype tensor_usage = NORMAL | INPUT | OUTPUT | CONSTANT | TRAINABLE

datatype memory_type = MEMORY_BACKEND | MEMORY_HOST | MEMORY_VIRTUAL | MEMORY_OUTSIDE

datatype storage_type = STATIC | DYNAMIC | DYNAMIC_SEPERATE | DYNAMIC_IN_EXECUTION

text \<open>The two backends of a pipeline, \<open>cache.first\<close> and \<open>cache.second\<close>.\<close>

datatype backend_id = Main_backend | Backup_backend

record describe =
  memoryType :: memory_type
  useCount :: int
  tusage :: tensor_usage
  group :: int

record 'm origin =
  content :: nat
  mem :: "'m option"
  backend_of :: "backend_id option"

record ('m, 'p) pipe =
  tens :: "nat \<Rightarrow> tensor"
  origins :: "nat \<Rightarrow> 'm origin"
  describes :: "nat \<Rightarrow> describe"
  world :: 'p

record command =
  workInputs :: "nat list"
  workOutputs :: "nat list"
  execution_backend :: backend_id
  needAllocIO :: bool
  cgroup :: int
  kernel_id :: nat

record op_info =
  is_constant :: bool
  executeBuffer :: "command list"

record ('m, 'p) backend_ops =
  onAcquire :: "backend_id \<Rightarrow> nat \<Rightarrow> storage_type \<Rightarrow> ('m, 'p) pipe \<Rightarrow> 'm option \<times> ('m, 'p) pipe"
  free_mem :: "'m \<Rightarrow> 'p \<Rightarrow> 'p"
  onResize :: "command \<Rightarrow> ('m, 'p) pipe \<Rightarrow> error_code \<times> ('m, 'p) pipe"
  onResizeBegin :: "backend_id \<Rightarrow> 'p \<Rightarrow> 'p"
  onResizeEnd :: "backend_id \<Rightarrow> 'p \<Rightarrow> error_code \<times> 'p"

definition desc :: "('m, 'p) pipe \<Rightarrow> nat \<Rightarrow> describe" where
  "desc s t = describes s (content (origins s t))"

text \<open>An assignment to \<open>mem\<close> destroys the object that was there.\<close>

definition set_mem :: "('m, 'p) backend_ops \<Rightarrow> nat \<Rightarrow> 'm option \<Rightarrow> ('m, 'p) pipe \<Rightarrow> ('m, 'p) pipe" where
  "set_mem B t new s =
     s\<lparr>origins := (origins s)(t := (origins s t)\<lparr>mem := new\<rparr>),
       world := (case mem (origins s t) of Some m \<Rightarrow> free_mem B m (world s) | None \<Rightarrow> world s)\<rparr>"

section \<open>Acquiring and releasing\<close>

definition onAcquireBuffer ::
  "('m, 'p) backend_ops \<Rightarrow> backend_id \<Rightarrow> nat \<Rightarrow> storage_type \<Rightarrow> ('m, 'p) pipe \<Rightarrow> bool \<times> ('m, 'p) pipe" where
  "onAcquireBuffer B bk t storage s =
     (case onAcquire B bk t storage s of
        (None, s1) \<Rightarrow> (False, s1)
      | (Some m, s1) \<Rightarrow>
          if mem (origins s1 t) = Some m then (True, s1)
          else let s2 = set_mem B t (Some m) s1
               in (True,
                   if backend_of (origins s2 t) = None
                   then s2\<lparr>origins := (origins s2)(t := (origins s2 t)\<lparr>backend_of := Some bk\<rparr>)\<rparr>
                   else s2))"

definition getTensorStorageType :: "describe \<Rightarrow> bool \<Rightarrow> storage_type" where
  "getTensorStorageType d outputStatic =
     (if tusage d = OUTPUT \<and> outputStatic then STATIC
      else if tusage d = CONSTANT \<or> tusage d = INPUT \<or> tusage d = TRAINABLE then DYNAMIC_SEPERATE
      else DYNAMIC)"

definition needRelease :: "('m, 'p) pipe \<Rightarrow> nat \<Rightarrow> bool \<Rightarrow> bool" where
  "needRelease s t inputOutside =
     (if useCount (desc s t) \<noteq> 0 then False
      else if memoryType (desc s t) = MEMORY_HOST \<or> memoryType (desc s t) = MEMORY_OUTSIDE then False
      else if backend_of (origins s t) = None then False
      else if inputOutside then tusage (desc s t) = NORMAL
      else if code (ttype (tens s t)) = halide_type_handle then False
      else \<not> (tusage (desc s t) = CONSTANT \<or> tusage (desc s t) = TRAINABLE \<or> tusage (desc s t) = OUTPUT))"

text \<open>A change of the use count, which constants do not have.\<close>

definition count_uses :: "(int \<Rightarrow> int) \<Rightarrow> nat \<Rightarrow> ('m, 'p) pipe \<Rightarrow> ('m, 'p) pipe" where
  "count_uses f t s =
     (if tusage (desc s t) \<noteq> CONSTANT
      then s\<lparr>describes := (describes s)(content (origins s t) := (desc s t)\<lparr>useCount := f (useCount (desc s t))\<rparr>)\<rparr>
      else s)"

definition releaseTensor ::
  "('m, 'p) backend_ops \<Rightarrow> bool \<Rightarrow> int \<Rightarrow> nat \<Rightarrow> ('m, 'p) pipe \<Rightarrow> ('m, 'p) pipe" where
  "releaseTensor B allocInput grp t s =
     (let s1 = count_uses (\<lambda>n. n - 1) t s
      in if group (desc s1 t) \<noteq> grp then s1
         else if needRelease s1 t (\<not> allocInput) then set_mem B t None s1
         else s1)"

definition allocTensor ::
  "('m, 'p) backend_ops \<Rightarrow> backend_id \<Rightarrow> bool \<Rightarrow> int \<Rightarrow> nat \<Rightarrow> ('m, 'p) pipe \<Rightarrow> bool \<times> ('m, 'p) pipe" where
  "allocTensor B bk outputStatic grp t s =
     (let storage = getTensorStorageType (desc s t) outputStatic
      in if group (desc s t) \<noteq> grp then (True, s)
         else if mem (origins s t) = None
         then onAcquireBuffer B bk t storage (s\<lparr>tens := (tens s)(t := setLinearLayout (tens s t))\<rparr>)
         else (True, s))"

text \<open>The loop over the operands of a command, left at the first failure.\<close>

fun allocTensors ::
  "('m, 'p) backend_ops \<Rightarrow> backend_id \<Rightarrow> bool \<Rightarrow> int \<Rightarrow> nat list \<Rightarrow> ('m, 'p) pipe \<Rightarrow> bool \<times> ('m, 'p) pipe" where
  "allocTensors B bk outputStatic grp [] s = (True, s)"
| "allocTensors B bk outputStatic grp (t # ts) s =
     (case allocTensor B bk outputStatic grp t s of
        (True, s1) \<Rightarrow> allocTensors B bk outputStatic grp ts s1
      | (False, s1) \<Rightarrow> (False, s1))"

section \<open>A plan\<close>

text \<open>The parameters of one call that stay the same: the member \<open>mOutputStatic\<close> and the arguments.\<close>

record plan_args =
  outputStatic :: bool
  plan_group :: int
  allocInput :: bool

definition command_alloc ::
  "('m, 'p) backend_ops \<Rightarrow> plan_args \<Rightarrow> command \<Rightarrow> ('m, 'p) pipe \<Rightarrow> bool \<times> ('m, 'p) pipe" where
  "command_alloc B a c s =
     (let bk = execution_backend c;
          (ok, s1) = (if allocInput a \<and> needAllocIO c
                      then allocTensors B bk (outputStatic a) (plan_group a) (workInputs c) s else (True, s))
      in if \<not> ok then (False, s1)
         else if needAllocIO c then allocTensors B bk (outputStatic a) (plan_group a) (workOutputs c) s1
         else (True, s1))"

definition command_resize ::
  "('m, 'p) backend_ops \<Rightarrow> plan_args \<Rightarrow> command \<Rightarrow> ('m, 'p) pipe \<Rightarrow> error_code \<times> ('m, 'p) pipe" where
  "command_resize B a c s = (if cgroup c = plan_group a then onResize B c s else (NO_ERROR, s))"

definition command_release ::
  "('m, 'p) backend_ops \<Rightarrow> plan_args \<Rightarrow> command \<Rightarrow> ('m, 'p) pipe \<Rightarrow> ('m, 'p) pipe" where
  "command_release B a c s = fold (releaseTensor B (allocInput a) (plan_group a)) (workInputs c) s"

fun plan_commands ::
  "('m, 'p) backend_ops \<Rightarrow> plan_args \<Rightarrow> command list \<Rightarrow> ('m, 'p) pipe \<Rightarrow> error_code \<times> ('m, 'p) pipe" where
  "plan_commands B a [] s = (NO_ERROR, s)"
| "plan_commands B a (c # cs) s =
     (case command_alloc B a c s of
        (False, s1) \<Rightarrow> (OUT_OF_MEMORY, s1)
      | (True, s1) \<Rightarrow>
          (case command_resize B a c s1 of
             (e, s2) \<Rightarrow> if e \<noteq> NO_ERROR then (e, s2) else plan_commands B a cs (command_release B a c s2)))"

definition recycleDynamicMemory ::
  "('m, 'p) backend_ops \<Rightarrow> bool \<Rightarrow> command \<Rightarrow> ('m, 'p) pipe \<Rightarrow> ('m, 'p) pipe" where
  "recycleDynamicMemory B outStatic c s =
     fold (\<lambda>t s. if getTensorStorageType (desc s t) outStatic = DYNAMIC then set_mem B t None s else s)
       (workOutputs c @ workInputs c) s"

definition work_commands :: "op_info list \<Rightarrow> command list" where
  "work_commands infos = concat (map executeBuffer (filter (\<lambda>i. \<not> is_constant i) infos))"

definition all_commands :: "op_info list \<Rightarrow> command list" where
  "all_commands infos = concat (map executeBuffer infos)"

definition plan_begin ::
  "('m, 'p) backend_ops \<Rightarrow> op_info list \<Rightarrow> ('m, 'p) pipe \<Rightarrow> ('m, 'p) pipe" where
  "plan_begin B infos s =
     (let uses = concat (map workInputs (work_commands infos));
          s1 = fold (count_uses (\<lambda>_. 0)) uses s;
          s2 = fold (count_uses (\<lambda>n. n + 1)) uses s1
      in s2\<lparr>world := onResizeBegin B Backup_backend (onResizeBegin B Main_backend (world s2))\<rparr>)"

definition plan_recycle ::
  "('m, 'p) backend_ops \<Rightarrow> plan_args \<Rightarrow> op_info list \<Rightarrow> ('m, 'p) pipe \<Rightarrow> ('m, 'p) pipe" where
  "plan_recycle B a infos s =
     fold (recycleDynamicMemory B (outputStatic a)) (filter (\<lambda>c. cgroup c = plan_group a) (all_commands infos)) s"

definition plan_end :: "('m, 'p) backend_ops \<Rightarrow> ('m, 'p) pipe \<Rightarrow> error_code \<times> ('m, 'p) pipe" where
  "plan_end B s =
     (case onResizeEnd B Main_backend (world s) of
        (e, p) \<Rightarrow> if e \<noteq> NO_ERROR then (e, s\<lparr>world := p\<rparr>)
          else (case onResizeEnd B Backup_backend p of (e', p') \<Rightarrow> (e', s\<lparr>world := p'\<rparr>)))"

definition allocForTensor ::
  "('m, 'p) backend_ops \<Rightarrow> plan_args \<Rightarrow> op_info list \<Rightarrow> ('m, 'p) pipe \<Rightarrow> error_code \<times> ('m, 'p) pipe" where
  "allocForTensor B a infos s =
     (case plan_commands B a (work_commands infos) (plan_begin B infos s) of
        (e, s1) \<Rightarrow> if e \<noteq> NO_ERROR then (e, s1) else plan_end B (plan_recycle B a infos s1))"

end
