(* ===== verification/Pipeline_Plan.thy ===== *)
theory Pipeline_Plan
  imports Pipeline_Model
begin

text \<open>
  What a plan does with the memory objects of the tensors, for any backends that keep the contract
  \<open>planner\<close>: an object that a later command reads is not given back before, two objects held at the same
  time are recorded as such, and in the end everything has been given back.
\<close>

section \<open>Reference counts\<close>

definition uses :: "('m, 'p) pipe \<Rightarrow> nat list \<Rightarrow> nat \<Rightarrow> nat" where
  "uses s us x = length (filter (\<lambda>t. content (origins s t) = x) us)"

lemma uses_simps [simp]:
  "uses s [] x = 0"
  "uses s (t # us) x = (if content (origins s t) = x then Suc (uses s us x) else uses s us x)"
  "uses s (us @ vs) x = uses s us x + uses s vs x"
  by (simp_all add: uses_def)

lemma uses_pos: "0 < uses s us x \<longleftrightarrow> (\<exists>t \<in> set us. content (origins s t) = x)"
  by (auto simp: uses_def length_greater_0_conv filter_empty_conv)

lemma uses_cong: "(\<And>t. content (origins s' t) = content (origins s t)) \<Longrightarrow> uses s' us x = uses s us x"
  by (simp add: uses_def)

text \<open>The use count of every content that \<open>us\<close> still uses.\<close>

definition counted :: "('m, 'p) pipe \<Rightarrow> nat list \<Rightarrow> bool" where
  "counted s us \<longleftrightarrow>
     (\<forall>x. tusage (describes s x) \<noteq> CONSTANT \<longrightarrow> 0 < uses s us x \<longrightarrow> useCount (describes s x) = int (uses s us x))"

lemma counted_use: "counted s us \<Longrightarrow> tusage (desc s t) \<noteq> CONSTANT \<Longrightarrow> t \<in> set us \<Longrightarrow>
    useCount (desc s t) = int (uses s us (content (origins s t)))"
  using uses_pos [of s us "content (origins s t)"] by (auto simp: counted_def desc_def)

text \<open>What no step of a plan changes: who shares a description, and everything but its use count.\<close>

definition same_frame :: "('m, 'p) pipe \<Rightarrow> ('m, 'p) pipe \<Rightarrow> bool" where
  "same_frame s s' \<longleftrightarrow>
     (\<forall>t. content (origins s' t) = content (origins s t)) \<and> (\<forall>t. ttype (tens s' t) = ttype (tens s t)) \<and>
     (\<forall>x. memoryType (describes s' x) = memoryType (describes s x) \<and> tusage (describes s' x) = tusage (describes s x)
        \<and> group (describes s' x) = group (describes s x))"

lemma same_frame_refl [simp]: "same_frame s s"
  by (simp add: same_frame_def)

lemma same_frame_trans: "same_frame s s' \<Longrightarrow> same_frame s' s'' \<Longrightarrow> same_frame s s''"
  by (simp add: same_frame_def)

lemma fold_pair_type:
  "(\<And>i u z. ttype (fst (f i (u, z))) = ttype u) \<Longrightarrow> ttype (fst (fold f is (t, z))) = ttype t"
proof (induction "is" arbitrary: t z)
  case (Cons i "is")
  then show ?case by (metis fold_simps(2) surj_pair fst_conv)
qed simp

lemma setLinearLayout_type [simp]: "ttype (setLinearLayout t) = ttype t"
  unfolding setLinearLayout_def by (rule fold_pair_type) (simp add: setStride_def Let_def)

lemma same_frameD:
  assumes "same_frame s s'"
  shows "content (origins s' t) = content (origins s t)" and "ttype (tens s' t) = ttype (tens s t)"
    and "memoryType (desc s' t) = memoryType (desc s t)" and "tusage (desc s' t) = tusage (desc s t)"
    and "group (desc s' t) = group (desc s t)" and "uses s' us x = uses s us x"
    and "getTensorStorageType (desc s' t) os = getTensorStorageType (desc s t) os"
  using assms by (simp_all add: same_frame_def desc_def getTensorStorageType_def uses_def)

lemma counted_frame:
  "same_frame s s' \<Longrightarrow> describes s' = describes s \<Longrightarrow> counted s' us = counted s us"
  by (simp add: counted_def same_frameD(6))

lemma count_uses_fields [simp]:
  "origins (count_uses f t s) = origins s" "tens (count_uses f t s) = tens s" "world (count_uses f t s) = world s"
  by (simp_all add: count_uses_def)

lemma count_uses_frame [simp]: "same_frame s (count_uses f t s)"
  by (auto simp: same_frame_def count_uses_def desc_def)

lemma count_uses_describes:
  "useCount (describes (count_uses f t s) x) =
     (if x = content (origins s t) \<and> tusage (describes s x) \<noteq> CONSTANT then f (useCount (describes s x))
      else useCount (describes s x))"
  by (auto simp: count_uses_def desc_def)

lemma uses_count [simp]: "uses (count_uses f t s) us x = uses s us x"
  by (simp add: uses_def)

lemma fold_count_fields [simp]:
  "origins (fold (count_uses f) ts s) = origins s" "tens (fold (count_uses f) ts s) = tens s"
  "world (fold (count_uses f) ts s) = world s"
  by (induction ts arbitrary: s) simp_all

lemma fold_count_frame [simp]: "same_frame s (fold (count_uses f) ts s)"
  by (induction ts arbitrary: s) (auto intro: same_frame_trans [OF count_uses_frame])

lemma tusage_count [simp]: "tusage (describes (count_uses f t s) x) = tusage (describes s x)"
  using count_uses_frame [of s f t] by (simp add: same_frame_def)

lemma fold_count_reset:
  "useCount (describes (fold (count_uses (\<lambda>_. 0)) ts s) x) =
     (if 0 < uses s ts x \<and> tusage (describes s x) \<noteq> CONSTANT then 0 else useCount (describes s x))"
  by (induction ts arbitrary: s) (auto simp: count_uses_describes)

lemma fold_count_add:
  "useCount (describes (fold (count_uses (\<lambda>n. n + 1)) ts s) x) =
     useCount (describes s x) + (if tusage (describes s x) \<noteq> CONSTANT then int (uses s ts x) else 0)"
  by (induction ts arbitrary: s) (auto simp: count_uses_describes)

lemma plan_begin_counted: "counted (plan_begin B infos s) (concat (map workInputs (work_commands infos)))"
proof -
  let ?us = "concat (map workInputs (work_commands infos))"
  let ?s1 = "fold (count_uses (\<lambda>_. 0)) ?us s"
  have "tusage (describes ?s1 x) = tusage (describes s x)" for x
    using fold_count_frame [of s "\<lambda>_. 0" ?us] by (simp add: same_frame_def)
  moreover have "tusage (describes (fold (count_uses (\<lambda>n. n + 1)) ?us ?s1) x) = tusage (describes ?s1 x)" for x
    using fold_count_frame [of ?s1 "\<lambda>n. n + 1" ?us] by (simp add: same_frame_def)
  ultimately show ?thesis
    by (simp add: counted_def plan_begin_def Let_def fold_count_add fold_count_reset uses_def)
qed

lemma plan_begin_frame: "same_frame s (plan_begin B infos s)"
  using same_frame_trans [OF fold_count_frame fold_count_frame]
  by (simp add: plan_begin_def Let_def same_frame_def)

lemma plan_begin_fields [simp]: "origins (plan_begin B infos s) = origins s"
    "world (plan_begin B infos s) = onResizeBegin B Backup_backend (onResizeBegin B Main_backend (world s))"
  by (simp_all add: plan_begin_def Let_def)

text \<open>Releasing one use keeps the counts of the uses that are left.\<close>

lemma set_mem_fields [simp]:
  "tens (set_mem B t new s) = tens s" "describes (set_mem B t new s) = describes s"
  "content (origins (set_mem B t new s) u) = content (origins s u)"
  "backend_of (origins (set_mem B t new s) u) = backend_of (origins s u)"
  "mem (origins (set_mem B t new s) u) = (if u = t then new else mem (origins s u))"
  by (simp_all add: set_mem_def)

lemma set_mem_frame [simp]: "same_frame s (set_mem B t new s)"
  by (simp add: same_frame_def)

lemma counted_release:
  assumes "counted s (t # us)"
  shows "counted (count_uses (\<lambda>n. n - 1) t s) us"
  unfolding counted_def
proof (intro allI impI)
  fix x assume x: "tusage (describes (count_uses (\<lambda>n. n - 1) t s) x) \<noteq> CONSTANT"
    "0 < uses (count_uses (\<lambda>n. n - 1) t s) us x"
  then have "0 < uses s us x" by (simp add:)
  with assms x have "useCount (describes s x) = int (uses s (t # us) x)"
    unfolding counted_def by (metis less_SucI tusage_count uses_simps(2))
  then show "useCount (describes (count_uses (\<lambda>n. n - 1) t s) x) = int (uses (count_uses (\<lambda>n. n - 1) t s) us x)"
    using x by (auto simp: count_uses_describes)
qed

lemma releaseTensor_cases:
  obtains "releaseTensor B ai grp t s = count_uses (\<lambda>n. n - 1) t s"
    | "releaseTensor B ai grp t s = set_mem B t None (count_uses (\<lambda>n. n - 1) t s)"
      "needRelease (count_uses (\<lambda>n. n - 1) t s) t (\<not> ai)"
proof -
  let ?s = "count_uses (\<lambda>n. n - 1) t s"
  show thesis
  proof (cases "group (desc ?s t) = grp \<and> needRelease ?s t (\<not> ai)")
    case True
    then show thesis by (intro that(2)) (simp_all add: releaseTensor_def Let_def)
  next
    case False
    then show thesis by (intro that(1)) (auto simp: releaseTensor_def Let_def)
  qed
qed

lemma releaseTensor_frame: "same_frame s (releaseTensor B ai grp t s)"
  by (rule releaseTensor_cases [of B ai grp t s])
    (metis count_uses_frame, metis count_uses_frame set_mem_frame same_frame_trans)

lemma counted_set_mem [simp]: "counted (set_mem B t new s) us = counted s us"
  by (rule counted_frame) simp_all

lemma releaseTensor_counted: "counted s (t # us) \<Longrightarrow> counted (releaseTensor B ai grp t s) us"
  by (rule releaseTensor_cases [of B ai grp t s]) (simp_all add: counted_release)

text \<open>A tensor with a use left keeps its memory.\<close>

lemma releaseTensor_keeps:
  assumes c: "counted s (t # us)" and u: "u \<in> set us"
  shows "mem (origins (releaseTensor B ai grp t s) u) = mem (origins s u)"
proof (rule releaseTensor_cases [of B ai grp t s])
  let ?s = "count_uses (\<lambda>n. n - 1) t s"
  assume eq: "releaseTensor B ai grp t s = set_mem B t None ?s" and need: "needRelease ?s t (\<not> ai)"
  have "u \<noteq> t"
  proof
    assume "u = t"
    show False
    proof (cases "tusage (desc ?s t) = CONSTANT")
      case True
      then show False using need by (auto simp: needRelease_def split: if_splits)
    next
      case False
      then have "useCount (desc ?s t) > 0"
        using counted_use [OF counted_release [OF c], of t] uses_pos [of ?s us] u \<open>u = t\<close> by auto
      then show False using need by (simp add: needRelease_def)
    qed
  qed
  then show ?thesis by (simp add: eq)
qed simp

lemma releases_keep:
  assumes "counted s (ts @ us)" and "u \<in> set us"
  shows "mem (origins (fold (releaseTensor B ai grp) ts s) u) = mem (origins s u)"
    and "counted (fold (releaseTensor B ai grp) ts s) us"
  using assms by (induction ts arbitrary: s) (simp_all add: releaseTensor_keeps releaseTensor_counted)

lemma releases_counted:
  "counted s (ts @ us) \<Longrightarrow> counted (fold (releaseTensor B ai grp) ts s) us"
  by (induction ts arbitrary: s) (auto intro: releaseTensor_counted)

lemma releases_frame: "same_frame s (fold (releaseTensor B ai grp) ts s)"
  by (induction ts arbitrary: s) (auto intro: same_frame_trans [OF releaseTensor_frame])

text \<open>The state in which the kernel of command \<open>k\<close> runs: its operands have their memory.\<close>

fun plan_state ::
  "('m, 'p) backend_ops \<Rightarrow> plan_args \<Rightarrow> command list \<Rightarrow> ('m, 'p) pipe \<Rightarrow> nat \<Rightarrow> ('m, 'p) pipe" where
  "plan_state B a [] s k = s"
| "plan_state B a (c # cs) s 0 = snd (command_alloc B a c s)"
| "plan_state B a (c # cs) s (Suc k) =
     plan_state B a cs (command_release B a c (snd (command_resize B a c (snd (command_alloc B a c s))))) k"

lemma plan_commands_Cons:
  assumes "plan_commands B a (c # cs) s = (NO_ERROR, s')"
  obtains s1 s2 where "command_alloc B a c s = (True, s1)" and "command_resize B a c s1 = (NO_ERROR, s2)"
    and "plan_commands B a cs (command_release B a c s2) = (NO_ERROR, s')"
proof -
  obtain b s1 where 1: "command_alloc B a c s = (b, s1)" by fastforce
  obtain e s2 where 2: "command_resize B a c s1 = (e, s2)" by fastforce
  show ?thesis using assms 1 2 that by (cases b; cases "e = NO_ERROR") simp_all
qed

text \<open>
  When a plan gives everything back: an intermediate tensor or an output belongs to a command of the
  group, whose operands are recycled; an input is read only, and when the plan allocates inputs, its
  description is its own and does not keep it from being released; constants and parameters are read
  only and have memory of their own.
\<close>

definition operands :: "command \<Rightarrow> nat set" where
  "operands c = set (workInputs c) \<union> set (workOutputs c)"

definition recycled :: "plan_args \<Rightarrow> op_info list \<Rightarrow> nat \<Rightarrow> bool" where
  "recycled a infos t \<longleftrightarrow> (\<exists>c \<in> set (all_commands infos). cgroup c = plan_group a \<and> t \<in> operands c)"

definition read_only :: "op_info list \<Rightarrow> nat \<Rightarrow> bool" where
  "read_only infos t \<longleftrightarrow> (\<forall>c \<in> set (work_commands infos). t \<notin> set (workOutputs c))"

definition releasable :: "('m, 'p) pipe \<Rightarrow> op_info list \<Rightarrow> nat \<Rightarrow> bool" where
  "releasable s infos t \<longleftrightarrow>
     memoryType (desc s t) \<notin> {MEMORY_HOST, MEMORY_OUTSIDE} \<and> code (ttype (tens s t)) \<noteq> halide_type_handle \<and>
     (\<forall>c \<in> set (work_commands infos). \<forall>u \<in> set (workInputs c). content (origins s u) = content (origins s t) \<longrightarrow> u = t)"

definition operand_ok :: "plan_args \<Rightarrow> op_info list \<Rightarrow> ('m, 'p) pipe \<Rightarrow> nat \<Rightarrow> bool" where
  "operand_ok a infos s t \<longleftrightarrow>
     (if tusage (desc s t) \<in> {NORMAL, OUTPUT} then recycled a infos t
      else if tusage (desc s t) = INPUT then read_only infos t \<and> (allocInput a \<longrightarrow> releasable s infos t)
      else read_only infos t \<and> (allocInput a \<longrightarrow> mem (origins s t) \<noteq> None))"

definition well_formed :: "plan_args \<Rightarrow> op_info list \<Rightarrow> ('m, 'p) pipe \<Rightarrow> bool" where
  "well_formed a infos s \<longleftrightarrow>
     (\<forall>c \<in> set (work_commands infos). \<forall>t \<in> operands c. group (desc s t) = plan_group a \<longrightarrow> operand_ok a infos s t)"

section \<open>The contract of the backends\<close>

text \<open>
  \<open>held p L C\<close>: the backends have given out the dynamic objects \<open>L\<close>, and \<open>C\<close> are the pairs that have
  been out at the same time. \<open>cached p\<close> are the objects kernels hold until the end of the plan,
  \<open>pool_of m\<close> is the pool of a dynamic object.
\<close>

locale planner =
  fixes B :: "('m, 'p) backend_ops"
    and ready :: "'p \<Rightarrow> bool"
    and held :: "'p \<Rightarrow> 'm set \<Rightarrow> ('m \<times> 'm) set \<Rightarrow> bool"
    and cached :: "'p \<Rightarrow> 'm set"
    and pool_of :: "'m \<Rightarrow> nat option"
  assumes held_dynamic: "held p L C \<Longrightarrow> m \<in> L \<Longrightarrow> pool_of m \<noteq> None"
    and held_pairs: "held p L C \<Longrightarrow> x \<in> L \<Longrightarrow> y \<in> L \<Longrightarrow> x \<noteq> y \<Longrightarrow> pool_of x = pool_of y \<Longrightarrow> (x, y) \<in> C \<or> (y, x) \<in> C"
    and begin_held: "ready p \<Longrightarrow> held (onResizeBegin B Backup_backend (onResizeBegin B Main_backend p)) {} {}"
    and begin_cached: "ready p \<Longrightarrow> cached (onResizeBegin B Backup_backend (onResizeBegin B Main_backend p)) = {}"
    and acquire_frame: "onAcquire B bk t st s = (r, s') \<Longrightarrow> mem (origins s t) = None \<Longrightarrow>
      origins s' = origins s \<and> describes s' = describes s \<and> tens s' = tens s \<and> cached (world s') = cached (world s)"
    and acquire_fails: "onAcquire B bk t st s = (None, s') \<Longrightarrow> mem (origins s t) = None \<Longrightarrow>
      held (world s) L C \<Longrightarrow> held (world s') L C"
    and acquire_static: "onAcquire B bk t st s = (Some m, s') \<Longrightarrow> mem (origins s t) = None \<Longrightarrow>
      pool_of m = None \<Longrightarrow> held (world s) L C \<Longrightarrow> held (world s') L C"
    and acquire_dynamic: "onAcquire B bk t st s = (Some m, s') \<Longrightarrow> mem (origins s t) = None \<Longrightarrow>
      pool_of m \<noteq> None \<Longrightarrow> held (world s) L C \<Longrightarrow>
      st \<noteq> STATIC \<and> m \<notin> L \<and> held (world s') (insert m L) (C \<union> {(x, m) | x. x \<in> L \<and> pool_of x = pool_of m})"
    and free_held: "held p L C \<Longrightarrow> pool_of m = None \<or> m \<in> L \<Longrightarrow> held (free_mem B m p) (L - {m}) C"
    and free_cached: "cached (free_mem B m p) = cached p"

text \<open>
  What a kernel may do in \<open>onResize\<close>: it gives back what it takes, except for objects it puts into the
  cache, and leaves the tensors of the pipeline alone.
\<close>

definition kernels_ok ::
  "('m, 'p) backend_ops \<Rightarrow> ('p \<Rightarrow> 'm set \<Rightarrow> ('m \<times> 'm) set \<Rightarrow> bool) \<Rightarrow> ('p \<Rightarrow> 'm set) \<Rightarrow> bool" where
  "kernels_ok B held cached \<longleftrightarrow>
     (\<forall>c s s'. onResize B c s = (NO_ERROR, s') \<longrightarrow>
        origins s' = origins s \<and> describes s' = describes s \<and> tens s' = tens s \<and>
        (\<forall>L C. held (world s) L C \<longrightarrow> cached (world s) \<subseteq> L \<longrightarrow>
           (\<exists>K C'. held (world s') (L \<union> K) C' \<and> C \<subseteq> C' \<and> K \<inter> L = {} \<and> cached (world s') = cached (world s) \<union> K)))"

context planner
begin

definition dyn_mems :: "('m, 'p) pipe \<Rightarrow> 'm set" where
  "dyn_mems s = {m. pool_of m \<noteq> None \<and> (\<exists>t. mem (origins s t) = Some m)}"

text \<open>What is out is what the tensors and the caches hold, and each object has one owner.\<close>

definition planned :: "('m, 'p) pipe \<Rightarrow> ('m \<times> 'm) set \<Rightarrow> bool" where
  "planned s C \<longleftrightarrow>
     held (world s) (dyn_mems s \<union> cached (world s)) C \<and> dyn_mems s \<inter> cached (world s) = {} \<and>
     (\<forall>t u m. mem (origins s t) = Some m \<longrightarrow> mem (origins s u) = Some m \<longrightarrow> pool_of m \<noteq> None \<longrightarrow> t = u)"

definition evolves :: "('m, 'p) pipe \<Rightarrow> ('m, 'p) pipe \<Rightarrow> bool" where
  "evolves s s' \<longleftrightarrow> (\<forall>C. planned s C \<longrightarrow> (\<exists>C'. planned s' C' \<and> C \<subseteq> C'))"

lemma evolves_refl [simp]: "evolves s s"
  by (auto simp: evolves_def)

lemma evolves_trans: "evolves s s' \<Longrightarrow> evolves s' s'' \<Longrightarrow> evolves s s''"
  unfolding evolves_def by (meson order_trans)

lemma planned_cong:
  "origins s' = origins s \<Longrightarrow> world s' = world s \<Longrightarrow> planned s' C = planned s C"
  by (simp add: planned_def dyn_mems_def)

lemma count_uses_evolves [simp]: "evolves s (count_uses f t s)"
proof -
  have "planned (count_uses f t s) C = planned s C" for C by (rule planned_cong) simp_all
  then show ?thesis by (auto simp: evolves_def)
qed

lemma set_mem_None_evolves: "evolves s (set_mem B t None s)"
  unfolding evolves_def
proof (intro allI impI)
  fix C assume p: "planned s C"
  let ?s = "set_mem B t None s"
  show "\<exists>C'. planned ?s C' \<and> C \<subseteq> C'"
  proof (cases "mem (origins s t)")
    case None
    then have "(origins s t)\<lparr>mem := None\<rparr> = origins s t" by (cases "origins s t") simp
    with None have "origins ?s = origins s" "world ?s = world s" by (simp_all add: set_mem_def fun_upd_idem_iff)
    from planned_cong [OF this] show ?thesis using p by blast
  next
    case (Some m)
    have one: "mem (origins s u) = Some m \<Longrightarrow> pool_of m \<noteq> None \<Longrightarrow> u = t" for u
      using p Some by (auto simp: planned_def)
    have w: "world ?s = free_mem B m (world s)" using Some by (simp add: set_mem_def)
    have d: "dyn_mems ?s = dyn_mems s - {m}"
    proof (rule set_eqI)
      fix n
      have "n \<in> dyn_mems ?s \<longleftrightarrow> pool_of n \<noteq> None \<and> (\<exists>u. u \<noteq> t \<and> mem (origins s u) = Some n)"
        by (auto simp: dyn_mems_def split: if_splits)
      also have "\<dots> \<longleftrightarrow> pool_of n \<noteq> None \<and> n \<noteq> m \<and> (\<exists>u. mem (origins s u) = Some n)"
        using one Some by (metis option.inject)
      finally show "n \<in> dyn_mems ?s \<longleftrightarrow> n \<in> dyn_mems s - {m}" by (auto simp: dyn_mems_def)
    qed
    have nc: "m \<notin> cached (world s)"
    proof
      assume m: "m \<in> cached (world s)"
      then have "m \<in> dyn_mems s \<union> cached (world s)" and "held (world s) (dyn_mems s \<union> cached (world s)) C"
        using p by (simp_all add: planned_def)
      then have "pool_of m \<noteq> None" by (intro held_dynamic)
      then have "m \<in> dyn_mems s" using Some by (auto simp: dyn_mems_def)
      then show False using m p by (auto simp: planned_def)
    qed
    have "held (world ?s) (dyn_mems s \<union> cached (world s) - {m}) C"
      unfolding w using p Some by (intro free_held) (auto simp: planned_def dyn_mems_def)
    then have "planned ?s C"
      using p nc by (auto simp: planned_def d w free_cached Un_Diff split: if_splits)
    then show ?thesis by blast
  qed
qed

lemma releaseTensor_evolves: "evolves s (releaseTensor B ai grp t s)"
  by (rule releaseTensor_cases [of B ai grp t s])
    (metis count_uses_evolves, metis count_uses_evolves set_mem_None_evolves evolves_trans)

lemma fold_evolves: "(\<And>t s. evolves s (f t s)) \<Longrightarrow> evolves s (fold f ts s)"
  by (induction ts arbitrary: s) (simp, simp only: fold_simps, metis evolves_trans)

lemma releases_evolve: "evolves s (fold (releaseTensor B ai grp) ts s)"
  by (rule fold_evolves) (rule releaseTensor_evolves)

text \<open>Acquiring memory for a tensor without any.\<close>

lemma planned_static:
  assumes p: "planned s C" and none: "mem (origins s t) = None" and m: "mem (origins s' t) = Some m" "pool_of m = None"
    and others: "\<And>u. u \<noteq> t \<Longrightarrow> mem (origins s' u) = mem (origins s u)"
    and c: "cached (world s') = cached (world s)"
    and h: "\<And>L C. held (world s) L C \<Longrightarrow> held (world s') L C"
  shows "planned s' C"
proof -
  have iff: "pool_of n \<noteq> None \<Longrightarrow> mem (origins s' u) = Some n \<longleftrightarrow> mem (origins s u) = Some n" for u n
    using none m others by (cases "u = t") auto
  then have "dyn_mems s' = dyn_mems s" by (auto simp: dyn_mems_def)
  then show ?thesis using p iff c h by (auto simp: planned_def)
qed

lemma planned_dynamic:
  assumes p: "planned s C" and none: "mem (origins s t) = None" and m: "mem (origins s' t) = Some m" "pool_of m \<noteq> None"
    and others: "\<And>u. u \<noteq> t \<Longrightarrow> mem (origins s' u) = mem (origins s u)"
    and c: "cached (world s') = cached (world s)"
    and new: "m \<notin> dyn_mems s \<union> cached (world s)"
    and h: "held (world s') (insert m (dyn_mems s \<union> cached (world s))) C'"
  shows "planned s' C'"
proof -
  have "mem (origins s' u) = Some n \<longleftrightarrow> (if u = t then n = m else mem (origins s u) = Some n)" for u n
    using m others by (cases "u = t") auto
  note iff = this
  have "dyn_mems s' = insert m (dyn_mems s)"
    unfolding dyn_mems_def iff using none m by (auto split: if_splits) (metis option.distinct(1))+
  moreover have "u = v" if "mem (origins s' u) = Some n" "mem (origins s' v) = Some n" "pool_of n \<noteq> None" for u v n
    using that p new by (auto simp: iff planned_def dyn_mems_def split: if_splits)
  ultimately show ?thesis using p new h c by (auto simp: planned_def)
qed

definition acquired :: "nat \<Rightarrow> ('m, 'p) pipe \<Rightarrow> ('m, 'p) pipe \<Rightarrow> bool" where
  "acquired t s s' \<longleftrightarrow> evolves s s' \<and> same_frame s s' \<and> describes s' = describes s \<and>
     (\<forall>u. u \<noteq> t \<longrightarrow> origins s' u = origins s u) \<and>
     (mem (origins s t) \<noteq> None \<longrightarrow> origins s' t = origins s t) \<and>
     (mem (origins s t) = None \<longrightarrow> mem (origins s' t) \<noteq> None \<longrightarrow> backend_of (origins s' t) \<noteq> None)"

lemma onAcquireBuffer_step:
  assumes eq: "onAcquireBuffer B bk t st s = (ok, s')" and none: "mem (origins s t) = None"
  shows "acquired t s s'" and "mem (origins s' t) = Some m \<Longrightarrow> pool_of m \<noteq> None \<Longrightarrow> (\<exists>C. planned s C) \<Longrightarrow> st \<noteq> STATIC"
proof -
  obtain r s1 where acq: "onAcquire B bk t st s = (r, s1)" by fastforce
  note fr = acquire_frame [OF acq none]
  then have f: "origins s1 = origins s" "describes s1 = describes s" "tens s1 = tens s"
    "cached (world s1) = cached (world s)" by simp_all
  have "acquired t s s' \<and> (mem (origins s' t) = Some m \<longrightarrow> pool_of m \<noteq> None \<longrightarrow> (\<exists>C. planned s C) \<longrightarrow> st \<noteq> STATIC)"
  proof (cases r)
    case None
    have s': "s' = s1" using eq acq None by (simp add: onAcquireBuffer_def)
    have "planned s1 C" if "planned s C" for C
      using that acquire_fails [OF acq [unfolded None] none] f by (simp add: planned_def dyn_mems_def)
    then show ?thesis using f none by (auto simp: s' acquired_def evolves_def same_frame_def)
  next
    case (Some k)
    have o': "origins s' = (origins s)(t := (origins s t)\<lparr>mem := Some k,
          backend_of := (if backend_of (origins s t) = None then Some bk else backend_of (origins s t))\<rparr>)"
      and w': "world s' = world s1" and d': "describes s' = describes s" "tens s' = tens s"
      using eq acq Some none f by (auto simp: onAcquireBuffer_def set_mem_def Let_def split: if_splits)
    then have others: "u \<noteq> t \<Longrightarrow> mem (origins s' u) = mem (origins s u)" and k: "mem (origins s' t) = Some k" for u
      by simp_all
    have c': "cached (world s') = cached (world s)" using f w' by simp
    have step: "(\<exists>C'. planned s' C' \<and> C \<subseteq> C') \<and> (pool_of k \<noteq> None \<longrightarrow> st \<noteq> STATIC)" if p: "planned s C" for C
    proof (cases "pool_of k = None")
      case True
      from acquire_static [OF acq [unfolded Some] none True] have "held (world s) L D \<Longrightarrow> held (world s') L D" for L D
        by (simp add: w')
      from planned_static [OF p none k True others c' this] True show ?thesis by blast
    next
      case False
      have "held (world s) (dyn_mems s \<union> cached (world s)) C" using p by (simp add: planned_def)
      note dyn = acquire_dynamic [OF acq [unfolded Some] none False this]
      from planned_dynamic [OF p none k False others c' _ dyn [THEN conjunct2, THEN conjunct2, folded w']] dyn
      show ?thesis by blast
    qed
    then have "evolves s s'" by (auto simp: evolves_def)
    moreover have "same_frame s s'" using d' by (simp add: same_frame_def o')
    moreover have "backend_of (origins s' t) \<noteq> None" by (simp add: o')
    ultimately show ?thesis using step d' none k by (auto simp: acquired_def o')
  qed
  then show "acquired t s s'"
    and "mem (origins s' t) = Some m \<Longrightarrow> pool_of m \<noteq> None \<Longrightarrow> (\<exists>C. planned s C) \<Longrightarrow> st \<noteq> STATIC" by blast+
qed

lemma acquired_refl [simp]: "acquired t s s"
  by (simp add: acquired_def)

lemma linear_layout_step:
  "acquired t (s\<lparr>tens := (tens s)(t := setLinearLayout (tens s t))\<rparr>) s' \<Longrightarrow> acquired t s s'"
proof -
  let ?s = "s\<lparr>tens := (tens s)(t := setLinearLayout (tens s t))\<rparr>"
  have "planned ?s C = planned s C" for C by (rule planned_cong) simp_all
  then have "evolves s ?s" by (auto simp: evolves_def)
  moreover have "same_frame s ?s" by (simp add: same_frame_def)
  ultimately show "acquired t ?s s' \<Longrightarrow> acquired t s s'"
    using evolves_trans [of s ?s s'] same_frame_trans [of s ?s s'] by (simp add: acquired_def)
qed

lemma allocTensor_step:
  assumes "allocTensor B bk os grp t s = (ok, s')"
  shows "acquired t s s'"
proof (cases "group (desc s t) = grp \<and> mem (origins s t) = None")
  case True
  let ?s = "s\<lparr>tens := (tens s)(t := setLinearLayout (tens s t))\<rparr>"
  have "onAcquireBuffer B bk t (getTensorStorageType (desc s t) os) ?s = (ok, s')"
    using assms True by (simp add: allocTensor_def Let_def)
  then have "acquired t ?s s'" by (rule onAcquireBuffer_step(1)) (use True in simp)
  then show ?thesis by (rule linear_layout_step)
next
  case False
  then have "s' = s" using assms by (auto simp: allocTensor_def Let_def split: if_splits)
  then show ?thesis by simp
qed

text \<open>A tensor that comes by a dynamic object has the group of the plan and was without memory.\<close>

lemma allocTensor_dynamic:
  assumes "allocTensor B bk os grp t s = (ok, s')" and "planned s C"
    and "mem (origins s' t) = Some m" and "pool_of m \<noteq> None" and "mem (origins s t) = None"
  shows "group (desc s t) = grp \<and> getTensorStorageType (desc s t) os \<noteq> STATIC"
proof (cases "group (desc s t) = grp")
  case True
  let ?s = "s\<lparr>tens := (tens s)(t := setLinearLayout (tens s t))\<rparr>"
  have "onAcquireBuffer B bk t (getTensorStorageType (desc s t) os) ?s = (ok, s')"
    using assms(1,5) True by (simp add: allocTensor_def Let_def)
  moreover have "planned ?s C" using assms(2) planned_cong [of ?s s C] by simp
  ultimately show ?thesis
    using onAcquireBuffer_step(2) [of bk t "getTensorStorageType (desc s t) os" ?s ok s' m] assms(3,4,5) True by auto
next
  case False
  then have "s' = s" using assms(1) by (simp add: allocTensor_def Let_def)
  then show ?thesis using assms(3,5) by simp
qed

text \<open>What the allocations of a command keep.\<close>

definition allocated :: "nat set \<Rightarrow> ('m, 'p) pipe \<Rightarrow> ('m, 'p) pipe \<Rightarrow> bool" where
  "allocated T s s' \<longleftrightarrow> evolves s s' \<and> same_frame s s' \<and> describes s' = describes s \<and>
     (\<forall>u. u \<notin> T \<or> mem (origins s u) \<noteq> None \<longrightarrow> origins s' u = origins s u) \<and>
     (\<forall>u. mem (origins s u) = None \<longrightarrow> mem (origins s' u) \<noteq> None \<longrightarrow> backend_of (origins s' u) \<noteq> None)"

lemma allocated_refl [simp]: "allocated T s s"
  by (simp add: allocated_def)

lemma allocated_trans:
  assumes 1: "allocated T s s'" and 2: "allocated T s' s''"
  shows "allocated T s s''"
proof -
  have "evolves s s''" "same_frame s s''" "describes s'' = describes s"
    using 1 2 evolves_trans [of s s' s''] same_frame_trans [of s s' s''] by (simp_all add: allocated_def)
  moreover have "origins s'' u = origins s u" if "u \<notin> T \<or> mem (origins s u) \<noteq> None" for u
  proof -
    have "origins s' u = origins s u" using 1 that by (simp add: allocated_def)
    moreover have "origins s'' u = origins s' u" using 2 that calculation by (simp add: allocated_def)
    ultimately show ?thesis by simp
  qed
  moreover have "backend_of (origins s'' u) \<noteq> None" if "mem (origins s u) = None" "mem (origins s'' u) \<noteq> None" for u
  proof (cases "mem (origins s' u) = None")
    case True
    then show ?thesis using 2 that(2) by (simp only: allocated_def) blast
  next
    case False
    then have "origins s'' u = origins s' u" using 2 by (simp only: allocated_def) blast
    moreover have "backend_of (origins s' u) \<noteq> None" using 1 that(1) False by (simp only: allocated_def) blast
    ultimately show ?thesis by simp
  qed
  ultimately show ?thesis by (simp only: allocated_def) blast
qed

lemma acquired_allocated:
  assumes "acquired t s s'" and "t \<in> T"
  shows "allocated T s s'"
proof -
  have "u \<noteq> t \<Longrightarrow> origins s' u = origins s u" for u using assms(1) by (simp add: acquired_def)
  then show ?thesis using assms unfolding acquired_def allocated_def by metis
qed

lemma allocTensors_step: "allocTensors B bk os grp ts s = (ok, s') \<Longrightarrow> set ts \<subseteq> T \<Longrightarrow> allocated T s s'"
proof (induction ts arbitrary: s)
  case (Cons t ts)
  obtain b s1 where t: "allocTensor B bk os grp t s = (b, s1)" by fastforce
  have s1: "allocated T s s1" using Cons.prems(2) by (intro acquired_allocated [OF allocTensor_step [OF t]]) simp
  show ?case
  proof (cases b)
    case True
    then show ?thesis using Cons s1 t by (auto intro: allocated_trans)
  next
    case False
    then show ?thesis using Cons.prems(1) s1 t by simp
  qed
qed simp

lemma command_alloc_step:
  assumes "command_alloc B a c s = (ok, s')"
  shows "allocated (set (workInputs c) \<union> set (workOutputs c)) s s'"
proof -
  let ?T = "set (workInputs c) \<union> set (workOutputs c)"
  let ?al = "\<lambda>ts s. allocTensors B (execution_backend c) (outputStatic a) (plan_group a) ts s"
  obtain b s1 where b: "(if allocInput a \<and> needAllocIO c then ?al (workInputs c) s else (True, s)) = (b, s1)"
    by fastforce
  then have s1: "allocated ?T s s1" using allocTensors_step [of _ _ _ "workInputs c" s b s1 ?T]
    by (auto split: if_splits)
  have "s' = s1 \<or> ?al (workOutputs c) s1 = (ok, s')"
    using assms b by (auto simp: command_alloc_def Let_def split: if_splits)
  then show ?thesis using s1 allocTensors_step [of _ _ _ "workOutputs c" s1 ok s' ?T] by (auto intro: allocated_trans)
qed

text \<open>A kernel and the releases behind it.\<close>

lemma command_resize_step:
  assumes "kernels_ok B held cached" and "command_resize B a c s = (NO_ERROR, s')"
  shows "evolves s s'" and "origins s' = origins s" and "describes s' = describes s" and "same_frame s s'"
proof -
  have *: "evolves s s' \<and> origins s' = origins s \<and> describes s' = describes s \<and> same_frame s s'"
  proof (cases "cgroup c = plan_group a")
    case True
    then have "onResize B c s = (NO_ERROR, s')" using assms(2) by (simp add: command_resize_def)
    then have f: "origins s' = origins s" "describes s' = describes s" "tens s' = tens s"
      and k: "\<And>L C. held (world s) L C \<Longrightarrow> cached (world s) \<subseteq> L \<Longrightarrow>
        \<exists>K C'. held (world s') (L \<union> K) C' \<and> C \<subseteq> C' \<and> K \<inter> L = {} \<and> cached (world s') = cached (world s) \<union> K"
      using assms(1) unfolding kernels_ok_def by blast+
    have "\<exists>C'. planned s' C' \<and> C \<subseteq> C'" if p: "planned s C" for C
    proof -
      have h: "held (world s) (dyn_mems s \<union> cached (world s)) C" using p by (simp add: planned_def)
      obtain K C' where K: "held (world s') (dyn_mems s \<union> cached (world s) \<union> K) C'" "C \<subseteq> C'"
          "K \<inter> (dyn_mems s \<union> cached (world s)) = {}" "cached (world s') = cached (world s) \<union> K"
        using k [OF h] by blast
      have "dyn_mems s' = dyn_mems s" by (simp add: dyn_mems_def f)
      then have "planned s' C'" using p K by (auto simp: planned_def f Un_assoc)
      then show ?thesis using K(2) by blast
    qed
    then show ?thesis using f by (simp add: evolves_def same_frame_def)
  next
    case False
    then show ?thesis using assms(2) by (simp add: command_resize_def)
  qed
  then show "evolves s s'" and "origins s' = origins s" and "describes s' = describes s" and "same_frame s s'"
    by simp_all
qed

text \<open>The uses that are left, from one command to the next.\<close>

definition inputs_of :: "command list \<Rightarrow> nat list" where
  "inputs_of cs = concat (map workInputs cs)"

lemma inputs_of_simps [simp]: "inputs_of [] = []" "inputs_of (c # cs) = workInputs c @ inputs_of cs"
  by (simp_all add: inputs_of_def)

lemma inputs_of_nth: "j < length cs \<Longrightarrow> t \<in> set (workInputs (cs ! j)) \<Longrightarrow> t \<in> set (inputs_of cs)"
  by (auto simp: inputs_of_def)

lemma command_counted:
  assumes k: "kernels_ok B held cached" and c: "counted s (inputs_of (c # cs))"
    and 1: "command_alloc B a c s = (ok, s1)" and 2: "command_resize B a c s1 = (NO_ERROR, s2)"
  shows "counted s2 (workInputs c @ inputs_of cs)" and "same_frame s s2"
proof -
  have a: "same_frame s s1" "describes s1 = describes s"
    using command_alloc_step [OF 1] by (simp_all add: allocated_def)
  note r = command_resize_step [OF k 2]
  show f: "same_frame s s2" using same_frame_trans a(1) r(4) by blast
  show "counted s2 (workInputs c @ inputs_of cs)"
    using c counted_frame [OF f] a(2) r(3) by simp
qed

lemma plan_keeps:
  assumes "kernels_ok B held cached" and "counted s (inputs_of cs)" and "plan_commands B a cs s = (NO_ERROR, s')"
    and "mem (origins s t) = Some m" and "j < length cs" and "t \<in> set (workInputs (cs ! j))" and "k \<le> j"
  shows "mem (origins (plan_state B a cs s k) t) = Some m"
  using assms(2-)
proof (induction cs arbitrary: s j k)
  case (Cons c cs)
  from Cons.prems(2) obtain s1 s2 where 1: "command_alloc B a c s = (True, s1)" and 2: "command_resize B a c s1 = (NO_ERROR, s2)"
    and rest: "plan_commands B a cs (command_release B a c s2) = (NO_ERROR, s')" by (rule plan_commands_Cons)
  have m1: "mem (origins s1 t) = Some m"
    using command_alloc_step [OF 1] Cons.prems(3) unfolding allocated_def by (metis option.distinct(1))
  show ?case
  proof (cases k)
    case 0
    then show ?thesis using m1 1 by simp
  next
    case (Suc k')
    then obtain j' where j: "j = Suc j'" "k' \<le> j'" using Cons.prems(6) by (cases j) auto
    have t: "j' < length cs" "t \<in> set (workInputs (cs ! j'))" using Cons.prems(4,5) j by auto
    note counted = command_counted(1) [OF assms(1) Cons.prems(1) 1 2]
    note keep = releases_keep [OF counted inputs_of_nth [OF t], of B "allocInput a" "plan_group a", folded command_release_def]
    have "mem (origins (command_release B a c s2) t) = Some m"
      using keep(1) m1 command_resize_step(2) [OF assms(1) 2] by (simp add: command_release_def)
    from Cons.IH [OF _ rest this t j(2)] keep(2) show ?thesis
      using Suc 1 2 by (simp add: command_release_def)
  qed
qed simp

lemma plan_stable:
  assumes "kernels_ok B held cached" and "counted s (inputs_of cs)" and "plan_commands B a cs s = (NO_ERROR, s')"
    and "mem (origins (plan_state B a cs s i) t) = Some m" and "j < length cs" and "t \<in> set (workInputs (cs ! j))"
    and "i \<le> k" and "k \<le> j"
  shows "mem (origins (plan_state B a cs s k) t) = Some m"
  using assms(2-)
proof (induction cs arbitrary: s i j k)
  case (Cons c cs)
  from Cons.prems(2) obtain s1 s2 where 1: "command_alloc B a c s = (True, s1)" and 2: "command_resize B a c s1 = (NO_ERROR, s2)"
    and rest: "plan_commands B a cs (command_release B a c s2) = (NO_ERROR, s')" by (rule plan_commands_Cons)
  note counted = command_counted(1) [OF assms(1) Cons.prems(1) 1 2]
  let ?s3 = "command_release B a c s2"
  have c3: "counted ?s3 (inputs_of cs)" using releases_counted [OF counted] by (simp add: command_release_def)
  show ?case
  proof (cases k)
    case 0
    then show ?thesis using Cons.prems by simp
  next
    case (Suc k')
    then obtain j' where j: "j = Suc j'" "k' \<le> j'" using Cons.prems(7) by (cases j) auto
    have t: "j' < length cs" "t \<in> set (workInputs (cs ! j'))" using Cons.prems(4,5) j by auto
    show ?thesis
    proof (cases i)
      case 0
      then have "mem (origins s1 t) = Some m" using Cons.prems(3) 1 by simp
      then have "mem (origins ?s3 t) = Some m"
        using releases_keep(1) [OF counted inputs_of_nth [OF t]] command_resize_step(2) [OF assms(1) 2]
        by (simp add: command_release_def)
      from plan_keeps [OF assms(1) c3 rest this t j(2)] show ?thesis using Suc 1 2 by simp
    next
      case (Suc i')
      then have "mem (origins (plan_state B a cs ?s3 i') t) = Some m" "i' \<le> k'"
        using Cons.prems(3,6) 1 2 \<open>k = Suc k'\<close> by simp_all
      from Cons.IH [OF c3 rest this(1) t this(2) j(2)] show ?thesis using \<open>k = Suc k'\<close> 1 2 by simp
    qed
  qed
qed simp

text \<open>Objects the tensors hold at the same command are recorded as held at the same time.\<close>

definition coheld :: "('m \<times> 'm) set \<Rightarrow> ('m, 'p) pipe \<Rightarrow> bool" where
  "coheld C s \<longleftrightarrow> (\<forall>t u m n. mem (origins s t) = Some m \<longrightarrow> mem (origins s u) = Some n \<longrightarrow> t \<noteq> u \<longrightarrow>
     pool_of m \<noteq> None \<longrightarrow> pool_of m = pool_of n \<longrightarrow> (m, n) \<in> C \<or> (n, m) \<in> C)"

lemma coheld_mono: "coheld C s \<Longrightarrow> C \<subseteq> C' \<Longrightarrow> coheld C' s"
  unfolding coheld_def by blast

lemma planned_coheld:
  assumes "planned s C"
  shows "coheld C s"
  unfolding coheld_def
proof (intro allI impI)
  fix t u m n
  assume a: "mem (origins s t) = Some m" "mem (origins s u) = Some n" "t \<noteq> u" "pool_of m \<noteq> None" "pool_of m = pool_of n"
  then have "m \<noteq> n" using assms by (auto simp: planned_def)
  moreover have "m \<in> dyn_mems s \<union> cached (world s)" "n \<in> dyn_mems s \<union> cached (world s)"
    using a by (auto simp: dyn_mems_def)
  moreover have "held (world s) (dyn_mems s \<union> cached (world s)) C" using assms by (simp add: planned_def)
  ultimately show "(m, n) \<in> C \<or> (n, m) \<in> C" using a(5) held_pairs by blast
qed

lemma plan_coheld:
  assumes "kernels_ok B held cached" and "plan_commands B a cs s = (NO_ERROR, s')" and "planned s C"
  shows "\<exists>C'. planned s' C' \<and> C \<subseteq> C' \<and> (\<forall>k < length cs. coheld C' (plan_state B a cs s k))"
  using assms(2-)
proof (induction cs arbitrary: s C)
  case Nil
  then show ?case by auto
next
  case (Cons c cs)
  from Cons.prems(1) obtain s1 s2 where 1: "command_alloc B a c s = (True, s1)" and 2: "command_resize B a c s1 = (NO_ERROR, s2)"
    and rest: "plan_commands B a cs (command_release B a c s2) = (NO_ERROR, s')" by (rule plan_commands_Cons)
  obtain C1 where C1: "planned s1 C1" "C \<subseteq> C1"
    using command_alloc_step [OF 1] Cons.prems(2) by (auto simp: allocated_def evolves_def)
  have "evolves s1 (command_release B a c s2)"
    using evolves_trans [OF command_resize_step(1) [OF assms(1) 2] releases_evolve] by (simp add: command_release_def)
  then obtain C2 where C2: "planned (command_release B a c s2) C2" "C1 \<subseteq> C2" using C1 by (auto simp: evolves_def)
  obtain C' where C': "planned s' C'" "C2 \<subseteq> C'" "\<forall>k < length cs. coheld C' (plan_state B a cs (command_release B a c s2) k)"
    using Cons.IH [OF rest C2(1)] by blast
  have "coheld C' s1" using planned_coheld [OF C1(1)] C2(2) C'(2) by (blast intro: coheld_mono)
  then have "coheld C' (plan_state B a (c # cs) s k)" if "k < length (c # cs)" for k
    using that C'(3) 1 2 by (cases k) simp_all
  then show ?case using C' C1(2) C2(2) by (intro exI [of _ C']) blast
qed

text \<open>The dynamic objects while \<open>us\<close> are the uses that are left, relative to the start \<open>s0\<close> of the plan.\<close>

definition owned :: "plan_args \<Rightarrow> op_info list \<Rightarrow> ('m, 'p) pipe \<Rightarrow> nat list \<Rightarrow> ('m, 'p) pipe \<Rightarrow> bool" where
  "owned a infos s0 us s \<longleftrightarrow>
     (\<forall>t m. mem (origins s t) = Some m \<longrightarrow> pool_of m \<noteq> None \<longrightarrow>
        group (desc s0 t) = plan_group a \<and> backend_of (origins s t) \<noteq> None \<and>
        (getTensorStorageType (desc s0 t) (outputStatic a) = DYNAMIC \<and> recycled a infos t \<or>
         tusage (desc s0 t) = INPUT \<and> allocInput a \<and> releasable s0 infos t \<and> t \<in> set us)) \<and>
     (\<forall>t. tusage (desc s0 t) \<in> {CONSTANT, TRAINABLE} \<longrightarrow> mem (origins s0 t) \<noteq> None \<longrightarrow> mem (origins s t) \<noteq> None)"

lemma allocTensors_dynamic:
  assumes "allocTensors B bk os grp ts s = (ok, s')" and "planned s C" and "mem (origins s t) = None"
    and "mem (origins s' t) = Some m" and "pool_of m \<noteq> None"
  shows "t \<in> set ts \<and> group (desc s t) = grp \<and> getTensorStorageType (desc s t) os \<noteq> STATIC"
  using assms
proof (induction ts arbitrary: s C)
  case (Cons x ts)
  obtain b s1 where x: "allocTensor B bk os grp x s = (b, s1)" by fastforce
  note st = allocTensor_step [OF x]
  obtain C1 where C1: "planned s1 C1" using st Cons.prems(2) by (auto simp: acquired_def evolves_def)
  have fr: "same_frame s s1" using st by (simp add: acquired_def)
  have rest: "(b \<and> allocTensors B bk os grp ts s1 = (ok, s')) \<or> s' = s1"
    using Cons.prems(1) x by (cases b) simp_all
  show ?case
  proof (cases "mem (origins s1 t)")
    case None
    then have "allocTensors B bk os grp ts s1 = (ok, s')" using rest Cons.prems(4) by auto
    from Cons.IH [OF this C1 None Cons.prems(4,5)] show ?thesis using same_frameD(5,7) [OF fr] by simp
  next
    case (Some n)
    then have x': "x = t" using st Cons.prems(3) by (auto simp: acquired_def)
    have "origins s' t = origins s1 t"
    proof (cases "s' = s1")
      case False
      then have "allocated (set ts) s1 s'" using rest allocTensors_step [of bk os grp ts s1 ok s' "set ts"] by simp
      then show ?thesis using Some by (simp add: allocated_def)
    qed simp
    then have "mem (origins s1 t) = Some m" using Cons.prems(4) by simp
    from allocTensor_dynamic [OF x [unfolded x'] Cons.prems(2) this Cons.prems(5,3)] show ?thesis by (simp add: x')
  qed
qed simp

lemma command_alloc_dynamic:
  assumes "command_alloc B a c s = (ok, s')" and "planned s C" and "mem (origins s t) = None"
    and "mem (origins s' t) = Some m" and "pool_of m \<noteq> None"
  shows "(t \<in> set (workOutputs c) \<or> allocInput a \<and> t \<in> set (workInputs c)) \<and>
     group (desc s t) = plan_group a \<and> getTensorStorageType (desc s t) (outputStatic a) \<noteq> STATIC"
proof -
  let ?al = "\<lambda>ts s. allocTensors B (execution_backend c) (outputStatic a) (plan_group a) ts s"
  obtain b s1 where b: "(if allocInput a \<and> needAllocIO c then ?al (workInputs c) s else (True, s)) = (b, s1)"
    by fastforce
  have in_s1: "allocated (set (workInputs c)) s s1" using b allocTensors_step [of _ _ _ "workInputs c" s b s1]
    by (auto split: if_splits)
  then obtain C1 where C1: "planned s1 C1" using assms(2) by (auto simp: allocated_def evolves_def)
  have fr: "same_frame s s1" using in_s1 by (simp add: allocated_def)
  have rest: "s' = s1 \<or> ?al (workOutputs c) s1 = (ok, s')"
    using assms(1) b by (auto simp: command_alloc_def Let_def split: if_splits)
  show ?thesis
  proof (cases "mem (origins s1 t)")
    case None
    then have "?al (workOutputs c) s1 = (ok, s')" using rest assms(4) by auto
    from allocTensors_dynamic [OF this C1 None assms(4,5)] show ?thesis using same_frameD(5,7) [OF fr] by simp
  next
    case (Some n)
    have "origins s' t = origins s1 t"
      using rest allocTensors_step [of _ _ _ "workOutputs c" s1 ok s' "set (workOutputs c)"] Some
      by (auto simp: allocated_def)
    then have m: "mem (origins s1 t) = Some m" using assms(4) by simp
    then have "allocInput a \<and> ?al (workInputs c) s = (b, s1)" using b assms(3) by (auto split: if_splits)
    then show ?thesis using allocTensors_dynamic [OF _ assms(2,3) m assms(5)] by blast
  qed
qed

lemma owned_alloc:
  assumes own: "owned a infos s0 us s" and fr: "same_frame s0 s" and al: "command_alloc B a c s = (ok, s')"
    and p: "planned s C" and wf: "well_formed a infos s0" and c: "c \<in> set (work_commands infos)"
    and us: "set (workInputs c) \<subseteq> set us"
  shows "owned a infos s0 us s'"
proof -
  have step: "mem (origins s t) \<noteq> None \<Longrightarrow> origins s' t = origins s t"
    "mem (origins s t) = None \<Longrightarrow> mem (origins s' t) \<noteq> None \<Longrightarrow> backend_of (origins s' t) \<noteq> None" for t
    using command_alloc_step [OF al] unfolding allocated_def by blast+
  have "group (desc s0 t) = plan_group a \<and> backend_of (origins s' t) \<noteq> None \<and>
        (getTensorStorageType (desc s0 t) (outputStatic a) = DYNAMIC \<and> recycled a infos t \<or>
         tusage (desc s0 t) = INPUT \<and> allocInput a \<and> releasable s0 infos t \<and> t \<in> set us)"
    if m: "mem (origins s' t) = Some m" "pool_of m \<noteq> None" for t m
  proof (cases "mem (origins s t) = None")
    case False
    then have "mem (origins s t) = Some m" "origins s' t = origins s t" using step m by auto
    then show ?thesis using own m(2) unfolding owned_def by metis
  next
    case True
    note dyn = command_alloc_dynamic [OF al p True m]
    then have t: "t \<in> set (workOutputs c) \<or> allocInput a \<and> t \<in> set (workInputs c)"
      and g: "group (desc s0 t) = plan_group a" and st: "getTensorStorageType (desc s0 t) (outputStatic a) \<noteq> STATIC"
      using same_frameD(5,7) [OF fr] by simp_all
    have ok: "operand_ok a infos s0 t" using wf c t g by (auto simp: well_formed_def operands_def)
    have ro: "read_only infos t \<Longrightarrow> allocInput a \<and> t \<in> set us" using t c us by (auto simp: read_only_def)
    have "mem (origins s0 t) = None" if "tusage (desc s0 t) \<in> {CONSTANT, TRAINABLE}"
      using own that True by (auto simp: owned_def)
    with ok st ro g step(2) [OF True] m show ?thesis
      by (cases "tusage (desc s0 t)") (auto simp: operand_ok_def getTensorStorageType_def split: if_splits)
  qed
  moreover have "mem (origins s t) \<noteq> None \<Longrightarrow> mem (origins s' t) \<noteq> None" for t using step(1) by metis
  ultimately show ?thesis using own unfolding owned_def by blast
qed

lemma releaseTensor_origins: "u \<noteq> t \<Longrightarrow> origins (releaseTensor B ai grp t s) u = origins s u"
  by (rule releaseTensor_cases [of B ai grp t s]) (simp_all add: set_mem_def)

lemma releaseTensor_backend: "backend_of (origins (releaseTensor B ai grp t s) u) = backend_of (origins s u)"
  by (rule releaseTensor_cases [of B ai grp t s]) simp_all

lemma releaseTensor_mem:
  "mem (origins (releaseTensor B ai grp t s) u) \<in> {mem (origins s u), None}"
  by (rule releaseTensor_cases [of B ai grp t s]) auto

lemma needRelease_constant: "tusage (desc s t) \<in> {CONSTANT, TRAINABLE} \<Longrightarrow> \<not> needRelease s t io"
  by (auto simp: needRelease_def)

lemma releaseTensor_constant:
  assumes "tusage (desc s t) \<in> {CONSTANT, TRAINABLE}"
  shows "mem (origins (releaseTensor B ai grp t s) u) = mem (origins s u)"
proof (rule releaseTensor_cases [of B ai grp t s])
  assume "needRelease (count_uses (\<lambda>n. n - 1) t s) t (\<not> ai)"
  then show ?thesis using needRelease_constant assms same_frameD(4) [OF count_uses_frame] by metis
qed simp

text \<open>The last use of an input gives its memory back.\<close>

lemma releaseTensor_last:
  assumes c: "counted s (t # us)" and last: "t \<notin> set us" and fr: "same_frame s0 s"
    and us: "\<And>u. u \<in> set us \<Longrightarrow> content (origins s0 u) = content (origins s0 t) \<Longrightarrow> u = t"
    and i: "tusage (desc s0 t) = INPUT" and m: "memoryType (desc s0 t) \<notin> {MEMORY_HOST, MEMORY_OUTSIDE}"
    and h: "code (ttype (tens s0 t)) \<noteq> halide_type_handle" and g: "group (desc s0 t) = grp"
    and b: "backend_of (origins s t) \<noteq> None"
  shows "mem (origins (releaseTensor B True grp t s) t) = None"
proof -
  let ?s = "count_uses (\<lambda>n. n - 1) t s"
  have fr1: "same_frame s0 ?s" using same_frame_trans [OF fr count_uses_frame] .
  note f = same_frameD [OF fr] and f1 = same_frameD [OF fr1]
  have "uses s us (content (origins s t)) = 0"
    using uses_pos [of s us "content (origins s t)"] us last f(1) by auto
  then have "useCount (desc s t) = 1" using counted_use [OF c, of t] i f(4) by simp
  then have "useCount (desc ?s t) = 0"
    using i f(4) by (simp add: desc_def count_uses_describes)
  then have "needRelease ?s t False" using i m h b f1(2,3,4) by (simp add: needRelease_def)
  then show ?thesis using g f1(5) by (simp add: releaseTensor_def Let_def)
qed

lemma owned_release:
  assumes own: "owned a infos s0 (t # us) s" and fr: "same_frame s0 s" and c: "counted s (t # us)"
    and us: "set us \<subseteq> set (inputs_of (work_commands infos))"
  shows "owned a infos s0 us (releaseTensor B (allocInput a) (plan_group a) t s)"
proof -
  let ?s = "releaseTensor B (allocInput a) (plan_group a) t s"
  have "group (desc s0 u) = plan_group a \<and> backend_of (origins ?s u) \<noteq> None \<and>
        (getTensorStorageType (desc s0 u) (outputStatic a) = DYNAMIC \<and> recycled a infos u \<or>
         tusage (desc s0 u) = INPUT \<and> allocInput a \<and> releasable s0 infos u \<and> u \<in> set us)"
    if m: "mem (origins ?s u) = Some m" "pool_of m \<noteq> None" for u m
  proof -
    have "mem (origins s u) = Some m" using m(1) releaseTensor_mem [of "allocInput a" "plan_group a" t s u] by auto
    then have o: "group (desc s0 u) = plan_group a" "backend_of (origins s u) \<noteq> None"
      "getTensorStorageType (desc s0 u) (outputStatic a) = DYNAMIC \<and> recycled a infos u \<or>
       tusage (desc s0 u) = INPUT \<and> allocInput a \<and> releasable s0 infos u \<and> u \<in> set (t # us)"
      using own m(2) unfolding owned_def by blast+
    have "u \<in> set us" if i: "tusage (desc s0 u) = INPUT" "allocInput a" "releasable s0 infos u" "u \<in> set (t # us)"
    proof (rule ccontr)
      assume n: "u \<notin> set us"
      then have u: "u = t" using i(4) by simp
      have "v = t" if "v \<in> set us" "content (origins s0 v) = content (origins s0 t)" for v
        using i(3) that us unfolding u releasable_def inputs_of_def by fastforce
      then have "mem (origins (releaseTensor B True (plan_group a) t s) t) = None"
        using i(1,3) o(1,2) n unfolding u by (intro releaseTensor_last [OF c _ fr]) (auto simp: releasable_def)
      then show False using m(1) i(2) u by simp
    qed
    then show ?thesis using o releaseTensor_backend by metis
  qed
  moreover have "mem (origins ?s u) \<noteq> None"
    if k: "tusage (desc s0 u) \<in> {CONSTANT, TRAINABLE}" "mem (origins s0 u) \<noteq> None" for u
  proof -
    have s: "mem (origins s u) \<noteq> None" using own k by (auto simp: owned_def)
    show ?thesis
    proof (cases "u = t")
      case True
      then show ?thesis using releaseTensor_constant k(1) same_frameD(4) [OF fr] s by metis
    next
      case False
      then show ?thesis using releaseTensor_origins s by simp
    qed
  qed
  ultimately show ?thesis unfolding owned_def by blast
qed

lemma owned_releases:
  assumes "owned a infos s0 (ts @ us) s" and "same_frame s0 s" and "counted s (ts @ us)"
    and "set (ts @ us) \<subseteq> set (inputs_of (work_commands infos))"
  shows "owned a infos s0 us (fold (releaseTensor B (allocInput a) (plan_group a)) ts s)"
  using assms
proof (induction ts arbitrary: s)
  case (Cons t ts)
  let ?s = "releaseTensor B (allocInput a) (plan_group a) t s"
  have "owned a infos s0 (ts @ us) ?s"
    using Cons.prems by (intro owned_release) auto
  moreover have "same_frame s0 ?s" using Cons.prems(2) releaseTensor_frame same_frame_trans by blast
  moreover have "counted ?s (ts @ us)" using Cons.prems(3) releaseTensor_counted by simp
  ultimately show ?case using Cons.IH [of ?s] Cons.prems(4) by simp
qed simp

lemma owned_commands:
  assumes "kernels_ok B held cached" and "plan_commands B a cs s = (NO_ERROR, s')" and "planned s C"
    and "owned a infos s0 (inputs_of cs) s" and "same_frame s0 s" and "counted s (inputs_of cs)"
    and "well_formed a infos s0" and "set cs \<subseteq> set (work_commands infos)"
  shows "owned a infos s0 [] s' \<and> same_frame s0 s'"
  using assms(2-)
proof (induction cs arbitrary: s C)
  case (Cons c cs)
  from Cons.prems(1) obtain s1 s2 where 1: "command_alloc B a c s = (True, s1)" and 2: "command_resize B a c s1 = (NO_ERROR, s2)"
    and rest: "plan_commands B a cs (command_release B a c s2) = (NO_ERROR, s')" by (rule plan_commands_Cons)
  let ?s3 = "command_release B a c s2"
  have sub: "set (workInputs c @ inputs_of cs) \<subseteq> set (inputs_of (work_commands infos))"
    using Cons.prems(7) by (auto simp: inputs_of_def)
  have c: "c \<in> set (work_commands infos)" using Cons.prems(7) by simp
  have own1: "owned a infos s0 (workInputs c @ inputs_of cs) s1"
    using owned_alloc [OF Cons.prems(3,4) 1 Cons.prems(2,6) c] by simp
  note r = command_resize_step [OF assms(1) 2]
  have own2: "owned a infos s0 (workInputs c @ inputs_of cs) s2"
    using own1 by (simp add: owned_def r(2))
  note cnt = command_counted [OF assms(1) Cons.prems(5) 1 2]
  have fr2: "same_frame s0 s2" using same_frame_trans [OF Cons.prems(4) cnt(2)] .
  have own3: "owned a infos s0 (inputs_of cs) ?s3"
    unfolding command_release_def by (rule owned_releases [OF own2 fr2 cnt(1) sub])
  have fr3: "same_frame s0 ?s3" using same_frame_trans [OF fr2 releases_frame] by (simp add: command_release_def)
  have c3: "counted ?s3 (inputs_of cs)" using releases_counted [OF cnt(1)] by (simp add: command_release_def)
  have "evolves s1 ?s3" using evolves_trans [OF r(1) releases_evolve] by (simp add: command_release_def)
  moreover have "evolves s s1" using command_alloc_step [OF 1] by (simp add: allocated_def)
  ultimately have "evolves s ?s3" using evolves_trans by blast
  then obtain C3 where "planned ?s3 C3" using Cons.prems(2) unfolding evolves_def by blast
  note IH = Cons.IH [OF rest this own3 fr3 c3 Cons.prems(6)]
  show ?case using IH Cons.prems(7) by simp
qed simp

text \<open>Recycling.\<close>

definition recycle_one :: "bool \<Rightarrow> nat \<Rightarrow> ('m, 'p) pipe \<Rightarrow> ('m, 'p) pipe" where
  "recycle_one os t s = (if getTensorStorageType (desc s t) os = DYNAMIC then set_mem B t None s else s)"

lemma plan_recycle_eq:
  "plan_recycle B a infos s = fold (recycle_one (outputStatic a))
     (concat (map (\<lambda>c. workOutputs c @ workInputs c) (filter (\<lambda>c. cgroup c = plan_group a) (all_commands infos)))) s"
proof -
  have "fold (recycleDynamicMemory B (outputStatic a)) cs s =
      fold (recycle_one (outputStatic a)) (concat (map (\<lambda>c. workOutputs c @ workInputs c) cs)) s" for cs s
  proof (induction cs arbitrary: s)
    case (Cons c cs)
    have "recycleDynamicMemory B (outputStatic a) c s = fold (recycle_one (outputStatic a)) (workOutputs c @ workInputs c) s"
      unfolding recycleDynamicMemory_def recycle_one_def ..
    with Cons show ?case by simp
  qed simp
  then show ?thesis unfolding plan_recycle_def .
qed

lemma recycle_one_fields [simp]:
  "describes (recycle_one os t s) = describes s" "content (origins (recycle_one os t s) u) = content (origins s u)"
  by (simp_all add: recycle_one_def)

lemma recycle_one_mem:
  "mem (origins (recycle_one os t s) u) =
     (if u = t \<and> getTensorStorageType (desc s t) os = DYNAMIC then None else mem (origins s u))"
  by (simp add: recycle_one_def)

lemma recycle_mem:
  "mem (origins (fold (recycle_one os) ts s) u) =
     (if u \<in> set ts \<and> getTensorStorageType (desc s u) os = DYNAMIC then None else mem (origins s u))"
  by (induction ts arbitrary: s) (auto simp: recycle_one_mem desc_def)

lemma recycle_evolves: "evolves s (plan_recycle B a infos s)"
  unfolding plan_recycle_eq by (rule fold_evolves) (simp add: recycle_one_def set_mem_None_evolves)

text \<open>A whole plan, up to the end of the resize.\<close>

lemma begin_planned:
  assumes "ready (world s)" and "dyn_mems s = {}"
  shows "planned (plan_begin B infos s) {}"
proof -
  have "dyn_mems (plan_begin B infos s) = {}" using assms(2) by (simp add: dyn_mems_def)
  moreover have "pool_of m = None" if "mem (origins s t) = Some m" for t m
    using assms(2) that by (auto simp: dyn_mems_def)
  ultimately show ?thesis
    using begin_held [OF assms(1)] begin_cached [OF assms(1)] by (simp add: planned_def)
qed

theorem plan_main:
  assumes k: "kernels_ok B held cached" and r: "ready (world s)" and none: "dyn_mems s = {}"
    and run: "plan_commands B a (work_commands infos) (plan_begin B infos s) = (NO_ERROR, s1)"
    and wf: "well_formed a infos s"
  shows "\<exists>C. held (world (plan_recycle B a infos s1)) (cached (world (plan_recycle B a infos s1))) C \<and>
     dyn_mems (plan_recycle B a infos s1) = {} \<and>
     (\<forall>k < length (work_commands infos). coheld C (plan_state B a (work_commands infos) (plan_begin B infos s) k))"
proof -
  let ?cs = "work_commands infos" and ?s0 = "plan_begin B infos s" and ?s2 = "plan_recycle B a infos s1"
  have fr: "same_frame s ?s0" by (rule plan_begin_frame)
  note f = same_frameD [OF fr]
  have p0: "planned ?s0 {}" by (rule begin_planned [OF r none])
  obtain C1 where C1: "planned s1 C1" and co: "\<forall>k < length ?cs. coheld C1 (plan_state B a ?cs ?s0 k)"
    using plan_coheld [OF k run p0] by blast
  obtain C2 where C2: "planned ?s2 C2" "C1 \<subseteq> C2"
    using recycle_evolves [of s1 a infos] C1 unfolding evolves_def by blast
  have wf0: "well_formed a infos ?s0"
  proof -
    have "releasable ?s0 infos t = releasable s infos t" for t by (simp add: releasable_def f)
    then have "operand_ok a infos ?s0 t = operand_ok a infos s t" for t by (simp add: operand_ok_def f)
    then show ?thesis using wf by (simp add: well_formed_def f)
  qed
  have static: "pool_of m = None" if "mem (origins s t) = Some m" for t m
    using none that by (auto simp: dyn_mems_def)
  have "owned a infos ?s0 (inputs_of ?cs) ?s0"
    unfolding owned_def using static by simp
  from owned_commands [OF k run p0 this same_frame_refl plan_begin_counted [folded inputs_of_def] wf0 order_refl]
  have own: "owned a infos ?s0 [] s1" and fr1: "same_frame ?s0 s1" by simp_all
  have "mem (origins ?s2 t) = None" if m: "mem (origins s1 t) = Some m" "pool_of m \<noteq> None" for t m
  proof -
    have "getTensorStorageType (desc ?s0 t) (outputStatic a) = DYNAMIC \<and> recycled a infos t"
      using own m unfolding owned_def by (metis empty_iff empty_set)
    then show ?thesis
      using same_frameD(7) [OF fr1, of t "outputStatic a"]
      by (auto simp: plan_recycle_eq recycle_mem recycled_def operands_def)
  qed
  moreover have "mem (origins ?s2 t) \<in> {mem (origins s1 t), None}" for t
    by (simp add: plan_recycle_eq recycle_mem)
  ultimately have d: "dyn_mems ?s2 = {}"
    by (auto simp: dyn_mems_def) (metis insertE option.distinct(1) singletonD)
  then have "held (world ?s2) (cached (world ?s2)) C2" using C2(1) by (simp add: planned_def)
  then show ?thesis using d co C2(2) coheld_mono by blast
qed

end

end
