(* ===== verification/Defer_Model.thy ===== *)
theory Defer_Model
  imports Prelude
begin

text \<open>
  The deferred memory planner of \<open>source/core/BufferAllocator.cpp\<close> and \<open>.hpp\<close>:
  \<open>MemNode\<close>, \<open>MemChunk\<close>, \<open>SingleBufferWithAllocator\<close> and \<open>DeferBufferAllocator\<close>, statement by
  statement. A \<open>MemNode*\<close> is the index of the node in \<open>mChunks\<close> (the code never erases a chunk
  before \<open>reset\<close>), the null pointer is \<open>None\<close>. The root allocator behind
  \<open>SingleBufferWithAllocator::root\<close> and the callback \<open>mApplyFunction\<close> are arguments of the model;
  \<open>'w\<close> is the world they act on. Debug-only statements (\<open>MNN_ASSERT\<close>, \<open>DUMP_USAGE\<close>) do nothing in
  a release build and are left out.
\<close>

section \<open>Nodes, chunks, the allocator\<close>

record mem_node =
  nsize :: nat
  noffset :: nat
  nbase :: addr
  usage :: bool
  nleft :: "nat option"
  nright :: "nat option"
  children :: "nat list"
  tensors :: "nat list"

definition new_node :: "nat \<Rightarrow> mem_node" where
  "new_node s = \<lparr>nsize = s, noffset = 0, nbase = 0, usage = True, nleft = None, nright = None,
     children = [], tensors = []\<rparr>"

record mem_chunk =
  cfirst :: addr
  csecond :: nat
  cnode :: "nat option"

definition null_chunk :: mem_chunk where
  "null_chunk = \<lparr>cfirst = 0, csecond = 0, cnode = None\<rparr>"

definition node_chunk :: "nat \<Rightarrow> mem_chunk" where
  "node_chunk n = \<lparr>cfirst = 0, csecond = 0, cnode = Some n\<rparr>"

definition chunk_invalid :: "mem_chunk \<Rightarrow> bool" where
  "chunk_invalid c \<longleftrightarrow> cnode c = None \<and> cfirst c = 0"

definition chunk_base :: "mem_node list \<Rightarrow> mem_chunk \<Rightarrow> addr" where
  "chunk_base ns c = (case cnode c of Some n \<Rightarrow> nbase (ns ! n) | None \<Rightarrow> cfirst c)"

definition chunk_plus :: "mem_chunk \<Rightarrow> nat \<Rightarrow> mem_chunk" where
  "chunk_plus c off = c\<lparr>csecond := csecond c + off\<rparr>"

definition chunk_offset :: "mem_node list \<Rightarrow> mem_chunk \<Rightarrow> nat" where
  "chunk_offset ns c = (case cnode c of Some n \<Rightarrow> noffset (ns ! n) + csecond c | None \<Rightarrow> csecond c)"

definition chunk_ptr :: "mem_node list \<Rightarrow> mem_chunk \<Rightarrow> addr" where
  "chunk_ptr ns c =
     (case cnode c of Some n \<Rightarrow> nbase (ns ! n) + noffset (ns ! n) + csecond c
      | None \<Rightarrow> cfirst c + csecond c)"

record single_buffer =
  current :: mem_chunk
  currentSize :: nat

record defer_state =
  chunks :: "mem_node list"
  mHead :: "nat option"
  mTail :: "nat option"
  freeList :: "nat list"
  mPtr :: mem_chunk
  totalSize :: nat
  mAlign :: nat
  mBarrier :: bool
  barrierFree :: "mem_chunk list"

definition defer_new :: "nat \<Rightarrow> defer_state" where
  "defer_new align = \<lparr>chunks = [], mHead = None, mTail = None, freeList = [], mPtr = null_chunk,
     totalSize = 0, mAlign = align, mBarrier = False, barrierFree = []\<rparr>"

definition upd_node :: "nat \<Rightarrow> (mem_node \<Rightarrow> mem_node) \<Rightarrow> defer_state \<Rightarrow> defer_state" where
  "upd_node n f s = s\<lparr>chunks := (chunks s)[n := f (chunks s ! n)]\<rparr>"

abbreviation node :: "defer_state \<Rightarrow> nat \<Rightarrow> mem_node" where
  "node s n \<equiv> chunks s ! n"

abbreviation size_key :: "defer_state \<Rightarrow> nat \<Rightarrow> nat" where
  "size_key s n \<equiv> nsize (node s n)"

definition chunk_attach :: "mem_chunk \<Rightarrow> nat \<Rightarrow> defer_state \<Rightarrow> defer_state" where
  "chunk_attach c t s =
     (case cnode c of
        Some n \<Rightarrow> upd_node n (\<lambda>x. x\<lparr>tensors := tensors x @ [t]\<rparr>) s
      | None \<Rightarrow> s)"

section \<open>The private helpers\<close>

definition createMemNode :: "nat \<Rightarrow> defer_state \<Rightarrow> nat \<times> defer_state" where
  "createMemNode sz s = (length (chunks s), s\<lparr>chunks := chunks s @ [new_node sz]\<rparr>)"

definition insert_after :: "nat \<Rightarrow> nat option \<Rightarrow> defer_state \<Rightarrow> defer_state" where
  "insert_after c pos s =
     (case pos of
        Some p \<Rightarrow>
          (let r = nright (node s p);
               s1 = (case r of Some q \<Rightarrow> upd_node q (\<lambda>x. x\<lparr>nleft := Some c\<rparr>) s | None \<Rightarrow> s);
               s2 = upd_node c (\<lambda>x. x\<lparr>nright := r\<rparr>) s1;
               s3 = upd_node c (\<lambda>x. x\<lparr>nleft := Some p\<rparr>) s2;
               s4 = upd_node p (\<lambda>x. x\<lparr>nright := Some c\<rparr>) s3
           in if mTail s = Some p then s4\<lparr>mTail := Some c\<rparr> else s4)
      | None \<Rightarrow>
          (case mTail s of
             Some t \<Rightarrow>
               (upd_node c (\<lambda>x. x\<lparr>nleft := Some t\<rparr>)
                 (upd_node t (\<lambda>x. x\<lparr>nright := Some c\<rparr>) s))\<lparr>mTail := Some c\<rparr>
           | None \<Rightarrow> s\<lparr>mHead := Some c, mTail := Some c\<rparr>))"

definition erase_node :: "nat \<Rightarrow> defer_state \<Rightarrow> defer_state" where
  "erase_node c s =
     (case (nleft (node s c), nright (node s c)) of
        (Some l, Some r) \<Rightarrow>
          upd_node r (\<lambda>x. x\<lparr>nleft := Some l\<rparr>) (upd_node l (\<lambda>x. x\<lparr>nright := Some r\<rparr>) s)
      | (Some l, None) \<Rightarrow> (upd_node l (\<lambda>x. x\<lparr>nright := None\<rparr>) s)\<lparr>mTail := Some l\<rparr>
      | (None, Some r) \<Rightarrow> (upd_node r (\<lambda>x. x\<lparr>nleft := None\<rparr>) s)\<lparr>mHead := Some r\<rparr>
      | (None, None) \<Rightarrow> s\<lparr>mHead := None, mTail := None\<rparr>)"

definition fuse_to_left :: "nat \<Rightarrow> nat \<Rightarrow> defer_state \<Rightarrow> nat \<times> defer_state" where
  "fuse_to_left l r s =
     (let s1 = upd_node r (\<lambda>x. x\<lparr>noffset := nsize (node s l)\<rparr>) s;
          s2 = upd_node l (\<lambda>x. x\<lparr>nsize := nsize x + nsize (node s1 r)\<rparr>) s1;
          s3 = upd_node l (\<lambda>x. x\<lparr>children := children x @ [r]\<rparr>) s2
      in (l, erase_node r s3))"

definition insertFree :: "nat \<Rightarrow> defer_state \<Rightarrow> defer_state" where
  "insertFree c s = s\<lparr>freeList := insert_by (size_key s) c (freeList s)\<rparr>"

definition eraseFree :: "nat \<Rightarrow> defer_state \<Rightarrow> defer_state" where
  "eraseFree c s = s\<lparr>freeList := erase_by (size_key s) c (freeList s)\<rparr>"

section \<open>Allocation and release\<close>

text \<open>\<open>lower_bound\<close> on the free list, and the largest free chunk when nothing is big enough.\<close>

definition select_free :: "nat \<Rightarrow> defer_state \<Rightarrow> nat" where
  "select_free sz s =
     (case lower_bound (size_key s) sz (freeList s) of
        Some c \<Rightarrow> c
      | None \<Rightarrow> last (freeList s))"

definition defer_alloc_size :: "nat \<Rightarrow> nat \<Rightarrow> defer_state \<Rightarrow> nat" where
  "defer_alloc_size sz align s =
     (let al = (if align = 0 then mAlign s else align) in up_div sz al * al)"

definition defer_alloc :: "nat \<Rightarrow> bool \<Rightarrow> nat \<Rightarrow> defer_state \<Rightarrow> mem_chunk \<times> defer_state" where
  "defer_alloc rawSize separate align s =
     (let sz = defer_alloc_size rawSize align s in
      if freeList s = [] \<or> separate then
        (let (c, s1) = createMemNode sz s in (node_chunk c, insert_after c None s1))
      else
        (let c = select_free sz s;
             s1 = s\<lparr>freeList := remove1 c (freeList s)\<rparr>;
             s2 = upd_node c (\<lambda>x. x\<lparr>usage := True\<rparr>) s1;
             s3 = (if sz < nsize (node s2 c) then
                     (let (r, t1) = createMemNode (nsize (node s2 c) - sz) s2;
                          t2 = upd_node r (\<lambda>x. x\<lparr>usage := False\<rparr>) t1;
                          t3 = insert_after r (Some c) t2
                      in insertFree r t3)
                   else s2);
             s4 = upd_node c (\<lambda>x. x\<lparr>nsize := sz\<rparr>) s3
         in (node_chunk c, s4)))"

text \<open>The part of \<open>free\<close> behind the barrier test.\<close>

definition defer_free_now :: "nat \<Rightarrow> defer_state \<Rightarrow> defer_state" where
  "defer_free_now n s =
     (let left = nleft (node s n); right = nright (node s n);
          (m, s1) = (case left of
                Some l \<Rightarrow> if \<not> usage (node s l) then fuse_to_left l n (eraseFree l s) else (n, s)
              | None \<Rightarrow> (n, s));
          (m', s2) = (case right of
                Some r \<Rightarrow> if \<not> usage (node s1 r) then fuse_to_left m r (eraseFree r s1) else (m, s1)
              | None \<Rightarrow> (m, s1));
          s3 = upd_node m' (\<lambda>x. x\<lparr>usage := False\<rparr>) s2
      in insertFree m' s3)"

definition defer_free :: "mem_chunk \<Rightarrow> defer_state \<Rightarrow> bool \<times> defer_state" where
  "defer_free c s =
     (if mBarrier s then (True, s\<lparr>barrierFree := barrierFree s @ [c]\<rparr>)
      else case cnode c of
             None \<Rightarrow> (False, s)
           | Some n \<Rightarrow> (True, defer_free_now n s))"

definition defer_barrierBegin :: "defer_state \<Rightarrow> defer_state" where
  "defer_barrierBegin s = s\<lparr>mBarrier := True\<rparr>"

definition defer_barrierEnd :: "defer_state \<Rightarrow> defer_state" where
  "defer_barrierEnd s =
     (fold (\<lambda>c t. snd (defer_free c t)) (barrierFree s) (s\<lparr>mBarrier := False\<rparr>))\<lparr>barrierFree := []\<rparr>"

definition defer_reset :: "defer_state \<Rightarrow> defer_state" where
  "defer_reset s = s\<lparr>totalSize := 0, chunks := [], freeList := [],
     mPtr := (mPtr s)\<lparr>cfirst := 0, csecond := 0\<rparr>, mHead := None, mTail := None,
     mBarrier := False, barrierFree := []\<rparr>"

definition defer_release :: "bool \<Rightarrow> defer_state \<Rightarrow> defer_state" where
  "defer_release allRelease s = (if allRelease then defer_reset s else s)"

section \<open>The single buffer behind the plan\<close>

text \<open>
  \<open>on_alloc size align w\<close> and \<open>on_release chunk w\<close> are the virtual operations of
  \<open>BufferAllocator::Allocator\<close>.
\<close>

definition single_release ::
  "(mem_chunk \<Rightarrow> 'w \<Rightarrow> 'w) \<Rightarrow> single_buffer \<Rightarrow> 'w \<Rightarrow> single_buffer \<times> 'w" where
  "single_release on_release b w =
     (if cfirst (current b) \<noteq> 0
      then (b\<lparr>current := (current b)\<lparr>cfirst := 0, csecond := 0\<rparr>, currentSize := 0\<rparr>,
            on_release (current b) w)
      else (b, w))"

definition single_realloc ::
  "(nat \<Rightarrow> nat \<Rightarrow> 'w \<Rightarrow> mem_chunk \<times> 'w) \<Rightarrow> (mem_chunk \<Rightarrow> 'w \<Rightarrow> 'w) \<Rightarrow> nat \<Rightarrow> nat \<Rightarrow>
    single_buffer \<Rightarrow> 'w \<Rightarrow> error_code \<times> single_buffer \<times> 'w" where
  "single_realloc on_alloc on_release sz align b w =
     (if currentSize b < sz then
        (let w1 = (if cfirst (current b) \<noteq> 0 then on_release (current b) w else w);
             (c, w2) = on_alloc sz align w1;
             b1 = b\<lparr>current := c\<rparr>
         in if cfirst c = 0 then (OUT_OF_MEMORY, b1, w2)
            else (NO_ERROR, b1\<lparr>currentSize := sz\<rparr>, w2))
      else (NO_ERROR, b, w))"

section \<open>Computing the plan and applying it\<close>

text \<open>
  \<open>visiChildren\<close> recurses over the children of a node; the fuel bounds the depth of the recursion,
  and \<open>None\<close> says that it ran out.
\<close>

fun visi_children :: "nat \<Rightarrow> nat \<Rightarrow> mem_node list \<Rightarrow> mem_node list option"
  and visi_list :: "nat \<Rightarrow> nat \<Rightarrow> nat list \<Rightarrow> mem_node list \<Rightarrow> mem_node list option" where
  "visi_children 0 c ns = None"
| "visi_children (Suc k) c ns = visi_list k c (children (ns ! c)) ns"
| "visi_list k c [] ns = Some ns"
| "visi_list k c (x # xs) ns =
     (case visi_children k x (ns[x := (ns ! x)\<lparr>noffset := noffset (ns ! x) + noffset (ns ! c)\<rparr>]) of
        None \<Rightarrow> None
      | Some ns' \<Rightarrow> visi_list k c xs ns')"

fun compute_loop :: "nat \<Rightarrow> nat option \<Rightarrow> defer_state \<Rightarrow> defer_state option" where
  "compute_loop 0 c s = None"
| "compute_loop (Suc k) None s = Some s"
| "compute_loop (Suc k) (Some c) s =
     (let s1 = upd_node c (\<lambda>x. x\<lparr>noffset := totalSize s\<rparr>) s in
      case visi_children (Suc (length (chunks s1))) c (chunks s1) of
        None \<Rightarrow> None
      | Some ns \<Rightarrow>
          (let s2 = s1\<lparr>chunks := ns, totalSize := totalSize s1 + nsize (ns ! c)\<rparr>
           in compute_loop k (nright (node s2 c)) s2))"

definition apply_chunk ::
  "(addr \<Rightarrow> nat \<Rightarrow> nat \<Rightarrow> 'w \<Rightarrow> 'w) \<Rightarrow> addr \<Rightarrow> nat \<Rightarrow> mem_node \<Rightarrow> 'w \<Rightarrow> 'w" where
  "apply_chunk apply_fn base off n w = fold (\<lambda>t. apply_fn base (noffset n + off) t) (tensors n) w"

definition defer_apply ::
  "(nat \<Rightarrow> nat \<Rightarrow> 'w \<Rightarrow> mem_chunk \<times> 'w) \<Rightarrow> (mem_chunk \<Rightarrow> 'w \<Rightarrow> 'w) \<Rightarrow> (addr \<Rightarrow> nat \<Rightarrow> nat \<Rightarrow> 'w \<Rightarrow> 'w) \<Rightarrow>
    defer_state \<Rightarrow> single_buffer \<Rightarrow> 'w \<Rightarrow> error_code \<times> defer_state \<times> single_buffer \<times> 'w" where
  "defer_apply on_alloc on_release apply_fn s b w =
     (if freeList s = [] then (NO_ERROR, s, b, w)
      else
        (let (code, b1, w1, needApply) =
               (if currentSize b < totalSize s then
                  (let (code, b1, w1) = single_realloc on_alloc on_release (totalSize s) (mAlign s) b w
                   in (code, b1, w1, True))
                else (NO_ERROR, b, w,
                      cfirst (mPtr s) \<noteq> cfirst (current b) \<or> csecond (mPtr s) \<noteq> csecond (current b)))
         in if code \<noteq> NO_ERROR then (code, s, b1, w1)
            else if \<not> needApply then (NO_ERROR, s, b1, w1)
            else
              (let p = current b1;
                   s1 = s\<lparr>mPtr := p, chunks := map (\<lambda>n. n\<lparr>nbase := chunk_ptr (chunks s) p\<rparr>) (chunks s)\<rparr>;
                   w2 = fold (apply_chunk apply_fn (chunk_base (chunks s) p) (chunk_offset (chunks s) p))
                          (chunks s1) w1
               in (NO_ERROR, s1, b1, w2))))"

text \<open>
  \<open>compute\<close>; \<open>None\<close> stands for a traversal that ran out of fuel.
\<close>

definition defer_compute ::
  "(nat \<Rightarrow> nat \<Rightarrow> 'w \<Rightarrow> mem_chunk \<times> 'w) \<Rightarrow> (mem_chunk \<Rightarrow> 'w \<Rightarrow> 'w) \<Rightarrow> (addr \<Rightarrow> nat \<Rightarrow> nat \<Rightarrow> 'w \<Rightarrow> 'w) \<Rightarrow>
    defer_state \<Rightarrow> single_buffer \<Rightarrow> 'w \<Rightarrow> (error_code \<times> defer_state \<times> single_buffer \<times> 'w) option" where
  "defer_compute on_alloc on_release apply_fn s b w =
     (if 0 < totalSize s then Some (NO_ERROR, s, b, w)
      else
        (let s0 = s\<lparr>totalSize := 0\<rparr> in
         if freeList s0 = [] then Some (NO_ERROR, s0, b, w)
         else if length (freeList s0) \<noteq> 1 \<or> mHead s0 \<noteq> mTail s0 then Some (INVALID_VALUE, s0, b, w)
         else case compute_loop (Suc (Suc (length (chunks s0)))) (mHead s0) s0 of
                None \<Rightarrow> None
              | Some s1 \<Rightarrow> Some (defer_apply on_alloc on_release apply_fn s1 b w)))"

text \<open>The CPU callback stores the address of the data in the tensor: a map from tensors to addresses.\<close>

definition cpu_apply :: "addr \<Rightarrow> nat \<Rightarrow> nat \<Rightarrow> (nat \<rightharpoonup> addr) \<Rightarrow> (nat \<rightharpoonup> addr)" where
  "cpu_apply ptr off t w = w(t \<mapsto> ptr + off)"

end
