(* ===== verification/Defer_Plan.thy ===== *)
theory Defer_Plan
  imports Prelude
begin

text \<open>
  The abstract specification of the deferred planner: a line of blocks. A block is a chunk of the
  linked list together with the chunks that were fused into it (\<open>children\<close>), each at a fixed
  distance from the block's start. The positions of all chunks follow from the sizes of the blocks.
  The four elementary changes the allocator makes to the line (append, resize, split, absorb) are
  shown to keep the order and the distances of chunks that were laid out one behind the other.
\<close>

section \<open>Blocks and positions\<close>

datatype kid = Kid (kid_id: nat) (kid_rel: nat) (kid_sub: "kid list")

record blk =
  bid :: nat
  bsz :: nat
  bused :: bool
  bkids :: "kid list"

fun kid_pos :: "nat \<Rightarrow> kid \<Rightarrow> (nat \<times> nat) list" where
  "kid_pos base (Kid i r ks) = (i, base + r) # concat (map (kid_pos (base + r)) ks)"

definition blk_pos :: "nat \<Rightarrow> blk \<Rightarrow> (nat \<times> nat) list" where
  "blk_pos base b = (bid b, base) # concat (map (kid_pos base) (bkids b))"

fun line_pos :: "nat \<Rightarrow> blk list \<Rightarrow> (nat \<times> nat) list" where
  "line_pos base [] = []"
| "line_pos base (b # bs) = blk_pos base b @ line_pos (base + bsz b) bs"

definition line_size :: "blk list \<Rightarrow> nat" where
  "line_size bs = sum_list (map bsz bs)"

fun kid_ids :: "kid \<Rightarrow> nat list" where
  "kid_ids (Kid i r ks) = i # concat (map kid_ids ks)"

definition blk_ids :: "blk \<Rightarrow> nat list" where
  "blk_ids b = bid b # concat (map kid_ids (bkids b))"

definition line_ids :: "blk list \<Rightarrow> nat list" where
  "line_ids bs = concat (map blk_ids bs)"

lemma line_size_simps [simp]:
  "line_size [] = 0" "line_size (b # bs) = bsz b + line_size bs"
  "line_size (bs @ cs) = line_size bs + line_size cs"
  by (simp_all add: line_size_def)

lemma line_ids_simps [simp]:
  "line_ids [] = []" "line_ids (b # bs) = blk_ids b @ line_ids bs"
  "line_ids (bs @ cs) = line_ids bs @ line_ids cs"
  by (simp_all add: line_ids_def)

lemma line_pos_append:
  "line_pos base (bs @ cs) = line_pos base bs @ line_pos (base + line_size bs) cs"
  by (induction bs arbitrary: base) (simp_all add: add.assoc)

lemma kid_pos_ids: "map fst (kid_pos base k) = kid_ids k"
proof (induction k arbitrary: base rule: kid.induct)
  case (Kid i r ks)
  then have "map (map fst \<circ> kid_pos (base + r)) ks = map kid_ids ks" by simp
  then show ?case by (simp add: map_concat cong: map_cong)
qed

lemma blk_pos_ids: "map fst (blk_pos base b) = blk_ids b"
proof -
  have "map (map fst \<circ> kid_pos base) (bkids b) = map kid_ids (bkids b)" by (simp add: kid_pos_ids)
  then show ?thesis by (simp add: blk_pos_def blk_ids_def map_concat cong: map_cong)
qed

lemma line_pos_ids: "map fst (line_pos base bs) = line_ids bs"
  by (induction bs arbitrary: base) (simp_all add: blk_pos_ids)

text \<open>Positions are relative: moving the base moves every position.\<close>

definition shift :: "nat \<Rightarrow> (nat \<times> nat) list \<Rightarrow> (nat \<times> nat) list" where
  "shift d ps = map (\<lambda>(i, p). (i, p + d)) ps"

lemma shift_simps [simp]:
  "shift d [] = []" "shift d ((i, p) # ps) = (i, p + d) # shift d ps"
  "shift d (ps @ qs) = shift d ps @ shift d qs" "shift 0 ps = ps"
  by (simp_all add: shift_def)

lemma shift_shift: "shift d (shift e ps) = shift (e + d) ps"
  by (induction ps) (auto simp: shift_def add.assoc)

lemma shift_concat: "shift d (concat pss) = concat (map (shift d) pss)"
  by (induction pss) auto

lemma kid_pos_shift: "kid_pos (base + d) k = shift d (kid_pos base k)"
proof (induction k arbitrary: base rule: kid.induct)
  case (Kid i r ks)
  have "map (kid_pos (base + d + r)) ks = map (shift d \<circ> kid_pos (base + r)) ks"
    using Kid [of _ "base + r"] by (simp add: add.commute add.left_commute)
  then show ?case by (simp add: shift_concat add.commute add.left_commute cong: map_cong)
qed

lemma blk_pos_shift: "blk_pos (base + d) b = shift d (blk_pos base b)"
proof -
  have "map (kid_pos (base + d)) (bkids b) = map (shift d \<circ> kid_pos base) (bkids b)"
    by (simp add: kid_pos_shift)
  then show ?thesis by (simp add: blk_pos_def shift_concat cong: map_cong)
qed

lemma line_pos_shift: "line_pos (base + d) bs = shift d (line_pos base bs)"
proof (induction bs arbitrary: base)
  case (Cons b bs)
  have "line_pos (base + d + bsz b) bs = shift d (line_pos (base + bsz b) bs)"
    using Cons [of "base + bsz b"] by (simp add: add.commute add.left_commute)
  then show ?case by (simp add: blk_pos_shift)
qed simp

lemma line_pos_base: "line_pos d bs = shift d (line_pos 0 bs)"
  using line_pos_shift [of 0 d] by simp

lemma in_shift [simp]: "(i, q) \<in> set (shift d ps) \<longleftrightarrow> (\<exists>p. (i, p) \<in> set ps \<and> q = p + d)"
  by (force simp: shift_def)

section \<open>Chunks laid out one behind the other\<close>

text \<open>
  \<open>before bs c z d\<close>: chunk \<open>c\<close>, \<open>z\<close> bytes long, ends before chunk \<open>d\<close> starts, and the block that
  holds \<open>c\<close> is not to the right of the block that holds \<open>d\<close>. \<open>inside bs c z\<close>: the \<open>z\<close> bytes from
  \<open>c\<close> on end before the line does.
\<close>

inductive before :: "blk list \<Rightarrow> nat \<Rightarrow> nat \<Rightarrow> nat \<Rightarrow> bool" where
  before_here: "(c, p) \<in> set (blk_pos 0 b) \<Longrightarrow> (d, q) \<in> set (line_pos 0 (b # bs)) \<Longrightarrow> p + z \<le> q \<Longrightarrow>
     before (b # bs) c z d"
| before_there: "before bs c z d \<Longrightarrow> before (b # bs) c z d"

inductive inside :: "blk list \<Rightarrow> nat \<Rightarrow> nat \<Rightarrow> bool" where
  inside_here: "(c, p) \<in> set (blk_pos 0 b) \<Longrightarrow> p + z \<le> line_size (b # bs) \<Longrightarrow> inside (b # bs) c z"
| inside_there: "inside bs c z \<Longrightarrow> inside (b # bs) c z"

inductive_simps before_Nil [simp]: "before [] c z d"
inductive_simps before_Cons: "before (b # bs) c z d"
inductive_simps inside_Nil [simp]: "inside [] c z"
inductive_simps inside_Cons: "inside (b # bs) c z"

lemma before_pos:
  "before bs c z d \<Longrightarrow> \<exists>p q. (c, p) \<in> set (line_pos base bs) \<and> (d, q) \<in> set (line_pos base bs) \<and> p + z \<le> q"
proof (induction arbitrary: base rule: before.induct)
  case (before_here c p b d q bs z)
  have "(c, p + base) \<in> set (blk_pos (0 + base) b)"
    using before_here.hyps(1) by (simp only: blk_pos_shift) auto
  then have "(c, p + base) \<in> set (line_pos base (b # bs))" by simp
  moreover have "(d, q + base) \<in> set (line_pos (0 + base) (b # bs))"
    using before_here.hyps(2) by (simp only: line_pos_shift) auto
  ultimately show ?case using before_here.hyps(3)
    by (intro exI [of _ "p + base"] exI [of _ "q + base"]) simp
next
  case (before_there bs c z d b)
  from before_there.IH [of "base + bsz b"] show ?case by (simp; blast)
qed

lemma inside_pos:
  "inside bs c z \<Longrightarrow> \<exists>p. (c, p) \<in> set (line_pos base bs) \<and> p + z \<le> base + line_size bs"
proof (induction arbitrary: base rule: inside.induct)
  case (inside_here c p b z bs)
  have "(c, p + base) \<in> set (blk_pos (0 + base) b)"
    using inside_here.hyps(1) by (simp only: blk_pos_shift) auto
  then show ?case using inside_here.hyps(2) by (intro exI [of _ "p + base"]) simp
next
  case (inside_there bs c z b)
  from inside_there.IH [of "base + bsz b"] obtain p
    where "(c, p) \<in> set (line_pos (base + bsz b) bs)" and "p + z \<le> base + bsz b + line_size bs" by blast
  then show ?case by (intro exI [of _ p]) simp
qed

text \<open>Two whole blocks of a line stand one behind the other; every block stands inside it.\<close>

lemma before_blocks: "before (bs @ b # cs @ d # ds) (bid b) (bsz b) (bid d)"
proof (induction bs)
  case Nil
  have "(bid d, bsz b + line_size cs) \<in> set (line_pos (bsz b) (cs @ d # ds))"
    by (simp add: line_pos_append blk_pos_def)
  then show ?case
    by (auto intro!: before_here [where p = 0 and q = "bsz b + line_size cs"] simp: blk_pos_def)
next
  case (Cons a bs)
  then show ?case by (simp add: before_there)
qed

lemma inside_block: "inside (bs @ b # cs) (bid b) (bsz b)"
proof (induction bs)
  case Nil
  show ?case by (auto intro!: inside_here [where p = 0] simp: blk_pos_def)
next
  case (Cons a bs)
  then show ?case by (simp add: inside_there)
qed

section \<open>Growing a line\<close>

text \<open>
  \<open>grows bs cs\<close>: every chunk of \<open>bs\<close> is a chunk of \<open>cs\<close>, at the same place or further to the right,
  the line does not get shorter, and what stood one behind the other (or inside the line) still does.
\<close>

definition grows :: "blk list \<Rightarrow> blk list \<Rightarrow> bool" where
  "grows bs cs \<longleftrightarrow>
     (\<forall>i p. (i, p) \<in> set (line_pos 0 bs) \<longrightarrow> (\<exists>q. (i, q) \<in> set (line_pos 0 cs) \<and> p \<le> q)) \<and>
     line_size bs \<le> line_size cs \<and>
     (\<forall>c z d. before bs c z d \<longrightarrow> before cs c z d) \<and>
     (\<forall>c z. inside bs c z \<longrightarrow> inside cs c z)"

lemma growsD:
  assumes "grows bs cs"
  shows "before bs c z d \<Longrightarrow> before cs c z d" and "inside bs c z \<Longrightarrow> inside cs c z"
  using assms by (auto simp: grows_def)

lemma grows_refl [simp]: "grows bs bs"
  by (auto simp: grows_def)

lemma grows_trans [trans]: "grows bs cs \<Longrightarrow> grows cs ds \<Longrightarrow> grows bs ds"
  unfolding grows_def by (meson order_trans)

lemma grows_Cons:
  assumes "grows bs cs"
  shows "grows (b # bs) (b # cs)"
proof -
  have pos: "\<exists>q. (i, q) \<in> set (line_pos 0 (b # cs)) \<and> p \<le> q"
    if "(i, p) \<in> set (line_pos 0 (b # bs))" for i p
  proof (cases "(i, p) \<in> set (blk_pos 0 b)")
    case True
    then show ?thesis by auto
  next
    case False
    with that obtain p' where "(i, p') \<in> set (line_pos 0 bs)" and p: "p = p' + bsz b"
      by (auto simp: line_pos_base [of "bsz b"])
    with assms obtain q where "(i, q) \<in> set (line_pos 0 cs)" and "p' \<le> q"
      unfolding grows_def by blast
    then show ?thesis unfolding p
      by (intro exI [of _ "q + bsz b"]) (auto simp: line_pos_base [of "bsz b"])
  qed
  have sz: "line_size bs \<le> line_size cs" using assms by (simp add: grows_def)
  have bef: "before (b # cs) c z d" if "before (b # bs) c z d" for c z d
    using that
  proof (cases rule: before.cases)
    case (before_here p q)
    with pos [of d q] show ?thesis by (blast intro: before.before_here order_trans)
  next
    case before_there
    then show ?thesis using assms by (blast intro: before.before_there dest: growsD)
  qed
  have ins: "inside (b # cs) c z" if "inside (b # bs) c z" for c z
    using that
  proof (cases rule: inside.cases)
    case (inside_here p)
    with sz show ?thesis by (auto intro: inside.inside_here)
  next
    case inside_there
    then show ?thesis using assms by (blast intro: inside.inside_there dest: growsD)
  qed
  show ?thesis unfolding grows_def using pos sz bef ins by auto
qed

lemma grows_prefix: "grows bs cs \<Longrightarrow> grows (as @ bs) (as @ cs)"
  by (induction as) (auto intro: grows_Cons)

text \<open>Append: a new block at the end of the line.\<close>

lemma grows_append: "grows bs (bs @ cs)"
proof (induction bs)
  case Nil
  then show ?case by (simp add: grows_def)
next
  case (Cons b bs)
  then show ?case by (auto intro: grows_Cons)
qed

text \<open>A block whose status changes stays where it is.\<close>

lemma blk_pos_cong: "bid b = bid b' \<Longrightarrow> bkids b = bkids b' \<Longrightarrow> blk_pos base b = blk_pos base b'"
  by (simp add: blk_pos_def)

text \<open>Resize: a block gets longer, or keeps its length and changes its status.\<close>

lemma grows_resize:
  assumes "bid b' = bid b" and "bkids b' = bkids b" and "bsz b \<le> bsz b'"
  shows "grows (b # bs) (b' # bs)"
proof -
  have eq: "blk_pos base b' = blk_pos base b" for base using assms by (simp add: blk_pos_def)
  obtain e where e: "bsz b' = bsz b + e" using assms(3) le_iff_add by auto
  have tl: "line_pos (bsz b') bs = shift e (line_pos (bsz b) bs)"
    unfolding e by (rule line_pos_shift)
  have pos: "\<exists>q. (i, q) \<in> set (line_pos 0 (b' # bs)) \<and> p \<le> q"
    if "(i, p) \<in> set (line_pos 0 (b # bs))" for i p
    using that by (fastforce simp: eq tl)
  have bef: "before (b' # bs) c z d" if "before (b # bs) c z d" for c z d
    using that
  proof (cases rule: before.cases)
    case (before_here p q)
    with pos [of d q] show ?thesis by (metis before.before_here eq order_trans)
  next
    case before_there
    then show ?thesis by (rule before.before_there)
  qed
  have ins: "inside (b' # bs) c z" if "inside (b # bs) c z" for c z
    using that
  proof (cases rule: inside.cases)
    case (inside_here p)
    with assms(3) show ?thesis by (auto simp: eq intro!: inside.inside_here [where p = p])
  next
    case inside_there
    then show ?thesis by (rule inside.inside_there)
  qed
  show ?thesis unfolding grows_def using pos bef ins assms(3) by auto
qed

text \<open>Split: the tail of a block becomes a block of its own, a chunk nobody has used before.\<close>

lemma grows_split:
  assumes "bid b' = bid b" and "bkids b' = bkids b" and "bsz b' + bsz r = bsz b" and "bkids r = []"
  shows "grows (b # bs) (b' # r # bs)"
proof -
  have eq: "blk_pos base b' = blk_pos base b" for base using assms by (simp add: blk_pos_def)
  have line: "set (line_pos base (b # bs)) \<subseteq> set (line_pos base (b' # r # bs))" for base
  proof -
    have "bsz b = bsz b' + bsz r" using assms(3) by simp
    then show ?thesis by (auto simp: eq add.assoc)
  qed
  have pos: "\<exists>q. (i, q) \<in> set (line_pos 0 (b' # r # bs)) \<and> p \<le> q"
    if "(i, p) \<in> set (line_pos 0 (b # bs))" for i p
    using that line [of 0] by blast
  have bef: "before (b' # r # bs) c z d" if "before (b # bs) c z d" for c z d
    using that
  proof (cases rule: before.cases)
    case (before_here p q)
    with line [of 0] show ?thesis by (metis before.before_here eq subset_iff)
  next
    case before_there
    then show ?thesis by (intro before.before_there)
  qed
  have ins: "inside (b' # r # bs) c z" if "inside (b # bs) c z" for c z
    using that
  proof (cases rule: inside.cases)
    case (inside_here p)
    with assms(3) show ?thesis by (auto simp: eq intro!: inside.inside_here [where p = p])
  next
    case inside_there
    then show ?thesis by (intro inside.inside_there)
  qed
  show ?thesis unfolding grows_def using pos bef ins assms(3) by auto
qed

text \<open>Absorb: a block takes in its right neighbour, which keeps its place.\<close>

definition absorb :: "blk \<Rightarrow> blk \<Rightarrow> blk" where
  "absorb l r = l\<lparr>bsz := bsz l + bsz r, bkids := bkids l @ [Kid (bid r) (bsz l) (bkids r)]\<rparr>"

lemma absorb_simps [simp]:
  "bid (absorb l r) = bid l" "bsz (absorb l r) = bsz l + bsz r" "bused (absorb l r) = bused l"
  "bkids (absorb l r) = bkids l @ [Kid (bid r) (bsz l) (bkids r)]"
  by (simp_all add: absorb_def)

lemma absorb_pos: "blk_pos base (absorb l r) = blk_pos base l @ blk_pos (base + bsz l) r"
  by (simp add: blk_pos_def)

lemma absorb_ids: "blk_ids (absorb l r) = blk_ids l @ blk_ids r"
  by (simp add: blk_ids_def)

lemma grows_absorb: "grows (l # r # bs) (absorb l r # bs)"
proof -
  have line: "line_pos base (absorb l r # bs) = line_pos base (l # r # bs)" for base
    by (simp add: absorb_pos add.assoc)
  have bef: "before (absorb l r # bs) c z d" if bef: "before (l # r # bs) c z d" for c z d
    using bef
  proof (cases rule: before.cases)
    case (before_here p q)
    then have "(c, p) \<in> set (blk_pos 0 (absorb l r))" by (simp add: absorb_pos)
    moreover have "(d, q) \<in> set (line_pos 0 (absorb l r # bs))" using before_here by (simp only: line)
    ultimately show ?thesis using before_here(3) by (rule before.before_here)
  next
    case before_there
    then show ?thesis
    proof (cases rule: before.cases)
      case (before_here p q)
      then have "(c, p + bsz l) \<in> set (blk_pos 0 (absorb l r))"
        using blk_pos_shift [of 0 "bsz l" r] by (simp add: absorb_pos)
      moreover have "(d, q + bsz l) \<in> set (line_pos 0 (absorb l r # bs))"
        using before_here(2) line_pos_base [of "bsz l" "r # bs"] unfolding line by auto
      ultimately show ?thesis using before_here(3) by (auto intro!: before.before_here)
    next
      case before_there
      then show ?thesis by (rule before.before_there)
    qed
  qed
  have ins: "inside (absorb l r # bs) c z" if ins: "inside (l # r # bs) c z" for c z
    using ins
  proof (cases rule: inside.cases)
    case (inside_here p)
    then show ?thesis by (auto simp: absorb_pos intro!: inside.inside_here [where p = p])
  next
    case inside_there
    then show ?thesis
    proof (cases rule: inside.cases)
      case (inside_here p)
      then have "(c, p + bsz l) \<in> set (blk_pos 0 (absorb l r))"
        using blk_pos_shift [of 0 "bsz l" r] by (simp add: absorb_pos)
      then show ?thesis using inside_here(2) by (auto intro!: inside.inside_here)
    next
      case inside_there
      then show ?thesis by (rule inside.inside_there)
    qed
  qed
  have pos: "\<exists>q. (i, q) \<in> set (line_pos 0 (absorb l r # bs)) \<and> p \<le> q"
    if "(i, p) \<in> set (line_pos 0 (l # r # bs))" for i p
    using that by (intro exI [of _ p]) (simp only: line order_refl simp_thms)
  show ?thesis unfolding grows_def using bef ins pos by auto
qed

lemma grows_absorb_status:
  assumes "bid b' = bid l" and "bsz b' = bsz l + bsz r"
    and "bkids b' = bkids l @ [Kid (bid r) (bsz l) (bkids r)]"
  shows "grows (l # r # bs) (b' # bs)"
  by (rule grows_trans [OF grows_absorb]) (rule grows_resize, simp_all add: assms)

section \<open>No two free neighbours\<close>

fun coalesced :: "blk list \<Rightarrow> bool" where
  "coalesced (a # b # bs) \<longleftrightarrow> (bused a \<or> bused b) \<and> coalesced (b # bs)"
| "coalesced _ \<longleftrightarrow> True"

lemma coalesced_Cons: "coalesced (a # bs) \<longleftrightarrow> (bs = [] \<or> bused a \<or> bused (hd bs)) \<and> coalesced bs"
  by (cases bs) auto

lemma coalesced_append:
  "coalesced (as @ bs) \<longleftrightarrow>
     coalesced as \<and> coalesced bs \<and> (as = [] \<or> bs = [] \<or> bused (last as) \<or> bused (hd bs))"
  by (induction as) (auto simp: coalesced_Cons hd_append)

lemma coalesced_all_free: "coalesced bs \<Longrightarrow> \<forall>b \<in> set bs. \<not> bused b \<Longrightarrow> length bs \<le> 1"
  by (induction bs rule: coalesced.induct) auto

end
