(* ===== verification/Defer_Refine.thy ===== *)
theory Defer_Refine
  imports Defer_Model Defer_Plan
begin

text \<open>
  The pointer structure of \<open>DeferBufferAllocator\<close> represents a line of blocks: \<open>rep s bs\<close>. The
  linked list from \<open>mHead\<close> to \<open>mTail\<close> is the line, the \<open>children\<close> vectors are the absorbed
  chunks, the free list is the sorted collection of the unused blocks, and no two neighbours are
  unused. Every operation keeps such a representation, with the line changed by the elementary steps
  of \<open>Defer_Plan\<close>.
\<close>

section \<open>The representation relation\<close>

fun dll :: "mem_node list \<Rightarrow> nat option \<Rightarrow> nat list \<Rightarrow> nat option \<Rightarrow> bool" where
  "dll ns p [] n = True"
| "dll ns p (x # xs) n \<longleftrightarrow>
     nleft (ns ! x) = p \<and> nright (ns ! x) = (if xs = [] then n else Some (hd xs)) \<and>
     dll ns (Some x) xs n"

fun heap_kid :: "mem_node list \<Rightarrow> kid \<Rightarrow> bool" where
  "heap_kid ns (Kid i r ks) \<longleftrightarrow>
     noffset (ns ! i) = r \<and> children (ns ! i) = map kid_id ks \<and> (\<forall>k \<in> set ks. heap_kid ns k)"

definition heap_blk :: "mem_node list \<Rightarrow> blk \<Rightarrow> bool" where
  "heap_blk ns b \<longleftrightarrow>
     nsize (ns ! bid b) = bsz b \<and> usage (ns ! bid b) = bused b \<and>
     children (ns ! bid b) = map kid_id (bkids b) \<and> (\<forall>k \<in> set (bkids b). heap_kid ns k)"

definition first_of :: "nat list \<Rightarrow> nat option" where
  "first_of xs = (if xs = [] then None else Some (hd xs))"

definition last_of :: "nat list \<Rightarrow> nat option" where
  "last_of xs = (if xs = [] then None else Some (last xs))"

definition rep_line :: "defer_state \<Rightarrow> blk list \<Rightarrow> bool" where
  "rep_line s bs \<longleftrightarrow>
     mHead s = first_of (map bid bs) \<and> mTail s = last_of (map bid bs) \<and>
     dll (chunks s) None (map bid bs) None \<and> (\<forall>b \<in> set bs. heap_blk (chunks s) b) \<and>
     distinct (line_ids bs) \<and> set (line_ids bs) = {..<length (chunks s)}"

definition rep_free :: "defer_state \<Rightarrow> blk list \<Rightarrow> bool" where
  "rep_free s bs \<longleftrightarrow>
     distinct (freeList s) \<and> set (freeList s) = bid ` {b \<in> set bs. \<not> bused b} \<and>
     sorted_by (size_key s) (freeList s)"

definition rep :: "defer_state \<Rightarrow> blk list \<Rightarrow> bool" where
  "rep s bs \<longleftrightarrow> rep_line s bs \<and> rep_free s bs \<and> coalesced bs"

section \<open>Frame lemmas\<close>

lemma dll_append:
  "dll ns p (xs @ ys) n \<longleftrightarrow>
     dll ns p xs (if ys = [] then n else Some (hd ys)) \<and>
     dll ns (if xs = [] then p else Some (last xs)) ys n"
  by (induction xs arbitrary: p) (auto simp: hd_append)

lemma dll_cong:
  "(\<And>x. x \<in> set xs \<Longrightarrow> nleft (ns' ! x) = nleft (ns ! x) \<and> nright (ns' ! x) = nright (ns ! x)) \<Longrightarrow>
   dll ns' p xs n = dll ns p xs n"
  by (induction xs arbitrary: p) auto

lemma heap_kid_cong:
  "(\<And>i. i \<in> set (kid_ids k) \<Longrightarrow> noffset (ns' ! i) = noffset (ns ! i) \<and> children (ns' ! i) = children (ns ! i)) \<Longrightarrow>
   heap_kid ns' k = heap_kid ns k"
proof (induction k rule: kid.induct)
  case (Kid i r ks)
  have "heap_kid ns' k = heap_kid ns k" if "k \<in> set ks" for k
    using that Kid.prems by (intro Kid.IH) auto
  then show ?case using Kid.prems [of i] by auto
qed

lemma heap_blk_cong:
  assumes "\<And>i. i \<in> set (blk_ids b) \<Longrightarrow>
      noffset (ns' ! i) = noffset (ns ! i) \<and> children (ns' ! i) = children (ns ! i)"
    and "nsize (ns' ! bid b) = nsize (ns ! bid b)" and "usage (ns' ! bid b) = usage (ns ! bid b)"
  shows "heap_blk ns' b = heap_blk ns b"
proof -
  have "heap_kid ns' k = heap_kid ns k" if "k \<in> set (bkids b)" for k
    using that assms(1) by (intro heap_kid_cong) (auto simp: blk_ids_def)
  then show ?thesis using assms by (simp add: heap_blk_def blk_ids_def)
qed

text \<open>Data of a node that the linked list does not touch.\<close>

definition same_data :: "mem_node list \<Rightarrow> mem_node list \<Rightarrow> bool" where
  "same_data ns ns' \<longleftrightarrow> length ns' = length ns \<and>
     (\<forall>i < length ns. nsize (ns' ! i) = nsize (ns ! i) \<and> noffset (ns' ! i) = noffset (ns ! i) \<and>
        usage (ns' ! i) = usage (ns ! i) \<and> children (ns' ! i) = children (ns ! i))"

lemma same_data_refl [simp]: "same_data ns ns"
  by (simp add: same_data_def)

lemma same_data_trans [trans]: "same_data a b \<Longrightarrow> same_data b c \<Longrightarrow> same_data a c"
  by (simp add: same_data_def)

lemma chunks_upd_node [simp]: "chunks (upd_node n f s) = (chunks s)[n := f (chunks s ! n)]"
  by (simp add: upd_node_def)

lemma upd_node_frame [simp]:
  "mHead (upd_node n f s) = mHead s" "mTail (upd_node n f s) = mTail s"
  "freeList (upd_node n f s) = freeList s" "totalSize (upd_node n f s) = totalSize s"
  "mBarrier (upd_node n f s) = mBarrier s" "barrierFree (upd_node n f s) = barrierFree s"
  "mAlign (upd_node n f s) = mAlign s" "mPtr (upd_node n f s) = mPtr s"
  by (simp_all add: upd_node_def)

lemma same_data_link:
  "same_data ns (ns[n := (ns ! n)\<lparr>nleft := p\<rparr>])" "same_data ns (ns[n := (ns ! n)\<lparr>nright := p\<rparr>])"
  by (auto simp: same_data_def nth_list_update_if)

lemma same_data_insert_after: "same_data (chunks s) (chunks (insert_after c p s))"
  by (auto simp: insert_after_def Let_def same_data_def nth_list_update_if split: option.split)

lemma same_data_erase_node: "same_data (chunks s) (chunks (erase_node c s))"
  by (auto simp: erase_node_def same_data_def nth_list_update_if split: option.split)

lemma insert_after_frame [simp]:
  "freeList (insert_after c p s) = freeList s" "totalSize (insert_after c p s) = totalSize s"
  "mBarrier (insert_after c p s) = mBarrier s" "barrierFree (insert_after c p s) = barrierFree s"
  "length (chunks (insert_after c p s)) = length (chunks s)" "mAlign (insert_after c p s) = mAlign s"
  by (auto simp: insert_after_def Let_def split: option.split)

lemma erase_node_frame [simp]:
  "freeList (erase_node c s) = freeList s" "totalSize (erase_node c s) = totalSize s"
  "mBarrier (erase_node c s) = mBarrier s" "barrierFree (erase_node c s) = barrierFree s"
  "length (chunks (erase_node c s)) = length (chunks s)" "mAlign (erase_node c s) = mAlign s"
  by (auto simp: erase_node_def split: option.split)

lemma kid_id_in [simp]: "kid_id k \<in> set (kid_ids k)"
  by (cases k) simp

lemma bid_in [simp]: "bid b \<in> set (blk_ids b)"
  by (simp add: blk_ids_def)

lemma blk_ids_line: "b \<in> set bs \<Longrightarrow> set (blk_ids b) \<subseteq> set (line_ids bs)"
  by (auto simp: line_ids_def)

lemma heap_blk_same_data:
  assumes "same_data ns ns'" and "set (blk_ids b) \<subseteq> {..<length ns}"
  shows "heap_blk ns' b = heap_blk ns b"
proof (rule heap_blk_cong)
  fix i assume "i \<in> set (blk_ids b)"
  with assms show "noffset (ns' ! i) = noffset (ns ! i) \<and> children (ns' ! i) = children (ns ! i)"
    by (auto simp: same_data_def)
next
  have "bid b < length ns" using assms(2) bid_in [of b] by blast
  with assms(1) show "nsize (ns' ! bid b) = nsize (ns ! bid b)" "usage (ns' ! bid b) = usage (ns ! bid b)"
    by (auto simp: same_data_def)
qed

lemma rep_lineD:
  assumes "rep_line s bs"
  shows "distinct (map bid bs)" and "b \<in> set bs \<Longrightarrow> bid b < length (chunks s)"
    and "b \<in> set bs \<Longrightarrow> set (blk_ids b) \<subseteq> {..<length (chunks s)}"
    and "b \<in> set bs \<Longrightarrow> heap_blk (chunks s) b"
proof -
  have dist: "distinct (line_ids bs)" using assms by (simp add: rep_line_def)
  then show "distinct (map bid bs)"
  proof (induction bs)
    case (Cons b bs)
    have "bid b \<notin> bid ` set bs"
    proof
      assume "bid b \<in> bid ` set bs"
      then obtain c where "c \<in> set bs" and "bid c = bid b" by auto
      then have "bid b \<in> set (line_ids bs)" using blk_ids_line [of c bs] bid_in [of c] by auto
      moreover have "bid b \<in> set (blk_ids b)" by simp
      ultimately show False using Cons.prems by (auto simp del: bid_in)
    qed
    then show ?case using Cons by simp
  qed simp
  show sub: "set (blk_ids b) \<subseteq> {..<length (chunks s)}" if "b \<in> set bs"
    using blk_ids_line [OF that] assms by (simp add: rep_line_def)
  show "bid b < length (chunks s)" if "b \<in> set bs" using sub [OF that] bid_in [of b] by blast
  show "heap_blk (chunks s) b" if "b \<in> set bs" using assms that by (simp add: rep_line_def)
qed

section \<open>Linking and unlinking\<close>

lemma first_of_simps [simp]:
  "first_of [] = None" "first_of (x # xs) = Some x"
  "first_of (xs @ x # ys) = Some (if xs = [] then x else hd xs)"
  by (auto simp: first_of_def hd_append)

lemma last_of_simps [simp]:
  "last_of [] = None" "last_of [x] = Some x"
  "last_of (xs @ x # ys) = Some (if ys = [] then x else last ys)"
  "last_of (x # ys) = Some (if ys = [] then x else last ys)"
  by (auto simp: last_of_def)

lemma dll_mid:
  "dll ns p (xs @ x # ys) n \<longleftrightarrow>
     dll ns p xs (Some x) \<and> nleft (ns ! x) = (if xs = [] then p else Some (last xs)) \<and>
     nright (ns ! x) = (if ys = [] then n else Some (hd ys)) \<and> dll ns (Some x) ys n"
  by (auto simp: dll_append)

text \<open>The left and right ends of a segment can be redirected.\<close>

lemma dll_redirect_right:
  assumes "dll ns p (xs @ [x]) n" and "distinct (xs @ [x])"
    and "nright (ns' ! x) = n'" and "nleft (ns' ! x) = nleft (ns ! x)"
    and "\<And>y. y \<in> set xs \<Longrightarrow> nleft (ns' ! y) = nleft (ns ! y) \<and> nright (ns' ! y) = nright (ns ! y)"
  shows "dll ns' p (xs @ [x]) n'"
  using assms dll_cong [of xs ns' ns p "Some x"] by (auto simp: dll_append)

lemma dll_redirect_left:
  assumes "dll ns p (x # xs) n" and "distinct (x # xs)"
    and "nleft (ns' ! x) = p'" and "nright (ns' ! x) = nright (ns ! x)"
    and "\<And>y. y \<in> set xs \<Longrightarrow> nleft (ns' ! y) = nleft (ns ! y) \<and> nright (ns' ! y) = nright (ns ! y)"
  shows "dll ns' p' (x # xs) n"
  using assms dll_cong [of xs ns' ns "Some x" n] by auto

lemma insert_after_Some:
  assumes dll: "dll (chunks s) None (xs @ p # ys) None" and dist: "distinct (xs @ p # ys)"
    and c: "c \<notin> set (xs @ p # ys)" "c < length (chunks s)"
    and len: "\<forall>x \<in> set (xs @ p # ys). x < length (chunks s)"
    and ends: "mHead s = first_of (xs @ p # ys)" "mTail s = last_of (xs @ p # ys)"
  shows "dll (chunks (insert_after c (Some p) s)) None (xs @ p # c # ys) None"
    and "mHead (insert_after c (Some p) s) = first_of (xs @ p # c # ys)"
    and "mTail (insert_after c (Some p) s) = last_of (xs @ p # c # ys)"
proof -
  let ?ns = "chunks (insert_after c (Some p) s)"
  from dll have pr: "nright (node s p) = (if ys = [] then None else Some (hd ys))"
    and seg: "dll (chunks s) None (xs @ [p]) (if ys = [] then None else Some (hd ys))"
      "dll (chunks s) (Some p) ys None"
    by (auto simp: dll_append)
  have hd: "ys \<noteq> [] \<Longrightarrow> hd ys \<in> set ys" by simp
  have lt: "p < length (chunks s)" "ys \<noteq> [] \<Longrightarrow> hd ys < length (chunks s)"
    using len hd by auto
  have frame: "nleft (?ns ! x) = nleft (node s x) \<and> nright (?ns ! x) = nright (node s x)"
    if "x \<noteq> c" "x \<noteq> p" "ys \<noteq> [] \<Longrightarrow> x \<noteq> hd ys" for x
    using that pr by (cases "ys = []") (simp_all add: insert_after_def Let_def nth_list_update_if)
  have cnode: "nleft (?ns ! c) = Some p" "nright (?ns ! c) = (if ys = [] then None else Some (hd ys))"
    and pnode: "nright (?ns ! p) = Some c" "nleft (?ns ! p) = nleft (node s p)"
    using pr c lt dist hd by (cases "ys = []"; auto simp: insert_after_def Let_def nth_list_update_if)+
  have ynode: "nleft (?ns ! hd ys) = Some c" "nright (?ns ! hd ys) = nright (node s (hd ys))" if "ys \<noteq> []"
    using pr c lt dist hd that by (auto simp: insert_after_def Let_def nth_list_update_if)
  have frame_xs: "nleft (?ns ! x) = nleft (node s x) \<and> nright (?ns ! x) = nright (node s x)"
    if "x \<in> set xs" for x
    by (rule frame) (use that dist c hd in auto)
  have left: "dll ?ns None (xs @ [p]) (Some c)"
    by (rule dll_redirect_right [OF seg(1)]) (use dist pnode frame_xs in auto)
  have right: "dll ?ns (Some c) ys None"
  proof (cases ys)
    case (Cons y zs)
    have "nleft (?ns ! x) = nleft (node s x) \<and> nright (?ns ! x) = nright (node s x)"
      if "x \<in> set zs" for x
      by (rule frame) (use that dist c Cons in auto)
    then show ?thesis unfolding Cons
      by (intro dll_redirect_left [OF seg(2) [unfolded Cons]]) (use dist ynode Cons in auto)
  qed simp
  show "dll ?ns None (xs @ p # c # ys) None"
    using left right cnode by (auto simp: dll_append)
  show "mHead (insert_after c (Some p) s) = first_of (xs @ p # c # ys)"
    using ends by (auto simp: insert_after_def Let_def split: option.split)
  show "mTail (insert_after c (Some p) s) = last_of (xs @ p # c # ys)"
    using ends dist by (auto simp: insert_after_def Let_def split: option.split)
qed

lemma insert_after_None:
  assumes dll: "dll (chunks s) None xs None" and dist: "distinct xs"
    and c: "c \<notin> set xs" "c < length (chunks s)" "nleft (node s c) = None" "nright (node s c) = None"
    and len: "\<forall>x \<in> set xs. x < length (chunks s)"
    and ends: "mHead s = first_of xs" "mTail s = last_of xs"
  shows "dll (chunks (insert_after c None s)) None (xs @ [c]) None"
    and "mHead (insert_after c None s) = first_of (xs @ [c])"
    and "mTail (insert_after c None s) = last_of (xs @ [c])"
proof -
  let ?ns = "chunks (insert_after c None s)"
  have "dll ?ns None (xs @ [c]) None \<and> mHead (insert_after c None s) = first_of (xs @ [c]) \<and>
      mTail (insert_after c None s) = last_of (xs @ [c])"
  proof (cases xs rule: rev_cases)
    case Nil
    then show ?thesis using ends c by (simp add: insert_after_def)
  next
    case (snoc zs t)
    have tail: "mTail s = Some t" using ends snoc by simp
    have lt: "t < length (chunks s)" and ct: "c \<noteq> t" using len snoc c by auto
    have "dll ?ns None (zs @ [t]) (Some c)"
      by (rule dll_redirect_right [OF dll [unfolded snoc]])
        (use dist c snoc lt ct tail in \<open>auto simp: insert_after_def nth_list_update_if\<close>)
    moreover have "nleft (?ns ! c) = Some t" "nright (?ns ! c) = None"
      using c lt ct tail by (auto simp: insert_after_def nth_list_update_if)
    ultimately show ?thesis using ends tail snoc
      by (auto simp: dll_append insert_after_def)
  qed
  then show "dll ?ns None (xs @ [c]) None" "mHead (insert_after c None s) = first_of (xs @ [c])"
    "mTail (insert_after c None s) = last_of (xs @ [c])" by auto
qed

lemma erase_node_dll:
  assumes dll: "dll (chunks s) None (xs @ l # r # ys) None" and dist: "distinct (xs @ l # r # ys)"
    and len: "\<forall>x \<in> set (xs @ l # r # ys). x < length (chunks s)"
    and ends: "mHead s = first_of (xs @ l # r # ys)" "mTail s = last_of (xs @ l # r # ys)"
  shows "dll (chunks (erase_node r s)) None (xs @ l # ys) None"
    and "mHead (erase_node r s) = first_of (xs @ l # ys)"
    and "mTail (erase_node r s) = last_of (xs @ l # ys)"
proof -
  let ?ns = "chunks (erase_node r s)"
  from dll have rl: "nleft (node s r) = Some l"
    and rr: "nright (node s r) = (if ys = [] then None else Some (hd ys))"
    and seg: "dll (chunks s) None (xs @ [l]) (Some r)" "dll (chunks s) (Some r) ys None"
    by (auto simp: dll_append)
  have hd: "ys \<noteq> [] \<Longrightarrow> hd ys \<in> set ys" by simp
  have lt: "l < length (chunks s)" "ys \<noteq> [] \<Longrightarrow> hd ys < length (chunks s)"
    using len hd by auto
  have frame: "nleft (?ns ! x) = nleft (node s x) \<and> nright (?ns ! x) = nright (node s x)"
    if "x \<noteq> l" "ys \<noteq> [] \<Longrightarrow> x \<noteq> hd ys" for x
    using that rl rr by (cases "ys = []") (simp_all add: erase_node_def nth_list_update_if)
  have lnode: "nright (?ns ! l) = (if ys = [] then None else Some (hd ys))"
    "nleft (?ns ! l) = nleft (node s l)"
    using rl rr lt dist hd by (cases "ys = []"; auto simp: erase_node_def nth_list_update_if)+
  have ynode: "nleft (?ns ! hd ys) = Some l" "nright (?ns ! hd ys) = nright (node s (hd ys))" if "ys \<noteq> []"
    using rl rr lt dist hd that by (auto simp: erase_node_def nth_list_update_if)
  have frame_xs: "nleft (?ns ! x) = nleft (node s x) \<and> nright (?ns ! x) = nright (node s x)"
    if "x \<in> set xs" for x
    by (rule frame) (use that dist hd in auto)
  have left: "dll ?ns None (xs @ [l]) (if ys = [] then None else Some (hd ys))"
    by (rule dll_redirect_right [OF seg(1)]) (use dist lnode frame_xs in auto)
  have right: "dll ?ns (Some l) ys None"
  proof (cases ys)
    case (Cons y zs)
    have "nleft (?ns ! x) = nleft (node s x) \<and> nright (?ns ! x) = nright (node s x)"
      if "x \<in> set zs" for x
      by (rule frame) (use that dist Cons in auto)
    then show ?thesis unfolding Cons
      by (intro dll_redirect_left [OF seg(2) [unfolded Cons]]) (use dist ynode Cons in auto)
  qed simp
  show "dll ?ns None (xs @ l # ys) None"
    using left right by (auto simp: dll_append)
  show "mHead (erase_node r s) = first_of (xs @ l # ys)"
    using ends rl rr by (auto simp: erase_node_def split: option.split)
  show "mTail (erase_node r s) = last_of (xs @ l # ys)"
    using ends rl rr dist by (auto simp: erase_node_def split: option.split)
qed

end
