(* ===== verification/Defer_Ops.thy ===== *)
theory Defer_Ops
  imports Defer_Refine
begin

text \<open>
  Every operation of \<open>DeferBufferAllocator\<close> on a represented line: what line it leaves, that it
  only grows the layout, and what it does to the blocks in use.
\<close>

section \<open>Frames\<close>

definition data_eq :: "mem_node \<Rightarrow> mem_node \<Rightarrow> bool" where
  "data_eq x y \<longleftrightarrow> nsize y = nsize x \<and> noffset y = noffset x \<and> usage y = usage x \<and> children y = children x"

lemma heap_blk_agree:
  "(\<And>i. i \<in> set (blk_ids b) \<Longrightarrow> data_eq (ns ! i) (ns' ! i)) \<Longrightarrow> heap_blk ns' b = heap_blk ns b"
  by (rule heap_blk_cong) (auto simp: data_eq_def)

lemma same_data_data_eq: "same_data ns ns' \<Longrightarrow> i < length ns \<Longrightarrow> data_eq (ns ! i) (ns' ! i)"
  by (simp add: same_data_def data_eq_def)

lemma sorted_by_cong: "(\<And>x. x \<in> set xs \<Longrightarrow> k x = k' x) \<Longrightarrow> sorted_by k xs = sorted_by k' xs"
  by (simp cong: map_cong)

definition used_blks :: "blk list \<Rightarrow> (nat \<times> nat) set" where
  "used_blks bs = (\<lambda>b. (bid b, bsz b)) ` {b \<in> set bs. bused b}"

definition free_ids :: "blk list \<Rightarrow> nat set" where
  "free_ids bs = bid ` {b \<in> set bs. \<not> bused b}"

lemma used_blks_simps [simp]:
  "used_blks [] = {}"
  "used_blks (b # bs) = (if bused b then insert (bid b, bsz b) (used_blks bs) else used_blks bs)"
  "used_blks (bs @ cs) = used_blks bs \<union> used_blks cs"
  by (auto simp: used_blks_def)

lemma free_ids_simps [simp]:
  "free_ids [] = {}" "free_ids (b # bs) = (if bused b then free_ids bs else insert (bid b) (free_ids bs))"
  "free_ids (bs @ cs) = free_ids bs \<union> free_ids cs"
  by (auto simp: free_ids_def)

lemma free_ids_sub: "free_ids bs \<subseteq> bid ` set bs"
  by (auto simp: free_ids_def)

definition rep_free_in :: "defer_state \<Rightarrow> nat set \<Rightarrow> bool" where
  "rep_free_in s X \<longleftrightarrow> distinct (freeList s) \<and> set (freeList s) = X \<and> sorted_by (size_key s) (freeList s)"

lemma rep_free_iff: "rep_free s bs = rep_free_in s (free_ids bs)"
  by (simp add: rep_free_def rep_free_in_def free_ids_def)

lemma rep_line_free_list [simp]: "rep_line (s\<lparr>freeList := f\<rparr>) bs = rep_line s bs"
  by (simp add: rep_line_def)

lemma rep_freeI:
  assumes "distinct (freeList s')" and "set (freeList s') = X"
    and "sorted_by k (freeList s')" and "\<And>i. i \<in> X \<Longrightarrow> size_key s' i = k i"
  shows "rep_free_in s' X"
  using assms sorted_by_cong [of "freeList s'" "size_key s'" k] by (simp add: rep_free_in_def)

text \<open>Changing the data of one block of the line.\<close>

lemma rep_line_set_block:
  assumes rep: "rep_line s (as @ b # cs)" and new: "bid b' = bid b" "bkids b' = bkids b"
    and f: "nsize (f (node s (bid b))) = bsz b'" "usage (f (node s (bid b))) = bused b'"
      "noffset (f (node s (bid b))) = noffset (node s (bid b))"
      "children (f (node s (bid b))) = children (node s (bid b))"
      "nleft (f (node s (bid b))) = nleft (node s (bid b))"
      "nright (f (node s (bid b))) = nright (node s (bid b))"
  shows "rep_line (upd_node (bid b) f s) (as @ b' # cs)"
proof -
  let ?s = "upd_node (bid b) f s"
  have lt: "bid b < length (chunks s)" by (rule rep_lineD(2) [OF rep]) simp
  have ids: "line_ids (as @ b' # cs) = line_ids (as @ b # cs)" using new by (simp add: blk_ids_def)
  have dist: "distinct (line_ids (as @ b # cs))" using rep by (simp add: rep_line_def)
  have "dll (chunks ?s) None (map bid (as @ b # cs)) None = dll (chunks s) None (map bid (as @ b # cs)) None"
    by (rule dll_cong) (use f in \<open>auto simp: nth_list_update_if\<close>)
  then have dll: "dll (chunks ?s) None (map bid (as @ b' # cs)) None"
    using rep new by (simp add: rep_line_def)
  have other: "heap_blk (chunks ?s) x" if x: "x \<in> set as \<union> set cs" for x
  proof -
    have "bid b \<notin> set (blk_ids x)"
      using dist x blk_ids_line [of x as] blk_ids_line [of x cs] bid_in [of b]
      by (auto simp: disjoint_iff simp del: bid_in)
    then have "heap_blk (chunks ?s) x = heap_blk (chunks s) x"
      by (intro heap_blk_agree) (auto simp: data_eq_def nth_list_update_if)
    then show ?thesis using x rep by (auto simp: rep_line_def)
  qed
  have "heap_blk (chunks s) b" using rep by (simp add: rep_line_def)
  moreover have "heap_kid (chunks ?s) k = heap_kid (chunks s) k" for k
    by (rule heap_kid_cong) (use f in \<open>auto simp: nth_list_update_if\<close>)
  ultimately have "heap_blk (chunks ?s) b'"
    using new f lt by (simp add: heap_blk_def nth_list_update_if)
  with other dll ids rep new show ?thesis by (auto simp: rep_line_def)
qed

section \<open>Creating a chunk\<close>

lemma createMemNode_eq:
  "createMemNode z s = (length (chunks s), s\<lparr>chunks := chunks s @ [new_node z]\<rparr>)"
  by (simp add: createMemNode_def)

lemma rep_line_fresh: "rep_line s bs \<Longrightarrow> length (chunks s) \<notin> set (line_ids bs)"
  by (simp add: rep_line_def)

lemma rep_line_append:
  assumes rep: "rep_line s bs" and n: "n = length (chunks s)"
    and s1: "s1 = s\<lparr>chunks := chunks s @ [new_node z]\<rparr>"
  shows "rep_line (insert_after n None s1) (bs @ [\<lparr>bid = n, bsz = z, bused = True, bkids = []\<rparr>])"
proof -
  let ?b = "\<lparr>bid = n, bsz = z, bused = True, bkids = []\<rparr>"
  let ?t = "insert_after n None s1"
  have lt: "x \<in> set (map bid bs) \<Longrightarrow> x < length (chunks s)" for x using rep_lineD(2) [OF rep] by auto
  have dll: "dll (chunks s1) None (map bid bs) None"
    using rep lt dll_cong [of "map bid bs" "chunks s1" "chunks s" None None]
    by (simp add: rep_line_def s1 nth_append)
  note ins = insert_after_None [OF dll rep_lineD(1) [OF rep], of n]
  have pre: "n \<notin> set (map bid bs)" "n < length (chunks s1)" "nleft (node s1 n) = None"
    "nright (node s1 n) = None" "\<forall>x \<in> set (map bid bs). x < length (chunks s1)"
    "mHead s1 = first_of (map bid bs)" "mTail s1 = last_of (map bid bs)"
    using lt rep n by (auto simp: s1 new_node_def rep_line_def intro: less_SucI)
  have data: "data_eq (node s1 i) (node ?t i)" if "i < length (chunks s1)" for i
    using same_data_data_eq [OF same_data_insert_after that] .
  have old: "heap_blk (chunks ?t) b" if b: "b \<in> set bs" for b
  proof -
    have "data_eq (node s i) (node ?t i)" if "i \<in> set (blk_ids b)" for i
      using rep_lineD(3) [OF rep b] that data [of i] by (auto simp: s1 nth_append)
    then show ?thesis using rep_lineD(4) [OF rep b] heap_blk_agree by blast
  qed
  have new: "heap_blk (chunks ?t) ?b"
    using data [of n] pre(2) n by (simp add: heap_blk_def data_eq_def s1 new_node_def)
  have ids: "distinct (line_ids (bs @ [?b]))" "set (line_ids (bs @ [?b])) = {..<length (chunks ?t)}"
    using rep rep_line_fresh [OF rep] n by (auto simp: rep_line_def blk_ids_def s1)
  from ins pre old new ids show ?thesis by (simp add: rep_line_def)
qed

lemma rep_line_split:
  assumes rep: "rep_line s (as @ b # cs)" and n: "n = length (chunks s)"
    and s1: "s1 = s\<lparr>chunks := chunks s @ [(new_node z)\<lparr>usage := False\<rparr>]\<rparr>"
  shows "rep_line (insert_after n (Some (bid b)) s1)
     (as @ b # \<lparr>bid = n, bsz = z, bused = False, bkids = []\<rparr> # cs)"
proof -
  let ?b = "\<lparr>bid = n, bsz = z, bused = False, bkids = []\<rparr>"
  let ?t = "insert_after n (Some (bid b)) s1"
  let ?bs = "as @ b # cs"
  have lt: "x \<in> set (map bid ?bs) \<Longrightarrow> x < length (chunks s)" for x using rep_lineD(2) [OF rep] by auto
  have dll: "dll (chunks s1) None (map bid as @ bid b # map bid cs) None"
    using rep lt dll_cong [of "map bid ?bs" "chunks s1" "chunks s" None None]
    by (simp add: rep_line_def s1 nth_append)
  have dist: "distinct (map bid as @ bid b # map bid cs)" using rep_lineD(1) [OF rep] by simp
  note ins = insert_after_Some [OF dll dist, of n]
  have pre: "n \<notin> set (map bid as @ bid b # map bid cs)" "n < length (chunks s1)"
    "\<forall>x \<in> set (map bid as @ bid b # map bid cs). x < length (chunks s1)"
    "mHead s1 = first_of (map bid as @ bid b # map bid cs)"
    "mTail s1 = last_of (map bid as @ bid b # map bid cs)"
    using lt rep n by (auto simp: s1 rep_line_def intro: less_SucI)
  have data: "data_eq (node s1 i) (node ?t i)" if "i < length (chunks s1)" for i
    using same_data_data_eq [OF same_data_insert_after that] .
  have old: "heap_blk (chunks ?t) x" if x: "x \<in> set ?bs" for x
  proof -
    have "data_eq (node s i) (node ?t i)" if "i \<in> set (blk_ids x)" for i
      using rep_lineD(3) [OF rep x] that data [of i] by (auto simp: s1 nth_append)
    then show ?thesis using rep_lineD(4) [OF rep x] heap_blk_agree by blast
  qed
  have new: "heap_blk (chunks ?t) ?b"
    using data [of n] pre(2) n by (simp add: heap_blk_def data_eq_def s1 new_node_def)
  have idb: "blk_ids ?b = [n]" by (simp add: blk_ids_def)
  have cover: "set (line_ids ?bs) = {..<n}" "distinct (line_ids ?bs)"
    using rep n by (simp_all only: rep_line_def)
  have "set (line_ids (as @ b # ?b # cs)) = insert n (set (line_ids ?bs))" by (auto simp: idb)
  then have ids: "set (line_ids (as @ b # ?b # cs)) = {..<length (chunks ?t)}"
    unfolding cover by (simp add: n s1 lessThan_Suc del: line_ids_simps)
  have "n \<notin> set (line_ids ?bs)" unfolding cover by simp
  with cover(2) have "distinct (line_ids (as @ b # ?b # cs))" by (auto simp: idb)
  note ids = ids this
  from ins pre old new ids show ?thesis by (simp add: rep_line_def)
qed

section \<open>alloc\<close>

lemma defer_alloc_frame [simp]:
  "mBarrier (snd (defer_alloc rawSize sep al s)) = mBarrier s"
  "barrierFree (snd (defer_alloc rawSize sep al s)) = barrierFree s"
  "totalSize (snd (defer_alloc rawSize sep al s)) = totalSize s"
  by (simp_all add: defer_alloc_def Let_def createMemNode_eq insertFree_def)

lemma insert_after_size [simp]:
  "i < length (chunks s) \<Longrightarrow> size_key (insert_after c p s) i = size_key s i"
  using same_data_insert_after [of s c p] by (simp add: same_data_def)

lemma alloc_new:
  assumes rep: "rep s bs" and new: "freeList s = [] \<or> sep"
    and eq: "defer_alloc rawSize sep al s = (c, s')" and z: "z = defer_alloc_size rawSize al s"
    and b: "b = \<lparr>bid = length (chunks s), bsz = z, bused = True, bkids = []\<rparr>"
  shows "c = node_chunk (bid b)" and "rep s' (bs @ [b])"
proof -
  let ?s1 = "s\<lparr>chunks := chunks s @ [new_node z]\<rparr>"
  have s': "s' = insert_after (bid b) None ?s1" and "c = node_chunk (bid b)"
    using eq new z b by (auto simp: defer_alloc_def Let_def createMemNode_eq)
  then show "c = node_chunk (bid b)" by simp
  have line: "rep_line s bs" using rep by (simp add: rep_def)
  have lt: "i \<in> free_ids bs \<Longrightarrow> i < length (chunks s)" for i
    using rep_lineD(2) [OF line] by (auto simp: free_ids_def)
  have key: "size_key s' i = size_key s i" if "i < length (chunks s)" for i
    using that by (simp add: s' nth_append less_SucI)
  have fl: "freeList s' = freeList s" by (simp add: s')
  have "rep_free_in s (free_ids bs)" using rep by (simp add: rep_def rep_free_iff)
  then have "rep_free_in s' (free_ids bs)"
    by (intro rep_freeI [where k = "size_key s"]) (use key lt in \<open>auto simp: fl rep_free_in_def\<close>)
  moreover have "coalesced (bs @ [b])"
    using rep b by (auto simp: rep_def coalesced_append)
  ultimately show "rep s' (bs @ [b])"
    using rep_line_append [OF line _ refl, of "bid b" z] b s' by (simp add: rep_def rep_free_iff)
qed

lemma select_free_in:
  assumes "rep s bs" and "freeList s \<noteq> []"
  obtains as b cs where "bs = as @ b # cs" and "bid b = select_free z s" and "\<not> bused b"
    and "\<And>x. x \<in> set bs \<Longrightarrow> \<not> bused x \<Longrightarrow> bsz b < z \<Longrightarrow> bsz x \<le> bsz b"
proof -
  have line: "rep_line s bs" using assms(1) by (simp add: rep_def)
  have fl: "set (freeList s) = free_ids bs" "sorted_by (size_key s) (freeList s)"
    using assms(1) by (simp_all add: rep_def rep_free_iff rep_free_in_def)
  have "select_free z s \<in> set (freeList s)"
    using assms(2) lower_bound_Some by (fastforce simp: select_free_def split: option.split)
  then obtain b where b: "b \<in> set bs" "\<not> bused b" "bid b = select_free z s"
    unfolding fl(1) free_ids_def by auto
  have sz: "size_key s (bid x) = bsz x" if "x \<in> set bs" for x
    using rep_lineD(4) [OF line that] by (simp add: heap_blk_def)
  have big: "bsz x \<le> bsz b" if "x \<in> set bs" "\<not> bused x" "bsz b < z" for x
  proof -
    have "lower_bound (size_key s) z (freeList s) = None"
      using b(3) sz [OF b(1)] that(3) lower_bound_Some [of "size_key s" z "freeList s"]
      by (fastforce simp: select_free_def split: option.splits)
    then have "bid b = last (freeList s)" using b(3) by (simp add: select_free_def)
    moreover have "bid x \<in> set (freeList s)" using that by (auto simp: fl(1) free_ids_def)
    ultimately have "size_key s (bid x) \<le> size_key s (bid b)"
      using fl(2) assms(2) by (cases "freeList s" rule: rev_cases) (auto simp: sorted_append)
    then show ?thesis using sz that(1) b(1) by simp
  qed
  obtain as cs where "bs = as @ b # cs" using b(1) by (meson split_list)
  with b big show ?thesis by (intro that) auto
qed

lemma upd_node_last: "n = length (chunks s) \<Longrightarrow>
   upd_node n f (s\<lparr>chunks := chunks s @ [x]\<rparr>) = s\<lparr>chunks := chunks s @ [f x]\<rparr>"
  by (simp add: upd_node_def)

lemma defer_alloc_reuse:
  assumes "freeList s \<noteq> []" and "\<not> sep" and "z = defer_alloc_size rawSize al s" and "c = select_free z s"
    and s2: "s2 = upd_node c (\<lambda>x. x\<lparr>usage := True\<rparr>) (s\<lparr>freeList := remove1 c (freeList s)\<rparr>)"
  shows "defer_alloc rawSize sep al s =
     (node_chunk c, upd_node c (\<lambda>x. x\<lparr>nsize := z\<rparr>)
        (if z < size_key s2 c then
           insertFree (length (chunks s2)) (insert_after (length (chunks s2)) (Some c)
             (s2\<lparr>chunks := chunks s2 @ [(new_node (size_key s2 c - z))\<lparr>usage := False\<rparr>]\<rparr>))
         else s2))"
  using assms(1,2) unfolding defer_alloc_def Let_def assms(3) [symmetric] assms(4) [symmetric] s2 [symmetric]
  by (simp add: createMemNode_eq upd_node_last)

lemma alloc_take:
  assumes rep: "rep s (as @ b # cs)" and reuse: "freeList s \<noteq> []" "\<not> sep"
    and sel: "bid b = select_free z s" "\<not> bused b"
    and eq: "defer_alloc rawSize sep al s = (c, s')" and z: "z = defer_alloc_size rawSize al s"
    and b': "b' = b\<lparr>bsz := z, bused := True\<rparr>"
    and r: "r = \<lparr>bid = length (chunks s), bsz = bsz b - z, bused = False, bkids = []\<rparr>"
  shows "c = node_chunk (bid b)"
    and "rep s' (as @ b' # (if z < bsz b then r # cs else cs))"
proof -
  let ?n = "length (chunks s)"
  define s2 where "s2 = upd_node (bid b) (\<lambda>x. x\<lparr>usage := True\<rparr>) (s\<lparr>freeList := remove1 (bid b) (freeList s)\<rparr>)"
  define b1 where "b1 = b\<lparr>bused := True\<rparr>"
  have line: "rep_line s (as @ b # cs)" using rep by (simp add: rep_def)
  have fl: "distinct (freeList s)" "set (freeList s) = insert (bid b) (free_ids as \<union> free_ids cs)"
    "sorted_by (size_key s) (freeList s)"
    using rep sel by (auto simp: rep_def rep_free_iff rep_free_in_def)
  have co: "coalesced (as @ b # cs)" using rep by (simp add: rep_def)
  have bn: "bid b \<notin> free_ids as \<union> free_ids cs" "bid b < ?n"
    using rep_lineD(1) [OF line] rep_lineD(2) [OF line] free_ids_sub [of as] free_ids_sub [of cs] by auto
  have lt: "i < ?n" if "i \<in> free_ids as \<union> free_ids cs" for i
    using rep_lineD(2) [OF line] that free_ids_sub [of as] free_ids_sub [of cs] by auto
  have line2: "rep_line s2 (as @ b1 # cs)"
    unfolding s2_def by (rule rep_line_set_block [where b = b])
      (use line rep_lineD(4) [OF line, of b] in \<open>auto simp: b1_def heap_blk_def\<close>)
  have sz2: "size_key s2 i = size_key s i" for i by (simp add: s2_def nth_list_update_if)
  have len2: "length (chunks s2) = ?n" by (simp add: s2_def)
  have fl2: "freeList s2 = remove1 (bid b) (freeList s)" by (simp add: s2_def)
  have set2: "set (remove1 (bid b) (freeList s)) = free_ids as \<union> free_ids cs"
    using fl bn by simp
  have szb: "size_key s2 (bid b) = bsz b"
    using rep_lineD(4) [OF line, of b] by (simp add: sz2 heap_blk_def)
  note call = defer_alloc_reuse [OF reuse z sel(1) s2_def]
  show "c = node_chunk (bid b)" using eq z by (simp add: call)
  have s': "s' = upd_node (bid b) (\<lambda>x. x\<lparr>nsize := z\<rparr>)
      (if z < bsz b then insertFree ?n (insert_after ?n (Some (bid b))
         (s2\<lparr>chunks := chunks s2 @ [(new_node (bsz b - z))\<lparr>usage := False\<rparr>]\<rparr>)) else s2)"
    using eq unfolding call szb len2 by simp
  show "rep s' (as @ b' # (if z < bsz b then r # cs else cs))"
  proof (cases "z < bsz b")
    case False
    then have s'': "s' = upd_node (bid b1) (\<lambda>x. x\<lparr>nsize := z\<rparr>) s2" by (simp add: s' b1_def)
    have "rep_line s' (as @ b' # cs)"
      unfolding s'' by (rule rep_line_set_block [OF line2])
        (use rep_lineD(4) [OF line2, of b1] in \<open>auto simp: b1_def b' heap_blk_def\<close>)
    moreover have "rep_free_in s' (free_ids as \<union> free_ids cs)"
      by (rule rep_freeI [where k = "size_key s"])
        (use fl set2 bn sz2 in \<open>auto simp: s'' fl2 sorted_remove1 nth_list_update_if b1_def\<close>)
    moreover have "coalesced (as @ b' # cs)"
      using co b' by (auto simp: coalesced_append coalesced_Cons)
    ultimately show ?thesis using False b' by (simp add: rep_def rep_free_iff)
  next
    case True
    define s3 where "s3 = insert_after ?n (Some (bid b1))
         (s2\<lparr>chunks := chunks s2 @ [(new_node (bsz b - z))\<lparr>usage := False\<rparr>]\<rparr>)"
    have line3: "rep_line s3 (as @ b1 # r # cs)"
      unfolding s3_def r by (rule rep_line_split [OF line2 _ refl]) (simp add: len2)
    have s'': "s' = upd_node (bid b1) (\<lambda>x. x\<lparr>nsize := z\<rparr>) (insertFree ?n s3)"
      using True by (simp add: s' s3_def b1_def)
    have "rep_line (insertFree ?n s3) (as @ b1 # r # cs)" using line3 by (simp add: insertFree_def)
    then have "rep_line s' (as @ b' # r # cs)"
      unfolding s'' by (rule rep_line_set_block)
        (use rep_lineD(4) [OF line3, of b1] in \<open>auto simp: b1_def b' heap_blk_def insertFree_def\<close>)
    moreover have "rep_free_in s' (insert ?n (free_ids as \<union> free_ids cs))"
    proof (rule rep_freeI [where k = "size_key s3"])
      have sz3: "size_key s3 i = size_key s i" if "i < ?n" for i
        using that by (simp add: s3_def len2 nth_append sz2)
      have fl3: "freeList s3 = remove1 (bid b) (freeList s)" by (simp add: s3_def fl2)
      have n: "?n \<notin> free_ids as \<union> free_ids cs" using lt by blast
      have srt: "sorted_by (size_key s3) (remove1 (bid b) (freeList s))"
        using sorted_remove1 [OF fl(3), of "bid b"] sz3 lt set2
          sorted_by_cong [of "remove1 (bid b) (freeList s)" "size_key s3" "size_key s"] by simp
      show "distinct (freeList s')" "set (freeList s') = insert ?n (free_ids as \<union> free_ids cs)"
        "sorted_by (size_key s3) (freeList s')"
        using fl(1) set2 n srt by (simp_all add: s'' insertFree_def fl3 distinct_insert_by sorted_insert_by)
      show "size_key s' i = size_key s3 i" if "i \<in> insert ?n (free_ids as \<union> free_ids cs)" for i
        using that bn n by (auto simp: s'' insertFree_def nth_list_update_if b1_def)
    qed
    moreover have "coalesced (as @ b' # r # cs)"
      using co sel(2) b' r by (auto simp: coalesced_append coalesced_Cons)
    ultimately show ?thesis using True b' r by (simp add: rep_def rep_free_iff)
  qed
qed

section \<open>free\<close>

lemma fuse_to_left_eq:
  "fuse_to_left l r s = (l, erase_node r
     (upd_node l (\<lambda>x. x\<lparr>children := children x @ [r]\<rparr>)
       (upd_node l (\<lambda>x. x\<lparr>nsize := nsize x + nsize (node (upd_node r (\<lambda>x. x\<lparr>noffset := size_key s l\<rparr>) s) r)\<rparr>)
         (upd_node r (\<lambda>x. x\<lparr>noffset := size_key s l\<rparr>) s))))"
  by (simp add: fuse_to_left_def Let_def)

lemma fuse_rep_line:
  assumes rep: "rep_line s (as @ l # r # cs)" and eq: "fuse_to_left (bid l) (bid r) s = (m, s')"
  shows "m = bid l" and "rep_line s' (as @ absorb l r # cs)" and "freeList s' = freeList s"
    and "\<And>i. i < length (chunks s) \<Longrightarrow> i \<noteq> bid l \<Longrightarrow> size_key s' i = size_key s i"
    and "\<And>i. i < length (chunks s) \<Longrightarrow> usage (node s' i) = usage (node s i)"
    and "length (chunks s') = length (chunks s)"
    and "mBarrier s' = mBarrier s \<and> barrierFree s' = barrierFree s \<and> totalSize s' = totalSize s"
proof -
  let ?L = "bid l" and ?R = "bid r"
  define t where "t = upd_node ?L (\<lambda>x. x\<lparr>children := children x @ [?R]\<rparr>)
       (upd_node ?L (\<lambda>x. x\<lparr>nsize := nsize x + nsize (node (upd_node ?R (\<lambda>x. x\<lparr>noffset := size_key s ?L\<rparr>) s) ?R)\<rparr>)
         (upd_node ?R (\<lambda>x. x\<lparr>noffset := size_key s ?L\<rparr>) s))"
  have m: "m = ?L" and s': "s' = erase_node ?R t"
    using eq unfolding fuse_to_left_eq t_def by auto
  then show "m = ?L" by simp
  have len: "length (chunks t) = length (chunks s)" by (simp add: t_def)
  have lt: "?L < length (chunks s)" "?R < length (chunks s)" by (rule rep_lineD(2) [OF rep], simp)+
  have dist: "distinct (line_ids (as @ l # r # cs))" using rep by (simp only: rep_line_def)
  have LR: "?L \<noteq> ?R" using rep_lineD(1) [OF rep] by auto
  have hl: "heap_blk (chunks s) l" and hr: "heap_blk (chunks s) r" using rep by (simp_all add: rep_line_def)
  have links: "nleft (node t i) = nleft (node s i) \<and> nright (node t i) = nright (node s i)" for i
    by (simp add: t_def nth_list_update_if)
  have data: "data_eq (node s i) (node t i)" if "i \<noteq> ?L" "i \<noteq> ?R" for i
    using that by (simp add: t_def nth_list_update_if data_eq_def)
  have dataL: "nsize (node t ?L) = bsz l + bsz r" "usage (node t ?L) = bused l"
      "children (node t ?L) = map kid_id (bkids l) @ [?R]"
    and dataR: "noffset (node t ?R) = bsz l" "children (node t ?R) = map kid_id (bkids r)"
      "usage (node t ?R) = bused r" "nsize (node t ?R) = bsz r"
    using hl hr lt LR by (simp_all add: t_def nth_list_update_if heap_blk_def)
  have dll: "dll (chunks t) None (map bid as @ ?L # ?R # map bid cs) None"
    using rep dll_cong [of "map bid as @ ?L # ?R # map bid cs" "chunks t" "chunks s" None None] links
    by (simp add: rep_line_def)
  have pre: "distinct (map bid as @ ?L # ?R # map bid cs)"
    "\<forall>x \<in> set (map bid as @ ?L # ?R # map bid cs). x < length (chunks t)"
    "mHead t = first_of (map bid as @ ?L # ?R # map bid cs)"
    "mTail t = last_of (map bid as @ ?L # ?R # map bid cs)"
    using rep_lineD(1) [OF rep] rep_lineD(2) [OF rep] rep len by (auto simp: rep_line_def t_def)
  note erased = erase_node_dll [OF dll pre, folded s']
  have same: "data_eq (node t i) (node s' i)" if "i < length (chunks s)" for i
    using same_data_data_eq [OF same_data_erase_node, of i t ?R] that len by (simp add: s')
  have keep: "data_eq (node s i) (node s' i)" if "i < length (chunks s)" "i \<noteq> ?L" "i \<noteq> ?R" for i
    using same [OF that(1)] data [OF that(2,3)] by (simp add: data_eq_def)
  have old: "heap_blk (chunks s') x" if x: "x \<in> set as \<union> set cs" for x
  proof -
    have "?L \<notin> set (blk_ids x)" "?R \<notin> set (blk_ids x)"
      using dist x blk_ids_line [of x as] blk_ids_line [of x cs] bid_in [of l] bid_in [of r]
      by (auto simp: disjoint_iff simp del: bid_in)
    then have "data_eq (node s i) (node s' i)" if "i \<in> set (blk_ids x)" for i
      using rep_lineD(3) [OF rep, of x] x that by (intro keep) auto
    then show ?thesis using rep_lineD(4) [OF rep, of x] x heap_blk_agree [of x] by auto
  qed
  have kids: "heap_kid (chunks s') k" if k: "k \<in> set (bkids l) \<union> set (bkids r)" for k
  proof -
    have sub: "set (kid_ids k) \<subseteq> {..<length (chunks s)}"
      using k rep_lineD(3) [OF rep, of l] rep_lineD(3) [OF rep, of r] by (auto simp: blk_ids_def)
    have "?L \<notin> set (kid_ids k)" "?R \<notin> set (kid_ids k)"
      using dist k by (auto simp: blk_ids_def)
    then have "data_eq (node s i) (node s' i)" if "i \<in> set (kid_ids k)" for i
      using sub that by (intro keep) auto
    then have "heap_kid (chunks s') k = heap_kid (chunks s) k"
      by (intro heap_kid_cong) (auto simp: data_eq_def)
    then show ?thesis using k hl hr by (auto simp: heap_blk_def)
  qed
  have "heap_blk (chunks s') (absorb l r)"
    using dataL dataR same [OF lt(1)] same [OF lt(2)] kids by (auto simp: heap_blk_def data_eq_def)
  moreover have "line_ids (as @ absorb l r # cs) = line_ids (as @ l # r # cs)" by (simp add: absorb_ids)
  moreover have len': "length (chunks s') = length (chunks s)" by (simp add: s' len)
  ultimately show "rep_line s' (as @ absorb l r # cs)"
    using erased old rep by (auto simp: rep_line_def)
  show "length (chunks s') = length (chunks s)" by (rule len')
  show "freeList s' = freeList s"
    and "mBarrier s' = mBarrier s \<and> barrierFree s' = barrierFree s \<and> totalSize s' = totalSize s"
    by (simp_all add: s' t_def)
  show "size_key s' i = size_key s i" if "i < length (chunks s)" "i \<noteq> ?L" for i
    using keep [OF that(1,2)] same [OF that(1)] dataR(4) hr by (cases "i = ?R") (auto simp: data_eq_def heap_blk_def)
  show "usage (node s' i) = usage (node s i)" if "i < length (chunks s)" for i
    using keep [OF that] same [OF that] dataR dataL hr hl
    by (cases "i = ?R"; cases "i = ?L") (auto simp: data_eq_def heap_blk_def)
qed

text \<open>Taking a free neighbour off the free list and fusing it.\<close>

lemma eraseFree_eq:
  "sorted_by (size_key s) (freeList s) \<Longrightarrow> eraseFree c s = s\<lparr>freeList := remove1 c (freeList s)\<rparr>"
  by (simp add: eraseFree_def erase_by_remove1)

lemma fuse_free_step:
  assumes rep: "rep_line s (as @ l # r # cs)" and fl: "rep_free_in s X" and x: "x = bid l \<or> x = bid r"
    and xX: "x \<in> X" and l: "bid l \<notin> X - {x}" and X: "X \<subseteq> {..<length (chunks s)}"
    and eq: "fuse_to_left (bid l) (bid r) (eraseFree x s) = (m, s')"
  shows "m = bid l" and "rep_line s' (as @ absorb l r # cs)" and "rep_free_in s' (X - {x})"
    and "length (chunks s') = length (chunks s)"
    and "\<And>i. i < length (chunks s) \<Longrightarrow> usage (node s' i) = usage (node s i)"
    and "mBarrier s' = mBarrier s \<and> barrierFree s' = barrierFree s \<and> totalSize s' = totalSize s"
proof -
  let ?t = "s\<lparr>freeList := remove1 x (freeList s)\<rparr>"
  have t: "eraseFree x s = ?t" using fl by (intro eraseFree_eq) (simp add: rep_free_in_def)
  have line: "rep_line ?t (as @ l # r # cs)" using rep by simp
  note f = fuse_rep_line [OF line eq [unfolded t]]
  show "m = bid l" "rep_line s' (as @ absorb l r # cs)" "length (chunks s') = length (chunks s)"
    "mBarrier s' = mBarrier s \<and> barrierFree s' = barrierFree s \<and> totalSize s' = totalSize s"
    using f by simp_all
  show "usage (node s' i) = usage (node s i)" if "i < length (chunks s)" for i
    using f(5) [of i] that by simp
  have d: "distinct (freeList s)" "set (freeList s) = X" "sorted_by (size_key s) (freeList s)"
    using fl by (simp_all add: rep_free_in_def)
  have fl': "freeList s' = remove1 x (freeList s)" using f(3) by simp
  show "rep_free_in s' (X - {x})"
  proof (rule rep_freeI [where k = "size_key s"])
    show "size_key s' i = size_key s i" if "i \<in> X - {x}" for i
      using f(4) [of i] that l X by auto
  qed (use d in \<open>simp_all add: fl' sorted_remove1\<close>)
qed

text \<open>The two halves of \<open>free\<close>: fusing into the left neighbour, and taking in the right one.\<close>

definition free_left :: "nat \<Rightarrow> defer_state \<Rightarrow> nat \<times> defer_state" where
  "free_left n s =
     (case nleft (node s n) of
        Some l \<Rightarrow> if \<not> usage (node s l) then fuse_to_left l n (eraseFree l s) else (n, s)
      | None \<Rightarrow> (n, s))"

definition free_right :: "nat option \<Rightarrow> nat \<Rightarrow> defer_state \<Rightarrow> nat \<times> defer_state" where
  "free_right right m s =
     (case right of
        Some r \<Rightarrow> if \<not> usage (node s r) then fuse_to_left m r (eraseFree r s) else (m, s)
      | None \<Rightarrow> (m, s))"

lemma defer_free_now_eq:
  "defer_free_now n s =
     (let (m, s1) = free_left n s; (m', s2) = free_right (nright (node s n)) m s1
      in insertFree m' (upd_node m' (\<lambda>x. x\<lparr>usage := False\<rparr>) s2))"
  by (simp add: defer_free_now_def free_left_def free_right_def Let_def)

lemma rep_line_neighbours:
  assumes "rep_line s (as @ b # cs)"
  shows "nleft (node s (bid b)) = (if as = [] then None else Some (bid (last as)))"
    and "nright (node s (bid b)) = (if cs = [] then None else Some (bid (hd cs)))"
  using assms by (auto simp: rep_line_def dll_append last_map hd_map)

lemma rep_line_usage: "rep_line s bs \<Longrightarrow> b \<in> set bs \<Longrightarrow> usage (node s (bid b)) = bused b"
  using rep_lineD(4) by (auto simp: heap_blk_def)

lemma rep_line_free_lt: "rep_line s bs \<Longrightarrow> free_ids bs \<subseteq> {..<length (chunks s)}"
  using rep_lineD(2) by (auto simp: free_ids_def)

lemma bid_notin_free_ids:
  assumes "rep_line s (as @ b # cs)"
  shows "bid b \<notin> free_ids as \<union> free_ids cs"
  using rep_lineD(1) [OF assms] free_ids_sub [of as] free_ids_sub [of cs] by auto

definition frame_eq :: "defer_state \<Rightarrow> defer_state \<Rightarrow> bool" where
  "frame_eq s t \<longleftrightarrow> mBarrier t = mBarrier s \<and> barrierFree t = barrierFree s \<and> totalSize t = totalSize s"

lemma free_left_step:
  assumes rep: "rep_line s (as @ b # cs)" and fl: "rep_free_in s (free_ids as \<union> free_ids cs)"
    and co: "coalesced as" and eq: "free_left (bid b) s = (m, s1)"
  obtains as' b' where "m = bid b'" and "rep_line s1 (as' @ b' # cs)"
    and "rep_free_in s1 (free_ids as' \<union> free_ids cs)"
    and "grows (as @ b # cs) (as' @ b' # cs)" and "coalesced as'" and "as' = [] \<or> bused (last as')"
    and "used_blks as' = used_blks as" and "frame_eq s s1"
proof (cases "as \<noteq> [] \<and> \<not> bused (last as)")
  case False
  have "(m, s1) = (bid b, s)"
    using eq False rep_line_neighbours [OF rep] rep_line_usage [OF rep, of "last as"]
    by (auto simp: free_left_def split: if_splits)
  with False rep fl co show ?thesis by (intro that [of b as]) (auto simp: frame_eq_def)
next
  case True
  then obtain as0 l where as: "as = as0 @ [l]" and l: "\<not> bused l" by (cases as rule: rev_cases) auto
  have rep': "rep_line s (as0 @ l # b # cs)" using rep as by simp
  have eq': "fuse_to_left (bid l) (bid b) (eraseFree (bid l) s) = (m, s1)"
    using eq rep_line_neighbours [OF rep] rep_line_usage [OF rep, of l] as l by (simp add: free_left_def)
  have notin: "bid l \<notin> free_ids as0 \<union> free_ids cs"
    using bid_notin_free_ids [OF rep'] by (auto split: if_splits)
  have X: "free_ids as \<union> free_ids cs \<subseteq> {..<length (chunks s)}"
    using rep_line_free_lt [OF rep] by (auto split: if_splits)
  have "free_ids as \<union> free_ids cs - {bid l} = free_ids as0 \<union> free_ids cs"
    using notin as l by auto
  moreover note step = fuse_free_step [OF rep' fl, of "bid l" m s1]
  ultimately have "m = bid l" "rep_line s1 (as0 @ absorb l b # cs)"
    "rep_free_in s1 (free_ids as0 \<union> free_ids cs)" "frame_eq s s1"
    using step eq' X as l by (auto simp: frame_eq_def)
  moreover have "grows (as @ b # cs) (as0 @ absorb l b # cs)"
    unfolding as by (simp add: grows_prefix grows_absorb)
  moreover have "coalesced as0" "as0 = [] \<or> bused (last as0)"
    using co as l by (auto simp: coalesced_append)
  ultimately show ?thesis using as l by (intro that [of "absorb l b" as0]) auto
qed

lemma free_right_step:
  assumes rep: "rep_line s (as @ b # cs)" and fl: "rep_free_in s (free_ids as \<union> free_ids cs)"
    and co: "coalesced cs" and right: "right = (if cs = [] then None else Some (bid (hd cs)))"
    and eq: "free_right right (bid b) s = (m, s1)"
  obtains cs' b' where "m = bid b'" and "rep_line s1 (as @ b' # cs')"
    and "rep_free_in s1 (free_ids as \<union> free_ids cs')"
    and "grows (as @ b # cs) (as @ b' # cs')" and "coalesced cs'" and "cs' = [] \<or> bused (hd cs')"
    and "used_blks cs' = used_blks cs" and "frame_eq s s1"
proof (cases "cs \<noteq> [] \<and> \<not> bused (hd cs)")
  case False
  have "(m, s1) = (bid b, s)"
    using eq False right rep_line_usage [OF rep, of "hd cs"]
    by (auto simp: free_right_def split: if_splits)
  with False rep fl co show ?thesis by (intro that [of b cs]) (auto simp: frame_eq_def)
next
  case True
  then obtain r cs0 where cs: "cs = r # cs0" and r: "\<not> bused r" by (cases cs) auto
  have rep': "rep_line s (as @ b # r # cs0)" using rep cs by simp
  have eq': "fuse_to_left (bid b) (bid r) (eraseFree (bid r) s) = (m, s1)"
    using eq right rep_line_usage [OF rep, of r] cs r by (simp add: free_right_def)
  have "rep_line s ((as @ [b]) @ r # cs0)" using rep' by simp
  from bid_notin_free_ids [OF this] have notin: "bid r \<notin> free_ids as \<union> free_ids cs0"
    by (auto split: if_splits)
  have bX: "bid b \<notin> free_ids as \<union> free_ids cs" using bid_notin_free_ids [OF rep] .
  have X: "free_ids as \<union> free_ids cs \<subseteq> {..<length (chunks s)}"
    using rep_line_free_lt [OF rep] by (auto split: if_splits)
  have "free_ids as \<union> free_ids cs - {bid r} = free_ids as \<union> free_ids cs0"
    using notin cs r by auto
  moreover note step = fuse_free_step [OF rep' fl, of "bid r" m s1]
  ultimately have "m = bid b" "rep_line s1 (as @ absorb b r # cs0)"
    "rep_free_in s1 (free_ids as \<union> free_ids cs0)" "frame_eq s s1"
    using step eq' X bX cs r by (auto simp: frame_eq_def)
  moreover have "grows (as @ b # cs) (as @ absorb b r # cs0)"
    unfolding cs by (simp add: grows_prefix grows_absorb)
  moreover have "coalesced cs0" "cs0 = [] \<or> bused (hd cs0)"
    using co cs r by (auto simp: coalesced_Cons)
  ultimately show ?thesis using cs r by (intro that [of "absorb b r" cs0]) auto
qed

theorem free_now_rep:
  assumes rep: "rep s (as @ b # cs)" and used: "bused b"
  obtains bs' where "rep (defer_free_now (bid b) s) bs'" and "grows (as @ b # cs) bs'"
    and "used_blks bs' = used_blks as \<union> used_blks cs" and "frame_eq s (defer_free_now (bid b) s)"
proof -
  have line: "rep_line s (as @ b # cs)" and fl: "rep_free_in s (free_ids as \<union> free_ids cs)"
    and co: "coalesced as" "coalesced cs"
    using rep used by (auto simp: rep_def rep_free_iff coalesced_append coalesced_Cons)
  obtain m s1 where L: "free_left (bid b) s = (m, s1)" by fastforce
  from free_left_step [OF line fl co(1) L] obtain as' b1 where m: "m = bid b1"
    and line1: "rep_line s1 (as' @ b1 # cs)" and fl1: "rep_free_in s1 (free_ids as' \<union> free_ids cs)"
    and g1: "grows (as @ b # cs) (as' @ b1 # cs)" and co1: "coalesced as'" "as' = [] \<or> bused (last as')"
    and u1: "used_blks as' = used_blks as" and fr1: "frame_eq s s1" .
  let ?right = "nright (node s (bid b))"
  obtain m' s2 where R: "free_right ?right (bid b1) s1 = (m', s2)" by fastforce
  from free_right_step [OF line1 fl1 co(2) rep_line_neighbours(2) [OF line] R]
  obtain cs' b2 where m': "m' = bid b2" and line2: "rep_line s2 (as' @ b2 # cs')"
    and fl2: "rep_free_in s2 (free_ids as' \<union> free_ids cs')"
    and g2: "grows (as' @ b1 # cs) (as' @ b2 # cs')" and co2: "coalesced cs'" "cs' = [] \<or> bused (hd cs')"
    and u2: "used_blks cs' = used_blks cs" and fr2: "frame_eq s1 s2" .
  define b3 where "b3 = b2\<lparr>bused := False\<rparr>"
  define s3 where "s3 = upd_node (bid b2) (\<lambda>x. x\<lparr>usage := False\<rparr>) s2"
  have res: "defer_free_now (bid b) s = insertFree (bid b2) s3"
    using L R m m' by (simp add: defer_free_now_eq s3_def)
  have line3: "rep_line s3 (as' @ b3 # cs')"
    unfolding s3_def by (rule rep_line_set_block [OF line2])
      (use rep_lineD(4) [OF line2, of b2] in \<open>auto simp: b3_def heap_blk_def\<close>)
  have n: "bid b2 \<notin> free_ids as' \<union> free_ids cs'" by (rule bid_notin_free_ids [OF line2])
  have "rep_free_in (insertFree (bid b2) s3) (insert (bid b2) (free_ids as' \<union> free_ids cs'))"
  proof (rule rep_freeI [where k = "size_key s3"])
    have "sorted_by (size_key s3) (freeList s2)"
      using fl2 sorted_by_cong [of "freeList s2" "size_key s3" "size_key s2"]
      by (simp add: rep_free_in_def s3_def nth_list_update_if)
    then show "sorted_by (size_key s3) (freeList (insertFree (bid b2) s3))"
      by (simp add: insertFree_def s3_def [symmetric] sorted_insert_by) (simp add: s3_def sorted_insert_by)
  qed (use fl2 n in \<open>auto simp: insertFree_def rep_free_in_def s3_def distinct_insert_by\<close>)
  moreover have "coalesced (as' @ b3 # cs')"
    using co1 co2 by (auto simp: coalesced_append coalesced_Cons)
  ultimately have "rep (insertFree (bid b2) s3) (as' @ b3 # cs')"
    using line3 by (simp add: rep_def rep_free_iff b3_def insertFree_def)
  moreover have "grows (as' @ b2 # cs') (as' @ b3 # cs')"
    by (intro grows_prefix grows_resize) (simp_all add: b3_def)
  then have "grows (as @ b # cs) (as' @ b3 # cs')" using g1 g2 grows_trans by blast
  moreover have "frame_eq s (insertFree (bid b2) s3)"
    using fr1 fr2 by (simp add: frame_eq_def insertFree_def s3_def)
  ultimately show ?thesis
    by (intro that [of "as' @ b3 # cs'"]) (simp_all add: res u1 u2 b3_def)
qed

end
