(* ===== verification/Defer_Safety.thy ===== *)
theory Defer_Safety
  imports Defer_Ops
begin

text \<open>
  What \<open>DeferBufferAllocator\<close> promises its clients: \<open>compute\<close> terminates, and the offsets it
  computes never let two chunks overlap that were in use at the same time, nor reach past
  \<open>mTotalSize\<close>. Clients are the runs of \<open>defer_run\<close>: any sequence of allocations, frees, attached
  tensors, barriers and resets, where a client frees only what it holds.
\<close>

section \<open>The traversal of the absorbed chunks\<close>

definition offsets_only :: "mem_node list \<Rightarrow> mem_node list \<Rightarrow> bool" where
  "offsets_only ns ns' \<longleftrightarrow> length ns' = length ns \<and>
     (\<forall>i. children (ns' ! i) = children (ns ! i) \<and> nsize (ns' ! i) = nsize (ns ! i) \<and>
        nleft (ns' ! i) = nleft (ns ! i) \<and> nright (ns' ! i) = nright (ns ! i) \<and>
        tensors (ns' ! i) = tensors (ns ! i) \<and> usage (ns' ! i) = usage (ns ! i))"

lemma offsets_only_fields:
  assumes "offsets_only ns ns'"
  shows "children (ns' ! i) = children (ns ! i)" "nsize (ns' ! i) = nsize (ns ! i)"
    "nright (ns' ! i) = nright (ns ! i)" "tensors (ns' ! i) = tensors (ns ! i)" "length ns' = length ns"
  using assms by (simp_all add: offsets_only_def)

lemma offsets_only_trans: "offsets_only a b \<Longrightarrow> offsets_only b c \<Longrightarrow> offsets_only a c"
  by (simp add: offsets_only_def)

lemma offsets_only_set: "offsets_only ns (ns[i := (ns ! i)\<lparr>noffset := p\<rparr>])"
  by (simp add: offsets_only_def nth_list_update_if)

definition placed :: "mem_node list \<Rightarrow> (nat \<times> nat) list \<Rightarrow> bool" where
  "placed ns ps \<longleftrightarrow> (\<forall>(i, p) \<in> set ps. noffset (ns ! i) = p)"

lemma placed_simps [simp]:
  "placed ns []" "placed ns ((i, p) # ps) \<longleftrightarrow> noffset (ns ! i) = p \<and> placed ns ps"
  "placed ns (ps @ qs) \<longleftrightarrow> placed ns ps \<and> placed ns qs"
  by (simp_all add: placed_def ball_Un)

lemma placed_cong:
  "placed ns ps \<Longrightarrow> (\<And>i. i \<in> fst ` set ps \<Longrightarrow> ns' ! i = ns ! i) \<Longrightarrow> placed ns' ps"
  by (force simp: placed_def)

text \<open>One node whose own offset is already absolute: its descendants are placed, nothing else moves.\<close>

definition visit_ok :: "nat \<Rightarrow> nat \<Rightarrow> kid list \<Rightarrow> mem_node list \<Rightarrow> bool" where
  "visit_ok fuel c ks ns \<longleftrightarrow> (\<exists>ns'. visi_list fuel c (map kid_id ks) ns = Some ns' \<and>
     offsets_only ns ns' \<and> placed ns' (concat (map (kid_pos (noffset (ns ! c))) ks)) \<and>
     (\<forall>j. j \<notin> set (concat (map kid_ids ks)) \<longrightarrow> ns' ! j = ns ! j))"

lemma fst_kid_pos: "fst ` set (concat (map (kid_pos base) ks)) = set (concat (map kid_ids ks))"
proof -
  have "fst ` set (kid_pos base k) = set (kid_ids k)" for k
    by (metis kid_pos_ids list.set_map)
  then show ?thesis by (simp add: image_UN)
qed

lemma visit_list:
  assumes IH: "\<And>i r ks fuel ns. Kid i r ks \<in> set ts \<Longrightarrow> length (concat (map kid_ids ks)) \<le> fuel \<Longrightarrow>
      (\<forall>k \<in> set ks. heap_kid ns k) \<Longrightarrow> distinct (i # concat (map kid_ids ks)) \<Longrightarrow>
      set (i # concat (map kid_ids ks)) \<subseteq> {..<length ns} \<Longrightarrow> visit_ok fuel i ks ns"
    and "length (concat (map kid_ids ts)) \<le> fuel" and "\<forall>k \<in> set ts. heap_kid ns k"
    and "distinct (c # concat (map kid_ids ts))" and "set (c # concat (map kid_ids ts)) \<subseteq> {..<length ns}"
  shows "visit_ok fuel c ts ns"
  using assms
proof (induction ts arbitrary: ns)
  case Nil
  then show ?case by (simp add: visit_ok_def offsets_only_def)
next
  case (Cons t ts)
  obtain i r ks where t: "t = Kid i r ks" by (cases t)
  let ?base = "noffset (ns ! c)"
  define ns1 where "ns1 = ns[i := (ns ! i)\<lparr>noffset := noffset (ns ! i) + ?base\<rparr>]"
  obtain f where f: "fuel = Suc f" "length (concat (map kid_ids ks)) \<le> f"
    using Cons.prems(2) t by (cases fuel) auto
  have i: "i < length ns" "i \<noteq> c" "noffset (ns ! i) = r" "children (ns ! i) = map kid_id ks"
    using Cons.prems t by auto
  have notin: "i \<notin> set (concat (map kid_ids ks))" "i \<notin> set (concat (map kid_ids ts))"
    "c \<notin> set (concat (map kid_ids ks))" "c \<notin> set (concat (map kid_ids ts))"
    "set (concat (map kid_ids ks)) \<inter> set (concat (map kid_ids ts)) = {}"
    using Cons.prems(4) t by (auto simp del: set_concat)
  have oo1: "offsets_only ns ns1" unfolding ns1_def by (rule offsets_only_set)
  have hk1: "heap_kid ns1 k" if "k \<in> set ks" for k
  proof -
    have "i \<notin> set (kid_ids k)" using notin(1) that by auto
    then have "heap_kid ns1 k = heap_kid ns k"
      by (intro heap_kid_cong) (auto simp: ns1_def nth_list_update_if)
    then show ?thesis using Cons.prems(3) t that by auto
  qed
  have "visit_ok f i ks ns1"
  proof (rule Cons.prems(1) [of i r])
    show "Kid i r ks \<in> set (t # ts)" using t by simp
    show "length (concat (map kid_ids ks)) \<le> f" by (rule f)
    show "\<forall>k \<in> set ks. heap_kid ns1 k" using hk1 by blast
    show "distinct (i # concat (map kid_ids ks))" using Cons.prems(4) t by simp
    show "set (i # concat (map kid_ids ks)) \<subseteq> {..<length ns1}"
      using Cons.prems(5) t by (simp add: ns1_def)
  qed
  then obtain ns2 where v2: "visi_list f i (map kid_id ks) ns1 = Some ns2" and oo2: "offsets_only ns1 ns2"
    and pl2: "placed ns2 (concat (map (kid_pos (noffset (ns1 ! i))) ks))"
    and fr2: "\<And>j. j \<notin> set (concat (map kid_ids ks)) \<Longrightarrow> ns2 ! j = ns1 ! j"
    unfolding visit_ok_def by blast
  have off_i: "noffset (ns1 ! i) = ?base + r" using i by (simp add: ns1_def)
  have call: "visi_children fuel i ns1 = Some ns2"
    using v2 offsets_only_fields [OF oo1] i by (simp add: f)
  have c2: "ns2 ! c = ns ! c" using fr2 [of c] notin i by (simp add: ns1_def)
  have unch: "ns2 ! j = ns ! j" if "j \<notin> set (kid_ids t)" for j
    using that fr2 [of j] t by (auto simp: ns1_def)
  have "visit_ok fuel c ts ns2"
  proof (rule Cons.IH)
    show "length (concat (map kid_ids ts)) \<le> fuel" using Cons.prems(2) by simp
    show "\<forall>k \<in> set ts. heap_kid ns2 k"
    proof
      fix k assume k: "k \<in> set ts"
      have "ns2 ! j = ns ! j" if "j \<in> set (kid_ids k)" for j
        by (rule unch) (use notin k that t in auto)
      then have "heap_kid ns2 k = heap_kid ns k" by (intro heap_kid_cong) auto
      then show "heap_kid ns2 k" using Cons.prems(3) k by simp
    qed
    show "distinct (c # concat (map kid_ids ts))" using Cons.prems(4) by simp
    show "set (c # concat (map kid_ids ts)) \<subseteq> {..<length ns2}"
      using Cons.prems(5) offsets_only_fields(5) [OF oo1] offsets_only_fields(5) [OF oo2] by simp
    fix i' r' ks' fuel' ns'
    assume "Kid i' r' ks' \<in> set ts" "length (concat (map kid_ids ks')) \<le> fuel'"
      "\<forall>k \<in> set ks'. heap_kid ns' k" "distinct (i' # concat (map kid_ids ks'))"
      "set (i' # concat (map kid_ids ks')) \<subseteq> {..<length ns'}"
    then show "visit_ok fuel' i' ks' ns'" using Cons.prems(1) [of i' r'] by simp
  qed
  then obtain ns3 where v3: "visi_list fuel c (map kid_id ts) ns2 = Some ns3" and oo3: "offsets_only ns2 ns3"
    and pl3: "placed ns3 (concat (map (kid_pos ?base) ts))"
    and fr3: "\<And>j. j \<notin> set (concat (map kid_ids ts)) \<Longrightarrow> ns3 ! j = ns2 ! j"
    unfolding visit_ok_def c2 by blast
  have "visi_list fuel c (map kid_id (t # ts)) ns = Some ns3"
    using call v3 t by (simp add: ns1_def)
  moreover have "offsets_only ns ns3" using oo1 oo2 oo3 offsets_only_trans by blast
  moreover have "placed ns3 (kid_pos ?base t)"
  proof -
    have "placed ns2 (kid_pos ?base t)"
      using pl2 off_i fr2 [of i] notin(1) t by (simp add: add.commute)
    moreover have "ns3 ! j = ns2 ! j" if "j \<in> fst ` set (kid_pos ?base t)" for j
    proof -
      have "fst ` set (kid_pos ?base t) = set (kid_ids t)" by (metis kid_pos_ids list.set_map)
      then have "j \<in> set (kid_ids t)" using that by simp
      then have "j \<notin> set (concat (map kid_ids ts))" using Cons.prems(4) by auto
      then show ?thesis by (rule fr3)
    qed
    ultimately show ?thesis by (rule placed_cong)
  qed
  moreover have "ns3 ! j = ns ! j" if "j \<notin> set (concat (map kid_ids (t # ts)))" for j
    using that unch [of j] fr3 [of j] by simp
  ultimately show ?case using pl3 unfolding visit_ok_def by auto
qed

lemma visit_kids:
  "length (concat (map kid_ids ks)) \<le> fuel \<Longrightarrow> (\<forall>k \<in> set ks. heap_kid ns k) \<Longrightarrow>
   distinct (i # concat (map kid_ids ks)) \<Longrightarrow> set (i # concat (map kid_ids ks)) \<subseteq> {..<length ns} \<Longrightarrow>
   visit_ok fuel i ks ns"
proof (induction ks arbitrary: i fuel ns rule: measure_induct_rule [where f = "\<lambda>ks. length (concat (map kid_ids ks))"])
  case (less ks)
  show ?case
  proof (rule visit_list)
    fix i' r' ks' fuel' ns'
    assume kid: "Kid i' r' ks' \<in> set ks" and rest: "length (concat (map kid_ids ks')) \<le> fuel'"
      "\<forall>k \<in> set ks'. heap_kid ns' k" "distinct (i' # concat (map kid_ids ks'))"
      "set (i' # concat (map kid_ids ks')) \<subseteq> {..<length ns'}"
    from kid obtain us vs where "ks = us @ Kid i' r' ks' # vs" by (meson split_list)
    then have "length (concat (map kid_ids ks')) < length (concat (map kid_ids ks))" by simp
    from less.IH [OF this rest] show "visit_ok fuel' i' ks' ns'" .
  qed (use less.prems in auto)
qed

section \<open>compute\<close>

lemma compute_single:
  assumes rep: "rep_line s [b]" and t0: "totalSize s = 0"
  shows "\<exists>s1. compute_loop (Suc (Suc (length (chunks s)))) (mHead s) s = Some s1 \<and>
     placed (chunks s1) (blk_pos 0 b) \<and> totalSize s1 = bsz b \<and> offsets_only (chunks s) (chunks s1) \<and>
     freeList s1 = freeList s \<and> mAlign s1 = mAlign s \<and> mPtr s1 = mPtr s"
proof -
  let ?B = "bid b" and ?n = "length (chunks s)"
  define s0 where "s0 = upd_node ?B (\<lambda>x. x\<lparr>noffset := 0\<rparr>) s"
  have hd: "mHead s = Some ?B" and hb: "heap_blk (chunks s) b"
    and ids: "distinct (blk_ids b)" "set (blk_ids b) = {..<?n}" and nr: "nright (node s ?B) = None"
    using rep by (simp_all add: rep_line_def)
  have B: "?B < ?n" using ids(2) bid_in [of b] by blast
  have oo0: "offsets_only (chunks s) (chunks s0)" unfolding s0_def chunks_upd_node by (rule offsets_only_set)
  have len0: "length (chunks s0) = ?n" by (simp add: s0_def)
  have "heap_kid (chunks s0) k" if "k \<in> set (bkids b)" for k
  proof -
    have "?B \<notin> set (kid_ids k)" using ids(1) that by (auto simp: blk_ids_def)
    then have "heap_kid (chunks s0) k = heap_kid (chunks s) k"
      by (intro heap_kid_cong) (auto simp: s0_def nth_list_update_if)
    then show ?thesis using hb that by (simp add: heap_blk_def)
  qed
  moreover have "length (concat (map kid_ids (bkids b))) \<le> length (chunks s0)"
    using distinct_card [OF ids(1)] ids(2) by (simp add: blk_ids_def len0)
  moreover have "distinct (?B # concat (map kid_ids (bkids b)))"
    "set (?B # concat (map kid_ids (bkids b))) \<subseteq> {..<length (chunks s0)}"
    using ids by (simp_all add: blk_ids_def len0)
  ultimately have "visit_ok (length (chunks s0)) ?B (bkids b) (chunks s0)" by (intro visit_kids) auto
  then obtain ns where v: "visi_list (length (chunks s0)) ?B (map kid_id (bkids b)) (chunks s0) = Some ns"
    and oo: "offsets_only (chunks s0) ns"
    and pl: "placed ns (concat (map (kid_pos (noffset (node s0 ?B))) (bkids b)))"
    and fr: "\<forall>j. j \<notin> set (concat (map kid_ids (bkids b))) \<longrightarrow> ns ! j = node s0 j"
    unfolding visit_ok_def by blast
  have "?B \<notin> set (concat (map kid_ids (bkids b)))" using ids(1) by (simp add: blk_ids_def)
  then have nB: "ns ! ?B = node s0 ?B" using fr by blast
  have off: "noffset (node s0 ?B) = 0" using B by (simp add: s0_def)
  have ch: "children (node s0 ?B) = map kid_id (bkids b)"
    using offsets_only_fields(1) [OF oo0, of ?B] hb by (simp add: heap_blk_def)
  have sz: "nsize (ns ! ?B) = bsz b" "nright (ns ! ?B) = None"
    using nB offsets_only_fields(2,3) [OF oo0, of ?B] hb nr by (simp_all add: heap_blk_def)
  define s1 where "s1 = s0\<lparr>chunks := ns, totalSize := bsz b\<rparr>"
  have vis: "visi_children (Suc (length (chunks s0))) ?B (chunks s0) = Some ns"
    using v ch by simp
  have "compute_loop (Suc (Suc ?n)) (mHead s) s = Some s1"
    using vis sz t0 by (simp add: hd s1_def s0_def [symmetric] Let_def) (simp add: s0_def)
  moreover have "placed (chunks s1) (blk_pos 0 b)"
    using pl off nB by (simp add: s1_def blk_pos_def)
  moreover have "offsets_only (chunks s) (chunks s1)"
    using offsets_only_trans [OF oo0 oo] by (simp add: s1_def)
  ultimately show ?thesis by (intro exI [of _ s1]) (simp add: s1_def s0_def)
qed

lemma apply_offsets:
  assumes "defer_apply oa orel af s sb w = (code, s', sb', w')"
  shows "length (chunks s') = length (chunks s)"
    and "i < length (chunks s) \<Longrightarrow> noffset (node s' i) = noffset (node s i)" and "totalSize s' = totalSize s"
  using assms by (auto simp: defer_apply_def Let_def split: if_splits prod.splits)

text \<open>When exactly one chunk is left and it is free, \<open>compute\<close> lays out the whole line.\<close>

lemma compute_rep:
  assumes rep: "rep s bs" and t0: "totalSize s = 0" and free: "freeList s \<noteq> []"
    and eq: "defer_compute oa orel af s sb w = Some (code, s', sb', w')" and ok: "code \<noteq> INVALID_VALUE"
  obtains b where "bs = [b]" and "\<not> bused b" and "totalSize s' = bsz b"
    and "placed (chunks s') (blk_pos 0 b)"
proof -
  have s0: "s\<lparr>totalSize := 0\<rparr> = s" using t0 by simp
  have line: "rep_line s bs" and fl: "set (freeList s) = free_ids bs"
    using rep by (simp_all add: rep_def rep_free_iff rep_free_in_def)
  have single: "length (freeList s) = 1" "mHead s = mTail s"
    using eq ok free t0 by (auto simp: defer_compute_def Let_def s0 split: if_splits)
  have "bs \<noteq> []" using free fl by auto
  then obtain b cs where bs: "bs = b # cs" by (cases bs) auto
  have "cs = []"
  proof (rule ccontr)
    assume "cs \<noteq> []"
    then obtain ds e where cs: "cs = ds @ [e]" by (cases cs rule: rev_cases) auto
    have "bid b = bid e" using single(2) line bs cs by (auto simp: rep_line_def)
    then show False using rep_lineD(1) [OF line] bs cs by auto
  qed
  with bs have bs: "bs = [b]" by simp
  have nu: "\<not> bused b" using fl free bs by (auto split: if_splits)
  obtain s1 where loop: "compute_loop (Suc (Suc (length (chunks s)))) (mHead s) s = Some s1"
    and pl: "placed (chunks s1) (blk_pos 0 b)" and tot: "totalSize s1 = bsz b"
    and oo: "offsets_only (chunks s) (chunks s1)"
    using compute_single [of s b] line bs t0 by blast
  have app: "defer_apply oa orel af s1 sb w = (code, s', sb', w')"
    using eq free single t0 loop by (simp add: defer_compute_def Let_def s0)
  have ids: "set (blk_ids b) = {..<length (chunks s1)}"
    using line bs offsets_only_fields(5) [OF oo] by (simp add: rep_line_def)
  have "placed (chunks s') (blk_pos 0 b)"
    unfolding placed_def
  proof (clarify)
    fix i p assume ip: "(i, p) \<in> set (blk_pos 0 b)"
    then have "i \<in> set (map fst (blk_pos 0 b))" by force
    then have "i < length (chunks s1)" using ids by (simp only: blk_pos_ids) auto
    then show "noffset (node s' i) = p" using apply_offsets(2) [OF app] pl ip by (auto simp: placed_def)
  qed
  then show ?thesis using that bs nu tot apply_offsets(3) [OF app] by simp
qed

section \<open>Clients\<close>

text \<open>
  \<open>defer_run s L C A\<close>: the allocator is in state \<open>s\<close> after some client run; \<open>L\<close> are the chunks the
  client holds, as pairs of node and size, \<open>A\<close> all chunks handed out since the last reset, and \<open>C\<close>
  the pairs of chunks that were held at the same time.
\<close>

inductive defer_run ::
  "defer_state \<Rightarrow> (nat \<times> nat) set \<Rightarrow> ((nat \<times> nat) \<times> (nat \<times> nat)) set \<Rightarrow> (nat \<times> nat) set \<Rightarrow> bool" where
  run_new: "0 < al \<Longrightarrow> defer_run (defer_new al) {} {} {}"
| run_alloc: "defer_run s L C A \<Longrightarrow> defer_alloc rawSize sep al s = (c, s') \<Longrightarrow> cnode c = Some n \<Longrightarrow>
    z = defer_alloc_size rawSize al s \<Longrightarrow>
    defer_run s' (insert (n, z) L) (C \<union> {(x, (n, z)) | x. x \<in> L}) (insert (n, z) A)"
| run_attach: "defer_run s L C A \<Longrightarrow> (n, z) \<in> L \<Longrightarrow> defer_run (chunk_attach (node_chunk n) t s) L C A"
| run_free: "defer_run s L C A \<Longrightarrow> (n, z) \<in> L \<Longrightarrow> defer_free (node_chunk n) s = (ok, s') \<Longrightarrow>
    defer_run s' (L - {(n, z)}) C A"
| run_barrierBegin: "defer_run s L C A \<Longrightarrow> \<not> mBarrier s \<Longrightarrow> defer_run (defer_barrierBegin s) L C A"
| run_barrierEnd: "defer_run s L C A \<Longrightarrow> mBarrier s \<Longrightarrow> defer_run (defer_barrierEnd s) L C A"
| run_reset: "defer_run s L C A \<Longrightarrow> defer_run (defer_release True s) {} {} {}"

definition pend :: "defer_state \<Rightarrow> nat set" where
  "pend s = {n. Some n \<in> cnode ` set (barrierFree s)}"

definition run_inv ::
  "defer_state \<Rightarrow> (nat \<times> nat) set \<Rightarrow> ((nat \<times> nat) \<times> (nat \<times> nat)) set \<Rightarrow> (nat \<times> nat) set \<Rightarrow> blk list \<Rightarrow> bool" where
  "run_inv s L C A bs \<longleftrightarrow>
     rep s bs \<and> totalSize s = 0 \<and>
     (\<forall>c \<in> set (barrierFree s). cnode c \<noteq> None) \<and> distinct (map cnode (barrierFree s)) \<and>
     (\<not> mBarrier s \<longrightarrow> barrierFree s = []) \<and>
     pend s \<subseteq> fst ` used_blks bs \<and> L = {x \<in> used_blks bs. fst x \<notin> pend s} \<and>
     (\<forall>((c, z), (d, y)) \<in> C. before bs c z d \<or> before bs d y c) \<and>
     (\<forall>(c, z) \<in> A. inside bs c z) \<and> used_blks bs \<subseteq> A \<and> C \<subseteq> A \<times> A"

lemma used_split:
  assumes "(n, z) \<in> used_blks bs"
  obtains as b cs where "bs = as @ b # cs" and "bused b" and "bid b = n" and "bsz b = z"
  using assms unfolding used_blks_def by (auto dest!: split_list)

lemma used_size: "rep s bs \<Longrightarrow> (n, z) \<in> used_blks bs \<Longrightarrow> size_key s n = z \<and> n < length (chunks s)"
  using rep_lineD(2,4) unfolding rep_def by (auto simp: used_blks_def heap_blk_def)

lemma used_unique: "rep s bs \<Longrightarrow> (n, z) \<in> used_blks bs \<Longrightarrow> (n, y) \<in> used_blks bs \<Longrightarrow> z = y"
  by (metis used_size)

lemma free_used:
  assumes rep: "rep s bs" and x: "(n, z) \<in> used_blks bs"
  obtains bs' where "rep (defer_free_now n s) bs'" and "grows bs bs'"
    and "used_blks bs' = used_blks bs - {(n, z)}" and "frame_eq s (defer_free_now n s)"
proof -
  from used_split [OF x] obtain as b cs where bs: "bs = as @ b # cs" and b: "bused b" "bid b = n" "bsz b = z" .
  from rep have line: "rep_line s (as @ b # cs)" by (simp add: rep_def bs)
  from free_now_rep [OF rep [unfolded bs] b(1)] obtain bs' where
    r: "rep (defer_free_now (bid b) s) bs'" "grows (as @ b # cs) bs'"
      "used_blks bs' = used_blks as \<union> used_blks cs" "frame_eq s (defer_free_now (bid b) s)" .
  note r = r [unfolded b(2), folded bs]
  have "bid b \<notin> bid ` (set as \<union> set cs)" using rep_lineD(1) [OF line] by auto
  then have "(n, z) \<notin> used_blks as \<union> used_blks cs" using b(2) by (auto simp: used_blks_def)
  moreover have "used_blks bs = insert (n, z) (used_blks as \<union> used_blks cs)" by (simp add: bs b)
  ultimately have "used_blks bs' = used_blks bs - {(n, z)}" using r(3) by simp
  with r show ?thesis by (intro that)
qed

lemma alloc_used:
  assumes rep: "rep s bs" and eq: "defer_alloc rawSize sep al s = (c, s')"
    and z: "z = defer_alloc_size rawSize al s"
  obtains n bs' where "c = node_chunk n" and "rep s' bs'" and "grows bs bs'"
    and "used_blks bs' = insert (n, z) (used_blks bs)" and "n \<notin> fst ` used_blks bs"
proof (cases "freeList s = [] \<or> sep")
  case True
  let ?b = "\<lparr>bid = length (chunks s), bsz = z, bused = True, bkids = []\<rparr>"
  have "length (chunks s) \<notin> fst ` used_blks bs" using used_size [OF rep] by force
  with alloc_new [OF rep True eq z refl] show ?thesis
    by (intro that [of "bid ?b" "bs @ [?b]"]) (auto intro: grows_append)
next
  case False
  then have fl: "freeList s \<noteq> []" "\<not> sep" by auto
  from select_free_in [OF rep fl(1)] obtain as b cs
    where bs: "bs = as @ b # cs" and sel: "bid b = select_free z s" "\<not> bused b" by metis
  define b' where "b' = b\<lparr>bsz := z, bused := True\<rparr>"
  define r where "r = \<lparr>bid = length (chunks s), bsz = bsz b - z, bused = False, bkids = []\<rparr>"
  note take = alloc_take [OF rep [unfolded bs] fl sel eq z b'_def r_def]
  have "rep_line s (as @ b # cs)" using rep by (simp add: rep_def bs)
  from rep_lineD(1) [OF this] have nb: "bid b \<notin> fst ` used_blks bs"
    using sel(2) by (auto simp: bs used_blks_def)
  have "grows bs (as @ b' # (if z < bsz b then r # cs else cs))"
  proof (cases "z < bsz b")
    case True
    then show ?thesis by (simp add: bs b'_def r_def) (intro grows_prefix grows_split, simp_all)
  next
    case False
    then show ?thesis by (simp add: bs b'_def) (intro grows_prefix grows_resize, simp_all)
  qed
  with take nb sel(2) show ?thesis
    by (intro that [of "bid b" "as @ b' # (if z < bsz b then r # cs else cs)"])
      (auto simp: bs b'_def r_def)
qed

lemma before_used:
  assumes "(c, z) \<in> used_blks bs" and "(d, y) \<in> used_blks bs" and "c \<noteq> d"
  shows "before bs c z d \<or> before bs d y c"
proof -
  from used_split [OF assms(1)] obtain as b cs where bs: "bs = as @ b # cs" and b: "bid b = c" "bsz b = z" .
  from assms(2) obtain e where e: "e \<in> set bs" "bid e = d" "bsz e = y" by (auto simp: used_blks_def)
  then have "e \<in> set as \<or> e \<in> set cs" using bs b assms(3) by auto
  then show ?thesis
  proof
    assume "e \<in> set as"
    then obtain us vs where as: "as = us @ e # vs" by (meson split_list)
    show ?thesis using before_blocks [of us e vs b cs] b e bs as by simp
  next
    assume "e \<in> set cs"
    then obtain us vs where cs: "cs = us @ e # vs" by (meson split_list)
    show ?thesis using before_blocks [of as b us e vs] b e bs cs by simp
  qed
qed

lemma inside_used: "(c, z) \<in> used_blks bs \<Longrightarrow> inside bs c z"
  by (erule used_split) (use inside_block in blast)

lemma run_inv_grows:
  assumes "run_inv s L C A bs" and "grows bs bs'"
  shows "\<forall>((c, z), (d, y)) \<in> C. before bs' c z d \<or> before bs' d y c" and "\<forall>(c, z) \<in> A. inside bs' c z"
  using assms growsD [OF assms(2)] unfolding run_inv_def by (fast, fast)

section \<open>The invariant of client runs\<close>

lemma run_inv_new: "run_inv (defer_new al) {} {} {} []"
  by (simp add: run_inv_def rep_def rep_line_def rep_free_def defer_new_def pend_def)

lemma run_inv_alloc:
  assumes inv: "run_inv s L C A bs" and eq: "defer_alloc rawSize sep al s = (c, s')"
    and c: "cnode c = Some n" and z: "z = defer_alloc_size rawSize al s"
  shows "\<exists>bs'. run_inv s' (insert (n, z) L) (C \<union> {(x, (n, z)) | x. x \<in> L}) (insert (n, z) A) bs'"
proof -
  from inv have rep: "rep s bs" by (simp add: run_inv_def)
  from alloc_used [OF rep eq z] obtain m bs' where m: "c = node_chunk m" and r: "rep s' bs'" "grows bs bs'"
    "used_blks bs' = insert (m, z) (used_blks bs)" "m \<notin> fst ` used_blks bs" .
  have m: "m = n" using m c by (simp add: node_chunk_def)
  note r = r [unfolded m]
  have fr: "mBarrier s' = mBarrier s" "barrierFree s' = barrierFree s" "totalSize s' = totalSize s"
    using defer_alloc_frame [of rawSize sep al s] by (simp_all add: eq)
  have p: "pend s' = pend s" "pend s \<subseteq> fst ` used_blks bs" "L = {x \<in> used_blks bs. fst x \<notin> pend s}"
    using inv by (simp_all add: pend_def fr run_inv_def)
  have np: "n \<notin> pend s" using p(2) r(4) by auto
  have new: "before bs' c z' n \<or> before bs' n z c" if "(c, z') \<in> L" for c z'
  proof -
    have "(c, z') \<in> used_blks bs" using that p(3) by simp
    moreover from this have "c \<noteq> n" using r(4) by force
    ultimately show ?thesis using r(3) by (intro before_used) auto
  qed
  have LA: "L \<subseteq> A" "C \<subseteq> A \<times> A" using inv by (auto simp: run_inv_def)
  then have 1: "C \<union> {(x, (n, z)) | x. x \<in> L} \<subseteq> insert (n, z) A \<times> insert (n, z) A" by blast
  have 2: "insert (n, z) L = {x \<in> used_blks bs'. fst x \<notin> pend s'}"
    using p np r(3) by auto
  have 3: "inside bs' n z" by (rule inside_used) (simp add: r(3))
  have 4: "\<forall>((c, z), (d, y)) \<in> C \<union> {(x, (n, z)) | x. x \<in> L}. before bs' c z d \<or> before bs' d y c"
    using run_inv_grows(1) [OF inv r(2)] by (auto dest: new simp: ball_Un)
  have 5: "\<forall>(c, z) \<in> insert (n, z) A. inside bs' c z"
    using run_inv_grows(2) [OF inv r(2)] 3 by simp
  have 6: "used_blks bs' \<subseteq> insert (n, z) A" "pend s' \<subseteq> fst ` used_blks bs'"
    using inv r(3) p by (auto simp: run_inv_def)
  have 7: "totalSize s' = 0 \<and> (\<forall>c \<in> set (barrierFree s'). cnode c \<noteq> None) \<and>
      distinct (map cnode (barrierFree s')) \<and> (\<not> mBarrier s' \<longrightarrow> barrierFree s' = [])"
    using inv by (simp add: run_inv_def fr)
  show ?thesis unfolding run_inv_def using 1 2 4 5 6 7 r(1) by blast
qed

lemma run_inv_attach:
  assumes inv: "run_inv s L C A bs" and n: "(n, z) \<in> L"
  shows "run_inv (chunk_attach (node_chunk n) t s) L C A bs"
proof -
  let ?s = "chunk_attach (node_chunk n) t s"
  have s: "?s = upd_node n (\<lambda>x. x\<lparr>tensors := tensors x @ [t]\<rparr>) s"
    by (simp add: chunk_attach_def node_chunk_def)
  from inv have rep: "rep s bs" and L: "L = {x \<in> used_blks bs. fst x \<notin> pend s}"
    by (simp_all add: run_inv_def)
  from n L have "(n, z) \<in> used_blks bs" by simp
  from used_split [OF this] obtain as b cs where bs: "bs = as @ b # cs" and b: "bid b = n" .
  have line: "rep_line s (as @ b # cs)" using rep by (simp add: rep_def bs)
  have "rep_line (upd_node (bid b) (\<lambda>x. x\<lparr>tensors := tensors x @ [t]\<rparr>) s) (as @ b # cs)"
    by (rule rep_line_set_block [OF line])
      (use rep_lineD(4) [OF line, of b] in \<open>auto simp: heap_blk_def\<close>)
  then have "rep_line ?s (as @ b # cs)" by (simp add: s b)
  moreover have "rep_free ?s bs"
    using rep sorted_by_cong [of "freeList s" "size_key ?s" "size_key s"]
    by (simp add: rep_def rep_free_def s nth_list_update_if)
  ultimately have "rep ?s bs" using rep by (simp add: rep_def bs)
  then show ?thesis using inv by (simp add: run_inv_def s pend_def)
qed

lemma run_inv_free:
  assumes inv: "run_inv s L C A bs" and n: "(n, z) \<in> L" and eq: "defer_free (node_chunk n) s = (ok, s')"
  shows "\<exists>bs'. run_inv s' (L - {(n, z)}) C A bs'"
proof (cases "mBarrier s")
  case True
  then have s': "s' = s\<lparr>barrierFree := barrierFree s @ [node_chunk n]\<rparr>" using eq by (simp add: defer_free_def)
  have p: "pend s' = insert n (pend s)" by (auto simp: s' pend_def node_chunk_def)
  have u: "(n, z) \<in> used_blks bs" "n \<notin> pend s" using n inv by (auto simp: run_inv_def)
  have rep: "rep s bs" using inv by (simp add: run_inv_def)
  have L: "L = {x \<in> used_blks bs. fst x \<notin> pend s}" using inv by (simp add: run_inv_def)
  have uniq: "x = (n, z)" if "x \<in> used_blks bs" "fst x = n" for x
    using that used_unique [OF rep u(1)] by (cases x) simp
  have "L - {(n, z)} = {x \<in> used_blks bs. fst x \<notin> pend s'}"
    unfolding p L by (auto dest: uniq)
  moreover have "Some n \<notin> cnode ` set (barrierFree s)" using u(2) by (simp add: pend_def)
  moreover have "rep s' bs" using rep by (simp add: s' rep_def rep_line_def rep_free_def)
  moreover have "n \<in> fst ` used_blks bs" "pend s \<subseteq> fst ` used_blks bs"
    using u(1) inv by (force, simp add: run_inv_def)
  then have "pend s' \<subseteq> fst ` used_blks bs" unfolding p by simp
  ultimately have "run_inv s' (L - {(n, z)}) C A bs"
    using inv True unfolding run_inv_def by (simp add: s' node_chunk_def)
  then show ?thesis by blast
next
  case False
  then have s': "s' = defer_free_now n s" using eq by (simp add: defer_free_def node_chunk_def)
  have rep: "rep s bs" and p: "pend s = {}" and u: "(n, z) \<in> used_blks bs"
    using inv n False by (auto simp: run_inv_def pend_def)
  from free_used [OF rep u] obtain bs' where r: "rep s' bs'" "grows bs bs'"
    "used_blks bs' = used_blks bs - {(n, z)}" "frame_eq s s'" unfolding s' .
  have p': "pend s' = {}" using r(4) p by (simp add: frame_eq_def pend_def)
  have "run_inv s' (L - {(n, z)}) C A bs'"
    using run_inv_grows [OF inv r(2)] r inv False p p' unfolding run_inv_def frame_eq_def by auto
  then show ?thesis by blast
qed

lemma free_all:
  assumes "rep s bs" and "\<not> mBarrier s" and "\<forall>c \<in> set cs. \<exists>x \<in> used_blks bs. cnode c = Some (fst x)"
    and "distinct (map cnode cs)"
  shows "\<exists>bs'. rep (fold (\<lambda>c t. snd (defer_free c t)) cs s) bs' \<and> grows bs bs' \<and>
     used_blks bs' = {x \<in> used_blks bs. Some (fst x) \<notin> cnode ` set cs} \<and>
     \<not> mBarrier (fold (\<lambda>c t. snd (defer_free c t)) cs s) \<and>
     totalSize (fold (\<lambda>c t. snd (defer_free c t)) cs s) = totalSize s"
  using assms
proof (induction cs arbitrary: s bs)
  case Nil
  then show ?case by (intro exI [of _ bs]) simp
next
  case (Cons c cs)
  from Cons.prems(3) obtain n z where nz: "(n, z) \<in> used_blks bs" and c: "cnode c = Some n" by auto
  let ?t = "defer_free_now n s"
  have step: "snd (defer_free c s) = ?t" using Cons.prems(2) c by (simp add: defer_free_def)
  from free_used [OF Cons.prems(1) nz] obtain bs1 where r: "rep ?t bs1" "grows bs bs1"
    "used_blks bs1 = used_blks bs - {(n, z)}" "frame_eq s ?t" .
  have uniq: "x = (n, z)" if "x \<in> used_blks bs" "fst x = n" for x
    using that used_unique [OF Cons.prems(1) nz] by (cases x) simp
  have "\<forall>c' \<in> set cs. \<exists>x \<in> used_blks bs1. cnode c' = Some (fst x)"
  proof
    fix c' assume c': "c' \<in> set cs"
    with Cons.prems(3) obtain x where x: "x \<in> used_blks bs" "cnode c' = Some (fst x)" by auto
    have "fst x \<noteq> n" using Cons.prems(4) c c' x(2) by (metis distinct.simps(2) image_eqI list.set_map list.simps(9))
    then have "x \<noteq> (n, z)" by auto
    with x r(3) show "\<exists>x \<in> used_blks bs1. cnode c' = Some (fst x)" by blast
  qed
  moreover have "\<not> mBarrier ?t" "distinct (map cnode cs)"
    using Cons.prems(2,4) r(4) by (simp_all add: frame_eq_def)
  ultimately obtain bs2 where r2: "rep (fold (\<lambda>c t. snd (defer_free c t)) cs ?t) bs2" "grows bs1 bs2"
    "used_blks bs2 = {x \<in> used_blks bs1. Some (fst x) \<notin> cnode ` set cs}"
    "\<not> mBarrier (fold (\<lambda>c t. snd (defer_free c t)) cs ?t)"
    "totalSize (fold (\<lambda>c t. snd (defer_free c t)) cs ?t) = totalSize ?t"
    using Cons.IH [OF r(1)] by blast
  have "used_blks bs2 = {x \<in> used_blks bs. Some (fst x) \<notin> cnode ` set (c # cs)}"
    unfolding r2(3) r(3) using c by (auto dest: uniq)
  moreover have "grows bs bs2" using r(2) r2(2) by (rule grows_trans)
  ultimately show ?case using r2 r(4) step by (intro exI [of _ bs2]) (simp add: frame_eq_def)
qed

lemma run_inv_barrierEnd:
  assumes inv: "run_inv s L C A bs"
  shows "\<exists>bs'. run_inv (defer_barrierEnd s) L C A bs'"
proof -
  let ?s = "s\<lparr>mBarrier := False\<rparr>"
  have rep: "rep s bs" and p: "pend s \<subseteq> fst ` used_blks bs" and L: "L = {x \<in> used_blks bs. fst x \<notin> pend s}"
    and cn: "\<forall>c \<in> set (barrierFree s). cnode c \<noteq> None" "distinct (map cnode (barrierFree s))"
    using inv by (simp_all add: run_inv_def)
  have rep': "rep ?s bs" using rep by (simp add: rep_def rep_line_def rep_free_def)
  have "\<forall>c \<in> set (barrierFree s). \<exists>x \<in> used_blks bs. cnode c = Some (fst x)"
  proof
    fix c assume c: "c \<in> set (barrierFree s)"
    then obtain n where n: "cnode c = Some n" using cn by auto
    have "Some n \<in> cnode ` set (barrierFree s)" using c n by (metis image_eqI)
    then have "n \<in> fst ` used_blks bs" using p by (auto simp: pend_def)
    with n show "\<exists>x \<in> used_blks bs. cnode c = Some (fst x)" by auto
  qed
  from free_all [OF rep' _ this cn(2)] obtain bs' where r: "rep (fold (\<lambda>c t. snd (defer_free c t)) (barrierFree s) ?s) bs'"
    "grows bs bs'" "used_blks bs' = {x \<in> used_blks bs. Some (fst x) \<notin> cnode ` set (barrierFree s)}"
    "\<not> mBarrier (fold (\<lambda>c t. snd (defer_free c t)) (barrierFree s) ?s)"
    "totalSize (fold (\<lambda>c t. snd (defer_free c t)) (barrierFree s) ?s) = totalSize s" by auto
  let ?t = "defer_barrierEnd s"
  have "rep ?t bs'" using r(1) by (simp add: defer_barrierEnd_def rep_def rep_line_def rep_free_def)
  moreover have "barrierFree ?t = []" "pend ?t = {}" "totalSize ?t = 0"
    using r(5) inv by (simp_all add: defer_barrierEnd_def pend_def run_inv_def)
  moreover have "L = {x \<in> used_blks bs'. fst x \<notin> pend ?t}"
    using L r(3) \<open>pend ?t = {}\<close> by (simp add: pend_def)
  moreover have "used_blks bs' \<subseteq> A" "C \<subseteq> A \<times> A" using inv r(3) by (auto simp: run_inv_def)
  ultimately have "run_inv ?t L C A bs'"
    using run_inv_grows [OF inv r(2)] by (simp add: run_inv_def)
  then show ?thesis by blast
qed

lemma run_inv_reset: "run_inv (defer_release True s) {} {} {} []"
  by (simp add: run_inv_def rep_def rep_line_def rep_free_def defer_release_def defer_reset_def pend_def)

lemma defer_run_inv: "defer_run s L C A \<Longrightarrow> \<exists>bs. run_inv s L C A bs"
proof (induction rule: defer_run.induct)
  case (run_new al)
  show ?case using run_inv_new by blast
next
  case (run_alloc s L C A rawSize sep al c s' n z)
  then show ?case using run_inv_alloc by blast
next
  case (run_attach s L C A n z t)
  then show ?case using run_inv_attach by blast
next
  case (run_free s L C A n z ok s')
  then show ?case using run_inv_free by blast
next
  case (run_barrierBegin s L C A)
  then obtain bs where "run_inv s L C A bs" by blast
  then have "run_inv (defer_barrierBegin s) L C A bs"
    by (simp add: run_inv_def defer_barrierBegin_def rep_def rep_line_def rep_free_def pend_def)
  then show ?case by blast
next
  case (run_barrierEnd s L C A)
  then show ?case using run_inv_barrierEnd by blast
next
  case (run_reset s L C A)
  show ?case using run_inv_reset by blast
qed

section \<open>The plan is safe\<close>

lemma placed_unique:
  assumes "placed ns (blk_pos 0 b)" and "(i, p) \<in> set (blk_pos 0 b)"
  shows "noffset (ns ! i) = p"
  using assms by (auto simp: placed_def)

lemma plan_before:
  assumes "before [b] c z d" and "placed ns (blk_pos 0 b)"
  shows "noffset (ns ! c) + z \<le> noffset (ns ! d)"
  using before_pos [OF assms(1), of 0] placed_unique [OF assms(2)] by fastforce

lemma plan_inside:
  assumes "inside [b] c z" and "placed ns (blk_pos 0 b)"
  shows "noffset (ns ! c) + z \<le> bsz b"
  using inside_pos [OF assms(1), of 0] placed_unique [OF assms(2)] by fastforce

lemma defer_plan_safe:
  assumes run: "defer_run s L C A" and free: "freeList s \<noteq> []"
    and comp: "defer_compute oa orel af s sb w = Some (code, s', sb', w')" and ok: "code \<noteq> INVALID_VALUE"
  shows "\<forall>((c, z), (d, y)) \<in> C. disjoint_ranges (noffset (node s' c)) z (noffset (node s' d)) y"
    and "\<forall>(c, z) \<in> A. noffset (node s' c) + z \<le> totalSize s'"
proof -
  from defer_run_inv [OF run] obtain bs where inv: "run_inv s L C A bs" by blast
  then have rep: "rep s bs" and t0: "totalSize s = 0" by (simp_all add: run_inv_def)
  from compute_rep [OF rep t0 free comp ok] obtain b where b: "bs = [b]" "totalSize s' = bsz b"
    "placed (chunks s') (blk_pos 0 b)" by blast
  show "\<forall>((c, z), (d, y)) \<in> C. disjoint_ranges (noffset (node s' c)) z (noffset (node s' d)) y"
    using inv plan_before [OF _ b(3)] unfolding run_inv_def b(1) disjoint_ranges_def by fast
  show "\<forall>(c, z) \<in> A. noffset (node s' c) + z \<le> totalSize s'"
    using inv plan_inside [OF _ b(3)] unfolding run_inv_def b(1,2) by fast
qed

text \<open>A client that has given everything back gets a plan: \<open>compute\<close> returns, and never \<open>INVALID_VALUE\<close>.\<close>

lemma line_pos_nonempty: "bs \<noteq> [] \<Longrightarrow> used_blks bs = {} \<Longrightarrow> free_ids bs \<noteq> {}"
  by (cases bs) (auto simp: used_blks_def free_ids_def)

lemma defer_compute_returns:
  assumes rep: "rep s bs" and t0: "totalSize s = 0" and unused: "used_blks bs = {}"
  shows "\<exists>code s' sb' w'. defer_compute oa orel af s sb w = Some (code, s', sb', w') \<and> code \<noteq> INVALID_VALUE \<and>
     (code = NO_ERROR \<or> (currentSize sb < line_size bs \<and> code = OUT_OF_MEMORY))"
proof -
  have s0: "s\<lparr>totalSize := 0\<rparr> = s" using t0 by simp
  have co: "coalesced bs" and line: "rep_line s bs" and fl: "distinct (freeList s)" "set (freeList s) = free_ids bs"
    using rep by (simp_all add: rep_def rep_free_iff rep_free_in_def)
  have "\<forall>b \<in> set bs. \<not> bused b" using unused by (auto simp: used_blks_def)
  with co have len: "length bs \<le> 1" by (rule coalesced_all_free)
  show ?thesis
  proof (cases bs)
    case Nil
    then show ?thesis using fl t0 by (simp add: defer_compute_def Let_def s0)
  next
    case (Cons b cs)
    then have bs: "bs = [b]" and nb: "\<not> bused b" using len \<open>\<forall>b \<in> set bs. \<not> bused b\<close> by auto
    have single: "freeList s = [bid b]"
      using fl nb bs by (cases "freeList s"; cases "tl (freeList s)") auto
    have ht: "mHead s = mTail s" using line bs by (simp add: rep_line_def)
    obtain s1 where loop: "compute_loop (Suc (Suc (length (chunks s)))) (mHead s) s = Some s1"
      and tot: "totalSize s1 = bsz b" and fl1: "freeList s1 = [bid b]"
      using compute_single [of s b] line bs t0 single by auto
    have "defer_compute oa orel af s sb w = Some (defer_apply oa orel af s1 sb w)"
      using t0 single ht loop by (simp add: defer_compute_def Let_def s0)
    moreover have "fst (defer_apply oa orel af s1 sb w) = NO_ERROR \<or>
        (currentSize sb < bsz b \<and> fst (defer_apply oa orel af s1 sb w) = OUT_OF_MEMORY)"
      by (simp add: defer_apply_def single_realloc_def Let_def fl1 tot split: prod.split)
    ultimately show ?thesis using bs by (cases "defer_apply oa orel af s1 sb w") auto
  qed
qed

end
