(* ===== verification/Defer_Claims.thy ===== *)
theory Defer_Claims
  imports Defer_Safety
begin

text \<open>
  The properties of \<open>DeferBufferAllocator\<close>, over arbitrary client runs, and their witnesses: one
  concrete run of two overlapping life times, evaluated through \<open>compute\<close> to the addresses the
  tensors get.
\<close>

section \<open>Supporting lemmas\<close>

lemma run_all_free:
  assumes "run_inv s {} C A bs" and "\<not> mBarrier s"
  shows "used_blks bs = {}"
  using assms by (auto simp: run_inv_def pend_def)

lemma inv_free_list:
  assumes inv: "run_inv s {} C A bs" and nb: "\<not> mBarrier s" and ne: "bs \<noteq> []"
  shows "freeList s \<noteq> []"
proof -
  have "set (freeList s) = free_ids bs"
    using inv by (simp add: run_inv_def rep_def rep_free_iff rep_free_in_def)
  then show ?thesis using line_pos_nonempty [OF ne run_all_free [OF inv nb]] by auto
qed

lemma run_inv_empty:
  assumes "run_inv s L C A []"
  shows "A = {}" and "C = {}"
  using assms by (auto simp: run_inv_def)

text \<open>Writing the hosts of all the tensors of all the chunks.\<close>

lemma cpu_apply_tensors:
  "apply_chunk cpu_apply base off n w t =
     (if t \<in> set (tensors n) then Some (base + (noffset n + off)) else w t)"
proof -
  have "fold (\<lambda>t. cpu_apply base d t) ts w t = (if t \<in> set ts then Some (base + d) else w t)" for ts d
    by (induction ts arbitrary: w) (auto simp: cpu_apply_def)
  then show ?thesis by (simp add: apply_chunk_def)
qed

lemma cpu_apply_all:
  assumes "t \<in> set (tensors n)" and "n \<in> set ns"
    and "\<And>m. m \<in> set ns \<Longrightarrow> t \<in> set (tensors m) \<Longrightarrow> noffset m = noffset n"
  shows "fold (apply_chunk cpu_apply base off) ns w t = Some (base + (noffset n + off))"
proof -
  let ?v = "Some (base + (noffset n + off))"
  have "fold (apply_chunk cpu_apply base off) ms w t =
      (if \<exists>m \<in> set ms. t \<in> set (tensors m) then ?v else w t)" if "set ms \<subseteq> set ns" for ms
    using that
  proof (induction ms arbitrary: w)
    case (Cons m ms)
    then show ?case using assms(3) by (auto simp: cpu_apply_tensors)
  qed simp
  then show ?thesis using assms(1,2) by auto
qed

lemma apply_cpu_world:
  assumes eq: "defer_apply oa orel cpu_apply s sb w = (NO_ERROR, s', sb', w')"
    and free: "freeList s \<noteq> []"
    and buf: "cfirst (current sb') \<noteq> 0" and node: "cnode (current sb') = None" and new: "cfirst (mPtr s) = 0"
    and i: "i < length (chunks s)" and t: "t \<in> set (tensors (node s i))"
    and uniq: "\<And>j. j < length (chunks s) \<Longrightarrow> t \<in> set (tensors (node s j)) \<Longrightarrow> j = i"
  shows "w' t = Some (chunk_ptr [] (current sb') + noffset (node s i))"
proof -
  obtain b1 w1 where b1: "b1 = sb'"
    and w': "w' = fold (apply_chunk cpu_apply (chunk_base (chunks s) (current b1)) (chunk_offset (chunks s) (current b1)))
      (map (\<lambda>n. n\<lparr>nbase := chunk_ptr (chunks s) (current b1)\<rparr>) (chunks s)) w1"
    and ch: "chunks s' = map (\<lambda>n. n\<lparr>nbase := chunk_ptr (chunks s) (current b1)\<rparr>) (chunks s)"
  proof (cases "currentSize sb < totalSize s")
    case True
    obtain c b2 w2 where r: "single_realloc oa orel (totalSize s) (mAlign s) sb w = (c, b2, w2)" by (metis prod_cases3)
    have "c = NO_ERROR" using eq free True r by (simp add: defer_apply_def Let_def split: if_splits)
    then have "(s\<lparr>mPtr := current b2, chunks := map (\<lambda>n. n\<lparr>nbase := chunk_ptr (chunks s) (current b2)\<rparr>) (chunks s)\<rparr>,
        b2, fold (apply_chunk cpu_apply (chunk_base (chunks s) (current b2)) (chunk_offset (chunks s) (current b2)))
          (map (\<lambda>n. n\<lparr>nbase := chunk_ptr (chunks s) (current b2)\<rparr>) (chunks s)) w2) = (s', sb', w')"
      using eq free True r by (simp add: defer_apply_def Let_def) (elim conjE, hypsubst, simp)
    then show ?thesis by (intro that [of b2 w2]) auto
  next
    case False
    have "sb' = sb" using eq free False by (simp add: defer_apply_def Let_def split: if_splits)
    then have "(s\<lparr>mPtr := current sb, chunks := map (\<lambda>n. n\<lparr>nbase := chunk_ptr (chunks s) (current sb)\<rparr>) (chunks s)\<rparr>,
        sb, fold (apply_chunk cpu_apply (chunk_base (chunks s) (current sb)) (chunk_offset (chunks s) (current sb)))
          (map (\<lambda>n. n\<lparr>nbase := chunk_ptr (chunks s) (current sb)\<rparr>) (chunks s)) w) = (s', sb', w')"
      using eq free False new buf by (simp add: defer_apply_def Let_def)
    then show ?thesis by (intro that [of sb w]) auto
  qed
  have chunk: "chunk_base (chunks s) (current b1) = cfirst (current sb')"
    "chunk_offset (chunks s) (current b1) = csecond (current sb')"
    using node b1 by (simp_all add: chunk_base_def chunk_offset_def)
  let ?f = "\<lambda>n. n\<lparr>nbase := chunk_ptr (chunks s) (current b1)\<rparr>"
  have "w' t = Some (cfirst (current sb') + (noffset (?f (node s i)) + csecond (current sb')))"
    unfolding w' chunk ch [symmetric]
  proof (rule cpu_apply_all)
    show "t \<in> set (tensors (?f (node s i)))" using t by simp
    show "?f (node s i) \<in> set (chunks s')" using i by (simp add: ch)
    fix m assume "m \<in> set (chunks s')" and mt: "t \<in> set (tensors m)"
    then obtain n where "n \<in> set (chunks s)" "m = ?f n" by (auto simp: ch)
    then obtain j where j: "j < length (chunks s)" "m = ?f (node s j)" by (auto simp: in_set_conv_nth)
    with mt have "j = i" by (intro uniq) auto
    then show "noffset m = noffset (?f (node s i))" using j(2) by simp
  qed
  then show ?thesis using node by (simp add: chunk_ptr_def)
qed

text \<open>Two allocations at the same time, as seen in a run of two or more requests.\<close>

lemma two_live_run:
  fixes al a b :: nat
  assumes "0 < al"
  defines "s1 \<equiv> snd (defer_alloc a False al (defer_new al))"
  defines "s2 \<equiv> snd (defer_alloc b False al s1)"
  defines "s3 \<equiv> chunk_attach (node_chunk 0) 7 (chunk_attach (node_chunk 1) 8 s2)"
  defines "s4 \<equiv> snd (defer_free (node_chunk 0) s3)"
  defines "s5 \<equiv> snd (defer_free (node_chunk 1) s4)"
  shows "defer_run s4 {(1, up_div b al * al)} {((0, up_div a al * al), (1, up_div b al * al))}
     {(1, up_div b al * al), (0, up_div a al * al)}"
    and "defer_run s5 {} {((0, up_div a al * al), (1, up_div b al * al))}
     {(1, up_div b al * al), (0, up_div a al * al)}"
proof -
  let ?a = "up_div a al * al" and ?b = "up_div b al * al"
  have d1: "defer_alloc a False al (defer_new al) = (node_chunk 0, s1)"
    by (simp add: s1_def defer_alloc_def Let_def defer_new_def createMemNode_def)
  have r1: "defer_run s1 {(0, ?a)} {} {(0, ?a)}"
    using run_alloc [OF run_new [OF assms(1)] d1, of 0 ?a] assms(1)
    by (simp add: node_chunk_def defer_alloc_size_def)
  have d2: "defer_alloc b False al s1 = (node_chunk 1, s2)"
    by (simp add: s2_def s1_def defer_alloc_def Let_def defer_new_def createMemNode_def insert_after_def upd_node_def)
  have "{(x, (1::nat, ?b)) | x. x \<in> {(0::nat, ?a)}} = {((0, ?a), (1, ?b))}" by auto
  then have r2: "defer_run s2 {(1, ?b), (0, ?a)} {((0, ?a), (1, ?b))} {(1, ?b), (0, ?a)}"
    using run_alloc [OF r1 d2, of 1 ?b] assms(1) by (simp add: node_chunk_def defer_alloc_size_def)
  have r3: "defer_run s3 {(1, ?b), (0, ?a)} {((0, ?a), (1, ?b))} {(1, ?b), (0, ?a)}"
    unfolding s3_def by (intro run_attach [where z = ?a] run_attach [where z = ?b] r2) simp_all
  show r4: "defer_run s4 {(1, ?b)} {((0, ?a), (1, ?b))} {(1, ?b), (0, ?a)}"
    using run_free [OF r3 _ prod.collapse [symmetric], of 0 ?a] by (simp add: s4_def insert_Diff_if)
  show "defer_run s5 {} {((0, ?a), (1, ?b))} {(1, ?b), (0, ?a)}"
    using run_free [OF r4 _ prod.collapse [symmetric], of 1 ?b] by (simp add: s5_def)
qed

text \<open>Two requests of 10 and 5 bytes at alignment 4: the first given back, then both.\<close>

definition demo_held :: defer_state where
  "demo_held = snd (defer_free (node_chunk 0)
     (chunk_attach (node_chunk 0) 7 (chunk_attach (node_chunk 1) 8
       (snd (defer_alloc 5 False 4 (snd (defer_alloc 10 False 4 (defer_new 4))))))))"

definition demo_plan :: defer_state where
  "demo_plan = snd (defer_free (node_chunk 1) demo_held)"

definition demo_buffer :: single_buffer where
  "demo_buffer = \<lparr>current = null_chunk, currentSize = 0\<rparr>"

text \<open>A root allocator for the witnesses: one region at address 4096.\<close>

definition demo_root :: "nat \<Rightarrow> nat \<Rightarrow> 'w \<Rightarrow> mem_chunk \<times> 'w" where
  "demo_root sz align w = (\<lparr>cfirst = 4096, csecond = 0, cnode = None\<rparr>, w)"

lemma demo_run:
  "defer_run demo_held {(1, 8)} {((0, 12), (1, 8))} {(1, 8), (0, 12)}"
  "defer_run demo_plan {} {((0, 12), (1, 8))} {(1, 8), (0, 12)}"
  using two_live_run [where al = 4 and a = 10 and b = 5]
  by (simp_all add: demo_plan_def demo_held_def up_div_def)

lemmas demo_eval = demo_plan_def demo_held_def defer_free_def defer_free_now_def defer_alloc_def defer_alloc_size_def Let_def
  defer_new_def createMemNode_def insert_after_def upd_node_def chunk_attach_def node_chunk_def new_node_def
  up_div_def eraseFree_def insertFree_def fuse_to_left_def erase_node_def erase_by_def

lemma demo_plan_fields: "freeList demo_plan = [0]" "\<not> mBarrier demo_plan" "length (chunks demo_plan) = 2"
    "mPtr demo_plan = null_chunk" "map tensors (chunks demo_plan) = [[7], [8]]"
    "freeList demo_held = [0]" "\<not> mBarrier demo_held"
  by (simp_all add: demo_eval)


text \<open>The plan keeps \<open>mPtr\<close> null until \<open>apply\<close>.\<close>

lemma insert_after_mPtr [simp]: "mPtr (insert_after c p s) = mPtr s"
  by (auto simp: insert_after_def Let_def split: option.split)

lemma erase_node_mPtr [simp]: "mPtr (erase_node c s) = mPtr s"
  by (auto simp: erase_node_def split: option.split)

lemma defer_alloc_mPtr: "mPtr (snd (defer_alloc a sep al s)) = mPtr s"
  by (simp add: defer_alloc_def Let_def createMemNode_def insertFree_def)

lemma fuse_to_left_mPtr: "mPtr (snd (fuse_to_left l r s)) = mPtr s"
  by (simp add: fuse_to_left_def Let_def)

lemma free_left_mPtr: "mPtr (snd (free_left n s)) = mPtr s"
  by (simp add: free_left_def eraseFree_def fuse_to_left_mPtr split: option.split)

lemma free_right_mPtr: "mPtr (snd (free_right r n s)) = mPtr s"
  by (simp add: free_right_def eraseFree_def fuse_to_left_mPtr split: option.split)

lemma defer_free_now_mPtr: "mPtr (defer_free_now n s) = mPtr s"
  using free_left_mPtr [of n s] free_right_mPtr [of "nright (node s n)"]
  by (simp add: defer_free_now_eq insertFree_def split: prod.split) (metis snd_conv)

lemma defer_free_mPtr: "mPtr (snd (defer_free c s)) = mPtr s"
  by (simp add: defer_free_def defer_free_now_mPtr split: option.split)

lemma defer_run_mPtr: "defer_run s L C A \<Longrightarrow> cfirst (mPtr s) = 0"
proof (induction rule: defer_run.induct)
  case (run_alloc s L C A a sep al c s' n z)
  then show ?case using defer_alloc_mPtr [of a sep al s] by simp
next
  case (run_free s L C A n z ok s')
  then show ?case using defer_free_mPtr [of "node_chunk n" s] by simp
next
  case (run_barrierEnd s L C A)
  have "mPtr (fold (\<lambda>c t. snd (defer_free c t)) cs t) = mPtr t" for cs t
    by (induction cs arbitrary: t) (simp_all add: defer_free_mPtr)
  with run_barrierEnd show ?case by (simp add: defer_barrierEnd_def)
qed (simp_all add: defer_new_def null_chunk_def chunk_attach_def defer_barrierBegin_def
      defer_release_def defer_reset_def split: option.split)


lemma inside_id: "inside bs c z \<Longrightarrow> c \<in> set (line_ids bs)"
  using inside_pos [of bs c z 0] line_pos_ids [of 0 bs] by (metis fst_conv image_eqI list.set_map)

lemma compute_total:
  assumes rep: "rep s bs" and t0: "totalSize s = 0"
  shows "defer_compute oa orel af s sb w \<noteq> None"
proof (cases "freeList s = [] \<or> length (freeList s) \<noteq> 1 \<or> mHead s \<noteq> mTail s")
  case True
  then show ?thesis using t0 by (auto simp: defer_compute_def Let_def)
next
  case False
  have s0: "s\<lparr>totalSize := 0\<rparr> = s" using t0 by simp
  have line: "rep_line s bs" and fl: "set (freeList s) = free_ids bs"
    using rep by (simp_all add: rep_def rep_free_iff rep_free_in_def)
  have "bs \<noteq> []" using fl False by auto
  then obtain b cs where bs: "bs = b # cs" by (cases bs) auto
  have "cs = []"
  proof (rule ccontr)
    assume "cs \<noteq> []"
    then obtain ds e where cs: "cs = ds @ [e]" by (cases cs rule: rev_cases) auto
    have "bid b = bid e" using False line bs cs by (auto simp: rep_line_def)
    then show False using rep_lineD(1) [OF line] bs cs by auto
  qed
  then show ?thesis using compute_single [of s b] line bs t0 False
    by (auto simp: defer_compute_def Let_def s0 simp del: not_None_eq)
qed

lemma buffer_grown:
  assumes eq: "defer_apply oa orel af s sb w = (NO_ERROR, s', sb', w')" and "freeList s \<noteq> []"
  shows "totalSize s \<le> currentSize sb'"
proof (cases "currentSize sb < totalSize s")
  case True
  obtain c b2 w2 where r: "single_realloc oa orel (totalSize s) (mAlign s) sb w = (c, b2, w2)" by (metis prod_cases3)
  have "c = NO_ERROR \<and> sb' = b2"
    using assms True r by (auto simp: defer_apply_def Let_def split: if_splits)
  then show ?thesis using r True
    by (auto simp: single_realloc_def Let_def split: if_splits prod.splits)
next
  case False
  have "sb' = sb" using assms False by (simp add: defer_apply_def Let_def split: if_splits)
  then show ?thesis using False by simp
qed

lemma compute_world:
  assumes run: "defer_run s {} C A" and nb: "\<not> mBarrier s" and ne: "A \<noteq> {}"
    and comp: "defer_compute oa orel cpu_apply s sb w = Some (NO_ERROR, s', sb', w')"
    and buf: "cfirst (current sb') \<noteq> 0" "cnode (current sb') = None" and c: "(c, z) \<in> A"
    and t: "t \<in> set (tensors (node s c))"
    and uniq: "\<And>j. j < length (chunks s) \<Longrightarrow> t \<in> set (tensors (node s j)) \<Longrightarrow> j = c"
  shows "w' t = Some (chunk_ptr [] (current sb') + noffset (node s' c))" and "totalSize s' \<le> currentSize sb'"
proof -
  from defer_run_inv [OF run] obtain bs where inv: "run_inv s {} C A bs" by blast
  then have rep: "rep s bs" and t0: "totalSize s = 0" by (simp_all add: run_inv_def)
  have s0: "s\<lparr>totalSize := 0\<rparr> = s" using t0 by simp
  have "bs \<noteq> []" using run_inv_empty(1) inv ne by blast
  then have free: "freeList s \<noteq> []" by (rule inv_free_list [OF inv nb])
  from compute_rep [OF rep t0 free comp] obtain b where bs: "bs = [b]" by blast
  have line: "rep_line s [b]" using rep bs by (simp add: rep_def)
  obtain s1 where loop: "compute_loop (Suc (Suc (length (chunks s)))) (mHead s) s = Some s1"
    and oo: "offsets_only (chunks s) (chunks s1)" and fl: "freeList s1 = freeList s" and p1: "mPtr s1 = mPtr s"
    using compute_single [OF line t0] by blast
  have app: "defer_apply oa orel cpu_apply s1 sb w = (NO_ERROR, s', sb', w')"
    using comp free loop t0 by (simp add: defer_compute_def Let_def s0 split: if_splits)
  have "c \<in> set (line_ids bs)" using inv c inside_id by (auto simp: run_inv_def)
  then have "c < length (chunks s1)"
    using line bs offsets_only_fields(5) [OF oo] by (simp add: rep_line_def)
  have "w' t = Some (chunk_ptr [] (current sb') + noffset (node s1 c))"
  proof (rule apply_cpu_world [OF app _ buf _ \<open>c < length (chunks s1)\<close>])
    show "freeList s1 \<noteq> []" using free fl by simp
    show "cfirst (mPtr s1) = 0" using p1 defer_run_mPtr [OF run] by simp
    show "t \<in> set (tensors (node s1 c))" using t by (simp only: offsets_only_fields(4) [OF oo])
    fix j assume "j < length (chunks s1)" and "t \<in> set (tensors (node s1 j))"
    then show "j = c" by (intro uniq) (simp_all only: offsets_only_fields(4,5) [OF oo])
  qed
  with \<open>c < length (chunks s1)\<close> show "w' t = Some (chunk_ptr [] (current sb') + noffset (node s' c))"
    using apply_offsets(2) [OF app] by simp
  show "totalSize s' \<le> currentSize sb'"
    using buffer_grown [OF app] apply_offsets(3) [OF app] free fl by simp
qed

text \<open>The footprint of the line after an allocation.\<close>

lemma select_free_max:
  assumes "rep s bs" and "freeList s \<noteq> []" and "bid b = select_free z s" and "b \<in> set bs"
  shows "z - bsz b = z - Max (size_key s ` set (freeList s))"
proof -
  have sorted: "sorted_by (size_key s) (freeList s)" and line: "rep_line s bs"
    using assms(1) by (simp_all add: rep_def rep_free_def)
  have sz: "size_key s (bid b) = bsz b" using rep_lineD(4) [OF line assms(4)] by (simp add: heap_blk_def)
  show ?thesis
  proof (cases "lower_bound (size_key s) z (freeList s)")
    case None
    then have "bid b = last (freeList s)" using assms(3) by (simp add: select_free_def)
    moreover have "Max (size_key s ` set (freeList s)) = size_key s (last (freeList s))"
      using sorted assms(2) by (cases "freeList s" rule: rev_cases)
        (auto simp: sorted_append intro!: Max_eqI)
    ultimately show ?thesis using sz by simp
  next
    case (Some c)
    then have "c \<in> set (freeList s)" "z \<le> size_key s c" and c: "bid b = c"
      using lower_bound_Some [OF Some] assms(3) by (simp_all add: select_free_def)
    then have "z \<le> Max (size_key s ` set (freeList s))" by (meson Max_ge finite_imageI finite_set imageI le_trans)
    then show ?thesis using \<open>z \<le> size_key s c\<close> c sz by simp
  qed
qed


section \<open>The properties\<close>

text \<open>
  C5. Let a client of the deferred allocator have run any sequence of allocations, frees,
  attachments, barriers and resets, and have given every chunk back. Then \<open>compute\<close> returns
  \<open>NO_ERROR\<close> or \<open>OUT_OF_MEMORY\<close>, two chunks that were ever held at the same time got disjoint ranges
  of offsets, and every chunk lies within the total size of the plan.
\<close>

theorem defer_no_overlap:
  assumes "defer_run s {} C A" and "\<not> mBarrier s"
  shows "\<exists>code s' sb' w'. defer_compute oa orel af s sb w = Some (code, s', sb', w') \<and>
     code \<in> {NO_ERROR, OUT_OF_MEMORY} \<and>
     (\<forall>((c, z), (d, y)) \<in> C. disjoint_ranges (noffset (node s' c)) z (noffset (node s' d)) y) \<and>
     (\<forall>(c, z) \<in> A. noffset (node s' c) + z \<le> totalSize s')"
proof -
  from defer_run_inv [OF assms(1)] obtain bs where inv: "run_inv s {} C A bs" by blast
  then have rep: "rep s bs" and t0: "totalSize s = 0" by (simp_all add: run_inv_def)
  obtain code s' sb' w' where comp: "defer_compute oa orel af s sb w = Some (code, s', sb', w')"
      and code: "code \<noteq> INVALID_VALUE" "code \<in> {NO_ERROR, OUT_OF_MEMORY}"
    using defer_compute_returns [OF rep t0 run_all_free [OF inv assms(2)], of oa orel af sb w]
    by (elim exE conjE) auto
  show ?thesis
  proof (cases "bs = []")
    case True
    then show ?thesis using run_inv_empty inv comp code(2) by blast
  next
    case False
    from defer_plan_safe [OF assms(1) inv_free_list [OF inv assms(2) False] comp code(1)] comp code(2)
    show ?thesis by blast
  qed
qed

lemma defer_no_overlap_witness:
  "\<exists>code s' sb' w'. defer_compute demo_root (\<lambda>_ w. w) cpu_apply demo_plan demo_buffer Map.empty =
       Some (code, s', sb', w') \<and> code \<in> {NO_ERROR, OUT_OF_MEMORY} \<and>
     disjoint_ranges (noffset (node s' 0)) 12 (noffset (node s' 1)) 8 \<and> noffset (node s' 0) + 12 \<le> totalSize s'"
proof -
  obtain code s' sb' w'
    where "defer_compute demo_root (\<lambda>_ w. w) cpu_apply demo_plan demo_buffer Map.empty = Some (code, s', sb', w')"
      and "code \<in> {NO_ERROR, OUT_OF_MEMORY}"
      and "\<forall>((c, z), (d, y)) \<in> {((0, 12), (1, 8))}. disjoint_ranges (noffset (node s' c)) z (noffset (node s' d)) y"
      and "\<forall>(c, z) \<in> {(1, 8), (0, 12)}. noffset (node s' c) + z \<le> totalSize s'"
    using defer_no_overlap [OF demo_run(2) demo_plan_fields(2),
        of demo_root "\<lambda>_ w. w" cpu_apply demo_buffer Map.empty]
    by (elim exE conjE) (rule that)
  then show ?thesis by (intro exI conjI) (simp_all, elim conjE, assumption)
qed

text \<open>
  C6. The host pointers the CPU tensors end up with: after a successful \<open>compute\<close>, two tensors
  attached to chunks that were held at the same time point to disjoint address ranges, both inside
  the buffer the root allocator gave.
\<close>

theorem defer_host_disjoint:
  assumes "defer_run s {} C A" and "\<not> mBarrier s" and "((c, z), (d, y)) \<in> C"
    and "defer_compute oa orel cpu_apply s sb w = Some (NO_ERROR, s', sb', w')"
    and "cfirst (current sb') \<noteq> 0" and "cnode (current sb') = None"
    and "t \<in> set (tensors (node s c))" and "u \<in> set (tensors (node s d))"
    and "\<And>j. j < length (chunks s) \<Longrightarrow> t \<in> set (tensors (node s j)) \<Longrightarrow> j = c"
    and "\<And>j. j < length (chunks s) \<Longrightarrow> u \<in> set (tensors (node s j)) \<Longrightarrow> j = d"
  shows "\<exists>p q. w' t = Some p \<and> w' u = Some q \<and> disjoint_ranges p z q y \<and>
     {p..<p + z} \<union> {q..<q + y} \<subseteq>
       {chunk_ptr [] (current sb')..<chunk_ptr [] (current sb') + currentSize sb'}"
proof -
  from defer_run_inv [OF assms(1)] obtain bs where inv: "run_inv s {} C A bs" by blast
  then have cd: "(c, z) \<in> A" "(d, y) \<in> A" using assms(3) by (auto simp: run_inv_def)
  then have ne: "A \<noteq> {}" by blast
  then have free: "freeList s \<noteq> []" using inv inv_free_list [OF inv assms(2)] run_inv_empty(1) by blast
  note safe = defer_plan_safe [OF assms(1) free assms(4)]
  note world = compute_world [OF assms(1,2) ne assms(4,5,6)]
  let ?p = "chunk_ptr [] (current sb') + noffset (node s' c)"
  let ?q = "chunk_ptr [] (current sb') + noffset (node s' d)"
  have "w' t = Some ?p" "w' u = Some ?q"
    using world(1) [OF cd(1) assms(7,9)] world(1) [OF cd(2) assms(8,10)] by blast+
  moreover have "disjoint_ranges ?p z ?q y" using safe(1) assms(3) by (auto simp: disjoint_ranges_def)
  moreover have "noffset (node s' c) + z \<le> currentSize sb'" "noffset (node s' d) + y \<le> currentSize sb'"
    using safe(2) cd world(2) [OF cd(1) assms(7,9)] by (auto intro: order_trans)
  ultimately show ?thesis by (intro exI [of _ ?p] exI [of _ ?q]) auto
qed

lemma demo_compute:
  "defer_compute demo_root (\<lambda>_ w. w) cpu_apply demo_plan demo_buffer Map.empty =
     Some (NO_ERROR, the (map_option (\<lambda>(_, s', _). s') (defer_compute demo_root (\<lambda>_ w. w) cpu_apply demo_plan demo_buffer Map.empty)),
       \<lparr>current = \<lparr>cfirst = 4096, csecond = 0, cnode = None\<rparr>, currentSize = 20\<rparr>, [7 \<mapsto> 4096, 8 \<mapsto> 4108])"
  by (simp add: demo_eval defer_compute_def defer_apply_def single_realloc_def demo_root_def demo_buffer_def
      null_chunk_def apply_chunk_def cpu_apply_def chunk_base_def chunk_offset_def chunk_ptr_def numeral_2_eq_2)

lemma defer_host_disjoint_witness:
  "\<exists>p q. [7 \<mapsto> 4096, 8 \<mapsto> (4108 :: nat)] (7 :: nat) = Some p \<and> [7 \<mapsto> 4096, 8 \<mapsto> (4108 :: nat)] (8 :: nat) = Some q \<and>
     disjoint_ranges p 12 q 8 \<and> {p..<p + 12} \<union> {q..<q + 8} \<subseteq> {4096..<4096 + 20}"
proof -
  have t: "tensors (node demo_plan 0) = [7]" "tensors (node demo_plan 1) = [8]"
    using demo_plan_fields(3,5) by (simp_all add: list_eq_iff_nth_eq)
  have len: "j < length (chunks demo_plan) \<Longrightarrow> j = 0 \<or> j = 1" for j
    using demo_plan_fields(3) by auto
  have only: "7 \<in> set (tensors (node demo_plan j)) \<Longrightarrow> j = 0" "8 \<in> set (tensors (node demo_plan j)) \<Longrightarrow> j = 1"
    if "j < length (chunks demo_plan)" for j
    using len [OF that] t by auto
  show ?thesis
    using defer_host_disjoint [OF demo_run(2) demo_plan_fields(2) _ demo_compute, of 0 12 1 8 7 8] t only
    by (simp add: chunk_ptr_def)
qed

text \<open>
  C7. Termination: whatever a client has done, \<open>compute\<close> returns; the traversal of the chunk list
  and of the absorbed chunks never runs out of its fuel, so neither structure is ever cyclic.
\<close>

theorem defer_compute_terminates:
  assumes "defer_run s L C A"
  shows "defer_compute oa orel af s sb w \<noteq> None"
proof -
  from defer_run_inv [OF assms] obtain bs where "run_inv s L C A bs" by blast
  then show ?thesis by (intro compute_total [of s bs]) (simp_all add: run_inv_def)
qed

text \<open>
  C8. The error paths of \<open>compute\<close>: while the client still holds a chunk outside a barrier, it
  leaves the state alone and answers \<open>INVALID_VALUE\<close>, except that it answers \<open>NO_ERROR\<close>, with no
  chunk placed, when nothing at all is free.
\<close>

theorem defer_compute_held:
  assumes "defer_run s L C A" and "\<not> mBarrier s" and "L \<noteq> {}"
  shows "defer_compute oa orel af s sb w =
     Some (if freeList s = [] then NO_ERROR else INVALID_VALUE, s, sb, w)"
proof (cases "freeList s = []")
  case True
  from defer_run_inv [OF assms(1)] obtain bs where "run_inv s L C A bs" by blast
  then have "s\<lparr>totalSize := 0\<rparr> = s" "totalSize s = 0" by (simp_all add: run_inv_def)
  then show ?thesis using True by (simp add: defer_compute_def Let_def)
next
  case False
  from defer_run_inv [OF assms(1)] obtain bs where inv: "run_inv s L C A bs" by blast
  then have rep: "rep s bs" and t0: "totalSize s = 0" and L: "L \<subseteq> used_blks bs"
    by (auto simp: run_inv_def)
  have s0: "s\<lparr>totalSize := 0\<rparr> = s" using t0 by simp
  from L assms(3) obtain n y where used: "(n, y) \<in> used_blks bs" by auto
  obtain code s' sb' w' where comp: "defer_compute oa orel af s sb w = Some (code, s', sb', w')"
    using compute_total [OF rep t0, of oa orel af sb w] by (metis not_None_eq prod_cases4)
  have "code = INVALID_VALUE"
  proof (rule ccontr)
    assume "code \<noteq> INVALID_VALUE"
    from compute_rep [OF rep t0 False comp this] obtain b where "bs = [b]" "\<not> bused b" .
    then show False using used by (auto simp: used_blks_def)
  qed
  moreover have "(s', sb', w') = (s, sb, w)" if "length (freeList s) \<noteq> 1 \<or> mHead s \<noteq> mTail s"
    using comp False t0 that by (auto simp: defer_compute_def Let_def s0)
  moreover have "length (freeList s) \<noteq> 1 \<or> mHead s \<noteq> mTail s"
  proof (rule ccontr)
    assume neg: "\<not> ?thesis"
    then obtain s1 where "defer_apply oa orel af s1 sb w = (code, s', sb', w')"
      using comp False t0 by (auto simp: defer_compute_def Let_def s0 split: option.splits)
    then have "fst (defer_apply oa orel af s1 sb w) = INVALID_VALUE" using \<open>code = INVALID_VALUE\<close> by simp
    then show False
      by (auto simp: defer_apply_def single_realloc_def Let_def split: if_splits prod.splits)
  qed
  ultimately show ?thesis using comp False by simp
qed


lemma defer_compute_terminates_witness:
  "defer_compute demo_root (\<lambda>_ w. w) cpu_apply demo_held demo_buffer Map.empty \<noteq> None"
  by (rule defer_compute_terminates [OF demo_run(1)])

lemma defer_compute_held_witness:
  "defer_compute demo_root (\<lambda>_ w. w) cpu_apply demo_held demo_buffer Map.empty =
     Some (INVALID_VALUE, demo_held, demo_buffer, Map.empty)"
  using defer_compute_held [OF demo_run(1) demo_plan_fields(7), of demo_root "\<lambda>_ w. w" cpu_apply demo_buffer Map.empty]
    demo_plan_fields(6) by simp

text \<open>
  C9. The representation invariant: after any client run the linked list, the absorbed chunks and
  the free list together represent a line of blocks. The free list holds exactly the unused blocks,
  each once and sorted by size, no two neighbours in the list are both unused, and the blocks in use
  are those the client holds or has handed to an open barrier.
\<close>

theorem defer_run_represents:
  assumes "defer_run s L C A"
  shows "\<exists>bs. rep_line s bs \<and> coalesced bs \<and> distinct (freeList s) \<and>
     set (freeList s) = bid ` {b \<in> set bs. \<not> bused b} \<and> sorted_by (size_key s) (freeList s) \<and>
     L = {x \<in> used_blks bs. fst x \<notin> pend s}"
proof -
  from defer_run_inv [OF assms] obtain bs where "run_inv s L C A bs" by blast
  then show ?thesis by (intro exI [of _ bs]) (simp add: run_inv_def rep_def rep_free_def)
qed

lemma defer_run_represents_witness:
  "\<exists>bs. rep_line demo_held bs \<and> coalesced bs \<and> {(1, 8)} = {x \<in> used_blks bs. fst x \<notin> pend demo_held}"
  using defer_run_represents [OF demo_run(1)] by blast

text \<open>
  C10. Reuse: an allocation that may use free memory takes the smallest free chunk that is large
  enough, or the largest one, which it extends, when none is; the line of memory behind the plan
  grows only by what the largest free chunk lacks, and not at all when one fits.
\<close>

theorem defer_alloc_footprint:
  assumes "rep s bs" and "freeList s \<noteq> []" and "z = defer_alloc_size rawSize al s"
    and "defer_alloc rawSize False al s = (c, s')"
  shows "\<exists>n bs'. c = node_chunk n \<and> n \<in> set (freeList s) \<and>
     (\<forall>m \<in> set (freeList s). z \<le> size_key s m \<longrightarrow> z \<le> size_key s n \<and> size_key s n \<le> size_key s m) \<and>
     rep s' bs' \<and> line_size bs' = line_size bs + (z - Max (size_key s ` set (freeList s)))"
proof -
  have sorted: "sorted_by (size_key s) (freeList s)" and line: "rep_line s bs"
    using assms(1) by (simp_all add: rep_def rep_free_def)
  from select_free_in [OF assms(1,2)] obtain as b cs
    where bs: "bs = as @ b # cs" and sel: "bid b = select_free z s" "\<not> bused b" by metis
  have sz: "size_key s (bid b) = bsz b" using rep_lineD(4) [OF line] bs by (simp add: heap_blk_def)
  have "bid b \<in> set (freeList s)"
    using assms(1) bs sel(2) by (simp add: rep_def rep_free_def)
  note take = alloc_take [OF assms(1) [unfolded bs] assms(2) _ sel assms(4,3) refl refl]
  have best: "z \<le> bsz b \<and> bsz b \<le> size_key s m" if "m \<in> set (freeList s)" "z \<le> size_key s m" for m
  proof (cases "lower_bound (size_key s) z (freeList s)")
    case None
    then show ?thesis using lower_bound_None [OF None that(1)] that(2) by simp
  next
    case (Some x)
    then have "bid b = x" using sel(1) by (simp add: select_free_def)
    then show ?thesis using lower_bound_Some [OF Some] lower_bound_least [OF sorted Some that] sz by simp
  qed
  have "z - bsz b = z - Max (size_key s ` set (freeList s))"
    using select_free_max [OF assms(1,2) sel(1)] bs by simp
  moreover have "line_size (as @ b\<lparr>bsz := z, bused := True\<rparr> #
      (if z < bsz b then \<lparr>bid = length (chunks s), bsz = bsz b - z, bused = False, bkids = []\<rparr> # cs else cs)) =
      line_size bs + (z - bsz b)"
    by (simp add: bs line_size_def)
  ultimately show ?thesis
    using take \<open>bid b \<in> set (freeList s)\<close> best sz by (intro exI conjI ballI impI) auto
qed

lemma defer_alloc_footprint_witness:
  "\<exists>n bs bs'. fst (defer_alloc 3 False 4 demo_held) = node_chunk n \<and> n \<in> set (freeList demo_held) \<and>
     rep demo_held bs \<and> rep (snd (defer_alloc 3 False 4 demo_held)) bs' \<and> line_size bs' = line_size bs"
proof -
  from defer_run_inv [OF demo_run(1)] obtain bs where rep: "rep demo_held bs" by (auto simp: run_inv_def)
  have "defer_alloc_size 3 4 demo_held = 4" "Max (size_key demo_held ` set (freeList demo_held)) = 12"
    by (simp_all add: demo_eval)
  then show ?thesis
    using defer_alloc_footprint [OF rep _ refl prod.collapse [symmetric], of 3 4] rep demo_plan_fields(6)
    by auto
qed

end
