(* ===== verification/Alloc_Contract.thy ===== *)
theory Alloc_Contract
  imports Defer_Model
begin

text \<open>
  The contract behind \<open>BufferAllocator::Allocator\<close>: what a client of \<open>onAlloc\<close> and \<open>onRelease\<close> may
  rely on. Its first provider is \<open>DefaultAllocator\<close> of \<open>source/core/BufferAllocator.cpp\<close> over
  \<open>MNNMemoryAllocAlign\<close> and \<open>MNNMemoryFreeAlign\<close> of \<open>source/core/MNNMemoryUtils.cpp\<close>, for any C heap
  that keeps the promises of \<open>malloc\<close> and \<open>free\<close>; its first client is
  \<open>SingleBufferWithAllocator\<close>.
\<close>

section \<open>The contract\<close>

type_synonym ptr_key = "addr \<times> nat"

definition chunk_key :: "mem_chunk \<Rightarrow> ptr_key" where
  "chunk_key c = (cfirst c, csecond c)"

definition key_addr :: "ptr_key \<Rightarrow> addr" where
  "key_addr q = fst q + snd q"

text \<open>
  \<open>blocks w\<close> maps every chunk given out and not yet released to the number of bytes that may be used
  from its address on.
\<close>

locale raw_alloc =
  fixes on_alloc :: "nat \<Rightarrow> nat \<Rightarrow> 'w \<Rightarrow> mem_chunk \<times> 'w"
    and on_release :: "mem_chunk \<Rightarrow> 'w \<Rightarrow> 'w"
    and blocks :: "'w \<Rightarrow> ptr_key \<Rightarrow> nat option"
    and winv :: "'w \<Rightarrow> bool"
  assumes alloc_some: "winv w \<Longrightarrow> 0 < n \<Longrightarrow> 0 < a \<Longrightarrow> on_alloc n a w = (c, w') \<Longrightarrow> cfirst c \<noteq> 0 \<Longrightarrow>
      winv w' \<and> cnode c = None \<and> blocks w (chunk_key c) = None \<and>
      (\<exists>e \<ge> n. blocks w' = (blocks w)(chunk_key c \<mapsto> e))"
    and alloc_null: "winv w \<Longrightarrow> 0 < n \<Longrightarrow> 0 < a \<Longrightarrow> on_alloc n a w = (c, w') \<Longrightarrow> cfirst c = 0 \<Longrightarrow>
      winv w' \<and> blocks w' = blocks w"
    and release_ok: "winv w \<Longrightarrow> blocks w (chunk_key c) \<noteq> None \<Longrightarrow>
      winv (on_release c w) \<and> blocks (on_release c w) = (blocks w)(chunk_key c := None)"
    and blocks_pos: "winv w \<Longrightarrow> blocks w q = Some m \<Longrightarrow> 0 < m \<and> 0 < fst q"
    and blocks_disjoint: "winv w \<Longrightarrow> blocks w q = Some m \<Longrightarrow> blocks w q' = Some m' \<Longrightarrow> q \<noteq> q' \<Longrightarrow>
      disjoint_ranges (key_addr q) m (key_addr q') m'"

section \<open>The client SingleBufferWithAllocator\<close>

text \<open>The buffer a \<open>SingleBufferWithAllocator\<close> holds, if it holds one, is a block of the allocator.\<close>

definition single_ok :: "('w \<Rightarrow> ptr_key \<Rightarrow> nat option) \<Rightarrow> single_buffer \<Rightarrow> 'w \<Rightarrow> bool" where
  "single_ok blocks b w \<longleftrightarrow>
     (cfirst (current b) \<noteq> 0 \<longrightarrow>
        (\<exists>e \<ge> currentSize b. blocks w (chunk_key (current b)) = Some e))"

context raw_alloc
begin

lemma single_realloc_ok:
  assumes "winv w" and "single_ok blocks b w" and "0 < a"
    and eq: "single_realloc on_alloc on_release n a b w = (code, b', w')"
  shows "winv w' \<and> single_ok blocks b' w'"
proof (cases "currentSize b < n")
  case True
  define w1 where "w1 = (if cfirst (current b) \<noteq> 0 then on_release (current b) w else w)"
  obtain c w2 where oa: "on_alloc n a w1 = (c, w2)" by fastforce
  have w1: "winv w1"
    using assms(1,2) release_ok [OF assms(1), of "current b"] by (auto simp: w1_def single_ok_def)
  have n: "0 < n" using True by simp
  show ?thesis
  proof (cases "cfirst c = 0")
    case c: True
    then have "w' = w2" "b' = b\<lparr>current := c\<rparr>"
      using eq True oa by (simp_all add: single_realloc_def w1_def)
    then show ?thesis using alloc_null [OF w1 n assms(3) oa c] c by (simp add: single_ok_def)
  next
    case False
    then have "w' = w2" "b' = b\<lparr>current := c, currentSize := n\<rparr>"
      using eq True oa by (simp_all add: single_realloc_def w1_def)
    then show ?thesis using alloc_some [OF w1 n assms(3) oa False] by (auto simp: single_ok_def)
  qed
next
  case False
  then show ?thesis using assms by (simp add: single_realloc_def)
qed

lemma single_realloc_size:
  assumes "winv w" and "single_ok blocks b w" and "0 < a" and "cfirst (current b) = 0 \<longrightarrow> currentSize b = 0"
    and eq: "single_realloc on_alloc on_release n a b w = (NO_ERROR, b', w')" and "0 < n"
  shows "\<exists>e \<ge> n. blocks w' (chunk_key (current b')) = Some e"
proof -
  have ok: "single_ok blocks b' w'" using single_realloc_ok [OF assms(1-3) eq] by simp
  have "cfirst (current b') \<noteq> 0 \<and> n \<le> currentSize b'"
    using eq assms(4,6) by (auto simp: single_realloc_def Let_def split: if_splits prod.splits)
  then show ?thesis using ok order_trans by (fastforce simp: single_ok_def)
qed

lemma single_release_ok:
  assumes "winv w" and "single_ok blocks b w"
    and "single_release on_release b w = (b', w')"
  shows "winv w' \<and> single_ok blocks b' w'"
  using assms release_ok [OF assms(1), of "current b"]
  by (auto simp: single_release_def single_ok_def split: if_splits)

end

section \<open>DefaultAllocator\<close>

text \<open>
  \<open>MNNMemoryAllocAlign\<close> takes \<open>size + 8 + alignment\<close> bytes from \<open>malloc\<close>, rounds the address up and
  keeps the original pointer in the 8 bytes in front of the result. The world is the C heap and the
  pointers kept that way.
\<close>

definition MNN_MEMORY_ALIGN_DEFAULT :: nat where
  "MNN_MEMORY_ALIGN_DEFAULT = 64"

definition alignPointer :: "nat \<Rightarrow> nat \<Rightarrow> nat" where
  "alignPointer p alignment = (p + alignment - 1) div alignment * alignment"

definition MNNMemoryAllocAlign ::
  "(nat \<Rightarrow> 'm \<Rightarrow> addr \<times> 'm) \<Rightarrow> nat \<Rightarrow> nat \<Rightarrow> 'm \<times> (addr \<Rightarrow> addr) \<Rightarrow> addr \<times> 'm \<times> (addr \<Rightarrow> addr)" where
  "MNNMemoryAllocAlign malloc sz alignment = (\<lambda>(m, header).
     (let (origin, m') = malloc (sz + 8 + alignment) m
      in if origin = 0 then (0, m', header)
         else (let aligned = alignPointer (origin + 8) alignment
               in (aligned, m', header(aligned := origin)))))"

definition MNNMemoryFreeAlign ::
  "(addr \<Rightarrow> 'm \<Rightarrow> 'm) \<Rightarrow> addr \<Rightarrow> 'm \<times> (addr \<Rightarrow> addr) \<Rightarrow> 'm \<times> (addr \<Rightarrow> addr)" where
  "MNNMemoryFreeAlign free aligned = (\<lambda>(m, header).
     if aligned \<noteq> 0 then (free (header aligned) m, header) else (m, header))"

definition default_onAlloc ::
  "(nat \<Rightarrow> 'm \<Rightarrow> addr \<times> 'm) \<Rightarrow> nat \<Rightarrow> nat \<Rightarrow> 'm \<times> (addr \<Rightarrow> addr) \<Rightarrow> mem_chunk \<times> 'm \<times> (addr \<Rightarrow> addr)" where
  "default_onAlloc malloc sz align w =
     (let (p, w') = MNNMemoryAllocAlign malloc sz MNN_MEMORY_ALIGN_DEFAULT w
      in (\<lparr>cfirst = p, csecond = 0, cnode = None\<rparr>, w'))"

definition default_onRelease ::
  "(addr \<Rightarrow> 'm \<Rightarrow> 'm) \<Rightarrow> mem_chunk \<Rightarrow> 'm \<times> (addr \<Rightarrow> addr) \<Rightarrow> 'm \<times> (addr \<Rightarrow> addr)" where
  "default_onRelease free chunk w = MNNMemoryFreeAlign free (cfirst chunk) w"

text \<open>
  The promises of the C heap: \<open>heap m\<close> maps the address of every live block to its size; live blocks
  do not overlap, and \<open>free\<close> of the address of a live block removes that block only.
\<close>

locale c_heap =
  fixes malloc :: "nat \<Rightarrow> 'm \<Rightarrow> addr \<times> 'm"
    and free :: "addr \<Rightarrow> 'm \<Rightarrow> 'm"
    and heap :: "'m \<Rightarrow> addr \<Rightarrow> nat option"
    and hinv :: "'m \<Rightarrow> bool"
  assumes malloc_some: "hinv m \<Longrightarrow> 0 < n \<Longrightarrow> malloc n m = (p, m') \<Longrightarrow> p \<noteq> 0 \<Longrightarrow>
      hinv m' \<and> heap m p = None \<and> heap m' = (heap m)(p \<mapsto> n)"
    and malloc_null: "hinv m \<Longrightarrow> 0 < n \<Longrightarrow> malloc n m = (0, m') \<Longrightarrow> hinv m' \<and> heap m' = heap m"
    and free_ok: "hinv m \<Longrightarrow> heap m p \<noteq> None \<Longrightarrow> hinv (free p m) \<and> heap (free p m) = (heap m)(p := None)"
    and heap_pos: "hinv m \<Longrightarrow> heap m p = Some n \<Longrightarrow> 0 < n \<and> 0 < p"
    and heap_disjoint: "hinv m \<Longrightarrow> heap m p = Some n \<Longrightarrow> heap m q = Some k \<Longrightarrow> p \<noteq> q \<Longrightarrow>
      disjoint_ranges p n q k"

text \<open>
  The blocks of \<open>DefaultAllocator\<close>: an address whose kept pointer is a live block, with the room that
  is left in that block. \<open>live\<close> is the set of addresses given out.
\<close>

definition default_room :: "(addr \<Rightarrow> nat option) \<Rightarrow> (addr \<Rightarrow> addr) \<Rightarrow> addr \<Rightarrow> nat option" where
  "default_room hp header p =
     (case hp (header p) of
        Some n \<Rightarrow> if header p < p \<and> p < header p + n \<and> p = alignPointer (header p + 8) 64
                  then Some (header p + n - p) else None
      | None \<Rightarrow> None)"

definition default_blocks ::
  "('m \<Rightarrow> addr \<Rightarrow> nat option) \<Rightarrow> 'm \<times> (addr \<Rightarrow> addr) \<Rightarrow> ptr_key \<Rightarrow> nat option" where
  "default_blocks heap = (\<lambda>(m, header) q. if snd q = 0 then default_room (heap m) header (fst q) else None)"

lemma alignPointer_bounds: "0 < a \<Longrightarrow> p \<le> alignPointer p a \<and> alignPointer p a < p + a \<and> a dvd alignPointer p a"
  using up_div_ge [of a p] up_div_less [of a p] by (simp add: alignPointer_def up_div_def)

context c_heap
begin

lemma default_room_Some:
  "default_room (heap m) hdr p = Some e \<Longrightarrow>
     \<exists>n. heap m (hdr p) = Some n \<and> hdr p < p \<and> p < hdr p + n \<and> e = hdr p + n - p \<and> p = alignPointer (hdr p + 8) 64"
  by (auto simp: default_room_def split: option.splits if_splits)

lemma default_alloc_some:
  assumes inv: "hinv m" and n: "0 < n" and eq: "default_onAlloc malloc n a (m, hdr) = (c, m', hdr')"
    and c: "cfirst c \<noteq> 0"
  shows "hinv m' \<and> cnode c = None \<and> default_blocks heap (m, hdr) (chunk_key c) = None \<and>
     (\<exists>e \<ge> n. default_blocks heap (m', hdr') = (default_blocks heap (m, hdr))(chunk_key c \<mapsto> e))"
proof -
  obtain p0 m1 where mal: "malloc (n + 8 + 64) m = (p0, m1)" by fastforce
  define p where "p = alignPointer (p0 + 8) 64"
  have p0: "p0 \<noteq> 0" and e: "c = \<lparr>cfirst = p, csecond = 0, cnode = None\<rparr>" "m' = m1" "hdr' = hdr(p := p0)"
    using eq mal c by (auto simp: default_onAlloc_def MNNMemoryAllocAlign_def MNN_MEMORY_ALIGN_DEFAULT_def Let_def
        p_def split: if_splits)
  have new: "hinv m1" "heap m p0 = None" "heap m1 = (heap m)(p0 \<mapsto> n + 8 + 64)"
    using malloc_some [OF inv _ mal p0] by auto
  have p: "p0 + 8 \<le> p" "p < p0 + 8 + 64" using alignPointer_bounds [of 64 "p0 + 8"] by (simp_all add: p_def)
  have none: "default_room (heap m) hdr p = None"
  proof (rule ccontr)
    assume "default_room (heap m) hdr p \<noteq> None"
    then obtain e where "default_room (heap m) hdr p = Some e" by blast
    from default_room_Some [OF this] obtain k where k: "heap m (hdr p) = Some k" "hdr p < p" "p < hdr p + k" by blast
    then have "heap m1 (hdr p) = Some k" "hdr p \<noteq> p0" using new by auto
    with heap_disjoint [OF new(1) this(1), of p0 "n + 8 + 64"] new(3) have "disjoint_ranges (hdr p) k p0 (n + 8 + 64)"
      by simp
    with k p n show False by (auto simp: disjoint_ranges_def)
  qed
  have other: "default_room (heap m1) (hdr(p := p0)) q = default_room (heap m) hdr q" if "q \<noteq> p" for q
  proof (cases "hdr q = p0")
    case True
    then show ?thesis using new that by (auto simp: default_room_def p_def)
  next
    case False
    moreover have "(hdr(p := p0)) q = hdr q" using that by simp
    ultimately show ?thesis using new by (simp only: default_room_def fun_upd_apply if_False)
  qed
  have "default_room (heap m1) (hdr(p := p0)) p = Some (p0 + (n + 8 + 64) - p)"
    using p n new(3) by (auto simp: default_room_def p_def [symmetric])
  with other none p have
    "default_blocks heap (m', hdr') = (default_blocks heap (m, hdr))(chunk_key c \<mapsto> p0 + (n + 8 + 64) - p)"
    unfolding e by (auto simp: default_blocks_def chunk_key_def fun_eq_iff)
  moreover have "n \<le> p0 + (n + 8 + 64) - p" using p by simp
  ultimately show ?thesis using new none by (auto simp: e default_blocks_def chunk_key_def)
qed

lemma default_is_raw_alloc:
  "raw_alloc (default_onAlloc malloc) (default_onRelease free) (default_blocks heap) (\<lambda>w. hinv (fst w))"
proof
  fix w n a c w' assume "hinv (fst w)" "0 < n" "default_onAlloc malloc n a w = (c, w')" "cfirst c \<noteq> 0"
  then show "hinv (fst w') \<and> cnode c = None \<and> default_blocks heap w (chunk_key c) = None \<and>
      (\<exists>e \<ge> n. default_blocks heap w' = (default_blocks heap w)(chunk_key c \<mapsto> e))"
    using default_alloc_some [of "fst w" n a "snd w" c "fst w'" "snd w'"] by simp
next
  fix w n a c w' assume a: "hinv (fst w)" "0 < n" "default_onAlloc malloc n a w = (c, w')" "cfirst c = 0"
  obtain m hdr where w: "w = (m, hdr)" by (cases w)
  obtain p0 m1 where mal: "malloc (n + 8 + 64) m = (p0, m1)" by fastforce
  have "p0 = 0 \<and> w' = (m1, hdr)"
    using a mal alignPointer_bounds [of 64 "p0 + 8"]
    by (auto simp: w default_onAlloc_def MNNMemoryAllocAlign_def MNN_MEMORY_ALIGN_DEFAULT_def Let_def split: if_splits)
  then show "hinv (fst w') \<and> default_blocks heap w' = default_blocks heap w"
    using malloc_null [OF _ _ mal [unfolded conjunct1 [OF \<open>p0 = 0 \<and> w' = (m1, hdr)\<close>]]] a w
    by (auto simp: default_blocks_def)
next
  fix w c assume a: "hinv (fst w)" "default_blocks heap w (chunk_key c) \<noteq> None"
  obtain m hdr where w: "w = (m, hdr)" by (cases w)
  let ?p = "cfirst c"
  obtain e where "default_room (heap m) hdr ?p = Some e" and k0: "csecond c = 0"
    using a w by (auto simp: default_blocks_def chunk_key_def split: if_splits)
  from default_room_Some [OF this(1)] obtain n
    where n: "heap m (hdr ?p) = Some n" "hdr ?p < ?p" "?p = alignPointer (hdr ?p + 8) 64" by blast
  then have f: "hinv (free (hdr ?p) m)" "heap (free (hdr ?p) m) = (heap m)(hdr ?p := None)"
    using free_ok [of m "hdr ?p"] a w by auto
  have "default_room (heap (free (hdr ?p) m)) hdr q = ((default_room (heap m) hdr)(?p := None)) q" for q
  proof (cases "hdr q = hdr ?p")
    case True
    then have "q \<noteq> alignPointer (hdr q + 8) 64" if "q \<noteq> ?p" using n(3) that by metis
    then show ?thesis using True f(2) by (simp add: default_room_def split: option.split)
  next
    case False
    moreover from this have "q \<noteq> ?p" by blast
    ultimately show ?thesis using f(2) by (simp add: default_room_def)
  qed
  note room = this
  have rel: "default_onRelease free c w = (free (hdr ?p) m, hdr)"
    using n(2) w by (simp add: default_onRelease_def MNNMemoryFreeAlign_def)
  have "default_blocks heap (free (hdr ?p) m, hdr) q = ((default_blocks heap w)(chunk_key c := None)) q" for q
    using room k0 w by (cases q) (simp add: default_blocks_def chunk_key_def)
  then show "hinv (fst (default_onRelease free c w)) \<and>
      default_blocks heap (default_onRelease free c w) = (default_blocks heap w)(chunk_key c := None)"
    unfolding rel using f(1) by (simp add: fun_eq_iff)
next
  fix w q m assume "hinv (fst w)" "default_blocks heap w q = Some m"
  then show "0 < m \<and> 0 < fst q"
    by (cases w) (auto simp: default_blocks_def split: if_splits dest: default_room_Some)
next
  fix w q m q' m'
  assume a: "hinv (fst w)" "default_blocks heap w q = Some m" "default_blocks heap w q' = Some m'" "q \<noteq> q'"
  obtain hp hdr where w: "w = (hp, hdr)" by (cases w)
  have z: "snd q = 0" "snd q' = 0" using a w by (auto simp: default_blocks_def split: if_splits)
  have r: "default_room (heap hp) hdr (fst q) = Some m" "default_room (heap hp) hdr (fst q') = Some m'"
    using a z w by (auto simp: default_blocks_def)
  from default_room_Some [OF r(1)] obtain n where n: "heap hp (hdr (fst q)) = Some n" "hdr (fst q) < fst q"
    "m = hdr (fst q) + n - fst q" "fst q < hdr (fst q) + n" "fst q = alignPointer (hdr (fst q) + 8) 64" by blast
  from default_room_Some [OF r(2)] obtain k where k: "heap hp (hdr (fst q')) = Some k" "hdr (fst q') < fst q'"
    "m' = hdr (fst q') + k - fst q'" "fst q' < hdr (fst q') + k" "fst q' = alignPointer (hdr (fst q') + 8) 64" by blast
  have "hdr (fst q) \<noteq> hdr (fst q')" using n(5) k(5) a(4) z by (metis prod_eqI)
  with heap_disjoint [OF _ n(1) k(1)] a(1) w have "disjoint_ranges (hdr (fst q)) n (hdr (fst q')) k" by simp
  then show "disjoint_ranges (key_addr q) m (key_addr q') m'"
    using n k z by (auto simp: disjoint_ranges_def key_addr_def)
qed

end

sublocale c_heap \<subseteq> default: raw_alloc "default_onAlloc malloc" "default_onRelease free" "default_blocks heap"
  "\<lambda>w. hinv (fst w)"
  by (rule default_is_raw_alloc)

text \<open>
  A C heap that hands out ascending addresses and never reuses one: the instance of the external
  \<open>malloc\<close> and \<open>free\<close> in the closed examples of this development.
\<close>

definition bump_malloc :: "nat \<Rightarrow> nat \<times> (addr \<Rightarrow> nat option) \<Rightarrow> addr \<times> nat \<times> (addr \<Rightarrow> nat option)" where
  "bump_malloc n = (\<lambda>(fresh, live). (fresh, fresh + n, live(fresh \<mapsto> n)))"

definition bump_free :: "addr \<Rightarrow> nat \<times> (addr \<Rightarrow> nat option) \<Rightarrow> nat \<times> (addr \<Rightarrow> nat option)" where
  "bump_free p = (\<lambda>(fresh, live). (fresh, live(p := None)))"

definition bump_inv :: "nat \<times> (addr \<Rightarrow> nat option) \<Rightarrow> bool" where
  "bump_inv = (\<lambda>(fresh, live). 0 < fresh \<and> (\<forall>p n. live p = Some n \<longrightarrow> 0 < n \<and> 0 < p \<and> p + n \<le> fresh) \<and>
     (\<forall>p n q k. live p = Some n \<longrightarrow> live q = Some k \<longrightarrow> p \<noteq> q \<longrightarrow> disjoint_ranges p n q k))"

interpretation bump: c_heap bump_malloc bump_free snd bump_inv
proof
  fix m n p m'
  assume a: "bump_inv m" "0 < n" "bump_malloc n m = (p, m')" "p \<noteq> 0"
  obtain f l where m: "m = (f, l)" by (cases m)
  have e: "p = f" "m' = (f + n, l(f \<mapsto> n))" using a(3) by (auto simp: m bump_malloc_def)
  have b: "\<forall>p n. l p = Some n \<longrightarrow> 0 < n \<and> 0 < p \<and> p + n \<le> f"
    "\<forall>p n q k. l p = Some n \<longrightarrow> l q = Some k \<longrightarrow> p \<noteq> q \<longrightarrow> disjoint_ranges p n q k" "0 < f"
    using a(1) by (simp_all add: m bump_inv_def)
  have none: "l f = None"
  proof (rule ccontr)
    assume "l f \<noteq> None"
    then obtain k where "l f = Some k" by blast
    with b(1) have "0 < k" "f + k \<le> f" by blast+
    then show False by simp
  qed
  moreover have "bump_inv m'" unfolding e bump_inv_def prod.case
  proof (intro conjI allI impI)
    fix q k assume "(l(f \<mapsto> n)) q = Some k"
    then show "0 < k" "0 < q" "q + k \<le> f + n" using a(2) b by (auto split: if_splits dest: b(1) [rule_format])
  next
    fix q k r j assume "(l(f \<mapsto> n)) q = Some k" "(l(f \<mapsto> n)) r = Some j" "q \<noteq> r"
    then show "disjoint_ranges q k r j"
      using b(1,2) by (auto simp: disjoint_ranges_def split: if_splits dest: b(1) [rule_format])
  qed (use b in simp)
  ultimately show "bump_inv m' \<and> snd m p = None \<and> snd m' = (snd m)(p \<mapsto> n)" by (simp add: e m)
next
  fix m n m' assume "bump_inv m" "bump_malloc n m = (0, m')"
  then show "bump_inv m' \<and> snd m' = snd m" by (auto simp: bump_inv_def bump_malloc_def)
qed (auto simp: bump_inv_def bump_free_def split: if_splits)

section \<open>A buffer that could not grow\<close>

text \<open>
  After a failed growth the buffer is gone but \<open>currentSize\<close> keeps its old value: every later request
  up to that size reports success with a null buffer.
\<close>

lemma realloc_failed:
  assumes "cfirst (current b) \<noteq> 0" and "currentSize b < n"
    and "on_alloc n a (on_release (current b) w) = (c, w')" and "cfirst c = 0"
  shows "single_realloc on_alloc on_release n a b w = (OUT_OF_MEMORY, b\<lparr>current := c\<rparr>, w')"
  using assms by (simp add: single_realloc_def)

end
