(* ===== verification/Eager_Model.thy ===== *)
theory Eager_Model
  imports Alloc_Contract "HOL-Library.While_Combinator"
begin

text \<open>
  \<open>EagerBufferAllocator\<close> of \<open>source/core/BufferAllocator.cpp\<close>: the pool behind the static memory of
  every backend. A \<open>Node*\<close> is the index of the node in \<open>enodes\<close>, in the order of creation. A free
  list (\<open>multimap\<close> from size to node) is the list of its nodes ordered by size, the used list (\<open>map\<close>
  from pointer to node) an association list, \<open>mCurrentFreeList\<close> the position of its list in
  \<open>mGroups\<close>. The root allocator \<open>mAllocator\<close> is given by its two operations and the world \<open>'w\<close>.
\<close>

section \<open>State\<close>

record enode =
  eptr :: ptr_key
  eparent :: "nat option"
  esize :: nat
  euse :: nat

record eager_state =
  enodes :: "enode list"
  mUsedList :: "(ptr_key \<times> nat) list"
  mFreeList :: "nat list"
  mCurrentFreeList :: "nat option"
  mGroups :: "nat list list"
  eTotal :: nat
  eAlign :: nat
  mMinAllocSize :: nat

definition eager_new :: "nat \<Rightarrow> nat \<Rightarrow> eager_state" where
  "eager_new align minAllocSize = \<lparr>enodes = [], mUsedList = [], mFreeList = [], mCurrentFreeList = None,
     mGroups = [], eTotal = 0, eAlign = align, mMinAllocSize = minAllocSize\<rparr>"

text \<open>\<open>ChunkBySize\<close>-like keys of the free lists, and the counter \<open>useCount\<close> (a \<open>size_t\<close>).\<close>

definition ekey :: "enode list \<Rightarrow> nat \<Rightarrow> nat" where
  "ekey ns i = esize (ns ! i)"

definition use_count :: "(nat \<Rightarrow> nat) \<Rightarrow> nat \<Rightarrow> enode list \<Rightarrow> enode list" where
  "use_count f p ns = ns[p := (ns ! p)\<lparr>euse := f (euse (ns ! p))\<rparr>]"

definition parent_count :: "(nat \<Rightarrow> nat) \<Rightarrow> nat option \<Rightarrow> enode list \<Rightarrow> enode list" where
  "parent_count f parent ns = (case parent of Some p \<Rightarrow> use_count f p ns | None \<Rightarrow> ns)"

text \<open>\<open>map::insert\<close> keeps an entry that is there already.\<close>

definition used_insert :: "ptr_key \<Rightarrow> nat \<Rightarrow> (ptr_key \<times> nat) list \<Rightarrow> (ptr_key \<times> nat) list" where
  "used_insert q i us = (if map_of us q = None then (q, i) # us else us)"

definition used_erase :: "ptr_key \<Rightarrow> (ptr_key \<times> nat) list \<Rightarrow> (ptr_key \<times> nat) list" where
  "used_erase q us = filter (\<lambda>e. fst e \<noteq> q) us"

definition key_chunk :: "ptr_key \<Rightarrow> mem_chunk" where
  "key_chunk q = \<lparr>cfirst = fst q, csecond = snd q, cnode = None\<rparr>"

section \<open>Allocation\<close>

text \<open>
  \<open>getFromFreeList\<close>: the pointer found, the list and the rest of the state. The list handed in is
  \<open>mFreeList\<close> or a group, which the caller stores back.
\<close>

definition getFromFreeList ::
  "nat list \<Rightarrow> nat \<Rightarrow> bool \<Rightarrow> nat \<Rightarrow> eager_state \<Rightarrow> ptr_key option \<times> nat list \<times> eager_state" where
  "getFromFreeList list sz permiteSplit align s =
     (let needExtraSize = (eAlign s mod align \<noteq> 0);
          realSize0 = (if needExtraSize then sz + align - 1 else sz)
      in case lower_bound (ekey (enodes s)) realSize0 list of
           None \<Rightarrow> (None, list, s)
         | Some x \<Rightarrow>
             (let n = enodes s ! x;
                  originOffset = snd (eptr n);
                  offset = (if needExtraSize then up_div originOffset align * align else originOffset);
                  realSize = (if needExtraSize then sz + offset - originOffset else realSize0);
                  pointer = (fst (eptr n), offset);
                  ns1 = (if permiteSplit then parent_count Suc (eparent n) (enodes s) else enodes s);
                  sizeAlign = up_div realSize (eAlign s) * eAlign s
              in if esize n \<le> sizeAlign \<or> \<not> permiteSplit then
                   (Some pointer, remove1 x list,
                    s\<lparr>enodes := ns1, mUsedList := used_insert pointer x (mUsedList s)\<rparr>)
                 else
                   (let a = length ns1; b = a + 1;
                        ns2 = use_count Suc x ns1 @
                          [\<lparr>eptr = eptr n, eparent = Some x, esize = sizeAlign, euse = 0\<rparr>,
                           \<lparr>eptr = (fst (eptr n), snd (eptr n) + sizeAlign), eparent = Some x,
                            esize = esize n - sizeAlign, euse = 0\<rparr>]
                    in (Some pointer, insert_by (ekey ns2) b (remove1 x list),
                        s\<lparr>enodes := ns2, mUsedList := used_insert pointer a (mUsedList s)\<rparr>))))"

text \<open>A block the root allocator has given, with the part a minimal allocation size leaves over.\<close>

definition eager_root_block :: "ptr_key \<Rightarrow> nat \<Rightarrow> nat \<Rightarrow> eager_state \<Rightarrow> eager_state" where
  "eager_root_block pointer sz0 allocSize s =
     (let r = length (enodes s);
          node = \<lparr>eptr = pointer, eparent = None, esize = allocSize, euse = 0\<rparr>;
          s1 = s\<lparr>eTotal := eTotal s + allocSize\<rparr>
      in if sz0 < allocSize then
           (let sz = up_div sz0 (eAlign s) * eAlign s;
                ns = enodes s @
                  [node\<lparr>euse := 1\<rparr>,
                   \<lparr>eptr = pointer, eparent = Some r, esize = sz, euse = 0\<rparr>,
                   \<lparr>eptr = (fst pointer, snd pointer + sz), eparent = Some r,
                    esize = size_sub allocSize sz, euse = 0\<rparr>];
                s2 = s1\<lparr>enodes := ns, mUsedList := used_insert pointer (r + 1) (mUsedList s)\<rparr>
            in case mCurrentFreeList s of
                 Some g \<Rightarrow> s2\<lparr>mGroups := (mGroups s)[g := insert_by (ekey ns) (r + 2) (mGroups s ! g)]\<rparr>
               | None \<Rightarrow> s2\<lparr>mFreeList := insert_by (ekey ns) (r + 2) (mFreeList s)\<rparr>)
         else
           s1\<lparr>enodes := enodes s @ [node], mUsedList := (pointer, r) # used_erase pointer (mUsedList s)\<rparr>)"

definition eager_reuse :: "nat \<Rightarrow> nat \<Rightarrow> eager_state \<Rightarrow> ptr_key option \<times> eager_state" where
  "eager_reuse sz align s =
     (let (p1, s1) =
            (case mCurrentFreeList s of
               None \<Rightarrow> (None, s)
             | Some g \<Rightarrow>
                 (let (p, l, s') = getFromFreeList (mGroups s ! g) sz False align s
                  in (p, s'\<lparr>mGroups := (mGroups s')[g := l]\<rparr>)))
      in if p1 \<noteq> None then (p1, s1)
         else (let (p, l, s') = getFromFreeList (mFreeList s1) sz True align s1
               in (p, s'\<lparr>mFreeList := l\<rparr>)))"

definition eager_alloc ::
  "(nat \<Rightarrow> nat \<Rightarrow> 'w \<Rightarrow> mem_chunk \<times> 'w) \<Rightarrow> nat \<Rightarrow> bool \<Rightarrow> nat \<Rightarrow> eager_state \<Rightarrow> 'w \<Rightarrow>
     mem_chunk \<times> eager_state \<times> 'w" where
  "eager_alloc on_alloc sz separate align0 s w =
     (let align = (if align0 = 0 then eAlign s else align0);
          (reused, s1) = (if separate then (None, s) else eager_reuse sz align s)
      in case reused of
           Some p \<Rightarrow> (key_chunk p, s1, w)
         | None \<Rightarrow>
             (let allocSize = (if mMinAllocSize s1 \<noteq> 0 then max (mMinAllocSize s1) sz else sz);
                  (chunk, w') = on_alloc allocSize align w
              in if cfirst chunk = 0 then (chunk, s1, w')
                 else (key_chunk (chunk_key chunk), eager_root_block (chunk_key chunk) sz allocSize s1, w')))"

section \<open>Giving back\<close>

text \<open>
  The merge loop of \<open>returnMemory\<close>: the free list, the nodes, the parent that is merged, and whether
  it is to be merged.
\<close>

definition merge_step ::
  "nat list \<times> enode list \<times> nat \<times> bool \<Rightarrow> nat list \<times> enode list \<times> nat \<times> bool" where
  "merge_step = (\<lambda>(list, ns, parent, needMerge).
     (let list1 = filter (\<lambda>i. eparent (ns ! i) \<noteq> Some parent) list;
          list2 = insert_by (ekey ns) parent list1
      in case eparent (ns ! parent) of
           None \<Rightarrow> (list2, ns, parent, False)
         | Some p \<Rightarrow>
             (let ns' = use_count (\<lambda>u. size_sub u 1) p ns
              in (list2, ns', p, euse (ns' ! p) = 0))))"

definition merge_need :: "nat list \<times> enode list \<times> nat \<times> bool \<Rightarrow> bool" where
  "merge_need = (\<lambda>(list, ns, parent, needMerge). needMerge)"

definition returnMemory :: "nat list \<Rightarrow> nat \<Rightarrow> bool \<Rightarrow> enode list \<Rightarrow> nat list \<times> enode list" where
  "returnMemory list i permitMerge ns =
     (let list1 = insert_by (ekey ns) i list
      in case eparent (ns ! i) of
           Some p \<Rightarrow>
             if permitMerge then
               (let ns1 = use_count (\<lambda>u. size_sub u 1) p ns;
                    (l, ns', _, _) = while merge_need merge_step (list1, ns1, p, euse (ns1 ! p) = 0)
                in (l, ns'))
             else (list1, ns)
         | None \<Rightarrow> (list1, ns))"

definition eager_free :: "mem_chunk \<Rightarrow> eager_state \<Rightarrow> bool \<times> eager_state" where
  "eager_free chunk s =
     (case map_of (mUsedList s) (chunk_key chunk) of
        None \<Rightarrow> (False, s)
      | Some i \<Rightarrow>
          (let s1 = s\<lparr>mUsedList := used_erase (chunk_key chunk) (mUsedList s)\<rparr>
           in case mCurrentFreeList s of
                Some g \<Rightarrow>
                  (let (l, ns) = returnMemory (mGroups s ! g) i False (enodes s)
                   in (True, s1\<lparr>enodes := ns, mGroups := (mGroups s)[g := l]\<rparr>))
              | None \<Rightarrow>
                  (let (l, ns) = returnMemory (mFreeList s) i True (enodes s)
                   in (True, s1\<lparr>enodes := ns, mFreeList := l\<rparr>))))"

section \<open>Groups and release\<close>

definition eager_beginGroup :: "eager_state \<Rightarrow> eager_state" where
  "eager_beginGroup s = s\<lparr>mGroups := mGroups s @ [[]], mCurrentFreeList := Some (length (mGroups s))\<rparr>"

definition eager_endGroup :: "eager_state \<Rightarrow> eager_state" where
  "eager_endGroup s = s\<lparr>mCurrentFreeList := None\<rparr>"

definition eager_barrierEnd :: "eager_state \<Rightarrow> eager_state" where
  "eager_barrierEnd s =
     (let (l, ns) = fold (\<lambda>i (l, ns). returnMemory l i True ns) (concat (mGroups s)) (mFreeList s, enodes s)
      in s\<lparr>enodes := ns, mFreeList := l, mGroups := []\<rparr>)"

text \<open>
  A node lives as long as a list or a child refers to it; the destructor of a node without parent
  gives its memory back to the root allocator. \<open>live_roots\<close> lists the roots behind the nodes of the
  three lists, and \<open>release_dead\<close> runs the destructors of those a \<open>release\<close> has dropped.
\<close>

primrec root_of :: "enode list \<Rightarrow> nat \<Rightarrow> nat \<Rightarrow> nat" where
  "root_of ns 0 i = i"
| "root_of ns (Suc k) i = (case eparent (ns ! i) of None \<Rightarrow> i | Some p \<Rightarrow> root_of ns k p)"

definition live_roots :: "eager_state \<Rightarrow> nat list" where
  "live_roots s = map (root_of (enodes s) (length (enodes s)))
     (map snd (mUsedList s) @ mFreeList s @ concat (mGroups s))"

definition release_dead :: "(mem_chunk \<Rightarrow> 'w \<Rightarrow> 'w) \<Rightarrow> eager_state \<Rightarrow> eager_state \<Rightarrow> 'w \<Rightarrow> 'w" where
  "release_dead on_release s s' w =
     fold (\<lambda>i. on_release (key_chunk (eptr (enodes s ! i))))
       (filter (\<lambda>i. i \<in> set (live_roots s) \<and> i \<notin> set (live_roots s')) [0..<length (enodes s)]) w"

definition eager_release :: "(mem_chunk \<Rightarrow> 'w \<Rightarrow> 'w) \<Rightarrow> bool \<Rightarrow> eager_state \<Rightarrow> 'w \<Rightarrow> eager_state \<times> 'w" where
  "eager_release on_release allRelease s w =
     (let s' =
        (if allRelease then s\<lparr>mUsedList := [], mFreeList := [], eTotal := 0\<rparr>
         else s\<lparr>mFreeList := filter (\<lambda>i. eparent (enodes s ! i) \<noteq> None) (mFreeList s),
                eTotal := fold (\<lambda>i t. size_sub t (ekey (enodes s) i))
                  (filter (\<lambda>i. eparent (enodes s ! i) = None) (mFreeList s)) (eTotal s)\<rparr>)
      in (s', release_dead on_release s s' w))"

section \<open>RecurseAllocator\<close>

text \<open>A pool that takes its blocks from another pool: the world is the other pool and its own world.\<close>

definition recurse_onAlloc ::
  "(nat \<Rightarrow> nat \<Rightarrow> 'w \<Rightarrow> mem_chunk \<times> 'w) \<Rightarrow> nat \<Rightarrow> nat \<Rightarrow> eager_state \<times> 'w \<Rightarrow> mem_chunk \<times> eager_state \<times> 'w" where
  "recurse_onAlloc on_alloc sz align = (\<lambda>(parent, w). eager_alloc on_alloc sz False align parent w)"

definition recurse_onRelease :: "mem_chunk \<Rightarrow> eager_state \<times> 'w \<Rightarrow> eager_state \<times> 'w" where
  "recurse_onRelease chunk = (\<lambda>(parent, w). (snd (eager_free chunk parent), w))"

end
