(* ===== verification/Pipeline_CPU.thy ===== *)
theory Pipeline_CPU
  imports Pipeline_Plan Defer_Claims Eager_Model
begin

text \<open>
  The CPU backend behind a plan: \<open>CPUBackend::allocBuffer\<close>, \<open>onAcquire\<close>, \<open>getTensorSize\<close>, \<open>onResizeBegin\<close>,
  \<open>onResizeEnd\<close>, \<open>CPUMemObj\<close> and \<open>CPUResizeCache::release\<close> of \<open>source/backend/cpu\<close>, with deferred dynamic
  allocators, and the eager pools for static memory. A \<open>DynamicAllocator\<close> is a number (\<open>dma_of\<close> a backend: the
  main and the backup backend may share one), and so is the buffer behind it (\<open>buffer_of\<close>).
\<close>

section \<open>State\<close>

datatype allocator_ref = Static_allocator | Static_raw | Dynamic_allocator nat

record cpu_mem =
  mAllocator :: allocator_ref
  mChunk :: mem_chunk
  mSize :: nat

text \<open>The constructor of \<open>CPUMemObj\<close> takes the size as an \<open>int\<close>.\<close>

definition getSize :: "cpu_mem \<Rightarrow> int" where
  "getSize m = to_int32 (int (mSize m))"

record 'w cpu_world =
  dynamicAllocator :: "nat \<Rightarrow> defer_state"
  buffers :: "nat \<Rightarrow> single_buffer"
  mStaticAllocator :: eager_state
  mStaticAllocatorRaw :: "eager_state option"
  formatCache :: "nat \<Rightarrow> cpu_mem list"
  cpuDynamicNode :: "nat \<Rightarrow> (nat \<times> nat) option"
  hosts :: "nat \<Rightarrow> addr option"
  roots :: 'w

record 'w cpu_config =
  core_pack :: int
  core_bytes :: int
  applyQuant :: "nat \<Rightarrow> bool"
  dma_of :: "backend_id \<Rightarrow> nat"
  buffer_of :: "nat \<Rightarrow> nat"
  static_onAlloc :: "nat \<Rightarrow> nat \<Rightarrow> 'w \<Rightarrow> mem_chunk \<times> 'w"
  raw_onAlloc :: "nat \<Rightarrow> nat \<Rightarrow> 'w \<Rightarrow> mem_chunk \<times> 'w"
  buffer_onAlloc :: "nat \<Rightarrow> nat \<Rightarrow> 'w \<Rightarrow> mem_chunk \<times> 'w"
  buffer_onRelease :: "mem_chunk \<Rightarrow> 'w \<Rightarrow> 'w"
  kernel :: "command \<Rightarrow> (cpu_mem, 'w cpu_world) pipe \<Rightarrow> error_code \<times> (cpu_mem, 'w cpu_world) pipe"

section \<open>Sizes\<close>

definition cpu_getBytes :: "'w cpu_config \<Rightarrow> nat \<Rightarrow> tensor \<Rightarrow> int" where
  "cpu_getBytes cfg t d =
     (if applyQuant cfg t then 1
      else if code (ttype d) = halide_type_float then core_bytes cfg
      else type_bytes (ttype d))"

text \<open>\<open>size_t\<close> arithmetic: every product is taken modulo \<open>2 ^ 64\<close>.\<close>

abbreviation size_wrap :: "int \<Rightarrow> int" where
  "size_wrap n \<equiv> n mod 18446744073709551616"

definition cpu_getTensorSize :: "'w cpu_config \<Rightarrow> nat \<Rightarrow> tensor \<Rightarrow> nat" where
  "cpu_getTensorSize cfg t d =
     nat (size_wrap (fold (\<lambda>i dataSize.
         let len = size_wrap (len_at d i);
             currentDimSize = (if dimensionFormat d = NC4HW4 \<and> i = 1
               then size_wrap (size_wrap (len + core_pack cfg - 1) div core_pack cfg * core_pack cfg) else len)
         in size_wrap (dataSize * currentDimSize))
       [0..<ndim d] 1 * cpu_getBytes cfg t d))"

section \<open>Memory objects\<close>

text \<open>The destructor of \<open>CPUMemObj\<close>.\<close>

definition cpu_free :: "cpu_mem \<Rightarrow> 'w cpu_world \<Rightarrow> 'w cpu_world" where
  "cpu_free m w =
     (case mAllocator m of
        Dynamic_allocator a \<Rightarrow>
          w\<lparr>dynamicAllocator := (dynamicAllocator w)(a := snd (defer_free (mChunk m) (dynamicAllocator w a)))\<rparr>
      | Static_allocator \<Rightarrow> w\<lparr>mStaticAllocator := snd (eager_free (mChunk m) (mStaticAllocator w))\<rparr>
      | Static_raw \<Rightarrow> w\<lparr>mStaticAllocatorRaw := map_option (\<lambda>s. snd (eager_free (mChunk m) s)) (mStaticAllocatorRaw w)\<rparr>)"

text \<open>The static allocator, and the raw one when it has nothing.\<close>

definition cpu_alloc_static :: "'w cpu_config \<Rightarrow> nat \<Rightarrow> 'w cpu_world \<Rightarrow> mem_chunk \<times> allocator_ref \<times> 'w cpu_world" where
  "cpu_alloc_static cfg sz w =
     (case eager_alloc (static_onAlloc cfg) sz False 0 (mStaticAllocator w) (roots w) of
        (chunk, s, r) \<Rightarrow>
          let w1 = w\<lparr>mStaticAllocator := s, roots := r\<rparr>
          in case mStaticAllocatorRaw w1 of
               Some raw \<Rightarrow>
                 if chunk_invalid chunk
                 then (case eager_alloc (raw_onAlloc cfg) sz False 0 raw (roots w1) of
                         (chunk', s', r') \<Rightarrow> (chunk', Static_raw, w1\<lparr>mStaticAllocatorRaw := Some s', roots := r'\<rparr>))
                 else (chunk, Static_allocator, w1)
             | None \<Rightarrow> (chunk, Static_allocator, w1))"

definition cpu_alloc_dynamic :: "nat \<Rightarrow> nat \<Rightarrow> bool \<Rightarrow> 'w cpu_world \<Rightarrow> mem_chunk \<times> allocator_ref \<times> 'w cpu_world" where
  "cpu_alloc_dynamic a sz separate w =
     (case defer_alloc sz separate 0 (dynamicAllocator w a) of
        (chunk, s) \<Rightarrow> (chunk, Dynamic_allocator a, w\<lparr>dynamicAllocator := (dynamicAllocator w)(a := s)\<rparr>))"

text \<open>The part of \<open>allocBuffer\<close> behind the check of the memory the tensor has; \<open>dest\<close> has none.\<close>

definition cpu_new_buffer ::
  "'w cpu_config \<Rightarrow> nat \<Rightarrow> nat \<Rightarrow> nat \<Rightarrow> storage_type \<Rightarrow> 'w cpu_world \<Rightarrow> cpu_mem option \<times> 'w cpu_world" where
  "cpu_new_buffer cfg a sz dest storage w0 =
     (let w = w0\<lparr>cpuDynamicNode := (cpuDynamicNode w0)(dest := None)\<rparr> in
      if sz = 0 then (None, w)
      else
        (case (case storage of
                 STATIC \<Rightarrow> cpu_alloc_static cfg sz w
               | DYNAMIC \<Rightarrow> cpu_alloc_dynamic a sz False w
               | DYNAMIC_SEPERATE \<Rightarrow> cpu_alloc_dynamic a sz True w
               | DYNAMIC_IN_EXECUTION \<Rightarrow> (null_chunk, Static_allocator, w)) of
           (chunk, ref, w1) \<Rightarrow>
             if chunk_invalid chunk then (None, w1)
             else
               (let w2 = (if storage = STATIC then w1
                          else w1\<lparr>cpuDynamicNode := (cpuDynamicNode w1)(dest := map_option (Pair a) (cnode chunk)),
                                  dynamicAllocator := (dynamicAllocator w1)(a := chunk_attach chunk dest (dynamicAllocator w1 a))\<rparr>);
                    p = chunk_ptr (chunks (dynamicAllocator w2 a)) chunk
                in (Some \<lparr>mAllocator = ref, mChunk = chunk, mSize = sz\<rparr>,
                    if p \<noteq> 0 then w2\<lparr>hosts := (hosts w2)(dest \<mapsto> p)\<rparr> else w2))))"

definition cpu_allocBuffer ::
  "'w cpu_config \<Rightarrow> backend_id \<Rightarrow> nat \<Rightarrow> nat \<Rightarrow> storage_type \<Rightarrow> (cpu_mem, 'w cpu_world) pipe \<Rightarrow>
     cpu_mem option \<times> (cpu_mem, 'w cpu_world) pipe" where
  "cpu_allocBuffer cfg bk sz dest storage s =
     (case mem (origins s dest) of
        Some m \<Rightarrow>
          if sz \<le> nat (getSize m mod 2 ^ 64) then (Some m, s)
          else (case cpu_new_buffer cfg (dma_of cfg bk) sz dest storage (cpu_free m (world s)) of
                  (r, w) \<Rightarrow> (r, s\<lparr>origins := (origins s)(dest := (origins s dest)\<lparr>mem := None\<rparr>), world := w\<rparr>))
      | None \<Rightarrow>
          (case cpu_new_buffer cfg (dma_of cfg bk) sz dest storage (world s) of (r, w) \<Rightarrow> (r, s\<lparr>world := w\<rparr>)))"

definition cpu_onAcquire ::
  "'w cpu_config \<Rightarrow> backend_id \<Rightarrow> nat \<Rightarrow> storage_type \<Rightarrow> (cpu_mem, 'w cpu_world) pipe \<Rightarrow>
     cpu_mem option \<times> (cpu_mem, 'w cpu_world) pipe" where
  "cpu_onAcquire cfg bk t storage s = cpu_allocBuffer cfg bk (cpu_getTensorSize cfg t (tens s t)) t storage s"

section \<open>Begin and end of a resize\<close>

definition cpu_onResizeBegin :: "'w cpu_config \<Rightarrow> backend_id \<Rightarrow> 'w cpu_world \<Rightarrow> 'w cpu_world" where
  "cpu_onResizeBegin cfg bk w =
     w\<lparr>dynamicAllocator := (dynamicAllocator w)(dma_of cfg bk := defer_reset (dynamicAllocator w (dma_of cfg bk)))\<rparr>"

definition cache_release :: "nat \<Rightarrow> 'w cpu_world \<Rightarrow> 'w cpu_world" where
  "cache_release a w = (fold cpu_free (formatCache w a) w)\<lparr>formatCache := (formatCache w)(a := [])\<rparr>"

text \<open>The callback of the allocator stores the address of the data in the tensor.\<close>

definition apply_host :: "addr \<Rightarrow> nat \<Rightarrow> nat \<Rightarrow> (nat \<Rightarrow> addr option) \<times> 'w \<Rightarrow> (nat \<Rightarrow> addr option) \<times> 'w" where
  "apply_host p off t = (\<lambda>(h, r). (cpu_apply p off t h, r))"

text \<open>\<open>compute\<close> returns in every state a client can reach; running out of fuel is no result of the code.\<close>

definition cpu_onResizeEnd :: "'w cpu_config \<Rightarrow> backend_id \<Rightarrow> 'w cpu_world \<Rightarrow> error_code \<times> 'w cpu_world" where
  "cpu_onResizeEnd cfg bk w0 =
     (let a = dma_of cfg bk;
          w = cache_release a w0;
          on_alloc = (\<lambda>sz al (h, r). case buffer_onAlloc cfg sz al r of (c, r') \<Rightarrow> (c, (h, r')));
          on_release = (\<lambda>c (h, r). (h, buffer_onRelease cfg c r))
      in case defer_compute on_alloc on_release apply_host (dynamicAllocator w a) (buffers w (buffer_of cfg a)) (hosts w, roots w) of
           Some (e, s, b, (h, r)) \<Rightarrow>
             (e, w\<lparr>dynamicAllocator := (dynamicAllocator w)(a := s), buffers := (buffers w)(buffer_of cfg a := b),
                   hosts := h, roots := r\<rparr>)
         | None \<Rightarrow> (INVALID_VALUE, w))"

definition cpu_backends :: "'w cpu_config \<Rightarrow> (cpu_mem, 'w cpu_world) backend_ops" where
  "cpu_backends cfg =
     \<lparr>onAcquire = cpu_onAcquire cfg, free_mem = cpu_free, onResize = kernel cfg,
      onResizeBegin = cpu_onResizeBegin cfg, onResizeEnd = cpu_onResizeEnd cfg\<rparr>"

end
