(* ===== verification/Pipeline_Safety.thy ===== *)
theory Pipeline_Safety
  imports Pipeline_CPU
begin

text \<open>
  The CPU backend keeps the contract of a planner: what is out is a run of each deferred allocator. With
  the guarantees of the allocator this gives the safety of a whole plan: offsets of objects that tensors
  hold at the same command never overlap.
\<close>

section \<open>Frames of the deferred allocator\<close>

lemma align_frames [simp]:
  "mAlign (insert_after c p s) = mAlign s" "mAlign (erase_node c s) = mAlign s"
  "mAlign (insertFree n s) = mAlign s" "mAlign (eraseFree n s) = mAlign s"
  "mAlign (snd (fuse_to_left l r s)) = mAlign s" "mAlign (upd_node n f s) = mAlign s"
  "mAlign (chunk_attach ch t s) = mAlign s" "mPtr (chunk_attach ch t s) = mPtr s"
  by (auto simp: insert_after_def erase_node_def insertFree_def eraseFree_def fuse_to_left_def upd_node_def
      chunk_attach_def Let_def split: option.split)

lemma barrier_frames [simp]:
  "mBarrier (chunk_attach ch t s) = mBarrier s" "mBarrier (upd_node n f s) = mBarrier s"
  "mBarrier (insert_after c p s) = mBarrier s" "mBarrier (erase_node c s) = mBarrier s"
  "mBarrier (insertFree n s) = mBarrier s" "mBarrier (eraseFree n s) = mBarrier s"
  "mBarrier (snd (fuse_to_left l r s)) = mBarrier s"
  by (auto simp: insert_after_def erase_node_def insertFree_def eraseFree_def fuse_to_left_def upd_node_def
      chunk_attach_def Let_def split: option.split)

lemma defer_alloc_align: "mAlign (snd (defer_alloc a sep al s)) = mAlign s"
  by (simp add: defer_alloc_def Let_def createMemNode_def)

lemma free_side_frames [simp]:
  "mAlign (snd (free_left n s)) = mAlign s" "mBarrier (snd (free_left n s)) = mBarrier s"
  "mAlign (snd (free_right r n s)) = mAlign s" "mBarrier (snd (free_right r n s)) = mBarrier s"
  by (simp_all add: free_left_def free_right_def split: option.split)

lemma defer_free_now_frames: "mAlign (defer_free_now n s) = mAlign s \<and> mBarrier (defer_free_now n s) = mBarrier s"
proof -
  obtain m s1 where 1: "free_left n s = (m, s1)" by fastforce
  obtain k s2 where 2: "free_right (nright (node s n)) m s1 = (k, s2)" by fastforce
  have "mAlign s1 = mAlign s \<and> mBarrier s1 = mBarrier s" using free_side_frames(1,2) [of n s] 1 by simp
  moreover have "mAlign s2 = mAlign s1 \<and> mBarrier s2 = mBarrier s1"
    using free_side_frames(3,4) [of "nright (node s n)" m s1] 2 by simp
  ultimately show ?thesis by (simp add: defer_free_now_eq 1 2)
qed

lemma defer_free_frames: "mAlign (snd (defer_free c s)) = mAlign s" "mBarrier (snd (defer_free c s)) = mBarrier s"
  using defer_free_now_frames by (auto simp: defer_free_def split: option.split)

section \<open>One pool\<close>

definition cpu_pool :: "cpu_mem \<Rightarrow> nat option" where
  "cpu_pool m = (case mAllocator m of Dynamic_allocator a \<Rightarrow> Some a | _ \<Rightarrow> None)"

lemma cpu_pool_Some: "cpu_pool m = Some a \<longleftrightarrow> mAllocator m = Dynamic_allocator a"
  by (simp add: cpu_pool_def split: allocator_ref.split)

definition on_pool :: "nat \<Rightarrow> cpu_mem set \<Rightarrow> cpu_mem set" where
  "on_pool a L = {m \<in> L. cpu_pool m = Some a}"

text \<open>A memory object as the chunk it owns, with the size the allocator has rounded up.\<close>

definition mem_node_of :: "cpu_mem \<Rightarrow> nat" where
  "mem_node_of m = the (cnode (mChunk m))"

definition blk :: "nat \<Rightarrow> cpu_mem \<Rightarrow> nat \<times> nat" where
  "blk al m = (mem_node_of m, up_div (mSize m) al * al)"

definition pairs_on :: "nat \<Rightarrow> nat \<Rightarrow> (cpu_mem \<times> cpu_mem) set \<Rightarrow> ((nat \<times> nat) \<times> (nat \<times> nat)) set" where
  "pairs_on al a C = {(blk al x, blk al y) | x y. (x, y) \<in> C \<and> cpu_pool x = Some a \<and> cpu_pool y = Some a}"

definition pool_held :: "nat \<Rightarrow> nat \<Rightarrow> defer_state \<Rightarrow> cpu_mem set \<Rightarrow> (cpu_mem \<times> cpu_mem) set \<Rightarrow> bool" where
  "pool_held al a s L C \<longleftrightarrow> 0 < al \<and> mAlign s = al \<and> \<not> mBarrier s \<and> cnode (mPtr s) = None \<and>
     (\<forall>m \<in> on_pool a L. mChunk m = node_chunk (mem_node_of m)) \<and> inj_on mem_node_of (on_pool a L) \<and>
     (\<exists>A. defer_run s (blk al ` on_pool a L) (pairs_on al a C) A \<and> (\<forall>(n, z) \<in> A. 0 < z))"

lemma on_pool_insert:
  "on_pool a (insert m L) = (if cpu_pool m = Some a then insert m (on_pool a L) else on_pool a L)"
  by (auto simp: on_pool_def)

lemma on_pool_diff: "on_pool a (L - {m}) = on_pool a L - {m}"
  by (auto simp: on_pool_def)

lemma pairs_on_Un: "pairs_on al a (C \<union> D) = pairs_on al a C \<union> pairs_on al a D"
  by (auto simp: pairs_on_def)

lemma pairs_on_new:
  "pairs_on al a {(x, m) | x. x \<in> L \<and> cpu_pool x = cpu_pool m} =
     (if cpu_pool m = Some a then {(x, blk al m) | x. x \<in> blk al ` on_pool a L} else {})"
  unfolding pairs_on_def on_pool_def by (auto; metis)

text \<open>A pool does not notice what happens to objects of another.\<close>

lemma pool_held_cong:
  "on_pool a L' = on_pool a L \<Longrightarrow> pairs_on al a C' = pairs_on al a C \<Longrightarrow> pool_held al a s L' C' = pool_held al a s L C"
  by (simp add: pool_held_def)

lemma run_used:
  assumes "defer_run s L C A"
  obtains bs where "rep s bs" and "L \<subseteq> used_blks bs"
proof -
  from defer_run_inv [OF assms] obtain bs where "run_inv s L C A bs" by blast
  then show ?thesis by (intro that [of bs]) (auto simp: run_inv_def)
qed

lemma held_alloc_request:
  assumes h: "pool_held al a s L C" and eq: "defer_alloc sz sep 0 s = (c, s')"
    and m: "m = \<lparr>mAllocator = Dynamic_allocator a, mChunk = c, mSize = sz\<rparr>" and pos: "0 < sz"
  shows "c = node_chunk (mem_node_of m)" and "m \<notin> L"
    and "pool_held al a (chunk_attach c t s') (insert m L) (C \<union> {(x, m) | x. x \<in> L \<and> cpu_pool x = cpu_pool m})"
proof -
  from h obtain A where run: "defer_run s (blk al ` on_pool a L) (pairs_on al a C) A" and A: "\<forall>(n, z) \<in> A. 0 < z"
    and al0: "0 < al" and al: "mAlign s = al" and nb: "\<not> mBarrier s" by (auto simp: pool_held_def)
  from run_used [OF run] obtain bs where rep: "rep s bs" and sub: "blk al ` on_pool a L \<subseteq> used_blks bs" .
  from alloc_used [OF rep eq refl] obtain n where c: "c = node_chunk n" and new: "n \<notin> fst ` used_blks bs" by metis
  have n: "mem_node_of m = n" by (simp add: m c mem_node_of_def node_chunk_def)
  show "c = node_chunk (mem_node_of m)" by (simp add: n c)
  have pm: "cpu_pool m = Some a" by (simp add: m cpu_pool_def)
  have fresh: "mem_node_of x \<noteq> n" if "x \<in> on_pool a L" for x
  proof
    assume "mem_node_of x = n"
    moreover have "blk al x \<in> used_blks bs" using sub that by blast
    ultimately show False using new by (force simp: blk_def)
  qed
  show "m \<notin> L" using fresh [of m] n pm by (auto simp: on_pool_def)
  have z: "blk al m = (n, defer_alloc_size sz 0 s)"
    by (simp add: blk_def n defer_alloc_size_def Let_def al) (simp add: m)
  let ?C = "C \<union> {(x, m) | x. x \<in> L \<and> cpu_pool x = cpu_pool m}"
  have pairs: "pairs_on al a ?C = pairs_on al a C \<union> {(x, blk al m) | x. x \<in> blk al ` on_pool a L}"
    using pm unfolding pairs_on_Un pairs_on_new by (simp only: if_True simp_thms)
  have "cnode c = Some n" by (simp add: c node_chunk_def)
  from run_alloc [OF run eq this refl, folded z, folded pairs]
  have "defer_run s' (blk al ` on_pool a (insert m L)) (pairs_on al a ?C) (insert (blk al m) A)"
    using pm by (simp add: on_pool_insert)
  from run_attach [OF this, of n "snd (blk al m)" t]
  have "defer_run (chunk_attach c t s') (blk al ` on_pool a (insert m L)) (pairs_on al a ?C) (insert (blk al m) A)"
    using pm z by (simp add: on_pool_insert c)
  moreover have "mAlign s' = al" "\<not> mBarrier s'" "mPtr s' = mPtr s"
    using defer_alloc_align [of sz sep 0 s] defer_alloc_frame(1) [of sz sep 0 s] defer_alloc_mPtr [of sz sep 0 s]
      eq al nb by simp_all
  moreover have "mem_node_of m \<notin> mem_node_of ` on_pool a L" unfolding n using fresh by (metis imageE)
  then have "inj_on mem_node_of (on_pool a (insert m L))"
    using h pm by (auto simp: pool_held_def on_pool_insert)
  moreover have "0 < up_div sz al * al" using up_div_ge [OF al0, of sz] pos by linarith
  then have "0 < snd (blk al m)" unfolding blk_def m by simp
  then have "\<forall>(n, z) \<in> insert (blk al m) A. 0 < z" using A by (auto split: prod.split)
  ultimately show "pool_held al a (chunk_attach c t s') (insert m L) ?C"
    using h pm c n unfolding pool_held_def by (auto simp: on_pool_insert m)
qed

lemma pool_free:
  assumes h: "pool_held al a s L C" and m: "m \<in> L" "cpu_pool m = Some a"
  shows "pool_held al a (snd (defer_free (mChunk m) s)) (L - {m}) C"
proof -
  from h obtain A where run: "defer_run s (blk al ` on_pool a L) (pairs_on al a C) A" and A: "\<forall>(n, z) \<in> A. 0 < z"
    by (auto simp: pool_held_def)
  have mp: "m \<in> on_pool a L" using m by (simp add: on_pool_def)
  have inj: "inj_on (blk al) (on_pool a L)" and c: "mChunk m = node_chunk (mem_node_of m)"
    using h mp by (auto simp: pool_held_def inj_on_def blk_def)
  obtain ok s' where f: "defer_free (node_chunk (mem_node_of m)) s = (ok, s')" by fastforce
  have "(mem_node_of m, up_div (mSize m) al * al) \<in> blk al ` on_pool a L"
    using mp by (auto simp: blk_def)
  from run_free [OF run this f]
  have "defer_run s' (blk al ` on_pool a L - {blk al m}) (pairs_on al a C) A" by (simp add: blk_def)
  moreover have "blk al ` on_pool a L - {blk al m} = blk al ` on_pool a (L - {m})"
    using inj mp by (auto simp: on_pool_diff inj_on_def)
  ultimately have "defer_run s' (blk al ` on_pool a (L - {m})) (pairs_on al a C) A" by simp
  then show ?thesis
    using h f A defer_free_frames [of "mChunk m" s] defer_free_mPtr [of "mChunk m" s] unfolding pool_held_def
    by (auto simp: c on_pool_diff inj_on_def)
qed

section \<open>The world of the CPU backend\<close>

definition cpu_cached :: "'w cpu_config \<Rightarrow> 'w cpu_world \<Rightarrow> cpu_mem set" where
  "cpu_cached cfg w = (\<Union>bk. set (formatCache w (dma_of cfg bk)))"

text \<open>A root allocator gives out plain pointers.\<close>

definition buffers_ok :: "'w cpu_config \<Rightarrow> 'w cpu_world \<Rightarrow> bool" where
  "buffers_ok cfg w \<longleftrightarrow> (\<forall>bk. cnode (current (buffers w (buffer_of cfg (dma_of cfg bk)))) = None)"

definition cpu_held ::
  "'w cpu_config \<Rightarrow> nat \<Rightarrow> 'w cpu_world \<Rightarrow> cpu_mem set \<Rightarrow> (cpu_mem \<times> cpu_mem) set \<Rightarrow> bool" where
  "cpu_held cfg al w L C \<longleftrightarrow> buffers_ok cfg w \<and>
     (\<forall>m \<in> L. 0 < mSize m \<and> (\<exists>bk. cpu_pool m = Some (dma_of cfg bk))) \<and>
     (\<forall>(x, y) \<in> C. 0 < mSize x \<and> 0 < mSize y) \<and>
     (\<forall>x \<in> L. \<forall>y \<in> L. x \<noteq> y \<longrightarrow> cpu_pool x = cpu_pool y \<longrightarrow> (x, y) \<in> C \<or> (y, x) \<in> C) \<and>
     (\<forall>bk. pool_held al (dma_of cfg bk) (dynamicAllocator w (dma_of cfg bk)) L C) \<and>
     (\<forall>bk. distinct (formatCache w (dma_of cfg bk)) \<and>
        (\<forall>m \<in> set (formatCache w (dma_of cfg bk)). cpu_pool m = Some (dma_of cfg bk)))"

text \<open>The state in which a plan may begin: nothing is cached, and the allocators have not been misused.\<close>

definition cpu_ready :: "'w cpu_config \<Rightarrow> nat \<Rightarrow> 'w cpu_world \<Rightarrow> bool" where
  "cpu_ready cfg al w \<longleftrightarrow> 0 < al \<and> buffers_ok cfg w \<and>
     (\<forall>bk. mAlign (dynamicAllocator w (dma_of cfg bk)) = al \<and> cnode (mPtr (dynamicAllocator w (dma_of cfg bk))) = None \<and>
        formatCache w (dma_of cfg bk) = [])"

lemma cpu_held_cong:
  "dynamicAllocator w' = dynamicAllocator w \<Longrightarrow> formatCache w' = formatCache w \<Longrightarrow> buffers w' = buffers w \<Longrightarrow>
     cpu_held cfg al w' L C = cpu_held cfg al w L C"
  by (simp add: cpu_held_def buffers_ok_def)

lemma cpu_cached_cong: "formatCache w' = formatCache w \<Longrightarrow> cpu_cached cfg w' = cpu_cached cfg w"
  by (simp add: cpu_cached_def)

text \<open>A step that works on the pool \<open>a\<close> alone.\<close>

lemma cpu_held_pool:
  assumes h: "cpu_held cfg al w L C" and a: "a = dma_of cfg bk"
    and d: "\<And>b. b \<noteq> a \<Longrightarrow> dynamicAllocator w' b = dynamicAllocator w b" and f: "formatCache w' = formatCache w"
    and bf: "buffers w' = buffers w"
    and p: "pool_held al a (dynamicAllocator w' a) L' C'"
    and others: "\<And>b. b \<noteq> a \<Longrightarrow> on_pool b L' = on_pool b L \<and> pairs_on al b C' = pairs_on al b C"
    and dyn: "\<And>m. m \<in> L' \<Longrightarrow> m \<in> L \<or> 0 < mSize m \<and> cpu_pool m = Some a"
    and pos: "\<forall>(x, y) \<in> C'. 0 < mSize x \<and> 0 < mSize y"
    and co: "\<And>x y. x \<in> L' \<Longrightarrow> y \<in> L' \<Longrightarrow> x \<noteq> y \<Longrightarrow> cpu_pool x = cpu_pool y \<Longrightarrow> (x, y) \<in> C' \<or> (y, x) \<in> C'"
  shows "cpu_held cfg al w' L' C'"
proof -
  have "pool_held al b (dynamicAllocator w' b) L' C'" if b: "b = dma_of cfg bk'" for b bk'
  proof (cases "b = a")
    case False
    have "pool_held al b (dynamicAllocator w b) L C" using h b by (simp add: cpu_held_def)
    then show ?thesis using pool_held_cong [of b L' L al C' C] others [OF False] d [OF False] by simp
  qed (use p in simp)
  moreover have "0 < mSize m \<and> (\<exists>bk. cpu_pool m = Some (dma_of cfg bk))" if "m \<in> L'" for m
    using dyn [OF that] h a by (auto simp: cpu_held_def)
  ultimately show ?thesis using h co pos by (simp add: cpu_held_def buffers_ok_def f bf)
qed

lemma pairs_on_other: "cpu_pool m = Some a \<Longrightarrow> b \<noteq> a \<Longrightarrow>
    pairs_on al b (C \<union> {(x, m) | x. x \<in> L \<and> cpu_pool x = cpu_pool m}) = pairs_on al b C"
  unfolding pairs_on_Un pairs_on_new by simp

text \<open>Static memory leaves the dynamic allocators alone.\<close>

lemma cpu_alloc_static_frame:
  assumes "cpu_alloc_static cfg sz w = (c, ref, w')"
  shows "dynamicAllocator w' = dynamicAllocator w" and "formatCache w' = formatCache w" and "buffers w' = buffers w"
    and "ref = Static_allocator \<or> ref = Static_raw"
  using assms by (auto simp: cpu_alloc_static_def Let_def split: prod.splits option.splits if_splits)

lemma cpu_new_buffer_dynamic:
  assumes new: "cpu_new_buffer cfg a sz t st w = (Some m, w')" and p: "cpu_pool m = Some b"
    and a: "a = dma_of cfg bk" and h: "cpu_held cfg al w L C"
  shows "st \<noteq> STATIC \<and> m \<notin> L \<and> cpu_held cfg al w' (insert m L) (C \<union> {(x, m) | x. x \<in> L \<and> cpu_pool x = cpu_pool m})"
proof -
  let ?C = "C \<union> {(x, m) | x. x \<in> L \<and> cpu_pool x = cpu_pool m}"
  have st: "st = DYNAMIC \<or> st = DYNAMIC_SEPERATE"
    using new p by (cases st)
      (auto simp: cpu_new_buffer_def Let_def null_chunk_def chunk_invalid_def cpu_pool_def
        split: prod.splits if_splits dest!: cpu_alloc_static_frame(4))
  define sep where "sep = (st = DYNAMIC_SEPERATE)"
  obtain c s where al: "defer_alloc sz sep 0 (dynamicAllocator w a) = (c, s)" by fastforce
  have ns: "st \<noteq> STATIC" using st by auto
  have m: "m = \<lparr>mAllocator = Dynamic_allocator a, mChunk = c, mSize = sz\<rparr>"
    and w': "dynamicAllocator w' = (dynamicAllocator w)(a := chunk_attach c t s)" "formatCache w' = formatCache w"
      "buffers w' = buffers w"
    using new st al ns
    by (auto simp: cpu_new_buffer_def cpu_alloc_dynamic_def Let_def sep_def split: if_splits)
  moreover have "cpu_new_buffer cfg a 0 t st w \<noteq> (Some m, w')" by (simp add: cpu_new_buffer_def Let_def)
  ultimately have pa: "cpu_pool m = Some a" and sz: "0 < mSize m"
    using new by (cases "sz = 0"; simp add: cpu_pool_def)+
  have "pool_held al a (dynamicAllocator w a) L C" using h a by (simp add: cpu_held_def)
  note pool = held_alloc_request [OF this al m sz [unfolded m, simplified]]
  have co: "(x, y) \<in> ?C \<or> (y, x) \<in> ?C"
    if xy: "x \<in> insert m L" "y \<in> insert m L" "x \<noteq> y" "cpu_pool x = cpu_pool y" for x y
  proof (cases "x = m \<or> y = m")
    case False
    then have "(x, y) \<in> C \<or> (y, x) \<in> C" using xy h by (simp add: cpu_held_def)
    then show ?thesis by blast
  qed (use xy in auto)
  have "cpu_held cfg al w' (insert m L) ?C"
  proof (rule cpu_held_pool [OF h a _ w'(2,3) _ _ _ _ co])
    show "pool_held al a (dynamicAllocator w' a) (insert m L) ?C" using pool(3) by (simp add: w')
    show "b \<noteq> a \<Longrightarrow> on_pool b (insert m L) = on_pool b L \<and> pairs_on al b ?C = pairs_on al b C" for b
      using pairs_on_other [OF pa, of b al C L] pa by (simp only: on_pool_insert) simp
    show "\<forall>(x, y) \<in> ?C. 0 < mSize x \<and> 0 < mSize y" using h sz by (auto simp: cpu_held_def)
  qed (use pa sz in \<open>auto simp: w'\<close>)
  then show ?thesis using ns pool(2) by simp
qed

lemma cpu_new_buffer_other:
  assumes new: "cpu_new_buffer cfg a sz t st w = (r, w')" and r: "r = None \<or> (\<exists>m. r = Some m \<and> cpu_pool m = None)"
  shows "dynamicAllocator w' = dynamicAllocator w" and "formatCache w' = formatCache w" and "buffers w' = buffers w"
proof -
  have c: "\<not> chunk_invalid (fst (defer_alloc z sep 0 s))" for z sep s
    by (simp add: defer_alloc_def Let_def createMemNode_def node_chunk_def chunk_invalid_def)
  have "dynamicAllocator w' = dynamicAllocator w \<and> formatCache w' = formatCache w \<and> buffers w' = buffers w"
  proof (cases "sz = 0 \<or> st = DYNAMIC_IN_EXECUTION")
    case True
    have "cpu_new_buffer cfg a sz t DYNAMIC_IN_EXECUTION w = (None, w\<lparr>cpuDynamicNode := (cpuDynamicNode w)(t := None)\<rparr>)"
      by (simp add: cpu_new_buffer_def Let_def null_chunk_def chunk_invalid_def)
    moreover have "cpu_new_buffer cfg a 0 t st w = (None, w\<lparr>cpuDynamicNode := (cpuDynamicNode w)(t := None)\<rparr>)"
      by (simp add: cpu_new_buffer_def Let_def)
    ultimately have "w' = w\<lparr>cpuDynamicNode := (cpuDynamicNode w)(t := None)\<rparr>" using True new by auto
    then show ?thesis by simp
  next
    case sz: False
    show ?thesis
    proof (cases "st = STATIC")
      case True
      obtain c1 ref w1 where al: "cpu_alloc_static cfg sz (w\<lparr>cpuDynamicNode := (cpuDynamicNode w)(t := None)\<rparr>) = (c1, ref, w1)"
        by (metis prod_cases3)
      note f = cpu_alloc_static_frame(1,2,3) [OF al]
      show ?thesis using new sz True f
        by (auto simp: cpu_new_buffer_def Let_def al split: if_splits)
    next
      case False
      then have "st = DYNAMIC \<or> st = DYNAMIC_SEPERATE" using sz by (cases st) auto
      moreover obtain c1 s1 where al: "defer_alloc sz (st = DYNAMIC_SEPERATE) 0 (dynamicAllocator w a) = (c1, s1)" by fastforce
      moreover have "\<not> chunk_invalid c1" using c [of sz "st = DYNAMIC_SEPERATE"] al by (metis fst_conv)
      ultimately have "\<exists>m. r = Some m \<and> cpu_pool m = Some a" using new sz
        by (auto simp: cpu_new_buffer_def cpu_alloc_dynamic_def Let_def cpu_pool_def)
      then show ?thesis using r by auto
    qed
  qed
  then show "dynamicAllocator w' = dynamicAllocator w" and "formatCache w' = formatCache w" and "buffers w' = buffers w"
    by simp_all
qed

lemma cpu_free_pool:
  assumes h: "cpu_held cfg al w L C" and m: "cpu_pool m = None \<or> m \<in> L"
  shows "cpu_held cfg al (cpu_free m w) (L - {m}) C"
proof (cases "cpu_pool m")
  case None
  then have "m \<notin> L" using h by (auto simp: cpu_held_def)
  moreover have "dynamicAllocator (cpu_free m w) = dynamicAllocator w" "formatCache (cpu_free m w) = formatCache w"
      "buffers (cpu_free m w) = buffers w"
    using None by (simp_all add: cpu_free_def cpu_pool_def split: allocator_ref.splits)
  ultimately show ?thesis using h cpu_held_cong by (metis Diff_empty Diff_insert0)
next
  case (Some a)
  then have mL: "m \<in> L" and ma: "mAllocator m = Dynamic_allocator a" using m Some by (simp_all add: cpu_pool_Some [symmetric])
  have "\<exists>bk. cpu_pool m = Some (dma_of cfg bk)" using h mL by (simp add: cpu_held_def)
  then obtain bk where a: "a = dma_of cfg bk" using Some by auto
  have "pool_held al a (dynamicAllocator w a) L C" using h a by (simp add: cpu_held_def)
  note pool = pool_free [OF this mL Some]
  have "(x, y) \<in> C \<or> (y, x) \<in> C"
    if "x \<in> L - {m}" "y \<in> L - {m}" "x \<noteq> y" "cpu_pool x = cpu_pool y" for x y
    using that h by (simp add: cpu_held_def)
  then show ?thesis
    using pool Some h by (intro cpu_held_pool [OF h a])
      (auto simp: cpu_free_def ma on_pool_diff on_pool_def cpu_held_def)
qed

lemma cpu_free_cache [simp]: "formatCache (cpu_free m w) = formatCache w"
  by (simp add: cpu_free_def split: allocator_ref.split)

lemma defer_reset_new: "cnode (mPtr s) = None \<Longrightarrow> defer_reset s = defer_new (mAlign s)"
  by (simp add: defer_reset_def defer_new_def null_chunk_def)

lemma cpu_begin:
  assumes "cpu_ready cfg al w"
  shows "cpu_held cfg al (cpu_onResizeBegin cfg Backup_backend (cpu_onResizeBegin cfg Main_backend w)) {} {}"
    and "formatCache (cpu_onResizeBegin cfg bk w') = formatCache w'"
proof -
  let ?w = "cpu_onResizeBegin cfg Backup_backend (cpu_onResizeBegin cfg Main_backend w)"
  have twice: "defer_reset (defer_new al) = defer_new al" by (simp add: defer_reset_new defer_new_def null_chunk_def)
  have "dynamicAllocator ?w (dma_of cfg bk) = defer_new al" for bk
    using assms twice by (cases bk) (auto simp: cpu_onResizeBegin_def cpu_ready_def defer_reset_new)
  moreover have "pool_held al a (defer_new al) {} {}" for a
    using run_new [of al] assms
    by (auto simp: pool_held_def cpu_ready_def on_pool_def pairs_on_def defer_new_def null_chunk_def)
  ultimately show "cpu_held cfg al ?w {} {}"
    using assms by (simp add: cpu_held_def cpu_ready_def buffers_ok_def) (simp add: cpu_onResizeBegin_def)
  show "formatCache (cpu_onResizeBegin cfg bk w') = formatCache w'" by (simp add: cpu_onResizeBegin_def)
qed

lemma cpu_onAcquire_None:
  assumes "cpu_onAcquire cfg bk t st s = (r, s')" and "mem (origins s t) = None"
  shows "s' = s\<lparr>world := world s'\<rparr>"
    and "cpu_new_buffer cfg (dma_of cfg bk) (cpu_getTensorSize cfg t (tens s t)) t st (world s) = (r, world s')"
  using assms by (auto simp: cpu_onAcquire_def cpu_allocBuffer_def split: prod.splits)

lemma cpu_new_buffer_cache:
  assumes "cpu_new_buffer cfg a sz t st w = (r, w')"
  shows "formatCache w' = formatCache w"
proof (cases "r = None \<or> (\<exists>m. r = Some m \<and> cpu_pool m = None)")
  case True
  then show ?thesis by (rule cpu_new_buffer_other(2) [OF assms])
next
  case False
  have "formatCache w1 = formatCache w" if "cpu_alloc_dynamic a sz sep w = (c, ref, w1)" for sep c ref w1 and w :: "'a cpu_world"
    using that by (auto simp: cpu_alloc_dynamic_def split: prod.splits)
  then show ?thesis using assms
    by (cases st) (auto simp: cpu_new_buffer_def Let_def split: prod.splits if_splits dest: cpu_alloc_static_frame(2))
qed

text \<open>The CPU backend keeps the contract of a planner, whatever its kernels are.\<close>

interpretation cpu: planner "cpu_backends cfg" "cpu_ready cfg al" "cpu_held cfg al" "cpu_cached cfg" cpu_pool
  for cfg :: "'w cpu_config" and al :: nat
proof
  fix p L C m
  assume "cpu_held cfg al p L C" and "m \<in> L"
  then show "cpu_pool m \<noteq> None" by (auto simp: cpu_held_def)
next
  fix p L C x y
  assume "cpu_held cfg al p L C" and "x \<in> L" and "y \<in> L" and "x \<noteq> y" and "cpu_pool x = cpu_pool y"
  then show "(x, y) \<in> C \<or> (y, x) \<in> C" by (simp add: cpu_held_def)
next
  fix p assume r: "cpu_ready cfg al p"
  show "cpu_held cfg al (onResizeBegin (cpu_backends cfg) Backup_backend (onResizeBegin (cpu_backends cfg) Main_backend p)) {} {}"
    using cpu_begin(1) [OF r] by (simp add: cpu_backends_def)
  show "cpu_cached cfg (onResizeBegin (cpu_backends cfg) Backup_backend (onResizeBegin (cpu_backends cfg) Main_backend p)) = {}"
    using r by (simp add: cpu_backends_def cpu_cached_def cpu_begin(2) [OF r] cpu_ready_def)
next
  fix bk t st s r and s' :: "(cpu_mem, 'w cpu_world) pipe"
  assume acq: "onAcquire (cpu_backends cfg) bk t st s = (r, s')" and none: "mem (origins s t) = None"
  then have acq: "cpu_onAcquire cfg bk t st s = (r, s')" by (simp add: cpu_backends_def)
  note n = cpu_onAcquire_None [OF acq none]
  have "formatCache (world s') = formatCache (world s)" by (rule cpu_new_buffer_cache [OF n(2)])
  then have "cpu_cached cfg (world s') = cpu_cached cfg (world s)" by (rule cpu_cached_cong)
  moreover have "origins s' = origins s" "describes s' = describes s" "tens s' = tens s" by (subst n(1), simp)+
  ultimately show "origins s' = origins s \<and> describes s' = describes s \<and> tens s' = tens s \<and>
      cpu_cached cfg (world s') = cpu_cached cfg (world s)" by simp
next
  fix bk t st s L C and s' :: "(cpu_mem, 'w cpu_world) pipe"
  assume acq: "onAcquire (cpu_backends cfg) bk t st s = (None, s')" and none: "mem (origins s t) = None"
    and h: "cpu_held cfg al (world s) L C"
  then have acq: "cpu_onAcquire cfg bk t st s = (None, s')" by (simp add: cpu_backends_def)
  show "cpu_held cfg al (world s') L C"
    using h cpu_held_cong cpu_new_buffer_other [OF cpu_onAcquire_None(2) [OF acq none]] by blast
next
  fix bk t st s m L C and s' :: "(cpu_mem, 'w cpu_world) pipe"
  assume acq: "onAcquire (cpu_backends cfg) bk t st s = (Some m, s')" and none: "mem (origins s t) = None"
    and m: "cpu_pool m = None" and h: "cpu_held cfg al (world s) L C"
  then have acq: "cpu_onAcquire cfg bk t st s = (Some m, s')" by (simp add: cpu_backends_def)
  show "cpu_held cfg al (world s') L C"
    using h m cpu_held_cong cpu_new_buffer_other [OF cpu_onAcquire_None(2) [OF acq none]] by blast
next
  fix bk t st s m L C and s' :: "(cpu_mem, 'w cpu_world) pipe"
  assume acq: "onAcquire (cpu_backends cfg) bk t st s = (Some m, s')" and none: "mem (origins s t) = None"
    and m: "cpu_pool m \<noteq> None" and h: "cpu_held cfg al (world s) L C"
  then have acq: "cpu_onAcquire cfg bk t st s = (Some m, s')" by (simp add: cpu_backends_def)
  from m obtain b where b: "cpu_pool m = Some b" by blast
  show "st \<noteq> STATIC \<and> m \<notin> L \<and> cpu_held cfg al (world s') (insert m L) (C \<union> {(x, m) | x. x \<in> L \<and> cpu_pool x = cpu_pool m})"
    by (rule cpu_new_buffer_dynamic [OF cpu_onAcquire_None(2) [OF acq none] b refl h])
next
  fix p L C m
  assume "cpu_held cfg al p L C" and "cpu_pool m = None \<or> m \<in> L"
  then show "cpu_held cfg al (free_mem (cpu_backends cfg) m p) (L - {m}) C"
    using cpu_free_pool by (simp add: cpu_backends_def)
next
  fix p :: "'w cpu_world" and m
  show "cpu_cached cfg (free_mem (cpu_backends cfg) m p) = cpu_cached cfg p"
    by (simp add: cpu_backends_def cpu_cached_def)
qed

section \<open>The end of a plan\<close>

lemma cpu_frees:
  assumes "cpu_held cfg al w L C" and "distinct ms" and "set ms \<subseteq> L"
  shows "cpu_held cfg al (fold cpu_free ms w) (L - set ms) C"
  using assms
proof (induction ms arbitrary: w L)
  case (Cons m ms)
  have "cpu_held cfg al (cpu_free m w) (L - {m}) C" using Cons.prems by (intro cpu_free_pool) auto
  from Cons.IH [OF this] Cons.prems show ?case by (simp add: Diff_insert2 [symmetric] subset_Diff_insert)
qed simp

lemma cpu_held_uncache:
  "cpu_held cfg al w L C \<Longrightarrow> cpu_held cfg al (w\<lparr>formatCache := (formatCache w)(a := [])\<rparr>) L C"
  by (simp add: cpu_held_def buffers_ok_def)

lemma cache_release_held:
  assumes h: "cpu_held cfg al w (cpu_cached cfg w) C" and a: "a = dma_of cfg bk"
  shows "cpu_held cfg al (cache_release a w) (cpu_cached cfg (cache_release a w)) C"
    and "on_pool a (cpu_cached cfg (cache_release a w)) = {}" and "formatCache (cache_release a w) a = []"
    and "\<And>b. formatCache w b = [] \<Longrightarrow> formatCache (cache_release a w) b = []"
proof -
  have fr: "formatCache (fold cpu_free ms w) = formatCache w" for ms by (induction ms arbitrary: w) simp_all
  have f: "formatCache (cache_release a w) = (formatCache w)(a := [])"
    by (simp add: cache_release_def)
  then show "formatCache (cache_release a w) a = []" by simp
  show "formatCache w b = [] \<Longrightarrow> formatCache (cache_release a w) b = []" for b by (simp add: f)
  have pool: "m \<in> set (formatCache w (dma_of cfg bk')) \<Longrightarrow> cpu_pool m = Some (dma_of cfg bk')" for m bk'
    using h by (simp add: cpu_held_def)
  have c: "cpu_cached cfg (cache_release a w) = cpu_cached cfg w - set (formatCache w a)"
  proof (rule set_eqI)
    fix x
    have one: "dma_of cfg bk' = a" if "x \<in> set (formatCache w (dma_of cfg bk'))" "x \<in> set (formatCache w a)" for bk'
      using pool [OF that(1)] pool [of x bk] that(2) a by simp
    have "x \<in> cpu_cached cfg (cache_release a w) \<longleftrightarrow> (\<exists>bk'. dma_of cfg bk' \<noteq> a \<and> x \<in> set (formatCache w (dma_of cfg bk')))"
      unfolding cpu_cached_def f by (auto split: if_splits)
    also have "\<dots> \<longleftrightarrow> (\<exists>bk'. x \<in> set (formatCache w (dma_of cfg bk'))) \<and> x \<notin> set (formatCache w a)"
      using one by metis
    finally show "x \<in> cpu_cached cfg (cache_release a w) \<longleftrightarrow> x \<in> cpu_cached cfg w - set (formatCache w a)"
      by (auto simp: cpu_cached_def)
  qed
  have "cpu_held cfg al (fold cpu_free (formatCache w a) w) (cpu_cached cfg w - set (formatCache w a)) C"
    using h a by (intro cpu_frees) (auto simp: cpu_held_def cpu_cached_def)
  from cpu_held_uncache [OF this, of a] show "cpu_held cfg al (cache_release a w) (cpu_cached cfg (cache_release a w)) C"
    unfolding c by (simp only: cache_release_def fr)
  show "on_pool a (cpu_cached cfg (cache_release a w)) = {}"
    unfolding c on_pool_def using pool a by (auto simp: cpu_cached_def)
qed

text \<open>The offset a plan gives to the chunk behind a memory object.\<close>

definition planned_offset :: "'w cpu_world \<Rightarrow> nat \<Rightarrow> cpu_mem \<Rightarrow> nat" where
  "planned_offset w a m = noffset (node (dynamicAllocator w a) (mem_node_of m))"

definition separated :: "'w cpu_world \<Rightarrow> nat \<Rightarrow> (cpu_mem \<times> cpu_mem) set \<Rightarrow> bool" where
  "separated w a C \<longleftrightarrow>
     (\<forall>x y. (x, y) \<in> C \<longrightarrow> cpu_pool x = Some a \<longrightarrow> cpu_pool y = Some a \<longrightarrow>
        disjoint_ranges (planned_offset w a x) (mSize x) (planned_offset w a y) (mSize y))"

lemma compute_separates:
  assumes run: "defer_run s {} C A" and nb: "\<not> mBarrier s"
    and comp: "defer_compute oa orel af s sb w = Some (NO_ERROR, s', sb', w')"
  shows "\<forall>((c, z), (d, y)) \<in> C. disjoint_ranges (noffset (node s' c)) z (noffset (node s' d)) y"
    and "\<forall>(c, z) \<in> A. z \<le> totalSize s'"
proof -
  from defer_run_inv [OF run] obtain bs where inv: "run_inv s {} C A bs" by blast
  have "(\<forall>((c, z), (d, y)) \<in> C. disjoint_ranges (noffset (node s' c)) z (noffset (node s' d)) y) \<and>
      (\<forall>(c, z) \<in> A. z \<le> totalSize s')"
  proof (cases "bs = []")
    case True
    then show ?thesis using run_inv_empty inv by blast
  next
    case False
    have "NO_ERROR \<noteq> INVALID_VALUE" by simp
    note safe = defer_plan_safe [OF run inv_free_list [OF inv nb False] comp this]
    show ?thesis using safe by fastforce
  qed
  then show "\<forall>((c, z), (d, y)) \<in> C. disjoint_ranges (noffset (node s' c)) z (noffset (node s' d)) y"
    and "\<forall>(c, z) \<in> A. z \<le> totalSize s'" by blast+
qed

lemma run_pairs: "defer_run s L C A \<Longrightarrow> C \<subseteq> A \<times> A"
  using defer_run_inv [of s L C A] by (auto simp: run_inv_def)

lemma compute_loop_frame:
  "compute_loop k c s = Some s' \<Longrightarrow> mAlign s' = mAlign s \<and> mPtr s' = mPtr s"
proof (induction k c s rule: compute_loop.induct)
  case (3 k c s)
  then show ?case by (auto simp: Let_def upd_node_def split: option.splits)
qed simp_all

lemma single_realloc_current:
  assumes "single_realloc oa orel z al sb w = (e, sb', w')"
  shows "current sb' = current sb \<or> (\<exists>z al v. current sb' = fst (oa z al v))"
proof (cases "currentSize sb < z")
  case True
  define v where "v = (if cfirst (current sb) \<noteq> 0 then orel (current sb) w else w)"
  have "current sb' = fst (oa z al v)"
    using assms True by (auto simp: single_realloc_def Let_def v_def split: prod.splits if_splits)
  then show ?thesis by blast
next
  case False
  then show ?thesis using assms by (simp add: single_realloc_def)
qed

lemma defer_apply_frame:
  assumes "defer_apply oa orel af s sb w = (NO_ERROR, s', sb', w')"
  shows "mAlign s' = mAlign s \<and> (mPtr s' = mPtr s \<or> mPtr s' = current sb') \<and>
     (current sb' = current sb \<or> (\<exists>z al v. current sb' = fst (oa z al v)))"
proof -
  obtain e b1 w1 where r: "single_realloc oa orel (totalSize s) (mAlign s) sb w = (e, b1, w1)" by (metis prod_cases3)
  show ?thesis
    using assms single_realloc_current [OF r]
    by (simp add: defer_apply_def r Let_def split: if_splits) auto
qed

lemma defer_compute_frame:
  assumes "defer_compute oa orel af s sb w = Some (NO_ERROR, s', sb', w')"
  shows "mAlign s' = mAlign s \<and> (mPtr s' = mPtr s \<or> mPtr s' = current sb') \<and>
     (current sb' = current sb \<or> (\<exists>z al v. current sb' = fst (oa z al v)))"
proof (cases "0 < totalSize s \<or> freeList s = [] \<or> length (freeList s) \<noteq> 1 \<or> mHead s \<noteq> mTail s")
  case True
  then have "mAlign s' = mAlign s \<and> mPtr s' = mPtr s \<and> sb' = sb"
    using assms by (auto simp: defer_compute_def Let_def split: if_splits)
  then show ?thesis by simp
next
  case False
  then obtain s1 where "compute_loop (Suc (Suc (length (chunks s)))) (mHead s) (s\<lparr>totalSize := 0\<rparr>) = Some s1"
    and app: "defer_apply oa orel af s1 sb w = (NO_ERROR, s', sb', w')"
    using assms by (auto simp: defer_compute_def Let_def split: if_splits option.splits)
  from compute_loop_frame [OF this(1)] defer_apply_frame [OF app] show ?thesis by auto
qed

text \<open>Giving back objects of one pool.\<close>

lemma frees_pool:
  assumes "\<forall>m \<in> set ms. cpu_pool m = Some b"
  shows "dynamicAllocator (fold cpu_free ms w) =
     (dynamicAllocator w)(b := fold (\<lambda>m s. snd (defer_free (mChunk m) s)) ms (dynamicAllocator w b))"
  using assms by (induction ms arbitrary: w) (auto simp: cpu_free_def cpu_pool_Some)

lemma cache_release_dynamic:
  assumes "\<forall>m \<in> set (formatCache w b). cpu_pool m = Some b"
  shows "dynamicAllocator (cache_release b w) =
     (dynamicAllocator w)(b := fold (\<lambda>m s. snd (defer_free (mChunk m) s)) (formatCache w b) (dynamicAllocator w b))"
  using frees_pool [OF assms] by (simp add: cache_release_def)

lemma onResizeEnd_compute:
  assumes eq: "cpu_onResizeEnd cfg bk w0 = (NO_ERROR, w')" and a: "a = dma_of cfg bk"
  obtains oa orel v where
    "defer_compute oa orel apply_host (dynamicAllocator (cache_release a w0) a) (buffers (cache_release a w0) (buffer_of cfg a))
       (hosts (cache_release a w0), roots (cache_release a w0)) =
       Some (NO_ERROR, dynamicAllocator w' a, buffers w' (buffer_of cfg a), v)"
    and "\<And>b. b \<noteq> a \<Longrightarrow> dynamicAllocator w' b = dynamicAllocator (cache_release a w0) b"
    and "formatCache w' = formatCache (cache_release a w0)"
    and "\<And>i. i \<noteq> buffer_of cfg a \<Longrightarrow> buffers w' i = buffers (cache_release a w0) i"
    and "\<And>z al v. \<exists>r. fst (oa z al v) = fst (buffer_onAlloc cfg z al r)"
proof -
  let ?w = "cache_release a w0"
  define oa where "oa = (\<lambda>sz al (h :: nat \<Rightarrow> addr option, r). case buffer_onAlloc cfg sz al r of (c, r') \<Rightarrow> (c, (h, r')))"
  define orel where "orel = (\<lambda>c (h :: nat \<Rightarrow> addr option, r). (h, buffer_onRelease cfg c r))"
  let ?c = "defer_compute oa orel apply_host (dynamicAllocator ?w a) (buffers ?w (buffer_of cfg a)) (hosts ?w, roots ?w)"
  have eq: "(case ?c of Some (e, s, b, (h, r)) \<Rightarrow>
             (e, ?w\<lparr>dynamicAllocator := (dynamicAllocator ?w)(a := s), buffers := (buffers ?w)(buffer_of cfg a := b),
                   hosts := h, roots := r\<rparr>)
         | None \<Rightarrow> (INVALID_VALUE, ?w)) = (NO_ERROR, w')"
    using eq unfolding cpu_onResizeEnd_def Let_def a oa_def orel_def .
  then obtain e s b h r where c: "?c = Some (e, s, b, (h, r))" by (cases ?c) auto
  have e: "e = NO_ERROR" and w': "w' = ?w\<lparr>dynamicAllocator := (dynamicAllocator ?w)(a := s),
      buffers := (buffers ?w)(buffer_of cfg a := b), hosts := h, roots := r\<rparr>"
    using eq by (simp_all add: c)
  have "\<exists>r. fst (oa z al v) = fst (buffer_onAlloc cfg z al r)" for z al v
    by (cases v) (auto simp: oa_def split: prod.split intro: exI [of _ "snd v"])
  then show ?thesis using c by (intro that [of oa orel "(h, r)"]) (simp_all add: e w')
qed

lemma separates_pool:
  assumes h: "pool_held al a s L C" and none: "on_pool a L = {}"
    and comp: "defer_compute oa orel af s sb v = Some (NO_ERROR, dynamicAllocator w a, sb', v')"
    and pos: "\<forall>(x, y) \<in> C. 0 < mSize x \<and> 0 < mSize y"
  shows "separated w a C" and "pairs_on al a C \<noteq> {} \<Longrightarrow> 0 < totalSize (dynamicAllocator w a)"
proof -
  from h none obtain A where run: "defer_run s {} (pairs_on al a C) A" and nb: "\<not> mBarrier s" and al: "mAlign s = al"
    by (auto simp: pool_held_def)
  note sep = compute_separates [OF run nb comp]
  have ge: "mSize m \<le> up_div (mSize m) al * al" for m using up_div_ge h by (simp add: pool_held_def)
  have ca: "pairs_on al a C \<subseteq> A \<times> A" using run_pairs [OF run] .
  have both: "disjoint_ranges (planned_offset w a x) (mSize x) (planned_offset w a y) (mSize y) \<and>
      mSize x \<le> totalSize (dynamicAllocator w a)"
    if "(x, y) \<in> C" "cpu_pool x = Some a" "cpu_pool y = Some a" for x y
  proof -
    have "(blk al x, blk al y) \<in> pairs_on al a C" using that by (auto simp: pairs_on_def)
    moreover from this ca have "blk al x \<in> A" by blast
    ultimately show ?thesis using sep ge [of x] ge [of y]
      by (fastforce simp: blk_def planned_offset_def disjoint_ranges_def)
  qed
  show "separated w a C" using both by (simp add: separated_def)
  show "0 < totalSize (dynamicAllocator w a)" if "pairs_on al a C \<noteq> {}"
  proof -
    from that obtain x y where xy: "(x, y) \<in> C" "cpu_pool x = Some a" "cpu_pool y = Some a" by (auto simp: pairs_on_def)
    then have "0 < mSize x" using pos by auto
    then show ?thesis using both [OF xy] by simp
  qed
qed

text \<open>The end of the resize on both backends, which may share their allocator.\<close>

lemma cache_release_empty: "formatCache w a = [] \<Longrightarrow> cache_release a w = w"
  by (simp add: cache_release_def fun_upd_idem_iff)

lemma plan_end_separated:
  assumes h: "cpu_held cfg al (world s) (cpu_cached cfg (world s)) C"
    and eq: "plan_end (cpu_backends cfg) s = (NO_ERROR, s')"
  shows "separated (world s') (dma_of cfg bk) C" and "origins s' = origins s"
proof -
  let ?a = "dma_of cfg Main_backend" and ?b = "dma_of cfg Backup_backend"
  from eq obtain w1 where 1: "cpu_onResizeEnd cfg Main_backend (world s) = (NO_ERROR, w1)"
    and 2: "cpu_onResizeEnd cfg Backup_backend w1 = (NO_ERROR, world s')" and "origins s' = origins s"
    by (auto simp: plan_end_def cpu_backends_def split: prod.splits if_splits)
  then show "origins s' = origins s" by simp
  note r1 = cache_release_held [OF h refl, where bk = Main_backend]
  have pos: "\<forall>(x, y) \<in> C. 0 < mSize x \<and> 0 < mSize y" using h by (simp add: cpu_held_def)
  obtain oa orel v where c1: "defer_compute oa orel apply_host (dynamicAllocator (cache_release ?a (world s)) ?a)
       (buffers (cache_release ?a (world s)) (buffer_of cfg ?a)) (hosts (cache_release ?a (world s)), roots (cache_release ?a (world s)))
       = Some (NO_ERROR, dynamicAllocator w1 ?a, buffers w1 (buffer_of cfg ?a), v)"
    and d1: "\<And>b. b \<noteq> ?a \<Longrightarrow> dynamicAllocator w1 b = dynamicAllocator (cache_release ?a (world s)) b"
    and f1: "formatCache w1 = formatCache (cache_release ?a (world s))"
    using onResizeEnd_compute [OF 1 refl] by metis
  have "pool_held al ?a (dynamicAllocator (cache_release ?a (world s)) ?a) (cpu_cached cfg (cache_release ?a (world s))) C"
    using r1(1) by (simp add: cpu_held_def)
  note sep1 = separates_pool [OF this r1(2) c1 pos]
  obtain oa orel v where c2: "defer_compute oa orel apply_host (dynamicAllocator (cache_release ?b w1) ?b)
       (buffers (cache_release ?b w1) (buffer_of cfg ?b)) (hosts (cache_release ?b w1), roots (cache_release ?b w1))
       = Some (NO_ERROR, dynamicAllocator (world s') ?b, buffers (world s') (buffer_of cfg ?b), v)"
    and d2: "\<And>b. b \<noteq> ?b \<Longrightarrow> dynamicAllocator (world s') b = dynamicAllocator (cache_release ?b w1) b"
    using onResizeEnd_compute [OF 2 refl] by metis
  have "separated (world s') ?a C \<and> separated (world s') ?b C"
  proof (cases "?a = ?b")
    case True
    have "formatCache w1 ?b = []" using r1(3) f1 True by simp
    then have same: "cache_release ?b w1 = w1" by (rule cache_release_empty)
    have "separated (world s') ?a C"
    proof (cases "pairs_on al ?a C = {}")
      case True
      then have "\<not> ((x, y) \<in> C \<and> cpu_pool x = Some ?a \<and> cpu_pool y = Some ?a)" for x y
        unfolding pairs_on_def by blast
      then show ?thesis by (simp add: separated_def)
    next
      case False
      then have "dynamicAllocator (world s') ?a = dynamicAllocator w1 ?a"
        using sep1(2) c2 \<open>?a = ?b\<close> by (simp add: defer_compute_def same)
      then show ?thesis using sep1(1) by (simp add: separated_def planned_offset_def)
    qed
    then show ?thesis using True by simp
  next
    case False
    let ?w = "cache_release ?a (world s)"
    have pools: "\<forall>m \<in> set (formatCache ?w ?b). cpu_pool m = Some ?b" using r1(1) by (simp add: cpu_held_def)
    have dyn: "dynamicAllocator (cache_release ?b w1) c = (if c = ?b then dynamicAllocator (cache_release ?b ?w) c
        else dynamicAllocator w1 c)" for c
      using cache_release_dynamic [OF pools] cache_release_dynamic [of w1 ?b] pools f1 d1 False by simp
    note r2 = cache_release_held [OF r1(1) refl, where bk = Backup_backend]
    have "pool_held al ?b (dynamicAllocator (cache_release ?b w1) ?b) (cpu_cached cfg (cache_release ?b ?w)) C"
      using r2(1) by (simp add: cpu_held_def dyn)
    note sep2 = separates_pool(1) [OF this r2(2) c2 pos]
    have "dynamicAllocator (world s') ?a = dynamicAllocator w1 ?a" using d2 [OF False] dyn [of ?a] False by simp
    then show ?thesis using sep1(1) sep2 by (simp add: separated_def planned_offset_def)
  qed
  then show "separated (world s') (dma_of cfg bk) C" by (cases bk) simp_all
qed

end
