(* ===== verification/Pipeline_Ends.thy ===== *)
theory Pipeline_Ends
  imports Pipeline_Safety
begin

text \<open>
  The end of a plan on the CPU: after \<open>_allocForTensor\<close> every allocator is ready for the next plan, and the plan
  as a whole separates what tensors hold at the same command.
\<close>

section \<open>After the plan\<close>

definition roots_plain :: "'w cpu_config \<Rightarrow> bool" where
  "roots_plain cfg \<longleftrightarrow> (\<forall>sz al r. cnode (fst (buffer_onAlloc cfg sz al r)) = None)"

definition pool_ready :: "nat \<Rightarrow> defer_state \<Rightarrow> bool" where
  "pool_ready al s \<longleftrightarrow> mAlign s = al \<and> cnode (mPtr s) = None"

lemma cache_release_buffers [simp]: "buffers (cache_release a w) = buffers w"
proof -
  have "buffers (fold cpu_free ms w) = buffers w" for ms
    by (induction ms arbitrary: w) (simp_all add: cpu_free_def split: allocator_ref.split)
  then show ?thesis by (simp add: cache_release_def)
qed

lemma end_ready:
  assumes eq: "cpu_onResizeEnd cfg bk w0 = (NO_ERROR, w')" and a: "a = dma_of cfg bk"
    and p: "pool_ready al (dynamicAllocator (cache_release a w0) a)" and b: "buffers_ok cfg w0" and r: "roots_plain cfg"
  shows "pool_ready al (dynamicAllocator w' a)" and "buffers_ok cfg w'"
proof -
  obtain oa orel v where
    c: "defer_compute oa orel apply_host (dynamicAllocator (cache_release a w0) a) (buffers (cache_release a w0) (buffer_of cfg a))
       (hosts (cache_release a w0), roots (cache_release a w0)) =
       Some (NO_ERROR, dynamicAllocator w' a, buffers w' (buffer_of cfg a), v)"
    and o: "\<And>i. i \<noteq> buffer_of cfg a \<Longrightarrow> buffers w' i = buffers (cache_release a w0) i"
    and root: "\<And>z al v. \<exists>r. fst (oa z al v) = fst (buffer_onAlloc cfg z al r)"
    using onResizeEnd_compute [OF eq a] by metis
  note f = defer_compute_frame [OF c]
  have "cnode (fst (oa z al v)) = None" for z al v using root r unfolding roots_plain_def by metis
  moreover have "cnode (current (buffers w0 (buffer_of cfg a))) = None" using b a by (simp add: buffers_ok_def)
  ultimately have cur: "cnode (current (buffers w' (buffer_of cfg a))) = None" using f by auto
  then show "pool_ready al (dynamicAllocator w' a)" using f p by (auto simp: pool_ready_def)
  show "buffers_ok cfg w'"
    unfolding buffers_ok_def
  proof
    fix bk'
    show "cnode (current (buffers w' (buffer_of cfg (dma_of cfg bk')))) = None"
      using cur o [of "buffer_of cfg (dma_of cfg bk')"] b
      by (cases "buffer_of cfg (dma_of cfg bk') = buffer_of cfg a") (simp_all add: buffers_ok_def)
  qed
qed

lemma plan_end_ready:
  assumes h: "cpu_held cfg al (world s) (cpu_cached cfg (world s)) C"
    and eq: "plan_end (cpu_backends cfg) s = (NO_ERROR, s')" and r: "roots_plain cfg"
  shows "cpu_ready cfg al (world s')"
proof -
  let ?a = "dma_of cfg Main_backend" and ?b = "dma_of cfg Backup_backend"
  let ?w = "cache_release ?a (world s)"
  from eq obtain w1 where 1: "cpu_onResizeEnd cfg Main_backend (world s) = (NO_ERROR, w1)"
    and 2: "cpu_onResizeEnd cfg Backup_backend w1 = (NO_ERROR, world s')"
    by (auto simp: plan_end_def cpu_backends_def split: prod.splits if_splits)
  note r1 = cache_release_held [OF h refl, where bk = Main_backend]
  have ready: "pool_ready al (dynamicAllocator w (dma_of cfg bk))" if "cpu_held cfg al w L C" for w L bk
    using that by (simp add: cpu_held_def pool_held_def pool_ready_def)
  have ok: "buffers_ok cfg (world s)" using h by (simp add: cpu_held_def)
  note e1 = end_ready [OF 1 refl ready [OF r1(1)] ok r]
  obtain d1: "\<And>b. b \<noteq> ?a \<Longrightarrow> dynamicAllocator w1 b = dynamicAllocator ?w b" and f1: "formatCache w1 = formatCache ?w"
    using onResizeEnd_compute [OF 1 refl] by metis
  obtain d2: "\<And>b. b \<noteq> ?b \<Longrightarrow> dynamicAllocator (world s') b = dynamicAllocator (cache_release ?b w1) b"
    and f2: "formatCache (world s') = formatCache (cache_release ?b w1)"
    using onResizeEnd_compute [OF 2 refl] by metis
  have pools: "\<forall>m \<in> set (formatCache ?w ?b). cpu_pool m = Some ?b" using r1(1) by (simp add: cpu_held_def)
  have dyn: "dynamicAllocator (cache_release ?b w1) c = (if c = ?b \<and> ?a \<noteq> ?b then dynamicAllocator (cache_release ?b ?w) c
      else dynamicAllocator w1 c)" for c
  proof (cases "?a = ?b")
    case True
    then have "cache_release ?b w1 = w1" using r1(3) f1 by (intro cache_release_empty) simp
    then show ?thesis using True by simp
  next
    case False
    then show ?thesis using cache_release_dynamic [OF pools] cache_release_dynamic [of w1 ?b] pools f1 d1 by simp
  qed
  note r2 = cache_release_held [OF r1(1) refl, where bk = Backup_backend]
  have "pool_ready al (dynamicAllocator (cache_release ?b w1) ?b)"
    using ready [OF r2(1), of Backup_backend] e1(1) by (simp add: dyn) (metis)
  note e2 = end_ready [OF 2 refl this e1(2) r]
  have "pool_ready al (dynamicAllocator (world s') ?a)"
  proof (cases "?a = ?b")
    case False
    then show ?thesis using d2 [OF False] dyn [of ?a] e1(1) by simp
  qed (use e2(1) in simp)
  moreover have cache: "formatCache (world s') ?a = []" "formatCache (world s') ?b = []"
    using r1(3) f1 by (auto simp: f2 cache_release_def)
  moreover have "0 < al" using h by (simp add: cpu_held_def pool_held_def)
  moreover have "mAlign (dynamicAllocator (world s') (dma_of cfg bk)) = al \<and>
      cnode (mPtr (dynamicAllocator (world s') (dma_of cfg bk))) = None \<and> formatCache (world s') (dma_of cfg bk) = []" for bk
    using e2(1) calculation(1,2,3) by (cases bk) (simp_all add: pool_ready_def)
  ultimately show ?thesis using e2(2) by (simp add: cpu_ready_def)
qed

text \<open>The start of a plan: no tensor holds dynamic memory.\<close>

definition no_dynamic :: "(cpu_mem, 'w cpu_world) pipe \<Rightarrow> bool" where
  "no_dynamic s \<longleftrightarrow> (\<forall>t m. mem (origins s t) = Some m \<longrightarrow> cpu_pool m = None)"

lemma no_dynamic_mems: "no_dynamic s \<longleftrightarrow> cpu.dyn_mems s = {}"
  by (auto simp: no_dynamic_def cpu.dyn_mems_def)

text \<open>The state in which the kernel of command \<open>k\<close> runs.\<close>

definition at_kernel ::
  "'w cpu_config \<Rightarrow> plan_args \<Rightarrow> op_info list \<Rightarrow> (cpu_mem, 'w cpu_world) pipe \<Rightarrow> nat \<Rightarrow> (cpu_mem, 'w cpu_world) pipe" where
  "at_kernel cfg a infos s k =
     plan_state (cpu_backends cfg) a (work_commands infos) (plan_begin (cpu_backends cfg) infos s) k"

abbreviation cpu_kernels_ok :: "'w cpu_config \<Rightarrow> nat \<Rightarrow> bool" where
  "cpu_kernels_ok cfg al \<equiv> kernels_ok (cpu_backends cfg) (cpu_held cfg al) (cpu_cached cfg)"

lemma allocForTensor_parts:
  assumes "allocForTensor B a infos s = (NO_ERROR, s')"
  obtains s1 where "plan_commands B a (work_commands infos) (plan_begin B infos s) = (NO_ERROR, s1)"
    and "plan_end B (plan_recycle B a infos s1) = (NO_ERROR, s')"
  using assms by (auto simp: allocForTensor_def split: prod.splits if_splits)

lemma kept_until_read:
  assumes "cpu_kernels_ok cfg al" and "allocForTensor (cpu_backends cfg) a infos s = (NO_ERROR, s')"
    and "mem (origins (at_kernel cfg a infos s i) t) = Some m"
    and "j < length (work_commands infos)" and "t \<in> set (workInputs (work_commands infos ! j))" and "i \<le> k" and "k \<le> j"
  shows "mem (origins (at_kernel cfg a infos s k) t) = Some m"
proof -
  obtain s1 where "plan_commands (cpu_backends cfg) a (work_commands infos) (plan_begin (cpu_backends cfg) infos s) = (NO_ERROR, s1)"
    using allocForTensor_parts [OF assms(2)] by blast
  from cpu.plan_stable [OF assms(1) plan_begin_counted [folded cpu.inputs_of_def] this assms(3) [unfolded at_kernel_def] assms(4-7)]
  show ?thesis unfolding at_kernel_def .
qed

lemma plan_separated:
  assumes k: "cpu_kernels_ok cfg al" and r: "cpu_ready cfg al (world s)" and n: "no_dynamic s"
    and wf: "well_formed a infos s" and eq: "allocForTensor (cpu_backends cfg) a infos s = (NO_ERROR, s')"
  obtains C where "\<And>bk. separated (world s') (dma_of cfg bk) C"
    and "\<And>i. i < length (work_commands infos) \<Longrightarrow> cpu.coheld C (at_kernel cfg a infos s i)"
    and "no_dynamic s'" and "roots_plain cfg \<Longrightarrow> cpu_ready cfg al (world s')"
proof -
  let ?B = "cpu_backends cfg"
  obtain s1 where run: "plan_commands ?B a (work_commands infos) (plan_begin ?B infos s) = (NO_ERROR, s1)"
    and fin: "plan_end ?B (plan_recycle ?B a infos s1) = (NO_ERROR, s')"
    using allocForTensor_parts [OF eq] by blast
  let ?s2 = "plan_recycle ?B a infos s1"
  obtain C where h: "cpu_held cfg al (world ?s2) (cpu_cached cfg (world ?s2)) C" and d: "cpu.dyn_mems ?s2 = {}"
    and co: "\<forall>k < length (work_commands infos). cpu.coheld C (plan_state ?B a (work_commands infos) (plan_begin ?B infos s) k)"
    using cpu.plan_main [OF k r n [unfolded no_dynamic_mems] run wf] by blast
  have "no_dynamic s'"
    using d plan_end_separated(2) [OF h fin] by (simp add: no_dynamic_mems cpu.dyn_mems_def)
  then show ?thesis
    using that [of C] co plan_end_separated(1) [OF h fin] plan_end_ready [OF h fin] by (simp add: at_kernel_def)
qed

end
