(* ===== verification/Pipeline_Success.thy ===== *)
theory Pipeline_Success
  imports Pipeline_Ends
begin

text \<open>
  A plan of the CPU backend succeeds: deferred allocation cannot fail, and the end of the plan needs nothing
  but one block of the root allocator for each buffer that is too small.
\<close>

section \<open>Allocating never fails\<close>

lemma fold_pair_keeps:
  "(\<And>i u z. P (fst (f i (u, z))) = P u) \<Longrightarrow> P (fst (fold f is (t, z))) = P t"
proof (induction "is" arbitrary: t z)
  case (Cons i "is")
  then show ?case by (metis fold_simps(2) surj_pair fst_conv)
qed simp

lemma setLinearLayout_fields [simp]:
  "len_at (setLinearLayout t) j = len_at t j" "dimensions (setLinearLayout t) = dimensions t"
  "dimensionFormat (setLinearLayout t) = dimensionFormat t"
proof -
  show "len_at (setLinearLayout t) j = len_at t j"
    unfolding setLinearLayout_def
    by (rule fold_pair_keeps [where P = "\<lambda>u. len_at u j"]) (simp add: setStride_def Let_def len_at_def)
  show "dimensions (setLinearLayout t) = dimensions t"
    unfolding setLinearLayout_def
    by (rule fold_pair_keeps [where P = dimensions]) (simp add: setStride_def Let_def)
  show "dimensionFormat (setLinearLayout t) = dimensionFormat t"
    unfolding setLinearLayout_def
    by (rule fold_pair_keeps [where P = dimensionFormat]) (simp add: setStride_def Let_def)
qed

lemma linear_layout_size [simp]: "cpu_getTensorSize cfg t (setLinearLayout d) = cpu_getTensorSize cfg t d"
  unfolding cpu_getTensorSize_def cpu_getBytes_def by (simp only: setLinearLayout_fields setLinearLayout_type)

lemma cpu_new_buffer_succeeds:
  assumes "sz \<noteq> 0" and "st = DYNAMIC \<or> st = DYNAMIC_SEPERATE"
  shows "fst (cpu_new_buffer cfg a sz t st w) \<noteq> None"
proof -
  have c: "\<not> chunk_invalid (fst (defer_alloc z sep 0 s))" for z sep s
    by (simp add: defer_alloc_def Let_def createMemNode_def node_chunk_def chunk_invalid_def)
  obtain c1 s1 where al: "defer_alloc sz (st = DYNAMIC_SEPERATE) 0 (dynamicAllocator w a) = (c1, s1)" by fastforce
  moreover have "\<not> chunk_invalid c1" using c [of sz "st = DYNAMIC_SEPERATE"] al by (metis fst_conv)
  ultimately show ?thesis using assms
    by (auto simp: cpu_new_buffer_def cpu_alloc_dynamic_def Let_def)
qed

text \<open>The size of every operand is positive.\<close>

definition sizes_positive :: "'w cpu_config \<Rightarrow> nat set \<Rightarrow> (cpu_mem, 'w cpu_world) pipe \<Rightarrow> bool" where
  "sizes_positive cfg T s \<longleftrightarrow> (\<forall>t \<in> T. 0 < cpu_getTensorSize cfg t (tens s t))"

lemma cpu_acquire_succeeds:
  assumes st: "st = DYNAMIC \<or> st = DYNAMIC_SEPERATE" and none: "mem (origins s t) = None"
    and pos: "0 < cpu_getTensorSize cfg t (tens s t)"
  shows "\<exists>s'. onAcquireBuffer (cpu_backends cfg) bk t st s = (True, s') \<and> tens s' = tens s \<and> mem (origins s' t) \<noteq> None"
proof -
  obtain r s1 where acq: "cpu_onAcquire cfg bk t st s = (r, s1)" by fastforce
  note n = cpu_onAcquire_None [OF acq none]
  obtain m where r: "r = Some m" using cpu_new_buffer_succeeds [OF _ st] pos n(2) by (metis fst_conv neq0_conv not_None_eq)
  have o1: "origins s1 = origins s" "tens s1 = tens s" by (subst n(1), simp)+
  show ?thesis using none by (simp add: onAcquireBuffer_def cpu_backends_def acq r o1 Let_def)
qed

lemma allocTensor_succeeds:
  assumes dyn: "getTensorStorageType (desc s t) os \<noteq> STATIC" and pos: "sizes_positive cfg T s" and t: "t \<in> T"
  shows "\<exists>s'. allocTensor (cpu_backends cfg) bk os grp t s = (True, s') \<and> sizes_positive cfg T s' \<and>
     (group (desc s t) = grp \<longrightarrow> mem (origins s' t) \<noteq> None)"
proof (cases "group (desc s t) = grp \<and> mem (origins s t) = None")
  case True
  let ?s = "s\<lparr>tens := (tens s)(t := setLinearLayout (tens s t))\<rparr>"
  have st: "getTensorStorageType (desc s t) os = DYNAMIC \<or> getTensorStorageType (desc s t) os = DYNAMIC_SEPERATE"
    using dyn by (auto simp: getTensorStorageType_def split: if_splits)
  have "sizes_positive cfg T ?s" using pos by (simp add: sizes_positive_def)
  moreover from this have "\<exists>s'. onAcquireBuffer (cpu_backends cfg) bk t (getTensorStorageType (desc s t) os) ?s = (True, s') \<and>
      tens s' = tens ?s \<and> mem (origins s' t) \<noteq> None"
    using True t by (intro cpu_acquire_succeeds [OF st]) (auto simp: sizes_positive_def)
  ultimately show ?thesis using True by (auto simp: allocTensor_def sizes_positive_def)
next
  case False
  then show ?thesis using pos by (auto simp: allocTensor_def)
qed

lemma allocTensors_succeeds:
  assumes "\<And>s d. getTensorStorageType d os \<noteq> STATIC" and "sizes_positive cfg T s" and "set ts \<subseteq> T"
  shows "\<exists>s'. allocTensors (cpu_backends cfg) bk os grp ts s = (True, s') \<and> sizes_positive cfg T s'"
  using assms(2,3)
proof (induction ts arbitrary: s)
  case (Cons t ts)
  obtain s1 where "allocTensor (cpu_backends cfg) bk os grp t s = (True, s1)" and "sizes_positive cfg T s1"
    using allocTensor_succeeds [OF assms(1) Cons.prems(1), of t bk grp] Cons.prems(2) by auto
  with Cons.IH [of s1] Cons.prems(2) show ?case by simp
qed simp

lemma command_alloc_succeeds:
  assumes "\<not> outputStatic a" and pos: "sizes_positive cfg T s" and "operands c \<subseteq> T"
  shows "\<exists>s'. command_alloc (cpu_backends cfg) a c s = (True, s') \<and> sizes_positive cfg T s'"
proof -
  have st: "getTensorStorageType d (outputStatic a) \<noteq> STATIC" for d
    using assms(1) by (simp add: getTensorStorageType_def)
  let ?al = "\<lambda>ts s. allocTensors (cpu_backends cfg) (execution_backend c) (outputStatic a) (plan_group a) ts s"
  have sub: "set (workInputs c) \<subseteq> T" "set (workOutputs c) \<subseteq> T" using assms(3) by (auto simp: operands_def)
  have "\<exists>s1. (if allocInput a \<and> needAllocIO c then ?al (workInputs c) s else (True, s)) = (True, s1) \<and> sizes_positive cfg T s1"
    using allocTensors_succeeds [OF st pos sub(1)] pos by auto
  then obtain s1 where s1: "(if allocInput a \<and> needAllocIO c then ?al (workInputs c) s else (True, s)) = (True, s1)"
    and p1: "sizes_positive cfg T s1" by blast
  have "\<exists>s2. ?al (workOutputs c) s1 = (True, s2) \<and> sizes_positive cfg T s2"
    by (rule allocTensors_succeeds [OF st p1 sub(2)])
  then show ?thesis using s1 p1 by (auto simp: command_alloc_def Let_def simp del: if_split)
qed

section \<open>The commands\<close>

text \<open>Kernels that report no error, and a root allocator that always finds a block.\<close>

definition kernels_succeed :: "'w cpu_config \<Rightarrow> bool" where
  "kernels_succeed cfg \<longleftrightarrow> (\<forall>c s. fst (kernel cfg c s) = NO_ERROR)"

definition root_gives :: "'w cpu_config \<Rightarrow> bool" where
  "root_gives cfg \<longleftrightarrow> (\<forall>sz al r. cfirst (fst (buffer_onAlloc cfg sz al r)) \<noteq> 0)"

lemma command_resize_succeeds:
  assumes k: "cpu_kernels_ok cfg al" and ok: "kernels_succeed cfg"
  shows "\<exists>s'. command_resize (cpu_backends cfg) a c s = (NO_ERROR, s') \<and> tens s' = tens s"
proof (cases "cgroup c = plan_group a")
  case True
  obtain s' where "kernel cfg c s = (NO_ERROR, s')" using ok unfolding kernels_succeed_def by (metis prod.collapse)
  then have on: "onResize (cpu_backends cfg) c s = (NO_ERROR, s')" by (simp add: cpu_backends_def)
  then have "tens s' = tens s" using k unfolding kernels_ok_def by blast
  then show ?thesis using True on by (simp add: command_resize_def)
qed (simp add: command_resize_def)

lemma releases_tens: "tens (fold (releaseTensor B ai grp) ts s) = tens s"
proof (induction ts arbitrary: s)
  case (Cons t ts)
  have "tens (releaseTensor B ai grp t s) = tens s"
    by (rule releaseTensor_cases [of B ai grp t s]) simp_all
  with Cons show ?case by simp
qed simp

lemma plan_commands_succeed:
  assumes k: "cpu_kernels_ok cfg al" and ok: "kernels_succeed cfg" and os: "\<not> outputStatic a"
    and pos: "sizes_positive cfg T s" and T: "\<And>c. c \<in> set cs \<Longrightarrow> operands c \<subseteq> T"
  shows "\<exists>s'. plan_commands (cpu_backends cfg) a cs s = (NO_ERROR, s')"
  using pos T
proof (induction cs arbitrary: s)
  case (Cons c cs)
  have sub: "operands c \<subseteq> T" using Cons.prems(2) by simp
  obtain s1 where 1: "command_alloc (cpu_backends cfg) a c s = (True, s1)" and p1: "sizes_positive cfg T s1"
    using command_alloc_succeeds [OF os Cons.prems(1) sub] by blast
  obtain s2 where 2: "command_resize (cpu_backends cfg) a c s1 = (NO_ERROR, s2)" and t2: "tens s2 = tens s1"
    using command_resize_succeeds [OF k ok] by blast
  have "sizes_positive cfg T (command_release (cpu_backends cfg) a c s2)"
    using p1 by (simp add: sizes_positive_def command_release_def releases_tens t2)
  from Cons.IH [OF this] Cons.prems(2) show ?case by (simp add: 1 2)
qed simp

section \<open>The end of the plan\<close>

text \<open>An allocator nobody has used has no free chunk.\<close>

lemma run_unused:
  "defer_run s L C A \<Longrightarrow> A = {} \<Longrightarrow> freeList s = [] \<and> barrierFree s = []"
proof (induction rule: defer_run.induct)
  case (run_attach s L C A n z t)
  then show ?case using defer_run_inv [OF run_attach.hyps(1)] by (auto simp: run_inv_def)
next
  case (run_free s L C A n z ok s')
  then show ?case using defer_run_inv [OF run_free.hyps(1)] by (auto simp: run_inv_def)
qed (simp_all add: defer_new_def defer_barrierBegin_def defer_barrierEnd_def defer_release_def defer_reset_def)

lemma defer_compute_memory:
  assumes "defer_compute oa orel af s sb w = Some (OUT_OF_MEMORY, s', sb', w')"
  shows "\<exists>z al v. cfirst (fst (oa z al v)) = 0"
proof -
  have r: "\<exists>z al v. cfirst (fst (oa z al v)) = 0"
    if "single_realloc oa orel z al b v = (OUT_OF_MEMORY, b', v')" for z al b b' v v'
  proof -
    define u where "u = (if cfirst (current b) \<noteq> 0 then orel (current b) v else v)"
    have "cfirst (fst (oa z al u)) = 0"
      using that by (auto simp: single_realloc_def Let_def u_def split: if_splits prod.splits)
    then show ?thesis by blast
  qed
  have a: "\<exists>z al v. cfirst (fst (oa z al v)) = 0"
    if "defer_apply oa orel af s1 b v = (OUT_OF_MEMORY, s2, b', v')" for s1 b v s2 b' v'
  proof -
    obtain e b1 v1 where "single_realloc oa orel (totalSize s1) (mAlign s1) b v = (e, b1, v1)" by (metis prod_cases3)
    moreover from this have "e = OUT_OF_MEMORY" using that by (auto simp: defer_apply_def Let_def split: if_splits)
    ultimately show ?thesis using r by blast
  qed
  show ?thesis using assms a by (auto simp: defer_compute_def Let_def split: if_splits option.splits)
qed

lemma compute_succeeds:
  assumes run: "defer_run s {} C A" and nb: "\<not> mBarrier s" and root: "\<And>z al v. cfirst (fst (oa z al v)) \<noteq> 0"
    and pos: "\<forall>(n, z) \<in> A. 0 < z"
  obtains s' sb' w' where "defer_compute oa orel af s sb w = Some (NO_ERROR, s', sb', w')"
    and "freeList s' = [] \<or> 0 < totalSize s'"
proof -
  from defer_run_inv [OF run] obtain bs where inv: "run_inv s {} C A bs" by blast
  then have rep: "rep s bs" and t0: "totalSize s = 0" by (simp_all add: run_inv_def)
  obtain code s' sb' w' where comp: "defer_compute oa orel af s sb w = Some (code, s', sb', w')"
      and code: "code = NO_ERROR \<or> code = OUT_OF_MEMORY"
    using defer_compute_returns [OF rep t0 run_all_free [OF inv nb], of oa orel af sb w] by (elim exE conjE) auto
  have c: "code = NO_ERROR" using code comp defer_compute_memory root by metis
  have "freeList s' = [] \<or> 0 < totalSize s'"
  proof (cases "A = {}")
    case True
    then have "freeList s = []" using run_unused [OF run] by simp
    then show ?thesis using comp t0 by (auto simp: defer_compute_def Let_def)
  next
    case False
    then obtain n z where "(n, z) \<in> A" by auto
    then have "z \<le> totalSize s'" "0 < z" using compute_separates(2) [OF run nb comp [unfolded c]] pos by auto
    then show ?thesis by simp
  qed
  then show thesis using that comp c by blast
qed

lemma onResizeEnd_eq:
  "cpu_onResizeEnd cfg bk w0 =
     (case defer_compute (\<lambda>sz al (h, r). case buffer_onAlloc cfg sz al r of (c, r') \<Rightarrow> (c, (h, r')))
        (\<lambda>c (h, r). (h, buffer_onRelease cfg c r)) apply_host
        (dynamicAllocator (cache_release (dma_of cfg bk) w0) (dma_of cfg bk))
        (buffers (cache_release (dma_of cfg bk) w0) (buffer_of cfg (dma_of cfg bk)))
        (hosts (cache_release (dma_of cfg bk) w0), roots (cache_release (dma_of cfg bk) w0)) of
           Some (e, s, b, (h, r)) \<Rightarrow>
             (e, (cache_release (dma_of cfg bk) w0)\<lparr>dynamicAllocator := (dynamicAllocator (cache_release (dma_of cfg bk) w0))(dma_of cfg bk := s),
                   buffers := (buffers (cache_release (dma_of cfg bk) w0))(buffer_of cfg (dma_of cfg bk) := b),
                   hosts := h, roots := r\<rparr>)
         | None \<Rightarrow> (INVALID_VALUE, cache_release (dma_of cfg bk) w0))"
  unfolding cpu_onResizeEnd_def Let_def ..

lemma onResizeEnd_succeeds:
  assumes a: "a = dma_of cfg bk" and h: "pool_held al a (dynamicAllocator (cache_release a w0) a) L C" and none: "on_pool a L = {}"
    and root: "root_gives cfg"
  obtains w' where "cpu_onResizeEnd cfg bk w0 = (NO_ERROR, w')"
    and "freeList (dynamicAllocator w' a) = [] \<or> 0 < totalSize (dynamicAllocator w' a)"
proof -
  let ?oa = "\<lambda>sz al (h :: nat \<Rightarrow> addr option, r). case buffer_onAlloc cfg sz al r of (c, r') \<Rightarrow> (c, (h, r'))"
  obtain A where run: "defer_run (dynamicAllocator (cache_release a w0) a) {} (pairs_on al a C) A"
    and nb: "\<not> mBarrier (dynamicAllocator (cache_release a w0) a)" and A: "\<forall>(n, z) \<in> A. 0 < z"
    using h none by (auto simp: pool_held_def)
  have r: "cfirst (fst (?oa z al v)) \<noteq> 0" for z al v
    using root unfolding root_gives_def by (cases v) (auto split: prod.split, metis fst_conv)
  obtain s' sb' v' where "defer_compute ?oa (\<lambda>c (h, r). (h, buffer_onRelease cfg c r)) apply_host
        (dynamicAllocator (cache_release a w0) a) (buffers (cache_release a w0) (buffer_of cfg a))
        (hosts (cache_release a w0), roots (cache_release a w0)) = Some (NO_ERROR, s', sb', v')"
    and "freeList s' = [] \<or> 0 < totalSize s'"
    by (rule compute_succeeds [where oa = ?oa, OF run nb r A])
  then show ?thesis unfolding a by (cases v') (intro that, auto simp: onResizeEnd_eq a)
qed

lemma onResizeEnd_again:
  assumes "formatCache w a = []" and a: "a = dma_of cfg bk"
    and "freeList (dynamicAllocator w a) = [] \<or> 0 < totalSize (dynamicAllocator w a)"
  shows "fst (cpu_onResizeEnd cfg bk w) = NO_ERROR"
proof -
  have "cache_release a w = w" by (rule cache_release_empty [OF assms(1)])
  then show ?thesis using assms(3) unfolding onResizeEnd_eq a [symmetric]
    by (auto simp: defer_compute_def Let_def)
qed

lemma plan_end_succeeds:
  assumes h: "cpu_held cfg al (world s) (cpu_cached cfg (world s)) C" and root: "root_gives cfg"
  shows "fst (plan_end (cpu_backends cfg) s) = NO_ERROR"
proof -
  let ?a = "dma_of cfg Main_backend" and ?b = "dma_of cfg Backup_backend"
  let ?w = "cache_release ?a (world s)"
  note r1 = cache_release_held [OF h refl, where bk = Main_backend]
  have "pool_held al ?a (dynamicAllocator ?w ?a) (cpu_cached cfg ?w) C" using r1(1) by (simp add: cpu_held_def)
  from onResizeEnd_succeeds [OF refl this r1(2) root]
  obtain w1 where 1: "cpu_onResizeEnd cfg Main_backend (world s) = (NO_ERROR, w1)"
    and t1: "freeList (dynamicAllocator w1 ?a) = [] \<or> 0 < totalSize (dynamicAllocator w1 ?a)" by blast
  obtain d1: "\<And>b. b \<noteq> ?a \<Longrightarrow> dynamicAllocator w1 b = dynamicAllocator ?w b" and f1: "formatCache w1 = formatCache ?w"
    using onResizeEnd_compute [OF 1 refl] by metis
  have "fst (cpu_onResizeEnd cfg Backup_backend w1) = NO_ERROR"
  proof (cases "?a = ?b")
    case True
    then show ?thesis using t1 r1(3) f1 by (intro onResizeEnd_again [where a = ?b]) simp_all
  next
    case False
    have pools: "\<forall>m \<in> set (formatCache ?w ?b). cpu_pool m = Some ?b" using r1(1) by (simp add: cpu_held_def)
    have "dynamicAllocator (cache_release ?b w1) ?b = dynamicAllocator (cache_release ?b ?w) ?b"
      using cache_release_dynamic [OF pools] cache_release_dynamic [of w1 ?b] pools f1 d1 False by simp
    moreover note r2 = cache_release_held [OF r1(1) refl, where bk = Backup_backend]
    ultimately have "pool_held al ?b (dynamicAllocator (cache_release ?b w1) ?b) (cpu_cached cfg (cache_release ?b ?w)) C"
      using r2(1) by (simp add: cpu_held_def)
    from onResizeEnd_succeeds [OF refl this r2(2) root] show ?thesis by (metis fst_conv)
  qed
  then show ?thesis using 1 by (auto simp: plan_end_def cpu_backends_def split: prod.split)
qed

section \<open>The whole plan\<close>

lemma plan_success:
  assumes "cpu_kernels_ok cfg al" and "cpu_ready cfg al (world s)" and "no_dynamic s" and "well_formed a infos s"
    and "kernels_succeed cfg" and "root_gives cfg" and "\<not> outputStatic a"
    and "sizes_positive cfg (\<Union>c \<in> set (work_commands infos). operands c) s"
  shows "fst (allocForTensor (cpu_backends cfg) a infos s) = NO_ERROR"
proof -
  let ?B = "cpu_backends cfg" and ?s0 = "plan_begin (cpu_backends cfg) infos s"
  have "tens ?s0 = tens s" by (simp add: plan_begin_def Let_def)
  then have "sizes_positive cfg (\<Union>c \<in> set (work_commands infos). operands c) ?s0"
    using assms(8) by (simp add: sizes_positive_def)
  then obtain s1 where run: "plan_commands ?B a (work_commands infos) ?s0 = (NO_ERROR, s1)"
    using plan_commands_succeed [OF assms(1,5,7)] by blast
  obtain C where "cpu_held cfg al (world (plan_recycle ?B a infos s1)) (cpu_cached cfg (world (plan_recycle ?B a infos s1))) C"
    using cpu.plan_main [OF assms(1,2) assms(3) [unfolded no_dynamic_mems] run assms(4)] by blast
  from plan_end_succeeds [OF this assms(6)] show ?thesis by (simp add: allocForTensor_def run)
qed

end
