(* ===== verification/Pipeline_Claims.thy ===== *)
theory Pipeline_Claims
  imports Pipeline_Success
begin

text \<open>
  The properties of a plan on the CPU: what a later command still reads is kept and never shares its place
  with anything else, a finished plan has given everything back so that the next may begin, a plan succeeds
  when the root allocator does, and what \<open>allocBuffer\<close> does with memory of 2 GiB and more.
\<close>

section \<open>A plan of three commands\<close>

text \<open>
  Tensor 0 is the input, 1 and 2 are intermediate, 3 is the output; the kernels take 5 bytes of scratch
  memory for a tensor of their own and give it back. Main and backup backend share the allocator 0.
\<close>

definition demo_base :: "unit cpu_config" where
  "demo_base = \<lparr>core_pack = 4, core_bytes = 1, applyQuant = (\<lambda>_. False), dma_of = (\<lambda>_. 0), buffer_of = (\<lambda>a. a),
     static_onAlloc = (\<lambda>_ _ r. (null_chunk, r)), raw_onAlloc = (\<lambda>_ _ r. (null_chunk, r)),
     buffer_onAlloc = (\<lambda>_ _ r. (\<lparr>cfirst = 64, csecond = 0, cnode = None\<rparr>, r)), buffer_onRelease = (\<lambda>_ r. r),
     kernel = (\<lambda>_ s. (NO_ERROR, s))\<rparr>"

definition demo_kernel :: "command \<Rightarrow> (cpu_mem, unit cpu_world) pipe \<Rightarrow> error_code \<times> (cpu_mem, unit cpu_world) pipe" where
  "demo_kernel c s =
     (case cpu_new_buffer demo_base 0 5 99 DYNAMIC (world s) of
        (Some m, w) \<Rightarrow> (NO_ERROR, s\<lparr>world := cpu_free m w\<rparr>)
      | (None, w) \<Rightarrow> (OUT_OF_MEMORY, s))"

definition demo_cfg :: "unit cpu_config" where
  "demo_cfg = demo_base\<lparr>kernel := demo_kernel\<rparr>"

definition demo_tensor :: "int \<Rightarrow> tensor" where
  "demo_tensor n = setLength 0 n ((new_tensor 1 NCHW)\<lparr>ttype := float_type\<rparr>)"

definition demo_pipe :: "(cpu_mem, unit cpu_world) pipe" where
  "demo_pipe = \<lparr>tens = (\<lambda>t. demo_tensor (if t = 1 then 6 else 4)), origins = (\<lambda>t. \<lparr>content = t, mem = None, backend_of = None\<rparr>),
     describes = (\<lambda>t. \<lparr>memoryType = MEMORY_BACKEND, useCount = 0,
       tusage = (if t = 0 then INPUT else if t = 3 then OUTPUT else NORMAL), group = 0\<rparr>),
     world = \<lparr>dynamicAllocator = (\<lambda>_. defer_new 4), buffers = (\<lambda>_. demo_buffer), mStaticAllocator = eager_new 4 0,
       mStaticAllocatorRaw = None, formatCache = (\<lambda>_. []), cpuDynamicNode = (\<lambda>_. None), hosts = (\<lambda>_. None), roots = ()\<rparr>\<rparr>"

definition demo_command :: "nat list \<Rightarrow> nat list \<Rightarrow> command" where
  "demo_command ins outs = \<lparr>workInputs = ins, workOutputs = outs, execution_backend = Main_backend, needAllocIO = True,
     cgroup = 0, kernel_id = 0\<rparr>"

definition demo_args :: plan_args where
  "demo_args = \<lparr>outputStatic = False, plan_group = 0, allocInput = True\<rparr>"

definition demo_infos :: "op_info list" where
  "demo_infos = [\<lparr>is_constant = False, executeBuffer =
     [demo_command [0] [1], demo_command [1] [2], demo_command [1, 2] [3]]\<rparr>]"

lemma demo_cfg_fields [simp]:
  "dma_of demo_cfg bk = 0" "dma_of demo_base bk = 0" "buffer_of demo_cfg a = a" "buffer_of demo_base a = a"
  "kernel demo_cfg = demo_kernel" "buffer_onAlloc demo_cfg sz al r = (\<lparr>cfirst = 64, csecond = 0, cnode = None\<rparr>, r)"
  by (simp_all add: demo_cfg_def demo_base_def)

lemma demo_held: "cpu_held demo_base al w L C = cpu_held demo_cfg al w L C"
  by (simp add: cpu_held_def buffers_ok_def)

lemma demo_kernel_new:
  obtains m w where "cpu_new_buffer demo_base 0 5 99 DYNAMIC (world s) = (Some m, w)" and "cpu_pool m = Some 0"
    and "demo_kernel c s = (NO_ERROR, s\<lparr>world := cpu_free m w\<rparr>)"
proof -
  obtain m w where m: "cpu_new_buffer demo_base 0 5 99 DYNAMIC (world s) = (Some m, w)"
    using cpu_new_buffer_succeeds [of 5 DYNAMIC demo_base 0 99 "world s"]
    by (cases "cpu_new_buffer demo_base 0 5 99 DYNAMIC (world s)") auto
  then have "cpu_pool m = Some 0"
    by (auto simp: cpu_new_buffer_def cpu_alloc_dynamic_def Let_def cpu_pool_def split: prod.splits if_splits)
  with m show thesis by (intro that) (auto simp: demo_kernel_def)
qed

lemma demo_kernels_ok: "cpu_kernels_ok demo_cfg al"
  unfolding kernels_ok_def
proof (intro allI impI)
  fix c and s s' :: "(cpu_mem, unit cpu_world) pipe"
  assume "onResize (cpu_backends demo_cfg) c s = (NO_ERROR, s')"
  then have run: "demo_kernel c s = (NO_ERROR, s')" by (simp add: cpu_backends_def)
  obtain m w where new: "cpu_new_buffer demo_base 0 5 99 DYNAMIC (world s) = (Some m, w)" and p: "cpu_pool m = Some 0"
    and s': "s' = s\<lparr>world := cpu_free m w\<rparr>"
    using demo_kernel_new [of s c] run by (metis prod.inject)
  have cached: "cpu_cached demo_cfg (world s') = cpu_cached demo_cfg (world s)"
    using cpu_new_buffer_cache [OF new] by (intro cpu_cached_cong) (simp add: s')
  have step: "\<exists>C'. cpu_held demo_cfg al (world s') L C' \<and> C \<subseteq> C'" if h: "cpu_held demo_cfg al (world s) L C" for L C
  proof -
    have h0: "cpu_held demo_base al (world s) L C" using h demo_held by simp
    let ?C = "C \<union> {(x, m) | x. x \<in> L \<and> cpu_pool x = cpu_pool m}"
    have "(0 :: nat) = dma_of demo_base Main_backend" by simp
    from cpu_new_buffer_dynamic [OF new p this h0]
    have "m \<notin> L" and "cpu_held demo_base al w (insert m L) ?C" by simp_all
    then have "cpu_held demo_base al (cpu_free m w) (insert m L - {m}) ?C" by (intro cpu_free_pool) simp_all
    then have "cpu_held demo_cfg al (world s') L ?C" using \<open>m \<notin> L\<close> by (simp add: demo_held s')
    then show ?thesis by blast
  qed
  show "origins s' = origins s \<and> describes s' = describes s \<and> tens s' = tens s \<and>
      (\<forall>L C. cpu_held demo_cfg al (world s) L C \<longrightarrow> cpu_cached demo_cfg (world s) \<subseteq> L \<longrightarrow>
         (\<exists>K C'. cpu_held demo_cfg al (world s') (L \<union> K) C' \<and> C \<subseteq> C' \<and> K \<inter> L = {} \<and>
            cpu_cached demo_cfg (world s') = cpu_cached demo_cfg (world s) \<union> K))"
    using step cached by (simp add: s') (metis Int_empty_left Un_empty_right)
qed

lemma demo_ready: "cpu_ready demo_cfg 4 (world demo_pipe)"
  by (simp add: cpu_ready_def buffers_ok_def demo_pipe_def demo_buffer_def defer_new_def null_chunk_def)

lemma demo_no_dynamic: "no_dynamic demo_pipe"
  by (simp add: no_dynamic_def demo_pipe_def)

lemma demo_commands: "work_commands demo_infos = [demo_command [0] [1], demo_command [1] [2], demo_command [1, 2] [3]]"
  by (simp add: work_commands_def demo_infos_def)

lemma demo_well_formed: "well_formed demo_args demo_infos demo_pipe"
  unfolding well_formed_def demo_commands
  by (simp add: operands_def demo_command_def operand_ok_def recycled_def read_only_def releasable_def work_commands_def
      all_commands_def demo_infos_def demo_args_def demo_pipe_def desc_def demo_tensor_def new_tensor_def setLength_def
      float_type_def)

lemma demo_succeeds: "kernels_succeed demo_cfg" "root_gives demo_cfg" "roots_plain demo_cfg" "\<not> outputStatic demo_args"
proof -
  show "kernels_succeed demo_cfg" unfolding kernels_succeed_def
    by (intro allI) (metis demo_kernel_new demo_cfg_fields(5) fst_conv)
qed (simp_all add: root_gives_def roots_plain_def demo_args_def)

lemma demo_size: "0 < n \<Longrightarrow> n < 100 \<Longrightarrow> cpu_getTensorSize demo_cfg t (demo_tensor n) = nat n"
  by (simp add: demo_tensor_def new_tensor_def float_type_def setLength_def cpu_getTensorSize_def len_at_def max_dim_def
    cpu_getBytes_def demo_cfg_def demo_base_def eval_nat_numeral)

lemma demo_sizes: "sizes_positive demo_cfg T demo_pipe"
  by (simp add: sizes_positive_def demo_pipe_def demo_size)

text \<open>The memory of the operands when the first kernel runs.\<close>

definition demo_mem :: "nat \<Rightarrow> nat \<Rightarrow> cpu_mem" where
  "demo_mem n sz = \<lparr>mAllocator = Dynamic_allocator 0, mChunk = node_chunk n, mSize = sz\<rparr>"

lemma demo_first:
  "mem (origins (at_kernel demo_cfg demo_args demo_infos demo_pipe 0) 0) = Some (demo_mem 0 4)"
  "mem (origins (at_kernel demo_cfg demo_args demo_infos demo_pipe 0) 1) = Some (demo_mem 1 6)"
proof -
  have b: "plan_begin (cpu_backends demo_cfg) demo_infos demo_pipe = demo_pipe\<lparr>describes := (\<lambda>t. \<lparr>memoryType = MEMORY_BACKEND,
       useCount = (if t = 0 \<or> t = 2 then 1 else if t = 1 then 2 else 0),
       tusage = (if t = 0 then INPUT else if t = 3 then OUTPUT else NORMAL), group = 0\<rparr>)\<rparr>"
    by (auto simp: fun_eq_iff plan_begin_def Let_def demo_commands demo_command_def demo_pipe_def count_uses_def desc_def
        cpu_backends_def cpu_onResizeBegin_def defer_reset_def defer_new_def null_chunk_def)
  note eval = cpu_onAcquire_def cpu_allocBuffer_def cpu_new_buffer_def cpu_alloc_dynamic_def chunk_invalid_def
    chunk_ptr_def null_chunk_def allocTensor_def onAcquireBuffer_def set_mem_def command_alloc_def
    desc_def getTensorStorageType_def cpu_backends_def demo_args_def demo_command_def demo_size Let_def demo_eval
    demo_pipe_def demo_mem_def
  show "mem (origins (at_kernel demo_cfg demo_args demo_infos demo_pipe 0) 0) = Some (demo_mem 0 4)"
    "mem (origins (at_kernel demo_cfg demo_args demo_infos demo_pipe 0) 1) = Some (demo_mem 1 6)"
    unfolding at_kernel_def b demo_commands by (simp_all add: eval)
qed

lemma demo_finishes:
  obtains s' where "allocForTensor (cpu_backends demo_cfg) demo_args demo_infos demo_pipe = (NO_ERROR, s')"
  using plan_success [OF demo_kernels_ok demo_ready demo_no_dynamic demo_well_formed demo_succeeds(1,2,4) demo_sizes]
  by (metis prod.collapse)

section \<open>The properties\<close>

text \<open>
  C1. Safety of a whole plan. Let command \<open>i\<close> find tensor \<open>t\<close> with the memory object \<open>m\<close>, and let a command
  \<open>j\<close> at or behind \<open>i\<close> read \<open>t\<close>. Then whatever memory another tensor \<open>u\<close> has while a command between
  the two runs, the offsets the plan gives in the end to the memory of \<open>u\<close> and to \<open>m\<close> do not overlap,
  when both come from the same dynamic allocator.
\<close>

theorem plan_no_overlap:
  assumes "cpu_kernels_ok cfg al" and "cpu_ready cfg al (world s)" and "no_dynamic s" and "well_formed a infos s"
    and "allocForTensor (cpu_backends cfg) a infos s = (NO_ERROR, s')"
    and "j < length (work_commands infos)" and "t \<in> set (workInputs (work_commands infos ! j))" and "i \<le> k" and "k \<le> j"
    and "mem (origins (at_kernel cfg a infos s i) t) = Some m"
    and "mem (origins (at_kernel cfg a infos s k) u) = Some n" and "t \<noteq> u"
    and "cpu_pool m = Some (dma_of cfg bk)" and "cpu_pool n = Some (dma_of cfg bk)"
  shows "disjoint_ranges (planned_offset (world s') (dma_of cfg bk) m) (mSize m)
           (planned_offset (world s') (dma_of cfg bk) n) (mSize n)"
proof -
  obtain C where sep: "separated (world s') (dma_of cfg bk) C" and co: "cpu.coheld C (at_kernel cfg a infos s k)"
    using plan_separated [OF assms(1-5)] assms(6,9) by (metis le_less_trans)
  have "mem (origins (at_kernel cfg a infos s k) t) = Some m"
    by (rule kept_until_read [OF assms(1,5,10,6,7,8,9)])
  then have "(m, n) \<in> C \<or> (n, m) \<in> C"
    using co assms(11-14) unfolding cpu.coheld_def by (metis option.distinct(1))
  then show ?thesis using sep assms(13,14) disjoint_ranges_sym unfolding separated_def by blast
qed

lemma plan_no_overlap_witness:
  "\<exists>s'. allocForTensor (cpu_backends demo_cfg) demo_args demo_infos demo_pipe = (NO_ERROR, s') \<and>
     disjoint_ranges (planned_offset (world s') 0 (demo_mem 1 6)) 6 (planned_offset (world s') 0 (demo_mem 0 4)) 4"
proof -
  obtain s' where run: "allocForTensor (cpu_backends demo_cfg) demo_args demo_infos demo_pipe = (NO_ERROR, s')"
    by (rule demo_finishes)
  have "disjoint_ranges (planned_offset (world s') (dma_of demo_cfg Main_backend) (demo_mem 1 6)) (mSize (demo_mem 1 6))
      (planned_offset (world s') (dma_of demo_cfg Main_backend) (demo_mem 0 4)) (mSize (demo_mem 0 4))"
    by (rule plan_no_overlap [OF demo_kernels_ok demo_ready demo_no_dynamic demo_well_formed run, where j = 2 and i = 0 and k = 0,
        OF _ _ _ _ demo_first(2) demo_first(1)])
      (simp_all add: demo_commands demo_command_def demo_mem_def cpu_pool_def)
  then show ?thesis using run by (auto simp: demo_mem_def)
qed

text \<open>
  C2. Life time: the memory a tensor has at some command is the memory it has at every command until the
  last one that reads it, whatever is released in between and whoever shares its description.
\<close>

theorem plan_keeps_until_read:
  assumes "cpu_kernels_ok cfg al" and "allocForTensor (cpu_backends cfg) a infos s = (NO_ERROR, s')"
    and "mem (origins (at_kernel cfg a infos s i) t) = Some m"
    and "j < length (work_commands infos)" and "t \<in> set (workInputs (work_commands infos ! j))" and "i \<le> k" and "k \<le> j"
  shows "mem (origins (at_kernel cfg a infos s k) t) = Some m"
  by (rule kept_until_read [OF assms])

lemma plan_keeps_until_read_witness:
  "mem (origins (at_kernel demo_cfg demo_args demo_infos demo_pipe 2) 1) = Some (demo_mem 1 6)"
proof -
  obtain s' where run: "allocForTensor (cpu_backends demo_cfg) demo_args demo_infos demo_pipe = (NO_ERROR, s')"
    by (rule demo_finishes)
  show ?thesis
    by (rule plan_keeps_until_read [OF demo_kernels_ok [of 4] run demo_first(2), where j = 2])
      (simp_all add: demo_commands demo_command_def)
qed

text \<open>
  C3. A finished plan has given everything back: no tensor holds dynamic memory, nothing is cached, and the
  allocators are in the state in which the next plan may begin.
\<close>

theorem plan_returns_everything:
  assumes "cpu_kernels_ok cfg al" and "cpu_ready cfg al (world s)" and "no_dynamic s" and "well_formed a infos s"
    and "allocForTensor (cpu_backends cfg) a infos s = (NO_ERROR, s')" and "roots_plain cfg"
  shows "no_dynamic s' \<and> cpu_ready cfg al (world s')"
  using plan_separated [OF assms(1-5)] assms(6) by metis

lemma plan_returns_everything_witness:
  "\<exists>s'. allocForTensor (cpu_backends demo_cfg) demo_args demo_infos demo_pipe = (NO_ERROR, s') \<and>
     no_dynamic s' \<and> cpu_ready demo_cfg 4 (world s')"
proof -
  obtain s' where run: "allocForTensor (cpu_backends demo_cfg) demo_args demo_infos demo_pipe = (NO_ERROR, s')"
    by (rule demo_finishes)
  with plan_returns_everything [OF demo_kernels_ok demo_ready demo_no_dynamic demo_well_formed run demo_succeeds(3)]
  show ?thesis by blast
qed

text \<open>
  C4. A plan succeeds: when every operand has a positive size, no output is static, the kernels report no error
  and the root allocator finds its blocks, \<open>_allocForTensor\<close> answers \<open>NO_ERROR\<close>.
\<close>

theorem plan_succeeds:
  assumes "cpu_kernels_ok cfg al" and "cpu_ready cfg al (world s)" and "no_dynamic s" and "well_formed a infos s"
    and "kernels_succeed cfg" and "root_gives cfg" and "\<not> outputStatic a"
    and "sizes_positive cfg (\<Union>c \<in> set (work_commands infos). operands c) s"
  shows "fst (allocForTensor (cpu_backends cfg) a infos s) = NO_ERROR"
  by (rule plan_success [OF assms])

lemma plan_succeeds_witness:
  "fst (allocForTensor (cpu_backends demo_cfg) demo_args demo_infos demo_pipe) = NO_ERROR"
  by (rule plan_succeeds [OF demo_kernels_ok demo_ready demo_no_dynamic demo_well_formed demo_succeeds(1,2,4) demo_sizes])

text \<open>
  C40. A memory object of 2 GiB up to 4 GiB keeps its size in an \<open>int\<close>, where it is negative; the comparison
  reads it as a huge \<open>size_t\<close>, and every later request, however large, is answered with the old memory.
\<close>

theorem big_memory_answers_all:
  assumes "mem (origins s dest) = Some m" and "2 ^ 31 \<le> mSize m" and "mSize m < 2 ^ 32" and "sz < 2 ^ 63"
  shows "cpu_allocBuffer cfg bk sz dest storage s = (Some m, s)"
proof -
  define x where "x = int (mSize m)"
  have x: "2 ^ 31 \<le> x" "x < 2 ^ 32" using assms(2,3) by (simp_all add: x_def)
  have "(x + 2 ^ 31) mod 2 ^ 32 = ((x - 2 ^ 31) + 2 ^ 32) mod 2 ^ 32" by (simp add: add.commute)
  also have "\<dots> = x - 2 ^ 31" using x by (subst mod_add_self2) simp
  finally have g: "getSize m = x - 2 ^ 32" by (simp add: getSize_def to_int32_def x_def)
  have "(x - 2 ^ 32) mod 2 ^ 64 = ((x - 2 ^ 32 + 2 ^ 64) mod 2 ^ 64 :: int)" by (rule mod_add_self2 [symmetric])
  also have "\<dots> = x - 2 ^ 32 + 2 ^ 64" using x by (intro mod_pos_pos_trivial) simp_all
  finally have "getSize m mod 2 ^ 64 = int (mSize m) - 2 ^ 32 + 2 ^ 64" by (simp add: g x_def)
  then have "sz \<le> nat (getSize m mod 2 ^ 64)" using assms(2,4) by simp
  then show ?thesis using assms(1) by (simp add: cpu_allocBuffer_def)
qed

lemma big_memory_answers_all_witness:
  "fst (cpu_allocBuffer demo_cfg Main_backend (2 ^ 40) 0 DYNAMIC
     (demo_pipe\<lparr>origins := (\<lambda>_. \<lparr>content = 0, mem = Some (demo_mem 0 (2 ^ 31)), backend_of = None\<rparr>)\<rparr>)) =
   Some (demo_mem 0 (2 ^ 31))"
  by (subst big_memory_answers_all [where m = "demo_mem 0 (2 ^ 31)"]) (simp_all add: demo_mem_def)

end
