(* ===== verification/Region_Model.thy ===== *)
theory Region_Model
  imports Tensor_Model
begin

text \<open>
  Regions: the strided copies that describe the content of a virtual tensor (\<open>View\<close> and \<open>Region\<close> of
  \<open>source/core/TensorUtils.hpp\<close>), what they compute, and the predicates and constructors of
  \<open>source/core/TensorUtils.cpp\<close> and \<open>source/core/OpCommonUtils.cpp\<close>. The C arrays of three entries
  are lists of length three; the origin of a region is the position of that tensor among the inputs.
\<close>

section \<open>Views and regions\<close>

record view =
  voffset :: int
  vstride :: "int list"

record region =
  rsrc :: view
  rdst :: view
  rsize :: "int list"
  rorigin :: nat

definition new_view :: view where
  "new_view = \<lparr>voffset = 0, vstride = [1, 1, 1]\<rparr>"

definition new_region :: "nat \<Rightarrow> region" where
  "new_region input = \<lparr>rsrc = new_view, rdst = new_view, rsize = [1, 1, 1], rorigin = input\<rparr>"

text \<open>
  The copies a region stands for, in the order of the three loops, as pairs of destination and source
  position, and their execution on a zeroed destination.
\<close>

definition region_moves :: "region \<Rightarrow> (int \<times> int) list" where
  "region_moves r =
     concat (map (\<lambda>z. concat (map (\<lambda>y. map (\<lambda>x.
         (voffset (rdst r) + z * vstride (rdst r) ! 0 + y * vstride (rdst r) ! 1 + x * vstride (rdst r) ! 2,
          voffset (rsrc r) + z * vstride (rsrc r) ! 0 + y * vstride (rsrc r) ! 1 + x * vstride (rsrc r) ! 2))
       [0..rsize r ! 2 - 1]) [0..rsize r ! 1 - 1])) [0..rsize r ! 0 - 1])"

definition run_moves :: "(int \<Rightarrow> 'a) \<Rightarrow> (int \<times> int) list \<Rightarrow> (int \<Rightarrow> 'a) \<Rightarrow> int \<Rightarrow> 'a" where
  "run_moves src ms dst = fold (\<lambda>(d, s) m. m(d := src s)) ms dst"

definition computeRaw :: "'a \<Rightarrow> (int \<Rightarrow> 'a) \<Rightarrow> region \<Rightarrow> int \<Rightarrow> 'a" where
  "computeRaw zero src r = run_moves src (region_moves r) (\<lambda>_. zero)"

text \<open>The content of a virtual tensor: its regions, one after the other, each from its own origin.\<close>

definition raster :: "'a \<Rightarrow> (nat \<Rightarrow> int \<Rightarrow> 'a) \<Rightarrow> region list \<Rightarrow> int \<Rightarrow> 'a" where
  "raster zero inputs regs = fold (\<lambda>r. run_moves (inputs (rorigin r)) (region_moves r)) regs (\<lambda>_. zero)"

section \<open>Predicates\<close>

definition regionIsFull :: "tensor \<Rightarrow> region list \<Rightarrow> bool" where
  "regionIsFull input regs \<longleftrightarrow>
     fold (\<lambda>r n. n + rsize r ! 1 * rsize r ! 0 * rsize r ! 2) regs 0 = fold (\<lambda>i n. n * len_at input i) [0..<ndim input] 1"

definition isCopyRegion :: "region \<Rightarrow> bool" where
  "isCopyRegion r \<longleftrightarrow> (\<forall>i \<in> {0, 1, 2}. vstride (rsrc r) ! i = vstride (rdst r) ! i \<or> rsize r ! i \<le> 1)"

definition isTileRegion :: "region \<Rightarrow> bool" where
  "isTileRegion r \<longleftrightarrow> (\<forall>i \<in> {0, 1, 2}. vstride (rsrc r) ! i \<noteq> 0 \<and> 1 < rsize r ! i \<longrightarrow>
     vstride (rsrc r) ! i = vstride (rdst r) ! i)"

text \<open>The search for the one dimension with unit stride; \<open>None\<close> when a second one turns up.\<close>

definition unit_dim :: "view \<Rightarrow> int list \<Rightarrow> int option" where
  "unit_dim v sz =
     (case filter (\<lambda>i. vstride v ! i = 1 \<and> sz ! i \<noteq> 1) [0, 1, 2] of [] \<Rightarrow> Some (- 1) | [i] \<Rightarrow> Some (int i) | _ \<Rightarrow> None)"

definition isTransposeRegion :: "region \<Rightarrow> bool" where
  "isTransposeRegion r =
     (case (unit_dim (rsrc r) (rsize r), unit_dim (rdst r) (rsize r)) of
        (Some a, Some b) \<Rightarrow> 0 \<le> a \<and> 0 \<le> b \<and> a \<noteq> b
      | _ \<Rightarrow> False)"

definition isDepthToSpaceRegions :: "region list \<Rightarrow> tensor list \<Rightarrow> tensor \<Rightarrow> bool" where
  "isDepthToSpaceRegions regs inputs output =
     (case regs of
        [] \<Rightarrow> False
      | r0 # _ \<Rightarrow>
          (let input = inputs ! rorigin r0;
               ic = channel input; ih = height input; iw = width input;
               oc = channel output; oh = height output; ow = width output;
               hblock = oh sdiv ih; wblock = ow sdiv iw
           in (\<forall>r \<in> set regs. rorigin r = rorigin r0) \<and> ic * ih * iw = oc * oh * ow \<and> hblock = wblock \<and>
              hblock * wblock * oc = ic \<and> int (length regs) = hblock * wblock))"

text \<open>
  Whether every position a strided view touches is inside a buffer of \<open>limit\<close> entries; the comparison
  with the unsigned limit comes after the one with zero.
\<close>

definition RegionValid :: "int list \<Rightarrow> int \<Rightarrow> int list \<Rightarrow> nat \<Rightarrow> int \<Rightarrow> bool" where
  "RegionValid stride off sz sizeNum limit =
     (let (maxOffset, minOffset) =
            fold (\<lambda>i (mx, mn). if 0 < stride ! i then (mx + stride ! i * (sz ! i - 1), mn)
                               else (mx, mn + stride ! i * (sz ! i - 1))) [0..<sizeNum] (off, off)
      in \<not> (minOffset < 0 \<or> limit \<le> maxOffset))"

section \<open>Constructors\<close>

definition makeFullSlice :: "nat \<Rightarrow> tensor \<Rightarrow> region" where
  "makeFullSlice input t =
     (let n = fold (\<lambda>i n. n * len_at t i) [0..<ndim t] 1
      in \<lparr>rsrc = \<lparr>voffset = 0, vstride = [n, n, 1]\<rparr>, rdst = \<lparr>voffset = 0, vstride = [n, n, 1]\<rparr>,
          rsize = [1, 1, n], rorigin = input\<rparr>)"

definition makeFullRef :: "nat \<Rightarrow> tensor \<Rightarrow> region list option \<Rightarrow> region list" where
  "makeFullRef input t virtual_regions = (case virtual_regions of Some regs \<Rightarrow> regs | None \<Rightarrow> [makeFullSlice input t])"

definition reshapeSlice :: "region \<Rightarrow> int \<Rightarrow> int \<Rightarrow> int \<Rightarrow> bool \<times> region" where
  "reshapeSlice r outside inside axis =
     (if rsize r ! 1 = 1 \<and> rsize r ! 0 = 1 \<and> rsize r ! 2 = outside * inside * axis then
        (let originStride = vstride (rsrc r) ! 2
         in (True, r\<lparr>rsize := [outside, axis, inside],
               rdst := (rdst r)\<lparr>vstride := [inside * axis, inside, vstride (rdst r) ! 2]\<rparr>,
               rsrc := (rsrc r)\<lparr>vstride := [originStride * inside * axis, originStride * inside, originStride]\<rparr>\<rparr>))
      else (rsize r ! 0 = outside \<and> rsize r ! 1 = axis \<and> rsize r ! 2 = inside, r))"

section \<open>Strides and coordinates\<close>

text \<open>
  \<open>computeStride\<close>: the strides of a dense layout, and the number of its entries; \<open>lin\<close> is the sum of
  coordinates times strides the loops accumulate into an offset.
\<close>

fun computeStride :: "int list \<Rightarrow> int list \<times> int" where
  "computeStride [] = ([], 1)"
| "computeStride (n # ns) = (let (strs, total) = computeStride ns in (total # strs, total * n))"

definition lin :: "int list \<Rightarrow> int list \<Rightarrow> int" where
  "lin strs c = sum_list (map2 (*) c strs)"

primrec unravelIndexHelper :: "int list \<Rightarrow> int \<Rightarrow> int list" where
  "unravelIndexHelper [] index = []"
| "unravelIndexHelper (m # ms) index = index sdiv m # unravelIndexHelper ms (index smod m)"

end
