(* ===== verification/Region_Grid.thy ===== *)
theory Region_Grid
  imports Region_Model "HOL-Library.Multiset"
begin

text \<open>
  The library behind the geometry proofs: a set of strided dimensions \<open>(n, d, s)\<close> stands for the pairs
  of destination and source position its coordinates give (\<open>grid\<close>). Dimensions may be permuted, merged
  when their strides nest, and dropped when they have one entry; a list of regions that enumerates the
  outer coordinates covers the grid of all the dimensions.
\<close>

section \<open>Grids\<close>

fun grid :: "(int \<times> int \<times> int) list \<Rightarrow> (int \<times> int) set" where
  "grid [] = {(0, 0)}"
| "grid ((n, a, b) # ds) = {(i * a + d, i * b + s) | i d s. 0 \<le> i \<and> i < n \<and> (d, s) \<in> grid ds}"

lemma grid_swap: "grid (x # y # ds) = grid (y # x # ds)"
proof -
  have "grid (x # y # ds) \<subseteq> grid (y # x # ds)" for x y
  proof
    fix p assume p: "p \<in> grid (x # y # ds)"
    obtain n a b m c e where xy: "x = (n, a, b)" "y = (m, c, e)" by (cases x, cases y)
    from p xy obtain i j d s where "p = (i * a + (j * c + d), i * b + (j * e + s))"
      and r: "0 \<le> i" "i < n" "0 \<le> j" "j < m" "(d, s) \<in> grid ds" by auto
    then have "p = (j * c + (i * a + d), j * e + (i * b + s))" by simp
    with r xy show "p \<in> grid (y # x # ds)" by (simp only: grid.simps mem_Collect_eq) blast
  qed
  then show ?thesis by blast
qed

lemma grid_Cons_cong: "grid ds = grid es \<Longrightarrow> grid (x # ds) = grid (x # es)"
  by (cases x) simp

lemma grid_append_cong: "grid ds = grid es \<Longrightarrow> grid (xs @ ds) = grid (xs @ es)"
  by (induction xs) (auto intro: grid_Cons_cong)

lemma grid_move: "grid (xs @ y # zs) = grid (y # xs @ zs)"
proof (induction xs)
  case (Cons x xs)
  then show ?case using grid_Cons_cong [OF Cons, of x] grid_swap [of x y "xs @ zs"] by simp
qed simp

lemma grid_perm: "mset xs = mset ys \<Longrightarrow> grid xs = grid ys"
proof (induction xs arbitrary: ys)
  case (Cons x xs)
  then have "x \<in> set ys" using mset_eq_setD by (metis list.set_intros(1))
  then obtain us vs where ys: "ys = us @ x # vs" by (meson split_list)
  with Cons.prems have "mset xs = mset (us @ vs)" by simp
  from grid_Cons_cong [OF Cons.IH [OF this]] show ?case by (simp add: ys grid_move)
qed simp

lemma grid_unit: "grid ((1, a, b) # ds) = grid ds"
proof -
  have i: "0 \<le> i \<and> i < 1 \<longleftrightarrow> i = 0" for i :: int by auto
  have "grid ((1, a, b) # ds) = {(i * a + d, i * b + s) | i d s. (0 \<le> i \<and> i < 1) \<and> (d, s) \<in> grid ds}"
    unfolding grid.simps by blast
  then show ?thesis unfolding i by auto
qed

lemma grid_unit_mid: "grid (xs @ (1, a, b) # ds) = grid (xs @ ds)"
  by (rule grid_append_cong) (rule grid_unit)

lemma fuse_index:
  fixes n m k :: int
  assumes "0 \<le> m"
  shows "0 \<le> k \<and> k < n * m \<longleftrightarrow> (\<exists>i j. 0 \<le> i \<and> i < n \<and> 0 \<le> j \<and> j < m \<and> k = i * m + j)"
proof (intro iffI)
  assume k: "0 \<le> k \<and> k < n * m"
  then have m: "0 < m" using assms by (cases "m = 0") auto
  have "k div m < n"
  proof (rule ccontr)
    assume "\<not> k div m < n"
    then have "n * m \<le> k div m * m" using m by (intro mult_right_mono) simp_all
    moreover have "k div m * m \<le> k" using div_mult_mod_eq [of k m] pos_mod_sign [OF m, of k] by linarith
    ultimately show False using k by linarith
  qed
  moreover have "k = k div m * m + k mod m" by simp
  ultimately show "\<exists>i j. 0 \<le> i \<and> i < n \<and> 0 \<le> j \<and> j < m \<and> k = i * m + j" using k m
    by (intro exI [of _ "k div m"] exI [of _ "k mod m"]) (simp add: pos_imp_zdiv_nonneg_iff)
next
  assume "\<exists>i j. 0 \<le> i \<and> i < n \<and> 0 \<le> j \<and> j < m \<and> k = i * m + j"
  then obtain i j where i: "0 \<le> i" "i < n" "0 \<le> j" "j < m" "k = i * m + j" by blast
  have "i * m + m \<le> n * m" using i mult_right_mono [of "i + 1" n m] by (simp add: algebra_simps)
  then show "0 \<le> k \<and> k < n * m" using i by simp
qed

lemma grid_fuse:
  assumes "0 \<le> m"
  shows "grid ((n, m * a, m * b) # (m, a, b) # ds) = grid ((n * m, a, b) # ds)"
proof (intro set_eqI iffI)
  fix p assume "p \<in> grid ((n, m * a, m * b) # (m, a, b) # ds)"
  then obtain i j d s where p: "p = (i * (m * a) + (j * a + d), i * (m * b) + (j * b + s))"
    and r: "0 \<le> i" "i < n" "0 \<le> j" "j < m" "(d, s) \<in> grid ds" by auto
  have "p = ((i * m + j) * a + d, (i * m + j) * b + s)" using p by (simp add: algebra_simps)
  moreover have "0 \<le> i * m + j \<and> i * m + j < n * m" using fuse_index [OF assms] r by blast
  ultimately show "p \<in> grid ((n * m, a, b) # ds)" using r(5) by (simp only: grid.simps mem_Collect_eq) blast
next
  fix p assume "p \<in> grid ((n * m, a, b) # ds)"
  then obtain k d s where p: "p = (k * a + d, k * b + s)" and k: "0 \<le> k" "k < n * m" "(d, s) \<in> grid ds" by auto
  from fuse_index [OF assms] k obtain i j where r: "0 \<le> i" "i < n" "0 \<le> j" "j < m" "k = i * m + j" by blast
  have "p = (i * (m * a) + (j * a + d), i * (m * b) + (j * b + s))" using p r by (simp add: algebra_simps)
  with r k show "p \<in> grid ((n, m * a, m * b) # (m, a, b) # ds)" by (simp only: grid.simps mem_Collect_eq) blast
qed

section \<open>Coordinates\<close>

definition coords :: "int list \<Rightarrow> int list set" where
  "coords shp = {c. list_all2 (\<lambda>x n. 0 \<le> x \<and> x < n) c shp}"

lemma lin_simps [simp]: "lin [] c = 0" "lin (s # ss) (x # c) = x * s + lin ss c" "lin ss [] = 0"
  by (simp_all add: lin_def)

lemma coords_simps [simp]: "[] \<in> coords []" "c \<in> coords [] \<longleftrightarrow> c = []"
  "x # c \<in> coords (n # ns) \<longleftrightarrow> 0 \<le> x \<and> x < n \<and> c \<in> coords ns" "[] \<notin> coords (n # ns)"
  by (auto simp: coords_def)

lemma coords_ConsE: "c \<in> coords (n # ns) \<Longrightarrow> \<exists>x d. c = x # d \<and> 0 \<le> x \<and> x < n \<and> d \<in> coords ns"
  by (cases c) auto

lemma coords_length: "c \<in> coords shp \<Longrightarrow> length c = length shp"
  by (auto simp: coords_def dest: list_all2_lengthD)

lemma coords_nth: "c \<in> coords shp \<Longrightarrow> i < length shp \<Longrightarrow> 0 \<le> c ! i \<and> c ! i < shp ! i"
  by (auto simp: coords_def list_all2_conv_all_nth)

lemma coordsI: "length c = length shp \<Longrightarrow> (\<And>i. i < length shp \<Longrightarrow> 0 \<le> c ! i \<and> c ! i < shp ! i) \<Longrightarrow> c \<in> coords shp"
  by (simp add: coords_def list_all2_conv_all_nth)

lemma grid_coords:
  "grid ds = {(lin (map (fst \<circ> snd) ds) c, lin (map (snd \<circ> snd) ds) c) | c. c \<in> coords (map fst ds)}"
proof (induction ds rule: grid.induct)
  case (2 n a b ds)
  show ?case
  proof (intro set_eqI iffI)
    fix p assume "p \<in> grid ((n, a, b) # ds)"
    then obtain i d s where p: "p = (i * a + d, i * b + s)" and i: "0 \<le> i" "i < n" "(d, s) \<in> grid ds" by auto
    from i(3) obtain c where c: "c \<in> coords (map fst ds)" "d = lin (map (fst \<circ> snd) ds) c"
      "s = lin (map (snd \<circ> snd) ds) c" unfolding 2 by blast
    show "p \<in> {(lin (map (fst \<circ> snd) ((n, a, b) # ds)) c, lin (map (snd \<circ> snd) ((n, a, b) # ds)) c) |
         c. c \<in> coords (map fst ((n, a, b) # ds))}"
      using p i c by (intro CollectI exI [of _ "i # c"]) simp
  next
    fix p assume "p \<in> {(lin (map (fst \<circ> snd) ((n, a, b) # ds)) c, lin (map (snd \<circ> snd) ((n, a, b) # ds)) c) |
         c. c \<in> coords (map fst ((n, a, b) # ds))}"
    then obtain c where c: "c \<in> coords (n # map fst ds)"
      "p = (lin (a # map (fst \<circ> snd) ds) c, lin (b # map (snd \<circ> snd) ds) c)" by auto
    from coords_ConsE [OF c(1)] obtain x d where "c = x # d" "0 \<le> x" "x < n" "d \<in> coords (map fst ds)" by blast
    moreover from this have "(lin (map (fst \<circ> snd) ds) d, lin (map (snd \<circ> snd) ds) d) \<in> grid ds" unfolding 2 by blast
    ultimately show "p \<in> grid ((n, a, b) # ds)" using c(2) by (simp only: grid.simps lin_simps mem_Collect_eq) blast
  qed
qed auto

section \<open>Dense layouts\<close>

definition dense_strides :: "int list \<Rightarrow> int list" where
  "dense_strides shp = map (\<lambda>i. prod_list (drop (Suc i) shp)) [0..<length shp]"

lemma dense_strides_simps [simp]: "dense_strides [] = []" "dense_strides (n # ns) = prod_list ns # dense_strides ns"
  by (simp_all add: dense_strides_def map_upt_Suc del: upt_Suc)

lemma length_dense_strides [simp]: "length (dense_strides shp) = length shp"
  by (simp add: dense_strides_def)

lemma nth_dense_strides: "i < length shp \<Longrightarrow> dense_strides shp ! i = prod_list (drop (Suc i) shp)"
  by (simp add: dense_strides_def)

lemma computeStride_dense: "computeStride shp = (dense_strides shp, prod_list shp)"
  by (induction shp rule: computeStride.induct) (simp_all add: Let_def mult.commute)

abbreviation flat :: "int list \<Rightarrow> int list \<Rightarrow> int" where
  "flat shp c \<equiv> lin (dense_strides shp) c"

lemma coords_nonneg: "c \<in> coords shp \<Longrightarrow> n \<in> set shp \<Longrightarrow> 0 < n"
  by (induction shp arbitrary: c) (auto dest!: coords_ConsE)

lemma flat_bounds: "c \<in> coords shp \<Longrightarrow> 0 \<le> flat shp c \<and> flat shp c < prod_list shp"
proof (induction shp arbitrary: c)
  case (Cons n ns)
  from coords_ConsE [OF Cons.prems] obtain x d where c: "c = x # d" "0 \<le> x" "x < n" "d \<in> coords ns" by blast
  have m: "0 \<le> prod_list ns" using Cons.IH [OF c(4)] by simp
  have "0 \<le> x * prod_list ns + flat ns d \<and> x * prod_list ns + flat ns d < n * prod_list ns"
    using fuse_index [OF m, of "x * prod_list ns + flat ns d" n] Cons.IH [OF c(4)] c by blast
  then show ?case by (simp add: c)
qed simp

lemma flat_inj: "c \<in> coords shp \<Longrightarrow> c' \<in> coords shp \<Longrightarrow> flat shp c = flat shp c' \<Longrightarrow> c = c'"
proof (induction shp arbitrary: c c')
  case (Cons n ns)
  from coords_ConsE [OF Cons.prems(1)] obtain x d where c: "c = x # d" "d \<in> coords ns" by blast
  from coords_ConsE [OF Cons.prems(2)] obtain y e where c': "c' = y # e" "e \<in> coords ns" by blast
  note b = flat_bounds [OF c(2)] flat_bounds [OF c'(2)]
  have eq: "x * prod_list ns + flat ns d = y * prod_list ns + flat ns e" using Cons.prems(3) by (simp add: c c')
  then have "(x * prod_list ns + flat ns d) div prod_list ns = (y * prod_list ns + flat ns e) div prod_list ns" by simp
  then have "x = y" using b by simp
  then show ?case using Cons.IH [OF c(2) c'(2)] eq c c' by simp
qed simp

lemma flat_surj: "0 \<le> k \<Longrightarrow> k < prod_list shp \<Longrightarrow> (\<And>n. n \<in> set shp \<Longrightarrow> 0 \<le> n) \<Longrightarrow> \<exists>c \<in> coords shp. flat shp c = k"
proof (induction shp arbitrary: k)
  case (Cons n ns)
  have m: "0 \<le> prod_list ns" by (rule prod_list_nonneg) (use Cons.prems(3) in auto)
  from fuse_index [OF m, of k n] Cons.prems obtain i j
    where i: "0 \<le> i" "i < n" "0 \<le> j" "j < prod_list ns" "k = i * prod_list ns + j" by auto
  from Cons.IH [OF i(3,4)] Cons.prems(3) obtain c where "c \<in> coords ns" "flat ns c = j" by auto
  with i show ?case by (intro bexI [of _ "i # c"]) simp_all
qed simp

section \<open>Regions as grids\<close>

definition region_set :: "region \<Rightarrow> (int \<times> int) set" where
  "region_set r = set (region_moves r)"

lemma region_set_grid:
  assumes "rsize r = [n0, n1, n2]" and "vstride (rdst r) = [d0, d1, d2]" and "vstride (rsrc r) = [s0, s1, s2]"
  shows "region_set r = {(voffset (rdst r) + d, voffset (rsrc r) + s) | d s. (d, s) \<in> grid [(n0, d0, s0), (n1, d1, s1), (n2, d2, s2)]}"
proof -
  have "grid [(n0, d0, s0), (n1, d1, s1), (n2, d2, s2)] =
      {(z * d0 + y * d1 + x * d2, z * s0 + y * s1 + x * s2) | z y x. z \<in> {0..n0 - 1} \<and> y \<in> {0..n1 - 1} \<and> x \<in> {0..n2 - 1}}"
    by (simp add: add.assoc) blast
  then show ?thesis
    by (simp only: region_set_def region_moves_def assms) (auto simp: add.assoc image_iff; fastforce)
qed

section \<open>Execution\<close>

definition tagged_moves :: "region list \<Rightarrow> (int \<times> nat \<times> int) list" where
  "tagged_moves regs = concat (map (\<lambda>r. map (\<lambda>(d, s). (d, rorigin r, s)) (region_moves r)) regs)"

definition put :: "(nat \<Rightarrow> int \<Rightarrow> 'a) \<Rightarrow> int \<times> nat \<times> int \<Rightarrow> (int \<Rightarrow> 'a) \<Rightarrow> int \<Rightarrow> 'a" where
  "put f e m = m(fst e := f (fst (snd e)) (snd (snd e)))"

lemma put_apply [simp]: "put f (d, k, s) m x = (if x = d then f k s else m x)"
  by (simp add: put_def)

lemma raster_moves: "raster zero inputs regs = fold (put inputs) (tagged_moves regs) (\<lambda>_. zero)"
proof -
  have run: "run_moves (inputs k) ms m = fold (put inputs) (map (\<lambda>(d, s). (d, k, s)) ms) m" for k ms m
    by (simp add: run_moves_def fold_map o_def case_prod_unfold put_def [abs_def])
  have "fold (\<lambda>r. run_moves (inputs (rorigin r)) (region_moves r)) regs m = fold (put inputs) (tagged_moves regs) m" for m
    by (induction regs arbitrary: m) (simp_all add: tagged_moves_def run)
  then show ?thesis by (simp add: raster_def)
qed

lemma fold_put:
  assumes "\<And>e e'. e \<in> set L \<Longrightarrow> e' \<in> set L \<Longrightarrow> fst e = fst e' \<Longrightarrow> e = e'"
  shows "fold (put f) L m d = (case map_of L d of None \<Rightarrow> m d | Some (k, s) \<Rightarrow> f k s)"
  using assms
proof (induction L arbitrary: m)
  case (Cons e L)
  obtain d' k s where e: "e = (d', k, s)" by (metis prod_cases3)
  have IH: "fold (put f) L m d = (case map_of L d of None \<Rightarrow> m d | Some (k, s) \<Rightarrow> f k s)" for m
    by (rule Cons.IH) (use Cons.prems in auto)
  have "(k', s') = (k, s)" if "d' = d" "map_of L d = Some (k', s')" for k' s'
    using Cons.prems [of e "(d, k', s')"] map_of_SomeD [OF that(2)] that(1) e by auto
  then show ?case by (auto simp: e IH split: option.split)
qed simp

lemma fold_put_other: "d \<notin> fst ` set L \<Longrightarrow> fold (put f) L m d = m d"
proof (induction L arbitrary: m)
  case (Cons e L)
  then show ?case by (cases e) auto
qed simp

text \<open>When no position is written from two places, the raster puts every source value at its place.\<close>

lemma set_tagged_moves: "set (tagged_moves regs) = {(d, rorigin r, s) | d s r. r \<in> set regs \<and> (d, s) \<in> region_set r}"
  by (auto simp: tagged_moves_def region_set_def)

lemma raster_other:
  assumes "\<And>r s. r \<in> set regs \<Longrightarrow> (d, s) \<notin> region_set r"
  shows "raster zero inputs regs d = zero"
proof -
  have "d \<notin> fst ` set (tagged_moves regs)" using assms unfolding set_tagged_moves by force
  then show ?thesis unfolding raster_moves by (rule fold_put_other)
qed

lemma raster_tagged:
  assumes eq: "set (tagged_moves regs) = (\<lambda>x. (f x, h x, g x)) ` X" and inj: "inj_on f X" and x: "x \<in> X"
  shows "raster zero inputs regs (f x) = inputs (h x) (g x)"
proof -
  have f: "e = e'" if e: "e \<in> set (tagged_moves regs)" "e' \<in> set (tagged_moves regs)" "fst e = fst e'" for e e'
  proof -
    from e(1) obtain a where a: "a \<in> X" "e = (f a, h a, g a)" unfolding eq by blast
    from e(2) obtain b where b: "b \<in> X" "e' = (f b, h b, g b)" unfolding eq by blast
    have "a = b" by (rule inj_onD [OF inj _ a(1) b(1)]) (use e(3) a(2) b(2) in simp)
    then show ?thesis using a(2) b(2) by simp
  qed
  have m: "(f x, h x, g x) \<in> set (tagged_moves regs)" using eq x by blast
  then have "map_of (tagged_moves regs) (f x) \<noteq> None" by (simp add: map_of_eq_None_iff image_iff) force
  then obtain y where y: "map_of (tagged_moves regs) (f x) = Some y" by blast
  have "(f x, y) = (f x, h x, g x)" by (rule f [OF map_of_SomeD [OF y] m]) simp
  then show ?thesis using y by (simp add: raster_moves fold_put [OF f])
qed

lemma raster_graph:
  assumes eq: "(\<Union>r \<in> set regs. region_set r) = {(f c, g c) | c. c \<in> X}" and inj: "inj_on f X"
    and o: "\<And>r. r \<in> set regs \<Longrightarrow> rorigin r = k" and c: "c \<in> X"
  shows "raster zero inputs regs (f c) = inputs k (g c)"
proof -
  have "set (tagged_moves regs) = (\<lambda>(d, s). (d, k, s)) ` (\<Union>r \<in> set regs. region_set r)"
    using o unfolding set_tagged_moves by force
  then have "set (tagged_moves regs) = (\<lambda>c. (f c, k, g c)) ` X" unfolding eq by force
  from raster_tagged [OF this inj c] show ?thesis .
qed

section \<open>Enumerating the outer coordinates\<close>

lemma unravel_flat: "c \<in> coords ns \<Longrightarrow> unravelIndexHelper (dense_strides ns) (flat ns c) = c"
proof (induction ns arbitrary: c)
  case (Cons n ns)
  from coords_ConsE [OF Cons.prems] obtain x d where c: "c = x # d" "0 \<le> x" "d \<in> coords ns" by blast
  note b = flat_bounds [OF c(3)]
  have "0 \<le> x * prod_list ns + flat ns d" using c(2) b by simp
  moreover have "(x * prod_list ns + flat ns d) div prod_list ns = x" "(x * prod_list ns + flat ns d) mod prod_list ns = flat ns d"
    using b by simp_all
  moreover have "0 < prod_list ns" using b by linarith
  ultimately show ?case using Cons.IH [OF c(3)] by (simp add: c(1) sdiv_pos smod_pos)
qed simp

lemma unravel_image:
  assumes "\<And>n. n \<in> set ns \<Longrightarrow> 0 \<le> n"
  shows "unravelIndexHelper (dense_strides ns) ` {0..<prod_list ns} = coords ns"
proof (intro set_eqI iffI)
  fix c assume "c \<in> unravelIndexHelper (dense_strides ns) ` {0..<prod_list ns}"
  then obtain k where k: "0 \<le> k" "k < prod_list ns" "c = unravelIndexHelper (dense_strides ns) k" by auto
  from flat_surj [OF k(1,2) assms] show "c \<in> coords ns" using k(3) unravel_flat by auto
next
  fix c assume c: "c \<in> coords ns"
  show "c \<in> unravelIndexHelper (dense_strides ns) ` {0..<prod_list ns}"
    by (rule image_eqI [of _ _ "flat ns c"]) (use flat_bounds [OF c] unravel_flat [OF c] in simp_all)
qed

lemma grid_append:
  "grid (xs @ ys) = {(a + d, b + s) | a b d s. (a, b) \<in> grid xs \<and> (d, s) \<in> grid ys}"
proof (induction xs)
  case (Cons x xs)
  obtain n u v where x: "x = (n, u, v)" by (cases x)
  have "grid ((x # xs) @ ys) = {(i * u + d, i * v + s) | i d s. 0 \<le> i \<and> i < n \<and> (d, s) \<in> grid (xs @ ys)}"
    by (simp add: x)
  also have "\<dots> = {(a + d, b + s) | a b d s. (a, b) \<in> grid (x # xs) \<and> (d, s) \<in> grid ys}"
  proof (intro set_eqI iffI)
    fix p assume "p \<in> {(i * u + d, i * v + s) | i d s. 0 \<le> i \<and> i < n \<and> (d, s) \<in> grid (xs @ ys)}"
    then obtain i d s where p: "p = (i * u + d, i * v + s)" "0 \<le> i" "i < n" "(d, s) \<in> grid (xs @ ys)" by blast
    from p(4) obtain a b d' s' where q: "d = a + d'" "s = b + s'" "(a, b) \<in> grid xs" "(d', s') \<in> grid ys"
      unfolding Cons.IH by blast
    have "(i * u + a, i * v + b) \<in> grid (x # xs)" using p(2,3) q(3) by (auto simp: x)
    moreover have "p = (i * u + a + d', i * v + b + s')" using p(1) q(1,2) by simp
    ultimately show "p \<in> {(a + d, b + s) | a b d s. (a, b) \<in> grid (x # xs) \<and> (d, s) \<in> grid ys}" using q(4) by blast
  next
    fix p assume "p \<in> {(a + d, b + s) | a b d s. (a, b) \<in> grid (x # xs) \<and> (d, s) \<in> grid ys}"
    then obtain i a b d s where p: "p = (i * u + a + d, i * v + b + s)" "0 \<le> i" "i < n" "(a, b) \<in> grid xs" "(d, s) \<in> grid ys"
      by (auto simp: x)
    have "(a + d, b + s) \<in> grid (xs @ ys)" using p(4,5) unfolding Cons.IH by blast
    moreover have "p = (i * u + (a + d), i * v + (b + s))" using p(1) by simp
    ultimately show "p \<in> {(i * u + d, i * v + s) | i d s. 0 \<le> i \<and> i < n \<and> (d, s) \<in> grid (xs @ ys)}" using p(2,3) by blast
  qed
  finally show ?case .
qed simp

lemma regions_cover:
  assumes regs: "regs = map mk [0..prod_list (map fst D) - 1]" and pos: "\<And>n. n \<in> fst ` set D \<Longrightarrow> 0 \<le> n"
    and size: "\<And>k. rsize (mk k) = [n0, n1, n2]"
    and dst: "\<And>k. vstride (rdst (mk k)) = [d0, d1, d2]" and src: "\<And>k. vstride (rsrc (mk k)) = [s0, s1, s2]"
    and doff: "\<And>k. 0 \<le> k \<Longrightarrow> k < prod_list (map fst D) \<Longrightarrow> voffset (rdst (mk k)) = bd +
        lin (map (fst \<circ> snd) D) (unravelIndexHelper (dense_strides (map fst D)) k)"
    and soff: "\<And>k. 0 \<le> k \<Longrightarrow> k < prod_list (map fst D) \<Longrightarrow> voffset (rsrc (mk k)) = bs +
        lin (map (snd \<circ> snd) D) (unravelIndexHelper (dense_strides (map fst D)) k)"
  shows "(\<Union>r \<in> set regs. region_set r) =
     {(bd + d, bs + s) | d s. (d, s) \<in> grid (D @ [(n0, d0, s0), (n1, d1, s1), (n2, d2, s2)])}"
proof -
  let ?u = "unravelIndexHelper (dense_strides (map fst D))" and ?I = "grid [(n0, d0, s0), (n1, d1, s1), (n2, d2, s2)]"
  let ?ld = "lin (map (fst \<circ> snd) D)" and ?ls = "lin (map (snd \<circ> snd) D)"
  have "(\<Union>r \<in> set regs. region_set r) = (\<Union>k \<in> {0..<prod_list (map fst D)}. region_set (mk k))"
    unfolding regs by auto
  also have "\<dots> = (\<Union>k \<in> {0..<prod_list (map fst D)}. {(bd + ?ld (?u k) + d, bs + ?ls (?u k) + s) | d s. (d, s) \<in> ?I})"
    by (intro SUP_cong refl) (simp add: region_set_grid [OF size dst src] doff soff del: grid.simps)
  also have "\<dots> = (\<Union>c \<in> ?u ` {0..<prod_list (map fst D)}. {(bd + ?ld c + d, bs + ?ls c + s) | d s. (d, s) \<in> ?I})"
    by simp
  also have "\<dots> = (\<Union>c \<in> coords (map fst D). {(bd + ?ld c + d, bs + ?ls c + s) | d s. (d, s) \<in> ?I})"
    by (subst unravel_image) (use pos in auto)
  also have "\<dots> = {(bd + d, bs + s) | d s. (d, s) \<in> grid (D @ [(n0, d0, s0), (n1, d1, s1), (n2, d2, s2)])}"
    unfolding grid_append unfolding grid_coords [of D] by (auto simp del: grid.simps simp: add.assoc) (metis add.assoc)
  finally show ?thesis .
qed

text \<open>The last three dimensions go into a region; a missing one counts as one entry, whatever its strides.\<close>

definition dim_or :: "int \<Rightarrow> int \<Rightarrow> nat \<Rightarrow> (int \<times> int \<times> int) list \<Rightarrow> int \<times> int \<times> int" where
  "dim_or a b k T = (if k \<le> length T then T ! (length T - k) else (1, a, b))"

lemma last_three_grid:
  "grid (take (length T - 3) T @ [dim_or a b 3 T, dim_or a b 2 T, dim_or a b 1 T]) = grid T"
proof (cases "3 \<le> length T")
  case True
  define m where "m = length T - 3"
  have m: "length T = Suc (Suc (Suc m))" using True by (simp add: m_def)
  then have "drop m T = [T ! m, T ! Suc m, T ! Suc (Suc m)]"
    using Cons_nth_drop_Suc [of m T] Cons_nth_drop_Suc [of "Suc m" T] Cons_nth_drop_Suc [of "Suc (Suc m)" T] by simp
  then have "take m T @ [T ! m, T ! Suc m, T ! Suc (Suc m)] = T" using append_take_drop_id [of m T] by simp
  then show ?thesis using m by (simp add: dim_or_def del: grid.simps)
next
  case False
  consider "T = []" | x where "T = [x]" | x y where "T = [x, y]"
    using False by (cases T; cases "tl T"; cases "tl (tl T)") auto
  then show ?thesis by cases (simp_all add: dim_or_def grid_unit del: grid.simps)
qed

text \<open>Input data for concrete runs: entry \<open>i\<close> of input \<open>k\<close>.\<close>

definition demo_data :: "nat \<Rightarrow> int \<Rightarrow> int" where
  "demo_data k i = 100 * int k + i"

end
