(* ===== verification/Region_Fuse.thy ===== *)
theory Region_Fuse
  imports Region_Grid
begin

text \<open>
  Fusing two copies into one (\<open>FuseRegionStatus\<close> of \<open>source/core/TensorUtils.cpp\<close>): \<open>match\<close> decides whether
  the region \<open>dstReg\<close>, which reads a virtual tensor, can read the origin of the region \<open>srcReg\<close>, which
  writes that tensor, and \<open>apply\<close> rewrites it. The object outlives the calls: its arrays keep the entries
  of earlier matches, and the record keeps them as well. The C arrays of three entries are lists of
  length three.
\<close>

section \<open>Offsets and the splitting of a dimension\<close>

text \<open>\<open>offsetCompute\<close>: from the entry a view steps over to the entry the other view steps over.\<close>

definition offset_step :: "view \<Rightarrow> view \<Rightarrow> int list \<Rightarrow> nat \<Rightarrow> int \<times> int \<times> int \<Rightarrow> int \<times> int \<times> int" where
  "offset_step src dst sz i = (\<lambda>(res, so, d).
     if 1 < sz ! i then
       (res + (so sdiv vstride src ! i - d sdiv vstride src ! i) * vstride dst ! i,
        so smod vstride src ! i, d smod vstride src ! i)
     else (res, so, d))"

definition offsetCompute :: "region \<Rightarrow> int \<Rightarrow> int \<Rightarrow> bool \<Rightarrow> int" where
  "offsetCompute reg srcOffset dstOffset backward =
     (let (src, dst) = (if backward then (rdst reg, rsrc reg) else (rsrc reg, rdst reg))
      in fst (fold (offset_step src dst (rsize reg)) [0..<3] (0, srcOffset, dstOffset)))"

text \<open>\<open>MNN_3_INT_INSERT\<close>: make room at \<open>i\<close> and drop what leaves the array.\<close>

definition int3_insert :: "int list \<Rightarrow> nat \<Rightarrow> int \<Rightarrow> int list" where
  "int3_insert x i y = take 3 (take i x @ y # drop i x)"

fun expand_at ::
  "nat \<Rightarrow> int list \<Rightarrow> int list \<Rightarrow> int list \<Rightarrow> nat \<Rightarrow> int \<Rightarrow> bool \<times> int list \<times> int list \<times> int list \<times> nat" where
  "expand_at 0 src dst sz num v = (False, src, dst, sz, num)"
| "expand_at (Suc i) src dst sz num v =
     (let splitSize = v sdiv src ! i in
      if v smod src ! i = 0 \<and> sz ! i smod splitSize = 0 then
        (let src' = int3_insert src i v;
             dst' = int3_insert dst i (splitSize * dst ! i);
             sz' = sz[i := sz ! i sdiv splitSize]
         in if 2 < Suc i then (False, src', dst', sz', num)
            else (let sz'' = int3_insert sz' (Suc i) splitSize
                  in if 3 < Suc num then (False, src', dst', sz'', Suc num) else (True, src', dst', sz'', Suc num)))
      else expand_at i src dst sz num v)"

definition expandStrideSize ::
  "int list \<Rightarrow> int list \<Rightarrow> int list \<Rightarrow> nat \<Rightarrow> int \<Rightarrow> bool \<times> int list \<times> int list \<times> int list \<times> nat" where
  "expandStrideSize src dst sz num v = expand_at num src dst sz num v"

section \<open>The overlap of two boxes of positions\<close>

text \<open>The positions of the strides from the largest to the smallest (\<open>validIndex\<close>).\<close>

definition max_index :: "int list \<Rightarrow> nat \<Rightarrow> nat" where
  "max_index stride n = fold (\<lambda>i m. if stride ! m < stride ! i then i else m) [1..<n] 0"

definition min_index :: "int list \<Rightarrow> nat \<Rightarrow> nat" where
  "min_index stride n = fold (\<lambda>i m. if stride ! i < stride ! m then i else m) [1..<n] 0"

definition validIndex :: "int list \<Rightarrow> nat \<Rightarrow> nat list" where
  "validIndex stride n =
     (if n = 2 then (if stride ! 0 < stride ! 1 then [1, 0, 2] else [0, 1, 2])
      else if 2 < n then
        (let maxi = max_index stride n; mini = min_index stride n;
             mid = (case filter (\<lambda>i. i \<noteq> maxi \<and> i \<noteq> mini) [0..<n] of [] \<Rightarrow> 1 | i # _ \<Rightarrow> i)
         in [maxi, mid, mini])
      else [0, 1, 2])"

definition digit_step :: "int list \<Rightarrow> nat \<Rightarrow> int \<times> int \<times> int list \<Rightarrow> int \<times> int \<times> int list" where
  "digit_step stride v = (\<lambda>(so, d, off).
     (so smod stride ! v, d smod stride ! v, off[v := d sdiv stride ! v - so sdiv stride ! v]))"

definition clip_digits :: "int list \<Rightarrow> int \<Rightarrow> int \<Rightarrow> nat \<Rightarrow> int \<times> int \<times> int list" where
  "clip_digits stride so d n = fold (digit_step stride) (take n (validIndex stride n)) (so, d, [0, 0, 0])"

text \<open>The range of the destination that the source feeds, per dimension, before any check.\<close>

definition clip_range ::
  "int list \<Rightarrow> int \<Rightarrow> int \<Rightarrow> int list \<Rightarrow> int list \<Rightarrow> nat \<Rightarrow> int list \<Rightarrow> int list \<Rightarrow> bool \<times> int list \<times> int list" where
  "clip_range stride srcOffset dstOffset srcSize dstSize n dstMax dstMin =
     (if n = 0 then (dstOffset - srcOffset = 0, dstMax, dstMin)
      else
        (let (so, d, off) = clip_digits stride srcOffset dstOffset n in
         if so \<noteq> 0 \<or> d \<noteq> 0 then (False, dstMax, dstMin)
         else (True,
               map (\<lambda>i. if i < n then min (srcSize ! i - off ! i) (dstSize ! i) else dstMax ! i) [0..<3],
               map (\<lambda>i. if i < n then max 0 (- (off ! i)) else dstMin ! i) [0..<3])))"

text \<open>Whether a part of the destination behind \<open>dstMax\<close> meets the source again, in another row.\<close>

definition clip_again ::
  "int list \<Rightarrow> int \<Rightarrow> int \<Rightarrow> int list \<Rightarrow> int list \<Rightarrow> nat \<Rightarrow> int list \<Rightarrow> nat \<Rightarrow> nat \<Rightarrow> bool" where
  "clip_again stride srcOffset dstOffset srcSize dstSize n dstMax i k \<longleftrightarrow>
     (let newSrcSize = srcSize[k := srcSize ! k - dstMax ! k];
          newDstSize = dstSize[i := dstSize ! i - dstMax ! i];
          (status, mx, mn) = clip_range stride (srcOffset + dstMax ! k * stride ! k)
             (dstOffset + dstMax ! i * stride ! i) newSrcSize newDstSize n [0, 0, 0] [0, 0, 0]
      in status \<and> (\<forall>j \<in> {0..<n}. mn ! j < mx ! j))"

definition ClipDst ::
  "int list \<Rightarrow> int \<Rightarrow> int \<Rightarrow> int list \<Rightarrow> int list \<Rightarrow> nat \<Rightarrow> int list \<Rightarrow> int list \<Rightarrow> bool \<Rightarrow> bool \<times> int list \<times> int list" where
  "ClipDst stride srcOffset dstOffset srcSize dstSize n dstMax0 dstMin0 checkFull =
     (let (ok, dstMax, dstMin) = clip_range stride srcOffset dstOffset srcSize dstSize n dstMax0 dstMin0 in
      if n = 0 \<or> \<not> ok then (ok, dstMax, dstMin)
      else
        (let srcMax = sum_list (map (\<lambda>i. srcSize ! i * stride ! i) [0..<n]);
             srcMin = fold (\<lambda>i m. if dstMax ! i < srcSize ! i then (if m = - 1 then stride ! i else min (stride ! i) m) else m)
                        [0..<n] (- 1)
         in if srcMin < 0 \<or> \<not> checkFull then (True, dstMax, dstMin)
            else (\<not> (\<exists>i \<in> {0..<n}. dstMax ! i \<noteq> dstSize ! i \<and>
                      (let bias = dstOffset - srcOffset + dstMax ! i * stride ! i in bias < srcMax \<and> srcMin \<le> bias) \<and>
                      (\<exists>k \<in> {0..<n}. dstMax ! k < srcSize ! k \<and>
                         clip_again stride srcOffset dstOffset srcSize dstSize n dstMax i k)),
                  dstMax, dstMin)))"

section \<open>The status of a fusion\<close>

datatype fuse_kind = FUSE_SRC_COPY | FUSE_REGION_COMPUTE

record fuse_status =
  mStatus :: fuse_kind
  srcDst :: "int list"
  srcSrc :: "int list"
  dstSrc :: "int list"
  dstDst :: "int list"
  srcSize :: "int list"
  dstSize :: "int list"
  newSrc :: "int list"
  dstStride :: "int list"
  srcStride :: "int list"
  dstMin :: "int list"
  dstMax :: "int list"
  newSrcSize :: "int list"
  srcNum :: nat
  dstNum :: nat
  sizeNum :: nat
  newSrcOffset :: int
  newDstOffset :: int
  expandIdx :: int

text \<open>A freshly allocated object; the code leaves the entries undefined.\<close>

definition fuse_init :: fuse_status where
  "fuse_init = \<lparr>mStatus = FUSE_SRC_COPY, srcDst = [0, 0, 0], srcSrc = [0, 0, 0], dstSrc = [0, 0, 0], dstDst = [0, 0, 0],
     srcSize = [0, 0, 0], dstSize = [0, 0, 0], newSrc = [0, 0, 0], dstStride = [0, 0, 0], srcStride = [0, 0, 0],
     dstMin = [0, 0, 0], dstMax = [0, 0, 0], newSrcSize = [0, 0, 0], srcNum = 0, dstNum = 0, sizeNum = 0,
     newSrcOffset = 0, newDstOffset = 0, expandIdx = 0\<rparr>"

section \<open>\<open>match\<close>\<close>

text \<open>Views with several entries along a dimension and a stride that does not advance are not dealt with.\<close>

definition positive_strides :: "region \<Rightarrow> bool" where
  "positive_strides r \<longleftrightarrow>
     (\<forall>i \<in> {0, 1, 2}. 1 < rsize r ! i \<longrightarrow> 0 < vstride (rsrc r) ! i \<and> 0 < vstride (rdst r) ! i)"

definition last_position :: "view \<Rightarrow> int list \<Rightarrow> int" where
  "last_position v sz = fold (\<lambda>i p. p + vstride v ! i * (sz ! i - 1)) [0..<3] (voffset v)"

definition total_size :: "int list \<Rightarrow> int" where
  "total_size sz = fold (\<lambda>i n. if 1 < sz ! i then n * sz ! i else n) [0..<3] 1"

definition copy_valid :: "region \<Rightarrow> region \<Rightarrow> bool" where
  "copy_valid srcReg dstReg \<longleftrightarrow>
     \<not> (voffset (rsrc dstReg) < voffset (rdst srcReg) \<or> rsize srcReg ! 2 < vstride (rdst srcReg) ! 1 \<or>
        rsize srcReg ! 1 * rsize srcReg ! 2 < vstride (rdst srcReg) ! 2) \<and>
     \<not> total_size (rsize srcReg) < total_size (rsize dstReg) \<and>
     \<not> (voffset (rsrc dstReg) < voffset (rdst srcReg) \<or>
        last_position (rdst srcReg) (rsize srcReg) < last_position (rsrc dstReg) (rsize dstReg))"

text \<open>The dimensions with more than one entry move to the front of the arrays.\<close>

definition gather_src :: "region \<Rightarrow> nat \<Rightarrow> fuse_status \<Rightarrow> fuse_status" where
  "gather_src r i st =
     (if 1 < rsize r ! i then
        st\<lparr>srcStride := (srcStride st)[srcNum st := vstride (rdst r) ! i],
           srcDst := (srcDst st)[srcNum st := vstride (rdst r) ! i],
           srcSrc := (srcSrc st)[srcNum st := vstride (rsrc r) ! i],
           srcSize := (srcSize st)[srcNum st := rsize r ! i], srcNum := Suc (srcNum st)\<rparr>
      else st)"

definition gather_dst :: "region \<Rightarrow> nat \<Rightarrow> fuse_status \<Rightarrow> fuse_status" where
  "gather_dst r i st =
     (if 1 < rsize r ! i then
        st\<lparr>dstStride := (dstStride st)[dstNum st := vstride (rsrc r) ! i],
           dstDst := (dstDst st)[dstNum st := vstride (rdst r) ! i],
           dstSrc := (dstSrc st)[dstNum st := vstride (rsrc r) ! i],
           dstSize := (dstSize st)[dstNum st := rsize r ! i], dstNum := Suc (dstNum st)\<rparr>
      else st)"

definition gather :: "region \<Rightarrow> region \<Rightarrow> fuse_status \<Rightarrow> fuse_status" where
  "gather srcReg dstReg st =
     (let st1 = fold (\<lambda>i s. gather_dst dstReg i (gather_src srcReg i s)) [0..<3]
                  (st\<lparr>dstStride := [- 1, - 1, - 1], srcStride := [- 1, - 1, - 1], expandIdx := - 1,
                      srcNum := 0, dstNum := 0, sizeNum := 0\<rparr>)
      in st1\<lparr>sizeNum := dstNum st1\<rparr>)"

text \<open>
  \<open>MNN_3_INT_DIFF\<close> for the three entries of \<open>x\<close>: the stride of \<open>x\<close> that \<open>y\<close> does not have, \<open>-1\<close> without
  one; \<open>None\<close> is the early return when there is another after a positive one.
\<close>

fun int3_diff :: "int \<Rightarrow> int list \<Rightarrow> int list \<Rightarrow> int option" where
  "int3_diff r [] y = Some r"
| "int3_diff r (a # x) y =
     (if a \<noteq> y ! 0 \<and> a \<noteq> y ! 1 \<and> a \<noteq> y ! 2 then (if 0 < r then None else int3_diff a x y) else int3_diff r x y)"

definition expand_src :: "int \<Rightarrow> fuse_status \<Rightarrow> bool \<times> fuse_status" where
  "expand_src extra st =
     (if 0 < extra then
        (let (ok, a, b, sz, num) = expandStrideSize (srcDst st) (srcSrc st) (srcSize st) (srcNum st) extra
         in (ok, st\<lparr>srcDst := a, srcSrc := b, srcSize := sz, srcNum := num\<rparr>))
      else (True, st))"

definition expand_dst :: "int \<Rightarrow> fuse_status \<Rightarrow> bool \<times> fuse_status" where
  "expand_dst extra st =
     (if 0 < extra then
        (let (ok, a, b, sz, num) = expandStrideSize (dstSrc st) (dstDst st) (dstSize st) (dstNum st) extra
         in (ok, st\<lparr>dstSrc := a, dstDst := b, dstSize := sz, dstNum := num\<rparr>))
      else (True, st))"

text \<open>The source strides in the order of the destination.\<close>

fun align_src :: "nat list \<Rightarrow> fuse_status \<Rightarrow> bool \<times> fuse_status" where
  "align_src [] st = (True, st)"
| "align_src (i # js) st =
     (case filter (\<lambda>j. dstSrc st ! j = srcDst st ! i) [0..<dstNum st] of
        [] \<Rightarrow> (False, st)
      | index # _ \<Rightarrow>
          align_src js (st\<lparr>newSrc := (newSrc st)[index := srcSrc st ! i],
                            newSrcSize := (newSrcSize st)[index := srcSize st ! i]\<rparr>))"

text \<open>The loop over \<open>dstMin\<close> and \<open>dstMax\<close>: stop at an empty range, else move both offsets to its begin.\<close>

fun shift_offsets :: "nat list \<Rightarrow> fuse_status \<Rightarrow> fuse_status" where
  "shift_offsets [] st = st"
| "shift_offsets (i # js) st =
     (if dstMax st ! i \<le> dstMin st ! i then st\<lparr>dstSize := [0, 0, 0]\<rparr>
      else shift_offsets js
        (if 0 < dstMin st ! i then
           st\<lparr>newDstOffset := newDstOffset st + dstMin st ! i * dstDst st ! i,
              newSrcOffset := newSrcOffset st + dstMin st ! i * newSrc st ! i\<rparr>
         else st))"

definition clip_status :: "region \<Rightarrow> region \<Rightarrow> fuse_status \<Rightarrow> bool \<times> fuse_status" where
  "clip_status srcReg dstReg st0 =
     (let st = st0\<lparr>newSrcOffset :=
                offsetCompute srcReg (voffset (rsrc dstReg)) (voffset (rdst srcReg)) True + voffset (rsrc srcReg)\<rparr>;
          (ok, mx, mn) = ClipDst (dstSrc st) (voffset (rdst srcReg)) (voffset (rsrc dstReg)) (newSrcSize st) (dstSize st)
             (dstNum st) (dstMax st) (dstMin st) True;
          st1 = st\<lparr>dstMax := mx, dstMin := mn\<rparr>
      in if \<not> ok then (False, st1)
         else (True, (shift_offsets [0..<dstNum st1] (st1\<lparr>newDstOffset := voffset (rdst dstReg)\<rparr>))
                       \<lparr>mStatus := FUSE_REGION_COMPUTE\<rparr>))"

text \<open>Everything before the clipping: the dimensions of both regions over the same strides of the middle.\<close>

definition fuse_align :: "region \<Rightarrow> region \<Rightarrow> fuse_status \<Rightarrow> bool \<times> fuse_status" where
  "fuse_align srcReg dstReg st =
     (let st1 = gather srcReg dstReg st in
      case int3_diff (- 1) (srcStride st1) (dstStride st1) of
        None \<Rightarrow> (False, st1)
      | Some srcExtra \<Rightarrow>
          (case int3_diff (- 1) (dstStride st1) (srcStride st1) of
             None \<Rightarrow> (False, st1)
           | Some dstExtra \<Rightarrow>
               (let (ok2, st2) = expand_src dstExtra st1 in
                if \<not> ok2 then (False, st2)
                else
                  (let (ok3, st3) = expand_dst srcExtra st2 in
                   if \<not> ok3 then (False, st3) else align_src [0..<srcNum st3] st3))))"

definition fuse_match :: "region \<Rightarrow> region \<Rightarrow> fuse_status \<Rightarrow> bool \<times> fuse_status" where
  "fuse_match srcReg dstReg st =
     (if \<not> positive_strides srcReg \<or> \<not> positive_strides dstReg then (False, st)
      else if isCopyRegion srcReg \<and> copy_valid srcReg dstReg then (True, st\<lparr>mStatus := FUSE_SRC_COPY\<rparr>)
      else (case fuse_align srcReg dstReg st of
              (False, st') \<Rightarrow> (False, st')
            | (True, st') \<Rightarrow> clip_status srcReg dstReg st'))"

section \<open>\<open>apply\<close>\<close>

text \<open>
  The strides of the fused region, from the front of the arrays to its last dimensions; \<open>idx\<close> counts the
  dimensions that are in use.
\<close>

definition stride_step ::
  "fuse_status \<Rightarrow> (nat \<Rightarrow> bool) \<Rightarrow> nat \<Rightarrow> nat \<times> int list \<times> int list \<Rightarrow> nat \<times> int list \<times> int list" where
  "stride_step st valid i = (\<lambda>(idx, ss, ds).
     if valid i \<or> int i = expandIdx st then
       (Suc idx, ss[i + (3 - dstNum st) := newSrc st ! idx], ds[i + (3 - dstNum st) := dstDst st ! idx])
     else (idx, ss, ds))"

text \<open>An empty region only gets a first extent of zero; its origin becomes null and is not read again.\<close>

definition fuse_apply :: "region \<Rightarrow> region \<Rightarrow> fuse_status \<Rightarrow> region \<times> fuse_status" where
  "fuse_apply srcReg dstReg st =
     (case mStatus st of
        FUSE_SRC_COPY \<Rightarrow>
          (dstReg\<lparr>rorigin := rorigin srcReg,
              rsrc := (rsrc dstReg)\<lparr>voffset := voffset (rsrc dstReg) + (voffset (rsrc srcReg) - voffset (rdst srcReg))\<rparr>\<rparr>,
           st)
      | FUSE_REGION_COMPUTE \<Rightarrow>
          (if dstSize st ! 0 = 0 then (dstReg\<lparr>rsize := (rsize dstReg)[0 := 0]\<rparr>, st)
           else
             (let off = 3 - dstNum st;
                  sz = fold (\<lambda>i s. s[i + off := dstMax st ! i - dstMin st ! i]) [0..<dstNum st] [1, 1, 1];
                  valid = (\<lambda>i. i < dstNum st \<and> 1 < dstSize st ! i);
                  st1 = (if sizeNum st < dstNum st
                         then fold (\<lambda>i s. if dstSize s ! i = 1 then s\<lparr>expandIdx := int i\<rparr> else s) (rev [0..<dstNum st]) st
                         else st);
                  (idx, ss, ds) = fold (stride_step st1 valid) [0..<3] (0, [0, 0, 0], [0, 0, 0])
              in (\<lparr>rsrc = \<lparr>voffset = newSrcOffset st, vstride = ss\<rparr>,
                   rdst = \<lparr>voffset = newDstOffset st, vstride = ds\<rparr>,
                   rsize = sz, rorigin = rorigin srcReg\<rparr>, st1))))"

end
