(* ===== verification/Fuse_Boxes.thy ===== *)
theory Fuse_Boxes
  imports Region_Fuse
begin

text \<open>
  The composition of two boxes of positions that run over the same strides of the middle: the positions they
  share, digit by digit, and the box of pairs that results.
\<close>

section \<open>Composing two boxes of positions\<close>

text \<open>
  A dimension both regions run over: the stride of the middle, and extent and outer stride of the
  source and of the destination.
\<close>

type_synonym mid_dim = "int \<times> (int \<times> int) \<times> (int \<times> int)"

definition src_dims :: "mid_dim list \<Rightarrow> (int \<times> int \<times> int) list" where
  "src_dims = map (\<lambda>(t, (a, s), (b, d)). (a, t, s))"

definition dst_dims :: "mid_dim list \<Rightarrow> (int \<times> int \<times> int) list" where
  "dst_dims = map (\<lambda>(t, (a, s), (b, d)). (b, d, t))"

lemma dims_simps [simp]: "src_dims [] = []" "dst_dims [] = []"
  "src_dims ((t, (a, s), (b, d)) # L) = (a, t, s) # src_dims L"
  "dst_dims ((t, (a, s), (b, d)) # L) = (b, d, t) # dst_dims L"
  by (simp_all add: src_dims_def dst_dims_def)

text \<open>
  The farthest position either box reaches behind the offsets \<open>so\<close> and \<open>d0\<close>, written in digits of the
  strides, and the condition that it stays below the next larger stride: no row of either box runs into
  the next row of the grid.
\<close>

fun reach :: "(int \<times> int \<times> int) list \<Rightarrow> int \<Rightarrow> int \<Rightarrow> int" where
  "reach [] so d0 = 0"
| "reach ((t, a, b) # L) so d0 = t * (max (so sdiv t + a) (d0 sdiv t + b) - 1) + reach L (so smod t) (d0 smod t)"

fun nested_boxes :: "(int \<times> int \<times> int) list \<Rightarrow> int \<Rightarrow> int \<Rightarrow> bool" where
  "nested_boxes [] so d0 \<longleftrightarrow> True"
| "nested_boxes ((t, a, b) # L) so d0 \<longleftrightarrow>
     0 < t \<and> 0 < a \<and> 0 < b \<and> (\<forall>x \<in> set L. fst x < t) \<and> reach L (so smod t) (d0 smod t) < t \<and>
     nested_boxes L (so smod t) (d0 smod t)"

fun digits :: "int list \<Rightarrow> int \<Rightarrow> int \<Rightarrow> int list" where
  "digits [] so d0 = []"
| "digits (t # ts) so d0 = (d0 sdiv t - so sdiv t) # digits ts (so smod t) (d0 smod t)"

fun rest :: "int list \<Rightarrow> int \<Rightarrow> int" where
  "rest [] x = x"
| "rest (t # ts) x = rest ts (x smod t)"

definition box_dims :: "mid_dim list \<Rightarrow> (int \<times> int \<times> int) list" where
  "box_dims = map (\<lambda>(t, (a, s), (b, d)). (t, a, b))"

lemma box_dims_simps [simp]: "box_dims [] = []" "box_dims ((t, (a, s), (b, d)) # L) = (t, a, b) # box_dims L"
  by (simp_all add: box_dims_def)

lemma src_reach:
  assumes "nested_boxes (box_dims L) so d0" "0 \<le> so" "rest (map fst L) so = 0" "(m, s) \<in> grid (src_dims L)"
  shows "0 \<le> so + m \<and> so + m \<le> reach (box_dims L) so d0"
  using assms
proof (induction L arbitrary: so d0 m s)
  case (Cons x L)
  obtain t a s0 b d where x: "x = (t, (a, s0), (b, d))" by (metis prod.collapse)
  from Cons.prems(1) have t: "0 < t" and n: "nested_boxes (box_dims L) (so smod t) (d0 smod t)" by (simp_all add: x)
  from Cons.prems(4) obtain i m' s' where m: "m = i * t + m'" "0 \<le> i" "i < a" "(m', s') \<in> grid (src_dims L)"
    by (auto simp: x)
  have sm: "so smod t = so mod t" "so sdiv t = so div t" using t Cons.prems(2) by (simp_all add: smod_pos sdiv_pos)
  have r: "0 \<le> so mod t + m' \<and> so mod t + m' \<le> reach (box_dims L) (so smod t) (d0 smod t)"
    using Cons.IH [OF n _ _ m(4)] Cons.prems(3) t sm by (simp add: x)
  have eq: "so + m = (so div t + i) * t + (so mod t + m')" using m(1) div_mult_mod_eq [of so t] by (simp add: algebra_simps)
  have "(so div t + i) * t \<le> (max (so div t + a) (d0 sdiv t + b) - 1) * t" by (rule mult_right_mono) (use m(2,3) t in auto)
  moreover have "0 \<le> (so div t + i) * t" using m(2) t Cons.prems(2) by (simp add: pos_imp_zdiv_nonneg_iff)
  ultimately show ?case using r eq sm by (simp add: x mult.commute)
qed simp

lemma dst_reach:
  assumes "nested_boxes (box_dims L) so d0" "0 \<le> d0" "rest (map fst L) d0 = 0" "(d, m) \<in> grid (dst_dims L)"
  shows "0 \<le> d0 + m \<and> d0 + m \<le> reach (box_dims L) so d0"
  using assms
proof (induction L arbitrary: so d0 m d)
  case (Cons x L)
  obtain t a s0 b e where x: "x = (t, (a, s0), (b, e))" by (metis prod.collapse)
  from Cons.prems(1) have t: "0 < t" and n: "nested_boxes (box_dims L) (so smod t) (d0 smod t)" by (simp_all add: x)
  from Cons.prems(4) obtain i m' s' where m: "m = i * t + m'" "0 \<le> i" "i < b" "(s', m') \<in> grid (dst_dims L)"
    by (auto simp: x)
  have sm: "d0 smod t = d0 mod t" "d0 sdiv t = d0 div t" using t Cons.prems(2) by (simp_all add: smod_pos sdiv_pos)
  have r: "0 \<le> d0 mod t + m' \<and> d0 mod t + m' \<le> reach (box_dims L) (so smod t) (d0 smod t)"
    using Cons.IH [OF n _ _ m(4)] Cons.prems(3) t sm by (simp add: x)
  have eq: "d0 + m = (d0 div t + i) * t + (d0 mod t + m')" using m(1) div_mult_mod_eq [of d0 t] by (simp add: algebra_simps)
  have "(d0 div t + i) * t \<le> (max (so sdiv t + a) (d0 div t + b) - 1) * t" by (rule mult_right_mono) (use m(2,3) t in auto)
  moreover have "0 \<le> (d0 div t + i) * t" using m(2) t Cons.prems(2) by (simp add: pos_imp_zdiv_nonneg_iff)
  ultimately show ?case using r eq sm by (simp add: x mult.commute)
qed simp

text \<open>The pairs of positions linked through the middle, and the box of them.\<close>

definition linked :: "mid_dim list \<Rightarrow> int \<Rightarrow> int \<Rightarrow> (int \<times> int) set" where
  "linked L so d0 = {(d, s). \<exists>m k. (d, m) \<in> grid (dst_dims L) \<and> (k, s) \<in> grid (src_dims L) \<and> d0 + m = so + k}"

fun fused_dims :: "mid_dim list \<Rightarrow> int list \<Rightarrow> (int \<times> int \<times> int) list" where
  "fused_dims ((t, (a, s), (b, d)) # L) (e # es) = (min (a - e) b - max 0 (- e), d, s) # fused_dims L es"
| "fused_dims _ _ = []"

fun dst_shift :: "mid_dim list \<Rightarrow> int list \<Rightarrow> int" where
  "dst_shift ((t, (a, s), (b, d)) # L) (e # es) = max 0 (- e) * d + dst_shift L es"
| "dst_shift _ _ = 0"

fun src_shift :: "mid_dim list \<Rightarrow> int list \<Rightarrow> int" where
  "src_shift ((t, (a, s), (b, d)) # L) (e # es) = (max 0 (- e) + e) * s + src_shift L es"
| "src_shift _ _ = 0"

lemma linked_Cons:
  assumes nb: "nested_boxes (box_dims ((t, (a, s), (b, d)) # L)) so d0" and nn: "0 \<le> so" "0 \<le> d0"
    and r: "rest (t # map fst L) so = 0" "rest (t # map fst L) d0 = 0"
  defines "e \<equiv> d0 sdiv t - so sdiv t"
  shows "linked ((t, (a, s), (b, d)) # L) so d0 =
    {(y * d + d', (y + e) * s + s') | y d' s'. max 0 (- e) \<le> y \<and> y < min (a - e) b \<and> (d', s') \<in> linked L (so smod t) (d0 smod t)}"
proof -
  from nb have t: "0 < t" and n: "nested_boxes (box_dims L) (so smod t) (d0 smod t)"
    and lt: "reach (box_dims L) (so smod t) (d0 smod t) < t" by simp_all
  have sm: "d0 smod t = d0 mod t" "so smod t = so mod t" and e: "e = d0 div t - so div t"
    using t nn by (simp_all add: smod_pos sdiv_pos e_def)
  have nm: "0 \<le> so smod t" "0 \<le> d0 smod t" using t sm by simp_all
  have key: "d0 + (y * t + m) = so + (x * t + k) \<longleftrightarrow> x = y + e \<and> d0 smod t + m = so smod t + k"
    if "(d', m) \<in> grid (dst_dims L)" "(k, s') \<in> grid (src_dims L)" for y m x k d' s'
  proof -
    let ?u = "d0 mod t + m" and ?v = "so mod t + k"
    have "0 \<le> ?u \<and> ?u < t" using dst_reach [OF n nm(2) _ that(1)] r lt sm by simp
    moreover have "0 \<le> ?v \<and> ?v < t" using src_reach [OF n nm(1) _ that(2)] r lt sm by simp
    ultimately have uv: "?u div t = 0" "?v div t = 0" "?u mod t = ?u" "?v mod t = ?v" by simp_all
    have l: "d0 + (y * t + m) = ?u + (d0 div t + y) * t" using div_mult_mod_eq [of d0 t] by (simp add: algebra_simps)
    have rr: "so + (x * t + k) = ?v + (so div t + x) * t" using div_mult_mod_eq [of so t] by (simp add: algebra_simps)
    show ?thesis
    proof
      assume "d0 + (y * t + m) = so + (x * t + k)"
      then have q: "?u + (d0 div t + y) * t = ?v + (so div t + x) * t" using l rr by simp
      have "(?u + (d0 div t + y) * t) div t = d0 div t + y" "(?v + (so div t + x) * t) div t = so div t + x"
        using uv t by simp_all
      with q have "d0 div t + y = so div t + x" by simp
      with q show "x = y + e \<and> d0 smod t + m = so smod t + k" by (simp add: e sm)
    qed (use l rr in \<open>simp add: e sm\<close>)
  qed
  show ?thesis
  proof (intro set_eqI iffI)
    fix p assume "p \<in> linked ((t, (a, s), (b, d)) # L) so d0"
    then obtain y d' m x k s' where p: "p = (y * d + d', x * s + s')" and b: "0 \<le> y" "y < b" "0 \<le> x" "x < a"
      and g: "(d', m) \<in> grid (dst_dims L)" "(k, s') \<in> grid (src_dims L)" and q: "d0 + (y * t + m) = so + (x * t + k)"
      by (auto simp: linked_def)
    from q key [OF g] have xy: "x = y + e" and q': "d0 smod t + m = so smod t + k" by auto
    from q' g have l: "(d', s') \<in> linked L (so smod t) (d0 smod t)" unfolding linked_def by blast
    have "max 0 (- e) \<le> y \<and> y < min (a - e) b" using b xy by auto
    with p xy l show "p \<in> {(y * d + d', (y + e) * s + s') | y d' s'. max 0 (- e) \<le> y \<and> y < min (a - e) b \<and> (d', s') \<in> linked L (so smod t) (d0 smod t)}"
      by blast
  next
    fix p assume "p \<in> {(y * d + d', (y + e) * s + s') | y d' s'. max 0 (- e) \<le> y \<and> y < min (a - e) b \<and> (d', s') \<in> linked L (so smod t) (d0 smod t)}"
    then obtain y d' s' m k where p: "p = (y * d + d', (y + e) * s + s')" and b: "max 0 (- e) \<le> y" "y < min (a - e) b"
      and g: "(d', m) \<in> grid (dst_dims L)" "(k, s') \<in> grid (src_dims L)" and q: "d0 smod t + m = so smod t + k"
      unfolding linked_def by blast
    have q': "d0 + (y * t + m) = so + ((y + e) * t + k)" using key [OF g] q by blast
    have 1: "(y * d + d', y * t + m) \<in> grid (dst_dims ((t, (a, s), (b, d)) # L))"
      using b g by (simp only: dims_simps grid.simps mem_Collect_eq) (force)
    have 2: "((y + e) * t + k, (y + e) * s + s') \<in> grid (src_dims ((t, (a, s), (b, d)) # L))"
      using b g by (simp only: dims_simps grid.simps mem_Collect_eq) (force)
    from 1 2 q' p show "p \<in> linked ((t, (a, s), (b, d)) # L) so d0" unfolding linked_def by blast
  qed
qed

lemma linked_grid:
  assumes "nested_boxes (box_dims L) so d0" "0 \<le> so" "0 \<le> d0" "rest (map fst L) so = 0" "rest (map fst L) d0 = 0"
  shows "linked L so d0 = {(dst_shift L (digits (map fst L) so d0) + d, src_shift L (digits (map fst L) so d0) + s) | d s.
    (d, s) \<in> grid (fused_dims L (digits (map fst L) so d0))}"
  using assms
proof (induction L arbitrary: so d0)
  case Nil
  then show ?case by (auto simp: linked_def)
next
  case (Cons x L)
  obtain t a s0 b e where x: "x = (t, (a, s0), (b, e))" by (metis prod.collapse)
  let ?e = "d0 sdiv t - so sdiv t"
  have t: "0 < t" using Cons.prems(1) by (simp add: x)
  have nn: "0 \<le> so smod t" "0 \<le> d0 smod t" using t Cons.prems(2,3) by (simp_all add: smod_pos)
  let ?E = "digits (map fst L) (so smod t) (d0 smod t)"
  have IH: "linked L (so smod t) (d0 smod t) = {(dst_shift L ?E + d, src_shift L ?E + s) | d s. (d, s) \<in> grid (fused_dims L ?E)}"
    by (rule Cons.IH) (use Cons.prems nn in \<open>simp_all add: x\<close>)
  have "linked ((t, (a, s0), (b, e)) # L) so d0 =
    {(y * e + d', (y + ?e) * s0 + s') | y d' s'. max 0 (- ?e) \<le> y \<and> y < min (a - ?e) b \<and> (d', s') \<in> linked L (so smod t) (d0 smod t)}"
    by (rule linked_Cons) (use Cons.prems in \<open>simp_all add: x\<close>)
  also have "\<dots> = {((max 0 (- ?e) * e + dst_shift L ?E) + (i * e + d), ((max 0 (- ?e) + ?e) * s0 + src_shift L ?E) + (i * s0 + s)) | i d s.
       0 \<le> i \<and> i < min (a - ?e) b - max 0 (- ?e) \<and> (d, s) \<in> grid (fused_dims L ?E)}" (is "?A = ?B")
  proof (intro set_eqI iffI)
    fix p assume "p \<in> ?A"
    then obtain y d s where p: "p = (y * e + (dst_shift L ?E + d), (y + ?e) * s0 + (src_shift L ?E + s))"
      and y: "max 0 (- ?e) \<le> y" "y < min (a - ?e) b" and g: "(d, s) \<in> grid (fused_dims L ?E)" unfolding IH by blast
    have "p = ((max 0 (- ?e) * e + dst_shift L ?E) + ((y - max 0 (- ?e)) * e + d), ((max 0 (- ?e) + ?e) * s0 + src_shift L ?E) + ((y - max 0 (- ?e)) * s0 + s))"
      unfolding p by (simp add: algebra_simps)
    moreover have "0 \<le> y - max 0 (- ?e) \<and> y - max 0 (- ?e) < min (a - ?e) b - max 0 (- ?e)" using y by linarith
    ultimately show "p \<in> ?B" using g by blast
  next
    fix p assume "p \<in> ?B"
    then obtain i d s where p: "p = ((max 0 (- ?e) * e + dst_shift L ?E) + (i * e + d), ((max 0 (- ?e) + ?e) * s0 + src_shift L ?E) + (i * s0 + s))"
      and i: "0 \<le> i" "i < min (a - ?e) b - max 0 (- ?e)" and g: "(d, s) \<in> grid (fused_dims L ?E)" by blast
    let ?y = "max 0 (- ?e) + i"
    have 1: "p = (?y * e + (dst_shift L ?E + d), (?y + ?e) * s0 + (src_shift L ?E + s))" unfolding p by (simp add: algebra_simps)
    have 2: "max 0 (- ?e) \<le> ?y \<and> ?y < min (a - ?e) b" using i by linarith
    have 3: "(dst_shift L ?E + d, src_shift L ?E + s) \<in> linked L (so smod t) (d0 smod t)" unfolding IH using g by blast
    from 1 2 3 show "p \<in> ?A" by blast
  qed
  finally have fin: "linked ((t, (a, s0), (b, e)) # L) so d0 = ?B" .
  show ?case unfolding x fin by (simp only: list.map fst_conv digits.simps fused_dims.simps dst_shift.simps src_shift.simps grid.simps mem_Collect_eq prod.inject) blast
qed

end
