(* ===== verification/Fuse_Arrays.thy ===== *)
theory Fuse_Arrays
  imports Fuse_Boxes
begin

text \<open>
  What the arrays of a fusion hold after each phase of \<open>match\<close>: gathering, the strides one side lacks,
  splitting, aligning, and the digits of \<open>ClipDst\<close>.
\<close>

section \<open>What the arrays hold\<close>

definition dims3 :: "int list \<Rightarrow> int list \<Rightarrow> int list \<Rightarrow> nat \<Rightarrow> (int \<times> int \<times> int) list" where
  "dims3 mid out sz num = map (\<lambda>i. (sz ! i, mid ! i, out ! i)) [0..<num]"

abbreviation sdims :: "fuse_status \<Rightarrow> (int \<times> int \<times> int) list" where
  "sdims st \<equiv> dims3 (srcDst st) (srcSrc st) (srcSize st) (srcNum st)"

abbreviation ddims :: "fuse_status \<Rightarrow> (int \<times> int \<times> int) list" where
  "ddims st \<equiv> dims3 (dstSrc st) (dstDst st) (dstSize st) (dstNum st)"

definition arrays_ok :: "fuse_status \<Rightarrow> bool" where
  "arrays_ok st \<longleftrightarrow> (\<forall>f \<in> {srcDst, srcSrc, dstSrc, dstDst, srcSize, dstSize, newSrc, dstMin, dstMax, newSrcSize}. length (f st) = 3)"

lemma arrays_ok_simps:
  "arrays_ok st \<longleftrightarrow> length (srcDst st) = 3 \<and> length (srcSrc st) = 3 \<and> length (dstSrc st) = 3 \<and> length (dstDst st) = 3 \<and>
     length (srcSize st) = 3 \<and> length (dstSize st) = 3 \<and> length (newSrc st) = 3 \<and> length (dstMin st) = 3 \<and>
     length (dstMax st) = 3 \<and> length (newSrcSize st) = 3"
  by (simp add: arrays_ok_def)

lemma length3: "length xs = 3 \<longleftrightarrow> (\<exists>a b c. xs = [a, b, c])"
  by (simp add: numeral_3_eq_3 length_Suc_conv) blast

definition region_ok :: "region \<Rightarrow> bool" where
  "region_ok r \<longleftrightarrow> length (rsize r) = 3 \<and> length (vstride (rsrc r)) = 3 \<and> length (vstride (rdst r)) = 3 \<and> (\<forall>n \<in> set (rsize r). 0 < n)"

definition big :: "int \<times> int \<times> int \<Rightarrow> bool" where
  "big x \<longleftrightarrow> 1 < fst x"

text \<open>The dimensions of a region with the stride of its middle first.\<close>

definition src_region :: "region \<Rightarrow> (int \<times> int \<times> int) list" where
  "src_region r = dims3 (vstride (rdst r)) (vstride (rsrc r)) (rsize r) 3"

definition dst_region :: "region \<Rightarrow> (int \<times> int \<times> int) list" where
  "dst_region r = dims3 (vstride (rsrc r)) (vstride (rdst r)) (rsize r) 3"

lemma upt3: "[0..<3] = [0, 1, 2::nat]" by (simp add: upt_rec)

lemma gather_src_keeps [simp]:
  "dstNum (gather_src r i st) = dstNum st" "dstSrc (gather_src r i st) = dstSrc st"
  "dstDst (gather_src r i st) = dstDst st" "dstSize (gather_src r i st) = dstSize st"
  "dstStride (gather_src r i st) = dstStride st" "newSrc (gather_src r i st) = newSrc st"
  "newSrcSize (gather_src r i st) = newSrcSize st" "dstMin (gather_src r i st) = dstMin st"
  "dstMax (gather_src r i st) = dstMax st" "expandIdx (gather_src r i st) = expandIdx st"
  by (simp_all add: gather_src_def)

lemma gather_dst_keeps [simp]:
  "srcNum (gather_dst r i st) = srcNum st" "srcDst (gather_dst r i st) = srcDst st"
  "srcSrc (gather_dst r i st) = srcSrc st" "srcSize (gather_dst r i st) = srcSize st"
  "srcStride (gather_dst r i st) = srcStride st" "newSrc (gather_dst r i st) = newSrc st"
  "newSrcSize (gather_dst r i st) = newSrcSize st" "dstMin (gather_dst r i st) = dstMin st"
  "dstMax (gather_dst r i st) = dstMax st" "expandIdx (gather_dst r i st) = expandIdx st"
  by (simp_all add: gather_dst_def)

lemma gather_src_fields:
  "srcNum (gather_src r i st) = (if 1 < rsize r ! i then Suc (srcNum st) else srcNum st)"
  "srcDst (gather_src r i st) = (if 1 < rsize r ! i then (srcDst st)[srcNum st := vstride (rdst r) ! i] else srcDst st)"
  "srcSrc (gather_src r i st) = (if 1 < rsize r ! i then (srcSrc st)[srcNum st := vstride (rsrc r) ! i] else srcSrc st)"
  "srcSize (gather_src r i st) = (if 1 < rsize r ! i then (srcSize st)[srcNum st := rsize r ! i] else srcSize st)"
  "srcStride (gather_src r i st) = (if 1 < rsize r ! i then (srcStride st)[srcNum st := vstride (rdst r) ! i] else srcStride st)"
  by (simp_all add: gather_src_def)

lemma gather_dst_fields:
  "dstNum (gather_dst r i st) = (if 1 < rsize r ! i then Suc (dstNum st) else dstNum st)"
  "dstSrc (gather_dst r i st) = (if 1 < rsize r ! i then (dstSrc st)[dstNum st := vstride (rsrc r) ! i] else dstSrc st)"
  "dstDst (gather_dst r i st) = (if 1 < rsize r ! i then (dstDst st)[dstNum st := vstride (rdst r) ! i] else dstDst st)"
  "dstSize (gather_dst r i st) = (if 1 < rsize r ! i then (dstSize st)[dstNum st := rsize r ! i] else dstSize st)"
  "dstStride (gather_dst r i st) = (if 1 < rsize r ! i then (dstStride st)[dstNum st := vstride (rsrc r) ! i] else dstStride st)"
  by (simp_all add: gather_dst_def)

definition padded :: "int list \<Rightarrow> int list" where
  "padded xs = take 3 (xs @ [- 1, - 1, - 1])"

lemma gather_src_spec:
  assumes ok: "arrays_ok st"
  shows "sdims (gather S D st) = filter big (src_region S)"
    and "srcStride (gather S D st) = padded (map (fst \<circ> snd) (sdims (gather S D st)))"
  using ok unfolding arrays_ok_simps length3
  by (auto simp: gather_def Let_def upt3 gather_src_fields dims3_def src_region_def big_def padded_def)

lemma gather_dst_spec:
  assumes ok: "arrays_ok st"
  shows "ddims (gather S D st) = filter big (dst_region D)"
    and "dstStride (gather S D st) = padded (map (fst \<circ> snd) (ddims (gather S D st)))"
  using ok unfolding arrays_ok_simps length3
  by (auto simp: gather_def Let_def upt3 gather_dst_fields dims3_def dst_region_def big_def padded_def)

lemma gather_ok:
  assumes ok: "arrays_ok st"
  shows "arrays_ok (gather S D st)" "sizeNum (gather S D st) = dstNum (gather S D st)" "expandIdx (gather S D st) = - 1"
    "srcNum (gather S D st) \<le> 3" "dstNum (gather S D st) \<le> 3"
  using ok by (simp_all add: arrays_ok_simps gather_def Let_def upt3 gather_src_fields gather_dst_fields)

section \<open>The strides one of them lacks\<close>

lemma int3_diff_spec:
  assumes "int3_diff r x y = Some e" and "length y = 3" and "0 < r \<longrightarrow> r \<notin> set y"
  shows "(\<forall>a \<in> set x. 0 < a \<longrightarrow> a \<in> set y \<or> a = e) \<and> (0 < r \<longrightarrow> e = r) \<and> (0 < e \<longrightarrow> e \<in> insert r (set x) \<and> e \<notin> set y)"
  using assms
proof (induction x arbitrary: r)
  case (Cons a x)
  have y: "a \<in> set y \<longleftrightarrow> \<not> (a \<noteq> y ! 0 \<and> a \<noteq> y ! 1 \<and> a \<noteq> y ! 2)" using Cons.prems(2) by (auto simp: length3)
  show ?case
  proof (cases "a \<in> set y")
    case True
    then have "int3_diff r x y = Some e" using Cons.prems(1) y by auto
    from Cons.IH [OF this Cons.prems(2,3)] True show ?thesis by auto
  next
    case False
    then have r: "\<not> 0 < r" and "int3_diff a x y = Some e" using Cons.prems(1) y by (auto split: if_splits)
    from Cons.IH [OF this(2) Cons.prems(2)] False r show ?thesis by auto
  qed
qed simp

lemma diff_padded:
  assumes "int3_diff (- 1) (padded xs) (padded ys) = Some e" and "length xs \<le> 3" "length ys \<le> 3" and "\<forall>x \<in> set xs. 0 < x" 
  shows "set xs \<subseteq> set ys \<union> (if 0 < e then {e} else {})" "0 < e \<Longrightarrow> e \<in> set xs - set ys"
proof -
  have len: "length (padded ys) = 3" by (simp add: padded_def)
  have p: "0 < a \<Longrightarrow> a \<in> set (padded zs) \<longleftrightarrow> a \<in> set zs" if "length zs \<le> 3" for a zs
    using that by (auto simp: padded_def take_append dest: in_set_takeD)
  note s = int3_diff_spec [OF assms(1) len, simplified]
  show "set xs \<subseteq> set ys \<union> (if 0 < e then {e} else {})"
    using s p [OF assms(2)] p [OF assms(3)] assms(4) by fastforce
  show "0 < e \<Longrightarrow> e \<in> set xs - set ys" using s p [OF assms(2)] p [OF assms(3)] by auto
qed

section \<open>Splitting a dimension\<close>

text \<open>A dimension of \<open>n * m\<close> entries becomes one of \<open>n\<close> over one of \<open>m\<close>, whose stride is the new one.\<close>

definition split_of :: "int \<Rightarrow> (int \<times> int \<times> int) list \<Rightarrow> (int \<times> int \<times> int) list \<Rightarrow> bool" where
  "split_of v ds es \<longleftrightarrow> (\<exists>xs ys n m a b. ds = xs @ (n * m, a, b) # ys \<and> es = xs @ (n, m * a, m * b) # (m, a, b) # ys \<and>
     v = m * a \<and> 0 < n \<and> 0 < m)"

lemma split_ofI:
  assumes "v mod a = 0" "k mod (v div a) = 0" "0 < v" "0 < a" "0 < k"
  shows "split_of v (xs @ (k, a, b) # ys) (xs @ (k div (v div a), v, v div a * b) # (v div a, a, b) # ys)"
proof -
  let ?m = "v div a"
  have m: "0 < ?m" using assms by (metis mod_0_imp_dvd pos_imp_zdiv_pos_iff zdvd_imp_le)
  have k: "k div ?m * ?m = k" "?m * a = v" using assms by (simp_all add: mod_0_imp_dvd)
  have "0 < k div ?m" using m assms(2,5) by (simp add: mod_0_imp_dvd pos_imp_zdiv_pos_iff zdvd_imp_le)
  then show ?thesis using m k unfolding split_of_def
    by (intro exI [of _ xs] exI [of _ ys] exI [of _ "k div ?m"] exI [of _ ?m] exI [of _ a] exI [of _ b]) (simp add: mult.commute)
qed


lemma expand_num:
  assumes "expandStrideSize src dst sz num v = (True, src', dst', sz', num')" "num \<le> 3"
  shows "num = 1 \<or> num = 2"
proof -
  consider "num = 0" | "num = 1" | "num = 2" | "num = 3" using assms(2) by linarith
  then show ?thesis
    by cases (use assms(1) in \<open>simp_all add: expandStrideSize_def eval_nat_numeral Let_def split: if_splits\<close>)
qed

lemma expand_spec:
  assumes e: "expandStrideSize src dst sz num v = (True, src', dst', sz', num')" "num \<le> 3" and v: "0 < v"
    and len: "length src = 3" "length dst = 3" "length sz = 3" and pos: "\<forall>(n, a, b) \<in> set (dims3 src dst sz num). 0 < n \<and> 0 < a"
  shows "split_of v (dims3 src dst sz num) (dims3 src' dst' sz' num') \<and> num' = Suc num \<and> num' \<le> 3 \<and>
    length src' = 3 \<and> length dst' = 3 \<and> length sz' = 3"
proof -
  obtain a0 a1 a2 b0 b1 b2 n0 n1 n2 where l: "src = [a0, a1, a2]" "dst = [b0, b1, b2]" "sz = [n0, n1, n2]"
    using len unfolding length3 by blast
  have q: "0 < v sdiv a" if "0 < a" "v smod a = 0" for a
    using that v by (metis dvd_imp_mod_0 mod_0_imp_dvd order_less_imp_le pos_imp_zdiv_pos_iff sdiv_pos smod_pos zdvd_imp_le)
  have c: "v sdiv a = v div a" "v smod a = v mod a" if "0 < a" for a using that v by (simp_all add: sdiv_pos smod_pos)
  have d: "k smod (v div a) = k mod (v div a)" "k sdiv (v div a) = k div (v div a)" if "0 < a" "v mod a = 0" "0 < k" for a k
    using q [of a] c [of a] that by (simp_all add: sdiv_pos smod_pos)
  from expand_num [OF e(1,2)] show ?thesis
  proof
    assume n: "num = 1"
    have p: "0 < n0" "0 < a0" using pos by (simp_all add: dims3_def l n)
    have m: "v mod a0 = 0" "n0 mod (v div a0) = 0"
      using e(1) p(2) d(1) [OF p(2) _ p(1)] c [OF p(2)] by (simp_all add: expandStrideSize_def l n Let_def split: if_splits)
    have r: "src' = [v, a0, a1]" "dst' = [v div a0 * b0, b0, b1]" "sz' = [n0 div (v div a0), v div a0, n1]" "num' = 2"
      using e(1) m d [OF p(2) _ p(1)] c [OF p(2)]
      by (simp_all add: expandStrideSize_def l n Let_def int3_insert_def split: if_splits)
    show ?thesis using split_ofI [OF m v p(2,1), of "[]" b0 "[]"] r by (simp add: dims3_def l n numeral_2_eq_2)
  next
    assume n: "num = 2"
    have p: "0 < n0" "0 < a0" "0 < n1" "0 < a1" using pos by (simp_all add: dims3_def l n numeral_2_eq_2)
    show ?thesis
    proof (cases "v mod a1 = 0 \<and> n1 mod (v div a1) = 0")
      case True
      then have m: "v mod a1 = 0" "n1 mod (v div a1) = 0" by auto
      have r: "src' = [a0, v, a1]" "dst' = [b0, v div a1 * b1, b1]" "sz' = [n0, n1 div (v div a1), v div a1]" "num' = 3"
        using e(1) m d [OF p(4) _ p(3)] c [OF p(4)]
        by (simp_all add: expandStrideSize_def l n Let_def int3_insert_def numeral_2_eq_2 split: if_splits)
      show ?thesis using split_ofI [OF m v p(4,3), of "[(n0, a0, b0)]" b1 "[]"] r
        by (simp add: dims3_def l n numeral_2_eq_2 numeral_3_eq_3)
    next
      case False
      have f: "\<not> (v smod a1 = 0 \<and> n1 smod (v sdiv a1) = 0)" using False d(1) [OF p(4) _ p(3)] c [OF p(4)] by auto
      have m: "v mod a0 = 0" "n0 mod (v div a0) = 0"
        using e(1) f d(1) [OF p(2) _ p(1)] c [OF p(2)] by (simp_all add: expandStrideSize_def l n Let_def numeral_2_eq_2 split: if_splits)
      have r: "src' = [v, a0, a1]" "dst' = [v div a0 * b0, b0, b1]" "sz' = [n0 div (v div a0), v div a0, n1]" "num' = 3"
        using e(1) f m d [OF p(2) _ p(1)] c [OF p(2)]
        by (simp_all add: expandStrideSize_def l n Let_def int3_insert_def numeral_2_eq_2 split: if_splits)
      show ?thesis using split_ofI [OF m v p(2,1), of "[]" b0 "[(n1, a1, b1)]"] r
        by (simp add: dims3_def l n numeral_2_eq_2 numeral_3_eq_3)
    qed
  qed
qed

text \<open>What a splitting does to the strides, to the grid, and to digits taken in the order of the array.\<close>

definition mids :: "(int \<times> int \<times> int) list \<Rightarrow> int list" where
  "mids = map (fst \<circ> snd)"

definition swap_dims :: "(int \<times> int \<times> int) list \<Rightarrow> (int \<times> int \<times> int) list" where
  "swap_dims = map (\<lambda>(n, a, b). (n, b, a))"

lemma split_of_grid: "split_of v ds es \<Longrightarrow> grid es = grid ds"
  unfolding split_of_def by (metis grid_append_cong grid_fuse less_imp_le)

lemma split_of_grid_swap: "split_of v ds es \<Longrightarrow> grid (swap_dims es) = grid (swap_dims ds)"
proof -
  assume "split_of v ds es"
  then obtain xs ys n m a b where "ds = xs @ (n * m, a, b) # ys" "es = xs @ (n, m * a, m * b) # (m, a, b) # ys" "0 < m"
    unfolding split_of_def by blast
  then show ?thesis
    by (simp add: swap_dims_def del: grid.simps) (intro grid_append_cong grid_fuse; simp)
qed

lemma split_of_mids: "split_of v ds es \<Longrightarrow> set (mids es) = insert v (set (mids ds))"
  unfolding split_of_def mids_def by (elim exE conjE) (simp add: insert_commute)

text \<open>The sum \<open>offsetCompute\<close> makes, over a list of dimensions.\<close>

fun offset_sum :: "(int \<times> int \<times> int) list \<Rightarrow> int \<Rightarrow> int \<Rightarrow> int" where
  "offset_sum [] d0 so = 0"
| "offset_sum ((n, t, s) # ds) d0 so = (d0 sdiv t - so sdiv t) * s + offset_sum ds (d0 smod t) (so smod t)"

lemma offset_split:
  assumes "0 \<le> x" "0 < a" "0 < m"
  shows "(x::int) sdiv (m * a) * m + x smod (m * a) sdiv a = x sdiv a" "x smod (m * a) smod a = x smod a"
proof -
  have ma: "0 < m * a" using assms by simp
  have r: "0 \<le> x mod (m * a)" using ma by simp
  have "x = x mod (m * a) + (x div (m * a) * m) * a" using div_mult_mod_eq [of x "m * a"] by (simp add: algebra_simps)
  then have "x div a = (x mod (m * a) + (x div (m * a) * m) * a) div a" by simp
  also have "\<dots> = x mod (m * a) div a + x div (m * a) * m" using assms(2) by simp
  finally have "x mod (m * a) div a = x div a - x div (m * a) * m" by simp
  then show "x sdiv (m * a) * m + x smod (m * a) sdiv a = x sdiv a" using assms ma r by (simp add: sdiv_pos smod_pos)
  show "x smod (m * a) smod a = x smod a" using assms ma r by (simp add: smod_pos mod_mod_cancel)
qed

lemma split_of_offset:
  assumes "split_of v ds es" "0 \<le> d0" "0 \<le> so" "\<forall>t \<in> set (mids ds). 0 < t"
  shows "offset_sum es d0 so = offset_sum ds d0 so"
proof -
  obtain xs ys n m a b where e: "ds = xs @ (n * m, a, b) # ys" "es = xs @ (n, m * a, m * b) # (m, a, b) # ys" "0 < m"
    using assms(1) unfolding split_of_def by blast
  have a: "0 < a" and xs: "\<forall>t \<in> set (mids xs). 0 < t" using assms(4) by (auto simp: e mids_def)
  show ?thesis unfolding e(1,2) using xs assms(2,3)
  proof (induction xs arbitrary: d0 so)
    case Nil
    have "(p - q) * (m * b) + ((r - u) * b + z) = ((p * m + r) - (q * m + u)) * b + z" for p q r u z :: int by (simp add: algebra_simps)
    then show ?case using offset_split [OF Nil(2) a e(3)] offset_split [OF Nil(3) a e(3)] by simp
  next
    case (Cons x xs)
    obtain k t s where x: "x = (k, t, s)" by (metis prod_cases3)
    show ?case using Cons by (simp add: x mids_def smod_pos)
  qed
qed

section \<open>Aligning the strides\<close>

lemma align_spec:
  assumes "align_src js st = (True, st')" and "distinct (map ((!) (srcDst st)) js)"
    and "length (newSrc st) = 3" "length (newSrcSize st) = 3" "dstNum st \<le> 3"
  shows "st' = st\<lparr>newSrc := newSrc st', newSrcSize := newSrcSize st'\<rparr> \<and> length (newSrc st') = 3 \<and> length (newSrcSize st') = 3 \<and>
    (\<forall>i \<in> set js. \<exists>j < dstNum st. dstSrc st ! j = srcDst st ! i \<and> newSrc st' ! j = srcSrc st ! i \<and> newSrcSize st' ! j = srcSize st ! i) \<and>
    (\<forall>j < dstNum st. dstSrc st ! j \<notin> (!) (srcDst st) ` set js \<longrightarrow> newSrc st' ! j = newSrc st ! j \<and> newSrcSize st' ! j = newSrcSize st ! j)"
  using assms
proof (induction js arbitrary: st)
  case (Cons i js)
  obtain p ps where f: "filter (\<lambda>j. dstSrc st ! j = srcDst st ! i) [0..<dstNum st] = p # ps"
    using Cons.prems(1) by (auto split: list.splits)
  then have "p \<in> set (filter (\<lambda>j. dstSrc st ! j = srcDst st ! i) [0..<dstNum st])" by simp
  then have p: "p < dstNum st" "dstSrc st ! p = srcDst st ! i" by auto
  define st1 where "st1 = st\<lparr>newSrc := (newSrc st)[p := srcSrc st ! i], newSrcSize := (newSrcSize st)[p := srcSize st ! i]\<rparr>"
  have sel: "srcDst st1 = srcDst st" "srcSrc st1 = srcSrc st" "srcSize st1 = srcSize st" "dstSrc st1 = dstSrc st" "dstNum st1 = dstNum st"
    by (simp_all add: st1_def)
  have a: "align_src js st1 = (True, st')" using Cons.prems(1) f by (simp add: st1_def)
  have IH: "st' = st1\<lparr>newSrc := newSrc st', newSrcSize := newSrcSize st'\<rparr> \<and> length (newSrc st') = 3 \<and> length (newSrcSize st') = 3 \<and>
    (\<forall>i \<in> set js. \<exists>j < dstNum st. dstSrc st ! j = srcDst st ! i \<and> newSrc st' ! j = srcSrc st ! i \<and> newSrcSize st' ! j = srcSize st ! i) \<and>
    (\<forall>j < dstNum st. dstSrc st ! j \<notin> (!) (srcDst st) ` set js \<longrightarrow> newSrc st' ! j = newSrc st1 ! j \<and> newSrcSize st' ! j = newSrcSize st1 ! j)"
    using Cons.IH [OF a] Cons.prems(2-) unfolding sel by (simp add: st1_def)
  have pj: "dstSrc st ! p \<notin> (!) (srcDst st) ` set js" using p Cons.prems(2) by auto
  then have np: "newSrc st' ! p = srcSrc st ! i" "newSrcSize st' ! p = srcSize st ! i"
    using IH p(1) Cons.prems(3,4,5) by (simp_all add: st1_def)
  have other: "newSrc st1 ! j = newSrc st ! j \<and> newSrcSize st1 ! j = newSrcSize st ! j" if "dstSrc st ! j \<noteq> srcDst st ! i" for j
    using that p(2) by (cases "j = p") (simp_all add: st1_def)
  show ?case using IH p np other by (auto simp: st1_def)
qed simp

definition mid_dim :: "fuse_status \<Rightarrow> nat \<Rightarrow> mid_dim" where
  "mid_dim st j = (dstSrc st ! j, (newSrcSize st ! j, newSrc st ! j), (dstSize st ! j, dstDst st ! j))"

lemma src_dims_mid: "src_dims (map (mid_dim st) js) = dims3 (dstSrc st) (newSrc st) (newSrcSize st) 0 @ map (\<lambda>j. (newSrcSize st ! j, dstSrc st ! j, newSrc st ! j)) js"
  by (simp add: src_dims_def mid_dim_def dims3_def)

lemma align_mset:
  assumes a: "align_src [0..<srcNum st] st = (True, st')" and ok: "arrays_ok st" "dstNum st \<le> 3"
    and ds: "distinct (mids (sdims st))" "distinct (mids (ddims st))" and sub: "set (mids (ddims st)) \<subseteq> set (mids (sdims st))"
  shows "mset (sdims st) = mset (src_dims (map (mid_dim st') [0..<dstNum st]))"
    and "st' = st\<lparr>newSrc := newSrc st', newSrcSize := newSrcSize st'\<rparr>" and "arrays_ok st'"
proof -
  have m: "mids (sdims st) = map ((!) (srcDst st)) [0..<srcNum st]" "mids (ddims st) = map ((!) (dstSrc st)) [0..<dstNum st]"
    by (simp_all add: mids_def dims3_def)
  have inj: "i = j" if "i < dstNum st" "j < dstNum st" "dstSrc st ! i = dstSrc st ! j" for i j
    using ds(2) that unfolding m distinct_map by (auto simp: inj_on_def)
  have d1: "distinct (map ((!) (srcDst st)) [0..<srcNum st])" using ds(1) unfolding m .
  have l: "length (newSrc st) = 3" "length (newSrcSize st) = 3" using ok(1) by (simp_all add: arrays_ok_simps)
  note A = align_spec [OF a d1 l ok(2)]
  note st' = A [THEN conjunct1] and B = A [THEN conjunct2]
  note len = B [THEN conjunct1] B [THEN conjunct2, THEN conjunct1]
  have al: "\<exists>j < dstNum st. dstSrc st ! j = srcDst st ! i \<and> newSrc st' ! j = srcSrc st ! i \<and> newSrcSize st' ! j = srcSize st ! i"
    if "i < srcNum st" for i
  proof -
    have "i \<in> set [0..<srcNum st]" using that by simp
    then show ?thesis by (rule bspec [OF B [THEN conjunct2, THEN conjunct2, THEN conjunct1]])
  qed
  show "st' = st\<lparr>newSrc := newSrc st', newSrcSize := newSrcSize st'\<rparr>" by (rule st')
  show "arrays_ok st'" using ok(1) len by (subst st') (simp add: arrays_ok_simps)
  have sel: "dstSrc st' = dstSrc st" by (subst st') simp
  let ?R = "src_dims (map (mid_dim st') [0..<dstNum st])"
  have R: "?R = map (\<lambda>j. (newSrcSize st' ! j, dstSrc st ! j, newSrc st' ! j)) [0..<dstNum st]"
    by (simp add: src_dims_def mid_dim_def sel)
  have "mids ?R = mids (ddims st)" by (simp add: R mids_def dims3_def)
  then have dR: "distinct ?R" using ds(2) by (metis distinct_map mids_def)
  have dS: "distinct (sdims st)" using ds(1) by (metis distinct_map mids_def)
  have "set (sdims st) = set ?R"
  proof (intro set_eqI iffI)
    fix x assume "x \<in> set (sdims st)"
    then obtain i where i: "i < srcNum st" "x = (srcSize st ! i, srcDst st ! i, srcSrc st ! i)" by (auto simp: dims3_def)
    from al [OF i(1)] obtain j where j: "j < dstNum st" "dstSrc st ! j = srcDst st ! i" "newSrc st' ! j = srcSrc st ! i" "newSrcSize st' ! j = srcSize st ! i"
      by blast
    have "x = (newSrcSize st' ! j, dstSrc st ! j, newSrc st' ! j)" using i(2) j(2-) by simp
    then show "x \<in> set ?R" unfolding R using j(1) by simp
  next
    fix x assume "x \<in> set ?R"
    then obtain j where j: "j < dstNum st" "x = (newSrcSize st' ! j, dstSrc st ! j, newSrc st' ! j)" unfolding R by auto
    have "dstSrc st ! j \<in> set (mids (sdims st))" using sub j(1) unfolding m by fastforce
    then obtain i where i: "i < srcNum st" "dstSrc st ! j = srcDst st ! i" unfolding m by auto
    from al [OF i(1)] obtain k where k: "k < dstNum st" "dstSrc st ! k = srcDst st ! i" "newSrc st' ! k = srcSrc st ! i" "newSrcSize st' ! k = srcSize st ! i"
      by blast
    have "k = j" by (rule inj [OF k(1) j(1)]) (simp add: k(2) i(2))
    then have "x = (srcSize st ! i, srcDst st ! i, srcSrc st ! i)" using j(2) k i(2) by simp
    then show "x \<in> set (sdims st)" using i(1) by (simp add: dims3_def)
  qed
  then show "mset (sdims st) = mset ?R" using set_eq_iff_mset_eq_distinct [OF dS dR] by blast
qed

section \<open>The strides from large to small\<close>

lemma validIndex_spec:
  assumes "1 \<le> n" "n \<le> 3" and "distinct (map ((!) t) [0..<n])"
  shows "mset (take n (validIndex t n)) = mset [0..<n]" "sorted_wrt (\<lambda>i j. (t ! j :: int) < t ! i) (take n (validIndex t n))"
proof -
  consider "n = 1" | "n = 2" | "n = 3" using assms(1,2) by linarith
  then have "mset (take n (validIndex t n)) = mset [0..<n] \<and> sorted_wrt (\<lambda>i j. (t ! j :: int) < t ! i) (take n (validIndex t n))"
  proof cases
    case 1
    then show ?thesis by (simp add: validIndex_def)
  next
    case 2
    then show ?thesis using assms(3) by (simp add: validIndex_def upt_rec numeral_2_eq_2)
  next
    case 3
    have d: "t ! 0 \<noteq> t ! 1" "t ! 0 \<noteq> t ! 2" "t ! 1 \<noteq> t ! 2" using assms(3) unfolding 3 by (auto simp: upt3)
    have u: "[Suc 0..<3] = [1, 2]" by (simp add: upt_rec)
    consider "t ! 0 < t ! 1" "t ! 1 < t ! 2" | "t ! 0 < t ! 2" "t ! 2 < t ! 1" | "t ! 1 < t ! 0" "t ! 0 < t ! 2"
      | "t ! 1 < t ! 2" "t ! 2 < t ! 0" | "t ! 2 < t ! 0" "t ! 0 < t ! 1" | "t ! 2 < t ! 1" "t ! 1 < t ! 0" using d by linarith
    then show ?thesis unfolding 3
      by cases (simp_all add: validIndex_def max_index_def min_index_def Let_def upt3 u)
  qed
  then show "mset (take n (validIndex t n)) = mset [0..<n]" "sorted_wrt (\<lambda>i j. (t ! j :: int) < t ! i) (take n (validIndex t n))" by auto
qed

lemma digit_step_apply:
  "digit_step t v (so, d, off) = (so smod t ! v, d smod t ! v, off[v := d sdiv t ! v - so sdiv t ! v])"
  by (simp add: digit_step_def)

lemma digit_fold:
  assumes "distinct ix" "\<forall>i \<in> set ix. i < length off"
  shows "\<exists>off'. fold (digit_step t) ix (so, d, off) = (rest (map ((!) t) ix) so, rest (map ((!) t) ix) d, off') \<and>
    length off' = length off \<and> map ((!) off') ix = digits (map ((!) t) ix) so d \<and> (\<forall>i. i \<notin> set ix \<longrightarrow> off' ! i = off ! i)"
  using assms
proof (induction ix arbitrary: so d off)
  case (Cons v ix)
  let ?off = "off[v := d sdiv t ! v - so sdiv t ! v]"
  from Cons.IH [of ?off "so smod t ! v" "d smod t ! v"] Cons.prems obtain off' where
    o: "fold (digit_step t) ix (so smod t ! v, d smod t ! v, ?off) =
        (rest (map ((!) t) ix) (so smod t ! v), rest (map ((!) t) ix) (d smod t ! v), off')"
      "length off' = length off" "map ((!) off') ix = digits (map ((!) t) ix) (so smod t ! v) (d smod t ! v)"
      "\<forall>i. i \<notin> set ix \<longrightarrow> off' ! i = ?off ! i" by auto
  have "off' ! v = d sdiv t ! v - so sdiv t ! v" using o(4) Cons.prems by simp
  then show ?case using o Cons.prems by (intro exI [of _ off']) (auto simp: digit_step_apply)
qed simp

lemma falling_unique:
  assumes "sorted_wrt (>) (xs :: int list)" "sorted_wrt (>) ys" "set xs = set ys"
  shows "xs = ys"
proof -
  have "sorted_wrt (<) (rev xs)" "sorted_wrt (<) (rev ys)" using assms by (simp_all add: sorted_wrt_rev)
  from strict_sorted_equal [OF this] assms(3) show ?thesis by simp
qed

section \<open>The shifts as sums\<close>

lemma fused_sums:
  "fused_dims (map (mid_dim st) ix) (map ((!) off) ix) =
     map (\<lambda>j. (min (newSrcSize st ! j - off ! j) (dstSize st ! j) - max 0 (- (off ! j)), dstDst st ! j, newSrc st ! j)) ix"
  "dst_shift (map (mid_dim st) ix) (map ((!) off) ix) = sum_list (map (\<lambda>j. max 0 (- (off ! j)) * dstDst st ! j) ix)"
  "src_shift (map (mid_dim st) ix) (map ((!) off) ix) =
     sum_list (map (\<lambda>j. max 0 (- (off ! j)) * newSrc st ! j) ix) + sum_list (map (\<lambda>j. off ! j * newSrc st ! j) ix)"
  by (induction ix) (simp_all add: mid_dim_def algebra_simps)

lemma offset_sum_digits:
  "map ((!) off) ix = digits (map ((!) (dstSrc st)) ix) so d0 \<Longrightarrow>
   offset_sum (src_dims (map (mid_dim st) ix)) d0 so = sum_list (map (\<lambda>j. off ! j * newSrc st ! j) ix)"
  by (induction ix arbitrary: so d0) (simp_all add: mid_dim_def)

lemma sum_list_perm: "mset ix = mset jx \<Longrightarrow> sum_list (map f ix) = sum_list (map (f :: nat \<Rightarrow> int) jx)"
  by (metis mset_map sum_mset_sum_list)

definition shifted :: "fuse_status \<Rightarrow> int list \<Rightarrow> nat list \<Rightarrow> int" where
  "shifted st ds js = sum_list (map (\<lambda>j. max 0 (dstMin st ! j) * ds ! j) js)"

lemma shifted_simps [simp]:
  "shifted st ds [] = 0" "shifted st ds (j # js) = max 0 (dstMin st ! j) * ds ! j + shifted st ds js"
  "shifted (st\<lparr>newDstOffset := x, newSrcOffset := y\<rparr>) ds js = shifted st ds js"
  by (simp_all add: shifted_def)

lemma shift_spec:
  "(\<forall>j \<in> set js. dstMin st ! j < dstMax st ! j) \<Longrightarrow>
     shift_offsets js st = st\<lparr>newDstOffset := newDstOffset st + shifted st (dstDst st) js,
                              newSrcOffset := newSrcOffset st + shifted st (newSrc st) js\<rparr>"
proof (induction js arbitrary: st)
  case (Cons j js)
  have m: "max 0 (dstMin st ! j) = (if 0 < dstMin st ! j then dstMin st ! j else 0)" by (simp add: max_def)
  show ?case
  proof (cases "0 < dstMin st ! j")
    case True
    let ?st = "st\<lparr>newDstOffset := newDstOffset st + dstMin st ! j * dstDst st ! j, newSrcOffset := newSrcOffset st + dstMin st ! j * newSrc st ! j\<rparr>"
    have "shift_offsets (j # js) st = shift_offsets js ?st" using True Cons.prems by simp
    also have "\<dots> = ?st\<lparr>newDstOffset := newDstOffset ?st + shifted ?st (dstDst ?st) js, newSrcOffset := newSrcOffset ?st + shifted ?st (newSrc ?st) js\<rparr>"
      by (rule Cons.IH) (use Cons.prems in simp)
    finally show ?thesis using True by (simp add: m)
  next
    case False
    then show ?thesis using Cons by (simp add: m)
  qed
qed simp

lemma shift_empty:
  "(\<exists>j \<in> set js. dstMax st ! j \<le> dstMin st ! j) \<Longrightarrow> dstSize (shift_offsets js st) = [0, 0, 0]"
proof (induction js arbitrary: st)
  case (Cons j js)
  show ?case
  proof (cases "dstMax st ! j \<le> dstMin st ! j")
    case False
    then have "\<exists>j \<in> set js. dstMax st ! j \<le> dstMin st ! j" using Cons.prems by simp
    then show ?thesis using False Cons.IH by simp
  qed simp
qed simp

end
