(* ===== verification/Fuse_Align.thy ===== *)
theory Fuse_Align
  imports Fuse_Arrays
begin

text \<open>
  From the two regions to the aligned arrays: they stand for the same positions, and the source dimensions
  keep the order of their strides.
\<close>

section \<open>Where the boxes lie\<close>

text \<open>The dimensions of the source region with more than one entry stand in the order of their strides.\<close>

definition falling :: "region \<Rightarrow> bool" where
  "falling r \<longleftrightarrow> sorted_wrt (>) (mids (filter big (src_region r)))"

text \<open>In the strides both regions have been brought to, both are boxes of one grid.\<close>

definition one_grid :: "region \<Rightarrow> region \<Rightarrow> fuse_status \<Rightarrow> bool" where
  "one_grid srcReg dstReg st \<longleftrightarrow>
     dstNum st \<noteq> 0 \<and> distinct (map ((!) (dstSrc st)) [0..<dstNum st]) \<and>
     nested_boxes (map (\<lambda>j. (dstSrc st ! j, newSrcSize st ! j, dstSize st ! j)) (take (dstNum st) (validIndex (dstSrc st) (dstNum st))))
       (voffset (rdst srcReg)) (voffset (rsrc dstReg))"

lemma grid_big: "(\<forall>x \<in> set ds. 0 < fst x) \<Longrightarrow> grid (filter big ds) = grid ds"
proof (induction ds)
  case (Cons x ds)
  obtain n a b where x: "x = (n, a, b)" by (metis prod_cases3)
  show ?case
  proof (cases "1 < n")
    case True
    then show ?thesis using grid_Cons_cong [of "filter big ds" ds x] Cons by (simp add: x big_def)
  next
    case False
    then have "n = 1" using Cons.prems x by simp
    then show ?thesis using Cons grid_unit [of a b ds] by (simp add: x big_def del: grid.simps)
  qed
qed simp

lemma swap_big: "filter big (swap_dims ds) = swap_dims (filter big ds)"
  by (induction ds) (auto simp: swap_dims_def big_def)

lemma src_region_set:
  assumes "region_ok r"
  shows "region_set r = {(voffset (rdst r) + m, voffset (rsrc r) + s) | m s. (m, s) \<in> grid (filter big (src_region r))}"
proof -
  obtain n0 n1 n2 a0 a1 a2 b0 b1 b2 where l: "rsize r = [n0, n1, n2]" "vstride (rsrc r) = [a0, a1, a2]" "vstride (rdst r) = [b0, b1, b2]"
    using assms by (auto simp: region_ok_def length3)
  have g: "src_region r = [(n0, b0, a0), (n1, b1, a1), (n2, b2, a2)]" by (simp add: src_region_def dims3_def l upt3)
  have "grid (filter big (src_region r)) = grid (src_region r)"
    by (rule grid_big) (use assms in \<open>auto simp: g region_ok_def l\<close>)
  then show ?thesis unfolding region_set_grid [OF l(1,3,2)] g by simp
qed

lemma dst_region_set:
  assumes "region_ok r"
  shows "region_set r = {(voffset (rdst r) + d, voffset (rsrc r) + m) | d m. (d, m) \<in> grid (swap_dims (filter big (dst_region r)))}"
proof -
  obtain n0 n1 n2 a0 a1 a2 b0 b1 b2 where l: "rsize r = [n0, n1, n2]" "vstride (rsrc r) = [a0, a1, a2]" "vstride (rdst r) = [b0, b1, b2]"
    using assms by (auto simp: region_ok_def length3)
  have g: "swap_dims (dst_region r) = [(n0, b0, a0), (n1, b1, a1), (n2, b2, a2)]"
    by (simp add: dst_region_def dims3_def l upt3 swap_dims_def)
  have e: "grid (swap_dims (filter big (dst_region r))) = grid (swap_dims (dst_region r))"
    unfolding swap_big [symmetric] by (rule grid_big) (use assms in \<open>auto simp: g region_ok_def l\<close>)
  show ?thesis unfolding region_set_grid [OF l(1,3,2)] e g ..
qed

section \<open>A nested grid keeps the order of the array\<close>

abbreviation extent_sum :: "(int \<times> int) list \<Rightarrow> int" where
  "extent_sum L \<equiv> sum_list (map (\<lambda>(t, a). t * (a - 1)) L)"

lemma reach_extent:
  assumes "nested_boxes L so d0" "0 \<le> so" "0 \<le> d0"
  shows "extent_sum (map (\<lambda>(t, a, b). (t, a)) L) \<le> reach L so d0"
  using assms
proof (induction L arbitrary: so d0)
  case (Cons x L)
  obtain t a b where x: "x = (t, a, b)" by (metis prod_cases3)
  have t: "0 < t" using Cons.prems(1) by (simp add: x)
  have IH: "extent_sum (map (\<lambda>(t, a, b). (t, a)) L) \<le> reach L (so smod t) (d0 smod t)"
    by (rule Cons.IH) (use Cons.prems t in \<open>simp_all add: x smod_pos\<close>)
  have "0 \<le> so sdiv t" using t Cons.prems(2) by (simp add: sdiv_pos pos_imp_zdiv_nonneg_iff)
  then have "t * (a - 1) \<le> t * (max (so sdiv t + a) (d0 sdiv t + b) - 1)" using t by (intro mult_left_mono) auto
  then show ?case using IH by (simp add: x)
qed simp

lemma nested_extent:
  assumes "nested_boxes L so d0" "0 \<le> so" "0 \<le> d0" "(v, n, b) \<in> set L"
  shows "extent_sum (filter (\<lambda>x. fst x < v) (map (\<lambda>(t, a, b). (t, a)) L)) < v"
  using assms
proof (induction L arbitrary: so d0)
  case (Cons x L)
  obtain t a c where x: "x = (t, a, c)" by (metis prod_cases3)
  have t: "0 < t" and n: "nested_boxes L (so smod t) (d0 smod t)" and below: "\<forall>y \<in> set L. fst y < t"
    and r: "reach L (so smod t) (d0 smod t) < t" using Cons.prems(1) by (simp_all add: x)
  have nn: "0 \<le> so smod t" "0 \<le> d0 smod t" using t Cons.prems(2,3) by (simp_all add: smod_pos)
  show ?case
  proof (cases "(v, n, b) \<in> set L")
    case True
    then have "v < t" using below by force
    then show ?thesis using Cons.IH [OF n nn True] by (simp add: x)
  next
    case False
    then have v: "v = t" using Cons.prems(4) by (simp add: x)
    have "filter (\<lambda>x. fst x < v) (map (\<lambda>(t, a, b). (t, a)) L) = map (\<lambda>(t, a, b). (t, a)) L"
      by (rule filter_True) (use below v in fastforce)
    then show ?thesis using reach_extent [OF n nn] r by (simp add: x v)
  qed
qed simp

lemma extent_sum_mset: "mset L = mset L' \<Longrightarrow> extent_sum (filter P L) = extent_sum (filter P L')"
proof -
  assume "mset L = mset L'"
  then have "mset (map (\<lambda>(t, a). t * (a - 1)) (filter P L)) = mset (map (\<lambda>(t, a). t * (a - 1)) (filter P L'))" by simp
  from arg_cong [OF this, of sum_mset] show ?thesis unfolding sum_mset_sum_list .
qed

lemma extent_sum_nonneg: "\<forall>x \<in> set L. 0 < fst x \<and> 0 < snd x \<Longrightarrow> 0 \<le> extent_sum (filter P L)"
  by (intro sum_list_nonneg) (auto simp: mult_nonneg_nonneg)

text \<open>A new stride falls between its neighbours: otherwise a row of the source would run into the next.\<close>

lemma split_falling:
  assumes sp: "split_of v ds es" and f: "sorted_wrt (>) (mids ds)" and v: "v \<notin> set (mids ds)"
    and b: "\<forall>x \<in> set ds. big x \<and> 0 < fst (snd x)"
    and nb: "extent_sum (filter (\<lambda>x. fst x < v) (map (\<lambda>(n, t, s). (t, n)) es)) < v"
  shows "sorted_wrt (>) (mids es)"
proof -
  obtain xs ys n m a c where e: "ds = xs @ (n * m, a, c) # ys" "es = xs @ (n, m * a, m * c) # (m, a, c) # ys"
    "v = m * a" "0 < n" "0 < m" using sp unfolding split_of_def by blast
  have a: "0 < a" using b by (simp add: e)
  have "m \<noteq> 1" using v by (auto simp: e mids_def)
  then have m: "1 < m" using e(5) by simp
  then have va: "a < v" using a by (simp add: e(3))
  have gt: "v < t" if x: "(k, t, s) \<in> set xs" for k t s
  proof (rule ccontr)
    assume "\<not> v < t"
    moreover have "t \<in> set (mids ds)" using x by (force simp: e(1) mids_def)
    then have "t \<noteq> v" using v by blast
    ultimately have t: "t < v" by simp
    have "(k, t, s) \<in> set ds" using x by (simp add: e(1))
    then have k: "1 < k" "0 < t" using b unfolding big_def by fastforce+
    have ta: "a < t" using f x by (auto simp: e(1) mids_def sorted_wrt_append)
    obtain us ws where xs: "xs = us @ (k, t, s) # ws" using split_list [OF x] by blast
    let ?h = "\<lambda>(n, t, s). (t, n) :: int \<times> int"
    have p: "\<forall>x \<in> set (map ?h zs). 0 < fst x \<and> 0 < snd x" if "set zs \<subseteq> set ds" for zs
    proof
      fix x assume "x \<in> set (map ?h zs)"
      then obtain n' t' s' where n': "x = (t', n')" "(n', t', s') \<in> set zs" by auto
      then have "(n', t', s') \<in> set ds" using that by blast
      then have "big (n', t', s') \<and> 0 < t'" using b by fastforce
      then show "0 < fst x \<and> 0 < snd x" by (simp add: n' big_def)
    qed
    let ?z = "\<lambda>zs. extent_sum (filter (\<lambda>x. fst x < v) (map ?h zs))"
    have nn: "0 \<le> ?z us" "0 \<le> ?z ws" "0 \<le> ?z ys"
      by (intro extent_sum_nonneg p; auto simp: e(1) xs)+
    have "?z es = ?z us + t * (k - 1) + ?z ws + a * (m - 1) + ?z ys" using t va by (simp add: e(2,3) xs)
    moreover have "t * 1 \<le> t * (k - 1)" using k by (intro mult_left_mono) auto
    moreover have "a * (m - 1) + a = v" by (simp add: e(3) algebra_simps)
    ultimately show False using nb nn ta by linarith
  qed
  show ?thesis using f gt va by (auto simp: e mids_def sorted_wrt_append)
qed

lemma keyed_unique:
  assumes "mset xs = mset ys" "mids xs = mids ys" "distinct (mids xs)"
  shows "xs = ys"
proof (rule nth_equalityI)
  show l: "length xs = length ys" using assms(1) by (metis size_mset)
  fix i assume i: "i < length xs"
  have "xs ! i \<in> set ys" using assms(1) i by (metis mset_eq_setD nth_mem)
  then obtain j where j: "j < length ys" "xs ! i = ys ! j" by (metis in_set_conv_nth)
  have "mids xs ! i = mids xs ! j" using i j l assms(2) by (simp add: mids_def) (metis comp_apply nth_map)
  then have "i = j" using nth_eq_iff_index_eq [OF assms(3), of i j] i j(1) l by (simp add: mids_def)
  then show "xs ! i = ys ! i" using j by simp
qed

section \<open>From the regions to the aligned arrays\<close>

definition ones_ok :: "fuse_status \<Rightarrow> bool" where
  "ones_ok st \<longleftrightarrow> (\<forall>i < dstNum st. 0 < dstSize st ! i) \<and>
     (\<forall>i < dstNum st. \<forall>j < dstNum st. dstSize st ! i = 1 \<and> dstSize st ! j = 1 \<longrightarrow> i = j) \<and>
     (\<forall>i < dstNum st. dstSize st ! i = 1 \<longrightarrow> sizeNum st < dstNum st)"

lemma ones_one:
  assumes "\<forall>x \<in> set ds. big x" "length ds = dstNum st" "map fst ds = map ((!) (dstSize st)) [0..<dstNum st]"
  shows "ones_ok st"
proof -
  have "1 < dstSize st ! i" if "i < dstNum st" for i
  proof -
    have "fst (ds ! i) = dstSize st ! i" using arg_cong [OF assms(3), of "\<lambda>xs. xs ! i"] that assms(2) by simp
    then show ?thesis using assms(1,2) that unfolding big_def by (metis nth_mem)
  qed
  then show ?thesis unfolding ones_ok_def by (metis less_irrefl less_trans zero_less_one)
qed

lemma ones_split:
  assumes sp: "split_of v ds es" and b: "\<forall>x \<in> set ds. big x \<and> 0 < fst (snd x)" and v: "v \<notin> set (mids ds)"
    and es: "map fst es = map ((!) (dstSize st)) [0..<dstNum st]" and n: "sizeNum st < dstNum st"
  shows "ones_ok st"
proof -
  obtain xs ys n m a c where e: "ds = xs @ (n * m, a, c) # ys" "es = xs @ (n, m * a, m * c) # (m, a, c) # ys"
    "v = m * a" "0 < n" "0 < m" using sp unfolding split_of_def by blast
  have "m \<noteq> 1" using v by (auto simp: e mids_def)
  then have m: "1 < m" using e(5) by simp
  have len: "length es = dstNum st" using arg_cong [OF es, of length] by simp
  have sz: "fst (es ! i) = dstSize st ! i" if "i < dstNum st" for i using arg_cong [OF es, of "\<lambda>xs. xs ! i"] that len by simp
  have one: "1 < dstSize st ! i" if i: "i < dstNum st" "i \<noteq> length xs" for i
  proof -
    have "es ! i \<in> set xs \<union> insert (m, a, c) (set ys)"
      using i len unfolding e(2) by (auto simp: nth_append nth_Cons split: nat.splits)
    then have "1 < fst (es ! i)" using b m unfolding e(1) big_def by auto
    then show ?thesis using sz [OF i(1)] by simp
  qed
  have "0 < dstSize st ! length xs" using sz [of "length xs"] e(4) len by (simp add: e(2))
  then have "0 < dstSize st ! i" if "i < dstNum st" for i using one [OF that] by (cases "i = length xs") simp_all
  moreover have "i = length xs" if "i < dstNum st" "dstSize st ! i = 1" for i using one [OF that(1)] that(2) by fastforce
  ultimately show ?thesis using n unfolding ones_ok_def by metis
qed

lemma split_distinct:
  assumes "split_of v ds es" "distinct (mids ds)" "v \<notin> set (mids ds)"
  shows "distinct (mids es)"
  using assms unfolding split_of_def mids_def by auto

lemma expand_src_spec:
  assumes e: "expand_src v st = (True, st')" and ok: "arrays_ok st" "srcNum st \<le> 3"
    and pos: "\<forall>x \<in> set (sdims st). big x \<and> 0 < fst (snd x)"
  shows "arrays_ok st' \<and> (if 0 < v then split_of v (sdims st) (sdims st') else sdims st' = sdims st) \<and>
    ddims st' = ddims st \<and> dstSrc st' = dstSrc st \<and> dstDst st' = dstDst st \<and> dstSize st' = dstSize st \<and> dstNum st' = dstNum st \<and>
    sizeNum st' = sizeNum st \<and> expandIdx st' = expandIdx st \<and> srcNum st' \<le> 3"
proof (cases "0 < v")
  case True
  obtain b a1 b1 z1 num where x: "expandStrideSize (srcDst st) (srcSrc st) (srcSize st) (srcNum st) v = (b, a1, b1, z1, num)"
    by (metis prod_cases5)
  have b: "b = True" and st': "st' = st\<lparr>srcDst := a1, srcSrc := b1, srcSize := z1, srcNum := num\<rparr>"
    using e True by (simp_all add: expand_src_def x)
  have p: "\<forall>(n, a, b) \<in> set (sdims st). 0 < n \<and> 0 < a" using pos by (auto simp: big_def)
  have l: "length (srcDst st) = 3" "length (srcSrc st) = 3" "length (srcSize st) = 3" using ok(1) by (simp_all add: arrays_ok_simps)
  note sp = expand_spec [OF x [unfolded b] ok(2) True l p]
  have "split_of v (sdims st) (dims3 a1 b1 z1 num)" "num \<le> 3" "length a1 = 3" "length b1 = 3" "length z1 = 3"
    using sp by blast+
  then show ?thesis using ok(1) True by (simp add: st' arrays_ok_simps)
next
  case False
  then show ?thesis using e ok by (simp add: expand_src_def)
qed

lemma expand_dst_spec:
  assumes e: "expand_dst v st = (True, st')" and ok: "arrays_ok st" "dstNum st \<le> 3"
    and pos: "\<forall>x \<in> set (ddims st). big x \<and> 0 < fst (snd x)"
  shows "arrays_ok st' \<and> (if 0 < v then split_of v (ddims st) (ddims st') \<and> dstNum st' = Suc (dstNum st)
       else ddims st' = ddims st \<and> dstNum st' = dstNum st) \<and>
    sdims st' = sdims st \<and> srcNum st' = srcNum st \<and> sizeNum st' = sizeNum st \<and> expandIdx st' = expandIdx st \<and> dstNum st' \<le> 3"
proof (cases "0 < v")
  case True
  obtain b a1 b1 z1 num where x: "expandStrideSize (dstSrc st) (dstDst st) (dstSize st) (dstNum st) v = (b, a1, b1, z1, num)"
    by (metis prod_cases5)
  have b: "b = True" and st': "st' = st\<lparr>dstSrc := a1, dstDst := b1, dstSize := z1, dstNum := num\<rparr>"
    using e True by (simp_all add: expand_dst_def x)
  have p: "\<forall>(n, a, b) \<in> set (ddims st). 0 < n \<and> 0 < a" using pos by (auto simp: big_def)
  have l: "length (dstSrc st) = 3" "length (dstDst st) = 3" "length (dstSize st) = 3" using ok(1) by (simp_all add: arrays_ok_simps)
  note sp = expand_spec [OF x [unfolded b] ok(2) True l p]
  have "split_of v (ddims st) (dims3 a1 b1 z1 num)" "num = Suc (dstNum st)" "num \<le> 3" "length a1 = 3" "length b1 = 3" "length z1 = 3"
    using sp by blast+
  then show ?thesis using ok(1) True by (simp add: st' arrays_ok_simps)
next
  case False
  then show ?thesis using e ok by (simp add: expand_dst_def)
qed

lemma big_positive:
  assumes "positive_strides r"
  shows "\<forall>x \<in> set (filter big (src_region r)). big x \<and> 0 < fst (snd x)"
    "\<forall>x \<in> set (filter big (dst_region r)). big x \<and> 0 < fst (snd x)"
  using assms by (auto simp: positive_strides_def src_region_def dst_region_def dims3_def upt3 big_def)

lemma align_parts:
  assumes "fuse_align S D st = (True, st4)"
  obtains srcExtra dstExtra st2 st3 where
    "int3_diff (- 1) (srcStride (gather S D st)) (dstStride (gather S D st)) = Some srcExtra"
    "int3_diff (- 1) (dstStride (gather S D st)) (srcStride (gather S D st)) = Some dstExtra"
    "expand_src dstExtra (gather S D st) = (True, st2)" "expand_dst srcExtra st2 = (True, st3)"
    "align_src [0..<srcNum st3] st3 = (True, st4)"
proof -
  from assms obtain srcExtra where 1: "int3_diff (- 1) (srcStride (gather S D st)) (dstStride (gather S D st)) = Some srcExtra"
    by (auto simp: fuse_align_def Let_def split: option.splits)
  from assms 1 obtain dstExtra where 2: "int3_diff (- 1) (dstStride (gather S D st)) (srcStride (gather S D st)) = Some dstExtra"
    by (auto simp: fuse_align_def Let_def split: option.splits)
  obtain b2 st2 where 3: "expand_src dstExtra (gather S D st) = (b2, st2)" by (metis prod.collapse)
  then have b2: "b2 = True" using assms 1 2 by (simp add: fuse_align_def Let_def split: if_splits)
  obtain b3 st3 where 4: "expand_dst srcExtra st2 = (b3, st3)" by (metis prod.collapse)
  then have b3: "b3 = True" using assms 1 2 3 b2 by (simp add: fuse_align_def Let_def split: if_splits)
  show thesis by (rule that [OF 1 2]) (use assms 1 2 3 4 b2 b3 in \<open>simp_all add: fuse_align_def Let_def\<close>)
qed

lemma dims3_parts: "map fst (dims3 a b z n) = map ((!) z) [0..<n]" "mids (dims3 a b z n) = map ((!) a) [0..<n]" "length (dims3 a b z n) = n"
  by (simp_all add: dims3_def mids_def)

lemma box_of_mid: "box_dims (map (mid_dim st) ix) = map (\<lambda>j. (dstSrc st ! j, newSrcSize st ! j, dstSize st ! j)) ix"
  by (simp add: box_dims_def mid_dim_def)

lemma dims_of_mid:
  "src_dims (map (mid_dim st) ix) = map (\<lambda>j. (newSrcSize st ! j, dstSrc st ! j, newSrc st ! j)) ix"
  "dst_dims (map (mid_dim st) ix) = map (\<lambda>j. (dstSize st ! j, dstDst st ! j, dstSrc st ! j)) ix"
  "map fst (map (mid_dim st) ix) = map ((!) (dstSrc st)) ix"
  by (simp_all add: src_dims_def dst_dims_def mid_dim_def)

lemma sorted_gt_distinct: "sorted_wrt (>) (xs :: int list) \<Longrightarrow> distinct xs"
  by (induction xs) auto

text \<open>
  The aligned arrays stand for the same positions as the regions they come from, and the source ones, in
  the order of their strides, give the same offset.
\<close>

definition aligned :: "region \<Rightarrow> region \<Rightarrow> fuse_status \<Rightarrow> (int \<times> int \<times> int) list \<Rightarrow> bool" where
  "aligned S D st E \<longleftrightarrow>
     grid E = grid (filter big (src_region S)) \<and>
     offset_sum E (voffset (rsrc D)) (voffset (rdst S)) = offset_sum (filter big (src_region S)) (voffset (rsrc D)) (voffset (rdst S)) \<and>
     sorted_wrt (>) (mids E) \<and> mset E = mset (src_dims (map (mid_dim st) [0..<dstNum st])) \<and>
     grid (swap_dims (ddims st)) = grid (swap_dims (filter big (dst_region D))) \<and>
     arrays_ok st \<and> dstNum st \<le> 3 \<and> expandIdx st = - 1 \<and> ones_ok st"

lemma align_chain:
  assumes pos: "positive_strides S" "positive_strides D" and ok: "arrays_ok st"
    and al: "fuse_align S D st = (True, st4)" and f: "falling S" and g: "one_grid S D st4"
    and nn: "0 \<le> voffset (rdst S)" "0 \<le> voffset (rsrc D)"
  shows "\<exists>E. aligned S D st4 E"
proof -
  let ?st1 = "gather S D st"
  from align_parts [OF al] obtain srcExtra dstExtra st2 st3 where
    e1: "int3_diff (- 1) (srcStride ?st1) (dstStride ?st1) = Some srcExtra"
    and e2: "int3_diff (- 1) (dstStride ?st1) (srcStride ?st1) = Some dstExtra"
    and x2: "expand_src dstExtra ?st1 = (True, st2)" and x3: "expand_dst srcExtra st2 = (True, st3)"
    and x4: "align_src [0..<srcNum st3] st3 = (True, st4)" by metis
  define A where "A = filter big (src_region S)"
  define B where "B = filter big (dst_region D)"
  note gs = gather_src_spec [OF ok, of S D] and gd = gather_dst_spec [OF ok, of S D] and go = gather_ok [OF ok, of S D]
  have s1: "sdims ?st1 = A" "ddims ?st1 = B" unfolding A_def B_def by (rule gs(1), rule gd(1))
  have bigA: "\<forall>x \<in> set A. big x \<and> 0 < fst (snd x)" and bigB: "\<forall>x \<in> set B. big x \<and> 0 < fst (snd x)"
    unfolding A_def B_def by (rule big_positive(1) [OF pos(1)], rule big_positive(2) [OF pos(2)])
  have st: "srcStride ?st1 = padded (mids A)" "dstStride ?st1 = padded (mids B)"
    using gs(2) gd(2) unfolding s1 mids_def by simp_all
  have l3: "length (mids A) \<le> 3" "length (mids B) \<le> 3" using go(4,5) arg_cong [OF s1(1), of length] arg_cong [OF s1(2), of length]
    by (simp_all add: mids_def dims3_parts)
  have posA: "\<forall>t \<in> set (mids A). 0 < t" and posB: "\<forall>t \<in> set (mids B). 0 < t" using bigA bigB by (auto simp: mids_def)
  note dS = diff_padded [OF e1 [unfolded st] l3 posA] and dD = diff_padded [OF e2 [unfolded st] l3(2,1) posB]
  have nS: "srcExtra \<notin> set (mids B)" if "0 < srcExtra" using dS(2) [OF that] by blast
  have nD: "dstExtra \<notin> set (mids A)" if "0 < dstExtra" using dD(2) [OF that] by blast
  note y2 = expand_src_spec [OF x2 go(1,4) bigA [folded s1(1)], unfolded s1 go(2,3)]
  have B2: "ddims st2 = B" and ok2: "arrays_ok st2" and n2: "dstNum st2 \<le> 3"
    and k2: "sizeNum st2 = dstNum ?st1" "dstNum st2 = dstNum ?st1" "expandIdx st2 = - 1" "srcNum st2 \<le> 3"
    and E2: "if 0 < dstExtra then split_of dstExtra A (sdims st2) else sdims st2 = A"
    using y2 go(5) by (metis, metis, metis, metis, metis, metis, metis, metis)
  note y3 = expand_dst_spec [OF x3 ok2 n2 bigB [folded B2], unfolded B2]
  have ok3: "arrays_ok st3" and E3: "sdims st3 = sdims st2" and k3: "srcNum st3 = srcNum st2" "dstNum st3 \<le> 3"
    "sizeNum st3 = dstNum st2" "expandIdx st3 = - 1"
    and B3: "if 0 < srcExtra then split_of srcExtra B (ddims st3) \<and> dstNum st3 = Suc (dstNum st2) else ddims st3 = B \<and> dstNum st3 = dstNum st2"
    using y3 k2 by (metis, metis, metis, metis, metis, metis, metis)
  define E where "E = sdims st2"
  have fA: "sorted_wrt (>) (mids A)" using f by (simp add: falling_def A_def)
  have dA: "distinct (mids A)" by (rule sorted_gt_distinct [OF fA])
  have dE: "distinct (mids E)" using E2 split_distinct [OF _ dA nD] dA unfolding E_def by (simp split: if_splits)
  have m4: "dstSrc st4 = dstSrc st3" "dstNum st4 = dstNum st3" "dstDst st4 = dstDst st3" "dstSize st4 = dstSize st3"
    "sizeNum st4 = sizeNum st3" "expandIdx st4 = expandIdx st3"
    if "st4 = st3\<lparr>newSrc := newSrc st4, newSrcSize := newSrcSize st4\<rparr>" by (subst that, simp)+
  have upd: "st4 = st3\<lparr>newSrc := newSrc st4, newSrcSize := newSrcSize st4\<rparr>"
    using align_spec [OF x4 _ _ _ k3(2)] ok3 dE unfolding E_def E3 [symmetric] dims3_parts by (auto simp: arrays_ok_simps)
  note m = m4 [OF upd]
  have dB: "distinct (mids (ddims st3))" using g unfolding one_grid_def dims3_parts m by simp
  have setE: "set (mids E) = set (mids A) \<union> (if 0 < dstExtra then {dstExtra} else {})"
    using E2 split_of_mids [of dstExtra A E] unfolding E_def by (auto split: if_splits)
  have setB: "set (mids (ddims st3)) = set (mids B) \<union> (if 0 < srcExtra then {srcExtra} else {})"
    using B3 split_of_mids [of srcExtra B "ddims st3"] by (auto split: if_splits)
  have sub: "set (mids (ddims st3)) \<subseteq> set (mids (sdims st3))"
    unfolding setB E3 E_def [symmetric] setE using dD(1) dS(2) by auto
  note ms = align_mset [OF x4 ok3 k3(2) dE [unfolded E_def E3 [symmetric]] dB sub]
  have mE: "mset E = mset (src_dims (map (mid_dim st4) [0..<dstNum st4]))" using ms(1) unfolding E3 E_def m .
  have ddims4: "ddims st4 = ddims st3" by (simp add: m)
  define n where "n = dstNum st4"
  define ix where "ix = take n (validIndex (dstSrc st4) n)"
  define BL where "BL = map (\<lambda>j. (dstSrc st4 ! j, newSrcSize st4 ! j, dstSize st4 ! j)) ix"
  have n: "1 \<le> n" "n \<le> 3" "distinct (map ((!) (dstSrc st4)) [0..<n])" and nb: "nested_boxes BL (voffset (rdst S)) (voffset (rsrc D))"
    using g k3(2) m(2) unfolding one_grid_def n_def ix_def BL_def by simp_all
  have ix: "mset ix = mset [0..<n]" unfolding ix_def by (rule validIndex_spec(1) [OF n])
  have "mset (map (\<lambda>(n, t, s). (t, n)) E) = image_mset (\<lambda>j. (dstSrc st4 ! j, newSrcSize st4 ! j)) (mset [0..<n])"
    unfolding mset_map mE dims_of_mid n_def [symmetric] by (simp add: multiset.map_comp o_def)
  also have "\<dots> = mset (map (\<lambda>(t, a, b). (t, a)) BL)" unfolding ix [symmetric] BL_def by (simp add: multiset.map_comp o_def)
  finally have bE: "mset (map (\<lambda>(n, t, s). (t, n)) E) = mset (map (\<lambda>(t, a, b). (t, a)) BL)" .
  have fE: "sorted_wrt (>) (mids E)"
  proof (cases "0 < dstExtra")
    case True
    then have sp: "split_of dstExtra A E" using E2 by (simp add: E_def)
    have "dstExtra \<in> set (mids E)" using setE True by simp
    then have "dstExtra \<in> fst ` set (map (\<lambda>(n, t, s). (t, n)) E)" unfolding mids_def by force
    then have "dstExtra \<in> fst ` set (map (\<lambda>(t, a, b). (t, a)) BL)" using mset_eq_setD [OF bE] by simp
    then obtain a b where "(dstExtra, a, b) \<in> set BL" by auto
    from nested_extent [OF nb nn this] extent_sum_mset [OF bE]
    have "extent_sum (filter (\<lambda>x. fst x < dstExtra) (map (\<lambda>(n, t, s). (t, n)) E)) < dstExtra" by simp
    from split_falling [OF sp fA nD [OF True] bigA this] show ?thesis .
  next
    case False
    then show ?thesis using E2 fA by (simp add: E_def)
  qed
  have gE: "grid E = grid A" using E2 split_of_grid [of dstExtra A E] unfolding E_def by (auto split: if_splits)
  have oE: "offset_sum E (voffset (rsrc D)) (voffset (rdst S)) = offset_sum A (voffset (rsrc D)) (voffset (rdst S))"
    using E2 split_of_offset [OF _ nn(2,1) posA, of dstExtra E] unfolding E_def by (auto split: if_splits)
  have gB: "grid (swap_dims (ddims st4)) = grid (swap_dims B)"
    using B3 split_of_grid_swap [of srcExtra B "ddims st3"] unfolding ddims4 by (auto split: if_splits)
  have fst4: "map fst (ddims st4) = map ((!) (dstSize st4)) [0..<dstNum st4]" by (rule dims3_parts(1))
  have "ones_ok st4"
  proof (cases "0 < srcExtra")
    case True
    then have "split_of srcExtra B (ddims st3)" using B3 by metis
    then have "split_of srcExtra B (ddims st4)" unfolding ddims4 .
    moreover have "sizeNum st4 < dstNum st4" using True B3 k3(3) m(2,5) by simp
    ultimately show ?thesis using ones_split [OF _ bigB nS [OF True] fst4] by blast
  next
    case False
    then have "ddims st4 = B" using B3 unfolding ddims4 by metis
    then show ?thesis using ones_one [of B st4] bigB fst4 dims3_parts(3) by metis
  qed
  then show ?thesis using gE oE fE mE gB ms(3) k3(2,4) m(2,6) unfolding aligned_def A_def B_def by metis
qed

end
