(* ===== verification/Fuse_Apply.thy ===== *)
theory Fuse_Apply
  imports Fuse_Align
begin

text \<open>
  The clipped boxes and the region \<open>apply\<close> writes: what it copies is the composition of the two regions.
\<close>

section \<open>Applying the aligned arrays\<close>

text \<open>The fused dimensions in the order of the arrays, and the digits \<open>ClipDst\<close> finds for them.\<close>

definition fused_box :: "fuse_status \<Rightarrow> int list \<Rightarrow> nat \<Rightarrow> int \<times> int \<times> int" where
  "fused_box st off j = (min (newSrcSize st ! j - off ! j) (dstSize st ! j) - max 0 (- (off ! j)), dstDst st ! j, newSrc st ! j)"

lemma apply_strides:
  assumes ok: "arrays_ok st" and n: "1 \<le> dstNum st" "dstNum st \<le> 3" and one: "ones_ok st" and ex: "expandIdx st = - 1"
    and kind: "mStatus st = FUSE_REGION_COMPUTE"
  shows "region_set (fst (fuse_apply S D st)) =
    {(newDstOffset st + d, newSrcOffset st + s) | d s.
      (d, s) \<in> grid (map (\<lambda>j. (dstMax st ! j - dstMin st ! j, dstDst st ! j, newSrc st ! j)) [0..<dstNum st])}"
proof -
  define st1 where "st1 = (if sizeNum st < dstNum st
     then fold (\<lambda>i s. if dstSize s ! i = 1 then s\<lparr>expandIdx := int i\<rparr> else s) (rev [0..<dstNum st]) st else st)"
  have keep: "dstSize (fold (\<lambda>i s. if dstSize s ! i = 1 then s\<lparr>expandIdx := int i\<rparr> else s) js x) = dstSize x \<and>
      newSrc (fold (\<lambda>i s. if dstSize s ! i = 1 then s\<lparr>expandIdx := int i\<rparr> else s) js x) = newSrc x \<and>
      dstDst (fold (\<lambda>i s. if dstSize s ! i = 1 then s\<lparr>expandIdx := int i\<rparr> else s) js x) = dstDst x \<and>
      dstNum (fold (\<lambda>i s. if dstSize s ! i = 1 then s\<lparr>expandIdx := int i\<rparr> else s) js x) = dstNum x" for js and x :: fuse_status
    by (induction js arbitrary: x) simp_all
  have idx: "expandIdx (fold (\<lambda>i s. if dstSize s ! i = 1 then s\<lparr>expandIdx := int i\<rparr> else s) js x) =
      (if filter (\<lambda>i. dstSize x ! i = 1) js = [] then expandIdx x else int (last (filter (\<lambda>i. dstSize x ! i = 1) js)))" for js and x :: fuse_status
    by (induction js arbitrary: x) simp_all
  have all: "1 < dstSize st ! i \<or> int i = expandIdx st1" if i: "i < dstNum st" for i
  proof (cases "dstSize st ! i = 1")
    case True
    then have sz: "sizeNum st < dstNum st" using one i unfolding ones_ok_def by blast
    have "filter (\<lambda>j. dstSize st ! j = 1) (rev [0..<dstNum st]) \<noteq> []" using True i by (auto simp: filter_empty_conv)
    then have "last (filter (\<lambda>j. dstSize st ! j = 1) (rev [0..<dstNum st])) \<in> set (filter (\<lambda>j. dstSize st ! j = 1) (rev [0..<dstNum st]))"
      by (rule last_in_set)
    then have "last (filter (\<lambda>j. dstSize st ! j = 1) (rev [0..<dstNum st])) = i" using one True i unfolding ones_ok_def by auto
    then show ?thesis using sz idx [of "rev [0..<dstNum st]" st] \<open>filter _ _ \<noteq> []\<close> by (simp add: st1_def)
  next
    case False
    have "0 < dstSize st ! i" using one i unfolding ones_ok_def by blast
    then show ?thesis using False by simp
  qed
  have sel: "dstNum st1 = dstNum st" "newSrc st1 = newSrc st" "dstDst st1 = dstDst st" using keep by (simp_all add: st1_def)
  have none: "expandIdx st1 < int (dstNum st)"
  proof (cases "sizeNum st < dstNum st \<and> filter (\<lambda>j. dstSize st ! j = 1) (rev [0..<dstNum st]) \<noteq> []")
    case True
    then have "last (filter (\<lambda>j. dstSize st ! j = 1) (rev [0..<dstNum st])) \<in> set (filter (\<lambda>j. dstSize st ! j = 1) (rev [0..<dstNum st]))"
      by (intro last_in_set) simp
    then show ?thesis using True idx [of "rev [0..<dstNum st]" st] by (simp add: st1_def)
  next
    case False
    then show ?thesis using ex n idx [of "rev [0..<dstNum st]" st] by (auto simp: st1_def)
  qed
  define valid where "valid = (\<lambda>i. i < dstNum st \<and> 1 < dstSize st ! i)"
  have act: "valid i \<or> int i = expandIdx st1 \<longleftrightarrow> i < dstNum st" for i using all [of i] none by (auto simp: valid_def)
  have step: "stride_step st1 valid i (idx, ss, ds) =
      (if i < dstNum st then (Suc idx, ss[i + (3 - dstNum st) := newSrc st ! idx], ds[i + (3 - dstNum st) := dstDst st ! idx]) else (idx, ss, ds))"
    for i idx ss ds unfolding stride_step_def prod.case act sel by simp
  have z: "dstSize st ! 0 \<noteq> 0" using one n unfolding ones_ok_def by (metis less_irrefl not_less_eq_eq not_le zero_less_one One_nat_def less_le_trans)
  let ?off = "3 - dstNum st"
  let ?sz = "fold (\<lambda>i s. s[i + ?off := dstMax st ! i - dstMin st ! i]) [0..<dstNum st] [1, 1, 1]"
  let ?fold = "fold (stride_step st1 valid) [0..<3] (0, [0, 0, 0], [0, 0, 0])"
  have r: "fst (fuse_apply S D st) = \<lparr>rsrc = \<lparr>voffset = newSrcOffset st, vstride = fst (snd ?fold)\<rparr>,
       rdst = \<lparr>voffset = newDstOffset st, vstride = snd (snd ?fold)\<rparr>, rsize = ?sz, rorigin = rorigin S\<rparr>"
    using z unfolding fuse_apply_def kind valid_def st1_def by (simp add: Let_def case_prod_unfold)
  consider "dstNum st = 1" | "dstNum st = 2" | "dstNum st = 3" using n by linarith
  then show ?thesis
  proof cases
    case 1
    have g: "grid [(1, 0, 0), (1, 0, 0), x] = grid [x]" for x by (simp only: grid_unit)
    have f: "fst (snd ?fold) = [0, 0, newSrc st ! 0]" "snd (snd ?fold) = [0, 0, dstDst st ! 0]"
      using 1 by (simp_all add: upt3 step numeral_2_eq_2)
    have s: "?sz = [1, 1, dstMax st ! 0 - dstMin st ! 0]" using 1 by simp
    show ?thesis unfolding r by (subst region_set_grid, use f s 1 in \<open>simp_all del: grid.simps\<close>, subst g) simp
  next
    case 2
    have g: "grid [(1, 0, 0), x, y] = grid [x, y]" for x y by (simp only: grid_unit)
    have f: "fst (snd ?fold) = [0, newSrc st ! 0, newSrc st ! 1]" "snd (snd ?fold) = [0, dstDst st ! 0, dstDst st ! 1]"
      using 2 by (simp_all add: upt3 step numeral_2_eq_2)
    have s: "?sz = [1, dstMax st ! 0 - dstMin st ! 0, dstMax st ! 1 - dstMin st ! 1]" using 2 by (simp add: numeral_2_eq_2)
    show ?thesis unfolding r by (subst region_set_grid, use f s 2 in \<open>simp_all add: numeral_2_eq_2 del: grid.simps\<close>, subst g) simp
  next
    case 3
    have f: "fst (snd ?fold) = [newSrc st ! 0, newSrc st ! 1, newSrc st ! 2]" "snd (snd ?fold) = [dstDst st ! 0, dstDst st ! 1, dstDst st ! 2]"
      using 3 by (simp_all add: upt3 step numeral_2_eq_2)
    have s: "?sz = [dstMax st ! 0 - dstMin st ! 0, dstMax st ! 1 - dstMin st ! 1, dstMax st ! 2 - dstMin st ! 2]" using 3 by (simp add: upt3)
    show ?thesis unfolding r by (subst region_set_grid) (use f s 3 in \<open>simp_all add: upt3 del: grid.simps\<close>)
  qed
qed

section \<open>The clipped boxes\<close>

lemma clip_status_spec:
  assumes c: "clip_status S D st = (True, st')" and n: "1 \<le> dstNum st" "dstNum st \<le> 3"
    and d: "distinct (map ((!) (dstSrc st)) [0..<dstNum st])"
  defines "ix \<equiv> take (dstNum st) (validIndex (dstSrc st) (dstNum st))"
  obtains off mx mn base where
    "map ((!) off) ix = digits (map ((!) (dstSrc st)) ix) (voffset (rdst S)) (voffset (rsrc D))"
    "rest (map ((!) (dstSrc st)) ix) (voffset (rdst S)) = 0" "rest (map ((!) (dstSrc st)) ix) (voffset (rsrc D)) = 0"
    "\<forall>j < dstNum st. mx ! j = min (newSrcSize st ! j - off ! j) (dstSize st ! j) \<and> mn ! j = max 0 (- (off ! j))" "length mx = 3" "length mn = 3"
    "base = offsetCompute S (voffset (rsrc D)) (voffset (rdst S)) True + voffset (rsrc S)"
    "(\<forall>j < dstNum st. mn ! j < mx ! j) \<and>
       st' = st\<lparr>dstMax := mx, dstMin := mn,
         newDstOffset := voffset (rdst D) + sum_list (map (\<lambda>j. mn ! j * dstDst st ! j) [0..<dstNum st]),
         newSrcOffset := base + sum_list (map (\<lambda>j. mn ! j * newSrc st ! j) [0..<dstNum st]), mStatus := FUSE_REGION_COMPUTE\<rparr> \<or>
     (\<exists>j < dstNum st. mx ! j \<le> mn ! j) \<and> dstSize st' = [0, 0, 0] \<and> mStatus st' = FUSE_REGION_COMPUTE"
proof -
  let ?so = "voffset (rdst S)" and ?d0 = "voffset (rsrc D)" and ?n = "dstNum st"
  define base where "base = offsetCompute S ?d0 ?so True + voffset (rsrc S)"
  have ix: "mset ix = mset [0..<?n]" unfolding ix_def by (rule validIndex_spec(1) [OF n d])
  have dx: "distinct ix" and sx: "set ix = {0..<?n}" using mset_eq_imp_distinct_iff [OF ix] mset_eq_setD [OF ix] by simp_all
  from digit_fold [OF dx, of "[0, 0, 0]" "dstSrc st" ?so ?d0] sx n
  obtain off where off: "clip_digits (dstSrc st) ?so ?d0 ?n = (rest (map ((!) (dstSrc st)) ix) ?so, rest (map ((!) (dstSrc st)) ix) ?d0, off)"
    "map ((!) off) ix = digits (map ((!) (dstSrc st)) ix) ?so ?d0" unfolding clip_digits_def ix_def [symmetric] by auto
  define mx where "mx = map (\<lambda>i. if i < ?n then min (newSrcSize st ! i - off ! i) (dstSize st ! i) else dstMax st ! i) [0..<3]"
  define mn where "mn = map (\<lambda>i. if i < ?n then max 0 (- (off ! i)) else dstMin st ! i) [0..<3]"
  obtain ok x y where cl: "ClipDst (dstSrc st) ?so ?d0 (newSrcSize st) (dstSize st) ?n (dstMax st) (dstMin st) True = (ok, x, y)"
    by (metis prod_cases3)
  have n0: "?n \<noteq> 0" using n by simp
  have ok: "ok = True" using c cl by (simp add: clip_status_def Let_def split: if_splits)
  have z: "rest (map ((!) (dstSrc st)) ix) ?so = 0" "rest (map ((!) (dstSrc st)) ix) ?d0 = 0"
    using cl ok n0 off(1) by (auto simp: ClipDst_def clip_range_def Let_def split: if_splits)
  have cr: "clip_range (dstSrc st) ?so ?d0 (newSrcSize st) (dstSize st) ?n (dstMax st) (dstMin st) = (True, mx, mn)"
    unfolding clip_range_def off(1) using z n0 by (simp add: mx_def mn_def)
  have xy: "x = mx" "y = mn" using cl n0 unfolding ClipDst_def cr by (auto simp: Let_def split: if_splits)
  let ?st = "st\<lparr>newSrcOffset := base, dstMax := mx, dstMin := mn, newDstOffset := voffset (rdst D)\<rparr>"
  have st': "st' = (shift_offsets [0..<?n] ?st)\<lparr>mStatus := FUSE_REGION_COMPUTE\<rparr>"
    using c cl ok xy by (simp add: clip_status_def Let_def base_def)
  have v: "\<forall>j < ?n. mx ! j = min (newSrcSize st ! j - off ! j) (dstSize st ! j) \<and> mn ! j = max 0 (- (off ! j))"
    using n(2) by (simp add: mx_def mn_def)
  have l: "length mx = 3" "length mn = 3" by (simp_all add: mx_def mn_def)
  have sh: "shifted ?st ds [0..<?n] = sum_list (map (\<lambda>j. mn ! j * ds ! j) [0..<?n])" for ds
    unfolding shifted_def by (rule arg_cong [of _ _ sum_list], rule map_cong) (use v in auto)
  have res: "(\<forall>j < ?n. mn ! j < mx ! j) \<and>
       st' = st\<lparr>dstMax := mx, dstMin := mn,
         newDstOffset := voffset (rdst D) + sum_list (map (\<lambda>j. mn ! j * dstDst st ! j) [0..<?n]),
         newSrcOffset := base + sum_list (map (\<lambda>j. mn ! j * newSrc st ! j) [0..<?n]), mStatus := FUSE_REGION_COMPUTE\<rparr> \<or>
     (\<exists>j < ?n. mx ! j \<le> mn ! j) \<and> dstSize st' = [0, 0, 0] \<and> mStatus st' = FUSE_REGION_COMPUTE"
  proof (cases "\<forall>j < ?n. mn ! j < mx ! j")
    case True
    then have "\<forall>j \<in> set [0..<?n]. dstMin ?st ! j < dstMax ?st ! j" by simp
    from shift_spec [OF this] True show ?thesis unfolding st' sh by simp
  next
    case False
    then have "\<exists>j \<in> set [0..<?n]. dstMax ?st ! j \<le> dstMin ?st ! j" by (auto simp: not_less)
    from shift_empty [OF this] False show ?thesis unfolding st' by (auto simp: not_less)
  qed
  show thesis by (rule that [OF off(2) z v l base_def res])
qed

lemma offset_compute_sum:
  assumes "region_ok S"
  shows "offsetCompute S d0 so True = offset_sum (filter big (src_region S)) d0 so"
proof -
  obtain n0 n1 n2 a0 a1 a2 b0 b1 b2 where l: "rsize S = [n0, n1, n2]" "vstride (rsrc S) = [a0, a1, a2]" "vstride (rdst S) = [b0, b1, b2]"
    using assms by (auto simp: region_ok_def length3)
  show ?thesis by (simp add: offsetCompute_def src_region_def dims3_def upt3 l offset_step_def big_def)
qed

lemma linked_mset:
  assumes "mset (src_dims L) = mset E" "grid (dst_dims L) = grid F"
  shows "linked L so d0 = {(d, s). \<exists>m k. (d, m) \<in> grid F \<and> (k, s) \<in> grid E \<and> d0 + m = so + k}"
  unfolding linked_def assms(2) grid_perm [OF assms(1)] ..

lemma linked_compose:
  "{(x + d, d0 + m) | d m. (d, m) \<in> F} O {(so + k, y + s) | k s. (k, s) \<in> E} =
   {(x + d, y + s) | d s. (d, s) \<in> {(d, s). \<exists>m k. (d, m) \<in> F \<and> (k, s) \<in> E \<and> d0 + m = so + k}}"
  for x y d0 so :: int
  by (auto simp: relcomp_unfold) (metis (no_types))+

text \<open>
  The heart of the matter: what the fused region copies is what the one region copies after the other.
\<close>

lemma region_compute:
  assumes reg: "region_ok S" "region_ok D" and pos: "positive_strides S" "positive_strides D" and ok: "arrays_ok st"
    and al: "fuse_align S D st = (True, st4)" and f: "falling S" and g: "one_grid S D st4"
    and nn: "0 \<le> voffset (rdst S)" "0 \<le> voffset (rsrc D)" and c: "clip_status S D st4 = (True, st5)"
  shows "region_set (fst (fuse_apply S D st5)) = region_set D O region_set S"
proof -
  let ?so = "voffset (rdst S)" and ?d0 = "voffset (rsrc D)" and ?n = "dstNum st4"
  from align_chain [OF pos ok al f g nn] obtain E where E: "aligned S D st4 E" by blast
  define ix where "ix = take ?n (validIndex (dstSrc st4) ?n)"
  define L where "L = map (mid_dim st4) ix"
  have n: "1 \<le> ?n" "?n \<le> 3" and d: "distinct (map ((!) (dstSrc st4)) [0..<?n])"
    and nb: "nested_boxes (box_dims L) ?so ?d0"
    using g E by (simp_all add: one_grid_def aligned_def L_def ix_def box_of_mid)
  have ix: "mset ix = mset [0..<?n]" and sx: "sorted_wrt (\<lambda>i j. dstSrc st4 ! j < dstSrc st4 ! i) ix"
    unfolding ix_def by (rule validIndex_spec [OF n d])+
  have mE: "mset E = mset (src_dims L)" using E ix unfolding aligned_def L_def dims_of_mid by (metis mset_map)
  have fL: "sorted_wrt (>) (mids (src_dims L))" using sx by (simp add: L_def dims_of_mid mids_def sorted_wrt_map)
  have "mids E = mids (src_dims L)"
    by (rule falling_unique) (use E fL mset_eq_setD [OF mE] in \<open>simp_all add: aligned_def mids_def\<close>)
  from keyed_unique [OF mE this] E sorted_gt_distinct have EL: "E = src_dims L" unfolding aligned_def by blast
  obtain off mx mn base where
    off: "map ((!) off) ix = digits (map ((!) (dstSrc st4)) ix) ?so ?d0"
    and z: "rest (map ((!) (dstSrc st4)) ix) ?so = 0" "rest (map ((!) (dstSrc st4)) ix) ?d0 = 0"
    and v: "\<forall>j < ?n. mx ! j = min (newSrcSize st4 ! j - off ! j) (dstSize st4 ! j) \<and> mn ! j = max 0 (- (off ! j))"
    and len: "length mx = 3" "length mn = 3"
    and base: "base = offsetCompute S ?d0 ?so True + voffset (rsrc S)"
    and res: "(\<forall>j < ?n. mn ! j < mx ! j) \<and>
       st5 = st4\<lparr>dstMax := mx, dstMin := mn,
         newDstOffset := voffset (rdst D) + sum_list (map (\<lambda>j. mn ! j * dstDst st4 ! j) [0..<?n]),
         newSrcOffset := base + sum_list (map (\<lambda>j. mn ! j * newSrc st4 ! j) [0..<?n]), mStatus := FUSE_REGION_COMPUTE\<rparr> \<or>
     (\<exists>j < ?n. mx ! j \<le> mn ! j) \<and> dstSize st5 = [0, 0, 0] \<and> mStatus st5 = FUSE_REGION_COMPUTE"
    by (rule clip_status_spec [OF c n d, folded ix_def])
  define ex where "ex = digits (map fst L) ?so ?d0"
  have exo: "ex = map ((!) off) ix" unfolding ex_def L_def dims_of_mid by (rule off [symmetric])
  let ?box = "\<lambda>j. (mx ! j - mn ! j, dstDst st4 ! j, newSrc st4 ! j)"
  have fd: "mset (fused_dims L ex) = mset (map ?box [0..<?n])"
  proof -
    have "fused_dims L ex = map ?box ix" unfolding L_def exo fused_sums
      by (rule map_cong) (use v mset_eq_setD [OF ix] in auto)
    then show ?thesis using ix by simp
  qed
  have mnx: "sum_list (map (\<lambda>j. max 0 (- (off ! j)) * h ! j) ix) = sum_list (map (\<lambda>j. mn ! j * h ! j) [0..<?n])" for h
  proof -
    have "map (\<lambda>j. max 0 (- (off ! j)) * h ! j) ix = map (\<lambda>j. mn ! j * h ! j) ix"
      by (rule map_cong) (use v mset_eq_setD [OF ix] in auto)
    then show ?thesis using sum_list_perm [OF ix, of "\<lambda>j. mn ! j * h ! j"] by (simp only:)
  qed
  have ds: "dst_shift L ex = sum_list (map (\<lambda>j. mn ! j * dstDst st4 ! j) [0..<?n])"
    unfolding L_def exo fused_sums mnx ..
  have ss: "src_shift L ex = sum_list (map (\<lambda>j. mn ! j * newSrc st4 ! j) [0..<?n]) + offset_sum E ?d0 ?so"
    unfolding EL L_def exo fused_sums mnx offset_sum_digits [OF off] ..
  have oc: "offsetCompute S ?d0 ?so True = offset_sum E ?d0 ?so" using E offset_compute_sum [OF reg(1)] by (simp add: aligned_def)
  have li: "linked L ?so ?d0 = {(dst_shift L ex + d, src_shift L ex + s) | d s. (d, s) \<in> grid (map ?box [0..<?n])}"
  proof -
    have zL: "rest (map fst L) ?so = 0" "rest (map fst L) ?d0 = 0" unfolding L_def dims_of_mid by (rule z)+
    show ?thesis using linked_grid [OF nb nn zL, folded ex_def] unfolding grid_perm [OF fd] .
  qed
  have comp: "region_set D O region_set S = {(voffset (rdst D) + d, voffset (rsrc S) + s) | d s. (d, s) \<in> linked L ?so ?d0}"
  proof -
    have "grid (dst_dims L) = grid (swap_dims (ddims st4))" unfolding L_def dims_of_mid
      by (rule grid_perm) (use ix in \<open>simp add: dims3_def swap_dims_def o_def\<close>)
    then have gd: "grid (dst_dims L) = grid (swap_dims (filter big (dst_region D)))" using E by (simp add: aligned_def)
    have gs: "grid (src_dims L) = grid (filter big (src_region S))" using E EL by (simp add: aligned_def)
    show ?thesis unfolding src_region_set [OF reg(1)] dst_region_set [OF reg(2)] linked_def gd gs
      by (rule linked_compose)
  qed
  show ?thesis
  proof (cases "\<forall>j < ?n. mn ! j < mx ! j")
    case True
    then have st5: "st5 = st4\<lparr>dstMax := mx, dstMin := mn,
         newDstOffset := voffset (rdst D) + sum_list (map (\<lambda>j. mn ! j * dstDst st4 ! j) [0..<?n]),
         newSrcOffset := base + sum_list (map (\<lambda>j. mn ! j * newSrc st4 ! j) [0..<?n]), mStatus := FUSE_REGION_COMPUTE\<rparr>"
      using res by (meson not_less)
    have "region_set (fst (fuse_apply S D st5)) = {(newDstOffset st5 + d, newSrcOffset st5 + s) | d s.
      (d, s) \<in> grid (map (\<lambda>j. (dstMax st5 ! j - dstMin st5 ! j, dstDst st5 ! j, newSrc st5 ! j)) [0..<dstNum st5])}"
      by (rule apply_strides) (use E n in \<open>simp_all add: st5 aligned_def ones_ok_def arrays_ok_simps len\<close>)
    also have "\<dots> = {(voffset (rdst D) + d, voffset (rsrc S) + s) | d s. (d, s) \<in> linked L ?so ?d0}"
      unfolding li ds ss by (simp add: st5 base oc add.assoc) (force simp: algebra_simps)
    finally show ?thesis unfolding comp .
  next
    case False
    then have z: "dstSize st5 = [0, 0, 0]" "mStatus st5 = FUSE_REGION_COMPUTE" using res by auto
    have "grid (map ?box [0..<?n]) = {}"
    proof -
      from False obtain j where j: "j < ?n" "mx ! j - mn ! j \<le> 0" by (auto simp: not_less)
      have "(k, a, b) \<in> set ds \<Longrightarrow> k \<le> 0 \<Longrightarrow> grid ds = {}" for k a b and ds :: "(int \<times> int \<times> int) list"
        by (induction ds rule: grid.induct) auto
      from this [of "mx ! j - mn ! j" "dstDst st4 ! j" "newSrc st4 ! j"] j show ?thesis by force
    qed
    then have "region_set D O region_set S = {}" unfolding comp li by simp
    moreover have "region_set (fst (fuse_apply S D st5)) = {}"
      using reg(2) by (auto simp: fuse_apply_def z region_set_def region_moves_def region_ok_def length3)
    ultimately show ?thesis by simp
  qed
qed

end
