(* ===== verification/Fuse_Claims.thy ===== *)
theory Fuse_Claims
  imports Fuse_Apply
begin

text \<open>
  The properties of the fusion of regions: when it composes the two copies, with a demonstration, and two
  families of regions for which it does not.
\<close>

section \<open>What a region computes\<close>

lemma computeRaw_raster: "computeRaw zero a r = raster zero (\<lambda>_. a) [r]"
  by (simp add: computeRaw_def raster_def)

lemma computeRaw_in:
  assumes "single_valued (region_set r)" "(p, s) \<in> region_set r"
  shows "computeRaw zero a r p = a s"
proof -
  have f: "e = e'" if "e \<in> set (tagged_moves [r])" "e' \<in> set (tagged_moves [r])" "fst e = fst e'" for e e'
    using that assms(1) unfolding set_tagged_moves by (auto dest: single_valuedD)
  have m: "(p, rorigin r, s) \<in> set (tagged_moves [r])" using assms(2) unfolding set_tagged_moves by simp
  then have "map_of (tagged_moves [r]) p \<noteq> None" by (simp add: map_of_eq_None_iff image_iff) force
  then obtain y where y: "map_of (tagged_moves [r]) p = Some y" by blast
  have "(p, y) = (p, rorigin r, s)" by (rule f [OF map_of_SomeD [OF y] m]) simp
  then show ?thesis using y by (simp add: computeRaw_raster raster_moves fold_put [OF f])
qed

lemma computeRaw_out: "(\<And>s. (p, s) \<notin> region_set r) \<Longrightarrow> computeRaw zero a r p = zero"
  unfolding computeRaw_raster by (rule raster_other) simp

lemma computeRaw_compose:
  assumes D: "single_valued (region_set D)" and S: "single_valued (region_set S)"
    and R: "region_set R = region_set D O region_set S"
  shows "computeRaw zero (computeRaw zero a S) D = computeRaw zero a R"
proof
  fix p
  have sR: "single_valued (region_set R)" unfolding R by (rule single_valued_relcomp [OF D S])
  show "computeRaw zero (computeRaw zero a S) D p = computeRaw zero a R p"
  proof (cases "\<exists>m. (p, m) \<in> region_set D")
    case True
    then obtain m where m: "(p, m) \<in> region_set D" by blast
    show ?thesis
    proof (cases "\<exists>s. (m, s) \<in> region_set S")
      case True
      then obtain s where s: "(m, s) \<in> region_set S" by blast
      then have "(p, s) \<in> region_set R" unfolding R using m by blast
      then show ?thesis using computeRaw_in [OF D m] computeRaw_in [OF S s] computeRaw_in [OF sR] by metis
    next
      case False
      then have "(p, s) \<notin> region_set R" for s unfolding R using m D by (auto dest: single_valuedD)
      then show ?thesis using computeRaw_in [OF D m] computeRaw_out [of m S] computeRaw_out [of p R] False by metis
    qed
  next
    case False
    then have "(p, s) \<notin> region_set R" for s unfolding R by blast
    then show ?thesis using computeRaw_out [of p D] computeRaw_out [of p R] False by metis
  qed
qed

definition writes_once :: "region \<Rightarrow> bool" where
  "writes_once r \<longleftrightarrow> distinct (map fst (region_moves r))"

lemma writes_once_single: "writes_once r \<Longrightarrow> single_valued (region_set r)"
  unfolding writes_once_def region_set_def single_valued_def by (metis eq_key_imp_eq_value)

lemma src_single:
  assumes "nested_boxes (box_dims L) so d0" "0 \<le> so" "rest (map fst L) so = 0"
    "(m, s) \<in> grid (src_dims L)" "(m, s') \<in> grid (src_dims L)"
  shows "s = s'"
  using assms
proof (induction L arbitrary: so d0 m s s')
  case (Cons x L)
  obtain t a s0 b d where x: "x = (t, (a, s0), (b, d))" by (metis prod.collapse)
  from Cons.prems(1) have t: "0 < t" and n: "nested_boxes (box_dims L) (so smod t) (d0 smod t)"
    and lt: "reach (box_dims L) (so smod t) (d0 smod t) < t" by (simp_all add: x)
  have sm: "so smod t = so mod t" and nn: "0 \<le> so smod t" and r: "rest (map fst L) (so smod t) = 0"
    using t Cons.prems(2,3) by (simp_all add: smod_pos x)
  from Cons.prems(4) obtain i m1 s1 where 1: "m = i * t + m1" "s = i * s0 + s1" "(m1, s1) \<in> grid (src_dims L)" by (auto simp: x)
  from Cons.prems(5) obtain j m2 s2 where 2: "m = j * t + m2" "s' = j * s0 + s2" "(m2, s2) \<in> grid (src_dims L)" by (auto simp: x)
  let ?u = "so mod t + m1" and ?v = "so mod t + m2"
  have b: "0 \<le> ?u \<and> ?u < t" "0 \<le> ?v \<and> ?v < t"
    using src_reach [OF n nn r 1(3)] src_reach [OF n nn r 2(3)] lt sm by simp_all
  have "?u + i * t = ?v + j * t" using 1(1) 2(1) by simp
  from arg_cong [OF this, of "\<lambda>x. x div t"] have "i = j" using b t by simp
  moreover from this have "m1 = m2" using 1(1) 2(1) by simp
  ultimately show ?case using Cons.IH [OF n nn r 1(3)] 2 1 by simp
qed simp

section \<open>Copying without a gap\<close>

text \<open>The source region writes a contiguous range of the middle.\<close>

definition gapless :: "region \<Rightarrow> bool" where
  "gapless r \<longleftrightarrow> (let A = filter big (src_region r) in mids A = dense_strides (map fst A))"

lemma mid_sum: "sum_list (map (\<lambda>(n, t, s). t * (n - 1)) A) = sum_list (map2 (\<lambda>t n. t * (n - 1)) (mids A) (map fst A))"
  by (induction A) (auto simp: mids_def)

lemma dense_top: "sum_list (map2 (\<lambda>t n. t * (n - 1)) (dense_strides ns) ns) = prod_list ns - (1 :: int)"
  by (induction ns) (simp_all add: algebra_simps)

lemma last_big:
  assumes "region_ok r"
  shows "last_position (rdst r) (rsize r) =
      voffset (rdst r) + sum_list (map (\<lambda>(n, t, s). t * (n - 1)) (filter big (src_region r)))"
    "last_position (rsrc r) (rsize r) =
      voffset (rsrc r) + sum_list (map (\<lambda>(n, t, s). t * (n - 1)) (filter big (dst_region r)))"
proof -
  obtain n0 n1 n2 a0 a1 a2 b0 b1 b2 where l: "rsize r = [n0, n1, n2]" "vstride (rsrc r) = [a0, a1, a2]" "vstride (rdst r) = [b0, b1, b2]"
    using assms by (auto simp: region_ok_def length3)
  have p: "\<not> 1 < n0 \<longrightarrow> n0 = 1" "\<not> 1 < n1 \<longrightarrow> n1 = 1" "\<not> 1 < n2 \<longrightarrow> n2 = 1" using assms by (auto simp: region_ok_def l)
  show "last_position (rdst r) (rsize r) =
      voffset (rdst r) + sum_list (map (\<lambda>(n, t, s). t * (n - 1)) (filter big (src_region r)))"
    using p by (cases "1 < n0"; cases "1 < n1"; cases "1 < n2") (simp_all add: last_position_def src_region_def dims3_def upt3 l big_def)
  show "last_position (rsrc r) (rsize r) =
      voffset (rsrc r) + sum_list (map (\<lambda>(n, t, s). t * (n - 1)) (filter big (dst_region r)))"
    using p by (cases "1 < n0"; cases "1 < n1"; cases "1 < n2") (simp_all add: last_position_def dst_region_def dims3_def upt3 l big_def)
qed

lemma grid_range:
  assumes "\<forall>x \<in> set B. big x \<and> 0 < fst (snd x)" "(d, m) \<in> grid (swap_dims B)"
  shows "0 \<le> m \<and> m \<le> sum_list (map (\<lambda>(n, t, s). t * (n - 1)) B)"
  using assms
proof (induction B arbitrary: d m)
  case (Cons x B)
  obtain n t s where x: "x = (n, t, s)" by (metis prod_cases3)
  from Cons.prems(2) obtain i d' m' where m: "m = i * t + m'" "0 \<le> i" "i < n" "(d', m') \<in> grid (swap_dims B)"
    by (auto simp: x swap_dims_def)
  have t: "0 < t" using Cons.prems(1) x by simp
  have "0 \<le> m' \<and> m' \<le> sum_list (map (\<lambda>(n, t, s). t * (n - 1)) B)" using Cons.IH [OF _ m(4)] Cons.prems(1) by simp
  moreover have "i * t \<le> (n - 1) * t" using m(3) t by (intro mult_right_mono) auto
  moreover have "0 \<le> i * t" using m(2) t by simp
  ultimately show ?case using m(1) by (simp add: x mult.commute)
qed (simp add: swap_dims_def)

lemma dense_grid:
  assumes "mids A = dense_strides (map fst A)" "\<forall>x \<in> set A. snd (snd x) = fst (snd x) \<and> 0 < fst x"
  shows "grid A = {(k, k) | k. 0 \<le> k \<and> k < prod_list (map fst A)}"
proof -
  have o: "map (snd \<circ> snd) A = dense_strides (map fst A)" "map (fst \<circ> snd) A = dense_strides (map fst A)"
    using assms(1) assms(2) unfolding assms(1) [symmetric] mids_def by simp_all
  have "grid A = {(flat (map fst A) c, flat (map fst A) c) | c. c \<in> coords (map fst A)}"
    unfolding grid_coords o ..
  also have "\<dots> = {(k, k) | k. 0 \<le> k \<and> k < prod_list (map fst A)}"
  proof (intro set_eqI iffI)
    fix p assume "p \<in> {(flat (map fst A) c, flat (map fst A) c) | c. c \<in> coords (map fst A)}"
    then show "p \<in> {(k, k) | k. 0 \<le> k \<and> k < prod_list (map fst A)}" using flat_bounds by auto
  next
    fix p assume "p \<in> {(k, k) | k. 0 \<le> k \<and> k < prod_list (map fst A)}"
    then obtain k where k: "p = (k, k)" "0 \<le> k" "k < prod_list (map fst A)" by blast
    have "\<And>n. n \<in> set (map fst A) \<Longrightarrow> 0 \<le> n" using assms(2) by auto
    from flat_surj [OF k(2,3) this] k(1) show "p \<in> {(flat (map fst A) c, flat (map fst A) c) | c. c \<in> coords (map fst A)}" by blast
  qed
  finally show ?thesis .
qed

lemma gapless_set:
  assumes reg: "region_ok S" and cp: "isCopyRegion S" and gl: "gapless S"
  shows "region_set S = {(voffset (rdst S) + k, voffset (rsrc S) + k) | k. 0 \<le> k \<and> voffset (rdst S) + k \<le> last_position (rdst S) (rsize S)}"
proof -
  let ?A = "filter big (src_region S)"
  have A: "mids ?A = dense_strides (map fst ?A)" using gl by (simp add: gapless_def Let_def)
  have e: "\<forall>x \<in> set ?A. snd (snd x) = fst (snd x) \<and> 0 < fst x"
    using cp by (auto simp: isCopyRegion_def src_region_def dims3_def upt3 big_def)
  have "sum_list (map (\<lambda>(n, t, s). t * (n - 1)) ?A) = prod_list (map fst ?A) - 1"
    unfolding mid_sum A by (rule dense_top)
  then have "last_position (rdst S) (rsize S) = voffset (rdst S) + prod_list (map fst ?A) - 1" using last_big(1) [OF reg] by simp
  then show ?thesis unfolding src_region_set [OF reg] dense_grid [OF A e] by auto
qed

lemma src_copy:
  assumes reg: "region_ok S" "region_ok D" and pos: "positive_strides D" and cp: "isCopyRegion S" and v: "copy_valid S D" and gl: "gapless S"
    and k: "mStatus st = FUSE_SRC_COPY"
  shows "region_set (fst (fuse_apply S D st)) = region_set D O region_set S"
proof -
  let ?B = "filter big (dst_region D)" and ?R = "fst (fuse_apply S D st)"
  have R: "rsize ?R = rsize D" "rdst ?R = rdst D" "vstride (rsrc ?R) = vstride (rsrc D)"
    "voffset (rsrc ?R) = voffset (rsrc D) + (voffset (rsrc S) - voffset (rdst S))" by (simp_all add: fuse_apply_def k)
  have rR: "region_ok ?R" "dst_region ?R = dst_region D" using reg(2) by (simp_all add: region_ok_def R dst_region_def)
  have rng: "voffset (rdst S) \<le> voffset (rsrc D) + m \<and> voffset (rsrc D) + m \<le> last_position (rdst S) (rsize S)"
    if "(d, m) \<in> grid (swap_dims ?B)" for d m
    using grid_range [OF big_positive(2) [OF pos] that] v last_big(2) [OF reg(2)] by (simp add: copy_valid_def)
  show ?thesis
  proof (intro set_eqI iffI)
    fix p assume "p \<in> region_set ?R"
    then obtain d m where p: "p = (voffset (rdst D) + d, voffset (rsrc ?R) + m)" and g: "(d, m) \<in> grid (swap_dims ?B)"
      unfolding dst_region_set [OF rR(1)] rR(2) R(2) by blast
    let ?k = "voffset (rsrc D) + m - voffset (rdst S)"
    have "(voffset (rdst D) + d, voffset (rsrc D) + m) \<in> region_set D" unfolding dst_region_set [OF reg(2)] using g by blast
    moreover have "(voffset (rdst S) + ?k, voffset (rsrc S) + ?k) \<in> region_set S"
      unfolding gapless_set [OF reg(1) cp gl] using rng [OF g] by (intro CollectI exI [of _ ?k]) simp
    ultimately show "p \<in> region_set D O region_set S" unfolding p R(4) by (auto simp: algebra_simps intro!: relcompI)
  next
    fix p assume "p \<in> region_set D O region_set S"
    then obtain d m k where p: "p = (voffset (rdst D) + d, voffset (rsrc S) + k)" and g: "(d, m) \<in> grid (swap_dims ?B)"
      and e: "voffset (rsrc D) + m = voffset (rdst S) + k"
      unfolding dst_region_set [OF reg(2)] gapless_set [OF reg(1) cp gl] by auto
    have "p = (voffset (rdst D) + d, voffset (rsrc ?R) + m)" unfolding p R(4) using e by simp
    then show "p \<in> region_set ?R" unfolding dst_region_set [OF rR(1)] rR(2) R(2) using g by blast
  qed
qed


lemma region_single:
  assumes reg: "region_ok S" and pos: "positive_strides S" "positive_strides D" and ok: "arrays_ok st"
    and al: "fuse_align S D st = (True, st4)" and f: "falling S" and g: "one_grid S D st4"
    and nn: "0 \<le> voffset (rdst S)" "0 \<le> voffset (rsrc D)" and c: "clip_status S D st4 = (True, st5)"
  shows "single_valued (region_set S)"
proof -
  let ?so = "voffset (rdst S)" and ?d0 = "voffset (rsrc D)" and ?n = "dstNum st4"
  from align_chain [OF pos ok al f g nn] obtain E where E: "aligned S D st4 E" by blast
  define ix where "ix = take ?n (validIndex (dstSrc st4) ?n)"
  define L where "L = map (mid_dim st4) ix"
  have n: "1 \<le> ?n" "?n \<le> 3" and d: "distinct (map ((!) (dstSrc st4)) [0..<?n])"
    and nb: "nested_boxes (box_dims L) ?so ?d0"
    using g E by (simp_all add: one_grid_def aligned_def L_def ix_def box_of_mid)
  have ix: "mset ix = mset [0..<?n]" unfolding ix_def by (rule validIndex_spec [OF n d])
  have mE: "mset E = mset (src_dims L)" using E ix unfolding aligned_def L_def dims_of_mid by (metis mset_map)
  obtain z: "rest (map fst L) ?so = 0" unfolding L_def dims_of_mid ix_def by (rule clip_status_spec [OF c n d])
  have "grid (filter big (src_region S)) = grid (src_dims L)" using E grid_perm [OF mE] by (simp add: aligned_def)
  then show ?thesis unfolding src_region_set [OF reg] single_valued_def using src_single [OF nb nn(1) z] by auto
qed

section \<open>Fusing is composing\<close>

lemma match_cases:
  assumes "fuse_match S D st = (True, st')"
  shows "positive_strides S \<and> positive_strides D"
    and "mStatus st' = FUSE_SRC_COPY \<Longrightarrow> isCopyRegion S \<and> copy_valid S D"
    and "mStatus st' = FUSE_REGION_COMPUTE \<Longrightarrow> \<exists>st4. fuse_align S D st = (True, st4) \<and> clip_status S D st4 = (True, st')"
proof -
  show "positive_strides S \<and> positive_strides D" using assms by (simp add: fuse_match_def split: if_splits)
  have kind: "mStatus st5 = FUSE_REGION_COMPUTE" if "clip_status S D st4 = (True, st5)" for st4 st5
    using that by (auto simp: clip_status_def Let_def split: prod.splits if_splits)
  show "mStatus st' = FUSE_SRC_COPY \<Longrightarrow> isCopyRegion S \<and> copy_valid S D"
    using assms kind by (auto simp: fuse_match_def split: if_splits prod.splits bool.splits)
  show "mStatus st' = FUSE_REGION_COMPUTE \<Longrightarrow> \<exists>st4. fuse_align S D st = (True, st4) \<and> clip_status S D st4 = (True, st')"
    using assms by (auto simp: fuse_match_def split: if_splits prod.splits bool.splits)
qed

text \<open>
  Both boxes run inside one grid of positions of the middle, and the source region steps through it from
  the largest stride to the smallest.
\<close>

definition fusable :: "region \<Rightarrow> region \<Rightarrow> fuse_status \<Rightarrow> fuse_kind \<Rightarrow> bool" where
  "fusable S D st k \<longleftrightarrow> (case k of
     FUSE_SRC_COPY \<Rightarrow> gapless S
   | FUSE_REGION_COMPUTE \<Rightarrow> falling S \<and> one_grid S D (snd (fuse_align S D st)))"

lemma fuse_set:
  assumes reg: "region_ok S" "region_ok D" and ok: "arrays_ok st" and nn: "0 \<le> voffset (rdst S)" "0 \<le> voffset (rsrc D)"
    and m: "fuse_match S D st = (True, st')" and fu: "fusable S D st (mStatus st')"
  shows "region_set (fst (fuse_apply S D st')) = region_set D O region_set S \<and> single_valued (region_set S)"
proof (cases "mStatus st'")
  case FUSE_SRC_COPY
  note cp = match_cases(2) [OF m FUSE_SRC_COPY]
  have gl: "gapless S" using fu by (simp add: fusable_def FUSE_SRC_COPY)
  have "single_valued (region_set S)" unfolding gapless_set [OF reg(1) cp [THEN conjunct1] gl] by (auto simp: single_valued_def)
  then show ?thesis using src_copy [OF reg _ _ _ gl FUSE_SRC_COPY] match_cases(1) [OF m] cp by blast
next
  case FUSE_REGION_COMPUTE
  from match_cases(3) [OF m FUSE_REGION_COMPUTE] obtain st4 where
    al: "fuse_align S D st = (True, st4)" and c: "clip_status S D st4 = (True, st')" by blast
  have f: "falling S" and g: "one_grid S D st4" using fu by (simp_all add: fusable_def FUSE_REGION_COMPUTE al)
  have pos: "positive_strides S" "positive_strides D" using match_cases(1) [OF m] by simp_all
  from region_single [OF reg(1) pos ok al f g nn c] region_compute [OF reg pos ok al f g nn c] show ?thesis by blast
qed

text \<open>
  C17. Fusing two regions is composing their copies: when \<open>match\<close> answers true, the content the rewritten
  region computes from the origin of the source region is, at every position, the content the
  destination region computes from the content of the virtual tensor between them. This is the
  comparison the code makes under \<open>MNN_DEBUG_BLIT\<close>, for all regions at once: the source region writes
  without a gap, when \<open>match\<close> chose the copy; else it steps through the middle in falling strides and both
  regions are boxes of one grid of it.
\<close>

theorem fuse_correct:
  assumes "region_ok S" "region_ok D" "arrays_ok st" "0 \<le> voffset (rdst S)" "0 \<le> voffset (rsrc D)"
    and "writes_once D" and "fuse_match S D st = (True, st')" and "fusable S D st (mStatus st')"
  shows "computeRaw zero (computeRaw zero a S) D = computeRaw zero a (fst (fuse_apply S D st'))"
  by (rule computeRaw_compose [OF writes_once_single [OF assms(6)] conjunct2 [OF fuse_set [OF assms(1-5,7,8)]] conjunct1 [OF fuse_set [OF assms(1-5,7,8)]]])

definition demo_transpose :: region where
  "demo_transpose = \<lparr>rsrc = \<lparr>voffset = 0, vstride = [12, 1, 4]\<rparr>, rdst = \<lparr>voffset = 0, vstride = [12, 3, 1]\<rparr>, rsize = [3, 4, 3], rorigin = 0\<rparr>"

definition demo_slice :: region where
  "demo_slice = \<lparr>rsrc = \<lparr>voffset = 12, vstride = [36, 3, 1]\<rparr>, rdst = \<lparr>voffset = 0, vstride = [24, 3, 1]\<rparr>, rsize = [1, 8, 3], rorigin = 1\<rparr>"

lemmas match_eval = fuse_match_def fuse_align_def Let_def positive_strides_def isCopyRegion_def copy_valid_def total_size_def
  last_position_def gather_def gather_src_def gather_dst_def expand_src_def expand_dst_def expandStrideSize_def
  int3_insert_def upt3 upt_rec numeral_2_eq_2 sdiv_pos smod_pos

lemmas clip_eval = clip_status_def ClipDst_def clip_range_def clip_digits_def validIndex_def max_index_def min_index_def
  digit_step_def offsetCompute_def offset_step_def clip_again_def

definition demo_aligned :: fuse_status where
  "demo_aligned = \<lparr>mStatus = FUSE_SRC_COPY, srcDst = [12, 3, 1], srcSrc = [12, 1, 4], dstSrc = [12, 3, 1], dstDst = [12, 3, 1],
     srcSize = [3, 4, 3], dstSize = [2, 4, 3], newSrc = [12, 1, 4], dstStride = [3, 1, - 1], srcStride = [12, 3, 1],
     dstMin = [0, 0, 0], dstMax = [0, 0, 0], newSrcSize = [3, 4, 3], srcNum = 3, dstNum = 3, sizeNum = 2,
     newSrcOffset = 0, newDstOffset = 0, expandIdx = - 1\<rparr>"

lemma demo_align: "fuse_align demo_transpose demo_slice fuse_init = (True, demo_aligned)"
  by (simp add: match_eval demo_transpose_def demo_slice_def fuse_init_def demo_aligned_def)

definition demo_matched :: fuse_status where
  "demo_matched = demo_aligned\<lparr>dstMin := [0, 0, 0], dstMax := [2, 4, 3], newSrcOffset := 12, mStatus := FUSE_REGION_COMPUTE\<rparr>"

lemma demo_clip: "clip_status demo_transpose demo_slice demo_aligned = (True, demo_matched)"
  by (simp add: clip_eval match_eval demo_transpose_def demo_slice_def demo_aligned_def demo_matched_def)

lemma demo_match: "fuse_match demo_transpose demo_slice fuse_init = (True, demo_matched)"
proof -
  have "positive_strides demo_transpose \<and> positive_strides demo_slice \<and> \<not> isCopyRegion demo_transpose"
    by (simp add: positive_strides_def isCopyRegion_def demo_transpose_def demo_slice_def)
  then show ?thesis by (simp add: fuse_match_def demo_align demo_clip)
qed

lemma demo_regions: "region_ok demo_transpose" "region_ok demo_slice" "writes_once demo_slice" "arrays_ok fuse_init"
  by (simp_all add: region_ok_def demo_transpose_def demo_slice_def writes_once_def region_moves_def upto_rec1
      arrays_ok_simps fuse_init_def)

lemma demo_falling: "falling demo_transpose"
  by (simp add: falling_def src_region_def dims3_def mids_def big_def demo_transpose_def upt3)

lemma demo_grid: "one_grid demo_transpose demo_slice demo_aligned"
proof -
  have "validIndex [12, 3, 1] 3 = [0, 1, 2]"
    by (simp add: validIndex_def max_index_def min_index_def upt_rec Let_def numeral_2_eq_2)
  then show ?thesis by (simp add: one_grid_def demo_aligned_def demo_transpose_def demo_slice_def upt3 sdiv_pos smod_pos)
qed

lemma demo_fusable: "fusable demo_transpose demo_slice fuse_init (mStatus demo_matched)"
  by (simp add: fusable_def demo_align demo_matched_def demo_falling demo_grid)

definition demo_fused :: region where
  "demo_fused = \<lparr>rsrc = \<lparr>voffset = 12, vstride = [12, 1, 4]\<rparr>, rdst = \<lparr>voffset = 0, vstride = [12, 3, 1]\<rparr>, rsize = [2, 4, 3], rorigin = 0\<rparr>"

lemma demo_apply: "fst (fuse_apply demo_transpose demo_slice demo_matched) = demo_fused"
  by (simp add: fuse_apply_def demo_matched_def demo_aligned_def demo_transpose_def demo_fused_def upt3 upt_rec stride_step_def Let_def numeral_2_eq_2)

lemma fuse_correct_witness:
  "computeRaw 0 (computeRaw 0 (\<lambda>p. p + 1) demo_transpose) demo_slice = computeRaw (0 :: int) (\<lambda>p. p + 1) demo_fused"
proof -
  have "0 \<le> voffset (rdst demo_transpose)" "0 \<le> voffset (rsrc demo_slice)" by (simp_all add: demo_transpose_def demo_slice_def)
  from fuse_correct [OF demo_regions(1,2,4) this demo_regions(3) demo_match demo_fusable, of 0 "\<lambda>p. p + 1"]
  show ?thesis unfolding demo_apply .
qed

section \<open>Where fusing is not composing\<close>

text \<open>Every second entry of a buffer, at its own position, and the front half of the result.\<close>

definition gap_src :: "int \<Rightarrow> region" where
  "gap_src n = \<lparr>rsrc = \<lparr>voffset = 0, vstride = [0, 0, 2]\<rparr>, rdst = \<lparr>voffset = 0, vstride = [0, 0, 2]\<rparr>, rsize = [1, 1, n], rorigin = 0\<rparr>"

definition gap_dst :: "int \<Rightarrow> region" where
  "gap_dst n = \<lparr>rsrc = \<lparr>voffset = 0, vstride = [0, 0, 1]\<rparr>, rdst = \<lparr>voffset = 0, vstride = [0, 0, 1]\<rparr>, rsize = [1, 1, n], rorigin = 1\<rparr>"

lemma gap_sets:
  "region_set (gap_src n) = {(x * 2, x * 2) | x. 0 \<le> x \<and> x < n}"
  "region_set (gap_dst n) = {(x, x) | x. 0 \<le> x \<and> x < n}"
proof -
  have g: "grid [(1, 0, 0), (1, 0, 0), x] = grid [x]" for x by (simp only: grid_unit)
  show "region_set (gap_src n) = {(x * 2, x * 2) | x. 0 \<le> x \<and> x < n}"
    unfolding gap_src_def by (subst region_set_grid, simp_all del: grid.simps, subst g) simp
  show "region_set (gap_dst n) = {(x, x) | x. 0 \<le> x \<and> x < n}"
    unfolding gap_dst_def by (subst region_set_grid, simp_all del: grid.simps, subst g) simp
qed

text \<open>
  C19. The test for a full copy looks at the extents, not at the gaps: a source region that writes every second
  entry is taken for a copy, and the fused region reads the entries in between, which the virtual
  tensor never receives.
\<close>

theorem fuse_copy_gap:
  assumes "2 \<le> n"
  shows "fuse_match (gap_src n) (gap_dst n) st = (True, st\<lparr>mStatus := FUSE_SRC_COPY\<rparr>) \<and>
    computeRaw zero (computeRaw zero a (gap_src n)) (gap_dst n) 1 = zero \<and>
    computeRaw zero a (fst (fuse_apply (gap_src n) (gap_dst n) (st\<lparr>mStatus := FUSE_SRC_COPY\<rparr>))) 1 = a 1"
proof (intro conjI)
  show "fuse_match (gap_src n) (gap_dst n) st = (True, st\<lparr>mStatus := FUSE_SRC_COPY\<rparr>)"
    using assms by (simp add: match_eval gap_src_def gap_dst_def)
  have one: "(1, 1) \<in> region_set (gap_dst n)" and sv: "single_valued (region_set (gap_dst n))"
    using assms by (auto simp: gap_sets single_valued_def)
  have "(1, s) \<notin> region_set (gap_src n)" for s unfolding gap_sets by (auto, presburger)
  from computeRaw_out [OF this] show "computeRaw zero (computeRaw zero a (gap_src n)) (gap_dst n) 1 = zero"
    unfolding computeRaw_in [OF sv one] .
  have "fst (fuse_apply (gap_src n) (gap_dst n) (st\<lparr>mStatus := FUSE_SRC_COPY\<rparr>)) = gap_dst n\<lparr>rorigin := 0\<rparr>"
    by (simp add: fuse_apply_def gap_src_def gap_dst_def)
  moreover have "region_set (gap_dst n\<lparr>rorigin := 0\<rparr>) = region_set (gap_dst n)" by (simp add: region_set_def region_moves_def)
  ultimately show "computeRaw zero a (fst (fuse_apply (gap_src n) (gap_dst n) (st\<lparr>mStatus := FUSE_SRC_COPY\<rparr>))) 1 = a 1"
    using computeRaw_in [of "gap_dst n\<lparr>rorigin := 0\<rparr>"] sv one by metis
qed

lemma fuse_copy_gap_witness:
  "computeRaw 0 (computeRaw 0 (\<lambda>p. p + 7) (gap_src 5)) (gap_dst 5) 1 = (0 :: int) \<and>
   computeRaw 0 (\<lambda>p. p + 7) (fst (fuse_apply (gap_src 5) (gap_dst 5) (fuse_init\<lparr>mStatus := FUSE_SRC_COPY\<rparr>))) 1 = 8"
  using fuse_copy_gap [of 5 fuse_init 0 "\<lambda>p. p + 7"] by simp

text \<open>
  A matrix of \<open>a\<close> rows and \<open>b\<close> columns, transposed by a region whose inner loop has the larger stride, and
  the columns from \<open>k\<close> on of the result.
\<close>

definition rising_src :: "int \<Rightarrow> int \<Rightarrow> region" where
  "rising_src a b = \<lparr>rsrc = \<lparr>voffset = 0, vstride = [0, b, 1]\<rparr>, rdst = \<lparr>voffset = 0, vstride = [0, 1, a]\<rparr>, rsize = [1, a, b], rorigin = 0\<rparr>"

definition rising_dst :: "int \<Rightarrow> int \<Rightarrow> int \<Rightarrow> region" where
  "rising_dst a b k = \<lparr>rsrc = \<lparr>voffset = k * a, vstride = [0, 1, a]\<rparr>, rdst = \<lparr>voffset = 0, vstride = [0, 1, a]\<rparr>, rsize = [1, a, b - k], rorigin = 1\<rparr>"

definition rising_fused :: "int \<Rightarrow> int \<Rightarrow> int \<Rightarrow> region" where
  "rising_fused a b k = \<lparr>rsrc = \<lparr>voffset = k * a * b, vstride = [0, b, 1]\<rparr>, rdst = \<lparr>voffset = 0, vstride = [0, 1, a]\<rparr>, rsize = [1, a, b - k], rorigin = 0\<rparr>"

lemma rising_match:
  assumes "2 \<le> a" "2 \<le> b - k" "1 \<le> k"
  shows "\<exists>st. fuse_match (rising_src a b) (rising_dst a b k) fuse_init = (True, st) \<and>
    fst (fuse_apply (rising_src a b) (rising_dst a b k) st) = rising_fused a b k"
proof -
  have "0 \<le> k * a" using assms by simp
  then have "(k * a) sdiv 1 = k * a" "(k * a) smod 1 = 0" "(k * a) sdiv a = k" "(k * a) smod a = 0" using assms by (simp_all add: sdiv_pos smod_pos)
  then show ?thesis using assms
    by (simp add: match_eval clip_eval rising_src_def rising_dst_def fuse_init_def fuse_apply_def stride_step_def rising_fused_def)
qed

lemma rising_sets:
  "region_set (rising_src a b) = {(y + x * a, y * b + x) | y x. 0 \<le> y \<and> y < a \<and> 0 \<le> x \<and> x < b}"
  "region_set (rising_fused a b k) = {(y + x * a, k * a * b + (y * b + x)) | y x. 0 \<le> y \<and> y < a \<and> 0 \<le> x \<and> x < b - k}"
proof -
  have g: "grid [(1, 0, 0), x, y] = grid [x, y]" for x y by (simp only: grid_unit)
  have e: "grid [(n, 1, b), (m, a, 1)] = {(y + x * a, y * b + x) | y x. 0 \<le> y \<and> y < n \<and> 0 \<le> x \<and> x < m}" for n m
    by auto
  show "region_set (rising_src a b) = {(y + x * a, y * b + x) | y x. 0 \<le> y \<and> y < a \<and> 0 \<le> x \<and> x < b}"
    unfolding rising_src_def by (subst region_set_grid, simp_all del: grid.simps, subst g, subst e) simp
  show "region_set (rising_fused a b k) = {(y + x * a, k * a * b + (y * b + x)) | y x. 0 \<le> y \<and> y < a \<and> 0 \<le> x \<and> x < b - k}"
    unfolding rising_fused_def by (subst region_set_grid, simp_all del: grid.simps, subst g, subst e) auto
qed

text \<open>
  C18. The new offset is computed in the order of the dimensions of the source region, not of their strides:
  for a transposition whose inner loop has the larger stride, and a destination region that starts
  at column \<open>k\<close>, \<open>match\<close> answers true and every entry the fused region reads lies behind the end of the
  buffer the source region reads.
\<close>

theorem fuse_rising_outside:
  assumes "2 \<le> a" "2 \<le> b - k" "1 \<le> k"
  shows "\<exists>st. fuse_match (rising_src a b) (rising_dst a b k) fuse_init = (True, st) \<and>
    (\<forall>(m, s) \<in> region_set (rising_src a b). 0 \<le> s \<and> s < a * b) \<and>
    (0, k * a * b) \<in> region_set (fst (fuse_apply (rising_src a b) (rising_dst a b k) st)) \<and>
    (\<forall>(d, s) \<in> region_set (fst (fuse_apply (rising_src a b) (rising_dst a b k) st)). a * b \<le> s)"
proof -
  from rising_match [OF assms] obtain st where st: "fuse_match (rising_src a b) (rising_dst a b k) fuse_init = (True, st)"
    "fst (fuse_apply (rising_src a b) (rising_dst a b k) st) = rising_fused a b k" by blast
  have b: "0 < b" using assms by linarith
  have src: "0 \<le> s \<and> s < a * b" if m: "(m, s) \<in> region_set (rising_src a b)" for m s
  proof -
    from m obtain y x where s: "s = y * b + x" "0 \<le> y" "y < a" "0 \<le> x" "x < b" unfolding rising_sets by blast
    then show ?thesis using fuse_index [of b s a] b by auto
  qed
  have "1 * (a * b) \<le> k * (a * b)" using assms b by (intro mult_right_mono) auto
  then have "a * b \<le> k * a * b" by (simp add: mult.assoc)
  then have out: "a * b \<le> s" if "(d, s) \<in> region_set (rising_fused a b k)" for d s
    using that b unfolding rising_sets by (auto intro: order_trans add_increasing2)
  have "(0, k * a * b) \<in> region_set (rising_fused a b k)" unfolding rising_sets using assms
    by (intro CollectI exI [of _ 0] exI [of _ 0]) simp
  then show ?thesis using st src out by auto
qed

lemma fuse_rising_outside_witness:
  "\<exists>st. fuse_match (rising_src 2 4) (rising_dst 2 4 1) fuse_init = (True, st) \<and>
    (0, 8) \<in> region_set (fst (fuse_apply (rising_src 2 4) (rising_dst 2 4 1) st)) \<and> (\<forall>(m, s) \<in> region_set (rising_src 2 4). s < 8)"
  using fuse_rising_outside [of 2 4 1] by auto

end
