(* ===== verification/Raster_Model.thy ===== *)
theory Raster_Model
  imports Fuse_Claims
begin

text \<open>
  Emitting the raster commands of a graph of virtual tensors
  (\<open>GeometryComputer::Context::getRasterCacheCreateRecursive\<close> of \<open>source/geometry/GeometryComputer.cpp\<close>):
  every region of a tensor is fused with the regions of its origin as long as that is virtual, what is
  left is emitted first, then the tensor itself. A tensor is a number; the describes are a map, the
  command buffer is the list of the tensors with a command, in order, and the inputs of each.
\<close>

record raster_desc =
  virtual :: bool
  rasterCommand :: bool
  zeroDim :: bool
  regions :: "region list"

record raster_ctx =
  rdesc :: "nat \<Rightarrow> raster_desc"
  mFuseUtils :: fuse_status
  cmds :: "(nat \<times> nat list) list"

record fuse_mask =
  supportFuse :: bool
  supportFuseMulti :: bool

definition virtualMemory :: "raster_desc \<Rightarrow> bool" where
  "virtualMemory d \<longleftrightarrow> virtual d \<and> \<not> rasterCommand d"

definition set_regions :: "nat \<Rightarrow> region list \<Rightarrow> raster_ctx \<Rightarrow> raster_ctx" where
  "set_regions t regs g = g\<lparr>rdesc := (rdesc g)(t := (rdesc g t)\<lparr>regions := regs\<rparr>)\<rparr>"

definition getRasterCacheCreate :: "nat \<Rightarrow> raster_ctx \<Rightarrow> raster_ctx" where
  "getRasterCacheCreate src g =
     (if \<not> virtualMemory (rdesc g src) then g
      else g\<lparr>rdesc := (rdesc g)(src := (rdesc g src)\<lparr>rasterCommand := True\<rparr>),
             cmds := cmds g @ [(src, map rorigin (regions (rdesc g src)))]\<rparr>)"

text \<open>\<open>allCanMerge\<close>: every region of the origin is matched in turn, up to the first that fails.\<close>

fun match_all :: "region list \<Rightarrow> region \<Rightarrow> fuse_status \<Rightarrow> bool \<times> fuse_status" where
  "match_all [] r st = (True, st)"
| "match_all (reg # regs) r st =
     (case fuse_match reg r st of (True, st') \<Rightarrow> match_all regs r st' | (False, st') \<Rightarrow> (False, st'))"

text \<open>Match once more and apply, whatever the answer.\<close>

definition fuse_one :: "region \<Rightarrow> region \<Rightarrow> fuse_status \<Rightarrow> region \<times> fuse_status" where
  "fuse_one reg r st = fuse_apply reg r (snd (fuse_match reg r st))"

fun fuse_rest :: "region list \<Rightarrow> region \<Rightarrow> fuse_status \<Rightarrow> region list \<times> fuse_status" where
  "fuse_rest [] backup st = ([], st)"
| "fuse_rest (reg # regs) backup st =
     (let (newReg, st1) = fuse_one reg backup st; (news, st2) = fuse_rest regs backup st1
      in (if rsize newReg ! 0 = 0 then news else newReg # news, st2))"

text \<open>The \<open>while\<close> loop over one region; the flag is \<open>needDelete\<close>.\<close>

fun fuse_input :: "nat \<Rightarrow> fuse_mask \<Rightarrow> nat \<Rightarrow> nat \<Rightarrow> bool \<Rightarrow> raster_ctx \<Rightarrow> (bool \<times> raster_ctx) option" where
  "fuse_input 0 msk src i needDelete g = None"
| "fuse_input (Suc k) msk src i needDelete g =
     (let regs = regions (rdesc g src); input = regs ! i; des = rdesc g (rorigin input) in
      if \<not> (virtualMemory des \<and> supportFuse msk) then Some (needDelete, g)
      else
        (case regions des of
           [] \<Rightarrow> Some (True, set_regions src (regs[i := input\<lparr>rsize := (rsize input)[0 := 0]\<rparr>]) g)
         | [reg] \<Rightarrow>
             (let (merge, st) = fuse_match reg input (mFuseUtils g) in
              if \<not> merge then Some (needDelete, g\<lparr>mFuseUtils := st\<rparr>)
              else
                (let (input', st') = fuse_apply reg input st;
                     g' = set_regions src (regs[i := input']) (g\<lparr>mFuseUtils := st'\<rparr>)
                 in if rsize input' ! 0 = 0 then Some (True, g') else fuse_input k msk src i needDelete g'))
         | reg # others \<Rightarrow>
             if \<not> supportFuseMulti msk then Some (needDelete, g)
             else
               (let (allCanMerge, st) = match_all (reg # others) input (mFuseUtils g) in
                if \<not> allCanMerge then Some (needDelete, g\<lparr>mFuseUtils := st\<rparr>)
                else
                  (let (input', st1) = fuse_one reg input st; (news, st2) = fuse_rest others input st1;
                       g' = set_regions src (regs[i := input'] @ news) (g\<lparr>mFuseUtils := st2\<rparr>)
                   in if rsize input' ! 0 = 0 then Some (True, g') else fuse_input k msk src i needDelete g'))))"

definition drop_empty :: "nat \<Rightarrow> raster_ctx \<Rightarrow> raster_ctx" where
  "drop_empty src g =
     set_regions src (filter (\<lambda>r. \<not> (rsize r ! 0 = 0 \<or> rsize r ! 1 = 0 \<or> rsize r ! 2 = 0)) (regions (rdesc g src))) g"

text \<open>The recursion over the origins; \<open>None\<close> says that the fuel ran out.\<close>

fun raster_create :: "nat \<Rightarrow> fuse_mask \<Rightarrow> nat \<Rightarrow> raster_ctx \<Rightarrow> raster_ctx option"
  and raster_regions :: "nat \<Rightarrow> fuse_mask \<Rightarrow> nat \<Rightarrow> nat \<Rightarrow> bool \<Rightarrow> raster_ctx \<Rightarrow> (bool \<times> raster_ctx) option" where
  "raster_create 0 msk src g = None"
| "raster_create (Suc k) msk src g =
     (if \<not> virtualMemory (rdesc g src) \<or> zeroDim (rdesc g src) then Some g
      else
        (case raster_regions k msk src 0 False g of
           None \<Rightarrow> None
         | Some (needDelete, g') \<Rightarrow> Some (getRasterCacheCreate src (if needDelete then drop_empty src g' else g'))))"
| "raster_regions 0 msk src i needDelete g = None"
| "raster_regions (Suc k) msk src i needDelete g =
     (if length (regions (rdesc g src)) \<le> i then Some (needDelete, g)
      else
        (case fuse_input k msk src i needDelete g of
           None \<Rightarrow> None
         | Some (nd, g1) \<Rightarrow>
             (let input = regions (rdesc g1 src) ! i in
              if 0 < rsize input ! 0 then
                (case raster_create k msk (rorigin input) g1 of
                   None \<Rightarrow> None
                 | Some g2 \<Rightarrow> raster_regions k msk src (Suc i) nd g2)
              else raster_regions k msk src (Suc i) nd g1)))"

end
