(* ===== verification/Raster_Content.thy ===== *)
theory Raster_Content
  imports Raster_Model
begin

text \<open>
  What a graph of virtual tensors means: the content of a tensor, when two lists of regions give the same content,
  and the sets of regions on which \<open>match\<close> and \<open>apply\<close> compose exactly (\<open>fusion_closed\<close>).
\<close>

section \<open>The content of a tensor\<close>

text \<open>
  A virtual tensor holds what its regions copy from their origins, any other its own data; the
  recursion goes as deep as the rank of the tensor in the graph.
\<close>

primrec content :: "(nat \<Rightarrow> int \<Rightarrow> 'a) \<Rightarrow> 'a \<Rightarrow> raster_ctx \<Rightarrow> nat \<Rightarrow> nat \<Rightarrow> int \<Rightarrow> 'a" where
  "content leaf zero g 0 = leaf"
| "content leaf zero g (Suc k) =
     (\<lambda>t. if virtual (rdesc g t) then raster zero (content leaf zero g k) (regions (rdesc g t)) else leaf t)"

definition ranked :: "(nat \<Rightarrow> nat) \<Rightarrow> raster_ctx \<Rightarrow> bool" where
  "ranked rank g \<longleftrightarrow> (\<forall>t. virtual (rdesc g t) \<longrightarrow> (\<forall>r \<in> set (regions (rdesc g t)). rank (rorigin r) < rank t))"

lemma raster_cong: "(\<And>r. r \<in> set regs \<Longrightarrow> f (rorigin r) = f' (rorigin r)) \<Longrightarrow> raster zero f regs = raster zero f' regs"
proof -
  assume f: "\<And>r. r \<in> set regs \<Longrightarrow> f (rorigin r) = f' (rorigin r)"
  have "fold (\<lambda>r. run_moves (f (rorigin r)) (region_moves r)) regs m = fold (\<lambda>r. run_moves (f' (rorigin r)) (region_moves r)) regs m" for m
    by (rule fold_cong) (simp_all add: f)
  then show ?thesis by (simp add: raster_def)
qed

lemma content_depth:
  assumes "ranked rank g"
  shows "rank t < k \<Longrightarrow> rank t < k' \<Longrightarrow> content leaf zero g k t = content leaf zero g k' t"
proof (induction k arbitrary: k' t)
  case (Suc k)
  then obtain j where j: "k' = Suc j" by (cases k') auto
  show ?case
  proof (cases "virtual (rdesc g t)")
    case True
    have "raster zero (content leaf zero g k) (regions (rdesc g t)) = raster zero (content leaf zero g j) (regions (rdesc g t))"
    proof (rule raster_cong)
      fix r assume "r \<in> set (regions (rdesc g t))"
      then have "rank (rorigin r) < rank t" using assms True unfolding ranked_def by blast
      then show "content leaf zero g k (rorigin r) = content leaf zero g j (rorigin r)"
        using Suc.IH Suc.prems j by (meson less_Suc_eq_le order_less_le_trans)
    qed
    then show ?thesis using True j by simp
  qed (simp add: j)
qed simp

definition holds :: "(nat \<Rightarrow> nat) \<Rightarrow> (nat \<Rightarrow> int \<Rightarrow> 'a) \<Rightarrow> 'a \<Rightarrow> raster_ctx \<Rightarrow> nat \<Rightarrow> int \<Rightarrow> 'a" where
  "holds rank leaf zero g t = content leaf zero g (Suc (rank t)) t"

lemma holds_content: "ranked rank g \<Longrightarrow> rank t < k \<Longrightarrow> content leaf zero g k t = holds rank leaf zero g t"
  unfolding holds_def by (rule content_depth [of rank g]) simp_all

lemma holds_unfold:
  assumes "ranked rank g"
  shows "holds rank leaf zero g t =
    (if virtual (rdesc g t) then raster zero (holds rank leaf zero g) (regions (rdesc g t)) else leaf t)"
proof (cases "virtual (rdesc g t)")
  case True
  have "raster zero (content leaf zero g (rank t)) (regions (rdesc g t)) = raster zero (holds rank leaf zero g) (regions (rdesc g t))"
    by (rule raster_cong) (use assms True in \<open>auto simp: ranked_def intro!: holds_content\<close>)
  then show ?thesis using True by (simp add: holds_def)
qed (simp add: holds_def)

text \<open>A change of the regions of one tensor that keeps its own content keeps all contents.\<close>

lemma holds_update:
  assumes g: "ranked rank g" "ranked rank g'" and v: "\<And>t. virtual (rdesc g' t) = virtual (rdesc g t)"
    and other: "\<And>t. t \<noteq> src \<Longrightarrow> regions (rdesc g' t) = regions (rdesc g t)"
    and same: "virtual (rdesc g src) \<Longrightarrow> raster zero (holds rank leaf zero g) (regions (rdesc g' src)) = raster zero (holds rank leaf zero g) (regions (rdesc g src))"
  shows "holds rank leaf zero g' t = holds rank leaf zero g t"
proof (induction "rank t" arbitrary: t rule: less_induct)
  case less
  show ?case
  proof (cases "virtual (rdesc g t)")
    case True
    have "raster zero (holds rank leaf zero g') (regions (rdesc g' t)) = raster zero (holds rank leaf zero g) (regions (rdesc g' t))"
      by (rule raster_cong) (use less g(2) v True in \<open>auto simp: ranked_def\<close>)
    also have "\<dots> = raster zero (holds rank leaf zero g) (regions (rdesc g t))"
      by (cases "t = src") (use same other True in auto)
    finally show ?thesis using True v by (simp add: holds_unfold [OF g(1), of _ _ t] holds_unfold [OF g(2), of _ _ t])
  qed (use v in \<open>simp add: holds_unfold [OF g(1), of _ _ t] holds_unfold [OF g(2), of _ _ t]\<close>)
qed

section \<open>Rasters as relations\<close>

definition origins_of :: "region list \<Rightarrow> (int \<times> nat \<times> int) set" where
  "origins_of regs = {(d, rorigin r, s) | d s r. r \<in> set regs \<and> (d, s) \<in> region_set r}"

lemma origins_of_moves: "origins_of regs = set (tagged_moves regs)"
  unfolding origins_of_def set_tagged_moves ..

lemma origins_of_append: "origins_of (xs @ ys) = origins_of xs \<union> origins_of ys"
  by (auto simp: origins_of_def)

lemma raster_at:
  assumes "single_valued (origins_of regs)" "(p, k, s) \<in> origins_of regs"
  shows "raster zero f regs p = f k s"
proof -
  have i: "e = e'" if "e \<in> set (tagged_moves regs)" "e' \<in> set (tagged_moves regs)" "fst e = fst e'" for e e'
    using that assms(1) unfolding origins_of_moves by (metis prod.collapse single_valuedD)
  have m: "(p, k, s) \<in> set (tagged_moves regs)" using assms(2) unfolding origins_of_moves .
  then have "map_of (tagged_moves regs) p \<noteq> None" by (simp add: map_of_eq_None_iff image_iff) force
  then obtain y where y: "map_of (tagged_moves regs) p = Some y" by blast
  have "(p, y) = (p, k, s)" by (rule i [OF map_of_SomeD [OF y] m]) simp
  then show ?thesis using y by (simp add: raster_moves fold_put [OF i])
qed

lemma raster_off: "(\<And>k s. (p, k, s) \<notin> origins_of regs) \<Longrightarrow> raster zero f regs p = zero"
  by (rule raster_other) (auto simp: origins_of_def)

text \<open>No position is written twice, neither by one region nor by two.\<close>

definition apart :: "region list \<Rightarrow> bool" where
  "apart regs \<longleftrightarrow> (\<forall>r \<in> set regs. single_valued (region_set r)) \<and>
     sorted_wrt (\<lambda>r r'. Domain (region_set r) \<inter> Domain (region_set r') = {}) regs"

lemma sorted_wrt_perm:
  assumes "\<And>x y. P x y \<Longrightarrow> P y x" "mset xs = mset ys" "sorted_wrt P xs"
  shows "sorted_wrt P ys"
  using assms(2,3)
proof (induction xs arbitrary: ys)
  case (Cons x xs)
  then have "x \<in> set ys" using mset_eq_setD by (metis list.set_intros(1))
  then obtain us vs where ys: "ys = us @ x # vs" by (meson split_list)
  with Cons.prems(1) have m: "mset xs = mset (us @ vs)" by simp
  have "sorted_wrt P (us @ vs)" using Cons.IH [OF m] Cons.prems(2) by simp
  moreover have "set (us @ vs) = set xs" using mset_eq_setD [OF m] by simp
  ultimately show ?case using Cons.prems(2) assms(1) by (auto simp: ys sorted_wrt_append)
qed simp

lemma apart_perm: "mset xs = mset ys \<Longrightarrow> apart xs \<Longrightarrow> apart ys"
  unfolding apart_def by (auto dest: mset_eq_setD intro: sorted_wrt_perm)

lemma origins_of_perm: "mset xs = mset ys \<Longrightarrow> origins_of xs = origins_of ys"
  unfolding origins_of_def by (drule mset_eq_setD) simp

lemma apart_append:
  "apart (xs @ ys) \<longleftrightarrow> apart xs \<and> apart ys \<and>
     (\<forall>r \<in> set xs. \<forall>r' \<in> set ys. Domain (region_set r) \<inter> Domain (region_set r') = {})"
  by (auto simp: apart_def sorted_wrt_append)

lemma apart_single:
  assumes "apart regs"
  shows "single_valued (origins_of regs)"
  using assms
proof (induction regs)
  case (Cons r regs)
  have a: "apart regs" "single_valued (region_set r)" "\<forall>r' \<in> set regs. Domain (region_set r) \<inter> Domain (region_set r') = {}"
    using Cons.prems by (auto simp: apart_def)
  show ?case unfolding single_valued_def
  proof (intro allI impI)
    fix p y z assume y: "(p, y) \<in> origins_of (r # regs)" and z: "(p, z) \<in> origins_of (r # regs)"
    have in_r: "q = (rorigin r, m)" if "(p, q) \<in> origins_of (r # regs)" "(p, m) \<in> region_set r" for q m
    proof -
      from that(1) obtain r' s where r': "r' \<in> set (r # regs)" "q = (rorigin r', s)" "(p, s) \<in> region_set r'"
        unfolding origins_of_def by blast
      then have "r' = r" using a(3) that(2) by auto
      then show ?thesis using r' that(2) a(2) by (auto dest: single_valuedD)
    qed
    show "y = z"
    proof (cases "\<exists>m. (p, m) \<in> region_set r")
      case True
      then show ?thesis using in_r y z by metis
    next
      case False
      then have "(p, y) \<in> origins_of regs" "(p, z) \<in> origins_of regs" using y z unfolding origins_of_def by auto
      then show ?thesis using Cons.IH [OF a(1)] by (metis single_valuedD)
    qed
  qed
qed (simp add: origins_of_def single_valued_def)

text \<open>One region is replaced by regions that read where the regions of its origin read.\<close>

definition through :: "region \<Rightarrow> region list \<Rightarrow> (int \<times> nat \<times> int) set" where
  "through r regs = region_set r O origins_of regs"

definition fused_from :: "region \<Rightarrow> region list \<Rightarrow> region list \<Rightarrow> bool" where
  "fused_from D inner ns \<longleftrightarrow>
     apart ns \<and> origins_of ns = through D inner \<and> (\<forall>r \<in> set ns. Domain (region_set r) \<subseteq> Domain (region_set D))"

lemma replace_region:
  assumes i: "i < length regs" and ap: "apart regs" "apart inner" and new: "fused_from (regs ! i) inner (x # news)"
  shows "apart (regs[i := x] @ news)"
    and "f (rorigin (regs ! i)) = raster zero f inner \<Longrightarrow> raster zero f (regs[i := x] @ news) = raster zero f regs"
proof -
  let ?rest = "take i regs @ drop (Suc i) regs" and ?D = "regs ! i"
  have "mset regs = mset (take i regs @ ?D # drop (Suc i) regs)" using id_take_nth_drop [OF i] by (rule arg_cong)
  then have m1: "mset regs = mset (?rest @ [?D])" by simp
  have m2: "mset (?rest @ (x # news)) = mset (regs[i := x] @ news)" using upd_conv_take_nth_drop [OF i, of x] by simp
  have ar: "apart ?rest" "\<forall>r \<in> set ?rest. Domain (region_set r) \<inter> Domain (region_set ?D) = {}" and D: "single_valued (region_set ?D)"
    using apart_perm [OF m1 ap(1)] unfolding apart_append by (simp_all add: apart_def)
  have nw: "apart (x # news)" "origins_of (x # news) = through ?D inner" "\<forall>r \<in> set (x # news). Domain (region_set r) \<subseteq> Domain (region_set ?D)"
    using new unfolding fused_from_def by blast+
  have "apart (?rest @ (x # news))" unfolding apart_append [of ?rest] using ar nw(1,3) by blast
  from apart_perm [OF m2 this] show a: "apart (regs[i := x] @ news)" .
  show "raster zero f (regs[i := x] @ news) = raster zero f regs" if f: "f (rorigin ?D) = raster zero f inner"
  proof
    fix p
    have o1: "origins_of regs = origins_of ?rest \<union> origins_of [?D]"
      using origins_of_perm [OF m1] unfolding origins_of_append [of ?rest] .
    have o2: "origins_of (regs[i := x] @ news) = origins_of ?rest \<union> through ?D inner"
      using origins_of_perm [OF m2] unfolding origins_of_append [of ?rest] nw(2) by simp
    note sv = apart_single [OF ap(1)] apart_single [OF a] apart_single [OF ap(2)]
    consider k s where "(p, k, s) \<in> origins_of ?rest" | mid where "(p, mid) \<in> region_set ?D" "\<And>k s. (p, k, s) \<notin> origins_of ?rest"
      | "\<And>k s. (p, k, s) \<notin> origins_of ?rest" "\<And>mid. (p, mid) \<notin> region_set ?D" by metis
    then show "raster zero f (regs[i := x] @ news) p = raster zero f regs p"
    proof cases
      case 1
      then have in12: "(p, k, s) \<in> origins_of regs" "(p, k, s) \<in> origins_of (regs[i := x] @ news)" unfolding o1 o2 by blast+
      show ?thesis unfolding raster_at [OF sv(1) in12(1)] raster_at [OF sv(2) in12(2)] ..
    next
      case 2
      have l: "raster zero f regs p = raster zero f inner mid"
      proof -
        have "(p, rorigin ?D, mid) \<in> origins_of regs" using 2(1) unfolding o1 by (auto simp: origins_of_def)
        from raster_at [OF sv(1) this] show ?thesis unfolding f [symmetric] .
      qed
      show ?thesis
      proof (cases "\<exists>k s. (mid, k, s) \<in> origins_of inner")
        case True
        then obtain k s where ks: "(mid, k, s) \<in> origins_of inner" by blast
        then have "(p, k, s) \<in> origins_of (regs[i := x] @ news)" using 2(1) unfolding o2 through_def by blast
        then show ?thesis using raster_at [OF sv(2)] raster_at [OF sv(3) ks] l by metis
      next
        case False
        then have "(p, k, s) \<notin> origins_of (regs[i := x] @ news)" for k s
          using 2 D unfolding o2 through_def by (auto dest: single_valuedD)
        from raster_off [OF this] raster_off [of mid inner] False l show ?thesis by metis
      qed
    next
      case 3
      then have "(p, k, s) \<notin> origins_of (regs[i := x] @ news)" "(p, k, s) \<notin> origins_of regs" for k s
        unfolding o1 o2 through_def by (auto simp: origins_of_def)
      then show ?thesis using raster_off by metis
    qed
  qed
qed

section \<open>The arrays keep their lengths\<close>

lemma int3_insert_length: "length x = 3 \<Longrightarrow> i \<le> 3 \<Longrightarrow> length (int3_insert x i y) = 3"
  by (simp add: int3_insert_def)

lemma expand_at_length:
  "expand_at i src dst sz num v = (b, src', dst', sz', num') \<Longrightarrow> length src = 3 \<Longrightarrow> length dst = 3 \<Longrightarrow> length sz = 3 \<Longrightarrow> i \<le> 3 \<Longrightarrow>
     length src' = 3 \<and> length dst' = 3 \<and> length sz' = 3"
proof (induction i)
  case (Suc i)
  show ?case
  proof (cases "v smod src ! i = 0 \<and> sz ! i smod (v sdiv src ! i) = 0")
    case True
    then show ?thesis using Suc.prems by (auto simp: Let_def int3_insert_length split: if_splits)
  next
    case False
    then have "expand_at i src dst sz num v = (b, src', dst', sz', num')" using Suc.prems(1) by (auto simp: Let_def)
    then show ?thesis using Suc.IH Suc.prems by simp
  qed
qed simp

lemma expand_arrays:
  assumes "arrays_ok st" "srcNum st \<le> 3"
  shows "arrays_ok (snd (expand_src v st)) \<and> dstNum (snd (expand_src v st)) = dstNum st"
proof (cases "0 < v")
  case True
  obtain b s1 d1 z1 n1 where x: "expandStrideSize (srcDst st) (srcSrc st) (srcSize st) (srcNum st) v = (b, s1, d1, z1, n1)"
    by (metis prod_cases5)
  have "length s1 = 3 \<and> length d1 = 3 \<and> length z1 = 3"
    by (rule expand_at_length [OF x [unfolded expandStrideSize_def]]) (use assms in \<open>simp_all add: arrays_ok_simps\<close>)
  then show ?thesis using assms True by (simp add: expand_src_def x arrays_ok_simps)
qed (use assms in \<open>simp add: expand_src_def\<close>)

lemma expand_arrays_dst:
  assumes "arrays_ok st" "dstNum st \<le> 3"
  shows "arrays_ok (snd (expand_dst v st))"
proof (cases "0 < v")
  case True
  obtain b s1 d1 z1 n1 where x: "expandStrideSize (dstSrc st) (dstDst st) (dstSize st) (dstNum st) v = (b, s1, d1, z1, n1)"
    by (metis prod_cases5)
  have "length s1 = 3 \<and> length d1 = 3 \<and> length z1 = 3"
    by (rule expand_at_length [OF x [unfolded expandStrideSize_def]]) (use assms in \<open>simp_all add: arrays_ok_simps\<close>)
  then show ?thesis using assms True by (simp add: expand_dst_def x arrays_ok_simps)
qed (use assms in \<open>simp add: expand_dst_def\<close>)

lemma align_arrays: "arrays_ok st \<Longrightarrow> arrays_ok (snd (align_src js st))"
proof (induction js arbitrary: st)
  case (Cons i js)
  show ?case
  proof (cases "filter (\<lambda>j. dstSrc st ! j = srcDst st ! i) [0..<dstNum st]")
    case (Cons p ps)
    let ?st = "st\<lparr>newSrc := (newSrc st)[p := srcSrc st ! i], newSrcSize := (newSrcSize st)[p := srcSize st ! i]\<rparr>"
    have "arrays_ok ?st" using Cons.prems by (simp add: arrays_ok_simps)
    from Cons.IH [OF this] Cons show ?thesis by simp
  qed (use Cons.prems in simp)
qed simp

lemma shift_arrays: "arrays_ok st \<Longrightarrow> arrays_ok (shift_offsets js st)"
  by (induction js arbitrary: st) (simp_all add: arrays_ok_simps)

lemma clip_arrays:
  assumes "arrays_ok st"
  shows "arrays_ok (snd (clip_status S D st))"
proof -
  let ?n = "dstNum st" and ?so = "voffset (rdst S)" and ?d0 = "voffset (rsrc D)"
  obtain ok mx mn where c: "ClipDst (dstSrc st) ?so ?d0 (newSrcSize st) (dstSize st) ?n (dstMax st) (dstMin st) True = (ok, mx, mn)"
    by (metis prod_cases3)
  obtain ok1 mx1 mn1 where r: "clip_range (dstSrc st) ?so ?d0 (newSrcSize st) (dstSize st) ?n (dstMax st) (dstMin st) = (ok1, mx1, mn1)"
    by (metis prod_cases3)
  have "length mx1 = 3 \<and> length mn1 = 3" using r assms
    by (auto simp: clip_range_def arrays_ok_simps Let_def split: if_splits prod.splits)
  moreover have "mx = mx1" "mn = mn1" using c unfolding ClipDst_def r by (auto simp: Let_def split: if_splits)
  ultimately have l: "length mx = 3" "length mn = 3" by simp_all
  define st1 where "st1 = st\<lparr>newSrcOffset := offsetCompute S ?d0 ?so True + voffset (rsrc S), dstMax := mx, dstMin := mn\<rparr>"
  have a: "arrays_ok st1" using assms l by (simp add: arrays_ok_simps st1_def)
  then have "arrays_ok (shift_offsets [0..<?n] (st1\<lparr>newDstOffset := voffset (rdst D)\<rparr>))"
    by (intro shift_arrays) (simp add: arrays_ok_simps)
  then have "arrays_ok ((shift_offsets [0..<?n] (st1\<lparr>newDstOffset := voffset (rdst D)\<rparr>))\<lparr>mStatus := FUSE_REGION_COMPUTE\<rparr>)"
    by (simp add: arrays_ok_simps)
  moreover have "snd (clip_status S D st) = (if \<not> ok then st1
      else (shift_offsets [0..<?n] (st1\<lparr>newDstOffset := voffset (rdst D)\<rparr>))\<lparr>mStatus := FUSE_REGION_COMPUTE\<rparr>)"
    by (simp add: clip_status_def Let_def c st1_def)
  ultimately show ?thesis using a by simp
qed

lemma fuse_align_arrays:
  assumes ok: "arrays_ok st"
  shows "arrays_ok (snd (fuse_align S D st))"
proof -
  let ?st1 = "gather S D st"
  note g = gather_ok [OF ok, of S D]
  have 1: "arrays_ok (snd (expand_src v ?st1))" "dstNum (snd (expand_src v ?st1)) \<le> 3" for v
    using expand_arrays [OF g(1,4), of v] g(5) by simp_all
  note 2 = expand_arrays_dst [OF 1]
  show ?thesis using g(1) 1(1) 2 align_arrays [OF 2]
    by (auto simp: fuse_align_def Let_def case_prod_unfold split: option.splits)
qed

lemma match_arrays: "arrays_ok st \<Longrightarrow> arrays_ok (snd (fuse_match S D st))"
proof -
  assume ok: "arrays_ok st"
  obtain b st4 where al: "fuse_align S D st = (b, st4)" by (metis prod.collapse)
  have "arrays_ok st4" using fuse_align_arrays [OF ok, of S D] al by simp
  then have "arrays_ok (snd (clip_status S D st4))" by (rule clip_arrays)
  with \<open>arrays_ok st4\<close> ok show ?thesis by (cases b) (simp_all add: fuse_match_def al arrays_ok_simps)
qed

lemma expandIdx_arrays: "arrays_ok (fold (\<lambda>i s. if dstSize s ! i = 1 then s\<lparr>expandIdx := int i\<rparr> else s) js st) \<longleftrightarrow> arrays_ok st"
  by (induction js arbitrary: st) (simp_all add: arrays_ok_simps)

lemma apply_arrays: "arrays_ok st \<Longrightarrow> arrays_ok (snd (fuse_apply S D st))"
  by (cases "mStatus st") (simp_all add: fuse_apply_def Let_def case_prod_unfold expandIdx_arrays)

section \<open>Regions that may be fused\<close>

text \<open>
  A set of regions in which fusing is sound and stays: whether two of them match does not depend on what
  the object has kept, and where they do, the fused region is their composition and in the set again,
  or empty.
\<close>

definition fusion_closed :: "region set \<Rightarrow> bool" where
  "fusion_closed R \<longleftrightarrow>
     (\<forall>r \<in> R. region_ok r) \<and>
     (\<forall>S \<in> R. \<forall>D \<in> R. \<forall>st st'. arrays_ok st \<longrightarrow> arrays_ok st' \<longrightarrow> fst (fuse_match S D st) = fst (fuse_match S D st')) \<and>
     (\<forall>S \<in> R. \<forall>D \<in> R. \<forall>st st'. arrays_ok st \<longrightarrow> fuse_match S D st = (True, st') \<longrightarrow>
        region_set (fst (fuse_apply S D st')) = region_set D O region_set S \<and>
        (rsize (fst (fuse_apply S D st')) ! 0 = 0 \<or>
           fst (fuse_apply S D st') \<in> R \<and> rorigin (fst (fuse_apply S D st')) = rorigin S))"

lemma empty_region: "rsize r ! 0 = 0 \<Longrightarrow> region_set r = {}"
  by (simp add: region_set_def region_moves_def)

lemma closed_size: "fusion_closed R \<Longrightarrow> r \<in> R \<Longrightarrow> 0 < rsize r ! 0"
  unfolding fusion_closed_def region_ok_def by (metis nth_mem zero_less_numeral)

lemma fuse_one_ok:
  assumes R: "fusion_closed R" and S: "S \<in> R" and D: "D \<in> R" and ok: "arrays_ok st" "arrays_ok st0"
    and m: "fst (fuse_match S D st0)" and f: "fuse_one S D st = (r, st')"
  shows "arrays_ok st'" "region_set r = region_set D O region_set S" "rsize r ! 0 = 0 \<or> r \<in> R \<and> rorigin r = rorigin S"
proof -
  obtain b st1 where b: "fuse_match S D st = (b, st1)" by (metis prod.collapse)
  have "fst (fuse_match S D st) = fst (fuse_match S D st0)" using R S D ok unfolding fusion_closed_def by blast
  then have t: "fuse_match S D st = (True, st1)" using m b by simp
  have ap: "fuse_apply S D st1 = (r, st')" using f t by (simp add: fuse_one_def)
  then have r: "fst (fuse_apply S D st1) = r" by simp
  show "arrays_ok st'" using apply_arrays [of st1 S D] match_arrays [OF ok(1), of S D] t ap by simp
  have "region_set (fst (fuse_apply S D st1)) = region_set D O region_set S \<and>
        (rsize (fst (fuse_apply S D st1)) ! 0 = 0 \<or> fst (fuse_apply S D st1) \<in> R \<and> rorigin (fst (fuse_apply S D st1)) = rorigin S)"
    using R S D ok(1) t unfolding fusion_closed_def by blast
  then show "region_set r = region_set D O region_set S" "rsize r ! 0 = 0 \<or> r \<in> R \<and> rorigin r = rorigin S" unfolding r by blast+
qed

lemma fused_from_Cons:
  assumes ap: "apart (S # Ss)" and D: "single_valued (region_set D)" and ns: "fused_from D Ss ns"
    and r: "region_set r = region_set D O region_set S" and o: "rsize r ! 0 = 0 \<or> rorigin r = rorigin S"
  shows "fused_from D (S # Ss) (r # ns)" "rsize r ! 0 = 0 \<Longrightarrow> fused_from D (S # Ss) ns"
proof -
  have org: "origins_of [r] = through D [S]"
    using r o empty_region [of r] unfolding origins_of_def through_def by auto
  have "origins_of (r # ns) = origins_of [r] \<union> origins_of ns" using origins_of_append [of "[r]" ns] by simp
  also have "\<dots> = through D (S # Ss)"
    using ns org origins_of_append [of "[S]" Ss] unfolding fused_from_def through_def by auto
  finally have 1: "origins_of (r # ns) = through D (S # Ss)" .
  have svr: "single_valued (region_set r)" unfolding r using D ap by (intro single_valued_relcomp) (simp_all add: apart_def)
  have dis: "Domain (region_set r) \<inter> Domain (region_set r') = {}" if r': "r' \<in> set ns" for r'
  proof (rule ccontr)
    assume "Domain (region_set r) \<inter> Domain (region_set r') \<noteq> {}"
    then obtain p s s' where p: "(p, s) \<in> region_set r" "(p, s') \<in> region_set r'" by blast
    from p(1) obtain m where m: "(p, m) \<in> region_set D" "(m, s) \<in> region_set S" unfolding r by blast
    have "(p, rorigin r', s') \<in> origins_of ns" using p(2) r' unfolding origins_of_def by blast
    then obtain m' where m': "(p, m') \<in> region_set D" "(m', rorigin r', s') \<in> origins_of Ss"
      using ns unfolding fused_from_def through_def by auto
    then obtain S' where S': "S' \<in> set Ss" "(m', s') \<in> region_set S'" unfolding origins_of_def by blast
    have "m' = m" using D m(1) m'(1) by (metis single_valuedD)
    then show False using ap m(2) S' unfolding apart_def by auto
  qed
  have dom: "Domain (region_set r) \<subseteq> Domain (region_set D)" unfolding r by blast
  show "fused_from D (S # Ss) (r # ns)" using ns 1 svr dis dom unfolding fused_from_def apart_def by simp
  show "fused_from D (S # Ss) ns" if "rsize r ! 0 = 0"
  proof -
    have "origins_of (r # ns) = origins_of ns" using empty_region [OF that] by (auto simp: origins_of_def)
    then show ?thesis using ns 1 unfolding fused_from_def by simp
  qed
qed

lemma fuse_rest_ok:
  assumes R: "fusion_closed R" and D: "D \<in> R" "single_valued (region_set D)"
  shows "fuse_rest Ss D st = (news, st') \<Longrightarrow> set Ss \<subseteq> R \<Longrightarrow> apart Ss \<Longrightarrow> arrays_ok st \<Longrightarrow>
    (\<And>S. S \<in> set Ss \<Longrightarrow> \<exists>st0. arrays_ok st0 \<and> fst (fuse_match S D st0)) \<Longrightarrow>
    arrays_ok st' \<and> set news \<subseteq> R \<and> fused_from D Ss news \<and> rorigin ` set news \<subseteq> rorigin ` set Ss"
proof (induction Ss arbitrary: st news st')
  case Nil
  then show ?case by (auto simp: fused_from_def apart_def origins_of_def through_def)
next
  case (Cons S Ss)
  obtain r st1 where r: "fuse_one S D st = (r, st1)" by (metis prod.collapse)
  obtain ns st2 where ns: "fuse_rest Ss D st1 = (ns, st2)" by (metis prod.collapse)
  have e: "news = (if rsize r ! 0 = 0 then ns else r # ns)" "st' = st2" using Cons.prems(1) r ns by (auto simp: Let_def)
  from Cons.prems(5) [of S] obtain st0 where m: "arrays_ok st0" "fst (fuse_match S D st0)" by auto
  note f = fuse_one_ok [OF R _ D(1) Cons.prems(4) m r]
  have S: "S \<in> R" "set Ss \<subseteq> R" "apart Ss" using Cons.prems(2,3) by (simp_all add: apart_def)
  have IH: "arrays_ok st2 \<and> set ns \<subseteq> R \<and> fused_from D Ss ns \<and> rorigin ` set ns \<subseteq> rorigin ` set Ss"
    by (rule Cons.IH [OF ns S(2,3) f(1) [OF S(1)]]) (use Cons.prems(5) in auto)
  have o: "rsize r ! 0 = 0 \<or> rorigin r = rorigin S" using f(3) [OF S(1)] by blast
  note ff = fused_from_Cons [OF Cons.prems(3) D(2) _ f(2) [OF S(1)] o]
  show ?case using IH ff [of ns] f(3) [OF S(1)] unfolding e by auto
qed

end
