(* ===== verification/Raster_Steps.thy ===== *)
theory Raster_Steps
  imports Raster_Content
begin

text \<open>
  The steps of \<open>getRasterCacheCreateRecursive\<close>: the invariants of the recursion, the replacement of a region by
  the fused ones, and the loop over one region, each with the content it keeps.
\<close>

section \<open>Invariants of the recursion\<close>

definition base :: "(nat \<Rightarrow> nat) \<Rightarrow> raster_ctx \<Rightarrow> bool" where
  "base rank g \<longleftrightarrow> ranked rank g \<and> arrays_ok (mFuseUtils g) \<and> (\<forall>t. virtual (rdesc g t) \<longrightarrow> apart (regions (rdesc g t)))"

definition below :: "region set \<Rightarrow> (nat \<Rightarrow> nat) \<Rightarrow> nat \<Rightarrow> raster_ctx \<Rightarrow> bool" where
  "below R rank b g \<longleftrightarrow> (\<forall>t. virtualMemory (rdesc g t) \<and> rank t < b \<longrightarrow> set (regions (rdesc g t)) \<subseteq> R)"

text \<open>What every step keeps: only the regions of \<open>src\<close> change, and commands appear.\<close>

definition keeps :: "nat set \<Rightarrow> raster_ctx \<Rightarrow> raster_ctx \<Rightarrow> bool" where
  "keeps A g g' \<longleftrightarrow> (\<forall>t. virtual (rdesc g' t) = virtual (rdesc g t) \<and> zeroDim (rdesc g' t) = zeroDim (rdesc g t) \<and>
     (rasterCommand (rdesc g t) \<longrightarrow> rasterCommand (rdesc g' t)) \<and>
     (t \<notin> A \<and> virtualMemory (rdesc g' t) \<longrightarrow> rdesc g' t = rdesc g t))"

lemma keeps_refl: "keeps A g g"
  by (simp add: keeps_def)

lemma keeps_trans: "keeps A g g1 \<Longrightarrow> keeps A g1 g2 \<Longrightarrow> keeps A g g2"
  unfolding keeps_def by metis

lemma keeps_mono: "keeps A g g' \<Longrightarrow> A \<subseteq> B \<Longrightarrow> keeps B g g'"
  unfolding keeps_def by blast

lemma keeps_virtualMemory: "keeps A g g' \<Longrightarrow> \<not> virtualMemory (rdesc g t) \<Longrightarrow> \<not> virtualMemory (rdesc g' t)"
  unfolding keeps_def virtualMemory_def by metis

lemma below_keeps:
  assumes "below R rank b g" "keeps {src} g g'" "b \<le> rank src"
  shows "below R rank b g'"
  unfolding below_def
proof (intro allI impI)
  fix t assume t: "virtualMemory (rdesc g' t) \<and> rank t < b"
  then have "t \<noteq> src" using assms(3) by auto
  then have "rdesc g' t = rdesc g t" using assms(2) t unfolding keeps_def by blast
  then show "set (regions (rdesc g' t)) \<subseteq> R" using assms(1) t unfolding below_def by metis
qed

text \<open>While the regions of \<open>src\<close> are being fused.\<close>

definition work :: "region set \<Rightarrow> (nat \<Rightarrow> nat) \<Rightarrow> nat \<Rightarrow> raster_ctx \<Rightarrow> bool" where
  "work R rank src g \<longleftrightarrow> base rank g \<and> below R rank (rank src) g \<and> virtualMemory (rdesc g src) \<and>
     (\<forall>r \<in> set (regions (rdesc g src)). r \<in> R \<or> rsize r ! 0 = 0)"

text \<open>One step of the \<open>while\<close> loop: region \<open>i\<close> of \<open>src\<close> is replaced.\<close>

lemma replaced_ok:
  assumes w: "work R rank src g" and i: "i < length (regions (rdesc g src))"
    and o: "o' = rorigin (regions (rdesc g src) ! i)" "virtual (rdesc g o')"
    and ns: "fused_from (regions (rdesc g src) ! i) (regions (rdesc g o')) (x # news)"
    and rk: "\<forall>r \<in> set (x # news). rank (rorigin r) < rank src" and R: "\<forall>r \<in> set (x # news). r \<in> R \<or> rsize r ! 0 = 0"
    and ok: "arrays_ok st"
  defines "g' \<equiv> set_regions src ((regions (rdesc g src))[i := x] @ news) (g\<lparr>mFuseUtils := st\<rparr>)"
  shows "work R rank src g'" "keeps {src} g g'" "cmds g' = cmds g" "\<And>t. t \<noteq> src \<Longrightarrow> rdesc g' t = rdesc g t"
    "regions (rdesc g' src) = (regions (rdesc g src))[i := x] @ news"
    "holds rank leaf zero g' = holds rank leaf zero g"
proof -
  let ?regs = "regions (rdesc g src)"
  have src: "rdesc g' src = (rdesc g src)\<lparr>regions := ?regs[i := x] @ news\<rparr>" and oth: "t \<noteq> src \<Longrightarrow> rdesc g' t = rdesc g t" for t
    by (simp_all add: g'_def set_regions_def)
  have b: "base rank g" and v: "virtualMemory (rdesc g src)" and vs: "virtual (rdesc g src)"
    using w by (simp_all add: work_def virtualMemory_def)
  have rkd: "ranked rank g" and ap: "apart ?regs" "apart (regions (rdesc g o'))" using b vs o(2) by (simp_all add: base_def)
  show c: "cmds g' = cmds g" by (simp add: g'_def set_regions_def)
  show "\<And>t. t \<noteq> src \<Longrightarrow> rdesc g' t = rdesc g t" by (rule oth)
  show "regions (rdesc g' src) = ?regs[i := x] @ news" by (simp add: src)
  show k: "keeps {src} g g'" unfolding keeps_def using src oth by (metis (no_types, lifting) insertI1 raster_desc.select_convs(1-3) raster_desc.surjective raster_desc.update_convs(4))
  have ranked': "ranked rank g'" unfolding ranked_def
  proof (intro allI impI ballI)
    fix t r assume t: "virtual (rdesc g' t)" "r \<in> set (regions (rdesc g' t))"
    show "rank (rorigin r) < rank t"
    proof (cases "t = src")
      case True
      then have "r \<in> set ?regs \<union> set (x # news)" using t(2) set_update_subset_insert [of ?regs i x] by (auto simp: src)
      then show ?thesis using rk rkd vs True unfolding ranked_def by blast
    next
      case False
      then show ?thesis using t rkd oth unfolding ranked_def by metis
    qed
  qed
  note rep = replace_region [OF i ap ns]
  have "apart (regions (rdesc g' t))" if "virtual (rdesc g' t)" for t
    using that rep(1) b oth src unfolding base_def by (cases "t = src") simp_all
  then have base': "base rank g'" using ranked' ok unfolding base_def by (simp add: g'_def set_regions_def)
  have "\<forall>r \<in> set (?regs[i := x] @ news). r \<in> R \<or> rsize r ! 0 = 0"
    using w R set_update_subset_insert [of ?regs i x] unfolding work_def by auto
  then show "work R rank src g'" using base' below_keeps [OF _ k, of R rank "rank src"] w v
    unfolding work_def by (simp add: src virtualMemory_def)
  show "holds rank leaf zero g' = holds rank leaf zero g"
  proof
    fix t show "holds rank leaf zero g' t = holds rank leaf zero g t"
    proof (rule holds_update [OF rkd ranked'])
      show "\<And>t. virtual (rdesc g' t) = virtual (rdesc g t)" using k by (simp add: keeps_def)
      show "\<And>t. t \<noteq> src \<Longrightarrow> regions (rdesc g' t) = regions (rdesc g t)" using oth by simp
      have "holds rank leaf zero g o' = raster zero (holds rank leaf zero g) (regions (rdesc g o'))"
        using holds_unfold [OF rkd, of leaf zero o'] o(2) by simp
      then show "raster zero (holds rank leaf zero g) (regions (rdesc g' src)) = raster zero (holds rank leaf zero g) ?regs"
        unfolding src using rep(2) [of "holds rank leaf zero g" zero] o(1) by simp
    qed
  qed
qed

lemma match_all_arrays: "arrays_ok st \<Longrightarrow> arrays_ok (snd (match_all Ss r st))"
proof (induction Ss arbitrary: st)
  case (Cons S Ss)
  obtain b st1 where b: "fuse_match S r st = (b, st1)" by (metis prod.collapse)
  then have "arrays_ok st1" using match_arrays [OF Cons.prems, of S r] by simp
  then show ?case using Cons.IH b by (cases b) simp_all
qed simp

lemma match_all_each:
  "match_all Ss r st = (True, st') \<Longrightarrow> arrays_ok st \<Longrightarrow> S \<in> set Ss \<Longrightarrow> \<exists>st0. arrays_ok st0 \<and> fst (fuse_match S r st0)"
proof (induction Ss arbitrary: st)
  case (Cons S1 Ss)
  obtain st1 where b: "fuse_match S1 r st = (True, st1)" and m: "match_all Ss r st1 = (True, st')"
    using Cons.prems(1) by (auto split: prod.splits bool.splits)
  have "arrays_ok st1" using match_arrays [OF Cons.prems(2), of S1 r] b by simp
  then show ?case using Cons.IH [OF m] Cons.prems(2,3) b by (cases "S = S1") auto
qed simp

text \<open>What the \<open>while\<close> loop over region \<open>i\<close> achieves.\<close>

definition fused_input ::
  "region set \<Rightarrow> (nat \<Rightarrow> nat) \<Rightarrow> nat \<Rightarrow> nat \<Rightarrow> bool \<Rightarrow> raster_ctx \<Rightarrow> bool \<Rightarrow> raster_ctx \<Rightarrow> bool" where
  "fused_input R rank src i nd g nd' g' \<longleftrightarrow>
     (let regs = regions (rdesc g src); regs' = regions (rdesc g' src) in
      work R rank src g' \<and> keeps {src} g g' \<and> cmds g' = cmds g \<and> (\<forall>t. t \<noteq> src \<longrightarrow> rdesc g' t = rdesc g t) \<and>
      i < length regs' \<and> take i regs' = take i regs \<and>
      (\<exists>news. drop (Suc i) regs' = drop (Suc i) regs @ news \<and> set news \<subseteq> R \<and>
         (\<forall>r \<in> set news. rank (rorigin r) < rank (rorigin (regs ! i)))) \<and>
      (regs' ! i \<in> R \<or> nd') \<and> (nd \<longrightarrow> nd'))"

lemma fused_input_refl:
  assumes "work R rank src g" "arrays_ok st" "i < length (regions (rdesc g src))" "regions (rdesc g src) ! i \<in> R"
  shows "fused_input R rank src i nd g nd (g\<lparr>mFuseUtils := st\<rparr>)"
  using assms by (auto simp: fused_input_def work_def base_def below_def ranked_def keeps_def Let_def)

lemma holds_status: "holds rank leaf zero (g\<lparr>mFuseUtils := st\<rparr>) = holds rank leaf zero g"
proof -
  have "content leaf zero (g\<lparr>mFuseUtils := st\<rparr>) k = content leaf zero g k" for k by (induction k) (simp_all cong: if_cong)
  then show ?thesis unfolding holds_def by (simp only:)
qed

lemma fused_input_step:
  assumes w: "work R rank src g" and i: "i < length (regions (rdesc g src))"
    and o: "o' = rorigin (regions (rdesc g src) ! i)" "virtualMemory (rdesc g o')" "rank o' < rank src"
    and ns: "fused_from (regions (rdesc g src) ! i) (regions (rdesc g o')) (x # news)"
    and x: "rsize x ! 0 = 0 \<and> rank (rorigin x) < rank src \<or> x \<in> R \<and> rank (rorigin x) < rank o'"
    and R: "set news \<subseteq> R" "\<forall>r \<in> set news. rank (rorigin r) < rank o'" and ok: "arrays_ok st"
  defines "g' \<equiv> set_regions src ((regions (rdesc g src))[i := x] @ news) (g\<lparr>mFuseUtils := st\<rparr>)"
  shows "fused_input R rank src i nd g (nd \<or> x \<notin> R) g' \<and> regions (rdesc g' src) ! i = x"
    "holds rank leaf zero g' = holds rank leaf zero g"
proof -
  have v: "virtual (rdesc g o')" using o(2) by (simp add: virtualMemory_def)
  have rk: "\<forall>r \<in> set (x # news). rank (rorigin r) < rank src" and rr: "\<forall>r \<in> set (x # news). r \<in> R \<or> rsize r ! 0 = 0"
    using x R o(3) by auto
  note rep = replaced_ok [OF w i o(1) v ns rk rr ok, folded g'_def]
  let ?regs = "regions (rdesc g src)"
  have "take i (?regs[i := x] @ news) = take i ?regs" "drop (Suc i) (?regs[i := x] @ news) = drop (Suc i) ?regs @ news"
    "(?regs[i := x] @ news) ! i = x" "i < length (?regs[i := x] @ news)" using i by (simp_all add: nth_append)
  then show "fused_input R rank src i nd g (nd \<or> x \<notin> R) g' \<and> regions (rdesc g' src) ! i = x"
    using rep(1,2,3,4) R o(1) unfolding fused_input_def Let_def rep(5) by auto
  show "holds rank leaf zero g' = holds rank leaf zero g" by (rule rep(6))
qed

lemma fused_input_trans:
  assumes 1: "fused_input R rank src i nd g nd1 g1" and 2: "fused_input R rank src i nd1 g1 nd' g'"
    and lt: "rank (rorigin (regions (rdesc g1 src) ! i)) \<le> rank (rorigin (regions (rdesc g src) ! i))"
  shows "fused_input R rank src i nd g nd' g'"
proof -
  obtain n1 where n1: "drop (Suc i) (regions (rdesc g1 src)) = drop (Suc i) (regions (rdesc g src)) @ n1" "set n1 \<subseteq> R"
    "\<forall>r \<in> set n1. rank (rorigin r) < rank (rorigin (regions (rdesc g src) ! i))" using 1 unfolding fused_input_def Let_def by blast
  obtain n2 where n2: "drop (Suc i) (regions (rdesc g' src)) = drop (Suc i) (regions (rdesc g1 src)) @ n2" "set n2 \<subseteq> R"
    "\<forall>r \<in> set n2. rank (rorigin r) < rank (rorigin (regions (rdesc g1 src) ! i))" using 2 unfolding fused_input_def Let_def by blast
  have "drop (Suc i) (regions (rdesc g' src)) = drop (Suc i) (regions (rdesc g src)) @ (n1 @ n2)" using n1(1) n2(1) by simp
  moreover have "set (n1 @ n2) \<subseteq> R" "\<forall>r \<in> set (n1 @ n2). rank (rorigin r) < rank (rorigin (regions (rdesc g src) ! i))"
    using n1 n2 lt by fastforce+
  moreover have "keeps {src} g g'" by (rule keeps_trans [of _ _ g1]) (use 1 2 in \<open>simp_all add: fused_input_def Let_def\<close>)
  ultimately show ?thesis using 1 2 unfolding fused_input_def Let_def by (intro conjI exI [of _ "n1 @ n2"]) auto
qed

text \<open>
  The step of one iteration: the loop stops with the region left alone, stops with it emptied, or goes on with
  an origin of smaller rank.
\<close>

lemma fuse_step:
  assumes R: "fusion_closed R" and w: "work R rank src g" and i: "i < length (regions (rdesc g src))" and iR: "regions (rdesc g src) ! i \<in> R"
  obtains (stops) g1 nd1 where "fuse_input (Suc k) msk src i nd g = Some (nd1, g1)" "fused_input R rank src i nd g nd1 g1"
      "holds rank leaf zero g1 = holds rank leaf zero g"
  | (goes) g1 where "fuse_input (Suc k) msk src i nd g = fuse_input k msk src i nd g1" "fused_input R rank src i nd g nd g1"
      "holds rank leaf zero g1 = holds rank leaf zero g" "regions (rdesc g1 src) ! i \<in> R"
      "rank (rorigin (regions (rdesc g1 src) ! i)) < rank (rorigin (regions (rdesc g src) ! i))"
proof -
  define D where "D = regions (rdesc g src) ! i"
  define o' where "o' = rorigin D"
  let ?st = "mFuseUtils g"
  have b: "base rank g" and vs: "virtual (rdesc g src)" using w by (simp_all add: work_def virtualMemory_def)
  have ok: "arrays_ok ?st" using b by (simp add: base_def)
  have Dr: "D \<in> set (regions (rdesc g src))" unfolding D_def using i by simp
  have ro: "rank o' < rank src" using b vs Dr unfolding base_def ranked_def o'_def by blast
  have svD: "single_valued (region_set D)" using b vs Dr unfolding base_def apart_def by blast
  have DR: "D \<in> R" using iR by (simp add: D_def)
  have same: thesis if "fuse_input (Suc k) msk src i nd g = Some (nd, g\<lparr>mFuseUtils := st\<rparr>)" "arrays_ok st" for st
    by (rule stops [OF that(1) fused_input_refl [OF w that(2) i iR] holds_status])
  show thesis
  proof (cases "virtualMemory (rdesc g o') \<and> supportFuse msk")
    case False
    then have "fuse_input (Suc k) msk src i nd g = Some (nd, g\<lparr>mFuseUtils := ?st\<rparr>)" by (auto simp: Let_def D_def o'_def)
    from same [OF this ok] show thesis .
  next
    case True
    then have vm: "virtualMemory (rdesc g o')" and vo: "virtual (rdesc g o')" by (simp_all add: virtualMemory_def)
    have inner: "set (regions (rdesc g o')) \<subseteq> R" using w vm ro unfolding work_def below_def by blast
    have ap: "apart (regions (rdesc g o'))" using b vo unfolding base_def by blast
    have rin: "rank (rorigin S) < rank o'" if "S \<in> set (regions (rdesc g o'))" for S using b vo that unfolding base_def ranked_def by blast
    note step = fused_input_step [OF w i o'_def [unfolded D_def] vm ro, folded D_def]
    have finish: thesis
      if e: "fuse_input (Suc k) msk src i nd g = (if rsize x ! 0 = 0 then Some (True, g1) else fuse_input k msk src i nd g1)"
        and g1: "g1 = set_regions src ((regions (rdesc g src))[i := x] @ news) (g\<lparr>mFuseUtils := st\<rparr>)"
        and ns: "fused_from D (regions (rdesc g o')) (x # news)" and st: "arrays_ok st" and news: "set news \<subseteq> R"
        and x: "rsize x ! 0 = 0 \<or> x \<in> R \<and> rank (rorigin x) < rank o'" and xo: "rank (rorigin x) < rank src"
        and nr: "\<forall>r \<in> set news. rank (rorigin r) < rank o'" for x news st g1
    proof -
      have x': "rsize x ! 0 = 0 \<and> rank (rorigin x) < rank src \<or> x \<in> R \<and> rank (rorigin x) < rank o'" using x xo by blast
      note s = step [OF ns x' news nr st, folded g1]
      show thesis
      proof (cases "rsize x ! 0 = 0")
        case True
        then have "x \<notin> R" using closed_size [OF R] by fastforce
        then have f: "fused_input R rank src i nd g True g1" using s(1) [of nd] by simp
        show thesis by (rule stops [OF _ f s(2)]) (simp only: e True simp_thms if_True)
      next
        case False
        then have xR: "x \<in> R" "rank (rorigin x) < rank o'" using x by auto
        then have f: "fused_input R rank src i nd g nd g1" and xi: "regions (rdesc g1 src) ! i = x" using s(1) [of nd] by simp_all
        show thesis by (rule goes [OF _ f s(2)]) (use False e xR xi in \<open>simp_all add: D_def [symmetric] o'_def\<close>)
      qed
    qed
    have upd: "g\<lparr>mFuseUtils := mFuseUtils g\<rparr> = g" by simp
    let ?regs = "regions (rdesc g src)"
    consider "regions (rdesc g o') = []" | S where "regions (rdesc g o') = [S]"
      | S S2 Ss where "regions (rdesc g o') = S # S2 # Ss" by (metis list.exhaust)
    then show thesis
    proof cases
      case 1
      let ?x = "D\<lparr>rsize := (rsize D)[0 := 0]\<rparr>"
      have x0: "rsize ?x ! 0 = 0" using R DR unfolding fusion_closed_def region_ok_def by auto
      have "fused_from D (regions (rdesc g o')) [?x]"
        using empty_region [OF x0] by (simp add: 1 fused_from_def apart_def origins_of_def through_def)
      then show thesis
        by (rule finish [rotated 2, of _ "[]" ?st]) (use True 1 x0 ok ro in \<open>simp_all add: upd D_def [symmetric] o'_def [symmetric]\<close>)
    next
      case 2
      obtain m st where m: "fuse_match S D ?st = (m, st)" by (metis prod.collapse)
      have st: "arrays_ok st" using match_arrays [OF ok, of S D] m by simp
      show thesis
      proof (cases m)
        case False
        have "fuse_input (Suc k) msk src i nd g = Some (nd, g\<lparr>mFuseUtils := st\<rparr>)"
          using True 2 m False by (simp add: D_def [symmetric] o'_def [symmetric])
        from same [OF this st] show thesis .
      next
        case mT: True
        obtain x st' where x: "fuse_apply S D st = (x, st')" by (metis prod.collapse)
        have f1: "fuse_one S D ?st = (x, st')" using m x by (simp add: fuse_one_def)
        have SR: "S \<in> R" using inner 2 by simp
        note f = fuse_one_ok [OF R SR DR ok ok _ f1]
        have f': "arrays_ok st'" "region_set x = region_set D O region_set S" "rsize x ! 0 = 0 \<or> x \<in> R \<and> rorigin x = rorigin S"
          using f m mT by simp_all
        have xo: "rorigin x = rorigin S \<or> rorigin x = rorigin D" using x by (auto simp: fuse_apply_def Let_def case_prod_unfold split: fuse_kind.splits if_splits)
        have e: "fused_from D [] []" by (simp add: fused_from_def apart_def origins_of_def through_def)
        have "fused_from D [S] [x]" using fused_from_Cons(1) [OF ap [unfolded 2] svD e f'(2)] f'(3) by blast
        then have "fused_from D (regions (rdesc g o')) [x]" by (simp add: 2)
        then show thesis
          by (rule finish [rotated 2, of _ "[]" st'])
            (use True 2 m mT x f'(1,3) rin [of S] xo ro in \<open>auto simp: D_def [symmetric] o'_def [symmetric]\<close>)
      qed
    next
      case 3
      show thesis
      proof (cases "supportFuseMulti msk")
        case False
        then have "fuse_input (Suc k) msk src i nd g = Some (nd, g\<lparr>mFuseUtils := ?st\<rparr>)"
          using True 3 by (simp add: D_def [symmetric] o'_def [symmetric])
        from same [OF this ok] show thesis .
      next
        case multi: True
        obtain m st where m: "match_all (S # S2 # Ss) D ?st = (m, st)" by (metis prod.collapse)
        have st: "arrays_ok st" using match_all_arrays [OF ok, of "S # S2 # Ss" D] unfolding m by simp
        show thesis
        proof (cases m)
          case False
          have "fuse_input (Suc k) msk src i nd g = Some (nd, g\<lparr>mFuseUtils := st\<rparr>)"
            using True multi 3 m False by (simp add: D_def [symmetric] o'_def [symmetric] del: match_all.simps)
          from same [OF this st] show thesis .
        next
          case mT: True
          from m mT have mt: "match_all (S # S2 # Ss) D ?st = (True, st)" by simp
          note each = match_all_each [OF mt ok]
          obtain x st1 where x: "fuse_one S D st = (x, st1)" by (metis prod.collapse)
          obtain ns st2 where ns: "fuse_rest (S2 # Ss) D st1 = (ns, st2)" by (metis prod.collapse)
          have SR: "S \<in> R" "set (S2 # Ss) \<subseteq> R" and aS: "apart (S2 # Ss)" using inner ap unfolding 3 by (simp_all add: apart_def)
          from each [of S] obtain st0 where m0: "arrays_ok st0" "fst (fuse_match S D st0)" using mT by auto
          note f = fuse_one_ok [OF R SR(1) DR st m0 x]
          have e2: "\<exists>st0. arrays_ok st0 \<and> fst (fuse_match S' D st0)" if "S' \<in> set (S2 # Ss)" for S' using each [of S'] that mT by simp
          note r = fuse_rest_ok [OF R DR svD ns SR(2) aS f(1) e2]
          have xo: "rorigin x = rorigin S \<or> rorigin x = rorigin D" using x
            by (auto simp: fuse_one_def fuse_apply_def Let_def case_prod_unfold split: fuse_kind.splits if_splits)
          have "fused_from D (S # S2 # Ss) (x # ns)"
            by (rule fused_from_Cons(1) [OF ap [unfolded 3] svD _ f(2)]) (use r f(3) in auto)
          then have ff: "fused_from D (regions (rdesc g o')) (x # ns)" by (simp add: 3)
          have nr: "\<forall>r \<in> set ns. rank (rorigin r) < rank o'"
          proof
            fix q assume "q \<in> set ns"
            then have "rorigin q \<in> rorigin ` set (S2 # Ss)" using r by blast
            then obtain S' where "S' \<in> set (S2 # Ss)" "rorigin q = rorigin S'" by blast
            then show "rank (rorigin q) < rank o'" using rin [of S'] 3 by auto
          qed
          show thesis
            by (rule finish [OF _ refl ff _ _ _ _ nr, of st2])
              (use True multi 3 m mT x ns r f(3) rin [of S] xo ro in
                \<open>auto simp: D_def [symmetric] o'_def [symmetric] simp del: match_all.simps fuse_rest.simps\<close>)
        qed
      qed
    qed
  qed
qed

end
