(* ===== verification/Raster_Emit.thy ===== *)
theory Raster_Emit
  imports Raster_Steps
begin

text \<open>
  The recursion over the origins keeps the content and the order of the commands, and ends.
\<close>

lemma fuse_input_ok:
  assumes R: "fusion_closed R"
  shows "fuse_input k msk src i nd g = Some (nd', g') \<Longrightarrow> work R rank src g \<Longrightarrow> i < length (regions (rdesc g src)) \<Longrightarrow>
    regions (rdesc g src) ! i \<in> R \<Longrightarrow> fused_input R rank src i nd g nd' g' \<and> holds rank leaf zero g' = holds rank leaf zero g"
proof (induction k arbitrary: g nd)
  case (Suc k)
  from R Suc.prems(2-4) show ?case
  proof (cases rule: fuse_step [where msk = msk and nd = nd and k = k and leaf = leaf and zero = zero])
    case (stops g1 nd1)
    then show ?thesis using Suc.prems(1) by simp
  next
    case (goes g1)
    have w: "work R rank src g1" "i < length (regions (rdesc g1 src))" using goes(2) unfolding fused_input_def Let_def by blast+
    have "fuse_input k msk src i nd g1 = Some (nd', g')" using Suc.prems(1) unfolding goes(1) .
    from Suc.IH [OF this w goes(4)] fused_input_trans [OF goes(2)] goes(3,5) show ?thesis by (metis less_imp_le)
  qed
qed simp

lemma fuse_input_total:
  assumes R: "fusion_closed R"
  shows "rank (rorigin (regions (rdesc g src) ! i)) < k \<Longrightarrow> work R rank src g \<Longrightarrow> i < length (regions (rdesc g src)) \<Longrightarrow>
    regions (rdesc g src) ! i \<in> R \<Longrightarrow> \<exists>nd' g'. fuse_input k msk src i nd g = Some (nd', g')"
proof (induction k arbitrary: g nd)
  case (Suc k)
  from R Suc.prems(2-4) show ?case
  proof (cases rule: fuse_step [where msk = msk and nd = nd and k = k and leaf = "\<lambda>_ _. 0 :: int" and zero = 0])
    case (stops g1 nd1)
    then show ?thesis by blast
  next
    case (goes g1)
    have w: "work R rank src g1" "i < length (regions (rdesc g1 src))" using goes(2) unfolding fused_input_def Let_def by blast+
    show ?thesis unfolding goes(1) by (rule Suc.IH [OF _ w goes(4)]) (use goes(5) Suc.prems(1) in linarith)
  qed
qed simp

section \<open>The commands\<close>

text \<open>A tensor that needs no command of its own any more, and the order of the command buffer.\<close>

definition commanded :: "raster_ctx \<Rightarrow> nat \<Rightarrow> bool" where
  "commanded g t \<longleftrightarrow> \<not> virtualMemory (rdesc g t) \<or> zeroDim (rdesc g t)"

definition cmds_ok :: "raster_ctx \<Rightarrow> bool" where
  "cmds_ok g \<longleftrightarrow> (\<forall>t. rasterCommand (rdesc g t) \<longrightarrow> t \<in> fst ` set (cmds g)) \<and>
     (\<forall>j < length (cmds g). \<forall>t \<in> set (snd (cmds g ! j)).
        virtual (rdesc g t) \<and> \<not> zeroDim (rdesc g t) \<longrightarrow> t \<in> fst ` set (take j (cmds g)))"

lemma commanded_keeps: "keeps A g g' \<Longrightarrow> commanded g t \<Longrightarrow> commanded g' t"
  unfolding commanded_def using keeps_virtualMemory by (metis keeps_def)

lemma cmds_ok_same:
  assumes "cmds_ok g" "keeps A g g'" "cmds g' = cmds g" "\<And>t. rasterCommand (rdesc g' t) \<Longrightarrow> rasterCommand (rdesc g t)"
  shows "cmds_ok g'"
  using assms unfolding cmds_ok_def keeps_def by metis

lemma cmds_ok_fused:
  assumes "cmds_ok g" "work R rank src g" "fused_input R rank src i nd g nd' g'"
  shows "cmds_ok g'"
proof (rule cmds_ok_same [OF assms(1)])
  show "keeps {src} g g'" "cmds g' = cmds g" using assms(3) by (simp_all add: fused_input_def Let_def)
  show "rasterCommand (rdesc g' t) \<Longrightarrow> rasterCommand (rdesc g t)" for t
    using assms(3) unfolding fused_input_def Let_def work_def virtualMemory_def by metis
qed

section \<open>The recursion\<close>

definition created ::
  "(nat \<Rightarrow> nat) \<Rightarrow> (nat \<Rightarrow> int \<Rightarrow> 'a) \<Rightarrow> 'a \<Rightarrow> nat \<Rightarrow> raster_ctx \<Rightarrow> raster_ctx \<Rightarrow> bool" where
  "created rank leaf zero src g g' \<longleftrightarrow>
     base rank g' \<and> keeps {} g g' \<and> (\<forall>t. t \<noteq> src \<and> rank src \<le> rank t \<longrightarrow> rdesc g' t = rdesc g t) \<and>
     commanded g' src \<and> holds rank leaf zero g' = holds rank leaf zero g \<and> (cmds_ok g \<longrightarrow> cmds_ok g')"

definition swept ::
  "region set \<Rightarrow> (nat \<Rightarrow> nat) \<Rightarrow> (nat \<Rightarrow> int \<Rightarrow> 'a) \<Rightarrow> 'a \<Rightarrow> nat \<Rightarrow> raster_ctx \<Rightarrow> bool \<Rightarrow> raster_ctx \<Rightarrow> bool" where
  "swept R rank leaf zero src g nd' g' \<longleftrightarrow>
     work R rank src g' \<and> keeps {src} g g' \<and> (\<forall>t. t \<noteq> src \<and> rank src \<le> rank t \<longrightarrow> rdesc g' t = rdesc g t) \<and>
     (nd' \<or> set (regions (rdesc g' src)) \<subseteq> R) \<and>
     (\<forall>r \<in> set (regions (rdesc g' src)). rsize r ! 0 = 0 \<or> commanded g' (rorigin r)) \<and>
     holds rank leaf zero g' = holds rank leaf zero g \<and> (cmds_ok g \<longrightarrow> cmds_ok g')"

text \<open>Between two regions: those before \<open>i\<close> are done, those from \<open>i\<close> on are as they should be.\<close>

definition halfway :: "region set \<Rightarrow> (nat \<Rightarrow> nat) \<Rightarrow> nat \<Rightarrow> nat \<Rightarrow> bool \<Rightarrow> raster_ctx \<Rightarrow> bool" where
  "halfway R rank src i nd g \<longleftrightarrow>
     work R rank src g \<and> set (drop i (regions (rdesc g src))) \<subseteq> R \<and> (nd \<or> set (regions (rdesc g src)) \<subseteq> R) \<and>
     (\<forall>r \<in> set (take i (regions (rdesc g src))). rsize r ! 0 = 0 \<or> commanded g (rorigin r))"

lemma work_created:
  assumes w: "work R rank src g" and c: "created rank leaf zero t g g'" and lt: "rank t < rank src"
  shows "work R rank src g'" "rdesc g' src = rdesc g src"
proof -
  show e: "rdesc g' src = rdesc g src" using c lt unfolding created_def by (metis less_imp_le less_irrefl)
  have "below R rank (rank src) g'" unfolding below_def
  proof (intro allI impI)
    fix u assume u: "virtualMemory (rdesc g' u) \<and> rank u < rank src"
    then have "rdesc g' u = rdesc g u" using c unfolding created_def keeps_def by blast
    then show "set (regions (rdesc g' u)) \<subseteq> R" using w u unfolding work_def below_def by metis
  qed
  then show "work R rank src g'" using w c e unfolding work_def created_def by simp
qed

lemma halfway_fused:
  assumes h: "halfway R rank src i nd g" and f: "fused_input R rank src i nd g nd1 g1" and i: "i < length (regions (rdesc g src))"
    and g2: "work R rank src g2" "rdesc g2 src = rdesc g1 src" "keeps {src} g1 g2"
    and s: "rsize (regions (rdesc g1 src) ! i) ! 0 = 0 \<or> commanded g2 (rorigin (regions (rdesc g1 src) ! i))"
  shows "halfway R rank src (Suc i) nd1 g2"
proof -
  let ?regs = "regions (rdesc g src)" and ?regs1 = "regions (rdesc g1 src)"
  obtain news where n: "drop (Suc i) ?regs1 = drop (Suc i) ?regs @ news" "set news \<subseteq> R" using f unfolding fused_input_def Let_def by blast
  have t: "take i ?regs1 = take i ?regs" and i1: "i < length ?regs1" and x: "?regs1 ! i \<in> R \<or> nd1" and nd: "nd \<longrightarrow> nd1" and k: "keeps {src} g g1"
    using f unfolding fused_input_def Let_def by blast+
  have d: "set (drop (Suc i) ?regs) \<subseteq> set (drop i ?regs)" by (rule set_drop_subset_set_drop) simp
  have 1: "set (drop (Suc i) ?regs1) \<subseteq> R" unfolding n(1) using n(2) d h unfolding halfway_def by auto
  have tk: "take (Suc i) ?regs1 = take i ?regs @ [?regs1 ! i]" using take_Suc_conv_app_nth [OF i1] t by simp
  have 2: "\<forall>r \<in> set (take (Suc i) ?regs1). rsize r ! 0 = 0 \<or> commanded g2 (rorigin r)"
    unfolding tk using h s commanded_keeps [OF keeps_trans [OF k g2(3)]] unfolding halfway_def by auto
  have 3: "nd1 \<or> set ?regs1 \<subseteq> R"
  proof (cases nd1)
    case False
    then have "set (take i ?regs) \<subseteq> R" "?regs1 ! i \<in> R" using h nd x set_take_subset [of i ?regs] unfolding halfway_def by auto
    moreover have "set ?regs1 = set (take (Suc i) ?regs1) \<union> set (drop (Suc i) ?regs1)" by (metis append_take_drop_id set_append)
    ultimately show ?thesis using 1 unfolding tk by auto
  qed simp
  show ?thesis unfolding halfway_def g2(2) using g2(1) 1 2 3 by blast
qed

lemma region_moves_empty: "rsize r ! 0 = 0 \<or> rsize r ! 1 = 0 \<or> rsize r ! 2 = 0 \<Longrightarrow> region_moves r = []"
  by (auto simp: region_moves_def)

lemma raster_filter:
  assumes "\<And>r. r \<in> set regs \<Longrightarrow> \<not> P r \<Longrightarrow> region_moves r = []"
  shows "raster zero f (filter P regs) = raster zero f regs"
proof -
  have "fold (\<lambda>r. run_moves (f (rorigin r)) (region_moves r)) (filter P regs) m = fold (\<lambda>r. run_moves (f (rorigin r)) (region_moves r)) regs m" for m
    using assms
  proof (induction regs arbitrary: m)
    case (Cons r regs)
    then show ?case by (cases "P r") (auto simp: run_moves_def)
  qed simp
  then show ?thesis by (simp add: raster_def)
qed

text \<open>The empty regions leave, and the tensor gets its command.\<close>

lemma create_ok:
  assumes R: "fusion_closed R" and s: "swept R rank leaf zero src g nd g1" and v: "virtualMemory (rdesc g src)"
  defines "g' \<equiv> getRasterCacheCreate src (if nd then drop_empty src g1 else g1)"
  shows "created rank leaf zero src g g'"
proof -
  let ?P = "\<lambda>r. \<not> (rsize r ! 0 = 0 \<or> rsize r ! 1 = 0 \<or> rsize r ! 2 = 0)"
  define regs where "regs = (if nd then filter ?P (regions (rdesc g1 src)) else regions (rdesc g1 src))"
  have w: "work R rank src g1" and k: "keeps {src} g g1" using s by (simp_all add: swept_def)
  have v1: "virtualMemory (rdesc g1 src)" and vs: "virtual (rdesc g1 src)" and b: "base rank g1" using w by (simp_all add: work_def virtualMemory_def)
  have sub: "set regs \<subseteq> set (regions (rdesc g1 src))" by (simp add: regs_def)
  have rdesc': "rdesc g' = (rdesc g1)(src := (rdesc g1 src)\<lparr>regions := regs, rasterCommand := True\<rparr>)"
    and cmds': "cmds g' = cmds g1 @ [(src, map rorigin regs)]" and st': "mFuseUtils g' = mFuseUtils g1"
    using v1 by (auto simp: g'_def getRasterCacheCreate_def drop_empty_def set_regions_def regs_def virtualMemory_def fun_eq_iff)
  have regR: "r \<in> R" if "r \<in> set regs" for r
  proof (cases nd)
    case True
    then show ?thesis using that w by (auto simp: regs_def work_def)
  next
    case False
    then show ?thesis using that s by (auto simp: regs_def swept_def)
  qed
  have rk': "ranked rank g'" using b sub unfolding base_def ranked_def rdesc' by auto
  have "apart regs" using b vs unfolding base_def regs_def apart_def by (auto intro: sorted_wrt_filter)
  then have b': "base rank g'" using b rk' unfolding base_def rdesc' st' by auto
  have k1: "keeps {} g1 g'" unfolding keeps_def rdesc' by (simp add: virtualMemory_def)
  have k': "keeps {} g g'"
  proof -
    have "keeps {src} g g'" by (rule keeps_trans [OF k keeps_mono [OF k1]]) simp
    moreover have "\<not> virtualMemory (rdesc g' src)" by (simp add: rdesc' virtualMemory_def)
    ultimately show ?thesis unfolding keeps_def by (metis singletonD)
  qed
  have hl: "holds rank leaf zero g' = holds rank leaf zero g1"
  proof
    fix t show "holds rank leaf zero g' t = holds rank leaf zero g1 t"
    proof (rule holds_update)
      show "ranked rank g1" using b by (simp add: base_def)
      show "ranked rank g'" by (rule rk')
      show "\<And>t. virtual (rdesc g' t) = virtual (rdesc g1 t)" "\<And>t. t \<noteq> src \<Longrightarrow> regions (rdesc g' t) = regions (rdesc g1 t)"
        by (simp_all add: rdesc')
      show "raster zero (holds rank leaf zero g1) (regions (rdesc g' src)) = raster zero (holds rank leaf zero g1) (regions (rdesc g1 src))"
      proof -
        have "raster zero (holds rank leaf zero g1) (filter ?P (regions (rdesc g1 src))) = raster zero (holds rank leaf zero g1) (regions (rdesc g1 src))"
          by (rule raster_filter) (use region_moves_empty in blast)
        moreover have "regions (rdesc g' src) = regs" by (simp add: rdesc')
        ultimately show ?thesis unfolding regs_def by presburger
      qed
    qed
  qed
  have co: "cmds_ok g'" if "cmds_ok g"
  proof -
    have c1: "cmds_ok g1" using that s by (simp add: swept_def)
    have in1: "t \<in> fst ` set (cmds g1)" if t: "t \<in> rorigin ` set regs" "virtual (rdesc g1 t)" "\<not> zeroDim (rdesc g1 t)" for t
    proof -
      from t(1) obtain r where r: "r \<in> set regs" "t = rorigin r" by blast
      have "0 < rsize r ! 0" by (rule closed_size [OF R regR [OF r(1)]])
      then have "commanded g1 t" using s r sub unfolding swept_def by force
      then have "rasterCommand (rdesc g1 t)" using t by (simp add: commanded_def virtualMemory_def)
      then show ?thesis using c1 by (simp add: cmds_ok_def)
    qed
    show ?thesis unfolding cmds_ok_def
    proof (intro conjI allI impI ballI)
      fix t assume "rasterCommand (rdesc g' t)"
      then show "t \<in> fst ` set (cmds g')" using c1 unfolding cmds_ok_def rdesc' cmds' by (auto split: if_splits)
    next
      fix j t assume j: "j < length (cmds g')" and t: "t \<in> set (snd (cmds g' ! j))" and vt: "virtual (rdesc g' t) \<and> \<not> zeroDim (rdesc g' t)"
      have vt1: "virtual (rdesc g1 t) \<and> \<not> zeroDim (rdesc g1 t)" using vt unfolding rdesc' by (auto split: if_splits)
      show "t \<in> fst ` set (take j (cmds g'))"
      proof (cases "j < length (cmds g1)")
        case True
        then show ?thesis using c1 t vt1 unfolding cmds_ok_def cmds' by (simp add: nth_append)
      next
        case False
        then have "j = length (cmds g1)" using j by (simp add: cmds')
        then show ?thesis using in1 [of t] t vt1 by (simp add: cmds')
      qed
    qed
  qed
  show ?thesis unfolding created_def
  proof (intro conjI)
    show "\<forall>t. t \<noteq> src \<and> rank src \<le> rank t \<longrightarrow> rdesc g' t = rdesc g t" using s by (simp add: swept_def rdesc')
    show "commanded g' src" by (simp add: commanded_def rdesc' virtualMemory_def)
    show "holds rank leaf zero g' = holds rank leaf zero g" using hl s by (simp add: swept_def)
  qed (use b' k' co in auto)
qed

lemma origin_rank:
  assumes "work R rank src g" "i < length (regions (rdesc g src))"
  shows "rank (rorigin (regions (rdesc g src) ! i)) < rank src"
  using assms unfolding work_def base_def ranked_def virtualMemory_def by (meson nth_mem)

lemma work_base: "work R rank src g \<Longrightarrow> b \<le> rank src \<Longrightarrow> base rank g \<and> below R rank b g"
  unfolding work_def below_def by auto

lemma create_both:
  assumes R: "fusion_closed R"
  shows "(\<forall>src g g'. base rank g \<longrightarrow> below R rank (Suc (rank src)) g \<longrightarrow> raster_create k msk src g = Some g' \<longrightarrow>
      created rank leaf zero src g g') \<and>
    (\<forall>src i nd g nd' g'. halfway R rank src i nd g \<longrightarrow> raster_regions k msk src i nd g = Some (nd', g') \<longrightarrow>
      swept R rank leaf zero src g nd' g')"
proof (induction k)
  case 0
  show ?case by simp
next
  case (Suc k)
  have IH1: "created rank leaf zero src g g'" if "base rank g" "below R rank (Suc (rank src)) g" "raster_create k msk src g = Some g'" for src g g'
    using Suc that by blast
  have IH2: "swept R rank leaf zero src g nd' g'" if "halfway R rank src i nd g" "raster_regions k msk src i nd g = Some (nd', g')" for src i nd g nd' g'
    using Suc that by blast
  have 1: "created rank leaf zero src g g'"
    if b: "base rank g" "below R rank (Suc (rank src)) g" and r: "raster_create (Suc k) msk src g = Some g'" for src g g'
  proof (cases "\<not> virtualMemory (rdesc g src) \<or> zeroDim (rdesc g src)")
    case True
    then have "g' = g" using r by simp
    then show ?thesis using True b by (auto simp: created_def keeps_refl commanded_def)
  next
    case False
    then obtain nd g1 where q: "raster_regions k msk src 0 False g = Some (nd, g1)" and g': "g' = getRasterCacheCreate src (if nd then drop_empty src g1 else g1)"
      using r by (auto split: option.splits)
    have "halfway R rank src 0 False g" using False b unfolding halfway_def work_def below_def by auto
    from create_ok [OF R IH2 [OF this q]] False show ?thesis unfolding g' by blast
  qed
  have 2: "swept R rank leaf zero src g nd' g'"
    if h: "halfway R rank src i nd g" and r: "raster_regions (Suc k) msk src i nd g = Some (nd', g')" for src i nd g nd' g'
  proof (cases "length (regions (rdesc g src)) \<le> i")
    case True
    then have "nd' = nd" "g' = g" using r by simp_all
    then show ?thesis using h True by (simp add: halfway_def swept_def keeps_refl)
  next
    case False
    then have i: "i < length (regions (rdesc g src))" by simp
    obtain nd1 g1 where f: "fuse_input k msk src i nd g = Some (nd1, g1)" using r False by (auto split: option.splits)
    have w: "work R rank src g" using h by (simp add: halfway_def)
    have iR: "regions (rdesc g src) ! i \<in> R" using h i unfolding halfway_def by (metis Cons_nth_drop_Suc list.set_intros(1) subsetD)
    from fuse_input_ok [OF R f w i iR, of leaf zero] have fi: "fused_input R rank src i nd g nd1 g1"
      and h1: "holds rank leaf zero g1 = holds rank leaf zero g" by blast+
    have w1: "work R rank src g1" and i1: "i < length (regions (rdesc g1 src))" and k1: "keeps {src} g g1" and o1: "\<forall>t. t \<noteq> src \<longrightarrow> rdesc g1 t = rdesc g t"
      using fi unfolding fused_input_def Let_def by blast+
    have cm1: "cmds_ok g \<longrightarrow> cmds_ok g1" using cmds_ok_fused [OF _ w fi] by blast
    let ?x = "regions (rdesc g1 src) ! i"
    have join: "swept R rank leaf zero src g nd' g'"
      if s: "swept R rank leaf zero src g2 nd' g'" and k2: "keeps {src} g1 g2" and o2: "\<forall>t. t \<noteq> src \<and> rank src \<le> rank t \<longrightarrow> rdesc g2 t = rdesc g1 t"
        and h2: "holds rank leaf zero g2 = holds rank leaf zero g1" and c2: "cmds_ok g1 \<longrightarrow> cmds_ok g2" for g2
      using s keeps_trans [OF keeps_trans [OF k1 k2]] o1 o2 h1 h2 cm1 c2 unfolding swept_def by auto
    show ?thesis
    proof (cases "0 < rsize ?x ! 0")
      case True
      then obtain g2 where c: "raster_create k msk (rorigin ?x) g1 = Some g2" and q: "raster_regions k msk src (Suc i) nd1 g2 = Some (nd', g')"
        using r False f by (auto simp: Let_def split: option.splits)
      have lt: "rank (rorigin ?x) < rank src" by (rule origin_rank [OF w1 i1])
      have "base rank g1 \<and> below R rank (Suc (rank (rorigin ?x))) g1" by (rule work_base [OF w1]) (use lt in simp)
      then have cr: "created rank leaf zero (rorigin ?x) g1 g2" using IH1 c by blast
      note w2 = work_created [OF w1 cr lt]
      have k2: "keeps {src} g1 g2" by (rule keeps_mono [of "{}"]) (use cr in \<open>simp_all add: created_def\<close>)
      have "commanded g2 (rorigin ?x)" using cr by (simp add: created_def)
      then have "halfway R rank src (Suc i) nd1 g2" by (intro halfway_fused [OF h fi i w2 k2]) simp
      from join [OF IH2 [OF this q] k2] cr lt show ?thesis unfolding created_def by (metis less_le_trans less_irrefl less_imp_le)
    next
      case x: False
      then have q: "raster_regions k msk src (Suc i) nd1 g1 = Some (nd', g')" using r False f by (simp add: Let_def)
      have "?x \<notin> R" using closed_size [OF R, of ?x] x by blast
      then have "rsize ?x ! 0 = 0" using w1 i1 unfolding work_def by (metis nth_mem)
      then have "halfway R rank src (Suc i) nd1 g1" by (intro halfway_fused [OF h fi i w1 refl keeps_refl]) simp
      from join [OF IH2 [OF this q] keeps_refl] show ?thesis by simp
    qed
  qed
  show ?case using 1 2 by blast
qed

section \<open>The recursion ends\<close>

lemma fuse_input_more:
  "fuse_input k msk src i nd g = Some r \<Longrightarrow> k \<le> k' \<Longrightarrow> fuse_input k' msk src i nd g = Some r"
proof (induction k arbitrary: k' nd g)
  case (Suc k)
  then obtain j where j: "k' = Suc j" "k \<le> j" by (cases k') auto
  show ?case using Suc.prems(1) Suc.IH [OF _ j(2)] unfolding j(1) fuse_input.simps(2) Let_def
    by (auto split: if_splits list.splits prod.splits)
qed simp

lemma raster_more:
  "(\<forall>src g g' k'. raster_create k msk src g = Some g' \<longrightarrow> k \<le> k' \<longrightarrow> raster_create k' msk src g = Some g') \<and>
   (\<forall>src i nd g r k'. raster_regions k msk src i nd g = Some r \<longrightarrow> k \<le> k' \<longrightarrow> raster_regions k' msk src i nd g = Some r)"
proof (induction k)
  case (Suc k)
  have 1: "raster_create k' msk src g = Some g'" if r: "raster_create (Suc k) msk src g = Some g'" "Suc k \<le> k'" for src g g' k'
  proof -
    obtain j where j: "k' = Suc j" "k \<le> j" using r(2) by (cases k') auto
    show ?thesis
    proof (cases "\<not> virtualMemory (rdesc g src) \<or> zeroDim (rdesc g src)")
      case False
      then obtain q where q: "raster_regions k msk src 0 False g = Some q" using r(1) by (auto split: option.splits)
      have "raster_regions j msk src 0 False g = Some q" using Suc q j(2) by blast
      then show ?thesis using r(1) False q by (simp add: j(1))
    qed (use r(1) in \<open>simp add: j(1)\<close>)
  qed
  have 2: "raster_regions k' msk src i nd g = Some r" if r: "raster_regions (Suc k) msk src i nd g = Some r" "Suc k \<le> k'" for src i nd g r k'
  proof -
    obtain j where j: "k' = Suc j" "k \<le> j" using r(2) by (cases k') auto
    show ?thesis
    proof (cases "length (regions (rdesc g src)) \<le> i")
      case True
      then show ?thesis using r(1) by (simp add: j)
    next
      case False
      then obtain nd1 g1 where f: "fuse_input k msk src i nd g = Some (nd1, g1)" using r(1) by (auto split: option.splits)
      note f' = fuse_input_more [OF f j(2)]
      show ?thesis
      proof (cases "0 < rsize (regions (rdesc g1 src) ! i) ! 0")
        case True
        then obtain g2 where "raster_create k msk (rorigin (regions (rdesc g1 src) ! i)) g1 = Some g2" "raster_regions k msk src (Suc i) nd1 g2 = Some r"
          using r(1) False f by (auto simp: Let_def split: option.splits)
        then have "raster_create j msk (rorigin (regions (rdesc g1 src) ! i)) g1 = Some g2" "raster_regions j msk src (Suc i) nd1 g2 = Some r"
          using Suc j(2) by blast+
        then show ?thesis using False f' True by (simp add: j(1) Let_def)
      next
        case x: False
        then have "raster_regions k msk src (Suc i) nd1 g1 = Some r" using r(1) False f by (simp add: Let_def)
        then have "raster_regions j msk src (Suc i) nd1 g1 = Some r" using Suc j(2) by blast
        then show ?thesis using False f' x by (simp add: j(1) Let_def)
      qed
    qed
  qed
  show ?case using 1 2 by blast
qed simp

lemmas raster_create_more = raster_more [THEN conjunct1, rule_format]
lemmas raster_regions_more = raster_more [THEN conjunct2, rule_format]

definition pending :: "(nat \<Rightarrow> nat) \<Rightarrow> nat \<Rightarrow> nat \<Rightarrow> raster_ctx \<Rightarrow> nat multiset" where
  "pending rank src i g = mset (map (\<lambda>r. rank (rorigin r)) (drop i (regions (rdesc g src))))"

lemma pending_less:
  assumes f: "fused_input R rank src i nd g nd1 g1" and i: "i < length (regions (rdesc g src))" and e: "rdesc g2 src = rdesc g1 src"
  shows "(pending rank src (Suc i) g2, pending rank src i g) \<in> mult1 less_than"
proof -
  obtain news where n: "drop (Suc i) (regions (rdesc g1 src)) = drop (Suc i) (regions (rdesc g src)) @ news"
    "\<forall>r \<in> set news. rank (rorigin r) < rank (rorigin (regions (rdesc g src) ! i))" using f unfolding fused_input_def Let_def by blast
  have 1: "pending rank src i g = add_mset (rank (rorigin (regions (rdesc g src) ! i))) (pending rank src (Suc i) g)"
    unfolding pending_def Cons_nth_drop_Suc [OF i, symmetric] by simp
  have 2: "pending rank src (Suc i) g2 = pending rank src (Suc i) g + mset (map (\<lambda>r. rank (rorigin r)) news)"
    unfolding pending_def e n(1) by simp
  show ?thesis unfolding mult1_def
    by (intro CollectI case_prodI exI conjI, rule 1, rule 2) (use n(2) in auto)
qed

lemma raster_total:
  assumes R: "fusion_closed R"
  shows "base rank g \<Longrightarrow> below R rank (Suc (rank src)) g \<Longrightarrow> \<exists>k g'. raster_create k msk src g = Some g'"
proof (induction "rank src" arbitrary: src g rule: less_induct)
  case less
  have inner: "\<exists>k r. raster_regions k msk src i nd h = Some r" if "halfway R rank src i nd h" for i nd h
    using that
  proof (induction "pending rank src i h" arbitrary: i nd h rule: wf_induct_rule [OF wf_mult1 [OF wf_less_than]])
    case (1 i h nd)
    show ?case
    proof (cases "length (regions (rdesc h src)) \<le> i")
      case True
      then have "raster_regions (Suc 0) msk src i nd h = Some (nd, h)" by simp
      then show ?thesis by blast
    next
      case False
      then have i: "i < length (regions (rdesc h src))" by simp
      have w: "work R rank src h" using 1(2) by (simp add: halfway_def)
      have iR: "regions (rdesc h src) ! i \<in> R" using 1(2) i unfolding halfway_def by (metis Cons_nth_drop_Suc list.set_intros(1) subsetD)
      from fuse_input_total [OF R lessI w i iR] obtain kf nd1 h1 where f: "fuse_input kf msk src i nd h = Some (nd1, h1)" by blast
      from fuse_input_ok [OF R f w i iR, of "\<lambda>_ _. 0 :: int" 0] have fi: "fused_input R rank src i nd h nd1 h1" by blast
      have w1: "work R rank src h1" and i1: "i < length (regions (rdesc h1 src))" using fi unfolding fused_input_def Let_def by blast+
      let ?x = "regions (rdesc h1 src) ! i"
      show ?thesis
      proof (cases "0 < rsize ?x ! 0")
        case True
        have lt: "rank (rorigin ?x) < rank src" by (rule origin_rank [OF w1 i1])
        have b1: "base rank h1" "below R rank (Suc (rank (rorigin ?x))) h1" using work_base [OF w1, of "Suc (rank (rorigin ?x))"] lt by auto
        from less.hyps [OF lt b1] obtain kc h2 where c: "raster_create kc msk (rorigin ?x) h1 = Some h2" by blast
        have cr: "created rank (\<lambda>_ _. 0 :: int) 0 (rorigin ?x) h1 h2" using create_both [OF R, of rank kc msk "\<lambda>_ _. 0 :: int" 0] b1 c by blast
        note w2 = work_created [OF w1 cr lt]
        have k2: "keeps {src} h1 h2" by (rule keeps_mono [of "{}"]) (use cr in \<open>simp_all add: created_def\<close>)
        have "commanded h2 (rorigin ?x)" using cr by (simp add: created_def)
        then have "halfway R rank src (Suc i) nd1 h2" by (intro halfway_fused [OF 1(2) fi i w2 k2]) simp
        from 1(1) [OF pending_less [OF fi i w2(2)] this] obtain kr r where q: "raster_regions kr msk src (Suc i) nd1 h2 = Some r" by blast
        let ?k = "max kf (max kc kr)"
        have "raster_regions (Suc ?k) msk src i nd h = Some r"
          using False True fuse_input_more [OF f, of ?k] raster_create_more [OF c, of ?k] raster_regions_more [OF q, of ?k] by (simp add: Let_def)
        then show ?thesis by blast
      next
        case x: False
        have "?x \<notin> R" using closed_size [OF R, of ?x] x by blast
        then have "rsize ?x ! 0 = 0" using w1 i1 unfolding work_def by (metis nth_mem)
        then have "halfway R rank src (Suc i) nd1 h1" by (intro halfway_fused [OF 1(2) fi i w1 refl keeps_refl]) simp
        from 1(1) [OF pending_less [OF fi i refl] this] obtain kr r where q: "raster_regions kr msk src (Suc i) nd1 h1 = Some r" by blast
        let ?k = "max kf kr"
        have "raster_regions (Suc ?k) msk src i nd h = Some r"
          using False x fuse_input_more [OF f, of ?k] raster_regions_more [OF q, of ?k] by (simp add: Let_def)
        then show ?thesis by blast
      qed
    qed
  qed
  show ?case
  proof (cases "\<not> virtualMemory (rdesc g src) \<or> zeroDim (rdesc g src)")
    case True
    then have "raster_create (Suc 0) msk src g = Some g" by simp
    then show ?thesis by blast
  next
    case False
    then have "halfway R rank src 0 False g" using less.prems unfolding halfway_def work_def below_def by auto
    from inner [OF this] obtain k nd g1 where q: "raster_regions k msk src 0 False g = Some (nd, g1)" by auto
    have "raster_create (Suc k) msk src g = Some (getRasterCacheCreate src (if nd then drop_empty src g1 else g1))" using False q by simp
    then show ?thesis by blast
  qed
qed

end
