(* ===== verification/Raster_Claims.thy ===== *)
theory Raster_Claims
  imports Raster_Emit
begin

text \<open>
  The property of the raster commands, and the contiguous copies as a set of regions it holds for.
\<close>

section \<open>Contiguous copies\<close>












section \<open>Emitting a graph of virtual tensors\<close>










end
