(* ===== verification/Quant_Bits.thy ===== *)
theory Quant_Bits
  imports Prelude "HOL-Library.Word"
begin

unbundle bit_operations_syntax

text \<open>
  Packing of small values into bytes: \<open>FillBuffer\<close> of \<open>source/core/IDSTEncoder.hpp\<close> and
  \<open>SplitBufToArray\<close> of \<open>source/core/ConvolutionCommon.cpp\<close>. A \<open>char\<close> of either sign is an \<open>8 word\<close>.
  The first value of a buffer has the highest bits of the first byte.
\<close>

type_synonym byte = "8 word"

section \<open>The model\<close>

definition low_mask :: "nat \<Rightarrow> byte" where
  "low_mask iNeedBits = word_of_nat (2 ^ iNeedBits - 1)"

text \<open>
  One round of the loop: \<open>tmp\<close> is the byte the pointer stands at and \<open>iOffset\<close> the number of bits behind it.
\<close>

definition FillBuffer_step :: "nat \<Rightarrow> byte \<Rightarrow> byte list \<times> nat \<times> nat \<Rightarrow> byte list \<times> nat \<times> nat" where
  "FillBuffer_step iNeedBits value = (\<lambda>(buf, tmp, iOffset).
     (let v = value AND low_mask iNeedBits;
          uShift = 8 - int iNeedBits - int (iOffset mod 8);
          i = tmp + iOffset div 8;
          buf' = (if uShift < 0 then
                    (let buf1 = buf[i := buf ! i OR drop_bit (nat (- uShift)) v]
                     in buf1[i + 1 := buf1 ! (i + 1) OR push_bit (nat (8 + uShift)) v])
                  else buf[i := buf ! i OR push_bit (nat uShift) v]);
          iOffset' = iOffset + iNeedBits
      in if iOffset' mod 8 = 0 then (buf', tmp + iOffset' div 8, 0) else (buf', tmp, iOffset')))"

definition FillBuffer :: "nat \<Rightarrow> byte list \<Rightarrow> nat \<Rightarrow> byte list" where
  "FillBuffer buf_len arr iNeedBits = fst (fold (FillBuffer_step iNeedBits) arr (replicate buf_len 0, 0, 0))"

definition split_value :: "byte list \<Rightarrow> nat \<Rightarrow> nat \<Rightarrow> nat \<Rightarrow> byte" where
  "split_value buf iNeedBits tmp iOffset =
     (let cMask = low_mask iNeedBits;
          uShift = 8 - int iNeedBits - int (iOffset mod 8);
          i = tmp + iOffset div 8
      in if uShift < 0 then
           (push_bit (nat (- uShift)) (buf ! i) AND cMask) OR (drop_bit (nat (8 + uShift)) (buf ! (i + 1)) AND cMask)
         else drop_bit (nat uShift) (buf ! i) AND cMask)"

primrec split_from :: "byte list \<Rightarrow> nat \<Rightarrow> nat \<Rightarrow> nat \<Rightarrow> nat \<Rightarrow> byte list" where
  "split_from buf iNeedBits 0 tmp iOffset = []"
| "split_from buf iNeedBits (Suc n) tmp iOffset =
     (let iOffset' = iOffset + iNeedBits
      in split_value buf iNeedBits tmp iOffset #
         (if iOffset' mod 8 = 0 then split_from buf iNeedBits n (tmp + iOffset' div 8) 0
          else split_from buf iNeedBits n tmp iOffset'))"

definition SplitBufToArray :: "byte list \<Rightarrow> nat \<Rightarrow> nat \<Rightarrow> byte list" where
  "SplitBufToArray buf arrLen iNeedBits = split_from buf iNeedBits arrLen 0 0"

section \<open>The stream of bits\<close>

definition sbit :: "byte list \<Rightarrow> nat \<Rightarrow> bool" where
  "sbit buf k \<longleftrightarrow> bit (buf ! (k div 8)) (7 - k mod 8)"

lemma bit_low_mask: "b \<le> 8 \<Longrightarrow> bit (low_mask b) n \<longleftrightarrow> n < b"
proof -
  assume b: "b \<le> 8"
  have "low_mask b = mask b"
    by (simp add: low_mask_def mask_eq_exp_minus_1 of_nat_diff)
  then show ?thesis using b by (auto simp: bit_mask_iff)
qed

lemma position_split:
  fixes tmp iOffset :: nat
  shows "(8 * tmp + iOffset) div 8 = tmp + iOffset div 8" "(8 * tmp + iOffset) mod 8 = iOffset mod 8"
  by simp_all

lemma split_value_bit:
  assumes b: "1 \<le> b" "b \<le> 8"
  shows "bit (split_value buf b tmp off) j \<longleftrightarrow> j < b \<and> sbit buf (8 * tmp + off + (b - 1 - j))"
proof (cases "j < b")
  case True
  define q where "q = off mod 8"
  define i where "i = tmp + off div 8"
  have q: "q < 8" by (simp add: q_def)
  have pos: "8 * tmp + off = 8 * i + q" unfolding i_def q_def by simp
  show ?thesis
  proof (cases "b + q \<le> 8")
    case le: True
    then have s: "\<not> 8 - int b - int q < 0" "nat (8 - int b - int q) = 8 - b - q" by auto
    have d: "(8 * i + q + (b - 1 - j)) div 8 = i" "(8 * i + q + (b - 1 - j)) mod 8 = q + (b - 1 - j)"
      using le True by (simp_all add: div_nat_eqI mod_nat_eqI)
    have "7 - (q + (b - 1 - j)) = 8 - b - q + j" using le True by simp
    then show ?thesis using True b s d
      by (simp add: split_value_def Let_def q_def [symmetric] i_def [symmetric] bit_and_iff bit_low_mask bit_drop_bit_eq sbit_def pos)
  next
    case False
    then have s: "8 - int b - int q < 0" "nat (- (8 - int b - int q)) = b + q - 8" "nat (8 + (8 - int b - int q)) = 16 - b - q"
      using b q by auto
    show ?thesis
    proof (cases "q + (b - 1 - j) < 8")
      case lt: True
      have d: "(8 * i + q + (b - 1 - j)) div 8 = i" "(8 * i + q + (b - 1 - j)) mod 8 = q + (b - 1 - j)"
        using lt by (simp_all add: div_nat_eqI mod_nat_eqI)
      have e: "7 - (q + (b - 1 - j)) = j - (b + q - 8)" "b + q - 8 \<le> j" "8 \<le> 16 - b - q + j" using lt True b False by simp_all
      have "\<not> bit (buf ! (i + 1)) (16 - b - q + j)" using e(3) bit_imp_le_length [of "buf ! (i + 1)" "16 - b - q + j"] by auto
      then show ?thesis using True b s d e
        by (simp add: split_value_def Let_def q_def [symmetric] i_def [symmetric] bit_and_iff bit_or_iff bit_low_mask bit_drop_bit_eq
            bit_push_bit_iff sbit_def pos)
    next
      case ge: False
      have d: "(8 * i + q + (b - 1 - j)) div 8 = i + 1" "(8 * i + q + (b - 1 - j)) mod 8 = q + (b - 1 - j) - 8"
        using ge q b by (simp_all add: div_nat_eqI mod_nat_eqI)
      have e: "7 - (q + (b - 1 - j) - 8) = 16 - b - q + j" "\<not> b + q - 8 \<le> j" using ge True b q by simp_all
      show ?thesis using True b s d e
        by (simp add: split_value_def Let_def q_def [symmetric] i_def [symmetric] bit_and_iff bit_or_iff bit_low_mask bit_drop_bit_eq
            bit_push_bit_iff sbit_def pos)
    qed
  qed
next
  case False
  then show ?thesis using b by (simp add: split_value_def Let_def bit_and_iff bit_or_iff bit_low_mask)
qed

lemma fill_step_bits:
  assumes b: "1 \<le> b" "b \<le> 8" and room: "8 * tmp + off + b \<le> 8 * length buf"
    and step: "FillBuffer_step b v (buf, tmp, off) = (buf', tmp', off')"
  shows "length buf' = length buf" and "8 * tmp' + off' = 8 * tmp + off + b"
    and "sbit buf' k \<longleftrightarrow> sbit buf k \<or> (8 * tmp + off \<le> k \<and> k < 8 * tmp + off + b \<and> bit v (b - 1 - (k - (8 * tmp + off))))"
proof -
  define q where "q = off mod 8"
  define i where "i = tmp + off div 8"
  define w where "w = v AND low_mask b"
  have q: "q < 8" by (simp add: q_def)
  have pos: "8 * tmp + off = 8 * i + q" unfolding i_def q_def by simp
  have i: "i < length buf" using room b unfolding pos by simp
  have w: "bit w n \<longleftrightarrow> n < b \<and> bit v n" for n using b by (auto simp: w_def bit_and_iff bit_low_mask)
  have buf': "buf' = (if 8 < b + q then buf[i := buf ! i OR drop_bit (b + q - 8) w, i + 1 := buf ! (i + 1) OR push_bit (16 - b - q) w]
      else buf[i := buf ! i OR push_bit (8 - b - q) w])"
  proof -
    have "nat (int q - (8 - int b)) = b + q - 8" "nat (16 + (- int b - int q)) = 16 - b - q" "nat (8 - int b - int q) = 8 - b - q" by linarith+
    then show ?thesis using step by (auto simp: FillBuffer_step_def Let_def q_def [symmetric] i_def [symmetric] w_def [symmetric] split: if_splits)
  qed
  show "length buf' = length buf" by (simp add: buf')
  show "8 * tmp' + off' = 8 * tmp + off + b" using step by (auto simp: FillBuffer_step_def Let_def split: if_splits)
  define j r where "j = k div 8" and "r = k mod 8"
  have k: "k = 8 * j + r" "r < 8" by (simp_all add: j_def r_def)
  show "sbit buf' k \<longleftrightarrow> sbit buf k \<or> (8 * tmp + off \<le> k \<and> k < 8 * tmp + off + b \<and> bit v (b - 1 - (k - (8 * tmp + off))))"
  proof (cases "8 < b + q")
    case False
    have "sbit buf' k \<longleftrightarrow> sbit buf k \<or> (j = i \<and> 8 - b - q \<le> 7 - r \<and> bit w (7 - r - (8 - b - q)))"
      using False i by (auto simp: buf' sbit_def j_def [symmetric] r_def [symmetric] nth_list_update bit_or_iff bit_push_bit_iff)
    moreover have "j = i \<and> 8 - b - q \<le> 7 - r \<and> bit w (7 - r - (8 - b - q)) \<longleftrightarrow>
        8 * i + q \<le> k \<and> k < 8 * i + q + b \<and> bit v (b - 1 - (k - (8 * i + q)))" (is "?L \<longleftrightarrow> ?R")
    proof
      assume ?L
      then have l: "j = i" "8 - b - q \<le> 7 - r" "7 - r - (8 - b - q) < b" "bit v (7 - r - (8 - b - q))" by (auto simp: w)
      then have "q \<le> r" "r < q + b" using False k(2) by linarith+
      moreover from this have "b - 1 - (r - q) = 7 - r - (8 - b - q)" using False k(2) by linarith
      ultimately show ?R using l by (simp add: k(1))
    next
      assume R: ?R
      then have "j = i" using k False b by linarith
      then have l: "q \<le> r" "r < q + b" using R by (simp_all add: k(1))
      then have e: "b - 1 - (r - q) = 7 - r - (8 - b - q)" "7 - r - (8 - b - q) < b" "8 - b - q \<le> 7 - r" using False k(2) by linarith+
      then show ?L using R \<open>j = i\<close> by (simp add: k(1) w)
    qed
    ultimately show ?thesis by (simp add: pos)
  next
    case True
    then have i': "i + 1 < length buf" using room b unfolding pos by linarith
    have "sbit buf' k \<longleftrightarrow> sbit buf k \<or> (j = i \<and> bit w (b + q - 8 + (7 - r))) \<or> (j = i + 1 \<and> 16 - b - q \<le> 7 - r \<and> bit w (7 - r - (16 - b - q)))"
      using True i i' by (auto simp: buf' sbit_def j_def [symmetric] r_def [symmetric] nth_list_update bit_or_iff bit_push_bit_iff bit_drop_bit_eq)
    moreover have "(j = i \<and> bit w (b + q - 8 + (7 - r))) \<or> (j = i + 1 \<and> 16 - b - q \<le> 7 - r \<and> bit w (7 - r - (16 - b - q))) \<longleftrightarrow>
        8 * i + q \<le> k \<and> k < 8 * i + q + b \<and> bit v (b - 1 - (k - (8 * i + q)))" (is "?L \<longleftrightarrow> ?R")
    proof
      assume ?L
      then show ?R
      proof (elim disjE conjE)
        assume "j = i" "bit w (b + q - 8 + (7 - r))"
        moreover from this have "q \<le> r" using True k(2) w by fastforce
        moreover from this have "b - 1 - (r - q) = b + q - 8 + (7 - r)" using True k(2) q by linarith
        ultimately show ?R using True k(2) by (simp add: k(1) w)
      next
        assume a: "j = i + 1" "16 - b - q \<le> 7 - r" "bit w (7 - r - (16 - b - q))"
        then have "k - (8 * i + q) = 8 + r - q" using q by (simp add: k(1))
        moreover have "b - 1 - (8 + r - q) = 7 - r - (16 - b - q)" "r + 8 < q + b" using a(2) True k(2) q b by linarith+
        ultimately show ?R using a q by (simp add: k(1) w)
      qed
    next
      assume R: ?R
      then consider "j = i" | "j = i + 1" using k q b by linarith
      then show ?L
      proof cases
        case 1
        then have "q \<le> r" using R by (simp add: k(1))
        then have "b - 1 - (r - q) = b + q - 8 + (7 - r)" "b + q - 8 + (7 - r) < b" using True k(2) q by linarith+
        then show ?L using R 1 by (simp add: k(1) w)
      next
        case 2
        then have e: "k - (8 * i + q) = 8 + r - q" "r + 8 < q + b" using R q by (simp_all add: k(1))
        then have "b - 1 - (8 + r - q) = 7 - r - (16 - b - q)" "7 - r - (16 - b - q) < b" "16 - b - q \<le> 7 - r" using True k(2) q b by linarith+
        then show ?L using R 2 by (simp add: e w)
      qed
    qed
    ultimately show ?thesis by (simp add: pos)
  qed
qed

lemma fill_bits:
  assumes b: "1 \<le> b" "b \<le> 8" and room: "8 * tmp + off + b * length arr \<le> 8 * length buf"
  shows "sbit (fst (fold (FillBuffer_step b) arr (buf, tmp, off))) k \<longleftrightarrow> sbit buf k \<or>
     (\<exists>m < length arr. 8 * tmp + off + b * m \<le> k \<and> k < 8 * tmp + off + b * m + b \<and> bit (arr ! m) (b - 1 - (k - (8 * tmp + off + b * m))))"
  using room
proof (induction arr arbitrary: buf tmp off)
  case (Cons v arr)
  obtain buf' tmp' off' where s: "FillBuffer_step b v (buf, tmp, off) = (buf', tmp', off')" by (metis prod_cases3)
  have "8 * tmp + off + b \<le> 8 * length buf" using Cons.prems by simp
  note f = fill_step_bits [OF b this s]
  have "8 * tmp' + off' + b * length arr \<le> 8 * length buf'" using Cons.prems by (simp add: f(1,2))
  note IH = Cons.IH [OF this]
  have ex: "(\<exists>m < length (v # arr). P m) \<longleftrightarrow> P 0 \<or> (\<exists>m < length arr. P (Suc m))" for P
    by (simp add: Ex_less_Suc2)
  show ?case unfolding ex using IH by (simp add: s f(3) f(2) add.assoc)
qed simp

lemma split_from_nth:
  assumes "m < n"
  shows "length (split_from buf b n tmp off) = n \<and>
    (\<exists>tmp' off'. split_from buf b n tmp off ! m = split_value buf b tmp' off' \<and> 8 * tmp' + off' = 8 * tmp + off + b * m)"
  using assms
proof (induction n arbitrary: tmp off m)
  case (Suc n)
  show ?case
  proof (cases m)
    case 0
    have "length (split_from buf b n t o') = n" for t o' using Suc.IH by (cases n) auto
    then show ?thesis using 0 by (auto simp: Let_def)
  next
    case (Suc m')
    define t o' where "t = (if (off + b) mod 8 = 0 then tmp + (off + b) div 8 else tmp)"
      and "o' = (if (off + b) mod 8 = 0 then 0 else off + b)"
    have r: "split_from buf b (Suc n) tmp off = split_value buf b tmp off # split_from buf b n t o'"
      by (simp add: t_def o'_def Let_def)
    have p: "8 * t + o' = 8 * tmp + off + b" by (auto simp: t_def o'_def)
    from Suc.IH [of m' t o'] Suc.prems show ?thesis unfolding r p by (simp add: Suc add.assoc)
  qed
qed simp

text \<open>What was packed is read back, up to the bits that do not fit.\<close>

lemma split_fill:
  assumes b: "1 \<le> b" "b \<le> 8" and room: "b * length arr \<le> 8 * n"
  shows "SplitBufToArray (FillBuffer n arr b) (length arr) b = map (\<lambda>v. v AND low_mask b) arr"
proof (rule nth_equalityI)
  let ?buf = "FillBuffer n arr b"
  show l: "length (SplitBufToArray ?buf (length arr) b) = length (map (\<lambda>v. v AND low_mask b) arr)"
    using split_from_nth [of 0 "length arr" ?buf b 0 0] by (cases "arr = []") (auto simp: SplitBufToArray_def)
  fix m assume "m < length (SplitBufToArray ?buf (length arr) b)"
  then have m: "m < length arr" using l by simp
  have sb: "sbit ?buf k \<longleftrightarrow> (\<exists>m < length arr. b * m \<le> k \<and> k < b * m + b \<and> bit (arr ! m) (b - 1 - (k - b * m)))" if "k < 8 * n" for k
    using fill_bits [OF b, of 0 0 arr "replicate n 0" k] room that
    by (simp add: FillBuffer_def) (simp add: sbit_def less_mult_imp_div_less mult.commute)
  obtain t o' where t: "SplitBufToArray ?buf (length arr) b ! m = split_value ?buf b t o'" "8 * t + o' = b * m"
    using split_from_nth [OF m, of ?buf b 0 0] by (auto simp: SplitBufToArray_def)
  have top: "b * m + b \<le> 8 * n" using m room by (metis Suc_leI le_trans mult_Suc_right add.commute mult_le_mono2)
  show "SplitBufToArray ?buf (length arr) b ! m = map (\<lambda>v. v AND low_mask b) arr ! m"
  proof (rule bit_eqI)
    fix j
    have "sbit ?buf (b * m + (b - 1 - j)) \<longleftrightarrow> bit (arr ! m) j" if j: "j < b"
    proof -
      have u: "m' = m" if "b * m' \<le> b * m + (b - 1 - j)" "b * m + (b - 1 - j) < b * m' + b" for m'
      proof -
        have "(b * m + (b - 1 - j)) div b = m'" using that by (intro div_nat_eqI) (simp_all add: mult.commute)
        moreover have "(b * m + (b - 1 - j)) div b = m" using j by (intro div_nat_eqI) (simp_all add: mult.commute)
        ultimately show ?thesis by simp
      qed
      have "b - 1 - (b - 1 - j) = j" using j by simp
      moreover have "b * m + (b - 1 - j) < 8 * n" using top j by linarith
      ultimately show ?thesis using sb u m j by fastforce
    qed
    then show "bit (SplitBufToArray ?buf (length arr) b ! m) j \<longleftrightarrow> bit (map (\<lambda>v. v AND low_mask b) arr ! m) j"
      using m b by (auto simp: t split_value_bit bit_and_iff bit_low_mask)
  qed
qed

end
