(* ===== verification/Quant_Model.thy ===== *)
theory Quant_Model
  imports Quant_Bits Complex_Main "HOL-Library.Signed_Division"
begin

text \<open>
  Quantised weights: the encoder of \<open>source/core/IDSTEncoder.hpp\<close> and the decoder of
  \<open>source/core/ConvolutionCommon.cpp\<close>. Numbers of type \<open>float\<close> are rationals computed exactly, so the
  rounding of a single operation is not part of the model; the comparisons with \<open>1e-6\<close> and \<open>1e-6f\<close>
  agree on every \<open>float\<close>. Memory allocations succeed. Reading behind the end of the data is \<open>None\<close>.
\<close>

section \<open>Numbers in the byte stream\<close>

text \<open>Integers are written as the little-endian machine has them in memory.\<close>

definition le_bytes :: "nat \<Rightarrow> int \<Rightarrow> byte list" where
  "le_bytes n x = map (\<lambda>i. word_of_int (x div 256 ^ i)) [0..<n]"

primrec le_value :: "byte list \<Rightarrow> int" where
  "le_value [] = 0"
| "le_value (b # bs) = uint b + 256 * le_value bs"

definition loader_read :: "nat \<Rightarrow> byte list \<Rightarrow> (byte list \<times> byte list) option" where
  "loader_read n s = (if n \<le> length s then Some (take n s, drop n s) else None)"

definition WriteBlobDim :: "int list \<Rightarrow> byte list \<times> bool" where
  "WriteBlobDim dims =
     (let useInt32 = (\<exists>d \<in> set dims. 2 ^ 16 - 1 < d)
      in (word_of_nat (length dims) # concat (map (le_bytes (if useInt32 then 4 else 2)) dims), useInt32))"

primrec read_ints :: "nat \<Rightarrow> nat \<Rightarrow> byte list \<Rightarrow> int list" where
  "read_ints w 0 s = []"
| "read_ints w (Suc n) s = le_value (take w s) # read_ints w n (drop w s)"

definition ReadBlobDim :: "bool \<Rightarrow> nat \<Rightarrow> byte list \<Rightarrow> (int list \<times> byte list) option" where
  "ReadBlobDim useInt32 shapeBufCnt s =
     (case loader_read 1 s of
        None \<Rightarrow> None
      | Some (b, s1) \<Rightarrow>
          (let uSize = unat (b ! 0)
           in if 4 < uSize then Some ([], s1)
              else (let copyLength = min uSize shapeBufCnt; w = (if useInt32 then 4 else 2)
                    in case loader_read (w * copyLength) s1 of
                         None \<Rightarrow> None
                       | Some (d, s2) \<Rightarrow> Some (read_ints w copyLength d, s2))))"

text \<open>The least exponent of a power of two that is not smaller, \<open>ceil(log2(n))\<close>.\<close>

definition ceil_log2 :: "nat \<Rightarrow> nat" where
  "ceil_log2 n = (case find (\<lambda>k. n \<le> 2 ^ k) [0..<32] of Some k \<Rightarrow> k | None \<Rightarrow> 32)"

definition atLestBitsCnt :: "32 word \<Rightarrow> nat" where
  "atLestBitsCnt n =
     (case find (\<lambda>i. bit (push_bit i n) 31) [0..<32] of
        Some i \<Rightarrow> 32 - i - (if push_bit 1 (push_bit i n) = 0 then 1 else 0)
      | None \<Rightarrow> 0)"

section \<open>Tables of values\<close>

definition SimpleRank_swap :: "bool \<Rightarrow> nat \<Rightarrow> nat \<Rightarrow> byte list \<Rightarrow> byte list" where
  "SimpleRank_swap up i j data =
     (if (if up then sint (data ! j) < sint (data ! i) else sint (data ! i) < sint (data ! j))
      then data[i := data ! j, j := data ! i] else data)"

definition SimpleRank :: "bool \<Rightarrow> byte list \<Rightarrow> byte list" where
  "SimpleRank up data =
     fold (\<lambda>i. fold (SimpleRank_swap up i) [i + 1..<length data]) [0..<length data] data"

definition InsertSimpleSet :: "nat \<Rightarrow> byte \<Rightarrow> byte list \<Rightarrow> byte list" where
  "InsertSimpleSet maxSize v uniSet = (if maxSize \<le> length uniSet then uniSet else if v \<in> set uniSet then uniSet else uniSet @ [v])"

primrec update_map :: "byte \<Rightarrow> byte \<Rightarrow> (byte \<times> byte) list \<Rightarrow> (byte \<times> byte) list option" where
  "update_map k v [] = None"
| "update_map k v (e # m) = (if fst e = k then Some ((k, v) # m) else map_option ((#) e) (update_map k v m))"

definition InsertMap :: "nat \<Rightarrow> byte \<Rightarrow> byte \<Rightarrow> (byte \<times> byte) list \<Rightarrow> (byte \<times> byte) list" where
  "InsertMap maxCnt k v m =
     (case update_map k v m of Some m' \<Rightarrow> m' | None \<Rightarrow> if maxCnt \<le> length m then m else m @ [(k, v)])"

definition FindInMap :: "(byte \<times> byte) list \<Rightarrow> byte \<Rightarrow> byte \<times> bool" where
  "FindInMap m k = (case map_of m k of Some v \<Rightarrow> (v, True) | None \<Rightarrow> (0, False))"

definition isLinearSample :: "byte list \<Rightarrow> nat \<Rightarrow> bool" where
  "isLinearSample sample b \<longleftrightarrow>
     length sample = 2 ^ b \<and> (\<forall>i < length sample. sint (sample ! i) = int i - 2 ^ (b - 1))"

section \<open>Decoding dense weights\<close>

record int8_common =
  weightMap :: "byte list"
  canUseInt4 :: bool
  canUseInt3 :: bool
  canUseInt2 :: bool
  originBits :: nat

definition new_int8_common :: int8_common where
  "new_int8_common = \<lparr>weightMap = [], canUseInt4 = False, canUseInt3 = False, canUseInt2 = False, originBits = 8\<rparr>"

text \<open>The result of a decoder: the bytes (none for the null pointer), the length it reports, and the table.\<close>

type_synonym decoded = "byte list option \<times> nat \<times> int8_common"

definition ReadQuanInfo :: "bool \<Rightarrow> byte list \<Rightarrow> int8_common \<Rightarrow> (nat \<times> int8_common) option" where
  "ReadQuanInfo shapeInt32 s result =
     (case ReadBlobDim shapeInt32 32 s of
        None \<Rightarrow> None
      | Some (shape, s1) \<Rightarrow>
          if shape = [] \<or> 32 < length shape then Some (1, result)
          else (case loader_read 1 s1 of
             None \<Rightarrow> None
           | Some (c, s2) \<Rightarrow>
               (let sampleCnt = (if unat (c ! 0) = 0 then 256 else unat (c ! 0))
                in case loader_read sampleCnt s2 of
                     None \<Rightarrow> None
                   | Some (samples, s3) \<Rightarrow>
                       Some (nat (prod_list shape mod 2 ^ 64),
                         result\<lparr>weightMap := SimpleRank True samples, canUseInt4 := (atLestBitsCnt (word_of_nat sampleCnt) = 4)\<rparr>))))"

text \<open>Two values of four bits, the first in the high half.\<close>

definition nibbles :: "byte list \<Rightarrow> byte list" where
  "nibbles idxBuf = concat (map (\<lambda>v. [word_of_int (uint v div 16 - 8), word_of_int (uint v mod 16 - 8)]) idxBuf)"

definition pack_nibbles :: "nat \<Rightarrow> byte list \<Rightarrow> byte list" where
  "pack_nibbles n blob = map (\<lambda>i. word_of_int (push_bit 4 (sint (blob ! (2 * i)) + 8) + (sint (blob ! (2 * i + 1)) + 8))) [0..<n]"

primrec lookup_samples :: "byte list \<Rightarrow> byte list \<Rightarrow> byte list \<times> bool" where
  "lookup_samples samples [] = ([], True)"
| "lookup_samples samples (i # is) =
     (if length samples \<le> unat i then ([], False)
      else (let (r, success) = lookup_samples samples is in (samples ! unat i # r, success)))"

definition pad_blob :: "nat \<Rightarrow> byte list \<Rightarrow> byte list" where
  "pad_blob n xs = xs @ replicate ((n + 1) div 2 * 2 - length xs) 0"

definition decode_indices ::
  "nat \<Rightarrow> bool \<Rightarrow> bool \<Rightarrow> bool \<Rightarrow> nat \<Rightarrow> byte list \<Rightarrow> byte list \<Rightarrow> int8_common \<Rightarrow> decoded" where
  "decode_indices idxBitsCnt isLinear forceQuant canSetOutputPtr dataCnt samples idxBuf result =
     (let isBlobOutput = (\<not> (originBits result \<le> 4 \<and> forceQuant));
          idxBytes = SplitBufToArray idxBuf dataCnt idxBitsCnt;
          (vals, success) =
            (if isLinear then (map (\<lambda>v. word_of_int (uint v - 2 ^ (idxBitsCnt - 1))) idxBytes, True)
             else lookup_samples samples idxBytes);
          blob = pad_blob dataCnt vals
      in if \<not> success \<and> \<not> (isBlobOutput \<and> canSetOutputPtr) then (None, 0, result)
         else if originBits result = 4 \<and> forceQuant then
           (Some (pack_nibbles ((dataCnt + 1) div 2) blob), dataCnt, result\<lparr>canUseInt4 := True\<rparr>)
         else if originBits result = 2 \<and> forceQuant then (Some blob, dataCnt, result\<lparr>canUseInt2 := True\<rparr>)
         else if originBits result = 3 \<and> forceQuant then (Some blob, dataCnt, result\<lparr>canUseInt3 := True\<rparr>)
         else (Some blob, dataCnt, result))"

definition ReadQuanData ::
  "bool \<Rightarrow> bool \<Rightarrow> bool \<Rightarrow> bool \<Rightarrow> bool \<Rightarrow> byte list \<Rightarrow> int8_common \<Rightarrow> (decoded \<times> byte list) option" where
  "ReadQuanData shapeInt32 has_scaleInt forceQuant forceFloat hasOutput s result =
     (case ReadBlobDim shapeInt32 32 s of
        None \<Rightarrow> None
      | Some (shape, s1) \<Rightarrow>
          if shape = [] \<or> 32 < length shape then Some ((None, 0, result), s1)
          else (case loader_read 1 s1 of
             None \<Rightarrow> None
           | Some (c, s2) \<Rightarrow>
               (let dataCnt = nat (prod_list shape mod 2 ^ 64);
                    sampleCnt = (if unat (c ! 0) = 0 then 256 else unat (c ! 0))
                in case loader_read sampleCnt s2 of
                     None \<Rightarrow> None
                   | Some (read, s3) \<Rightarrow>
                       (let samples = SimpleRank True read;
                            idxBitsCnt = max 1 (atLestBitsCnt (word_of_nat sampleCnt));
                            isLinear = isLinearSample samples idxBitsCnt;
                            canSetOutputPtr = (hasOutput \<and> \<not> (\<not> forceQuant \<and> (forceFloat \<or> \<not> has_scaleInt)));
                            idxBufSize = (idxBitsCnt * dataCnt + 7) div 8
                        in case loader_read idxBufSize s3 of
                             None \<Rightarrow> None
                           | Some (idxBuf, s4) \<Rightarrow>
                               (let result1 = result\<lparr>weightMap := samples\<rparr>;
                                    result2 = (if isLinear then result1\<lparr>originBits := idxBitsCnt\<rparr> else result1)
                                in if isLinear \<and> (idxBitsCnt = 4 \<or> idxBitsCnt = 8) then
                                     (if \<not> forceQuant \<and> idxBitsCnt = 4 then Some ((Some (nibbles idxBuf), dataCnt, result2), s4)
                                      else if idxBitsCnt = 4 then Some ((Some idxBuf, idxBufSize, result2\<lparr>canUseInt4 := True\<rparr>), s4)
                                      else Some ((Some (map (\<lambda>v. word_of_int (sint v - 128)) idxBuf), idxBufSize, result2), s4))
                                   else Some (decode_indices idxBitsCnt isLinear forceQuant canSetOutputPtr dataCnt samples idxBuf result2, s4))))))"

section \<open>Decoding sparse weights\<close>

definition c_round :: "rat \<Rightarrow> int" where
  "c_round x = (if 0 \<le> x then \<lfloor>x + 1 / 2\<rfloor> else - \<lfloor>- x + 1 / 2\<rfloor>)"

definition has_scale :: "rat \<Rightarrow> bool" where
  "has_scale alpha \<longleftrightarrow> 1 / 1000000 < alpha"

definition zero_quant :: "rat \<Rightarrow> rat \<Rightarrow> int \<Rightarrow> int" where
  "zero_quant mn alpha min_value = (if has_scale alpha then c_round ((0 - mn) / alpha) + min_value else min_value)"

definition store_sparse :: "(byte \<times> byte) list \<Rightarrow> bool \<Rightarrow> byte \<times> byte \<Rightarrow> (byte list \<times> nat) option + unit \<Rightarrow> (byte list \<times> nat) option + unit" where
  "store_sparse m hasOutput = (\<lambda>(step, idx) st.
     (case st of
        Inl (Some (blob, iPreIdx)) \<Rightarrow>
          (let iPreIdx' = iPreIdx + unat step; (v, found) = FindInMap m idx
           in if \<not> found \<and> \<not> hasOutput then Inr ()
              else if iPreIdx' < length blob then Inl (Some (blob[iPreIdx' := v], iPreIdx')) else Inl None)
      | _ \<Rightarrow> st))"

definition sparse_background :: "rat list \<Rightarrow> int list \<Rightarrow> nat \<Rightarrow> nat \<Rightarrow> byte list" where
  "sparse_background alpha shape sz iDataNeedBits =
     (if int (length alpha) = 2 * shape ! 0 then
        concat (map (\<lambda>i. replicate (sz div nat (shape ! 0))
            (word_of_int (zero_quant (alpha ! (2 * i)) (alpha ! (2 * i + 1)) (- (2 ^ (iDataNeedBits - 1))))))
          [0..<nat (shape ! 0)])
      else replicate sz 0)"

definition ReadSparseQuanData :: "bool \<Rightarrow> bool \<Rightarrow> rat list \<Rightarrow> byte list \<Rightarrow> int8_common \<Rightarrow> (decoded \<times> byte list) option" where
  "ReadSparseQuanData useInt32 hasOutput alpha s result =
     (case ReadBlobDim useInt32 32 s of
        None \<Rightarrow> None
      | Some (shape, s1) \<Rightarrow>
     (case loader_read 4 s1 of
        None \<Rightarrow> None
      | Some (n4, s2) \<Rightarrow>
     (case loader_read 1 s2 of
        None \<Rightarrow> None
      | Some (b1, s3) \<Rightarrow>
     (let sz = nat (prod_list shape mod 2 ^ 64); nnz = nat (le_value n4); iIdxNeedBits = unat (b1 ! 0)
      in case loader_read ((iIdxNeedBits * nnz + 7) div 8) s3 of
        None \<Rightarrow> None
      | Some (buf, s4) \<Rightarrow>
     (case loader_read 1 s4 of
        None \<Rightarrow> None
      | Some (c, s5) \<Rightarrow>
     (let ucMapSize = (if unat (c ! 0) = 0 then 256 else unat (c ! 0))
      in case loader_read ucMapSize s5 of
        None \<Rightarrow> None
      | Some (values, s6) \<Rightarrow>
     (let arrIdx = SplitBufToArray buf nnz iIdxNeedBits;
          uniSet = SimpleRank True (fold (InsertSimpleSet 256) values []);
          mapWeight = fold (\<lambda>i. InsertMap 256 (word_of_nat i) (uniSet ! i)) [0..<length uniSet] [];
          iDataNeedBits = max 1 (ceil_log2 ucMapSize)
      in case loader_read ((iDataNeedBits * nnz + 7) div 8) s6 of
        None \<Rightarrow> None
      | Some (dataBuf, s7) \<Rightarrow>
          (let arrWeightIdx = SplitBufToArray dataBuf nnz iDataNeedBits;
               result' = result\<lparr>weightMap := values\<rparr>
           in case fold (store_sparse mapWeight hasOutput) (zip arrIdx arrWeightIdx)
                     (Inl (Some (sparse_background alpha shape sz iDataNeedBits, 0))) of
                Inr _ \<Rightarrow> Some ((None, 0, result'), s7)
              | Inl None \<Rightarrow> None
              | Inl (Some (blob, _)) \<Rightarrow> Some ((Some blob, sz, result'), s7)))))))))"

section \<open>Encoding\<close>

definition weight_set :: "nat \<Rightarrow> int list" where
  "weight_set b = [- (2 ^ (b - 1))..2 ^ (b - 1) - 1]"

definition need_bits :: "nat \<Rightarrow> nat" where
  "need_bits b = max 1 (ceil_log2 (length (weight_set b)))"

text \<open>The part of the stream both dense writers share: \<open>arr\<close> holds the indices into the value set.\<close>

definition write_dense :: "nat \<Rightarrow> nat \<Rightarrow> nat \<Rightarrow> byte list \<Rightarrow> byte list \<times> bool" where
  "write_dense b area channel arr =
     (let iCount = length (weight_set b);
          iNeedBits = need_bits b;
          buf = FillBuffer ((iNeedBits * area * channel + 7) div 8) arr iNeedBits;
          (dims, shapeUseInt32) = WriteBlobDim [int channel, int area]
      in (dims @ [word_of_nat iCount] @ map word_of_int (weight_set b) @ buf, shapeUseInt32))"

definition WriteCQBlobsInt8 :: "byte list \<Rightarrow> nat \<Rightarrow> nat \<Rightarrow> nat \<Rightarrow> byte list \<times> bool" where
  "WriteCQBlobsInt8 weightData area channel b =
     (if 8 < need_bits b then ([], False)
      else write_dense b area channel
        (concat (map (\<lambda>i. map (\<lambda>j. word_of_int (sint (weightData ! (i * area + j)) + 2 ^ (b - 1))) [0..<area]) [0..<channel])))"

text \<open>\<open>fmax(fmin(x, max), min)\<close>, and the quantised value of a weight with and without it.\<close>

definition quantize :: "bool \<Rightarrow> nat \<Rightarrow> rat list \<Rightarrow> nat \<Rightarrow> rat \<Rightarrow> int" where
  "quantize asymmetric b alphaData i w =
     (let min_value = - (2 ^ (b - 1))
      in if asymmetric then
           (let mn = alphaData ! (2 * i); alpha = alphaData ! (2 * i + 1)
            in if has_scale alpha then c_round ((w - mn) / alpha) + min_value else min_value)
         else (let alpha = alphaData ! i in if has_scale alpha then c_round (w / alpha) else 0))"

definition quantize_clamped :: "bool \<Rightarrow> nat \<Rightarrow> rat list \<Rightarrow> nat \<Rightarrow> rat \<Rightarrow> int" where
  "quantize_clamped asymmetric b alphaData i w =
     (let min_value = - (2 ^ (b - 1)); max_value = 2 ^ (b - 1) - 1;
          alpha = (if asymmetric then alphaData ! (2 * i + 1) else alphaData ! i)
      in if has_scale alpha then max (min (quantize asymmetric b alphaData i w) max_value) min_value
         else quantize asymmetric b alphaData i w)"

definition WriteCQBlobs :: "rat list \<Rightarrow> rat list \<Rightarrow> nat \<Rightarrow> nat \<Rightarrow> bool \<Rightarrow> nat \<Rightarrow> byte list \<times> bool" where
  "WriteCQBlobs weightData alphaData area channel asymmetric b =
     (if 8 < need_bits b then ([], False)
      else write_dense b area channel
        (concat (map (\<lambda>i. map (\<lambda>j. word_of_int (quantize_clamped asymmetric b alphaData i (weightData ! (i * area + j)) + 2 ^ (b - 1)))
           [0..<area]) [0..<channel])))"

text \<open>
  The entries of the sparse stream, steps with values: an entry for every value that is not the background,
  and one for the background whenever the step would not fit. \<open>q\<close> gives value and background at a position.
\<close>

definition sparse_step :: "(nat \<Rightarrow> int \<times> int) \<Rightarrow> nat \<Rightarrow> nat \<Rightarrow> nat \<times> (nat \<times> int) list \<Rightarrow> nat \<times> (nat \<times> int) list" where
  "sparse_step q iMaxStep i = (\<lambda>(iPreIdx, out).
     (let (v, zeroQuant) = q i;
          (iPreIdx1, out1) = (if v \<noteq> zeroQuant then (i, out @ [(i - iPreIdx, v)]) else (iPreIdx, out))
      in if iMaxStep \<le> i - iPreIdx1 then (i, out1 @ [(i - iPreIdx1, zeroQuant)]) else (iPreIdx1, out1)))"

definition sparse_entries :: "(nat \<Rightarrow> int \<times> int) \<Rightarrow> nat \<Rightarrow> nat \<Rightarrow> (nat \<times> int) list" where
  "sparse_entries q iMaxStep weightSize = snd (fold (sparse_step q iMaxStep) [0..<weightSize] (0, []))"

definition sparse_quant :: "bool \<Rightarrow> nat \<Rightarrow> rat list \<Rightarrow> nat \<Rightarrow> rat list \<Rightarrow> nat \<Rightarrow> int \<times> int" where
  "sparse_quant asymmetric b alphaData area weightData i =
     (quantize asymmetric b alphaData (i div area) (weightData ! i),
      if asymmetric then zero_quant (alphaData ! (2 * (i div area))) (alphaData ! (2 * (i div area) + 1)) (- (2 ^ (b - 1))) else 0)"

text \<open>\<open>GetSparsity\<close> runs the same loop for the number of entries only; its ratio is not used.\<close>

definition sparsity_step :: "(nat \<Rightarrow> int \<times> int) \<Rightarrow> nat \<Rightarrow> nat \<Rightarrow> nat \<times> nat \<Rightarrow> nat \<times> nat" where
  "sparsity_step q iMaxStep i = (\<lambda>(iPreIdx, nnz).
     (let (v, zeroQuant) = q i;
          (iPreIdx1, nnz1) = (if v \<noteq> zeroQuant then (i, nnz + 1) else (iPreIdx, nnz))
      in if iMaxStep \<le> i - iPreIdx1 then (i, nnz1 + 1) else (iPreIdx1, nnz1)))"

definition GetSparsity :: "(nat \<Rightarrow> int \<times> int) \<Rightarrow> nat \<Rightarrow> nat \<Rightarrow> nat" where
  "GetSparsity q weightSize iMaxStep = snd (fold (sparsity_step q iMaxStep) [0..<weightSize] (0, 0))"

definition GetBestMaxStep :: "(nat \<Rightarrow> int \<times> int) \<Rightarrow> nat \<Rightarrow> nat \<Rightarrow> nat \<times> nat" where
  "GetBestMaxStep q weightSize blobDataSize =
     (let (iMaxStepBits, best_nnz, _) =
        fold (\<lambda>i (bits, best, sz).
            (let nnz = GetSparsity q weightSize (2 ^ i - 1);
                 tmp = (nnz * i + 7) div 8 + (nnz * blobDataSize + 7) div 8
             in if tmp < sz then (i, nnz, tmp) else (bits, best, sz)))
          [2..<9] (0, 0, 1000000000)
      in (iMaxStepBits, best_nnz))"

text \<open>\<open>operator[]\<close> of the map adds the index zero for a value it does not have.\<close>

definition map_weight :: "nat \<Rightarrow> int \<Rightarrow> byte" where
  "map_weight b v = (if - (2 ^ (b - 1)) \<le> v \<and> v < 2 ^ (b - 1) then word_of_int (v + 2 ^ (b - 1)) else 0)"

definition WriteSparseQuanBlobs ::
  "rat list \<Rightarrow> rat list \<Rightarrow> nat \<Rightarrow> nat \<Rightarrow> bool \<Rightarrow> nat \<Rightarrow> (byte list \<times> bool) option" where
  "WriteSparseQuanBlobs weightData alphaData area channel asymmetric b =
     (let iDataNeedBits = need_bits b;
          weightSize = area * channel;
          q = sparse_quant asymmetric b alphaData area weightData;
          (iNeedBits, nnz) = GetBestMaxStep q weightSize iDataNeedBits
      in if nnz = 0 then None
         else (let entries = sparse_entries q (2 ^ iNeedBits - 1) weightSize;
                   buf = FillBuffer ((iNeedBits * nnz + 7) div 8) (map (\<lambda>(step, _). word_of_nat step) entries) iNeedBits;
                   dataBuf = FillBuffer ((iDataNeedBits * nnz + 7) div 8) (map (\<lambda>(_, v). map_weight b v) entries) iDataNeedBits;
                   (dims, shapeUseInt32) = WriteBlobDim [int channel, int area]
               in Some (dims @ le_bytes 4 (int nnz) @ [word_of_nat iNeedBits] @ buf @ [word_of_nat (length (weight_set b))] @
                        map word_of_int (weight_set b) @ dataBuf, shapeUseInt32)))"

record idst_quan =
  idst_type :: nat
  idst_buffer :: "byte list"
  idst_alpha :: "rat list"
  idst_quantScale :: rat
  idst_aMaxOrBits :: nat
  idst_aMin :: int
  idst_readType :: int
  idst_has_scaleInt :: bool
  idst_shapeInt32 :: bool

text \<open>The source of the weights: numbers, or values that are already quantised.\<close>

datatype weight_source = FloatWeight "rat list" | QuantWeight "byte list"

definition idst_encode ::
  "weight_source \<Rightarrow> rat list \<Rightarrow> nat \<Rightarrow> nat \<Rightarrow> bool \<Rightarrow> int \<Rightarrow> nat \<Rightarrow> bool \<Rightarrow> idst_quan" where
  "idst_encode weight scale kernelSize kernelNum asymmetric clampMin b detectSparse =
     (let (typ', buffer, shapeUseInt32) =
        (case weight of
           QuantWeight w \<Rightarrow> (1, WriteCQBlobsInt8 w kernelSize kernelNum b)
         | FloatWeight w \<Rightarrow>
             (let (cq, u) = WriteCQBlobs w scale kernelSize kernelNum asymmetric b
              in if detectSparse then
                   (case WriteSparseQuanBlobs w scale kernelSize kernelNum asymmetric b of
                      None \<Rightarrow> (1, cq, u)
                    | Some (sq, u') \<Rightarrow> if length cq \<le> length sq then (1, cq, u') else (2, sq, u'))
                 else (1, cq, u)))
      in \<lparr>idst_type = typ', idst_buffer = buffer, idst_alpha = scale, idst_quantScale = 1, idst_aMaxOrBits = b,
          idst_aMin = (if asymmetric then clampMin else 0), idst_readType = (if asymmetric then int kernelNum else 0),
          idst_has_scaleInt = False, idst_shapeInt32 = shapeUseInt32\<rparr>)"

section \<open>Loading\<close>

record loaded =
  lweight :: "byte list"
  lalpha :: "rat list"
  lweightFloat :: "rat list option"
  lasymmetric :: bool
  linfo :: int8_common

text \<open>
  The part of \<open>ConvolutionCommon::load\<close> for integer weights that are in the model file itself (the types
  1, 2 and 4 of \<open>IDSTQuan\<close>, not the half floats of type 3), with an \<open>fp32\<close> table of scales and without a
  caller's buffer: the outer option is an undefined read, the inner one the null pointer.
\<close>

definition fold_min :: "rat \<Rightarrow> rat list \<Rightarrow> rat list" where
  "fold_min clampMin alpha = fold (\<lambda>o' a. a[2 * o' := a ! (2 * o') - clampMin * a ! (2 * o' + 1)]) [0..<length alpha div 2] alpha"

definition back_to_float :: "bool \<Rightarrow> rat list \<Rightarrow> nat \<Rightarrow> byte list \<Rightarrow> rat list" where
  "back_to_float asymmetric alpha weightLength w =
     (let outputCount = (if asymmetric then length alpha div 2 else length alpha);
          part = weightLength div outputCount
      in concat (map (\<lambda>o'. map (\<lambda>v.
           (let mn = (if asymmetric then alpha ! (2 * o') else 0); al = (if asymmetric then alpha ! (2 * o' + 1) else alpha ! o')
            in of_int (sint (w ! (o' * part + v))) * al + mn)) [0..<part]) [0..<outputCount]))"

definition idst_load :: "idst_quan \<Rightarrow> bool \<Rightarrow> bool \<Rightarrow> loaded option option" where
  "idst_load quan forceFloat forceInt8 =
     (let alpha = idst_alpha quan;
          decoded =
            (if idst_type quan = 1 then
               ReadQuanData (idst_shapeInt32 quan) (idst_has_scaleInt quan) forceInt8 forceFloat False (idst_buffer quan) new_int8_common
             else if idst_type quan = 2 then
               ReadSparseQuanData (idst_shapeInt32 quan) False alpha (idst_buffer quan) new_int8_common
             else if idst_type quan = 4 then Some ((Some (idst_buffer quan), length (idst_buffer quan), new_int8_common), [])
             else Some ((None, 0, new_int8_common), []));
          oldType4 = (idst_type quan = 4 \<and> idst_aMin quan = 0 \<and> \<bar>idst_quantScale quan\<bar> < 1 / 1000000);
          asymmetric = (idst_readType quan \<noteq> 0 \<or> oldType4)
      in case decoded of
           None \<Rightarrow> None
         | Some ((None, _, _), _) \<Rightarrow> Some None
         | Some ((Some w, weightLength, info), _) \<Rightarrow>
             (let clampMin = (if idst_aMin quan = 0 then - 128 else rat_of_int (idst_aMin quan));
                  alpha1 = (if asymmetric \<and> clampMin < 0 then fold_min clampMin alpha else alpha);
                  alpha2 = (if \<not> idst_has_scaleInt quan \<and> \<not> oldType4 \<and> idst_quantScale quan \<noteq> 1
                            then map (\<lambda>a. a * idst_quantScale quan) alpha1 else alpha1)
              in if forceInt8 \<or> (idst_has_scaleInt quan \<and> \<not> forceFloat) then
                   Some (Some \<lparr>lweight = w, lalpha = alpha2, lweightFloat = None, lasymmetric = asymmetric, linfo = info\<rparr>)
                 else
                   Some (Some \<lparr>lweight = [], lalpha = [], lweightFloat = Some (back_to_float asymmetric alpha2 weightLength w),
                     lasymmetric = asymmetric, linfo = info\<rparr>)))"

text \<open>
  \<open>getQuantBitFromExternalFile\<close>: the width of the indices from the size of the stream. The quotient of two
  \<open>float\<close> numbers is an argument.
\<close>

definition table_size :: "nat \<Rightarrow> nat \<Rightarrow> int" where
  "table_size weightLength n = 2 ^ n + int ((weightLength * n + 7) div 8)"

definition getQuantBitFromExternalFile :: "nat \<Rightarrow> bool \<Rightarrow> nat option \<Rightarrow> nat \<Rightarrow> nat \<Rightarrow> nat \<Rightarrow> nat \<Rightarrow> nat \<Rightarrow> nat" where
  "getQuantBitFromExternalFile estimate external quan_type inputCount outputCount kernelX kernelY buffer_size =
     (if \<not> external \<or> quan_type = None then 0
      else if quan_type = Some 4 then 8
      else if quan_type \<noteq> Some 1 then 0
      else (let weightLength = inputCount * outputCount * kernelX * kernelY;
                upperBound = 1 + (if 65535 < inputCount \<or> 65535 < outputCount then 8 else 4) + 1;
                remain = int buffer_size - upperBound
            in if table_size weightLength estimate \<noteq> remain then
                 (case find (\<lambda>i. table_size weightLength i = remain) [2..<9] of Some i \<Rightarrow> i | None \<Rightarrow> estimate)
               else estimate))"

end
