(* ===== verification/Quant_Dense.thy ===== *)
theory Quant_Dense
  imports Quant_Model "HOL-Library.Multiset"
begin

text \<open>
  What the dense encoder writes, the decoder reads back: the numbers of the header, the sorted table of
  values, and the packed indices in each of the forms the decoder gives them out.
\<close>

section \<open>Numbers\<close>

lemma le_bytes_length [simp]: "length (le_bytes n x) = n"
  by (simp add: le_bytes_def)

lemma le_bytes_Suc: "le_bytes (Suc n) x = word_of_int x # le_bytes n (x div 256)"
proof -
  have "x div 256 ^ Suc i = x div 256 div 256 ^ i" for i by (simp add: zdiv_zmult2_eq)
  then show ?thesis by (simp add: le_bytes_def upt_conv_Cons map_Suc_upt [symmetric] o_def del: upt_Suc)
qed

lemma le_value_bytes: "le_value (le_bytes n x) = x mod 256 ^ n"
proof (induction n arbitrary: x)
  case 0
  then show ?case by (simp add: le_bytes_def)
next
  case (Suc n)
  have "x mod 256 ^ Suc n = x mod 256 + 256 * (x div 256 mod 256 ^ n)" by (simp add: zmod_zmult2_eq)
  then show ?case by (simp add: le_bytes_Suc Suc.IH unsigned_of_int take_bit_eq_mod)
qed

lemma loader_read_append [simp]: "n = length a \<Longrightarrow> loader_read n (a @ s) = Some (a, s)"
  by (simp add: loader_read_def)

lemma loader_read_one [simp]: "loader_read 1 (b # s) = Some ([b], s)" "loader_read (Suc 0) (b # s) = Some ([b], s)"
  by (simp_all add: loader_read_def)

lemma read_ints_bytes:
  assumes "\<And>d. d \<in> set ds \<Longrightarrow> 0 \<le> d \<and> d < 256 ^ w"
  shows "read_ints w (length ds) (concat (map (le_bytes w) ds)) = ds"
  using assms by (induction ds) (simp_all add: le_value_bytes)

lemma ReadBlobDim_Write:
  assumes "length ds \<le> 4" and "\<And>d. d \<in> set ds \<Longrightarrow> 0 \<le> d \<and> d < 2 ^ 32"
  shows "ReadBlobDim (snd (WriteBlobDim ds)) 32 (fst (WriteBlobDim ds) @ s) = Some (ds, s)"
proof -
  have u: "unat (word_of_nat (length ds) :: byte) = length ds" using assms(1) by (simp add: unat_of_nat)
  have l: "length (concat (map (le_bytes w) ds)) = w * length ds" for w by (induction ds) simp_all
  have r: "read_ints w (length ds) (concat (map (le_bytes w) ds)) = ds" if "\<forall>d \<in> set ds. d < 256 ^ w" for w
    by (rule read_ints_bytes) (use assms(2) that in blast)
  show ?thesis
  proof (cases "\<exists>d \<in> set ds. 2 ^ 16 - 1 < d")
    case True
    have "\<forall>d \<in> set ds. d < 256 ^ 4" using assms(2) by force
    then show ?thesis using True assms(1) l [of 4] r [of 4] by (simp add: ReadBlobDim_def WriteBlobDim_def Let_def min_def u)
  next
    case False
    then have "\<forall>d \<in> set ds. d < 256 ^ 2" by force
    then show ?thesis using False assms(1) l [of 2] r [of 2] by (simp add: ReadBlobDim_def WriteBlobDim_def Let_def min_def u)
  qed
qed

lemma ceil_log2_power: "b \<in> {0..8} \<Longrightarrow> ceil_log2 (2 ^ b) = b"
proof -
  assume "b \<in> {0..8}"
  then consider "b = 0" | "b = 1" | "b = 2" | "b = 3" | "b = 4" | "b = 5" | "b = 6" | "b = 7" | "b = 8" by fastforce
  then show ?thesis by cases (simp_all add: ceil_log2_def upt_rec)
qed

lemma atLestBitsCnt_power: "b \<in> {1..8} \<Longrightarrow> atLestBitsCnt (word_of_nat (2 ^ b)) = b"
proof -
  assume "b \<in> {1..8}"
  then consider "b = 1" | "b = 2" | "b = 3" | "b = 4" | "b = 5" | "b = 6" | "b = 7" | "b = 8" by fastforce
  then show ?thesis by cases (hypsubst, code_simp)+
qed

section \<open>The table of values\<close>

lemma swap_length [simp]: "length (SimpleRank_swap up i j d) = length d"
  by (simp add: SimpleRank_swap_def)

lemma swap_mset: "i < length d \<Longrightarrow> j < length d \<Longrightarrow> mset (SimpleRank_swap up i j d) = mset d"
  by (simp add: SimpleRank_swap_def mset_swap)

text \<open>After the inner loop the smallest of the remaining values is in front.\<close>

lemma rank_inner:
  assumes "i < m" and "m \<le> length d"
  shows "length (fold (SimpleRank_swap True i) [i + 1..<m] d) = length d \<and>
    mset (fold (SimpleRank_swap True i) [i + 1..<m] d) = mset d \<and>
    (\<forall>k < i. fold (SimpleRank_swap True i) [i + 1..<m] d ! k = d ! k) \<and>
    (\<forall>k. i \<le> k \<and> k < m \<longrightarrow> sint (fold (SimpleRank_swap True i) [i + 1..<m] d ! i) \<le> sint (fold (SimpleRank_swap True i) [i + 1..<m] d ! k)) \<and>
    (\<forall>k. m \<le> k \<and> k < length d \<longrightarrow> fold (SimpleRank_swap True i) [i + 1..<m] d ! k = d ! k)"
  using assms
proof (induction m)
  case (Suc m)
  show ?case
  proof (cases "i = m")
    case True
    then show ?thesis by (auto simp: le_less_Suc_eq)
  next
    case False
    then have im: "i < m" "m < length d" using Suc.prems by simp_all
    define e where "e = fold (SimpleRank_swap True i) [i + 1..<m] d"
    have f: "fold (SimpleRank_swap True i) [i + 1..<Suc m] d = SimpleRank_swap True i m e" using im by (simp add: e_def)
    have IH: "length e = length d" "mset e = mset d" "\<forall>k < i. e ! k = d ! k" "\<forall>k. i \<le> k \<and> k < m \<longrightarrow> sint (e ! i) \<le> sint (e ! k)"
      "\<forall>k. m \<le> k \<and> k < length d \<longrightarrow> e ! k = d ! k" using Suc.IH im unfolding e_def [symmetric] by simp_all
    have "mset (SimpleRank_swap True i m e) = mset d" using swap_mset [of i e m True] IH(1,2) im by simp
    moreover have "SimpleRank_swap True i m e ! k = d ! k" if "k < i" for k
      using that im IH(1,3) by (simp add: SimpleRank_swap_def nth_list_update)
    moreover have "sint (SimpleRank_swap True i m e ! i) \<le> sint (SimpleRank_swap True i m e ! k)" if "i \<le> k" "k < Suc m" for k
      using that im IH(1) IH(4)[rule_format, of k] by (auto simp: SimpleRank_swap_def nth_list_update less_Suc_eq)
    moreover have "SimpleRank_swap True i m e ! k = d ! k" if "Suc m \<le> k" "k < length d" for k
      using that im IH(1,5) by (simp add: SimpleRank_swap_def nth_list_update)
    ultimately show ?thesis unfolding f using IH(1) by simp
  qed
qed simp

lemma rank_outer:
  assumes "m \<le> length d"
  shows "length (fold (\<lambda>i. fold (SimpleRank_swap True i) [i + 1..<length d]) [0..<m] d) = length d \<and>
    mset (fold (\<lambda>i. fold (SimpleRank_swap True i) [i + 1..<length d]) [0..<m] d) = mset d \<and>
    (\<forall>k < m. \<forall>x \<in> set (drop k (fold (\<lambda>i. fold (SimpleRank_swap True i) [i + 1..<length d]) [0..<m] d)).
       sint (fold (\<lambda>i. fold (SimpleRank_swap True i) [i + 1..<length d]) [0..<m] d ! k) \<le> sint x)"
  using assms
proof (induction m)
  case (Suc m)
  define e where "e = fold (\<lambda>i. fold (SimpleRank_swap True i) [i + 1..<length d]) [0..<m] d"
  have IH: "length e = length d" "mset e = mset d" "\<forall>k < m. \<forall>x \<in> set (drop k e). sint (e ! k) \<le> sint x"
    using Suc unfolding e_def [symmetric] by simp_all
  define g where "g = fold (SimpleRank_swap True m) [m + 1..<length e] e"
  have g: "length g = length e" "mset g = mset e" "\<forall>k < m. g ! k = e ! k" "\<forall>k. m \<le> k \<and> k < length e \<longrightarrow> sint (g ! m) \<le> sint (g ! k)"
    using rank_inner [of m "length e" e] Suc.prems IH(1) unfolding g_def [symmetric] by simp_all
  have take: "take m g = take m e" using g(1,3) Suc.prems IH(1) by (intro nth_equalityI) simp_all
  have drop: "mset (drop k g) = mset (drop k e)" if "k \<le> m" for k
  proof -
    have "take k g = take k e" using arg_cong [OF take, of "take k"] that by (simp add: min_def)
    then show ?thesis using g(2) append_take_drop_id [of k g] append_take_drop_id [of k e] by (metis add_left_cancel mset_append)
  qed
  have "sint (g ! k) \<le> sint x" if k: "k < Suc m" and x: "x \<in> set (drop k g)" for k x
  proof (cases "k = m")
    case True
    then show ?thesis using x g(1,4) by (auto simp: in_set_conv_nth)
  next
    case False
    then have "k < m" using k by simp
    moreover from this have "x \<in> set (drop k e)" using x drop [of k] by (metis less_imp_le set_mset_mset)
    ultimately show ?thesis using IH(3) g(3) by simp
  qed
  moreover have "fold (\<lambda>i. fold (SimpleRank_swap True i) [i + 1..<length d]) [0..<Suc m] d = g"
    unfolding g_def IH(1) by (simp add: e_def)
  ultimately show ?case using g(1,2) IH(1,2) by simp
qed simp

text \<open>The exchange sort of the table is a sort: the values in ascending order, each as often as before.\<close>

lemma SimpleRank_sorts: "map sint (SimpleRank True data) = sort (map sint data)"
proof -
  define e where "e = SimpleRank True data"
  have o': "length e = length data" "mset e = mset data" "\<forall>k < length data. \<forall>x \<in> set (drop k e). sint (e ! k) \<le> sint x"
    using rank_outer [of "length data" data] unfolding e_def SimpleRank_def by simp_all
  have "sorted (map sint e)"
    unfolding sorted_iff_nth_mono
  proof (intro allI impI)
    fix i j assume ij: "i \<le> j" "j < length (map sint e)"
    then have "e ! j \<in> set (drop i e)" by (auto simp: in_set_conv_nth intro!: exI [of _ "j - i"])
    then show "map sint e ! i \<le> map sint e ! j" using o'(1,3) ij by simp
  qed
  moreover have "mset (map sint e) = mset (map sint data)" using o'(2) by simp
  ultimately show ?thesis unfolding e_def by (metis properties_for_sort)
qed

lemma sint_byte_inj: "map sint xs = map sint ys \<Longrightarrow> xs = (ys :: byte list)"
  by (metis inj_map_eq_map signed_word_eqI injI)

lemma sint_small: "- 128 \<le> x \<Longrightarrow> x \<le> 127 \<Longrightarrow> sint (word_of_int x :: byte) = x"
  by (simp add: sint_sbintrunc signed_of_int signed_take_bit_int_eq_self)

lemma offset_range: "b \<in> {1..8} \<Longrightarrow> (1 :: int) \<le> 2 ^ (b - 1) \<and> (2 :: int) ^ (b - 1) \<le> 128 \<and> (2 :: int) * 2 ^ (b - 1) = 2 ^ b"
proof -
  assume "b \<in> {1..8}"
  then consider "b = 1" | "b = 2" | "b = 3" | "b = 4" | "b = 5" | "b = 6" | "b = 7" | "b = 8" by fastforce
  then show ?thesis by cases simp_all
qed

lemma weight_set_length: "b \<in> {1..8} \<Longrightarrow> length (weight_set b) = 2 ^ b"
  using offset_range [of b] by (simp add: weight_set_def nat_power_eq)

lemma weight_set_sint: "b \<in> {1..8} \<Longrightarrow> map sint (map word_of_int (weight_set b) :: byte list) = weight_set b"
  using offset_range [of b] by (auto simp: weight_set_def o_def intro!: map_idI sint_small)

lemma rank_weight_set: "b \<in> {1..8} \<Longrightarrow> SimpleRank True (map word_of_int (weight_set b)) = map word_of_int (weight_set b)"
  by (rule sint_byte_inj) (simp only: SimpleRank_sorts weight_set_sint, simp add: weight_set_def sorted_sort_id)

lemma weight_set_linear: "b \<in> {1..8} \<Longrightarrow> isLinearSample (map word_of_int (weight_set b)) b"
proof -
  assume b: "b \<in> {1..8}"
  have "sint (map word_of_int (weight_set b) ! i :: byte) = int i - 2 ^ (b - 1)" if "i < 2 ^ b" for i
  proof -
    have i: "i < length (weight_set b)" using that weight_set_length [OF b] by simp
    have "sint (map word_of_int (weight_set b) ! i :: byte) = weight_set b ! i"
      using arg_cong [OF weight_set_sint [OF b], of "\<lambda>l. l ! i"] i by simp
    also have "\<dots> = int i - 2 ^ (b - 1)" using i by (simp add: weight_set_def)
    finally show ?thesis .
  qed
  then show ?thesis by (simp add: isLinearSample_def weight_set_length [OF b])
qed

lemma need_bits_eq: "b \<in> {1..8} \<Longrightarrow> need_bits b = b"
  using ceil_log2_power [of b] by (simp add: need_bits_def weight_set_length)

lemma sample_count: "b \<in> {1..8} \<Longrightarrow> (if unat (word_of_nat (2 ^ b) :: byte) = 0 then 256 else unat (word_of_nat (2 ^ b) :: byte)) = 2 ^ b"
proof -
  assume "b \<in> {1..8}"
  then consider "b = 1" | "b = 2" | "b = 3" | "b = 4" | "b = 5" | "b = 6" | "b = 7" | "b = 8" by fastforce
  then show ?thesis by cases (simp_all add: unat_of_nat)
qed

section \<open>The packed indices\<close>

lemma split_from_length [simp]: "length (split_from buf b n t off) = n"
  by (induction n arbitrary: t off) (simp_all add: Let_def)

lemma split_from_take: "m \<le> n \<Longrightarrow> take m (split_from buf b n t off) = split_from buf b m t off"
proof (induction n arbitrary: m t off)
  case (Suc n)
  then show ?case by (cases m) (simp_all add: Let_def)
qed simp

lemma low_mask_mod: "b \<le> 8 \<Longrightarrow> uint (v AND low_mask b) = uint v mod 2 ^ b"
proof -
  assume "b \<le> 8"
  have "low_mask b = mask b" by (simp add: low_mask_def mask_eq_exp_minus_1 of_nat_diff)
  then have "uint (v AND low_mask b) = take_bit b (uint v)" by (simp add: take_bit_eq_mask [symmetric] unsigned_take_bit_eq)
  then show ?thesis by (simp add: take_bit_eq_mod)
qed

lemma split_halves:
  "word_of_int (uint (buf ! i) div 16) = split_value buf 4 i 0" "word_of_int (uint (buf ! i) mod 16) = split_value buf 4 i 4"
proof -
  have u: "0 \<le> uint (buf ! i)" "uint (buf ! i) < 256" using uint_lt2p [of "buf ! i"] by simp_all
  then have "uint (buf ! i) div 16 mod 16 = uint (buf ! i) div 16" by (intro mod_pos_pos_trivial) (simp_all add: pos_imp_zdiv_nonneg_iff)
  moreover have "uint (drop_bit 4 (buf ! i)) = uint (buf ! i) div 16"
    using u by (simp add: unsigned_drop_bit_eq take_bit_drop_bit) (simp add: drop_bit_eq_div take_bit_int_eq_self)
  ultimately have "uint (split_value buf 4 i 0) = uint (buf ! i) div 16"
    by (simp add: split_value_def low_mask_mod)
  moreover have "uint (split_value buf 4 i 4) = uint (buf ! i) mod 16" by (simp add: split_value_def low_mask_mod)
  ultimately show "word_of_int (uint (buf ! i) div 16) = split_value buf 4 i 0" "word_of_int (uint (buf ! i) mod 16) = split_value buf 4 i 4"
    by (metis word_of_int_uint)+
qed

lemma split_nibbles: "nibbles (drop i buf) = map (\<lambda>v. word_of_int (uint v - 8)) (split_from buf 4 (2 * (length buf - i)) i 0)"
proof (induction "length buf - i" arbitrary: i)
  case (Suc k)
  then have i: "i < length buf" and k: "length buf - Suc i = k" by simp_all
  have n: "2 * (length buf - i) = Suc (Suc (2 * (length buf - Suc i)))" using i by simp
  have "split_from buf 4 (2 * (length buf - i)) i 0 = split_value buf 4 i 0 # split_value buf 4 i 4 # split_from buf 4 (2 * (length buf - Suc i)) (Suc i) 0"
    unfolding n by (simp add: Let_def)
  then show ?case using Suc.hyps(1) [of "Suc i"] k Cons_nth_drop_Suc [OF i, symmetric] split_halves by (simp add: nibbles_def)
qed (simp add: nibbles_def)

lemma split_bytes: "split_from buf 8 (length buf - i) i 0 = drop i buf"
proof (induction "length buf - i" arbitrary: i)
  case (Suc k)
  then have i: "i < length buf" and k: "length buf - Suc i = k" "length buf - i = Suc k" by simp_all
  have "split_value buf 8 i 0 = buf ! i"
    using uint_lt2p [of "buf ! i"] by (intro word_uint_eqI) (simp add: split_value_def low_mask_mod)
  then show ?case using Suc.hyps(1) [of "Suc i"] k Cons_nth_drop_Suc [OF i] by (simp add: Let_def)
qed simp

section \<open>The dense round trip\<close>

text \<open>The weights a decoded buffer stands for: with \<open>canUseInt4\<close> it holds two of them in a byte.\<close>

definition weights_of :: "decoded \<Rightarrow> nat \<Rightarrow> byte list option" where
  "weights_of d n = (case d of (blob, _, info) \<Rightarrow> map_option (\<lambda>b. take n (if canUseInt4 info then nibbles b else b)) blob)"

lemma fill_length [simp]: "length (FillBuffer n arr b) = n"
proof -
  have "length (fst (FillBuffer_step b v s)) = length (fst s)" for v s
    by (auto simp: FillBuffer_step_def Let_def split: prod.splits)
  then have "length (fst (fold (FillBuffer_step b) arr s)) = length (fst s)" for s
    by (induction arr arbitrary: s) simp_all
  then show ?thesis by (simp add: FillBuffer_def)
qed

lemma split_arr:
  assumes b: "b \<in> {1..8}" and v: "\<And>x. x \<in> set vals \<Longrightarrow> - (2 ^ (b - 1)) \<le> x \<and> x < 2 ^ (b - 1)"
    and room: "b * length vals \<le> 8 * n"
  shows "map (\<lambda>v. word_of_int (uint v - 2 ^ (b - 1)))
      (SplitBufToArray (FillBuffer n (map (\<lambda>x. word_of_int (x + 2 ^ (b - 1))) vals) b) (length vals) b) =
    (map word_of_int vals :: byte list)"
proof -
  have low: "uint (word_of_int (x + 2 ^ (b - 1)) AND low_mask b) = x + 2 ^ (b - 1)" if "x \<in> set vals" for x
  proof -
    define y where "y = x + 2 ^ (b - 1)"
    have r: "0 \<le> y" "y < 2 ^ b" unfolding y_def using v [OF that] offset_range [OF b] by linarith+
    moreover have "(2 :: int) ^ b \<le> 256" using offset_range [OF b] by linarith
    ultimately have "y < 256" by linarith
    then show ?thesis using b r unfolding y_def [symmetric] by (simp add: low_mask_mod unsigned_of_int take_bit_eq_mod)
  qed
  have "SplitBufToArray (FillBuffer n (map (\<lambda>x. word_of_int (x + 2 ^ (b - 1))) vals) b) (length vals) b =
      map (\<lambda>v. v AND low_mask b) (map (\<lambda>x. word_of_int (x + 2 ^ (b - 1))) vals)"
    using split_fill [of b "map (\<lambda>x. word_of_int (x + 2 ^ (b - 1))) vals" n] b room by simp
  then show ?thesis unfolding map_map by (simp only: map_map) (rule map_cong [OF refl], simp only: o_def low add_diff_cancel)
qed

text \<open>\<open>ReadQuanData\<close> on a stream of the dense writer, up to the form of the weights.\<close>

lemma read_dense_header:
  assumes b: "b \<in> {1..8}" and size: "area * channel < 2 ^ 31" "area < 2 ^ 31" "channel < 2 ^ 31"
    and stream: "s = fst (write_dense b area channel arr) @ rest" and u: "u = snd (write_dense b area channel arr)"
  shows "ReadQuanData u has_scaleInt forceQuant forceFloat hasOutput s result =
     (let n = channel * area; samples = map word_of_int (weight_set b);
          idxBuf = FillBuffer ((b * n + 7) div 8) arr b;
          info = result\<lparr>weightMap := samples, originBits := b\<rparr>;
          canSet = (hasOutput \<and> \<not> (\<not> forceQuant \<and> (forceFloat \<or> \<not> has_scaleInt)))
      in if b = 4 \<or> b = 8 then
           (if \<not> forceQuant \<and> b = 4 then Some ((Some (nibbles idxBuf), n, info), rest)
            else if b = 4 then Some ((Some idxBuf, (b * n + 7) div 8, info\<lparr>canUseInt4 := True\<rparr>), rest)
            else Some ((Some (map (\<lambda>v. word_of_int (sint v - 128)) idxBuf), (b * n + 7) div 8, info), rest))
         else Some (decode_indices b True forceQuant canSet n samples idxBuf info, rest))"
proof -
  define dims where "dims = fst (WriteBlobDim [int channel, int area])"
  define samples :: "byte list" where "samples = map word_of_int (weight_set b)"
  define buf where "buf = FillBuffer ((b * (channel * area) + 7) div 8) arr b"
  have u': "u = snd (WriteBlobDim [int channel, int area])" by (simp add: u write_dense_def Let_def split: prod.split)
  have s: "s = dims @ word_of_nat (2 ^ b) # samples @ buf @ rest"
    by (simp add: stream write_dense_def Let_def dims_def samples_def buf_def need_bits_eq [OF b] weight_set_length [OF b]
        mult.assoc mult.commute [of area] split: prod.split)
  have dim: "ReadBlobDim u 32 s = Some ([int channel, int area], word_of_nat (2 ^ b) # samples @ buf @ rest)"
    unfolding u' s dims_def by (rule ReadBlobDim_Write) (use size in auto)
  have cnt: "nat (prod_list [int channel, int area] mod 2 ^ 64) = channel * area"
  proof -
    have "int (channel * area) < 2 ^ 64" using size(1) by (simp add: mult.commute flip: of_nat_mult)
    then have "prod_list [int channel, int area] mod 2 ^ 64 = int (channel * area)" by simp
    then show ?thesis by (simp only: nat_int)
  qed
  have len: "length samples = 2 ^ b" by (simp add: samples_def weight_set_length [OF b])
  have lin: "isLinearSample samples b" "SimpleRank True samples = samples"
    unfolding samples_def by (rule weight_set_linear [OF b], rule rank_weight_set [OF b])
  have bits: "max 1 (atLestBitsCnt (word_of_nat (2 ^ b))) = b" using atLestBitsCnt_power [OF b] b by simp
  have one: "loader_read 1 (word_of_nat (2 ^ b) # samples @ buf @ rest) = Some ([word_of_nat (2 ^ b)], samples @ buf @ rest)"
    by (rule loader_read_one)
  have tab: "loader_read (2 ^ b) (samples @ buf @ rest) = Some (samples, buf @ rest)" by (rule loader_read_append) (simp add: len)
  have idx: "loader_read ((b * (channel * area) + 7) div 8) (buf @ rest) = Some (buf, rest)"
    by (rule loader_read_append) (simp add: buf_def)
  have ne: "([int channel, int area] = [] \<or> 32 < length [int channel, int area]) = False" by simp
  show ?thesis
    unfolding ReadQuanData_def dim option.case prod.case one cnt Let_def nth_Cons_0 sample_count [OF b] tab lin(2) bits idx
      samples_def [symmetric] buf_def [symmetric]
    by (simp only: ne lin(1) simp_thms if_True if_False idx option.case prod.case)
qed

lemma half_bits: "(4 * n + 7) div 8 = (n + 1) div (2 :: nat)"
  by linarith

text \<open>The forms in which the decoder gives out the weights.\<close>

lemma decode_four:
  assumes "\<And>x. x \<in> set vals \<Longrightarrow> - 8 \<le> x \<and> x < 8" and n: "n = length vals"
  shows "take n (nibbles (FillBuffer ((4 * n + 7) div 8) (map (\<lambda>x. word_of_int (x + 8)) vals) 4)) = map word_of_int vals"
proof -
  let ?buf = "FillBuffer ((4 * n + 7) div 8) (map (\<lambda>x. word_of_int (x + 8)) vals) 4"
  have "n \<le> 2 * length ?buf" unfolding half_bits by simp
  then have "take n (nibbles ?buf) = map (\<lambda>v. word_of_int (uint v - 8)) (SplitBufToArray ?buf n 4)"
    using split_nibbles [of 0 ?buf] split_from_take [of n "2 * length ?buf" ?buf 4 0 0] by (simp add: take_map SplitBufToArray_def)
  also have "\<dots> = map word_of_int vals" using split_arr [of 4 vals "(4 * n + 7) div 8"] assms by simp
  finally show ?thesis .
qed

lemma decode_eight:
  assumes "\<And>x. x \<in> set vals \<Longrightarrow> - 128 \<le> x \<and> x < 128" and n: "n = length vals"
  shows "map (\<lambda>v. word_of_int (sint v - 128)) (FillBuffer ((8 * n + 7) div 8) (map (\<lambda>x. word_of_int (x + 128)) vals) 8) =
    (map word_of_int vals :: byte list)"
proof -
  let ?buf = "FillBuffer ((8 * n + 7) div 8) (map (\<lambda>x. word_of_int (x + 128)) vals) 8"
  have l: "(8 * n + 7) div 8 = n" by simp
  have buf: "?buf = SplitBufToArray ?buf n 8" using split_bytes [of ?buf 0] by (simp add: SplitBufToArray_def l)
  have w: "(word_of_int (sint v - 128) :: byte) = word_of_int (uint v - 128)" for v :: byte by simp
  have "map (\<lambda>v. word_of_int (sint v - 128)) ?buf = (map (\<lambda>v. word_of_int (uint v - 128)) (SplitBufToArray ?buf n 8) :: byte list)"
    unfolding w using arg_cong [OF buf] .
  also have "\<dots> = map word_of_int vals" using split_arr [of 8 vals "(8 * n + 7) div 8"] assms by simp
  finally show ?thesis .
qed

lemma decode_other:
  assumes b: "b \<in> {1..8}" and v: "\<And>x. x \<in> set vals \<Longrightarrow> - (2 ^ (b - 1)) \<le> x \<and> x < 2 ^ (b - 1)" and n: "n = length vals"
    and info: "originBits info = b" "b \<noteq> 4" "\<not> canUseInt4 info"
  shows "\<exists>blob info'. decode_indices b True forceQuant canSet n samples
      (FillBuffer ((b * n + 7) div 8) (map (\<lambda>x. word_of_int (x + 2 ^ (b - 1))) vals) b) info = (Some blob, n, info') \<and>
    \<not> canUseInt4 info' \<and> take n blob = map word_of_int vals"
proof -
  have eq: "map (\<lambda>v. word_of_int (uint v - 2 ^ (b - 1)))
      (SplitBufToArray (FillBuffer ((b * n + 7) div 8) (map (\<lambda>x. word_of_int (x + 2 ^ (b - 1))) vals) b) n b) = (map word_of_int vals :: byte list)"
    unfolding n by (rule split_arr [OF b v]) auto
  have "take n (pad_blob n (map word_of_int vals)) = map word_of_int vals" by (simp add: pad_blob_def n)
  then show ?thesis
    unfolding decode_indices_def Let_def if_True prod.case eq using info by simp
qed

text \<open>The dense round trip for any values in range.\<close>

lemma dense_roundtrip:
  assumes b: "b \<in> {1..8}" and size: "area * channel < 2 ^ 31" "area < 2 ^ 31" "channel < 2 ^ 31"
    and v: "\<And>x. x \<in> set vals \<Longrightarrow> - (2 ^ (b - 1)) \<le> x \<and> x < 2 ^ (b - 1)" and n: "length vals = channel * area"
    and result: "\<not> canUseInt4 result"
    and stream: "write_dense b area channel (map (\<lambda>x. word_of_int (x + 2 ^ (b - 1))) vals) = (s, u)"
  shows "\<exists>d. ReadQuanData u has_scaleInt forceQuant forceFloat hasOutput (s @ rest) result = Some (d, rest) \<and>
    weights_of d (length vals) = Some (map word_of_int vals) \<and> (\<not> forceQuant \<longrightarrow> fst (snd d) = length vals \<and> \<not> canUseInt4 (snd (snd d)))"
proof -
  let ?arr = "map (\<lambda>x. word_of_int (x + 2 ^ (b - 1))) vals"
  define info where "info = result\<lparr>weightMap := map word_of_int (weight_set b), originBits := b\<rparr>"
  define canSet where "canSet \<longleftrightarrow> hasOutput \<and> \<not> (\<not> forceQuant \<and> (forceFloat \<or> \<not> has_scaleInt))"
  note read = read_dense_header [OF b size, of "s @ rest" ?arr rest u has_scaleInt forceQuant forceFloat hasOutput result,
      unfolded stream fst_conv snd_conv Let_def info_def [symmetric] canSet_def [symmetric] n [symmetric], OF refl refl]
  consider "b = 4" | "b = 8" | "b \<noteq> 4" "b \<noteq> 8" by blast
  then show ?thesis
  proof cases
    case 1
    have "take (length vals) (nibbles (FillBuffer ((4 * length vals + 7) div 8) ?arr 4)) = map word_of_int vals"
      using decode_four [of vals "length vals"] v 1 by simp
    then show ?thesis unfolding read weights_of_def using 1 result by (simp add: info_def)
  next
    case 2
    have "map (\<lambda>v. word_of_int (sint v - 128)) (FillBuffer ((8 * length vals + 7) div 8) ?arr 8) = (map word_of_int vals :: byte list)"
      using decode_eight [of vals "length vals"] v 2 by simp
    then show ?thesis unfolding read weights_of_def using 2 result by (simp add: info_def)
  next
    case 3
    have "originBits info = b" "\<not> canUseInt4 info" using result by (simp_all add: info_def)
    then obtain blob info' where "decode_indices b True forceQuant canSet (length vals) (map word_of_int (weight_set b))
        (FillBuffer ((b * length vals + 7) div 8) ?arr b) info = (Some blob, length vals, info')"
      "\<not> canUseInt4 info'" "take (length vals) blob = map word_of_int vals"
      using decode_other [OF b v refl] 3(1) by blast
    then show ?thesis unfolding read weights_of_def using 3 by simp
  qed
qed

end
