(* ===== verification/Quant_Sparse.thy ===== *)
theory Quant_Sparse
  imports Quant_Dense
begin

text \<open>
  The sparse encoding: what \<open>WriteSparseQuanBlobs\<close> writes, \<open>ReadSparseQuanData_c\<close> reads back.
\<close>

section \<open>The entries\<close>

text \<open>The values the entries put over a background, position by position.\<close>

primrec place :: "(nat \<times> 'a) list \<Rightarrow> 'a list \<times> nat \<Rightarrow> 'a list \<times> nat" where
  "place [] st = st"
| "place (e # es) st = place es ((fst st)[snd st + fst e := snd e], snd st + fst e)"

lemma place_append: "place (xs @ ys) st = place ys (place xs st)"
  by (induction xs arbitrary: st) simp_all

lemma place_length [simp]: "length (fst (place es st)) = length (fst st)"
  by (induction es arbitrary: st) simp_all

text \<open>Counting and emitting run in step.\<close>

lemma count_entries:
  "fold (sparsity_step q s) is (pre, length es) = (let (p, es') = fold (sparse_step q s) is (pre, es) in (p, length es'))"
proof (induction "is" arbitrary: pre es)
  case (Cons i "is")
  obtain p es1 where step: "sparse_step q s i (pre, es) = (p, es1)" by (metis surj_pair)
  then have "sparsity_step q s i (pre, length es) = (p, length es1)"
    by (auto simp: sparse_step_def sparsity_step_def Let_def split: prod.splits if_splits)
  then show ?case using Cons.IH [of p es1] by (simp add: step)
qed simp

lemma GetSparsity_entries: "GetSparsity q n s = length (sparse_entries q s n)"
  using count_entries [of q s "[0..<n]" 0 "[]"] by (simp add: GetSparsity_def sparse_entries_def split: prod.splits)

text \<open>
  What holds after the first \<open>m\<close> positions: the entries turn the background into the values up to there, the
  last of them is at \<open>pre\<close>, and no step is too wide.
\<close>

definition emitted :: "(nat \<Rightarrow> 'a) \<Rightarrow> 'a list \<Rightarrow> nat \<Rightarrow> nat \<Rightarrow> nat \<times> (nat \<times> 'a) list \<Rightarrow> bool" where
  "emitted v z s m st \<longleftrightarrow> length (snd st) \<le> m \<and> place (snd st) (z, 0) = (map v [0..<m] @ drop m z, fst st) \<and>
     (snd st = [] \<or> fst st < m) \<and> m \<le> fst st + s \<and>
     (\<forall>e \<in> set (snd st). fst e \<le> s \<and> (\<exists>i < length z. snd e = v i \<or> snd e = z ! i))"

lemma emitted_add:
  assumes em: "emitted v z s m (pre, es)" and s: "1 \<le> s" and m: "m < length z"
  shows "emitted v z s (Suc m) (m, es @ [(m - pre, v m)])"
proof -
  have p: "place es (z, 0) = (map v [0..<m] @ z ! m # drop (Suc m) z, pre)" "pre \<le> m" "m \<le> pre + s"
    using em m by (auto simp: emitted_def Cons_nth_drop_Suc)
  have "place (es @ [(m - pre, v m)]) (z, 0) = (map v [0..<Suc m] @ drop (Suc m) z, m)"
    using p(2) by (simp add: place_append p(1) list_update_append)
  moreover have "m - pre \<le> s" using p(3) by simp
  ultimately show ?thesis using em s m by (auto simp: emitted_def)
qed

lemma emitted_keep:
  assumes em: "emitted v z s m (pre, es)" and m: "m < length z" and k: "v m = z ! m" "m - pre < s"
  shows "emitted v z s (Suc m) (pre, es)"
proof -
  have "map v [0..<m] @ drop m z = map v [0..<Suc m] @ drop (Suc m) z"
    using k(1) m by (simp add: Cons_nth_drop_Suc [symmetric])
  then show ?thesis using em k(2) by (auto simp: emitted_def)
qed

lemma sparse_emitted:
  assumes s: "1 \<le> s" and m: "m \<le> length z" and q: "\<And>i. i < length z \<Longrightarrow> q i = (v i, z ! i)"
  shows "emitted v z s m (fold (sparse_step q s) [0..<m] (0, []))"
  using m
proof (induction m)
  case 0
  then show ?case by (simp add: emitted_def)
next
  case (Suc m)
  obtain pre es where st: "fold (sparse_step q s) [0..<m] (0, []) = (pre, es)" by (metis surj_pair)
  have em: "emitted v z s m (pre, es)" and m: "m < length z" using Suc st by simp_all
  have step: "fold (sparse_step q s) [0..<Suc m] (0, []) = sparse_step q s m (pre, es)" by (simp add: st)
  have "sparse_step q s m (pre, es) = (if v m \<noteq> z ! m \<or> s \<le> m - pre then (m, es @ [(m - pre, v m)]) else (pre, es))"
    using s by (simp add: sparse_step_def q [OF m])
  then show ?case using emitted_add [OF em s m] emitted_keep [OF em m] unfolding step by auto
qed

lemma sparse_entries_place:
  assumes s: "1 \<le> s" and q: "\<And>i. i < length z \<Longrightarrow> q i = (v i, z ! i)"
  defines "es \<equiv> sparse_entries q s (length z)"
  shows "fst (place es (z, 0)) = map v [0..<length z]" and "length es \<le> length z"
    and "es = [] \<or> snd (place es (z, 0)) < length z"
    and "\<forall>e \<in> set es. fst e \<le> s \<and> (\<exists>i < length z. snd e = v i \<or> snd e = z ! i)"
  using sparse_emitted [OF s order_refl, of z q v] q by (auto simp: emitted_def sparse_entries_def es_def)

section \<open>The best width\<close>

lemma GetBestMaxStep_cases:
  assumes "GetBestMaxStep q n d = (k, nnz)" and "nnz \<noteq> 0"
  shows "k \<in> {2..8} \<and> nnz = GetSparsity q n (2 ^ k - 1)"
proof -
  define f where "f = (\<lambda>i (bits, best, sz). (let nnz = GetSparsity q n (2 ^ i - 1); tmp = (nnz * i + 7) div 8 + (nnz * d + 7) div 8
      in if tmp < sz then (i, nnz, tmp) else (bits, best, sz)))"
  have "(case fold f ks (bi, ni, si) of (b, m, _) \<Rightarrow> (b, m) = (bi, ni) \<or> (b \<in> set ks \<and> m = GetSparsity q n (2 ^ b - 1)))" for ks bi ni si
  proof (induction ks arbitrary: bi ni si)
    case (Cons i ks)
    obtain b1 n1 s1 where step: "f i (bi, ni, si) = (b1, n1, s1)" by (metis prod_cases3)
    then have "(b1, n1) = (bi, ni) \<or> (b1 = i \<and> n1 = GetSparsity q n (2 ^ i - 1))" by (auto simp: f_def Let_def split: if_splits)
    then show ?case using Cons.IH [of b1 n1 s1] by (auto simp: step split: prod.splits)
  qed simp
  note inv = this [where ks = "[2..<9]" and bi = 0 and ni = 0 and si = 1000000000]
  obtain w where "fold f [2..<9] (0, 0, 1000000000) = (k, nnz, w)"
    using assms(1) unfolding GetBestMaxStep_def f_def [symmetric] by (auto simp del: upt_rec_numeral split: prod.splits)
  then show ?thesis using inv assms(2) by (simp del: upt_rec_numeral)
qed

section \<open>The table of indices\<close>

lemma update_map_None: "k \<notin> fst ` set m \<Longrightarrow> update_map k v m = None"
  by (induction m) auto

lemma insert_set_fold:
  "distinct (ys @ xs) \<Longrightarrow> length (ys @ xs) \<le> n \<Longrightarrow> fold (InsertSimpleSet n) xs ys = ys @ xs"
proof (induction xs arbitrary: ys)
  case (Cons x xs)
  then show ?case using Cons.IH [of "ys @ [x]"] by (auto simp: InsertSimpleSet_def)
qed simp

lemma byte_of_nat_inj: "i < 256 \<Longrightarrow> j < 256 \<Longrightarrow> (word_of_nat i :: byte) = word_of_nat j \<Longrightarrow> i = j"
proof -
  have "unat (word_of_nat i :: byte) = i" if "i < 256" for i using that by (simp add: unat_of_nat)
  then show "i < 256 \<Longrightarrow> j < 256 \<Longrightarrow> (word_of_nat i :: byte) = word_of_nat j \<Longrightarrow> i = j" by metis
qed

lemma index_map:
  assumes "m \<le> length U" and "length U \<le> 256"
  shows "fold (\<lambda>i. InsertMap 256 (word_of_nat i) (U ! i)) [0..<m] [] = map (\<lambda>i. (word_of_nat i, U ! i)) [0..<m]"
  using assms(1)
proof (induction m)
  case (Suc m)
  have "word_of_nat m \<noteq> (word_of_nat i :: byte)" if "i < m" for i
    using byte_of_nat_inj [of m i] that Suc.prems assms(2) by auto
  then have "(word_of_nat m :: byte) \<notin> fst ` set (map (\<lambda>i. (word_of_nat i :: byte, U ! i)) [0..<m])" by force
  from update_map_None [OF this] show ?case using Suc assms(2) by (simp add: InsertMap_def)
qed simp

lemma find_index:
  assumes "j < length U" and "length U \<le> 256"
  shows "FindInMap (map (\<lambda>i. (word_of_nat i, U ! i)) [0..<length U]) (word_of_nat j) = (U ! j, True)"
proof -
  have "distinct (map fst (map (\<lambda>i. (word_of_nat i :: byte, U ! i)) [0..<length U]))"
    using byte_of_nat_inj assms(2) by (auto simp: distinct_map inj_on_def o_def)
  moreover have "(word_of_nat j, U ! j) \<in> set (map (\<lambda>i. (word_of_nat i :: byte, U ! i)) [0..<length U])" using assms(1) by force
  ultimately have "map_of (map (\<lambda>i. (word_of_nat i :: byte, U ! i)) [0..<length U]) (word_of_nat j) = Some (U ! j)"
    by (rule map_of_is_SomeI)
  then show ?thesis by (simp add: FindInMap_def)
qed

lemma weight_set_256: "b \<in> {1..8} \<Longrightarrow> length (weight_set b) \<le> 256"
  using offset_range [of b] by (simp add: weight_set_def nat_le_iff)

lemma table_map:
  assumes b: "b \<in> {1..8}"
  shows "SimpleRank True (fold (InsertSimpleSet 256) (map word_of_int (weight_set b)) []) = map word_of_int (weight_set b)"
proof -
  have "distinct (map word_of_int (weight_set b) :: byte list)"
  proof -
    have "distinct (map sint (map word_of_int (weight_set b) :: byte list))"
      unfolding weight_set_sint [OF b] by (simp add: weight_set_def)
    then show ?thesis by (simp only: distinct_map)
  qed
  then show ?thesis using insert_set_fold [of "[]" "map word_of_int (weight_set b)" 256] weight_set_256 [OF b] rank_weight_set [OF b] by simp
qed

lemma find_value:
  assumes b: "b \<in> {1..8}" and v: "- (2 ^ (b - 1)) \<le> v" "v < 2 ^ (b - 1)"
  defines "U \<equiv> map word_of_int (weight_set b)"
  shows "FindInMap (fold (\<lambda>i. InsertMap 256 (word_of_nat i) (U ! i)) [0..<length U] []) (map_weight b v AND low_mask b) = (word_of_int v, True)"
proof -
  define j where "j = nat (v + 2 ^ (b - 1))"
  have j: "int j = v + 2 ^ (b - 1)" using v by (simp add: j_def)
  have U: "length U = 2 ^ b" "length U \<le> 256"
    using weight_set_length [OF b] weight_set_256 [OF b] by (simp_all add: U_def)
  have jU: "j < length U"
  proof -
    have "int j < 2 ^ b" using j v offset_range [OF b] by linarith
    then show ?thesis unfolding U by simp
  qed
  have "uint (map_weight b v) = int j"
  proof -
    have "map_weight b v = word_of_int (int j)" unfolding map_weight_def j using v by (simp only: simp_thms if_True)
    then show ?thesis using jU U(2) by (simp add: unsigned_of_nat take_bit_nat_eq_self)
  qed
  then have "uint (map_weight b v AND low_mask b) = int j" using b jU U by (simp add: low_mask_mod flip: zmod_int)
  then have "map_weight b v AND low_mask b = word_of_nat j" by (metis word_of_int_uint of_int_of_nat_eq)
  moreover have "U ! j = word_of_int v"
    using jU j by (simp add: U_def weight_set_def)
  ultimately show ?thesis using index_map [of "length U" U] find_index [OF jU U(2)] U(2) by simp
qed

section \<open>The stream\<close>

lemma place_map: "place (map (\<lambda>e. (fst e, f (snd e))) es) (map f z, p) = (map f (fst (place es (z, p))), snd (place es (z, p)))"
  by (induction es arbitrary: z p) (simp_all add: map_update [symmetric])

lemma place_mono: "p \<le> snd (place es (z, p))"
proof (induction es arbitrary: z p)
  case (Cons e es)
  show ?case using Cons.IH [of "p + fst e" "z[p + fst e := snd e]"] by simp
qed simp

lemma store_place:
  assumes "\<And>e. e \<in> set es \<Longrightarrow> unat (step e) = fst e \<and> FindInMap m (idx e) = (f (snd e), True)"
    and "es = [] \<or> snd (place (map (\<lambda>e. (fst e, f (snd e))) es) (blob, p)) < length blob"
  shows "fold (store_sparse m o') (zip (map step es) (map idx es)) (Inl (Some (blob, p))) =
    Inl (Some (place (map (\<lambda>e. (fst e, f (snd e))) es) (blob, p)))"
  using assms
proof (induction es arbitrary: blob p)
  case (Cons e es)
  let ?es = "map (\<lambda>e. (fst e, f (snd e))) es"
  have e: "unat (step e) = fst e" "FindInMap m (idx e) = (f (snd e), True)" using Cons.prems(1) by auto
  have l: "snd (place ?es (blob[p + fst e := f (snd e)], p + fst e)) < length blob" using Cons.prems(2) by simp
  then have "p + fst e < length blob" using place_mono [of "p + fst e" ?es] by (meson le_less_trans)
  then have "store_sparse m o' (step e, idx e) (Inl (Some (blob, p))) = Inl (Some (blob[p + fst e := f (snd e)], p + fst e))"
    by (simp add: store_sparse_def e Let_def)
  then show ?case using Cons.IH [of "blob[p + fst e := f (snd e)]" "p + fst e"] Cons.prems(1) l by simp
qed simp

text \<open>What the stream keeps of a value: the table has no entry for one out of range, and the index is zero then.\<close>

definition stored :: "nat \<Rightarrow> int \<Rightarrow> int" where
  "stored b v = (if - (2 ^ (b - 1)) \<le> v \<and> v < 2 ^ (b - 1) then v else - (2 ^ (b - 1)))"

lemma find_stored:
  assumes b: "b \<in> {1..8}"
  defines "U \<equiv> map word_of_int (weight_set b)"
  shows "FindInMap (fold (\<lambda>i. InsertMap 256 (word_of_nat i) (U ! i)) [0..<length U] []) (map_weight b v AND low_mask b) = (word_of_int (stored b v), True)"
proof (cases "- (2 ^ (b - 1)) \<le> v \<and> v < 2 ^ (b - 1)")
  case True
  then show ?thesis using find_value [OF b, of v] by (simp add: stored_def U_def)
next
  case False
  then have "map_weight b v = map_weight b (- (2 ^ (b - 1)))" "stored b v = - (2 ^ (b - 1))"
    unfolding map_weight_def stored_def by auto
  then show ?thesis using find_value [OF b, of "- (2 ^ (b - 1))"] offset_range [OF b] by (simp add: U_def)
qed

text \<open>The sparse round trip for any values: \<open>z\<close> is the background the decoder starts from, which is in range.\<close>

lemma sparse_roundtrip:
  fixes weightData alphaData :: "rat list" and area channel b :: nat and asymmetric :: bool
  defines "q \<equiv> sparse_quant asymmetric b alphaData area weightData"
  assumes b: "b \<in> {1..8}" and size: "area * channel < 2 ^ 31" "area < 2 ^ 31" "channel < 2 ^ 31"
    and q: "\<And>i. i < area * channel \<Longrightarrow> q i = (v i, z ! i)" and z: "length z = area * channel"
    and bg: "sparse_background alphaData [int channel, int area] (area * channel) b = map word_of_int z"
    and v: "\<And>i. i < area * channel \<Longrightarrow> - (2 ^ (b - 1)) \<le> z ! i \<and> z ! i < 2 ^ (b - 1)"
    and stream: "WriteSparseQuanBlobs weightData alphaData area channel asymmetric b = Some (s, u)"
  shows "ReadSparseQuanData u o' alphaData (s @ rest) result =
    Some ((Some (map (\<lambda>i. word_of_int (stored b (v i))) [0..<area * channel]), area * channel,
      result\<lparr>weightMap := map word_of_int (weight_set b)\<rparr>), rest)"
proof -
  let ?n = "area * channel"
  obtain k nnz where best: "GetBestMaxStep q ?n b = (k, nnz)" by (metis surj_pair)
  have "nnz \<noteq> 0"
  proof
    assume "nnz = 0"
    then show False using stream best by (simp add: WriteSparseQuanBlobs_def Let_def q_def need_bits_eq [OF b])
  qed
  from GetBestMaxStep_cases [OF best this] have k: "k \<in> {2..8}" "nnz = GetSparsity q ?n (2 ^ k - 1)" by auto
  define es where "es = sparse_entries q (2 ^ k - 1) ?n"
  have nnz: "nnz = length es" by (simp add: k(2) GetSparsity_entries es_def)
  have s1: "1 \<le> (2 :: nat) ^ k - 1"
  proof -
    have "(2 :: nat) ^ 1 \<le> 2 ^ k" using k(1) by (intro power_increasing) auto
    then show ?thesis by simp
  qed
  note pl = sparse_entries_place [of "2 ^ k - 1" z q v, OF s1, unfolded z es_def [symmetric], OF q]
  define steps :: "byte list" where "steps = map (\<lambda>e. word_of_nat (fst e)) es"
  define idx :: "byte list" where "idx = map (\<lambda>e. map_weight b (snd e)) es"
  define buf where "buf = FillBuffer ((k * nnz + 7) div 8) steps k"
  define dataBuf where "dataBuf = FillBuffer ((b * nnz + 7) div 8) idx b"
  define samples :: "byte list" where "samples = map word_of_int (weight_set b)"
  define dims where "dims = fst (WriteBlobDim [int channel, int area])"
  have u: "u = snd (WriteBlobDim [int channel, int area])"
    and s: "s = dims @ le_bytes 4 (int nnz) @ word_of_nat k # buf @ word_of_nat (2 ^ b) # samples @ dataBuf"
    using stream \<open>nnz \<noteq> 0\<close> best unfolding steps_def idx_def buf_def dataBuf_def samples_def dims_def es_def
    by (auto simp: WriteSparseQuanBlobs_def Let_def q_def [symmetric] need_bits_eq [OF b] weight_set_length [OF b] case_prod_unfold split: if_splits)
  have small: "nnz < 2 ^ 31" using pl(2) size(1) nnz by linarith
  have r1: "ReadBlobDim u 32 (s @ rest) = Some ([int channel, int area], le_bytes 4 (int nnz) @ word_of_nat k # buf @ word_of_nat (2 ^ b) # samples @ dataBuf @ rest)"
    unfolding u s dims_def append_assoc append_Cons by (rule ReadBlobDim_Write) (use size in auto)
  have n4: "nat (le_value (le_bytes 4 (int nnz))) = nnz" using small by (simp add: le_value_bytes)
  have kk: "unat (word_of_nat k :: byte) = k" using k(1) by (simp add: unat_of_nat)
  have cnt: "nat (prod_list [int channel, int area] mod 2 ^ 64) = ?n"
  proof -
    have "int ?n < 2 ^ 64" using size(1) by (simp flip: of_nat_mult)
    then have "prod_list [int channel, int area] mod 2 ^ 64 = int ?n" by (simp add: mult.commute)
    then show ?thesis by (simp only: nat_int)
  qed
  have len: "length buf = (k * nnz + 7) div 8" "length dataBuf = (b * nnz + 7) div 8" "length samples = 2 ^ b"
    by (simp_all add: buf_def dataBuf_def samples_def weight_set_length [OF b])
  have r2: "loader_read 4 (le_bytes 4 (int nnz) @ word_of_nat k # buf @ word_of_nat (2 ^ b) # samples @ dataBuf @ rest) =
      Some (le_bytes 4 (int nnz), word_of_nat k # buf @ word_of_nat (2 ^ b) # samples @ dataBuf @ rest)"
    and r3: "loader_read 1 (word_of_nat k # buf @ word_of_nat (2 ^ b) # samples @ dataBuf @ rest) =
      Some ([word_of_nat k], buf @ word_of_nat (2 ^ b) # samples @ dataBuf @ rest)"
    and r4: "loader_read ((k * nnz + 7) div 8) (buf @ word_of_nat (2 ^ b) # samples @ dataBuf @ rest) =
      Some (buf, word_of_nat (2 ^ b) # samples @ dataBuf @ rest)"
    and r5: "loader_read 1 (word_of_nat (2 ^ b) # samples @ dataBuf @ rest) = Some ([word_of_nat (2 ^ b)], samples @ dataBuf @ rest)"
    and r6: "loader_read (2 ^ b) (samples @ dataBuf @ rest) = Some (samples, dataBuf @ rest)"
    and r7: "loader_read ((b * nnz + 7) div 8) (dataBuf @ rest) = Some (dataBuf, rest)"
    by (simp_all add: len)
  have bits: "max 1 (ceil_log2 (2 ^ b)) = b" using ceil_log2_power [of b] b by simp
  have tab: "SimpleRank True (fold (InsertSimpleSet 256) samples []) = samples" unfolding samples_def by (rule table_map [OF b])
  have a1: "SplitBufToArray buf nnz k = map (\<lambda>e. word_of_nat (fst e) AND low_mask k) es"
    using split_fill [of k steps "(k * nnz + 7) div 8"] k(1) by (simp add: buf_def steps_def nnz o_def)
  have a2: "SplitBufToArray dataBuf nnz b = map (\<lambda>e. map_weight b (snd e) AND low_mask b) es"
    using split_fill [of b idx "(b * nnz + 7) div 8"] b by (simp add: dataBuf_def idx_def nnz o_def)
  define es' :: "(nat \<times> byte) list" where "es' = map (\<lambda>e. (fst e, word_of_int (stored b (snd e)))) es"
  define mp where "mp = fold (\<lambda>i. InsertMap 256 (word_of_nat i) (samples ! i)) [0..<length samples] []"
  have entry: "unat (word_of_nat (fst e) AND low_mask k :: byte) = fst e \<and>
      FindInMap mp (map_weight b (snd e) AND low_mask b) = (word_of_int (stored b (snd e)), True)" if "e \<in> set es" for e
  proof -
    have st: "fst e \<le> 2 ^ k - 1" using pl(4) that by blast
    have "(2 :: nat) ^ k \<le> 256" using power_increasing [of k 8 "2 :: nat"] k(1) by simp
    then have lt: "fst e < 2 ^ k" "fst e < 256" using st s1 by linarith+
    then have "uint (word_of_nat (fst e) AND low_mask k :: byte) = int (fst e)"
      using k(1) by (simp add: low_mask_mod unsigned_of_nat take_bit_nat_eq_self flip: zmod_int)
    then have "unat (word_of_nat (fst e) AND low_mask k :: byte) = fst e" by (metis nat_int unat_eq_nat_uint)
    then show ?thesis using find_stored [OF b] by (simp add: mp_def samples_def)
  qed
  have zs: "map word_of_int z = map (\<lambda>x. word_of_int (stored b x)) z"
    using v z by (auto simp: stored_def in_set_conv_nth)
  have last: "es = [] \<or> snd (place (map (\<lambda>e. (fst e, word_of_int (stored b (snd e)))) es) (map word_of_int z, 0)) < length (map word_of_int z :: byte list)"
    unfolding zs place_map [where f = "\<lambda>x. word_of_int (stored b x)"] using pl(3) by (simp add: z)
  have fld: "fold (store_sparse mp o') (zip (map (\<lambda>e. word_of_nat (fst e) AND low_mask k) es) (map (\<lambda>e. map_weight b (snd e) AND low_mask b) es))
      (Inl (Some (map word_of_int z, 0))) = Inl (Some (place es' (map word_of_int z, 0)))"
    unfolding es'_def by (rule store_place [OF entry last])
  have "fst (place es' (map word_of_int z, 0)) = map (\<lambda>i. word_of_int (stored b (v i))) [0..<?n]"
    unfolding es'_def zs place_map [where f = "\<lambda>x. word_of_int (stored b x)"] using pl(1) by (simp add: z)
  then obtain pp where pp: "place es' (map word_of_int z, 0) = (map (\<lambda>i. word_of_int (stored b (v i))) [0..<?n], pp)" by (metis prod.collapse)
  show ?thesis
    unfolding ReadSparseQuanData_def r1 r2 r3 r4 r5 r6 r7 Let_def option.case prod.case nth_Cons_0 n4 kk cnt sample_count [OF b] bits tab a1 a2
      mp_def [symmetric] bg fld
    by (simp add: r4 r6 r7 tab a1 a2 fld bg bits mp_def [symmetric] samples_def [symmetric] sum.case pp)
qed

end
