(* ===== verification/Quant_Claims.thy ===== *)
theory Quant_Claims
  imports Quant_Sparse
begin

text \<open>
  The properties of quantised weights: the round trips of the two streams, the distance between the weights
  that are loaded and those that were encoded, and the width of the indices from the size of a stream.
\<close>

section \<open>Positions\<close>

lemma concat_rows: "concat (map (\<lambda>i. map (\<lambda>j. f (i * area + j)) [0..<area]) [0..<channel]) = map f [0..<channel * area]"
proof (induction channel)
  case (Suc c)
  have "map (\<lambda>j. f (c * area + j)) [0..<area] = map f [c * area..<c * area + area]"
    by (rule nth_equalityI) simp_all
  then show ?case using Suc using upt_add_eq_append [of 0 "c * area" area] by (simp add: add.commute)
qed simp

lemma concat_rows_div:
  "concat (map (\<lambda>i. map (\<lambda>j. g i (i * area + j)) [0..<area]) [0..<channel]) = map (\<lambda>p. g (p div area) p) [0..<channel * area]"
proof -
  have "map (\<lambda>j. g i (i * area + j)) [0..<area] = map (\<lambda>j. g ((i * area + j) div area) (i * area + j)) [0..<area]" for i
    by (rule map_cong) simp_all
  then show ?thesis by (simp only: concat_rows [where f = "\<lambda>p. g (p div area) p"])
qed

section \<open>The dense stream\<close>

text \<open>
  C31. What \<open>WriteCQBlobsInt8\<close> packs, \<open>ReadQuanData_c\<close> unpacks: for every width from one to eight bits, with
  or without a caller's buffer, and whether the weights are kept packed or are spread out.
\<close>

theorem int8_roundtrip:
  assumes b: "b \<in> {1..8}" and size: "area * channel < 2 ^ 31" "area < 2 ^ 31" "channel < 2 ^ 31"
    and n: "length w = channel * area" and range: "\<forall>x \<in> set w. - (2 ^ (b - 1)) \<le> sint x \<and> sint x < 2 ^ (b - 1)"
    and stream: "WriteCQBlobsInt8 w area channel b = (s, u)"
  shows "map_option (\<lambda>(d, r). (weights_of d (channel * area), r))
      (ReadQuanData u has_scaleInt forceQuant forceFloat hasOutput (s @ rest) new_int8_common) = Some (Some w, rest)"
proof -
  have "concat (map (\<lambda>i. map (\<lambda>j. word_of_int (sint (w ! (i * area + j)) + 2 ^ (b - 1))) [0..<area]) [0..<channel]) =
      map (\<lambda>p. word_of_int (sint (w ! p) + 2 ^ (b - 1)) :: byte) [0..<channel * area]" by (rule concat_rows)
  also have "\<dots> = map (\<lambda>x. word_of_int (x + 2 ^ (b - 1))) (map sint w)"
    by (rule nth_equalityI) (simp_all add: n)
  finally have st: "write_dense b area channel (map (\<lambda>x. word_of_int (x + 2 ^ (b - 1))) (map sint w)) = (s, u)"
    using stream b by (simp add: WriteCQBlobsInt8_def need_bits_eq)
  have "\<exists>d. ReadQuanData u has_scaleInt forceQuant forceFloat hasOutput (s @ rest) new_int8_common = Some (d, rest) \<and>
      weights_of d (length (map sint w)) = Some (map word_of_int (map sint w)) \<and>
      (\<not> forceQuant \<longrightarrow> fst (snd d) = length (map sint w) \<and> \<not> canUseInt4 (snd (snd d)))"
    by (rule dense_roundtrip [OF b size _ _ _ st]) (use range n in \<open>auto simp: new_int8_common_def\<close>)
  then show ?thesis by (auto simp: n o_def)
qed

section \<open>The sparse stream\<close>

text \<open>Background of the decoder and of the encoder.\<close>

definition background :: "bool \<Rightarrow> nat \<Rightarrow> rat list \<Rightarrow> nat \<Rightarrow> nat \<Rightarrow> int list" where
  "background asymmetric b alphaData area channel =
     map (\<lambda>p. if asymmetric then zero_quant (alphaData ! (2 * (p div area))) (alphaData ! (2 * (p div area) + 1)) (- (2 ^ (b - 1))) else 0)
       [0..<channel * area]"

lemma background_decoder:
  assumes l: "length alphaData = (if asymmetric then 2 * channel else channel)" and pos: "0 < channel"
  shows "sparse_background alphaData [int channel, int area] (area * channel) b = map word_of_int (background asymmetric b alphaData area channel)"
proof (cases asymmetric)
  case True
  define g :: "nat \<Rightarrow> byte" where "g = (\<lambda>i. word_of_int (zero_quant (alphaData ! (2 * i)) (alphaData ! (2 * i + 1)) (- (2 ^ (b - 1)))))"
  have "sparse_background alphaData [int channel, int area] (area * channel) b = concat (map (\<lambda>i. map (\<lambda>j. g i) [0..<area]) [0..<channel])"
    using True l pos by (simp add: sparse_background_def g_def map_replicate_const)
  also have "\<dots> = map (\<lambda>p. g (p div area)) [0..<channel * area]"
    using concat_rows_div [of "\<lambda>i p. g i" area channel] by simp
  finally show ?thesis using True by (simp add: background_def g_def)
next
  case False
  then show ?thesis using l pos by (simp add: sparse_background_def background_def map_replicate_const mult.commute)
qed

lemma sparse_decoded:
  assumes b: "b \<in> {1..8}" and size: "area * channel < 2 ^ 31" "area < 2 ^ 31" "channel < 2 ^ 31" and pos: "0 < channel"
    and l: "length alphaData = (if asymmetric then 2 * channel else channel)"
    and bg: "\<forall>x \<in> set (background asymmetric b alphaData area channel). - (2 ^ (b - 1)) \<le> x \<and> x < 2 ^ (b - 1)"
    and stream: "WriteSparseQuanBlobs weightData alphaData area channel asymmetric b = Some (s, u)"
  shows "ReadSparseQuanData u o' alphaData (s @ rest) result =
    Some ((Some (map (\<lambda>p. word_of_int (stored b (quantize asymmetric b alphaData (p div area) (weightData ! p)))) [0..<area * channel]),
      area * channel, result\<lparr>weightMap := map word_of_int (weight_set b)\<rparr>), rest)"
proof (rule sparse_roundtrip [OF b size _ _ background_decoder [OF l pos] _ stream])
  let ?z = "background asymmetric b alphaData area channel"
  show z: "length ?z = area * channel" by (simp add: background_def mult.commute)
  fix i assume i: "i < area * channel"
  show "sparse_quant asymmetric b alphaData area weightData i = (quantize asymmetric b alphaData (i div area) (weightData ! i), ?z ! i)"
    using i by (simp add: sparse_quant_def background_def mult.commute)
  show "- (2 ^ (b - 1)) \<le> ?z ! i \<and> ?z ! i < 2 ^ (b - 1)" using bg i z nth_mem [of i ?z] by simp
qed

text \<open>
  C32. The sparse stream gives every quantised value in range back, whatever the distances between the values
  and for a background of zero or one of each channel.
\<close>

theorem sparse_stream_roundtrip:
  assumes b: "b \<in> {1..8}" and size: "area * channel < 2 ^ 31" "area < 2 ^ 31" "channel < 2 ^ 31" and pos: "0 < channel"
    and l: "length alphaData = (if asymmetric then 2 * channel else channel)"
    and bg: "\<forall>x \<in> set (background asymmetric b alphaData area channel). - (2 ^ (b - 1)) \<le> x \<and> x < 2 ^ (b - 1)"
    and range: "\<forall>p < area * channel. - (2 ^ (b - 1)) \<le> quantize asymmetric b alphaData (p div area) (weightData ! p) \<and>
        quantize asymmetric b alphaData (p div area) (weightData ! p) < 2 ^ (b - 1)"
    and stream: "WriteSparseQuanBlobs weightData alphaData area channel asymmetric b = Some (s, u)"
  shows "map_option (\<lambda>((blob, len, _), r). (blob, len, r)) (ReadSparseQuanData u False alphaData (s @ rest) new_int8_common) =
    Some (Some (map (\<lambda>p. word_of_int (quantize asymmetric b alphaData (p div area) (weightData ! p))) [0..<area * channel]),
      area * channel, rest)"
proof -
  have "map (\<lambda>p. word_of_int (stored b (quantize asymmetric b alphaData (p div area) (weightData ! p))) :: byte) [0..<area * channel] =
      map (\<lambda>p. word_of_int (quantize asymmetric b alphaData (p div area) (weightData ! p))) [0..<area * channel]"
    using range by (simp add: stored_def)
  then show ?thesis unfolding sparse_decoded [OF b size pos l bg stream] by simp
qed

text \<open>
  C33. The sparse writer does not clamp: when the background of every channel is in the table (it always is for
  symmetric scales), a weight whose quantised value is above the table is stored as index zero and read back as
  the least value of the table, where the dense writer stores the largest.
\<close>

theorem sparse_overflow_flips:
  assumes b: "b \<in> {1..8}" and size: "area * channel < 2 ^ 31" "area < 2 ^ 31" "channel < 2 ^ 31" and pos: "0 < channel"
    and l: "length alphaData = (if asymmetric then 2 * channel else channel)" and p: "p < area * channel"
    and bg: "\<forall>x \<in> set (background asymmetric b alphaData area channel). - (2 ^ (b - 1)) \<le> x \<and> x < 2 ^ (b - 1)"
    and large: "2 ^ (b - 1) \<le> quantize asymmetric b alphaData (p div area) (weightData ! p)"
    and stream: "WriteSparseQuanBlobs weightData alphaData area channel asymmetric b = Some (s, u)"
  shows "\<exists>blob info. ReadSparseQuanData u False alphaData s new_int8_common = Some ((Some blob, area * channel, info), []) \<and>
    sint (blob ! p) = - (2 ^ (b - 1)) \<and> quantize_clamped asymmetric b alphaData (p div area) (weightData ! p) = 2 ^ (b - 1) - 1"
proof -
  have "sint (word_of_int (- (2 ^ (b - 1))) :: byte) = - (2 ^ (b - 1))"
    by (rule sint_small) (use offset_range [OF b] in linarith)+
  moreover have "stored b (quantize asymmetric b alphaData (p div area) (weightData ! p)) = - (2 ^ (b - 1))"
    using large by (simp add: stored_def)
  moreover have "quantize_clamped asymmetric b alphaData (p div area) (weightData ! p) = 2 ^ (b - 1) - 1"
    using large by (auto simp: quantize_clamped_def quantize_def Let_def split: if_splits)
  ultimately show ?thesis
    using sparse_decoded [OF b size pos l bg stream, of False "[]" new_int8_common] p by simp
qed

section \<open>From weights to weights\<close>

lemma c_round_near: "\<bar>rat_of_int (c_round x) - x\<bar> \<le> 1 / 2"
proof -
  define m n where "m = rat_of_int \<lfloor>x + 1 / 2\<rfloor>" and "n = rat_of_int \<lfloor>- x + 1 / 2\<rfloor>"
  have "m \<le> x + 1 / 2" "x + 1 / 2 < m + 1" "n \<le> - x + 1 / 2" "- x + 1 / 2 < n + 1"
    using floor_correct [of "x + 1 / 2"] floor_correct [of "- x + 1 / 2"] by (simp_all only: m_def n_def of_int_add of_int_1)
  moreover have "rat_of_int (c_round x) = (if 0 \<le> x then m else - n)" by (simp add: c_round_def m_def n_def)
  ultimately have "rat_of_int (c_round x) \<le> x + 1 / 2 \<and> x - 1 / 2 \<le> rat_of_int (c_round x)" by (simp split: if_splits)
  then show ?thesis unfolding abs_le_iff by linarith
qed

lemma fold_min_nth:
  assumes "length alpha = 2 * k" and "i < k"
  shows "fold_min c alpha ! (2 * i) = alpha ! (2 * i) - c * alpha ! (2 * i + 1)" "fold_min c alpha ! (2 * i + 1) = alpha ! (2 * i + 1)"
    "length (fold_min c alpha) = 2 * k"
proof -
  define F where "F = (\<lambda>m. fold (\<lambda>o' a. a[2 * o' := a ! (2 * o') - c * a ! (2 * o' + 1)]) [0..<m] alpha)"
  have "length (F m) = 2 * k \<and> (\<forall>j < k. F m ! (2 * j + 1) = alpha ! (2 * j + 1) \<and>
      F m ! (2 * j) = (if j < m then alpha ! (2 * j) - c * alpha ! (2 * j + 1) else alpha ! (2 * j)))" if "m \<le> k" for m
    using that
  proof (induction m)
    case 0
    then show ?case using assms(1) by (simp add: F_def)
  next
    case (Suc m)
    have "F (Suc m) = (F m)[2 * m := F m ! (2 * m) - c * F m ! (2 * m + 1)]" by (simp add: F_def)
    moreover have "2 * j + 1 \<noteq> 2 * m" for j by presburger
    ultimately show ?case using Suc by (auto simp: nth_list_update less_Suc_eq)
  qed
  from this [of k] show "fold_min c alpha ! (2 * i) = alpha ! (2 * i) - c * alpha ! (2 * i + 1)"
    "fold_min c alpha ! (2 * i + 1) = alpha ! (2 * i + 1)" "length (fold_min c alpha) = 2 * k"
    using assms by (simp_all add: fold_min_def F_def)
qed

lemma back_to_float_nth:
  assumes "length alpha = (if asymmetric then 2 * channel else channel)" and "0 < channel" and "p < channel * area"
  shows "back_to_float asymmetric alpha (channel * area) w ! p =
      of_int (sint (w ! p)) * (if asymmetric then alpha ! (2 * (p div area) + 1) else alpha ! (p div area)) +
      (if asymmetric then alpha ! (2 * (p div area)) else 0)"
    and "length (back_to_float asymmetric alpha (channel * area) w) = channel * area"
proof -
  have c: "(if asymmetric then length alpha div 2 else length alpha) = channel" using assms(1) by auto
  define g where "g = (\<lambda>i p. of_int (sint (w ! p)) * (if asymmetric then alpha ! (2 * i + 1) else alpha ! i) + (if asymmetric then alpha ! (2 * i) else 0))"
  have "back_to_float asymmetric alpha (channel * area) w = concat (map (\<lambda>i. map (\<lambda>j. g i (i * area + j)) [0..<area]) [0..<channel])"
    unfolding back_to_float_def c Let_def g_def using assms(2) by simp
  then have "back_to_float asymmetric alpha (channel * area) w = map (\<lambda>p. g (p div area) p) [0..<channel * area]"
    by (simp only: concat_rows_div)
  then show "back_to_float asymmetric alpha (channel * area) w ! p =
      of_int (sint (w ! p)) * (if asymmetric then alpha ! (2 * (p div area) + 1) else alpha ! (p div area)) +
      (if asymmetric then alpha ! (2 * (p div area)) else 0)"
    "length (back_to_float asymmetric alpha (channel * area) w) = channel * area" using assms(3) by (simp_all add: g_def)
qed

lemma byte_range: "b \<in> {1..8} \<Longrightarrow> - (2 ^ (b - 1)) \<le> v \<and> v < 2 ^ (b - 1) \<Longrightarrow> sint (word_of_int v :: byte) = v"
  using offset_range [of b] by (intro sint_small) linarith+

lemma WriteCQBlobs_decoded:
  assumes b: "b \<in> {1..8}" and size: "area * channel < 2 ^ 31" "area < 2 ^ 31" "channel < 2 ^ 31"
    and range: "\<forall>p < channel * area. - (2 ^ (b - 1)) \<le> quantize asymmetric b alphaData (p div area) (w ! p) \<and>
        quantize asymmetric b alphaData (p div area) (w ! p) < 2 ^ (b - 1)"
    and stream: "WriteCQBlobs w alphaData area channel asymmetric b = (s, u)"
  shows "\<exists>blob info. ReadQuanData u False False forceFloat False s new_int8_common = Some ((Some blob, channel * area, info), []) \<and>
    (\<forall>p < channel * area. sint (blob ! p) = quantize asymmetric b alphaData (p div area) (w ! p))"
proof -
  let ?v = "\<lambda>p. quantize asymmetric b alphaData (p div area) (w ! p)"
  have clamp: "quantize_clamped asymmetric b alphaData (p div area) (w ! p) = ?v p" if "p < channel * area" for p
    using range that by (auto simp: quantize_clamped_def Let_def)
  have "concat (map (\<lambda>i. map (\<lambda>j. word_of_int (quantize_clamped asymmetric b alphaData i (w ! (i * area + j)) + 2 ^ (b - 1))) [0..<area]) [0..<channel]) =
      map (\<lambda>p. word_of_int (quantize_clamped asymmetric b alphaData (p div area) (w ! p) + 2 ^ (b - 1)) :: byte) [0..<channel * area]"
    by (rule concat_rows_div)
  also have "\<dots> = map (\<lambda>x. word_of_int (x + 2 ^ (b - 1))) (map ?v [0..<channel * area])" using clamp by simp
  finally have st: "write_dense b area channel (map (\<lambda>x. word_of_int (x + 2 ^ (b - 1))) (map ?v [0..<channel * area])) = (s, u)"
    using stream b by (simp add: WriteCQBlobs_def need_bits_eq)
  have "\<exists>d. ReadQuanData u False False forceFloat False (s @ []) new_int8_common = Some (d, []) \<and>
      weights_of d (length (map ?v [0..<channel * area])) = Some (map word_of_int (map ?v [0..<channel * area])) \<and>
      (\<not> False \<longrightarrow> fst (snd d) = length (map ?v [0..<channel * area]) \<and> \<not> canUseInt4 (snd (snd d)))"
    by (rule dense_roundtrip [OF b size _ _ _ st]) (use range in \<open>auto simp: new_int8_common_def\<close>)
  then obtain blob info where d: "ReadQuanData u False False forceFloat False s new_int8_common = Some ((Some blob, channel * area, info), [])"
    "take (channel * area) blob = map word_of_int (map ?v [0..<channel * area])"
    by (auto simp: weights_of_def)
  have "sint (blob ! p) = ?v p" if "p < channel * area" for p
  proof -
    have "blob ! p = word_of_int (?v p)" using arg_cong [OF d(2), of "\<lambda>l. l ! p"] that by simp
    then show ?thesis using byte_range [OF b] range that by simp
  qed
  then show ?thesis using d(1) by blast
qed

lemma encode_fields:
  assumes "q = idst_encode weight scale kernelSize kernelNum asymmetric clampMin b detectSparse"
  shows "idst_alpha q = scale" "idst_quantScale q = 1" "idst_aMin q = (if asymmetric then clampMin else 0)"
    "idst_readType q = (if asymmetric then int kernelNum else 0)" "idst_has_scaleInt q = False"
  using assms by (simp_all add: idst_encode_def Let_def split: prod.splits)

lemma encode_stream:
  assumes "q = idst_encode (FloatWeight w) scale kernelSize kernelNum asymmetric clampMin b detectSparse" and b: "b \<in> {1..8}"
  shows "(idst_type q = 1 \<and> WriteCQBlobs w scale kernelSize kernelNum asymmetric b = (idst_buffer q, idst_shapeInt32 q)) \<or>
    (idst_type q = 2 \<and> WriteSparseQuanBlobs w scale kernelSize kernelNum asymmetric b = Some (idst_buffer q, idst_shapeInt32 q))"
proof -
  obtain s u where cq: "WriteCQBlobs w scale kernelSize kernelNum asymmetric b = (s, u)" by (metis surj_pair)
  show ?thesis
  proof (cases "WriteSparseQuanBlobs w scale kernelSize kernelNum asymmetric b")
    case None
    then show ?thesis by (simp add: assms(1) idst_encode_def Let_def cq)
  next
    case (Some su)
    obtain s2 u2 where su: "su = (s2, u2)" by (metis surj_pair)
    have "u2 = u" using cq Some b
      by (auto simp: su WriteCQBlobs_def WriteSparseQuanBlobs_def write_dense_def need_bits_eq Let_def split: if_splits prod.splits)
    then show ?thesis by (simp add: assms(1) idst_encode_def Let_def cq Some su)
  qed
qed

lemma load_decoded:
  assumes dec: "(idst_type q = 1 \<and> ReadQuanData (idst_shapeInt32 q) False False forceFloat False (idst_buffer q) new_int8_common =
        Some ((Some blob, n, info), r)) \<or>
      (idst_type q = 2 \<and> ReadSparseQuanData (idst_shapeInt32 q) False (idst_alpha q) (idst_buffer q) new_int8_common = Some ((Some blob, n, info), r))"
    and q: "idst_quantScale q = 1" "idst_has_scaleInt q = False" "asymmetric \<longleftrightarrow> idst_readType q \<noteq> 0" "asymmetric \<Longrightarrow> idst_aMin q < 0"
  shows "\<exists>r. idst_load q forceFloat False = Some (Some r) \<and>
    lweightFloat r = Some (back_to_float asymmetric (if asymmetric then fold_min (of_int (idst_aMin q)) (idst_alpha q) else idst_alpha q) n blob)"
proof -
  have "asymmetric \<Longrightarrow> idst_aMin q \<noteq> 0" using q(4) by auto
  with dec show ?thesis using q by (elim disjE conjE) (simp_all add: idst_load_def Let_def)
qed

lemma quantize_near:
  assumes "has_scale (alphaData ! (if asymmetric then 2 * i + 1 else i))"
  shows "\<bar>(of_int (quantize asymmetric b alphaData i w) + (if asymmetric then 2 ^ (b - 1) else 0)) * alphaData ! (if asymmetric then 2 * i + 1 else i) +
      (if asymmetric then alphaData ! (2 * i) else 0) - w\<bar> \<le> alphaData ! (if asymmetric then 2 * i + 1 else i) / 2"
proof -
  define al where "al = alphaData ! (if asymmetric then 2 * i + 1 else i)"
  define x where "x = w - (if asymmetric then alphaData ! (2 * i) else 0)"
  have al: "0 < al" using assms by (simp add: has_scale_def al_def)
  have "of_int (quantize asymmetric b alphaData i w) + (if asymmetric then 2 ^ (b - 1) else 0) = rat_of_int (c_round (x / al))"
    using assms by (cases asymmetric) (simp_all add: quantize_def Let_def al_def x_def)
  moreover have "\<bar>rat_of_int (c_round (x / al)) * al - x\<bar> \<le> al / 2"
  proof -
    have "rat_of_int (c_round (x / al)) * al - x = (rat_of_int (c_round (x / al)) - x / al) * al" using al by (simp add: field_simps)
    then have "\<bar>rat_of_int (c_round (x / al)) * al - x\<bar> = \<bar>rat_of_int (c_round (x / al)) - x / al\<bar> * al" using al by (simp add: abs_mult)
    also have "\<dots> \<le> 1 / 2 * al" using al by (intro mult_right_mono c_round_near) simp
    finally show ?thesis by simp
  qed
  ultimately show ?thesis unfolding al_def [symmetric] by (simp add: x_def algebra_simps)
qed

lemma quantize_clamped_range:
  assumes "b \<in> {1..8}"
  shows "- (2 ^ (b - 1)) \<le> quantize_clamped asymmetric b alphaData i w \<and> quantize_clamped asymmetric b alphaData i w < 2 ^ (b - 1)"
  by (auto simp: quantize_clamped_def quantize_def Let_def)

lemma quantize_clamped_in_range:
  "- (2 ^ (b - 1)) \<le> quantize asymmetric b alphaData i w \<Longrightarrow> quantize asymmetric b alphaData i w < 2 ^ (b - 1) \<Longrightarrow>
     quantize_clamped asymmetric b alphaData i w = quantize asymmetric b alphaData i w"
  by (auto simp: quantize_clamped_def Let_def)

text \<open>The dense writer clamps, so that no value is out of range.\<close>

lemma WriteCQBlobs_read:
  assumes b: "b \<in> {1..8}" and size: "area * channel < 2 ^ 31" "area < 2 ^ 31" "channel < 2 ^ 31"
    and stream: "WriteCQBlobs w alphaData area channel asymmetric b = (s, u)"
  shows "\<exists>d. ReadQuanData u False forceQuant forceFloat False s new_int8_common = Some (d, []) \<and>
    weights_of d (channel * area) = Some (map (\<lambda>p. word_of_int (quantize_clamped asymmetric b alphaData (p div area) (w ! p))) [0..<channel * area])"
proof -
  let ?vals = "map (\<lambda>p. quantize_clamped asymmetric b alphaData (p div area) (w ! p)) [0..<channel * area]"
  have "concat (map (\<lambda>i. map (\<lambda>j. word_of_int (quantize_clamped asymmetric b alphaData i (w ! (i * area + j)) + 2 ^ (b - 1))) [0..<area]) [0..<channel]) =
      map (\<lambda>p. word_of_int (quantize_clamped asymmetric b alphaData (p div area) (w ! p) + 2 ^ (b - 1)) :: byte) [0..<channel * area]"
    by (rule concat_rows_div)
  also have "\<dots> = map (\<lambda>x. word_of_int (x + 2 ^ (b - 1))) ?vals" by simp
  finally have st: "write_dense b area channel (map (\<lambda>x. word_of_int (x + 2 ^ (b - 1))) ?vals) = (s, u)"
    using stream b by (simp add: WriteCQBlobs_def need_bits_eq)
  have "\<exists>d. ReadQuanData u False forceQuant forceFloat False (s @ []) new_int8_common = Some (d, []) \<and>
      weights_of d (length ?vals) = Some (map word_of_int ?vals) \<and>
      (\<not> forceQuant \<longrightarrow> fst (snd d) = length ?vals \<and> \<not> canUseInt4 (snd (snd d)))"
    by (rule dense_roundtrip [OF b size _ _ _ st]) (use quantize_clamped_range [OF b] in \<open>auto simp: new_int8_common_def\<close>)
  then show ?thesis by (auto simp: o_def)
qed

lemma sparse_detected:
  "idst_type (idst_encode (FloatWeight w) scale kernelSize kernelNum asymmetric clampMin b detectSparse) = 2 \<Longrightarrow> detectSparse"
  by (cases detectSparse) (simp_all add: idst_encode_def Let_def split: prod.splits)

lemma load_int8:
  assumes dec: "(idst_type q = 1 \<and> ReadQuanData (idst_shapeInt32 q) False True forceFloat False (idst_buffer q) new_int8_common =
        Some ((Some blob, n, info), r)) \<or>
      (idst_type q = 2 \<and> ReadSparseQuanData (idst_shapeInt32 q) False (idst_alpha q) (idst_buffer q) new_int8_common = Some ((Some blob, n, info), r))"
    and q: "idst_quantScale q = 1" "idst_has_scaleInt q = False"
  shows "\<exists>alpha. idst_load q forceFloat True =
      Some (Some \<lparr>lweight = blob, lalpha = alpha, lweightFloat = None, lasymmetric = (idst_readType q \<noteq> 0), linfo = info\<rparr>) \<and>
    (alpha = idst_alpha q \<or> idst_readType q \<noteq> 0 \<and> (\<exists>c. alpha = fold_min c (idst_alpha q)))"
  using dec q by (elim disjE conjE) (auto simp: idst_load_def Let_def)

text \<open>
  C30. The quantised weights that \<open>load\<close> gives an integer kernel, in bytes or packed two to a byte, are the values
  \<open>encode\<close> has computed, for symmetric and asymmetric scales, every width, and whichever of the two streams the
  encoder chose; the scale of every channel is handed on as it is. The dense stream holds the clamped values
  of any weights; where the encoder may choose the sparse one, the values and backgrounds must be in the
  table, see above.
\<close>

theorem encode_load_weights:
  assumes b: "b \<in> {1..8}" and size: "area * channel < 2 ^ 31" "area < 2 ^ 31" "channel < 2 ^ 31" and pos: "0 < channel"
    and l: "length alphaData = (if asymmetric then 2 * channel else channel)"
    and sparse: "detectSparse \<longrightarrow>
      (\<forall>p < channel * area. - (2 ^ (b - 1)) \<le> quantize asymmetric b alphaData (p div area) (w ! p) \<and>
         quantize asymmetric b alphaData (p div area) (w ! p) < 2 ^ (b - 1)) \<and>
      (\<forall>x \<in> set (background asymmetric b alphaData area channel). - (2 ^ (b - 1)) \<le> x \<and> x < 2 ^ (b - 1))"
  shows "\<exists>r. idst_load (idst_encode (FloatWeight w) alphaData area channel asymmetric clampMin b detectSparse) forceFloat True = Some (Some r) \<and>
    weights_of (Some (lweight r), channel * area, linfo r) (channel * area) =
      Some (map (\<lambda>p. word_of_int (quantize_clamped asymmetric b alphaData (p div area) (w ! p))) [0..<channel * area]) \<and>
    lasymmetric r = asymmetric \<and> length (lalpha r) = length alphaData \<and>
    (\<forall>i < channel. let k = if asymmetric then 2 * i + 1 else i in lalpha r ! k = alphaData ! k)"
proof -
  define q where "q = idst_encode (FloatWeight w) alphaData area channel asymmetric clampMin b detectSparse"
  note f = encode_fields [OF q_def]
  let ?vals = "map (\<lambda>p. word_of_int (quantize_clamped asymmetric b alphaData (p div area) (w ! p)) :: byte) [0..<channel * area]"
  have "\<exists>blob n info. ((idst_type q = 1 \<and> ReadQuanData (idst_shapeInt32 q) False True forceFloat False (idst_buffer q) new_int8_common =
        Some ((Some blob, n, info), [])) \<or>
      (idst_type q = 2 \<and> ReadSparseQuanData (idst_shapeInt32 q) False (idst_alpha q) (idst_buffer q) new_int8_common =
        Some ((Some blob, n, info), []))) \<and> weights_of (Some blob, channel * area, info) (channel * area) = Some ?vals"
    using encode_stream [OF q_def b]
  proof (elim disjE conjE)
    assume t: "idst_type q = 1" and cq: "WriteCQBlobs w alphaData area channel asymmetric b = (idst_buffer q, idst_shapeInt32 q)"
    from WriteCQBlobs_read [OF b size cq, of True forceFloat] t show ?thesis by (fastforce simp: weights_of_def)
  next
    assume t: "idst_type q = 2" and sq: "WriteSparseQuanBlobs w alphaData area channel asymmetric b = Some (idst_buffer q, idst_shapeInt32 q)"
    from sparse sparse_detected t q_def have
      range: "\<forall>p < channel * area. - (2 ^ (b - 1)) \<le> quantize asymmetric b alphaData (p div area) (w ! p) \<and>
         quantize asymmetric b alphaData (p div area) (w ! p) < 2 ^ (b - 1)" and
      bg: "\<forall>x \<in> set (background asymmetric b alphaData area channel). - (2 ^ (b - 1)) \<le> x \<and> x < 2 ^ (b - 1)" by blast+
    have "stored b (quantize asymmetric b alphaData (p div area) (w ! p)) = quantize_clamped asymmetric b alphaData (p div area) (w ! p)"
      if "p < channel * area" for p
      using range that quantize_clamped_in_range by (simp add: stored_def)
    then show ?thesis using t sparse_decoded [OF b size pos l bg sq, of False "[]" new_int8_common]
      by (simp add: f mult.commute weights_of_def new_int8_common_def)
  qed
  then obtain blob n info where dec: "(idst_type q = 1 \<and> ReadQuanData (idst_shapeInt32 q) False True forceFloat False (idst_buffer q) new_int8_common =
        Some ((Some blob, n, info), [])) \<or>
      (idst_type q = 2 \<and> ReadSparseQuanData (idst_shapeInt32 q) False (idst_alpha q) (idst_buffer q) new_int8_common =
        Some ((Some blob, n, info), []))"
    and blob: "weights_of (Some blob, channel * area, info) (channel * area) = Some ?vals" by blast
  from load_int8 [OF dec f(2,5)] obtain alpha where
    load: "idst_load q forceFloat True =
      Some (Some \<lparr>lweight = blob, lalpha = alpha, lweightFloat = None, lasymmetric = (idst_readType q \<noteq> 0), linfo = info\<rparr>)"
    and alpha: "alpha = alphaData \<or> asymmetric \<and> (\<exists>c. alpha = fold_min c alphaData)"
    using f pos by (auto split: if_splits)
  have "length alpha = length alphaData \<and> (\<forall>i < channel. let k = if asymmetric then 2 * i + 1 else i in alpha ! k = alphaData ! k)"
    using alpha
  proof (elim disjE conjE exE)
    fix c assume a: asymmetric "alpha = fold_min c alphaData"
    then show ?thesis using l fold_min_nth [of alphaData channel _ c] pos by (simp add: Let_def)
  qed simp
  then show ?thesis using load blob f(4) pos unfolding q_def by auto
qed

text \<open>
  In exact arithmetic the weights that are loaded as \<open>float\<close> are at most half a step away from those that were
  encoded, when no value and no background is outside the table.
\<close>

lemma load_error:
  assumes b: "b \<in> {1..8}" and size: "area * channel < 2 ^ 31" "area < 2 ^ 31" "channel < 2 ^ 31" and pos: "0 < channel"
    and l: "length alphaData = (if asymmetric then 2 * channel else channel)"
    and scales: "\<forall>i < channel. has_scale (alphaData ! (if asymmetric then 2 * i + 1 else i))"
    and range: "\<forall>p < channel * area. - (2 ^ (b - 1)) \<le> quantize asymmetric b alphaData (p div area) (w ! p) \<and>
        quantize asymmetric b alphaData (p div area) (w ! p) < 2 ^ (b - 1)"
    and bg: "\<forall>x \<in> set (background asymmetric b alphaData area channel). - (2 ^ (b - 1)) \<le> x \<and> x < 2 ^ (b - 1)"
  shows "\<exists>r fs. idst_load (idst_encode (FloatWeight w) alphaData area channel asymmetric (- (2 ^ (b - 1))) b detectSparse) forceFloat False = Some (Some r) \<and>
    lweightFloat r = Some fs \<and> length fs = channel * area \<and>
    (\<forall>p < channel * area. \<bar>fs ! p - w ! p\<bar> \<le> alphaData ! (if asymmetric then 2 * (p div area) + 1 else p div area) / 2)"
proof -
  define q where "q = idst_encode (FloatWeight w) alphaData area channel asymmetric (- (2 ^ (b - 1))) b detectSparse"
  note f = encode_fields [OF q_def]
  let ?v = "\<lambda>p. quantize asymmetric b alphaData (p div area) (w ! p)"
  have "\<exists>blob info. ((idst_type q = 1 \<and> ReadQuanData (idst_shapeInt32 q) False False forceFloat False (idst_buffer q) new_int8_common =
        Some ((Some blob, channel * area, info), [])) \<or>
      (idst_type q = 2 \<and> ReadSparseQuanData (idst_shapeInt32 q) False (idst_alpha q) (idst_buffer q) new_int8_common =
        Some ((Some blob, channel * area, info), []))) \<and> (\<forall>p < channel * area. sint (blob ! p) = ?v p)"
    using encode_stream [OF q_def b]
  proof (elim disjE conjE)
    assume t: "idst_type q = 1" and cq: "WriteCQBlobs w alphaData area channel asymmetric b = (idst_buffer q, idst_shapeInt32 q)"
    from WriteCQBlobs_decoded [OF b size range cq, of forceFloat] t show ?thesis by blast
  next
    assume t: "idst_type q = 2" and sq: "WriteSparseQuanBlobs w alphaData area channel asymmetric b = Some (idst_buffer q, idst_shapeInt32 q)"
    have "sint (word_of_int (stored b (?v p)) :: byte) = ?v p" if "p < channel * area" for p
      using byte_range [OF b, of "?v p"] range that by (simp add: stored_def)
    then show ?thesis using t sparse_decoded [OF b size pos l bg sq, of False "[]" new_int8_common]
      by (simp add: f mult.commute)
  qed
  then obtain blob info where dec: "(idst_type q = 1 \<and> ReadQuanData (idst_shapeInt32 q) False False forceFloat False (idst_buffer q) new_int8_common =
        Some ((Some blob, channel * area, info), [])) \<or>
      (idst_type q = 2 \<and> ReadSparseQuanData (idst_shapeInt32 q) False (idst_alpha q) (idst_buffer q) new_int8_common =
        Some ((Some blob, channel * area, info), []))"
    and blob: "\<forall>p < channel * area. sint (blob ! p) = ?v p" by blast
  define alpha where "alpha = (if asymmetric then fold_min (of_int (idst_aMin q)) alphaData else alphaData)"
  define fs where "fs = back_to_float asymmetric alpha (channel * area) blob"
  have "\<exists>r. idst_load q forceFloat False = Some (Some r) \<and> lweightFloat r = Some fs"
    unfolding fs_def alpha_def f(1) [symmetric] by (rule load_decoded [OF dec f(2,5)]) (use pos in \<open>simp_all add: f\<close>)
  moreover have la: "length alpha = (if asymmetric then 2 * channel else channel)"
    using l fold_min_nth(3) [of alphaData channel 0] pos by (simp add: alpha_def)
  then have "length fs = channel * area"
    unfolding fs_def back_to_float_def Let_def using pos by (simp add: length_concat o_def sum_list_triv)
  moreover have "\<bar>fs ! p - w ! p\<bar> \<le> alphaData ! (if asymmetric then 2 * (p div area) + 1 else p div area) / 2" if p: "p < channel * area" for p
  proof -
    have i: "p div area < channel" using p by (simp add: less_mult_imp_div_less)
    have "fs ! p = (of_int (?v p) + (if asymmetric then 2 ^ (b - 1) else 0)) * alphaData ! (if asymmetric then 2 * (p div area) + 1 else p div area) +
        (if asymmetric then alphaData ! (2 * (p div area)) else 0)"
    proof (cases asymmetric)
      case True
      then have "alpha ! (2 * (p div area)) = alphaData ! (2 * (p div area)) + 2 ^ (b - 1) * alphaData ! (2 * (p div area) + 1)"
        "alpha ! (2 * (p div area) + 1) = alphaData ! (2 * (p div area) + 1)"
        using fold_min_nth(1,2) [of alphaData channel "p div area" "- (2 ^ (b - 1))"] l i by (simp_all add: alpha_def f(3))
      moreover have "fs ! p = of_int (?v p) * alpha ! (2 * (p div area) + 1) + alpha ! (2 * (p div area))"
        unfolding fs_def back_to_float_nth(1) [OF la pos p] using blob p True by simp
      ultimately show ?thesis using True by (simp add: algebra_simps)
    next
      case False
      then show ?thesis unfolding fs_def back_to_float_nth(1) [OF la pos p] using blob p by (simp add: alpha_def)
    qed
    then show ?thesis using quantize_near [of alphaData asymmetric "p div area" b "w ! p"] scales i by simp
  qed
  ultimately show ?thesis unfolding q_def by blast
qed

section \<open>The width from the size\<close>

lemma table_size_mono: "m < n \<Longrightarrow> table_size w m < table_size w n"
proof -
  assume "m < n"
  then have "(2 :: int) ^ m < 2 ^ n" "(w * m + 7) div 8 \<le> (w * n + 7) div 8"
    by (simp, intro div_le_mono add_le_mono mult_le_mono) simp_all
  then have "int ((w * m + 7) div 8) \<le> int ((w * n + 7) div 8)" "(2 :: int) ^ m < 2 ^ n" by simp_all
  then show ?thesis unfolding table_size_def by linarith
qed

lemma table_size_inj: "table_size w m = table_size w n \<Longrightarrow> m = n"
  using table_size_mono [of m n w] table_size_mono [of n m w] by (cases m n rule: linorder_cases) auto

lemma find_unique:
  assumes "x \<in> set xs" and "\<And>y. P y \<longleftrightarrow> y = x"
  shows "find P xs = Some x"
  using assms by (induction xs) auto

text \<open>
  The width of the indices is recovered from the size of a dense stream, whatever the quotient of the two
  numbers gave, when the two extents of the stream fit into 16 bits exactly if the two channel counts do.
\<close>

theorem quant_bits_recovered:
  assumes b: "b \<in> {2..8}" and fit: "65535 < inputCount * kernelX * kernelY \<or> 65535 < outputCount \<longleftrightarrow> 65535 < inputCount \<or> 65535 < outputCount"
    and stream: "WriteCQBlobsInt8 w (inputCount * kernelX * kernelY) outputCount b = (s, u)"
  shows "getQuantBitFromExternalFile estimate True (Some 1) inputCount outputCount kernelX kernelY (length s) = b"
proof -
  have b1: "b \<in> {1..8}" using b by auto
  let ?w = "inputCount * outputCount * kernelX * kernelY"
  have "int (length s) - (1 + (if 65535 < inputCount \<or> 65535 < outputCount then 8 else 4) + 1) = table_size ?w b"
  proof -
    have "length (fst (WriteBlobDim [int outputCount, int (inputCount * kernelX * kernelY)])) = 1 + (if 65535 < inputCount \<or> 65535 < outputCount then 8 else 4)"
      using fit by (auto simp: WriteBlobDim_def Let_def simp flip: of_nat_mult)
    moreover have "length s = length (fst (WriteBlobDim [int outputCount, int (inputCount * kernelX * kernelY)])) + 1 + 2 ^ b + (?w * b + 7) div 8"
    proof -
      have e: "b * (inputCount * kernelX * kernelY) * outputCount = ?w * b" by simp
      show ?thesis unfolding e [symmetric] using arg_cong [OF stream, of "\<lambda>p. length (fst p)"] b1
        by (simp add: WriteCQBlobsInt8_def write_dense_def need_bits_eq weight_set_length Let_def split: prod.splits)
    qed
    ultimately show ?thesis by (simp add: table_size_def)
  qed
  moreover have "find (\<lambda>i. table_size ?w i = table_size ?w b) [2..<9] = Some b"
    by (rule find_unique) (use b table_size_inj in auto)
  ultimately show ?thesis using table_size_inj [of ?w estimate b] by (simp add: getQuantBitFromExternalFile_def Let_def)
qed

section \<open>Concrete inputs\<close>

definition demo_weights :: "rat list" where
  "demo_weights = [7 / 2, - 4, 0, 1 / 3, 0, 2, - 1, 5 / 4]"

lemma int8_roundtrip_witness:
  "map_option (\<lambda>(d, r). (weights_of d 6, r))
     (ReadQuanData (snd (WriteCQBlobsInt8 [1, - 4, 3, 0, - 1, 2] 3 2 3)) False True False True
       (fst (WriteCQBlobsInt8 [1, - 4, 3, 0, - 1, 2] 3 2 3) @ [9]) new_int8_common) = Some (Some [1, - 4, 3, 0, - 1, 2], [9])"
proof -
  have "\<forall>x \<in> set [1, - 4, 3, 0, - 1, 2 :: byte]. - (2 ^ (3 - 1)) \<le> sint x \<and> sint x < 2 ^ (3 - 1)" by code_simp
  then show ?thesis
    using int8_roundtrip [of 3 3 2 "[1, - 4, 3, 0, - 1, 2]" "fst (WriteCQBlobsInt8 [1, - 4, 3, 0, - 1, 2] 3 2 3)"
      "snd (WriteCQBlobsInt8 [1, - 4, 3, 0, - 1, 2] 3 2 3)" False True False True "[9]"] by simp
qed

text \<open>There is a sparse stream as soon as one value is not the background, at least for small inputs.\<close>

lemma GetBestMaxStep_some:
  assumes pos: "\<And>k. GetSparsity q n k \<noteq> 0" and first: "(GetSparsity q n 3 * 2 + 7) div 8 + (GetSparsity q n 3 * d + 7) div 8 < 1000000000"
  shows "snd (GetBestMaxStep q n d) \<noteq> 0"
proof -
  define f where "f = (\<lambda>i (bits, best, sz). (let nnz = GetSparsity q n (2 ^ i - 1); tmp = (nnz * i + 7) div 8 + (nnz * d + 7) div 8
      in if tmp < sz then (i, nnz, tmp) else (bits, best, sz)))"
  have keep: "fst (snd (fold f ks st)) \<noteq> 0" if "fst (snd st) \<noteq> 0" for ks st
    using that
  proof (induction ks arbitrary: st)
    case (Cons k ks)
    have "fst (snd (f k st)) \<noteq> 0" using Cons.prems pos by (auto simp: f_def Let_def split: prod.splits)
    then show ?case using Cons.IH by simp
  qed simp
  have "fst (snd (f 2 (0, 0, 1000000000))) \<noteq> 0" using first pos by (simp add: f_def Let_def)
  from keep [OF this, of "[3..<9]"] have "fst (snd (fold f [2..<9] (0, 0, 1000000000))) \<noteq> 0"
    by (simp add: upt_conv_Cons [of 2 9] del: upt_rec_numeral)
  then show ?thesis unfolding GetBestMaxStep_def f_def [symmetric] by (simp add: case_prod_unfold Let_def del: upt_rec_numeral)
qed

lemma sparse_stream_exists:
  assumes b: "b \<in> {1..8}" and n: "area * channel \<le> 1000" and l: "0 < area" "p < area * channel"
    and differ: "quantize asymmetric b alphaData (p div area) (weightData ! p) \<noteq> background asymmetric b alphaData area channel ! p"
  shows "\<exists>s u. WriteSparseQuanBlobs weightData alphaData area channel asymmetric b = Some (s, u)"
proof -
  let ?q = "sparse_quant asymmetric b alphaData area weightData"
  let ?z = "background asymmetric b alphaData area channel"
  let ?v = "\<lambda>i. quantize asymmetric b alphaData (i div area) (weightData ! i)"
  have z: "length ?z = area * channel" by (simp add: background_def mult.commute)
  have q: "?q i = (?v i, ?z ! i)" if "i < length ?z" for i
    using that by (simp add: sparse_quant_def background_def mult.commute)
  have all: "GetSparsity ?q (area * channel) k \<noteq> 0" if "1 \<le> k" for k
  proof
    assume "GetSparsity ?q (area * channel) k = 0"
    then have "sparse_entries ?q k (length ?z) = []" by (simp add: GetSparsity_entries z)
    then have eq: "?z = map ?v [0..<length ?z]" using sparse_entries_place(1) [OF that q] by simp
    have "?z ! p = ?v p" using l z by (subst eq) simp
    then show False using differ by simp
  qed
  have zero: "GetSparsity ?q (area * channel) 0 \<noteq> 0"
  proof -
    obtain m where m: "area * channel = Suc m" using l by (metis less_nat_zero_code not0_implies_Suc)
    show ?thesis unfolding GetSparsity_def m by (simp add: sparsity_step_def case_prod_unfold Let_def)
  qed
  have pos: "GetSparsity ?q (area * channel) k \<noteq> 0" for k using all zero by (cases k) auto
  have "GetSparsity ?q (area * channel) 3 \<le> 1000"
    using sparse_entries_place(2) [of 3 ?z ?q ?v, OF _ q] n by (simp add: GetSparsity_entries z)
  then have "(GetSparsity ?q (area * channel) 3 * 2 + 7) div 8 + (GetSparsity ?q (area * channel) 3 * b + 7) div 8 < 1000000000"
  proof -
    assume g: "GetSparsity ?q (area * channel) 3 \<le> 1000"
    have "GetSparsity ?q (area * channel) 3 * b \<le> 1000 * 8" using g b by (intro mult_le_mono) auto
    then show ?thesis using g by linarith
  qed
  from GetBestMaxStep_some [OF pos this] show ?thesis
    using b by (auto simp: WriteSparseQuanBlobs_def need_bits_eq Let_def split: prod.splits)
qed

lemma background_symmetric: "background False b alphaData area channel = replicate (channel * area) 0"
  by (simp add: background_def map_replicate_const)

lemma demo_quantized:
  "map (quantize False 4 [1] 0) demo_weights = [4, - 4, 0, 0, 0, 2, - 1, 1]"
  "map (\<lambda>p. quantize False 4 [1] (p div 8) (demo_weights ! p)) [0..<8] = [4, - 4, 0, 0, 0, 2, - 1, 1]"
  by code_simp+

lemma sparse_stream_roundtrip_witness:
  "\<exists>s u. WriteSparseQuanBlobs demo_weights [1] 8 1 False 4 = Some (s, u) \<and>
     map_option (\<lambda>((blob, len, _), r). (blob, len, r)) (ReadSparseQuanData u False [1] (s @ [5]) new_int8_common) =
       Some (Some [4, - 4, 0, 0, 0, 2, - 1, 1], 8, [5])"
proof -
  have v: "quantize False 4 [1] (p div 8) (demo_weights ! p) = [4, - 4, 0, 0, 0, 2, - 1, 1] ! p" if "p < 8" for p
    using arg_cong [OF demo_quantized(2), of "\<lambda>l. l ! p"] that by simp
  have "\<forall>p < 8. - (2 ^ (4 - 1)) \<le> [4, - 4, 0, 0, 0, 2, - 1, 1 :: int] ! p \<and> [4, - 4, 0, 0, 0, 2, - 1, 1 :: int] ! p < 2 ^ (4 - 1)" by code_simp
  then have range: "\<forall>p < 8 * 1. - (2 ^ (4 - 1)) \<le> quantize False 4 [1] (p div 8) (demo_weights ! p) \<and>
      quantize False 4 [1] (p div 8) (demo_weights ! p) < 2 ^ (4 - 1)" using v by simp
  obtain s u where st: "WriteSparseQuanBlobs demo_weights [1] 8 1 False 4 = Some (s, u)"
    using sparse_stream_exists [of 4 8 1 0 False "[1]" demo_weights] v [of 0] by (auto simp: background_symmetric)
  have "map (\<lambda>p. word_of_int (quantize False 4 [1] (p div 8) (demo_weights ! p))) [0..<8 * 1] = map word_of_int (map (\<lambda>p. quantize False 4 [1] (p div 8) (demo_weights ! p)) [0..<8])"
    by simp
  also have "\<dots> = ([4, - 4, 0, 0, 0, 2, - 1, 1] :: byte list)" unfolding demo_quantized(2) by simp
  finally show ?thesis
    using sparse_stream_roundtrip [of 4 8 1 "[1]" False demo_weights s u "[5]", OF _ _ _ _ _ _ _ range st] st by (simp add: background_symmetric)
qed

lemma sparse_overflow_flips_witness:
  "\<exists>s u blob info. WriteSparseQuanBlobs demo_weights [1 / 4] 8 1 False 4 = Some (s, u) \<and>
     ReadSparseQuanData u False [1 / 4] s new_int8_common = Some ((Some blob, 8, info), []) \<and> sint (blob ! 0) = - 8 \<and>
     quantize_clamped False 4 [1 / 4] 0 (demo_weights ! 0) = 7"
proof -
  have v: "quantize False 4 [1 / 4] (0 div 8) (demo_weights ! 0) = 14" by code_simp
  obtain s u where st: "WriteSparseQuanBlobs demo_weights [1 / 4] 8 1 False 4 = Some (s, u)"
    using sparse_stream_exists [of 4 8 1 0 False "[1 / 4]" demo_weights] v by (auto simp: background_symmetric)
  have "\<exists>blob info. ReadSparseQuanData u False [1 / 4] s new_int8_common = Some ((Some blob, 8 * 1, info), []) \<and> sint (blob ! 0) = - (2 ^ (4 - 1)) \<and>
      quantize_clamped False 4 [1 / 4] (0 div 8) (demo_weights ! 0) = 2 ^ (4 - 1) - 1"
    by (rule sparse_overflow_flips [of 4 8 1 "[1 / 4]" False 0 demo_weights s u]) (use v st in \<open>simp_all add: background_symmetric\<close>)
  then show ?thesis using st by simp
qed

lemma encode_load_weights_witness:
  "\<exists>r. idst_load (idst_encode (FloatWeight demo_weights) [1] 8 1 False (- 8) 4 True) False True = Some (Some r) \<and>
     weights_of (Some (lweight r), 8, linfo r) 8 = Some [4, - 4, 0, 0, 0, 2, - 1, 1] \<and> lalpha r = [1]"
proof -
  have v: "quantize False 4 [1] (p div 8) (demo_weights ! p) = [4, - 4, 0, 0, 0, 2, - 1, 1] ! p" if "p < 8" for p
    using arg_cong [OF demo_quantized(2), of "\<lambda>l. l ! p"] that by simp
  have "\<forall>p < 8. - (2 ^ (4 - 1)) \<le> [4, - 4, 0, 0, 0, 2, - 1, 1 :: int] ! p \<and> [4, - 4, 0, 0, 0, 2, - 1, 1 :: int] ! p < 2 ^ (4 - 1)" by code_simp
  then have range: "\<forall>p < 1 * 8. - (2 ^ (4 - 1)) \<le> quantize False 4 [1] (p div 8) (demo_weights ! p) \<and>
      quantize False 4 [1] (p div 8) (demo_weights ! p) < 2 ^ (4 - 1)" using v by simp
  have "map (\<lambda>p. word_of_int (quantize_clamped False 4 [1] (p div 8) (demo_weights ! p))) [0..<1 * 8] = ([4, - 4, 0, 0, 0, 2, - 1, 1] :: byte list)"
    by code_simp
  with encode_load_weights [of 4 8 1 "[1]" False True demo_weights "- 8" False] range obtain r where
    r: "idst_load (idst_encode (FloatWeight demo_weights) [1] 8 1 False (- 8) 4 True) False True = Some (Some r)"
      "weights_of (Some (lweight r), 8, linfo r) 8 = Some [4, - 4, 0, 0, 0, 2, - 1, 1]" "length (lalpha r) = 1" "lalpha r ! 0 = 1"
    by (auto simp: background_symmetric)
  then have "lalpha r = [1]" by (simp add: list_eq_iff_nth_eq)
  with r show ?thesis by blast
qed

lemma load_error_witness:
  "\<exists>r fs. idst_load (idst_encode (FloatWeight demo_weights) [1] 8 1 False (- (2 ^ (4 - 1))) 4 True) False False = Some (Some r) \<and>
     lweightFloat r = Some fs \<and> length fs = 1 * 8 \<and> (\<forall>p < 1 * 8. \<bar>fs ! p - demo_weights ! p\<bar> \<le> [1] ! (p div 8) / 2)"
proof -
  have v: "quantize False 4 [1] (p div 8) (demo_weights ! p) = [4, - 4, 0, 0, 0, 2, - 1, 1] ! p" if "p < 8" for p
    using arg_cong [OF demo_quantized(2), of "\<lambda>l. l ! p"] that by simp
  have "\<forall>p < 8. - (2 ^ (4 - 1)) \<le> [4, - 4, 0, 0, 0, 2, - 1, 1 :: int] ! p \<and> [4, - 4, 0, 0, 0, 2, - 1, 1 :: int] ! p < 2 ^ (4 - 1)" by code_simp
  then have range: "\<forall>p < 1 * 8. - (2 ^ (4 - 1)) \<le> quantize False 4 [1] (p div 8) (demo_weights ! p) \<and>
      quantize False 4 [1] (p div 8) (demo_weights ! p) < 2 ^ (4 - 1)" using v by simp
  show ?thesis using load_error [of 4 8 1 "[1]" False demo_weights True False, OF _ _ _ _ _ _ _ range]
    by (simp add: background_symmetric has_scale_def)
qed

lemma quant_bits_recovered_witness:
  "getQuantBitFromExternalFile 7 True (Some 1) 3 2 1 1 (length (fst (WriteCQBlobsInt8 [1, - 4, 3, 0, - 1, 2] (3 * 1 * 1) 2 3))) = 3"
  by (rule quant_bits_recovered [of 3 3 1 1 2 "[1, - 4, 3, 0, - 1, 2]" _ "snd (WriteCQBlobsInt8 [1, - 4, 3, 0, - 1, 2] (3 * 1 * 1) 2 3)" 7]) simp_all

end
