(* ===== verification/Eager_Tree.thy ===== *)
theory Eager_Tree
  imports Eager_Model "HOL-Library.Multiset"
begin

text \<open>
  The nodes of an eager allocator form a forest: every node with children is split into two
  neighbours, its use count is the number of children that are not in the free list. This theory
  states the invariant over the node array, the set \<open>A\<close> of the nodes that live and the set \<open>F\<close> of the
  free ones, and shows how the three elementary changes of the code keep it: a leaf changes between
  free and busy, a leaf is split, two free children are merged.
\<close>

section \<open>The forest\<close>

definition kids :: "enode list \<Rightarrow> nat set \<Rightarrow> nat \<Rightarrow> nat set" where
  "kids ns A p = {c \<in> A. eparent (ns ! c) = Some p}"

definition leaves :: "enode list \<Rightarrow> nat set \<Rightarrow> nat set" where
  "leaves ns A = {i \<in> A. kids ns A i = {}}"

definition roots :: "enode list \<Rightarrow> nat set \<Rightarrow> nat set" where
  "roots ns A = {i \<in> A. eparent (ns ! i) = None}"

definition pair_ok :: "enode list \<Rightarrow> nat \<Rightarrow> nat set \<Rightarrow> bool" where
  "pair_ok ns p K \<longleftrightarrow> (\<exists>c d. K = {c, d} \<and> c \<noteq> d \<and> eptr (ns ! c) = eptr (ns ! p) \<and>
     eptr (ns ! d) = (fst (eptr (ns ! p)), snd (eptr (ns ! p)) + esize (ns ! c)) \<and>
     esize (ns ! p) = esize (ns ! c) + esize (ns ! d))"

definition tree_ok :: "enode list \<Rightarrow> nat set \<Rightarrow> nat set \<Rightarrow> bool" where
  "tree_ok ns A F \<longleftrightarrow>
     (\<forall>i \<in> A. i < length ns \<and> (\<forall>p. eparent (ns ! i) = Some p \<longrightarrow> p \<in> A \<and> p < i)) \<and>
     (\<forall>p \<in> A. kids ns A p \<noteq> {} \<longrightarrow> pair_ok ns p (kids ns A p)) \<and>
     (\<forall>p \<in> A. euse (ns ! p) = card (kids ns A p - F)) \<and>
     F \<subseteq> leaves ns A"

text \<open>Every node that is split has a busy child, but for one exception while a merge is running.\<close>

definition settled :: "enode list \<Rightarrow> nat set \<Rightarrow> nat set \<Rightarrow> bool" where
  "settled ns A X \<longleftrightarrow> (\<forall>p \<in> A - X. kids ns A p \<noteq> {} \<longrightarrow> 0 < euse (ns ! p))"

text \<open>Node arrays that differ in the use counts only.\<close>

definition same_geo :: "enode list \<Rightarrow> enode list \<Rightarrow> bool" where
  "same_geo ns ns' \<longleftrightarrow> length ns = length ns' \<and>
     (\<forall>i < length ns. eptr (ns' ! i) = eptr (ns ! i) \<and> eparent (ns' ! i) = eparent (ns ! i) \<and>
        esize (ns' ! i) = esize (ns ! i))"

lemma same_geo_refl [simp]: "same_geo ns ns"
  by (simp add: same_geo_def)

lemma same_geo_trans: "same_geo a b \<Longrightarrow> same_geo b c \<Longrightarrow> same_geo a c"
  by (simp add: same_geo_def)

lemma same_geo_use_count [simp]: "same_geo ns (use_count f p ns)"
  by (auto simp: same_geo_def use_count_def nth_list_update_if)

lemma same_geo_parent_count [simp]: "same_geo ns (parent_count f q ns)"
  by (cases q) (simp_all add: parent_count_def)

lemma length_use_count [simp]: "length (use_count f p ns) = length ns"
  by (simp add: use_count_def)

lemma euse_use_count:
  "i < length ns \<Longrightarrow> euse (use_count f p ns ! i) = (if i = p then f (euse (ns ! i)) else euse (ns ! i))"
  by (auto simp: use_count_def nth_list_update_if)

lemma euse_parent_count:
  "i < length ns \<Longrightarrow> euse (parent_count f q ns ! i) = (if q = Some i then f (euse (ns ! i)) else euse (ns ! i))"
  by (cases q) (auto simp: parent_count_def euse_use_count)

text \<open>The relations of the forest depend on the geometry only.\<close>

lemma same_geo_kids: "same_geo ns ns' \<Longrightarrow> \<forall>i \<in> A. i < length ns \<Longrightarrow> kids ns' A p = kids ns A p"
  by (auto simp: kids_def same_geo_def)

lemma same_geo_leaves: "same_geo ns ns' \<Longrightarrow> \<forall>i \<in> A. i < length ns \<Longrightarrow> leaves ns' A = leaves ns A"
  by (simp add: leaves_def same_geo_kids)

lemma same_geo_roots: "same_geo ns ns' \<Longrightarrow> \<forall>i \<in> A. i < length ns \<Longrightarrow> roots ns' A = roots ns A"
  by (auto simp: roots_def same_geo_def)

lemma tree_lengths: "tree_ok ns A F \<Longrightarrow> \<forall>i \<in> A. i < length ns"
  by (simp add: tree_ok_def)

lemma tree_finite: "tree_ok ns A F \<Longrightarrow> finite A"
  by (rule finite_subset [of _ "{..<length ns}"]) (auto simp: tree_ok_def)

lemma tree_parent: "tree_ok ns A F \<Longrightarrow> i \<in> A \<Longrightarrow> eparent (ns ! i) = Some p \<Longrightarrow> p \<in> A \<and> p < i \<and> i \<in> kids ns A p"
  by (auto simp: tree_ok_def kids_def)

lemma tree_pair: "tree_ok ns A F \<Longrightarrow> i \<in> A \<Longrightarrow> eparent (ns ! i) = Some p \<Longrightarrow> pair_ok ns p (kids ns A p)"
  using tree_parent [of ns A F i p] by (auto simp: tree_ok_def)

lemma finite_kids: "finite A \<Longrightarrow> finite (kids ns A p)"
  by (simp add: kids_def)

lemma pair_ok_geo:
  assumes "pair_ok ns p K" and "same_geo ns ns'" and "p < length ns" and "\<forall>i \<in> K. i < length ns"
  shows "pair_ok ns' p K"
proof -
  obtain c d where cd: "K = {c, d}" "c \<noteq> d" "eptr (ns ! c) = eptr (ns ! p)"
    "eptr (ns ! d) = (fst (eptr (ns ! p)), snd (eptr (ns ! p)) + esize (ns ! c))"
    "esize (ns ! p) = esize (ns ! c) + esize (ns ! d)"
    using assms(1) unfolding pair_ok_def by blast
  then have "c < length ns" "d < length ns" using assms(4) by auto
  then show ?thesis using cd assms(2,3) unfolding pair_ok_def
    by (intro exI [of _ c] exI [of _ d]) (simp add: same_geo_def)
qed

text \<open>Replacing the use counts and the free set.\<close>

lemma tree_recount:
  assumes tree: "tree_ok ns A F" and geo: "same_geo ns ns'" and F: "F' \<subseteq> leaves ns A"
    and use: "\<And>p. p \<in> A \<Longrightarrow> euse (ns' ! p) = card (kids ns A p - F')"
  shows "tree_ok ns' A F'"
proof -
  have len: "\<forall>i \<in> A. i < length ns" using tree_lengths [OF tree] .
  have k: "kids ns' A p = kids ns A p" for p using same_geo_kids [OF geo len] .
  have pr: "pair_ok ns' p (kids ns A p)" if "p \<in> A" "kids ns A p \<noteq> {}" for p
    using that tree len by (intro pair_ok_geo [OF _ geo]) (auto simp: tree_ok_def kids_def)
  show ?thesis unfolding tree_ok_def k same_geo_leaves [OF geo len]
    using tree F use pr geo len by (auto simp: tree_ok_def same_geo_def)
qed

section \<open>Free and busy\<close>

lemma kids_parent_eq: "i \<in> A \<Longrightarrow> i \<in> kids ns A p \<longleftrightarrow> eparent (ns ! i) = Some p"
  by (simp add: kids_def)

lemma tree_take:
  assumes tree: "tree_ok ns A F" and i: "i \<in> F"
  shows "tree_ok (parent_count Suc (eparent (ns ! i)) ns) A (F - {i})"
proof (rule tree_recount [OF tree])
  have iA: "i \<in> A" using tree i by (auto simp: tree_ok_def leaves_def)
  show "F - {i} \<subseteq> leaves ns A" using tree by (auto simp: tree_ok_def)
  fix p assume p: "p \<in> A"
  then have "p < length ns" and use: "euse (ns ! p) = card (kids ns A p - F)"
    using tree by (auto simp: tree_ok_def)
  moreover have "card (kids ns A p - (F - {i})) = (if eparent (ns ! i) = Some p then Suc (card (kids ns A p - F))
      else card (kids ns A p - F))"
  proof (cases "eparent (ns ! i) = Some p")
    case True
    then have "kids ns A p - (F - {i}) = insert i (kids ns A p - F)" using iA by (auto simp: kids_def)
    moreover have "finite (kids ns A p - F)" using tree_finite [OF tree] by (simp add: kids_def)
    ultimately show ?thesis using True i by simp
  next
    case False
    then have "kids ns A p - (F - {i}) = kids ns A p - F" by (auto simp: kids_def)
    with False show ?thesis by simp
  qed
  ultimately show "euse (parent_count Suc (eparent (ns ! i)) ns ! p) = card (kids ns A p - (F - {i}))"
    by (simp add: euse_parent_count)
qed simp

lemma tree_give:
  assumes tree: "tree_ok ns A F" and i: "i \<in> leaves ns A" "i \<notin> F"
  shows "tree_ok (parent_count (\<lambda>u. size_sub u 1) (eparent (ns ! i)) ns) A (insert i F)"
proof (rule tree_recount [OF tree])
  have iA: "i \<in> A" using i by (simp add: leaves_def)
  show "insert i F \<subseteq> leaves ns A" using tree i by (auto simp: tree_ok_def)
  fix p assume p: "p \<in> A"
  then have "p < length ns" and use: "euse (ns ! p) = card (kids ns A p - F)"
    using tree by (auto simp: tree_ok_def)
  moreover have "card (kids ns A p - insert i F) = (if eparent (ns ! i) = Some p
      then size_sub (card (kids ns A p - F)) 1 else card (kids ns A p - F))"
  proof (cases "eparent (ns ! i) = Some p")
    case True
    then have "i \<in> kids ns A p - F" using iA i by (auto simp: kids_def)
    moreover have "finite (kids ns A p - F)" using tree_finite [OF tree] by (simp add: kids_def)
    moreover have "kids ns A p - insert i F = (kids ns A p - F) - {i}" by auto
    ultimately have "0 < card (kids ns A p - F)" "card (kids ns A p - insert i F) = card (kids ns A p - F) - 1"
      by (auto simp: card_gt_0_iff)
    then show ?thesis using True by (simp add: size_sub_def)
  next
    case False
    then have "kids ns A p - insert i F = kids ns A p - F" by (auto simp: kids_def)
    with False show ?thesis by simp
  qed
  ultimately show "euse (parent_count (\<lambda>u. size_sub u 1) (eparent (ns ! i)) ns ! p) = card (kids ns A p - insert i F)"
    by (simp add: euse_parent_count)
qed simp

section \<open>Splitting and merging\<close>

lemma tree_split:
  assumes tree: "tree_ok ns A F" and x: "x \<in> leaves ns A" "x \<notin> F"
    and n: "n = ns ! x" and m: "m \<le> esize n" and a: "a = length ns" and b: "b = Suc a"
    and ns': "ns' = use_count Suc x ns @
        [\<lparr>eptr = eptr n, eparent = Some x, esize = m, euse = 0\<rparr>,
         \<lparr>eptr = (fst (eptr n), snd (eptr n) + m), eparent = Some x, esize = esize n - m, euse = 0\<rparr>]"
  shows "tree_ok ns' (A \<union> {a, b}) (insert b F) \<and> leaves ns' (A \<union> {a, b}) = leaves ns A - {x} \<union> {a, b} \<and>
     roots ns' (A \<union> {a, b}) = roots ns A \<and> kids ns' (A \<union> {a, b}) x = {a, b} \<and>
     (\<forall>p \<in> A - {x}. kids ns' (A \<union> {a, b}) p = kids ns A p)"
proof -
  have len: "\<forall>i \<in> A. i < length ns" using tree_lengths [OF tree] .
  have xA: "x \<in> A" "kids ns A x = {}" "x < length ns" using x len by (auto simp: leaves_def)
  have old: "eptr (ns' ! i) = eptr (ns ! i) \<and> eparent (ns' ! i) = eparent (ns ! i) \<and> esize (ns' ! i) = esize (ns ! i) \<and>
      euse (ns' ! i) = (if i = x then Suc (euse (ns ! i)) else euse (ns ! i))" if "i < length ns" for i
    using that by (auto simp: ns' nth_append use_count_def nth_list_update_if)
  have new: "ns' ! a = \<lparr>eptr = eptr n, eparent = Some x, esize = m, euse = 0\<rparr>"
    "ns' ! b = \<lparr>eptr = (fst (eptr n), snd (eptr n) + m), eparent = Some x, esize = esize n - m, euse = 0\<rparr>"
    by (simp_all add: ns' a b nth_append)
  have nA: "a \<notin> A" "b \<notin> A" "a \<noteq> b" "x \<noteq> a" "x \<noteq> b" using len xA a b by auto
  have ka: "kids ns' (A \<union> {a, b}) p = (if p = x then {a, b} else kids ns A p)" if "p \<in> A \<union> {a, b}" for p
    using len old new xA nA unfolding kids_def by (auto simp: kids_def)
  have kab: "kids ns A a = {}" "kids ns A b = {}" using tree nA by (auto simp: kids_def tree_ok_def)
  have lv: "leaves ns' (A \<union> {a, b}) = leaves ns A - {x} \<union> {a, b}"
    using ka kab xA nA by (auto simp: leaves_def split: if_splits)
  have rt: "roots ns' (A \<union> {a, b}) = roots ns A" using len old new nA by (auto simp: roots_def)
  have "tree_ok ns' (A \<union> {a, b}) (insert b F)" unfolding tree_ok_def
  proof (intro conjI ballI allI impI)
    fix i assume i: "i \<in> A \<union> {a, b}"
    show "i < length ns'" using i len a b by (auto simp: ns' dest: bspec)
    fix p assume p: "eparent (ns' ! i) = Some p"
    show "p \<in> A \<union> {a, b}" using i p old new tree_parent [OF tree] len xA by auto
    show "p < i" using i p old new tree_parent [OF tree] len xA a b by auto
  next
    fix p assume p: "p \<in> A \<union> {a, b}" and k: "kids ns' (A \<union> {a, b}) p \<noteq> {}"
    show "pair_ok ns' p (kids ns' (A \<union> {a, b}) p)"
    proof (cases "p = x")
      case True
      show ?thesis unfolding ka [OF p] pair_ok_def using True new nA old [OF xA(3)] m n
        by (intro exI [of _ a] exI [of _ b]) simp
    next
      case False
      with p k ka kab have "p \<in> A" "kids ns A p \<noteq> {}" by auto
      with tree have "pair_ok ns p (kids ns A p)" by (simp add: tree_ok_def)
      then obtain c d where cd: "kids ns A p = {c, d}" "c \<noteq> d" "eptr (ns ! c) = eptr (ns ! p)"
        "eptr (ns ! d) = (fst (eptr (ns ! p)), snd (eptr (ns ! p)) + esize (ns ! c))"
        "esize (ns ! p) = esize (ns ! c) + esize (ns ! d)" unfolding pair_ok_def by blast
      then have "c \<in> A" "d \<in> A" by (auto simp: kids_def)
      then show ?thesis unfolding ka [OF p] pair_ok_def using False cd old len \<open>p \<in> A\<close>
        by (intro exI [of _ c] exI [of _ d]) simp
    qed
  next
    fix p assume p: "p \<in> A \<union> {a, b}"
    have fr: "kids ns A q - insert b F = kids ns A q - F" for q using nA by (auto simp: kids_def)
    have "{a, b} - insert b F = {a}" using tree nA by (auto simp: tree_ok_def leaves_def)
    then show "euse (ns' ! p) = card (kids ns' (A \<union> {a, b}) p - insert b F)"
      unfolding ka [OF p] using p old len new tree fr kab xA nA by (auto simp: tree_ok_def)
  next
    show "insert b F \<subseteq> leaves ns' (A \<union> {a, b})" using lv tree x by (auto simp: tree_ok_def)
  qed
  then show ?thesis using lv rt ka xA by simp
qed

lemma tree_merge:
  assumes tree: "tree_ok ns A F" and p: "p \<in> A" "kids ns A p \<noteq> {}" "euse (ns ! p) = 0"
  defines "A' \<equiv> A - kids ns A p" and "F' \<equiv> F - kids ns A p"
  shows "tree_ok ns A' F' \<and> leaves ns A' = insert p (leaves ns A - kids ns A p) \<and> p \<notin> F' \<and>
     kids ns A p \<subseteq> F \<and> roots ns A' = roots ns A \<and> (\<forall>q \<in> A' - {p}. kids ns A' q = kids ns A q)"
proof -
  let ?K = "kids ns A p"
  have fin: "finite ?K" using tree_finite [OF tree] by (simp add: kids_def)
  have KF: "?K \<subseteq> F" using tree p fin by (auto simp: tree_ok_def)
  have FL: "F \<subseteq> leaves ns A" using tree by (simp add: tree_ok_def)
  have pK: "p \<notin> ?K" using tree by (auto simp: tree_ok_def kids_def)
  have pF: "p \<notin> F" using FL p by (auto simp: leaves_def)
  have ka: "kids ns A' q = (if q = p then {} else kids ns A q)" for q
    by (auto simp: A'_def kids_def)
  have noK: "kids ns A q = {}" if "q \<in> ?K" for q using that KF FL by (auto simp: leaves_def)
  have lv: "leaves ns A' = insert p (leaves ns A - ?K)"
    using p pK ka by (auto simp: leaves_def A'_def)
  have rt: "roots ns A' = roots ns A" by (auto simp: roots_def A'_def kids_def)
  have "tree_ok ns A' F'" unfolding tree_ok_def
  proof (intro conjI ballI allI impI)
    fix i assume i: "i \<in> A'"
    show "i < length ns" using i tree by (auto simp: tree_ok_def A'_def)
    fix q assume "eparent (ns ! i) = Some q"
    then have "q \<in> A" "q < i" "i \<in> kids ns A q" using i tree_parent [OF tree] by (auto simp: A'_def)
    then show "q \<in> A'" "q < i" using noK by (auto simp: A'_def)
  next
    fix q assume "q \<in> A'" "kids ns A' q \<noteq> {}"
    then show "pair_ok ns q (kids ns A' q)" using tree ka by (auto simp: tree_ok_def A'_def split: if_splits)
  next
    fix q assume q: "q \<in> A'"
    show "euse (ns ! q) = card (kids ns A' q - F')"
    proof (cases "q = p")
      case False
      then have "kids ns A q - F' = kids ns A q - F" by (auto simp: F'_def kids_def)
      then show ?thesis using False q tree ka by (auto simp: tree_ok_def A'_def)
    qed (use p ka in simp)
  next
    show "F' \<subseteq> leaves ns A'" using lv FL by (auto simp: F'_def)
  qed
  then show ?thesis using lv pF KF rt ka by (auto simp: F'_def)
qed

end
