(* ===== verification/Eager_Inv.thy ===== *)
theory Eager_Inv
  imports Eager_Tree
begin

text \<open>
  The address ranges of the forest, the merge loop of \<open>returnMemory\<close>, and the invariant of an eager
  allocator with the lemmas that \<open>getFromFreeList\<close> and \<open>returnMemory\<close> keep it.
\<close>

section \<open>Ranges\<close>

definition naddr :: "enode list \<Rightarrow> nat \<Rightarrow> addr" where
  "naddr ns i = key_addr (eptr (ns ! i))"

abbreviation node_disjoint :: "enode list \<Rightarrow> nat \<Rightarrow> nat \<Rightarrow> bool" where
  "node_disjoint ns i j \<equiv> disjoint_ranges (naddr ns i) (esize (ns ! i)) (naddr ns j) (esize (ns ! j))"

definition parent_rel :: "enode list \<Rightarrow> nat set \<Rightarrow> (nat \<times> nat) set" where
  "parent_rel ns A = {(p, c). c \<in> A \<and> eparent (ns ! c) = Some p}"

lemma child_in_parent:
  assumes "pair_ok ns p K" and "c \<in> K"
  shows "naddr ns p \<le> naddr ns c \<and> naddr ns c + esize (ns ! c) \<le> naddr ns p + esize (ns ! p)"
  using assms by (auto simp: pair_ok_def naddr_def key_addr_def)

lemma siblings_disjoint:
  assumes "pair_ok ns p K" and "c \<in> K" and "d \<in> K" and "c \<noteq> d"
  shows "node_disjoint ns c d"
  using assms by (auto simp: pair_ok_def naddr_def key_addr_def disjoint_ranges_def)

lemma descendant_in_range:
  assumes tree: "tree_ok ns A F" and "(p, c) \<in> (parent_rel ns A)\<^sup>+"
  shows "naddr ns p \<le> naddr ns c \<and> naddr ns c + esize (ns ! c) \<le> naddr ns p + esize (ns ! p)"
  using assms(2)
proof induction
  case (base c)
  then show ?case using child_in_parent [OF tree_pair [OF tree]] tree_parent [OF tree]
    by (auto simp: parent_rel_def)
next
  case (step c d)
  then have "naddr ns c \<le> naddr ns d \<and> naddr ns d + esize (ns ! d) \<le> naddr ns c + esize (ns ! c)"
    using child_in_parent [OF tree_pair [OF tree]] tree_parent [OF tree] by (auto simp: parent_rel_def)
  with step show ?case by linarith
qed

lemma disjoint_sub:
  "disjoint_ranges a m b n \<Longrightarrow> b \<le> b' \<Longrightarrow> b' + n' \<le> b + n \<Longrightarrow> disjoint_ranges a m b' n'"
  by (auto simp: disjoint_ranges_def)

text \<open>One step of the descent: a descendant of \<open>p\<close> is below exactly one child of \<open>p\<close>.\<close>

lemma tree_step:
  assumes tree: "tree_ok ns A F" and i: "i \<in> A" and j: "j \<in> A" "eparent (ns ! j) = Some p" and ij: "i \<noteq> j"
    and IH: "i \<noteq> p \<Longrightarrow> node_disjoint ns i p \<or> (i, p) \<in> (parent_rel ns A)\<^sup>+ \<or> (p, i) \<in> (parent_rel ns A)\<^sup>+"
  shows "node_disjoint ns i j \<or> (i, j) \<in> (parent_rel ns A)\<^sup>+ \<or> (j, i) \<in> (parent_rel ns A)\<^sup>+"
proof -
  let ?R = "parent_rel ns A"
  have pj: "(p, j) \<in> ?R" "j \<in> kids ns A p" using j by (auto simp: parent_rel_def kids_def)
  note pair = tree_pair [OF tree j]
  consider "i = p" | "node_disjoint ns i p" | "(i, p) \<in> ?R\<^sup>+" | "(p, i) \<in> ?R\<^sup>+" using IH by blast
  then show ?thesis
  proof cases
    case 1
    then show ?thesis using pj by blast
  next
    case 2
    then show ?thesis using disjoint_sub child_in_parent [OF pair pj(2)] by blast
  next
    case 3
    then show ?thesis using pj by (meson trancl.trancl_into_trancl)
  next
    case 4
    then obtain c where c: "(p, c) \<in> ?R" "c = i \<or> (c, i) \<in> ?R\<^sup>+"
      by (metis converse_tranclE)
    then have cK: "c \<in> kids ns A p" by (auto simp: parent_rel_def kids_def)
    show ?thesis
    proof (cases "c = j")
      case True
      then show ?thesis using c ij by auto
    next
      case False
      then have "node_disjoint ns j c" using siblings_disjoint [OF pair pj(2) cK] by blast
      moreover have "naddr ns c \<le> naddr ns i \<and> naddr ns i + esize (ns ! i) \<le> naddr ns c + esize (ns ! c)"
        using c(2) descendant_in_range [OF tree] by auto
      ultimately have "node_disjoint ns j i" using disjoint_sub by blast
      then show ?thesis using disjoint_ranges_sym by blast
    qed
  qed
qed

lemma nested_or_disjoint:
  assumes tree: "tree_ok ns A F"
    and roots: "\<And>i j. i \<in> roots ns A \<Longrightarrow> j \<in> roots ns A \<Longrightarrow> i \<noteq> j \<Longrightarrow> node_disjoint ns i j"
  shows "i \<in> A \<Longrightarrow> j \<in> A \<Longrightarrow> i \<noteq> j \<Longrightarrow>
    node_disjoint ns i j \<or> (i, j) \<in> (parent_rel ns A)\<^sup>+ \<or> (j, i) \<in> (parent_rel ns A)\<^sup>+"
proof (induction "i + j" arbitrary: i j rule: less_induct)
  case less
  show ?case
  proof (cases "eparent (ns ! j)")
    case (Some p)
    then have p: "p \<in> A" "p < j" using tree_parent [OF tree less.prems(2)] by auto
    show ?thesis
      by (rule tree_step [OF tree less.prems(1,2) Some less.prems(3)])
        (use less.hyps [of i p] less.prems p in auto)
  next
    case None
    show ?thesis
    proof (cases "eparent (ns ! i)")
      case (Some p)
      then have p: "p \<in> A" "p < i" using tree_parent [OF tree less.prems(1)] by auto
      have "node_disjoint ns j i \<or> (j, i) \<in> (parent_rel ns A)\<^sup>+ \<or> (i, j) \<in> (parent_rel ns A)\<^sup>+"
        by (rule tree_step [OF tree less.prems(2,1) Some less.prems(3) [symmetric]])
          (use less.hyps [of j p] less.prems p in auto)
      then show ?thesis using disjoint_ranges_sym by blast
    next
      case None': None
      then show ?thesis using None less.prems roots by (auto simp: roots_def)
    qed
  qed
qed

lemma leaf_no_descendant: "i \<in> leaves ns A \<Longrightarrow> (i, j) \<notin> (parent_rel ns A)\<^sup>+"
  by (auto simp: leaves_def kids_def parent_rel_def dest!: tranclD)

lemma leaves_disjoint:
  assumes "tree_ok ns A F" and "\<And>i j. i \<in> roots ns A \<Longrightarrow> j \<in> roots ns A \<Longrightarrow> i \<noteq> j \<Longrightarrow> node_disjoint ns i j"
    and "i \<in> leaves ns A" and "j \<in> leaves ns A" and "i \<noteq> j"
  shows "node_disjoint ns i j"
  using nested_or_disjoint [OF assms(1,2), of i j] assms(3-5) leaf_no_descendant
  by (auto simp: leaves_def)

text \<open>Every node lies in a root, and every root has a leaf below it.\<close>

lemma root_of_props:
  assumes tree: "tree_ok ns A F"
  shows "i \<in> A \<Longrightarrow> i \<le> k \<Longrightarrow> root_of ns k i \<in> roots ns A \<and>
    naddr ns (root_of ns k i) \<le> naddr ns i \<and>
    naddr ns i + esize (ns ! i) \<le> naddr ns (root_of ns k i) + esize (ns ! root_of ns k i)"
proof (induction k arbitrary: i)
  case 0
  then show ?case using tree_parent [OF tree, of 0] by (cases "eparent (ns ! 0)") (auto simp: roots_def)
next
  case (Suc k)
  show ?case
  proof (cases "eparent (ns ! i)")
    case None
    then show ?thesis using Suc.prems by (simp add: roots_def)
  next
    case (Some p)
    with tree_parent [OF tree Suc.prems(1)] have p: "p \<in> A" "p < i" "i \<in> kids ns A p" by auto
    with Suc have "root_of ns k p \<in> roots ns A \<and> naddr ns (root_of ns k p) \<le> naddr ns p \<and>
      naddr ns p + esize (ns ! p) \<le> naddr ns (root_of ns k p) + esize (ns ! root_of ns k p)" by simp
    with child_in_parent [OF tree_pair [OF tree Suc.prems(1) Some] p(3)] Some show ?thesis by simp
  qed
qed

lemma root_of_fuel:
  assumes tree: "tree_ok ns A F"
  shows "i \<in> A \<Longrightarrow> i \<le> k \<Longrightarrow> i \<le> m \<Longrightarrow> root_of ns k i = root_of ns m i"
proof (induction k arbitrary: i m)
  case 0
  then show ?case using tree_parent [OF tree, of 0] by (cases m; cases "eparent (ns ! 0)") auto
next
  case (Suc k)
  show ?case
  proof (cases m)
    case 0
    then show ?thesis using Suc.prems tree_parent [OF tree, of 0] by (cases "eparent (ns ! 0)") auto
  next
    case (Suc m')
    then show ?thesis using Suc.prems Suc.IH [of _ m'] tree_parent [OF tree Suc.prems(1)]
      by (auto split: option.split)
  qed
qed

lemma leaf_below:
  assumes tree: "tree_ok ns A F" and "i \<in> A"
  shows "\<exists>j \<in> leaves ns A. root_of ns (length ns) j = root_of ns (length ns) i"
  using assms(2)
proof (induction "length ns - i" arbitrary: i rule: less_induct)
  case less
  show ?case
  proof (cases "kids ns A i = {}")
    case True
    then show ?thesis using less.prems by (auto simp: leaves_def)
  next
    case False
    then obtain c where c: "c \<in> A" "eparent (ns ! c) = Some i" by (auto simp: kids_def)
    then have ic: "i < c" "c < length ns" using tree by (auto simp: tree_ok_def)
    obtain k where k: "length ns = Suc k" using ic by (cases "length ns") auto
    have "root_of ns (length ns) c = root_of ns k i" using c k by simp
    also have "\<dots> = root_of ns (length ns) i" using root_of_fuel [OF tree less.prems, of k "length ns"] ic k by simp
    finally show ?thesis using less.hyps [of c] c ic by auto
  qed
qed

lemma root_of_root: "i \<in> roots ns A \<Longrightarrow> root_of ns k i = i"
  by (cases k) (auto simp: roots_def)

lemma root_of_leaves:
  assumes tree: "tree_ok ns A F"
  shows "root_of ns (length ns) ` leaves ns A = roots ns A"
proof
  show "root_of ns (length ns) ` leaves ns A \<subseteq> roots ns A"
    using root_of_props [OF tree, of _ "length ns"] tree by (force simp: leaves_def tree_ok_def)
  show "roots ns A \<subseteq> root_of ns (length ns) ` leaves ns A"
  proof
    fix r assume r: "r \<in> roots ns A"
    with leaf_below [OF tree, of r] show "r \<in> root_of ns (length ns) ` leaves ns A"
      by (auto simp: root_of_root [OF r] roots_def image_iff)
  qed
qed

section \<open>The merge loop\<close>

definition merge_inv ::
  "enode list \<Rightarrow> nat set \<Rightarrow> nat multiset \<Rightarrow> nat list \<times> enode list \<times> nat \<times> bool \<Rightarrow> nat set \<Rightarrow> bool" where
  "merge_inv ns0 A0 R = (\<lambda>(list, ns, p, need) A. A \<subseteq> A0 \<and> roots ns A = roots ns0 A0 \<and> same_geo ns0 ns \<and>
     tree_ok ns A (set list) \<and> mset list + R = mset_set (leaves ns A) \<and> p \<in> A \<and> settled ns A {p} \<and>
     (kids ns A p \<noteq> {} \<longrightarrow> need = (euse (ns ! p) = 0)) \<and> (need \<longrightarrow> kids ns A p \<noteq> {}))"

lemma mset_insert_by [simp]: "mset (insert_by k x xs) = add_mset x (mset xs)"
proof -
  have "mset xs = mset (takeWhile (\<lambda>y. k y \<le> k x) xs) + mset (dropWhile (\<lambda>y. k y \<le> k x) xs)"
    by (metis mset_append takeWhile_dropWhile_id)
  then show ?thesis by (simp add: insert_by_def)
qed

lemma merge_inv_step:
  assumes inv: "merge_inv ns0 A0 R (list, ns, p, True) A" and eq: "merge_step (list, ns, p, True) = (l', ns', p', need')"
  shows "\<exists>A'. merge_inv ns0 A0 R (l', ns', p', need') A' \<and> (need' \<longrightarrow> p' < p)"
proof -
  from inv have tree: "tree_ok ns A (set list)" and ms: "mset list + R = mset_set (leaves ns A)"
    and p: "p \<in> A" "kids ns A p \<noteq> {}" "euse (ns ! p) = 0" and st: "settled ns A {p}"
    and AA: "A \<subseteq> A0" "roots ns A = roots ns0 A0" "same_geo ns0 ns" by (auto simp: merge_inv_def)
  let ?K = "kids ns A p" and ?A = "A - kids ns A p"
  have finL: "finite (leaves ns A)" using tree_finite [OF tree] by (simp add: leaves_def)
  note m = tree_merge [OF tree p]
  have KF: "?K \<subseteq> set list" using m by blast
  have FA: "set list \<subseteq> A" using tree by (auto simp: tree_ok_def leaves_def)
  define list1 where "list1 = filter (\<lambda>i. eparent (ns ! i) \<noteq> Some p) list"
  define list2 where "list2 = insert_by (ekey ns) p list1"
  have s1: "set list1 = set list - ?K" using FA by (auto simp: list1_def kids_def)
  have "mset list \<subseteq># mset_set (leaves ns A)" using ms by (metis mset_subset_eq_add_left)
  then have "filter_mset (\<lambda>i. eparent (ns ! i) = Some p) (mset list) = mset_set ?K"
  proof -
    assume sub: "mset list \<subseteq># mset_set (leaves ns A)"
    have "count (mset list) i = (if i \<in> set list then 1 else 0)" for i
    proof -
      have "count (mset_set (leaves ns A)) i \<le> 1" by (simp add: count_mset_set')
      then have "count (mset list) i \<le> 1" using mset_subset_eq_count [OF sub, of i] by linarith
      then show ?thesis by (metis count_mset_0_iff le_antisym less_one linorder_not_less)
    qed
    then show ?thesis using KF FA tree_finite [OF tree]
      by (intro multiset_eqI) (auto simp: count_mset_set' kids_def)
  qed
  then have "mset list1 + mset_set ?K = mset list"
    unfolding list1_def mset_filter by (metis add.commute multiset_partition)
  moreover have "mset_set (leaves ns A) = mset_set (leaves ns A - ?K) + mset_set ?K"
  proof -
    have "?K \<subseteq> leaves ns A" using KF tree by (auto simp: tree_ok_def)
    then have "leaves ns A = (leaves ns A - ?K) \<union> ?K" and "finite ?K" using finL finite_subset by blast+
    moreover have "(leaves ns A - ?K) \<inter> ?K = {}" by blast
    ultimately show ?thesis using finL by (metis finite_Diff mset_set_Union)
  qed
  ultimately have "(mset list1 + R) + mset_set ?K = mset_set (leaves ns A - ?K) + mset_set ?K"
    using ms by (simp add: ac_simps flip: \<open>mset list1 + mset_set ?K = mset list\<close>)
  then have "mset list1 + R = mset_set (leaves ns A - ?K)" by (rule add_right_imp_eq)
  moreover have "p \<notin> leaves ns A - ?K" using p by (simp add: leaves_def)
  ultimately have ms2: "mset list2 + R = mset_set (leaves ns ?A)"
    using m finL by (simp add: list2_def)
  have set2: "set list2 = insert p (set list - ?K)" by (simp add: list2_def s1)
  have pl: "p \<in> leaves ns ?A" "p \<notin> set list - ?K" using m by auto
  then have kp: "kids ns ?A p = {}" and pA: "p \<in> ?A" by (auto simp: leaves_def)
  have st2: "settled ns ?A {}"
    unfolding settled_def
  proof (intro ballI impI)
    fix q assume q: "q \<in> ?A - {}" "kids ns ?A q \<noteq> {}"
    then have qp: "q \<in> ?A - {p}" using kp by auto
    have "\<forall>q \<in> ?A - {p}. kids ns ?A q = kids ns A q" using m by blast
    then have "kids ns ?A q = kids ns A q" using qp by blast
    with q(2) qp have "q \<in> A - {p}" "kids ns A q \<noteq> {}" by auto
    with st show "0 < euse (ns ! q)" by (simp add: settled_def)
  qed
  note give = tree_give [OF conjunct1 [OF m] pl]
  have AA2: "?A \<subseteq> A0" "roots ns ?A = roots ns0 A0" using AA m by auto
  show ?thesis
  proof (cases "eparent (ns ! p)")
    case None
    then have r: "l' = list2" "ns' = ns" "p' = p" "need' = False"
      using eq unfolding list1_def list2_def by (auto simp: merge_step_def)
    have "tree_ok ns ?A (set list2)" using give None by (simp add: parent_count_def set2)
    then have "merge_inv ns0 A0 R (l', ns', p', need') ?A"
      using AA AA2 ms2 pA kp st2 by (auto simp: r merge_inv_def settled_def)
    then show ?thesis using r by blast
  next
    case (Some q)
    let ?ns = "use_count (\<lambda>u. size_sub u 1) q ns"
    have r: "l' = list2" "ns' = ?ns" "p' = q" "need' = (euse (?ns ! q) = 0)"
      using eq Some unfolding list1_def list2_def by (auto simp: merge_step_def Let_def)
    have q: "q \<in> ?A" "q < p" "p \<in> kids ns ?A q" using tree_parent [OF conjunct1 [OF m] pA Some] by auto
    have len: "\<forall>i \<in> ?A. i < length ns" using tree by (auto simp: tree_ok_def)
    have geo: "same_geo ns ?ns" by simp
    have tr: "tree_ok ?ns ?A (set list2)" using give Some by (simp add: parent_count_def set2)
    have kk: "kids ?ns ?A x = kids ns ?A x" for x using same_geo_kids [OF geo len] .
    have "settled ?ns ?A {q}" unfolding settled_def kk using st2 len by (auto simp: settled_def euse_use_count)
    moreover have "kids ?ns ?A q \<noteq> {}" using q kk by auto
    ultimately have "merge_inv ns0 A0 R (l', ns', p', need') ?A"
      unfolding r merge_inv_def using AA2 same_geo_trans [OF AA(3) geo] tr ms2 q
        same_geo_leaves [OF geo len] same_geo_roots [OF geo len] by simp
    then show ?thesis using r q by blast
  qed
qed

lemma merge_loop:
  assumes "merge_inv ns0 A0 R st A"
  shows "\<exists>l ns p A'. while merge_need merge_step st = (l, ns, p, False) \<and> merge_inv ns0 A0 R (l, ns, p, False) A'"
proof -
  let ?m = "\<lambda>(list, ns, p, need). if need then Suc p else (0::nat)"
  have "(\<exists>A. merge_inv ns0 A0 R (while merge_need merge_step st) A) \<and> \<not> merge_need (while merge_need merge_step st)"
  proof (rule while_rule [where P = "\<lambda>st. \<exists>A. merge_inv ns0 A0 R st A" and r = "measure ?m"])
    show "\<exists>A. merge_inv ns0 A0 R st A" using assms by blast
  next
    fix s assume "\<exists>A. merge_inv ns0 A0 R s A" "merge_need s"
    then obtain l ns p A where s: "s = (l, ns, p, True)" "merge_inv ns0 A0 R (l, ns, p, True) A"
      by (cases s) (auto simp: merge_need_def)
    obtain l' ns' p' need' where e: "merge_step (l, ns, p, True) = (l', ns', p', need')" by (metis prod_cases4)
    from merge_inv_step [OF s(2) e] show "\<exists>A. merge_inv ns0 A0 R (merge_step s) A" by (auto simp: s e)
  next
    fix s assume "\<exists>A. merge_inv ns0 A0 R s A" "merge_need s"
    then obtain l ns p A where s: "s = (l, ns, p, True)" "merge_inv ns0 A0 R (l, ns, p, True) A"
      by (cases s) (auto simp: merge_need_def)
    obtain l' ns' p' need' where e: "merge_step (l, ns, p, True) = (l', ns', p', need')" by (metis prod_cases4)
    from merge_inv_step [OF s(2) e] show "(merge_step s, s) \<in> measure ?m" by (auto simp: s e)
  qed auto
  then show ?thesis by (cases "while merge_need merge_step st") (auto simp: merge_need_def)
qed

text \<open>Giving a busy leaf back to the main free list.\<close>

lemma return_memory_merge:
  assumes tree: "tree_ok ns A (set list)" and st: "settled ns A {}" and i: "i \<in> leaves ns A" "i \<notin> set list"
    and ms: "mset list + add_mset i R = mset_set (leaves ns A)"
    and eq: "returnMemory list i True ns = (l, ns')"
  shows "\<exists>A'. A' \<subseteq> A \<and> roots ns' A' = roots ns A \<and> same_geo ns ns' \<and> tree_ok ns' A' (set l) \<and>
     mset l + R = mset_set (leaves ns' A') \<and> settled ns' A' {}"
proof (cases "eparent (ns ! i)")
  case None
  then have r: "l = insert_by (ekey ns) i list" "ns' = ns" using eq by (auto simp: returnMemory_def)
  have "tree_ok ns A (set l)" using tree_give [OF tree i] None by (simp add: parent_count_def r)
  then show ?thesis using ms st by (intro exI [of _ A]) (simp add: r)
next
  case (Some p)
  let ?ns = "use_count (\<lambda>u. size_sub u 1) p ns" and ?l = "insert_by (ekey ns) i list"
  have iA: "i \<in> A" using i by (simp add: leaves_def)
  have len: "\<forall>i \<in> A. i < length ns" using tree_lengths [OF tree] .
  have geo: "same_geo ns ?ns" by simp
  have p: "p \<in> A" "i \<in> kids ns A p" using tree_parent [OF tree iA Some] by auto
  have tr: "tree_ok ?ns A (set ?l)" using tree_give [OF tree i] Some by (simp add: parent_count_def)
  have kk: "kids ?ns A x = kids ns A x" for x using same_geo_kids [OF geo len] .
  have "settled ?ns A {p}" unfolding settled_def kk using st len by (auto simp: settled_def euse_use_count)
  then have "merge_inv ns A R (?l, ?ns, p, euse (?ns ! p) = 0) A"
    unfolding merge_inv_def using tr geo ms p kk same_geo_leaves [OF geo len] same_geo_roots [OF geo len] by auto
  from merge_loop [OF this] obtain l1 ns1 p1 A1
    where w: "while merge_need merge_step (?l, ?ns, p, euse (?ns ! p) = 0) = (l1, ns1, p1, False)"
      and inv: "merge_inv ns A R (l1, ns1, p1, False) A1" by blast
  have "l = l1" "ns' = ns1" using eq Some w by (simp_all add: returnMemory_def)
  moreover have "settled ns1 A1 {}" using inv by (auto simp: merge_inv_def settled_def)
  ultimately show ?thesis using inv unfolding merge_inv_def by (intro exI [of _ A1]) simp
qed

end
