(* ===== verification/Eager_State.thy ===== *)
theory Eager_State
  imports Eager_Inv
begin

text \<open>
  The invariant of an \<open>EagerBufferAllocator\<close> relative to the blocks its root allocator has given it,
  and the lemmas that taking a node from a free list, adding a root block and giving memory back keep
  it.
\<close>

section \<open>The invariant\<close>

definition leaf_list :: "eager_state \<Rightarrow> nat list" where
  "leaf_list s = mFreeList s @ map snd (mUsedList s) @ concat (mGroups s)"

definition used_ok :: "enode list \<Rightarrow> ptr_key \<times> nat \<Rightarrow> bool" where
  "used_ok ns = (\<lambda>(q, i). fst q = fst (eptr (ns ! i)) \<and> snd (eptr (ns ! i)) \<le> snd q \<and>
     snd q < snd (eptr (ns ! i)) + esize (ns ! i))"

definition roots_ok :: "enode list \<Rightarrow> nat set \<Rightarrow> (ptr_key \<Rightarrow> nat option) \<Rightarrow> nat \<Rightarrow> bool" where
  "roots_ok ns R B tot \<longleftrightarrow>
     (\<forall>i \<in> R. 0 < esize (ns ! i) \<and> (\<exists>e \<ge> esize (ns ! i). B (eptr (ns ! i)) = Some e)) \<and>
     inj_on (\<lambda>i. eptr (ns ! i)) R \<and> tot = (\<Sum>i \<in> R. esize (ns ! i))"

definition conf_ok :: "eager_state \<Rightarrow> bool" where
  "conf_ok s \<longleftrightarrow> 0 < eAlign s \<and> (mMinAllocSize s = 0 \<or> eAlign s dvd mMinAllocSize s) \<and>
     (\<forall>g. mCurrentFreeList s = Some g \<longrightarrow> g < length (mGroups s))"

definition eager_ok :: "(ptr_key \<Rightarrow> nat option) \<Rightarrow> eager_state \<Rightarrow> nat set \<Rightarrow> bool" where
  "eager_ok B s A \<longleftrightarrow> tree_ok (enodes s) A (set (mFreeList s)) \<and> settled (enodes s) A {} \<and>
     mset (leaf_list s) = mset_set (leaves (enodes s) A) \<and> (\<forall>e \<in> set (mUsedList s). used_ok (enodes s) e) \<and>
     roots_ok (enodes s) (roots (enodes s) A) B (eTotal s) \<and> conf_ok s"

definition blocks_apart :: "(ptr_key \<Rightarrow> nat option) \<Rightarrow> bool" where
  "blocks_apart B \<longleftrightarrow> (\<forall>q q' m m'. B q = Some m \<longrightarrow> B q' = Some m' \<longrightarrow> q \<noteq> q' \<longrightarrow>
     disjoint_ranges (key_addr q) m (key_addr q') m')"

text \<open>The pointers the pool has obtained from its root allocator.\<close>

definition root_keys :: "enode list \<Rightarrow> nat set \<Rightarrow> ptr_key set" where
  "root_keys ns A = (\<lambda>i. eptr (ns ! i)) ` roots ns A"

lemma root_keys_cong:
  "roots ns' A' = roots ns A \<Longrightarrow> (\<And>i. i \<in> roots ns A \<Longrightarrow> eptr (ns' ! i) = eptr (ns ! i)) \<Longrightarrow>
     root_keys ns' A' = root_keys ns A"
  unfolding root_keys_def by (metis (mono_tags, lifting) image_cong)

lemma blocks_apartD:
  "blocks_apart B \<Longrightarrow> B q = Some m \<Longrightarrow> B q' = Some m' \<Longrightarrow> q \<noteq> q' \<Longrightarrow>
     disjoint_ranges (key_addr q) m (key_addr q') m'"
  unfolding blocks_apart_def by blast

lemma mset_eq_mset_set:
  assumes "mset xs = mset_set S" and "finite S"
  shows "distinct xs \<and> set xs = S"
proof -
  have "count (mset xs) a = (if a \<in> S then 1 else 0)" for a using assms by (simp add: count_mset_set')
  then show ?thesis using assms by (metis distinct_count_atmost_1 set_mset_mset finite_set_mset_mset_set
        count_mset_0_iff zero_neq_one)
qed

lemma eager_ok_leaves:
  assumes "eager_ok B s A"
  shows "distinct (leaf_list s)" and "set (leaf_list s) = leaves (enodes s) A" and "finite (leaves (enodes s) A)"
    and "set (leaf_list s) \<subseteq> A" and "\<forall>i \<in> A. i < length (enodes s)"
proof -
  have fin: "finite (leaves (enodes s) A)" using assms tree_finite by (auto simp: eager_ok_def leaves_def)
  then show "distinct (leaf_list s)" "set (leaf_list s) = leaves (enodes s) A" "finite (leaves (enodes s) A)"
    using assms mset_eq_mset_set by (auto simp: eager_ok_def)
  then show "set (leaf_list s) \<subseteq> A" by (auto simp: leaves_def)
  show "\<forall>i \<in> A. i < length (enodes s)" using assms tree_lengths by (auto simp: eager_ok_def)
qed

lemma eager_ok_used:
  assumes ok: "eager_ok B s A" and e: "(q, i) \<in> set (mUsedList s)"
  shows "i \<in> leaves (enodes s) A" and "i \<in> A" and "i < length (enodes s)" and "used_ok (enodes s) (q, i)"
proof -
  have "i \<in> set (leaf_list s)" using imageI [OF e, of snd] by (simp add: leaf_list_def)
  then show "i \<in> leaves (enodes s) A" "i \<in> A" "i < length (enodes s)" using eager_ok_leaves [OF ok] by auto
  show "used_ok (enodes s) (q, i)" using ok e by (auto simp: eager_ok_def)
qed

lemma eager_new_ok: "0 < a \<Longrightarrow> m = 0 \<or> a dvd m \<Longrightarrow> eager_ok B (eager_new a m) {}"
  by (auto simp: eager_ok_def eager_new_def tree_ok_def settled_def leaves_def leaf_list_def roots_ok_def
      roots_def conf_ok_def)

lemma used_ok_geo: "same_geo ns ns' \<Longrightarrow> snd e < length ns \<Longrightarrow> used_ok ns' e = used_ok ns e"
  by (cases e) (simp add: used_ok_def same_geo_def)

lemma roots_ok_geo:
  assumes "same_geo ns ns'" and "\<forall>i \<in> R. i < length ns"
  shows "roots_ok ns' R B t = roots_ok ns R B t"
proof -
  have "inj_on (\<lambda>i. eptr (ns' ! i)) R = inj_on (\<lambda>i. eptr (ns ! i)) R"
    using assms by (intro inj_on_cong) (auto simp: same_geo_def)
  moreover have "(\<Sum>i \<in> R. esize (ns' ! i)) = (\<Sum>i \<in> R. esize (ns ! i))"
    using assms by (intro sum.cong) (auto simp: same_geo_def)
  ultimately show ?thesis using assms by (auto simp: roots_ok_def same_geo_def)
qed

lemma roots_apart:
  assumes "roots_ok ns R B t" and "blocks_apart B" and "i \<in> R" and "j \<in> R" and "i \<noteq> j"
  shows "node_disjoint ns i j"
proof -
  obtain e e' where e: "esize (ns ! i) \<le> e" "B (eptr (ns ! i)) = Some e" "esize (ns ! j) \<le> e'" "B (eptr (ns ! j)) = Some e'"
    using assms(1) [unfolded roots_ok_def] assms(3,4) by blast
  have "eptr (ns ! i) \<noteq> eptr (ns ! j)" using assms by (auto simp: roots_ok_def inj_on_def)
  then have "disjoint_ranges (naddr ns i) e (naddr ns j) e'" using assms(2) e unfolding blocks_apart_def naddr_def by blast
  with e show ?thesis by (auto simp: disjoint_ranges_def)
qed

lemma eager_leaves_disjoint:
  assumes "eager_ok B s A" and "blocks_apart B" and "i \<in> leaves (enodes s) A" and "j \<in> leaves (enodes s) A" and "i \<noteq> j"
  shows "node_disjoint (enodes s) i j"
proof (rule leaves_disjoint [OF _ _ assms(3-5)])
  show "tree_ok (enodes s) A (set (mFreeList s))" using assms by (simp add: eager_ok_def)
  show "node_disjoint (enodes s) i j" if "i \<in> roots (enodes s) A" "j \<in> roots (enodes s) A" "i \<noteq> j" for i j
    using that assms roots_apart by (auto simp: eager_ok_def)
qed

text \<open>A pointer inside a leaf that is not in use is not the pointer of an entry of the used list.\<close>

lemma pointer_fresh:
  assumes ok: "eager_ok B s A" and ap: "blocks_apart B" and x: "x \<in> leaves (enodes s) A" "x \<notin> snd ` set (mUsedList s)"
    and q: "used_ok (enodes s) (q, x)"
  shows "map_of (mUsedList s) q = None"
proof (rule ccontr)
  assume "map_of (mUsedList s) q \<noteq> None"
  then obtain i where i: "(q, i) \<in> set (mUsedList s)" using map_of_SomeD by fastforce
  then have "i \<noteq> x" using x by force
  moreover have "i \<in> leaves (enodes s) A" using eager_ok_used(1) [OF ok i] .
  ultimately have "node_disjoint (enodes s) i x" using eager_leaves_disjoint [OF ok ap _ x(1)] by simp
  moreover have "used_ok (enodes s) (q, i)" using ok i by (auto simp: eager_ok_def)
  ultimately show False using q by (auto simp: used_ok_def disjoint_ranges_def naddr_def key_addr_def)
qed

lemma settled_mono:
  assumes "settled ns A X" and "\<And>p. p \<in> A \<Longrightarrow> euse (ns ! p) \<le> euse (ns' ! p)" and "\<And>p. p \<in> A \<Longrightarrow> kids ns' A p = kids ns A p"
  shows "settled ns' A X"
  using assms by (fastforce simp: settled_def)

section \<open>Adding a root block\<close>

lemma tree_add_root:
  assumes tree: "tree_ok ns A F" and n: "eparent n = None" "euse n = 0"
  shows "tree_ok (ns @ [n]) (insert (length ns) A) F \<and>
     leaves (ns @ [n]) (insert (length ns) A) = insert (length ns) (leaves ns A) \<and>
     roots (ns @ [n]) (insert (length ns) A) = insert (length ns) (roots ns A) \<and>
     kids (ns @ [n]) (insert (length ns) A) (length ns) = {} \<and>
     (\<forall>p. kids (ns @ [n]) (insert (length ns) A) p = kids ns A p)"
proof -
  let ?r = "length ns" and ?ns = "ns @ [n]" and ?A = "insert (length ns) A"
  have len: "\<forall>i \<in> A. i < ?r" using tree_lengths [OF tree] .
  have old: "?ns ! i = ns ! i" if "i < ?r" for i using that by (simp add: nth_append)
  have new: "?ns ! ?r = n" by simp
  have k: "kids ?ns ?A p = kids ns A p" for p using len old n by (auto simp: kids_def)
  have kr: "kids ns A ?r = {}" using tree len by (auto simp: kids_def tree_ok_def)
  have lv: "leaves ?ns ?A = insert ?r (leaves ns A)" using k kr by (auto simp: leaves_def)
  have rt: "roots ?ns ?A = insert ?r (roots ns A)" using len old n by (auto simp: roots_def)
  have "tree_ok ?ns ?A F" unfolding tree_ok_def
  proof (intro conjI ballI allI impI)
    fix i assume i: "i \<in> ?A"
    show "i < length ?ns" using i len by auto
    fix p assume "eparent (?ns ! i) = Some p"
    then show "p \<in> ?A" "p < i" using i len old n tree_parent [OF tree] by auto
  next
    fix p assume "p \<in> ?A" "kids ?ns ?A p \<noteq> {}"
    then have p: "p \<in> A" "kids ns A p \<noteq> {}" using k kr by auto
    then have "pair_ok ns p (kids ns A p)" using tree by (simp add: tree_ok_def)
    then obtain c d where cd: "kids ns A p = {c, d}" "c \<noteq> d" "eptr (ns ! c) = eptr (ns ! p)"
      "eptr (ns ! d) = (fst (eptr (ns ! p)), snd (eptr (ns ! p)) + esize (ns ! c))"
      "esize (ns ! p) = esize (ns ! c) + esize (ns ! d)" unfolding pair_ok_def by blast
    then have "c \<in> A" "d \<in> A" by (auto simp: kids_def)
    with cd p len old show "pair_ok ?ns p (kids ?ns ?A p)" unfolding k pair_ok_def
      by (intro exI [of _ c] exI [of _ d]) simp
  next
    fix p assume "p \<in> ?A"
    then show "euse (?ns ! p) = card (kids ?ns ?A p - F)"
      unfolding k using tree len old kr n by (auto simp: tree_ok_def)
  next
    show "F \<subseteq> leaves ?ns ?A" unfolding lv using tree by (auto simp: tree_ok_def)
  qed
  then show ?thesis using lv rt k kr by auto
qed

lemma eager_add_root:
  assumes ok: "eager_ok B s A" and ap: "blocks_apart B'" and q: "B q = None" and B': "B' = B(q \<mapsto> e)"
    and e: "allocSize \<le> e" and n: "0 < sz" "sz \<le> allocSize"
    and al: "allocSize = (if mMinAllocSize s \<noteq> 0 then max (mMinAllocSize s) sz else sz)"
    and grp: "mMinAllocSize s = 0 \<or> mCurrentFreeList s = None"
    and s': "s' = eager_root_block q sz allocSize s"
  shows "\<exists>A' i. eager_ok B' s' A' \<and> root_keys (enodes s') A' = insert q (root_keys (enodes s) A) \<and>
     mUsedList s' = (q, i) # mUsedList s \<and> map_of (mUsedList s) q = None \<and>
     (\<forall>j \<in> snd ` set (mUsedList s). eptr (enodes s' ! j) = eptr (enodes s ! j) \<and> esize (enodes s' ! j) = esize (enodes s ! j)) \<and>
     eptr (enodes s' ! i) = q \<and> sz \<le> esize (enodes s' ! i)"
proof -
  let ?ns = "enodes s" and ?r = "length (enodes s)"
  let ?n = "\<lparr>eptr = q, eparent = None, esize = allocSize, euse = 0\<rparr>"
  let ?nr = "?ns @ [?n]" and ?Ar = "insert ?r A"
  have tree: "tree_ok ?ns A (set (mFreeList s))" and st: "settled ?ns A {}"
    and ms: "mset (leaf_list s) = mset_set (leaves ?ns A)" and us: "\<forall>e \<in> set (mUsedList s). used_ok ?ns e"
    and ro: "roots_ok ?ns (roots ?ns A) B (eTotal s)" and co: "conf_ok s" using ok by (auto simp: eager_ok_def)
  note lf = eager_ok_leaves [OF ok]
  have rA: "?r \<notin> A" using lf(5) by auto
  note add = tree_add_root [OF tree, of ?n, simplified]
  have rl: "?r \<notin> leaves ?ns A" "?r \<notin> roots ?ns A" using rA by (auto simp: leaves_def roots_def)
  have usedlen: "i < ?r" if "(k, i) \<in> set (mUsedList s)" for k i
    using eager_ok_used(3) [OF ok that] .
  have finR: "finite (roots ?ns A)" using tree_finite [OF tree] by (simp add: roots_def)
  have Rlen: "\<forall>i \<in> roots ?ns A. i < ?r" using lf(5) by (auto simp: roots_def)
  have Rne: "eptr (?ns ! i) \<noteq> q" if "i \<in> roots ?ns A" for i
    using ro that q unfolding roots_ok_def by fastforce
  have ro1: "roots_ok ?nr (insert ?r (roots ?ns A)) B' (eTotal s + allocSize)"
  proof -
    have "inj_on (\<lambda>i. eptr (?nr ! i)) (insert ?r (roots ?ns A))"
      using ro Rlen Rne by (auto simp: roots_ok_def inj_on_def nth_append)
    moreover have "(\<Sum>i \<in> insert ?r (roots ?ns A). esize (?nr ! i)) = eTotal s + allocSize"
    proof -
      have "(\<Sum>i \<in> roots ?ns A. esize (?nr ! i)) = (\<Sum>i \<in> roots ?ns A. esize (?ns ! i))"
        using Rlen by (intro sum.cong) (auto simp: nth_append)
      then show ?thesis using finR rl ro by (simp add: roots_ok_def)
    qed
    moreover have "0 < esize (?nr ! i) \<and> (\<exists>e \<ge> esize (?nr ! i). B' (eptr (?nr ! i)) = Some e)"
      if "i \<in> insert ?r (roots ?ns A)" for i
      using that ro Rlen Rne [of i] n e by (auto simp: roots_ok_def nth_append B')
    ultimately show ?thesis by (simp add: roots_ok_def)
  qed
  have st1: "settled ?nr ?Ar {}" using st add lf(5) by (auto simp: settled_def nth_append)
  have disj_new: "map_of (mUsedList s) q = None"
  proof (rule ccontr)
    assume "map_of (mUsedList s) q \<noteq> None"
    then obtain i where i: "(q, i) \<in> set (mUsedList s)" using map_of_SomeD by fastforce
    then have iA: "i \<in> A" and u: "used_ok ?ns (q, i)" using eager_ok_used [OF ok] by blast+
    let ?d = "root_of ?ns ?r i"
    have d: "?d \<in> roots ?ns A" "naddr ?ns ?d \<le> naddr ?ns i"
      "naddr ?ns i + esize (?ns ! i) \<le> naddr ?ns ?d + esize (?ns ! ?d)"
      using root_of_props [OF tree iA] lf(5) iA by (auto simp: less_imp_le)
    obtain e' where e': "esize (?ns ! ?d) \<le> e'" "B (eptr (?ns ! ?d)) = Some e'" using ro [unfolded roots_ok_def] d(1) by blast
    have "eptr (?ns ! ?d) \<noteq> q" using Rne d(1) .
    then have "disjoint_ranges (key_addr (eptr (?ns ! ?d))) e' (key_addr q) e"
      using blocks_apartD [OF ap, of "eptr (?ns ! ?d)" e' q e] e' by (simp add: B')
    with u d e' e n show False by (auto simp: disjoint_ranges_def used_ok_def naddr_def key_addr_def)
  qed
  then have nk: "used_erase q (mUsedList s) = mUsedList s"
    by (auto simp: used_erase_def map_of_eq_None_iff intro!: filter_True)
  show ?thesis
  proof (cases "sz < allocSize")
    case False
    then have eqs: "s' = s\<lparr>eTotal := eTotal s + allocSize, enodes := ?nr, mUsedList := (q, ?r) # mUsedList s\<rparr>"
      using nk by (simp add: s' eager_root_block_def Let_def)
    have "mset (leaf_list s') = mset_set (leaves ?nr ?Ar)" using ms add rl lf(3) by (simp add: eqs leaf_list_def)
    moreover have "\<forall>e \<in> set (mUsedList s'). used_ok ?nr e"
      using us usedlen n False by (auto simp: eqs used_ok_def nth_append)
    moreover have "conf_ok s'" using co by (simp add: conf_ok_def eqs)
    ultimately have "eager_ok B' s' ?Ar" using add st1 ro1 by (simp add: eager_ok_def eqs)
    moreover have "root_keys ?nr ?Ar = insert q (root_keys ?ns A)"
      using add Rlen by (auto simp: root_keys_def nth_append image_iff)
    ultimately show ?thesis using disj_new usedlen n False
      by (intro exI [of _ ?Ar] exI [of _ ?r]) (auto simp: eqs nth_append)
  next
    case True
    then have min: "mMinAllocSize s \<noteq> 0" "allocSize = mMinAllocSize s" "mCurrentFreeList s = None"
      using al grp by (auto split: if_splits)
    define m where "m = up_div sz (eAlign s) * eAlign s"
    have pos: "0 < eAlign s" "eAlign s dvd allocSize" using co min by (auto simp: conf_ok_def)
    have m: "sz \<le> m" "m \<le> allocSize"
    proof -
      show "sz \<le> m" using up_div_ge [OF pos(1)] by (simp add: m_def)
      obtain k where k: "allocSize = eAlign s * k" using pos(2) ..
      have "up_div sz (eAlign s) \<le> up_div allocSize (eAlign s)"
        using True by (simp add: up_div_def div_le_mono diff_le_mono)
      then show "m \<le> allocSize" using up_div_mult [OF pos] by (simp add: m_def) (metis mult_le_mono1)
    qed
    let ?a = "Suc ?r" and ?b = "Suc (Suc ?r)"
    define ns2 where "ns2 = use_count Suc ?r ?nr @
        [\<lparr>eptr = q, eparent = Some ?r, esize = m, euse = 0\<rparr>,
         \<lparr>eptr = (fst q, snd q + m), eparent = Some ?r, esize = allocSize - m, euse = 0\<rparr>]"
    let ?A2 = "?Ar \<union> {?a, ?b}"
    have rleaf: "?r \<in> leaves ?nr ?Ar" "?r \<notin> set (mFreeList s)" using add rA lf(4) by (auto simp: leaf_list_def)
    have sp: "tree_ok ns2 ?A2 (insert ?b (set (mFreeList s))) \<and> leaves ns2 ?A2 = leaves ?nr ?Ar - {?r} \<union> {?a, ?b} \<and>
       roots ns2 ?A2 = roots ?nr ?Ar \<and> kids ns2 ?A2 ?r = {?a, ?b} \<and> (\<forall>p \<in> ?Ar - {?r}. kids ns2 ?A2 p = kids ?nr ?Ar p)"
      using tree_split [OF conjunct1 [OF add] rleaf, of "?nr ! ?r" m ?a ?b ns2] m by (simp add: ns2_def)
    have eqs: "s' = s\<lparr>eTotal := eTotal s + allocSize, enodes := ns2, mUsedList := (q, ?a) # mUsedList s,
        mFreeList := insert_by (ekey ns2) ?b (mFreeList s)\<rparr>"
      using True min m disj_new
      by (simp add: s' eager_root_block_def Let_def used_insert_def ns2_def size_sub_def use_count_def
          list_update_append flip: m_def)
    have old: "eptr (ns2 ! i) = eptr (?nr ! i) \<and> esize (ns2 ! i) = esize (?nr ! i) \<and> euse (?nr ! i) \<le> euse (ns2 ! i)"
      if "i < Suc ?r" for i using that by (auto simp: ns2_def nth_append use_count_def nth_list_update_if)
    have newn: "ns2 ! ?a = \<lparr>eptr = q, eparent = Some ?r, esize = m, euse = 0\<rparr>" by (simp add: ns2_def nth_append)
    have lv: "leaves ns2 ?A2 = insert ?a (insert ?b (leaves ?ns A))" using sp add rl by auto
    have ab: "?a \<notin> insert ?b (leaves ?ns A)" "?b \<notin> leaves ?ns A" using lf(5) by (auto simp: leaves_def)
    have "mset (leaf_list s') = mset_set (leaves ns2 ?A2)" unfolding lv
      using ms ab lf(3) by (simp add: eqs leaf_list_def)
    moreover have "\<forall>e \<in> set (mUsedList s'). used_ok ns2 e"
    proof
      fix e assume "e \<in> set (mUsedList s')"
      then consider "e = (q, ?a)" | "e \<in> set (mUsedList s)" by (auto simp: eqs)
      then show "used_ok ns2 e"
      proof cases
        case 1
        then show ?thesis using newn m n by (simp add: used_ok_def)
      next
        case 2
        then have "snd e < ?r" using usedlen [of "fst e" "snd e"] by simp
        then show ?thesis using us 2 old [of "snd e"] by (cases e) (auto simp: used_ok_def nth_append)
      qed
    qed
    moreover have "settled ns2 ?A2 {}"
      unfolding settled_def
    proof (intro ballI impI)
      fix p assume p: "p \<in> ?A2 - {}" "kids ns2 ?A2 p \<noteq> {}"
      then have "p \<notin> {?a, ?b}" using lv by (auto simp: leaves_def)
      with p have "p \<in> ?Ar" by blast
      show "0 < euse (ns2 ! p)"
      proof (cases "p = ?r")
        case True
        then show ?thesis by (simp add: ns2_def nth_append use_count_def)
      next
        case False
        then have "p \<in> A" "kids ?ns A p \<noteq> {}" using \<open>p \<in> ?Ar\<close> p sp add by auto
        then have "0 < euse (?ns ! p)" "p < ?r" using st lf(5) by (auto simp: settled_def)
        then show ?thesis using old [of p] by (simp add: nth_append)
      qed
    qed
    moreover have "roots_ok ns2 (roots ns2 ?A2) B' (eTotal s + allocSize)"
    proof -
      have R: "roots ns2 ?A2 = insert ?r (roots ?ns A)" using sp add by simp
      have o: "eptr (ns2 ! i) = eptr (?nr ! i) \<and> esize (ns2 ! i) = esize (?nr ! i)" if "i \<in> insert ?r (roots ?ns A)" for i
        using that Rlen old [of i] by auto
      have i: "inj_on (\<lambda>i. eptr (ns2 ! i)) (insert ?r (roots ?ns A)) = inj_on (\<lambda>i. eptr (?nr ! i)) (insert ?r (roots ?ns A))"
        using o by (intro inj_on_cong) blast
      have s: "(\<Sum>i \<in> insert ?r (roots ?ns A). esize (ns2 ! i)) = (\<Sum>i \<in> insert ?r (roots ?ns A). esize (?nr ! i))"
        using o by (intro sum.cong) auto
      show ?thesis unfolding R using ro1 o unfolding roots_ok_def i s by simp
    qed
    moreover have "conf_ok s'" using co min by (simp add: conf_ok_def eqs)
    ultimately have "eager_ok B' s' ?A2" using sp by (simp add: eager_ok_def eqs)
    moreover have "eptr (enodes s' ! j) = eptr (?ns ! j) \<and> esize (enodes s' ! j) = esize (?ns ! j)"
      if "j \<in> snd ` set (mUsedList s)" for j
    proof -
      have "j < ?r" using that usedlen by force
      then show ?thesis using old [of j] by (simp add: eqs nth_append)
    qed
    moreover have "root_keys ns2 ?A2 = insert q (root_keys ?ns A)"
    proof -
      have "root_keys ns2 ?A2 = root_keys ?nr ?Ar"
        by (rule root_keys_cong) (use sp add Rlen old in auto)
      also have "\<dots> = insert q (root_keys ?ns A)" using add Rlen by (auto simp: root_keys_def nth_append image_iff)
      finally show ?thesis .
    qed
    ultimately show ?thesis using disj_new newn m by (intro exI [of _ ?A2] exI [of _ ?a]) (simp add: eqs)
  qed
qed

section \<open>Taking a node from a list\<close>

text \<open>What every successful allocation does to the used list.\<close>

definition taken :: "eager_state \<Rightarrow> eager_state \<Rightarrow> ptr_key \<Rightarrow> nat \<Rightarrow> bool" where
  "taken s s' q sz \<longleftrightarrow> (\<exists>i. mUsedList s' = (q, i) # mUsedList s \<and> map_of (mUsedList s) q = None \<and>
     (\<forall>j \<in> snd ` set (mUsedList s). eptr (enodes s' ! j) = eptr (enodes s ! j) \<and>
        esize (enodes s' ! j) = esize (enodes s ! j)) \<and>
     snd q + sz \<le> snd (eptr (enodes s' ! i)) + esize (enodes s' ! i))"

lemma reuse_arith:
  assumes "0 < align" and "0 < al" and "0 < (sz::nat)"
    and "extra = (al mod align \<noteq> 0)" and "r0 = (if extra then sz + align - 1 else sz)" and "r0 \<le> n"
    and "off = (if extra then up_div o0 align * align else o0)"
    and "r = (if extra then sz + off - o0 else r0)" and "m = up_div r al * al"
  shows "o0 \<le> off" and "off + sz = o0 + r" and "r \<le> n" and "r \<le> m"
proof -
  have b: "o0 \<le> up_div o0 align * align" "up_div o0 align * align < o0 + align"
    using up_div_ge [OF assms(1)] up_div_less [OF assms(1)] by auto
  show "o0 \<le> off" "off + sz = o0 + r" using b assms by auto
  show "r \<le> n" using b assms by (auto split: if_splits)
  show "r \<le> m" using up_div_ge [OF assms(2)] assms(9) by simp
qed

lemma in_mset_leaf:
  assumes "mset (l1 @ r) = mset_set S" and "finite S" and "x \<in> set l1"
  shows "x \<in> S" and "x \<notin> set r" and "x \<notin> set (remove1 x l1)"
  using mset_eq_mset_set [OF assms(1,2)] assms(3) by (auto simp: distinct_remove1_removeAll)

lemma get_main_ok:
  assumes ok: "eager_ok B s A" and ap: "blocks_apart B" and sz: "0 < sz" and al: "0 < align"
    and eq: "getFromFreeList (mFreeList s) sz True align s = (Some q, l, s1)" and s': "s' = s1\<lparr>mFreeList := l\<rparr>"
  shows "(\<exists>A'. eager_ok B s' A' \<and> root_keys (enodes s') A' = root_keys (enodes s) A) \<and> taken s s' q sz \<and> mMinAllocSize s' = mMinAllocSize s \<and>
     mCurrentFreeList s' = mCurrentFreeList s \<and> eAlign s' = eAlign s \<and> mGroups s' = mGroups s"
proof -
  let ?ns = "enodes s"
  have tree: "tree_ok ?ns A (set (mFreeList s))" and st: "settled ?ns A {}"
    and ms: "mset (leaf_list s) = mset_set (leaves ?ns A)" and us: "\<forall>e \<in> set (mUsedList s). used_ok ?ns e"
    and ro: "roots_ok ?ns (roots ?ns A) B (eTotal s)" and co: "conf_ok s" using ok by (auto simp: eager_ok_def)
  note lf = eager_ok_leaves [OF ok]
  have pos: "0 < eAlign s" using co by (simp add: conf_ok_def)
  define extra where "extra = (eAlign s mod align \<noteq> 0)"
  define r0 where "r0 = (if extra then sz + align - 1 else sz)"
  obtain x where lb: "lower_bound (ekey ?ns) r0 (mFreeList s) = Some x"
    using eq by (auto simp: getFromFreeList_def extra_def r0_def Let_def split: option.splits)
  then have xF: "x \<in> set (mFreeList s)" and big: "r0 \<le> esize (?ns ! x)" using lower_bound_Some by (fastforce simp: ekey_def)+
  define o0 where "o0 = snd (eptr (?ns ! x))"
  define off where "off = (if extra then up_div o0 align * align else o0)"
  define r where "r = (if extra then sz + off - o0 else r0)"
  define m where "m = up_div r (eAlign s) * eAlign s"
  define p where "p = eparent (?ns ! x)"
  note ar = reuse_arith [OF al pos sz extra_def r0_def big off_def r_def m_def]
  let ?ns1 = "parent_count Suc p ?ns"
  have eq': "(Some q, l, s1) =
     (if esize (?ns ! x) \<le> m then (Some (fst (eptr (?ns ! x)), off), remove1 x (mFreeList s),
          s\<lparr>enodes := ?ns1, mUsedList := used_insert (fst (eptr (?ns ! x)), off) x (mUsedList s)\<rparr>)
      else (let a = length ?ns1; b = a + 1;
                ns2 = use_count Suc x ?ns1 @
                  [\<lparr>eptr = eptr (?ns ! x), eparent = Some x, esize = m, euse = 0\<rparr>,
                   \<lparr>eptr = (fst (eptr (?ns ! x)), snd (eptr (?ns ! x)) + m), eparent = Some x,
                    esize = esize (?ns ! x) - m, euse = 0\<rparr>]
            in (Some (fst (eptr (?ns ! x)), off), insert_by (ekey ns2) b (remove1 x (mFreeList s)),
                s\<lparr>enodes := ns2, mUsedList := used_insert (fst (eptr (?ns ! x)), off) a (mUsedList s)\<rparr>)))"
    unfolding eq [symmetric] getFromFreeList_def Let_def
    by (simp only: extra_def [symmetric] r0_def [symmetric] lb option.case o0_def [symmetric] off_def [symmetric]
        r_def [symmetric] m_def [symmetric] p_def [symmetric] if_True simp_thms)
  have q: "q = (fst (eptr (?ns ! x)), off)" using eq' by (simp add: Let_def split: if_splits)
  have msx: "mset (mFreeList s @ map snd (mUsedList s) @ concat (mGroups s)) = mset_set (leaves ?ns A)"
    using ms by (simp only: leaf_list_def)
  have x: "x \<in> leaves ?ns A" "x \<notin> set (map snd (mUsedList s) @ concat (mGroups s))" "x \<notin> set (remove1 x (mFreeList s))"
    using in_mset_leaf [OF msx lf(3) xF] by auto
  have xl: "x < length ?ns" "x \<in> A" using x(1) lf(5) by (auto simp: leaves_def)
  have uq: "used_ok ?ns (q, x)" using ar sz by (simp add: used_ok_def q o0_def)
  have fresh: "map_of (mUsedList s) q = None"
    by (rule pointer_fresh [OF ok ap x(1) _ uq]) (use x(2) in auto)
  have take: "tree_ok ?ns1 A (set (mFreeList s) - {x})" using tree_take [OF tree xF] by (simp add: p_def)
  have geo: "same_geo ?ns ?ns1" by simp
  note gl = same_geo_leaves [OF geo lf(5)] same_geo_roots [OF geo lf(5)] same_geo_kids [OF geo lf(5)]
  have setr: "set (remove1 x (mFreeList s)) = set (mFreeList s) - {x}"
    using lf(1) by (simp add: leaf_list_def)
  have st1: "settled ?ns1 A {}"
    by (rule settled_mono [OF st]) (use lf(5) gl(3) in \<open>auto simp: euse_parent_count\<close>)
  have len1: "length ?ns1 = length ?ns" using geo by (simp add: same_geo_def)
  have ro1: "roots_ok ?ns1 (roots ?ns A) B (eTotal s)"
    using ro roots_ok_geo [OF geo, of "roots ?ns A"] lf(5) by (auto simp: roots_def)
  have us1: "used_ok ?ns1 e" if "e \<in> set (mUsedList s)" for e
    using us that used_ok_geo [OF geo] eager_ok_used(3) [OF ok, of "fst e" "snd e"] by auto
  have old1: "eptr (?ns1 ! j) = eptr (?ns ! j) \<and> esize (?ns1 ! j) = esize (?ns ! j) \<and> eparent (?ns1 ! j) = eparent (?ns ! j)"
    if "j < length ?ns" for j
    using geo that by (simp add: same_geo_def)
  have ul: "j < length ?ns" if "j \<in> snd ` set (mUsedList s)" for j
    using that eager_ok_used(3) [OF ok] by force
  obtain l1 l2 where fr: "mFreeList s = l1 @ x # l2" "x \<notin> set l1" using split_list_first [OF xF] by blast
  then have rm: "remove1 x (mFreeList s) = l1 @ l2" by (simp add: remove1_append)
  have lm: "mset (leaf_list s) = add_mset x (mset (l1 @ l2) + mset (map snd (mUsedList s)) + mset (concat (mGroups s)))"
    by (simp add: leaf_list_def fr(1))
  show ?thesis
  proof (cases "esize (?ns ! x) \<le> m")
    case True
    then have eqs: "s' = s\<lparr>enodes := ?ns1, mUsedList := (q, x) # mUsedList s, mFreeList := remove1 x (mFreeList s)\<rparr>"
      using eq' fresh by (simp add: s' used_insert_def q)
    have "mset (leaf_list s') = mset_set (leaves ?ns1 A)"
      unfolding gl ms [symmetric] lm by (simp add: eqs leaf_list_def rm)
    moreover have "used_ok ?ns1 (q, x)" using uq used_ok_geo [OF geo] xl by simp
    moreover have "conf_ok s'" using co by (simp add: conf_ok_def eqs)
    ultimately have "eager_ok B s' A" using take st1 ro1 us1 by (simp add: eager_ok_def eqs setr gl)
    moreover have "root_keys ?ns1 A = root_keys ?ns A"
      by (rule root_keys_cong) (use gl old1 lf(5) in \<open>auto simp: roots_def\<close>)
    moreover have "taken s s' q sz" unfolding taken_def
      using fresh old1 ul ar xl by (intro exI [of _ x]) (auto simp: eqs q o0_def)
    ultimately show ?thesis by (auto simp: eqs)
  next
    case False
    let ?a = "length ?ns" and ?b = "Suc (length ?ns)"
    define ns2 where "ns2 = use_count Suc x ?ns1 @
        [\<lparr>eptr = eptr (?ns ! x), eparent = Some x, esize = m, euse = 0\<rparr>,
         \<lparr>eptr = (fst (eptr (?ns ! x)), snd (eptr (?ns ! x)) + m), eparent = Some x,
          esize = esize (?ns ! x) - m, euse = 0\<rparr>]"
    let ?A2 = "A \<union> {?a, ?b}"
    have eqs: "s' = s\<lparr>enodes := ns2, mUsedList := (q, ?a) # mUsedList s,
        mFreeList := insert_by (ekey ns2) ?b (remove1 x (mFreeList s))\<rparr>"
      using eq' fresh False by (simp add: s' used_insert_def q Let_def len1 ns2_def)
    have x1: "x \<in> leaves ?ns1 A" "x \<notin> set (mFreeList s) - {x}" using x gl by auto
    note sp = tree_split [OF take x1 refl, of m ?a ?b ns2]
    have sp: "tree_ok ns2 ?A2 (insert ?b (set (mFreeList s) - {x})) \<and> leaves ns2 ?A2 = leaves ?ns A - {x} \<union> {?a, ?b} \<and>
       roots ns2 ?A2 = roots ?ns A \<and> kids ns2 ?A2 x = {?a, ?b} \<and> (\<forall>p \<in> A - {x}. kids ns2 ?A2 p = kids ?ns A p)"
      using sp False len1 old1 [OF xl(1)] by (simp add: ns2_def gl)
    have old: "eptr (ns2 ! j) = eptr (?ns ! j) \<and> esize (ns2 ! j) = esize (?ns ! j) \<and> euse (?ns1 ! j) \<le> euse (ns2 ! j)"
      if "j < length ?ns" for j
      using that old1 [OF that] len1 by (auto simp: ns2_def nth_append use_count_def nth_list_update_if)
    have newn: "ns2 ! ?a = \<lparr>eptr = eptr (?ns ! x), eparent = Some x, esize = m, euse = 0\<rparr>"
      by (simp add: ns2_def nth_append len1)
    have ab: "?a \<notin> insert ?b (leaves ?ns A - {x})" "?b \<notin> leaves ?ns A - {x}" using lf(5) by (auto simp: leaves_def)
    have lv: "leaves ns2 ?A2 = insert ?a (insert ?b (leaves ?ns A - {x}))" using sp by blast
    have "mset_set (leaves ?ns A) = add_mset x (mset_set (leaves ?ns A - {x}))"
      using x(1) lf(3) by (simp add: mset_set.remove)
    then have "mset (leaf_list s') = mset_set (leaves ns2 ?A2)" unfolding lv
      using ms [unfolded lm] ab lf(3) by (simp add: eqs leaf_list_def rm add.assoc)
    moreover have "used_ok ns2 e" if "e \<in> set (mUsedList s')" for e
    proof -
      from that consider "e = (q, ?a)" | "e \<in> set (mUsedList s)" by (auto simp: eqs)
      then show ?thesis
      proof cases
        case 1
        then show ?thesis using newn ar sz by (simp add: used_ok_def q o0_def)
      next
        case 2
        then have "snd e < length ?ns" using ul by blast
        moreover have "used_ok ?ns e" using us 2 by blast
        ultimately show ?thesis using old [of "snd e"] by (cases e) (simp add: used_ok_def)
      qed
    qed
    moreover have "settled ns2 ?A2 {}" unfolding settled_def
    proof (intro ballI impI)
      fix p assume p: "p \<in> ?A2 - {}" "kids ns2 ?A2 p \<noteq> {}"
      then have "p \<notin> {?a, ?b}" using lv by (auto simp: leaves_def)
      with p have pA: "p \<in> A" by blast
      show "0 < euse (ns2 ! p)"
      proof (cases "p = x")
        case True
        then show ?thesis using xl len1 by (simp add: ns2_def nth_append use_count_def)
      next
        case False
        then have "kids ?ns1 A p \<noteq> {}" using p sp pA gl by simp
        then have "0 < euse (?ns1 ! p)" using st1 pA by (simp add: settled_def)
        then show ?thesis using old [of p] pA lf(5) by fastforce
      qed
    qed
    moreover have "roots_ok ns2 (roots ?ns A) B (eTotal s)"
    proof -
      have o: "eptr (ns2 ! i) = eptr (?ns ! i) \<and> esize (ns2 ! i) = esize (?ns ! i)" if "i \<in> roots ?ns A" for i
        using that lf(5) old [of i] by (auto simp: roots_def)
      have i: "inj_on (\<lambda>i. eptr (ns2 ! i)) (roots ?ns A) = inj_on (\<lambda>i. eptr (?ns ! i)) (roots ?ns A)"
        using o by (intro inj_on_cong) blast
      have s: "(\<Sum>i \<in> roots ?ns A. esize (ns2 ! i)) = (\<Sum>i \<in> roots ?ns A. esize (?ns ! i))"
        using o by (intro sum.cong) auto
      show ?thesis using ro o unfolding roots_ok_def i s by simp
    qed
    moreover have "conf_ok s'" using co by (simp add: conf_ok_def eqs)
    ultimately have "eager_ok B s' ?A2" using sp by (simp add: eager_ok_def eqs setr)
    moreover have "root_keys ns2 ?A2 = root_keys ?ns A"
      by (rule root_keys_cong) (use sp old lf(5) in \<open>auto simp: roots_def\<close>)
    moreover have "taken s s' q sz" unfolding taken_def
      using fresh old ul ar newn by (intro exI [of _ ?a]) (auto simp: eqs q o0_def)
    ultimately show ?thesis by (auto simp: eqs)
  qed
qed

end
