(* ===== verification/Eager_Ops.thy ===== *)
theory Eager_Ops
  imports Eager_State
begin

text \<open>
  Every operation of \<open>EagerBufferAllocator\<close> keeps the invariant, over any root allocator that keeps
  the contract \<open>raw_alloc\<close>; a pool is then itself a root allocator, which is what
  \<open>RecurseAllocator\<close> relies on.
\<close>

section \<open>Groups\<close>

lemma mset_concat_update:
  "g < length gs \<Longrightarrow> mset (concat (gs[g := l])) + mset (gs ! g) = mset (concat gs) + mset l"
  by (induction gs arbitrary: g) (auto simp: nth_Cons' split: nat.split)

lemma get_group_ok:
  assumes ok: "eager_ok B s A" and ap: "blocks_apart B" and sz: "0 < sz" and al: "0 < align"
    and g: "mCurrentFreeList s = Some g"
    and eq: "getFromFreeList (mGroups s ! g) sz False align s = (Some q, l, s1)"
    and s': "s' = s1\<lparr>mGroups := (mGroups s1)[g := l]\<rparr>"
  shows "eager_ok B s' A \<and> enodes s' = enodes s \<and> taken s s' q sz \<and> mMinAllocSize s' = mMinAllocSize s \<and>
     mCurrentFreeList s' = mCurrentFreeList s \<and> eAlign s' = eAlign s \<and> length (mGroups s') = length (mGroups s)"
proof -
  let ?ns = "enodes s" and ?l = "mGroups s ! g"
  have ms: "mset (leaf_list s) = mset_set (leaves ?ns A)" and us: "\<forall>e \<in> set (mUsedList s). used_ok ?ns e"
    and co: "conf_ok s" using ok by (auto simp: eager_ok_def)
  note lf = eager_ok_leaves [OF ok]
  have pos: "0 < eAlign s" "g < length (mGroups s)" using co g by (auto simp: conf_ok_def)
  define extra where "extra = (eAlign s mod align \<noteq> 0)"
  define r0 where "r0 = (if extra then sz + align - 1 else sz)"
  obtain x where lb: "lower_bound (ekey ?ns) r0 ?l = Some x"
    using eq by (auto simp: getFromFreeList_def extra_def r0_def Let_def split: option.splits)
  then have xG: "x \<in> set ?l" and big: "r0 \<le> esize (?ns ! x)" using lower_bound_Some by (fastforce simp: ekey_def)+
  define o0 where "o0 = snd (eptr (?ns ! x))"
  define off where "off = (if extra then up_div o0 align * align else o0)"
  define r where "r = (if extra then sz + off - o0 else r0)"
  define m where "m = up_div r (eAlign s) * eAlign s"
  note ar = reuse_arith [OF al pos(1) sz extra_def r0_def big off_def r_def m_def]
  have eqs1: "q = (fst (eptr (?ns ! x)), off) \<and> l = remove1 x ?l \<and> s1 = s\<lparr>mUsedList := used_insert q x (mUsedList s)\<rparr>"
    using eq unfolding getFromFreeList_def Let_def extra_def [symmetric] r0_def [symmetric] lb option.case
      o0_def [symmetric] off_def [symmetric] by auto
  have xcat: "x \<in> set (concat (mGroups s))" using xG pos(2) by auto
  have "mset (concat (mGroups s) @ mFreeList s @ map snd (mUsedList s)) = mset_set (leaves ?ns A)"
    using ms by (simp add: leaf_list_def ac_simps)
  from in_mset_leaf [OF this lf(3) xcat] have x: "x \<in> leaves ?ns A" "x \<notin> snd ` set (mUsedList s)" by auto
  have xl: "x < length ?ns" using x(1) lf(5) by (auto simp: leaves_def)
  have uq: "used_ok ?ns (q, x)" using ar sz eqs1 by (simp add: used_ok_def o0_def)
  have fresh: "map_of (mUsedList s) q = None" by (rule pointer_fresh [OF ok ap x uq])
  have eqs: "s' = s\<lparr>mUsedList := (q, x) # mUsedList s, mGroups := (mGroups s)[g := remove1 x ?l]\<rparr>"
    using eqs1 fresh by (simp add: s' used_insert_def)
  obtain l1 l2 where fr: "?l = l1 @ x # l2" "x \<notin> set l1" using split_list_first [OF xG] by blast
  then have rm: "remove1 x ?l = l1 @ l2" by (simp add: remove1_append)
  have "mset (concat ((mGroups s)[g := l1 @ l2])) + add_mset x (mset (l1 @ l2)) = mset (concat (mGroups s)) + mset (l1 @ l2)"
    using mset_concat_update [OF pos(2), of "l1 @ l2"] by (simp add: fr(1))
  then have "add_mset x (mset (concat ((mGroups s)[g := l1 @ l2]))) + mset (l1 @ l2) = mset (concat (mGroups s)) + mset (l1 @ l2)"
    by simp
  then have cat: "add_mset x (mset (concat ((mGroups s)[g := l1 @ l2]))) = mset (concat (mGroups s))"
    by (rule add_right_imp_eq)
  have "mset (leaf_list s') = mset (leaf_list s)" using cat by (simp add: eqs leaf_list_def rm flip: cat)
  then have "eager_ok B s' A" using ok uq by (simp add: eager_ok_def eqs conf_ok_def)
  moreover have "taken s s' q sz" unfolding taken_def
    using fresh ar by (intro exI [of _ x]) (simp add: eqs eqs1 o0_def)
  ultimately show ?thesis by (simp add: eqs)
qed

lemma get_none: "getFromFreeList l0 sz b align s = (None, l, s1) \<Longrightarrow> l = l0 \<and> s1 = s"
  by (auto simp: getFromFreeList_def Let_def split: option.splits if_splits)

lemma reuse_ok:
  assumes ok: "eager_ok B s A" and ap: "blocks_apart B" and sz: "0 < sz" and al: "0 < align"
    and eq: "eager_reuse sz align s = (r, s')"
  shows "case r of
      Some q \<Rightarrow> (\<exists>A'. eager_ok B s' A' \<and> root_keys (enodes s') A' = root_keys (enodes s) A) \<and> taken s s' q sz \<and> mMinAllocSize s' = mMinAllocSize s \<and>
        mCurrentFreeList s' = mCurrentFreeList s
    | None \<Rightarrow> s' = s"
proof -
  have main: ?thesis if "getFromFreeList (mFreeList s) sz True align s = (r, l, s1)" "s' = s1\<lparr>mFreeList := l\<rparr>" for l s1
  proof (cases r)
    case None
    then show ?thesis using get_none [OF that(1) [unfolded None]] that(2) by simp
  next
    case (Some q)
    then show ?thesis using get_main_ok [OF ok ap sz al that(1) [unfolded Some] that(2)] by simp
  qed
  show ?thesis
  proof (cases "mCurrentFreeList s")
    case None
    obtain p l s1 where gm: "getFromFreeList (mFreeList s) sz True align s = (p, l, s1)" by (metis prod_cases3)
    then have "r = p" "s' = s1\<lparr>mFreeList := l\<rparr>" using eq None by (simp_all add: eager_reuse_def)
    then show ?thesis using main gm by blast
  next
    case (Some g)
    obtain p l s1 where gg: "getFromFreeList (mGroups s ! g) sz False align s = (p, l, s1)" by (metis prod_cases3)
    show ?thesis
    proof (cases p)
      case None
      then have g0: "getFromFreeList (mGroups s ! g) sz False align s = (None, mGroups s ! g, s)"
        using get_none gg by metis
      obtain p' l' s2 where gm: "getFromFreeList (mFreeList s) sz True align s = (p', l', s2)"
        by (metis prod_cases3)
      have "eager_reuse sz align s = (p', s2\<lparr>mFreeList := l'\<rparr>)"
        unfolding eager_reuse_def Some option.case g0 Let_def prod.case by (simp add: gm)
      then have "r = p'" "s' = s2\<lparr>mFreeList := l'\<rparr>" using eq by simp_all
      then show ?thesis using main gm by blast
    next
      case (Some q)
      note gq = gg [unfolded Some]
      have "r = Some q" and s': "s' = s1\<lparr>mGroups := (mGroups s1)[g := l]\<rparr>"
        using eq gq \<open>mCurrentFreeList s = Some g\<close> by (simp_all add: eager_reuse_def)
      then show ?thesis
        using get_group_ok [OF ok ap sz al \<open>mCurrentFreeList s = Some g\<close> gq s'] by auto
    qed
  qed
qed

section \<open>Giving memory back\<close>

lemma used_erase_mset:
  assumes "map_of us q = Some i" and "distinct (map snd us)" and "\<And>j. (q, j) \<in> set us \<Longrightarrow> j = i"
  shows "mset (map snd us) = add_mset i (mset (map snd (used_erase q us)))"
  using assms
proof (induction us)
  case (Cons e us)
  obtain k j where e: "e = (k, j)" by (cases e)
  show ?case
  proof (cases "k = q")
    case True
    then have "j = i" using Cons.prems(1) e by simp
    have "fst e' \<noteq> q" if "e' \<in> set us" for e'
    proof
      assume "fst e' = q"
      then have "(q, snd e') \<in> set us" using that by (metis prod.collapse)
      then have "snd e' = i" using Cons.prems(3) by simp
      then show False using Cons.prems(2) that e \<open>j = i\<close> by force
    qed
    then have "used_erase q us = us" by (simp add: used_erase_def)
    then show ?thesis using e True \<open>j = i\<close> by (simp add: used_erase_def)
  next
    case False
    then have "mset (map snd us) = add_mset i (mset (map snd (used_erase q us)))"
      using Cons e by (intro Cons.IH) auto
    then show ?thesis using e False by (simp add: used_erase_def)
  qed
qed simp

text \<open>The entries of the used list have different pointers.\<close>

lemma pool_used_unique:
  assumes ok: "eager_ok B s A" and ap: "blocks_apart B" and "(q, i) \<in> set (mUsedList s)" and "(q, j) \<in> set (mUsedList s)"
  shows "i = j"
proof (rule ccontr)
  assume "i \<noteq> j"
  then have "node_disjoint (enodes s) i j"
    using eager_leaves_disjoint [OF ok ap] eager_ok_used(1) [OF ok] assms(3,4) by blast
  moreover have "used_ok (enodes s) (q, i)" "used_ok (enodes s) (q, j)" using eager_ok_used(4) [OF ok] assms(3,4) by blast+
  ultimately show False by (auto simp: used_ok_def disjoint_ranges_def naddr_def key_addr_def)
qed

lemma used_distinct_keys:
  assumes "eager_ok B s A" and "blocks_apart B"
  shows "map_of (mUsedList s) q = Some i \<longleftrightarrow> (q, i) \<in> set (mUsedList s)"
proof
  assume "(q, i) \<in> set (mUsedList s)"
  moreover from this obtain j where "map_of (mUsedList s) q = Some j" by (metis weak_map_of_SomeI)
  ultimately show "map_of (mUsedList s) q = Some i" using pool_used_unique [OF assms] map_of_SomeD by metis
qed (rule map_of_SomeD)

lemma map_of_used_erase: "map_of (used_erase q us) = (map_of us)(q := None)"
  by (rule ext, induction us) (auto simp: used_erase_def)

text \<open>What a successful \<open>free\<close> does to the used list.\<close>

definition given :: "eager_state \<Rightarrow> eager_state \<Rightarrow> ptr_key \<Rightarrow> bool" where
  "given s s' q \<longleftrightarrow> mUsedList s' = used_erase q (mUsedList s) \<and> same_geo (enodes s) (enodes s') \<and>
     mMinAllocSize s' = mMinAllocSize s \<and> mCurrentFreeList s' = mCurrentFreeList s"

lemma roots_ok_same:
  assumes "roots_ok ns R B t" and "same_geo ns ns'" and "R' = R" and "\<forall>i \<in> R. i < length ns"
  shows "roots_ok ns' R' B t"
  using assms roots_ok_geo by blast

lemma free_ok:
  assumes ok: "eager_ok B s A" and ap: "blocks_apart B" and q: "map_of (mUsedList s) (chunk_key c) = Some i"
    and eq: "eager_free c s = (b, s')"
  shows "b \<and> (\<exists>A'. eager_ok B s' A' \<and> root_keys (enodes s') A' = root_keys (enodes s) A) \<and> given s s' (chunk_key c)"
proof -
  let ?q = "chunk_key c" and ?ns = "enodes s"
  have tree: "tree_ok ?ns A (set (mFreeList s))" and st: "settled ?ns A {}"
    and ms: "mset (leaf_list s) = mset_set (leaves ?ns A)" and us: "\<forall>e \<in> set (mUsedList s). used_ok ?ns e"
    and ro: "roots_ok ?ns (roots ?ns A) B (eTotal s)" and co: "conf_ok s" using ok by (auto simp: eager_ok_def)
  note lf = eager_ok_leaves [OF ok]
  have e: "(?q, i) \<in> set (mUsedList s)" using q by (rule map_of_SomeD)
  note iu = eager_ok_used [OF ok e]
  have "distinct (map snd (mUsedList s))" using lf(1) by (simp add: leaf_list_def)
  then have um: "mset (map snd (mUsedList s)) = add_mset i (mset (map snd (used_erase ?q (mUsedList s))))"
    using used_erase_mset [OF q] pool_used_unique [OF ok ap e] by blast
  have Rlen: "\<forall>i \<in> roots ?ns A. i < length ?ns" using lf(5) by (auto simp: roots_def)
  have usub: "set (used_erase ?q (mUsedList s)) \<subseteq> set (mUsedList s)" by (auto simp: used_erase_def)
  show ?thesis
  proof (cases "mCurrentFreeList s")
    case (Some g)
    have g: "g < length (mGroups s)" using co Some by (simp add: conf_ok_def)
    let ?l = "insert_by (ekey ?ns) i (mGroups s ! g)"
    have "returnMemory (mGroups s ! g) i False ?ns = (?l, ?ns)"
      by (auto simp: returnMemory_def Let_def split: option.split)
    then have eqs: "b" "s' = s\<lparr>mUsedList := used_erase ?q (mUsedList s), mGroups := (mGroups s)[g := ?l]\<rparr>"
      using eq q Some by (simp_all add: eager_free_def)
    have "mset (concat ((mGroups s)[g := ?l])) + mset (mGroups s ! g) = add_mset i (mset (concat (mGroups s))) + mset (mGroups s ! g)"
      using mset_concat_update [OF g, of ?l] by simp
    then have "mset (concat ((mGroups s)[g := ?l])) = add_mset i (mset (concat (mGroups s)))" by (rule add_right_imp_eq)
    then have "mset (leaf_list s') = mset (leaf_list s)" using um by (simp add: eqs leaf_list_def)
    then have "eager_ok B s' A" using ok usub by (auto simp: eager_ok_def eqs conf_ok_def)
    then show ?thesis using eqs by (auto simp: given_def)
  next
    case None
    obtain l ns' where rt: "returnMemory (mFreeList s) i True ?ns = (l, ns')" by fastforce
    have eqs: "b" "s' = s\<lparr>mUsedList := used_erase ?q (mUsedList s), enodes := ns', mFreeList := l\<rparr>"
      using eq q None rt by (simp_all add: eager_free_def)
    let ?R = "mset (map snd (used_erase ?q (mUsedList s))) + mset (concat (mGroups s))"
    have m2: "mset (mFreeList s) + add_mset i ?R = mset_set (leaves ?ns A)"
      using ms um by (simp add: leaf_list_def)
    have iF: "i \<notin> set (mFreeList s)" using lf(1) imageI [OF e, of snd] by (auto simp: leaf_list_def)
    from return_memory_merge [OF tree st iu(1) iF m2 rt] obtain A'
      where A': "A' \<subseteq> A" "roots ns' A' = roots ?ns A" "same_geo ?ns ns'" "tree_ok ns' A' (set l)"
        "mset l + ?R = mset_set (leaves ns' A')" "settled ns' A' {}" by blast
    have "roots_ok ns' (roots ns' A') B (eTotal s)" using roots_ok_same [OF ro A'(3,2) Rlen] .
    moreover have "used_ok ns' e" if "e \<in> set (used_erase ?q (mUsedList s))" for e
    proof -
      have "e \<in> set (mUsedList s)" using usub that by blast
      then have "used_ok ?ns e" "snd e < length ?ns" using us eager_ok_used(3) [OF ok, of "fst e" "snd e"] by auto
      then show ?thesis using used_ok_geo [OF A'(3)] by blast
    qed
    moreover have "conf_ok s'" using co by (simp add: conf_ok_def eqs)
    moreover have "mset (leaf_list s') = mset_set (leaves ns' A')" using A'(5) by (simp add: leaf_list_def eqs add.assoc)
    ultimately have "eager_ok B s' A'" using A' by (simp add: eager_ok_def eqs)
    moreover have "root_keys ns' A' = root_keys ?ns A"
      by (rule root_keys_cong) (use A'(2,3) Rlen in \<open>auto simp: same_geo_def\<close>)
    ultimately show ?thesis using eqs A'(3) by (auto simp: given_def)
  qed
qed

lemma return_all:
  assumes "tree_ok ns A (set l)" and "settled ns A {}" and "mset l + (mset js + R) = mset_set (leaves ns A)"
    and "fold (\<lambda>i (l, ns). returnMemory l i True ns) js (l, ns) = (l', ns')"
  shows "\<exists>A'. A' \<subseteq> A \<and> roots ns' A' = roots ns A \<and> same_geo ns ns' \<and> tree_ok ns' A' (set l') \<and>
     mset l' + R = mset_set (leaves ns' A') \<and> settled ns' A' {}"
  using assms
proof (induction js arbitrary: l ns A)
  case Nil
  then show ?case by (intro exI [of _ A]) simp
next
  case (Cons i js)
  obtain l1 ns1 where r: "returnMemory l i True ns = (l1, ns1)" by fastforce
  have fin: "finite (leaves ns A)" using tree_finite [OF Cons.prems(1)] by (simp add: leaves_def)
  have "mset (i # js @ l) \<subseteq># mset_set (leaves ns A)" using Cons.prems(3) by (metis ac_simps(2) add.assoc mset.simps(2)
      mset_append mset_subset_eq_add_left add_mset_add_single)
  then have sub: "add_mset i (mset l) \<subseteq># mset_set (leaves ns A)"
    by (rule subset_mset.order_trans [rotated]) simp
  have i: "i \<in> leaves ns A" "i \<notin> set l"
  proof -
    have "count (add_mset i (mset l)) i \<le> count (mset_set (leaves ns A)) i" using sub by (rule mset_subset_eq_count)
    then show "i \<in> leaves ns A" "i \<notin> set l" by (auto simp: count_mset_set' split: if_splits)
  qed
  have ms: "mset l + add_mset i (mset js + R) = mset_set (leaves ns A)" using Cons.prems(3) by simp
  from return_memory_merge [OF Cons.prems(1,2) i ms r] obtain A1
    where A1: "A1 \<subseteq> A" "roots ns1 A1 = roots ns A" "same_geo ns ns1" "tree_ok ns1 A1 (set l1)"
      "mset l1 + (mset js + R) = mset_set (leaves ns1 A1)" "settled ns1 A1 {}" by blast
  have "fold (\<lambda>i (l, ns). returnMemory l i True ns) js (l1, ns1) = (l', ns')" using Cons.prems(4) r by simp
  from Cons.IH [OF A1(4,6,5) this] obtain A' where "A' \<subseteq> A1" "roots ns' A' = roots ns1 A1" "same_geo ns1 ns'"
    "tree_ok ns' A' (set l')" "mset l' + R = mset_set (leaves ns' A')" "settled ns' A' {}" by blast
  then show ?case using A1 same_geo_trans by (intro exI [of _ A']) auto
qed

lemma barrierEnd_ok:
  assumes ok: "eager_ok B s A" and "mCurrentFreeList s = None"
  shows "\<exists>A'. eager_ok B (eager_barrierEnd s) A' \<and> root_keys (enodes (eager_barrierEnd s)) A' = root_keys (enodes s) A \<and>
     mUsedList (eager_barrierEnd s) = mUsedList s \<and> same_geo (enodes s) (enodes (eager_barrierEnd s))"
proof -
  let ?ns = "enodes s"
  have tree: "tree_ok ?ns A (set (mFreeList s))" and st: "settled ?ns A {}"
    and ms: "mset (leaf_list s) = mset_set (leaves ?ns A)" and us: "\<forall>e \<in> set (mUsedList s). used_ok ?ns e"
    and ro: "roots_ok ?ns (roots ?ns A) B (eTotal s)" and co: "conf_ok s" using ok by (auto simp: eager_ok_def)
  note lf = eager_ok_leaves [OF ok]
  have Rlen: "\<forall>i \<in> roots ?ns A. i < length ?ns" using lf(5) by (auto simp: roots_def)
  obtain l ns' where f: "fold (\<lambda>i (l, ns). returnMemory l i True ns) (concat (mGroups s)) (mFreeList s, ?ns) = (l, ns')"
    by fastforce
  have "mset (mFreeList s) + (mset (concat (mGroups s)) + mset (map snd (mUsedList s))) = mset_set (leaves ?ns A)"
    using ms by (simp add: leaf_list_def ac_simps)
  from return_all [OF tree st this f] obtain A'
    where A': "A' \<subseteq> A" "roots ns' A' = roots ?ns A" "same_geo ?ns ns'" "tree_ok ns' A' (set l)"
      "mset l + mset (map snd (mUsedList s)) = mset_set (leaves ns' A')" "settled ns' A' {}" by blast
  have eqs: "eager_barrierEnd s = s\<lparr>enodes := ns', mFreeList := l, mGroups := []\<rparr>"
    using f by (simp add: eager_barrierEnd_def)
  have "used_ok ns' e" if "e \<in> set (mUsedList s)" for e
    using us that used_ok_geo [OF A'(3)] eager_ok_used(3) [OF ok, of "fst e" "snd e"] by auto
  moreover have "roots_ok ns' (roots ns' A') B (eTotal s)" using roots_ok_same [OF ro A'(3,2) Rlen] .
  moreover have "conf_ok (eager_barrierEnd s)" using co assms(2) by (simp add: conf_ok_def eqs)
  ultimately have "eager_ok B (eager_barrierEnd s) A'" using A' by (simp add: eager_ok_def eqs leaf_list_def)
  moreover have "root_keys ns' A' = root_keys ?ns A"
    by (rule root_keys_cong) (use A'(2,3) Rlen in \<open>auto simp: same_geo_def\<close>)
  ultimately show ?thesis using A'(3) by (auto simp: eqs)
qed

lemma beginGroup_ok: "eager_ok B s A \<Longrightarrow> eager_ok B (eager_beginGroup s) A"
  by (simp add: eager_ok_def eager_beginGroup_def leaf_list_def conf_ok_def)

lemma endGroup_ok: "eager_ok B s A \<Longrightarrow> eager_ok B (eager_endGroup s) A"
  by (simp add: eager_ok_def eager_endGroup_def leaf_list_def conf_ok_def)

section \<open>Releasing\<close>

lemma tree_prune:
  assumes tree: "tree_ok ns A F" and S: "S \<subseteq> F" "S \<subseteq> roots ns A"
  shows "tree_ok ns (A - S) (F - S) \<and> leaves ns (A - S) = leaves ns A - S \<and> roots ns (A - S) = roots ns A - S \<and>
     (\<forall>p. kids ns (A - S) p = kids ns A p)"
proof -
  have k: "kids ns (A - S) p = kids ns A p" for p using S by (auto simp: kids_def roots_def)
  have lv: "leaves ns (A - S) = leaves ns A - S" using k by (auto simp: leaves_def)
  have rt: "roots ns (A - S) = roots ns A - S" by (auto simp: roots_def)
  have "tree_ok ns (A - S) (F - S)" unfolding tree_ok_def
  proof (intro conjI ballI allI impI)
    fix i assume i: "i \<in> A - S"
    then show "i < length ns" using tree_lengths [OF tree] by blast
    fix p assume "eparent (ns ! i) = Some p"
    then have p: "p \<in> A" "p < i" "i \<in> kids ns A p" using tree_parent [OF tree] i by auto
    then show "p < i" by simp
    have "S \<subseteq> leaves ns A" using S tree by (auto simp: tree_ok_def)
    then show "p \<in> A - S" using p by (auto simp: leaves_def)
  next
    fix p assume "p \<in> A - S" "kids ns (A - S) p \<noteq> {}"
    then show "pair_ok ns p (kids ns (A - S) p)" using tree k by (simp add: tree_ok_def)
  next
    fix p assume p: "p \<in> A - S"
    have "kids ns A p - (F - S) = kids ns A p - F" using S by (auto simp: kids_def roots_def)
    then show "euse (ns ! p) = card (kids ns (A - S) p - (F - S))" using tree p k by (simp add: tree_ok_def)
  next
    show "F - S \<subseteq> leaves ns (A - S)" using lv tree by (auto simp: tree_ok_def)
  qed
  then show ?thesis using lv rt k by blast
qed

lemma set_live_roots: "eager_ok B s A \<Longrightarrow> set (live_roots s) = roots (enodes s) A"
proof -
  assume ok: "eager_ok B s A"
  have "set (map snd (mUsedList s) @ mFreeList s @ concat (mGroups s)) = leaves (enodes s) A"
    using eager_ok_leaves(2) [OF ok] unfolding leaf_list_def set_append by blast
  moreover have "tree_ok (enodes s) A (set (mFreeList s))" using ok by (simp add: eager_ok_def)
  ultimately show ?thesis using root_of_leaves unfolding live_roots_def set_map by metis
qed

lemma fold_size_sub: "(\<Sum>x \<leftarrow> xs. f x) \<le> t \<Longrightarrow> fold (\<lambda>i t. size_sub t (f i)) xs t = t - (\<Sum>x \<leftarrow> xs. f x)"
  by (induction xs arbitrary: t) (auto simp: size_sub_def)

definition dead_roots :: "eager_state \<Rightarrow> eager_state \<Rightarrow> nat list" where
  "dead_roots s s' = filter (\<lambda>i. i \<in> set (live_roots s) \<and> i \<notin> set (live_roots s')) [0..<length (enodes s)]"

lemma pruned_ok:
  assumes ok: "eager_ok B s A" and S: "S = {i \<in> set (mFreeList s). eparent (enodes s ! i) = None}"
    and s': "s' = s\<lparr>mFreeList := filter (\<lambda>i. eparent (enodes s ! i) \<noteq> None) (mFreeList s),
                eTotal := fold (\<lambda>i t. size_sub t (ekey (enodes s) i))
                  (filter (\<lambda>i. eparent (enodes s ! i) = None) (mFreeList s)) (eTotal s)\<rparr>"
    and B': "\<And>q. B' q = (if q \<in> (\<lambda>i. eptr (enodes s ! i)) ` S then None else B q)"
  shows "eager_ok B' s' (A - S) \<and> S \<subseteq> roots (enodes s) A \<and> set (dead_roots s s') = S"
proof -
  let ?ns = "enodes s" and ?R = "roots (enodes s) A"
  have tree: "tree_ok ?ns A (set (mFreeList s))" and st: "settled ?ns A {}"
    and ms: "mset (leaf_list s) = mset_set (leaves ?ns A)" and us: "\<forall>e \<in> set (mUsedList s). used_ok ?ns e"
    and ro: "roots_ok ?ns ?R B (eTotal s)" and co: "conf_ok s" using ok by (auto simp: eager_ok_def)
  note lf = eager_ok_leaves [OF ok]
  have SF: "S \<subseteq> set (mFreeList s)" using S by auto
  have SR: "S \<subseteq> ?R" using S lf(4) by (auto simp: roots_def leaf_list_def)
  note pr = tree_prune [OF tree SF SR]
  have finR: "finite ?R" using tree_finite [OF tree] by (simp add: roots_def)
  have dF: "distinct (mFreeList s)" using lf(1) by (simp add: leaf_list_def)
  let ?xs = "filter (\<lambda>i. eparent (?ns ! i) = None) (mFreeList s)"
  have xs: "distinct ?xs" "set ?xs = S" using dF S by auto
  have sumxs: "(\<Sum>x \<leftarrow> ?xs. ekey ?ns x) = (\<Sum>x \<in> S. esize (?ns ! x))"
  proof -
    have "(\<Sum>x \<in> S. ekey ?ns x) = (\<Sum>x \<in> S. esize (?ns ! x))" by (simp add: ekey_def)
    with sum_list_distinct_conv_sum_set [OF xs(1), of "ekey ?ns"] xs(2) show ?thesis by simp
  qed
  have "(\<Sum>x \<in> S. esize (?ns ! x)) \<le> eTotal s" using ro SR finR by (auto simp: roots_ok_def intro: sum_mono2)
  then have tot: "eTotal s' = (\<Sum>i \<in> ?R - S. esize (?ns ! i))"
    using fold_size_sub [of "ekey ?ns" ?xs] sumxs ro SR finR
    by (simp add: s' roots_ok_def sum_diff_nat finite_subset)
  have setF: "set (mFreeList s') = set (mFreeList s) - S" using S by (auto simp: s')
  have B'ne: "B' (eptr (?ns ! i)) = B (eptr (?ns ! i))" if "i \<in> ?R - S" for i
    using that ro SR unfolding B' by (auto simp: roots_ok_def inj_on_def)
  have ro': "roots_ok ?ns (?R - S) B' (eTotal s')"
    using ro B'ne tot by (auto simp: roots_ok_def intro: inj_on_subset)
  have ms': "mset (leaf_list s') = mset_set (leaves ?ns A - S)"
  proof -
    have "mset (leaf_list s') + mset ?xs = mset (leaf_list s)"
      by (simp add: leaf_list_def s' union_commute union_assoc flip: multiset_partition)
    also have "\<dots> = mset_set (leaves ?ns A - S) + mset_set S"
    proof -
      have "S \<subseteq> leaves ?ns A" using SF tree by (auto simp: tree_ok_def)
      then have "leaves ?ns A = (leaves ?ns A - S) \<union> S" "finite S" using lf(3) finite_subset by blast+
      then show ?thesis using ms lf(3) by (metis Diff_disjoint Int_commute finite_Diff mset_set_Union)
    qed
    also have "mset_set S = mset ?xs" using xs mset_set_set by blast
    finally show ?thesis by simp
  qed
  have ok': "eager_ok B' s' (A - S)"
    using pr setF ro' ms' us st co by (simp add: eager_ok_def s' settled_def conf_ok_def)
  have "set (dead_roots s s') = S"
    using set_live_roots [OF ok] set_live_roots [OF ok'] pr SR lf(5)
    by (auto simp: dead_roots_def s' roots_def)
  then show ?thesis using ok' SR by blast
qed

lemma cleared_ok:
  assumes ok: "eager_ok B s A" and "mGroups s = []" and cur: "mCurrentFreeList s = None"
    and s': "s' = s\<lparr>mUsedList := [], mFreeList := [], eTotal := 0\<rparr>"
  shows "eager_ok B' s' {} \<and> set (dead_roots s s') = roots (enodes s) A"
proof -
  have co: "conf_ok s" using ok by (simp add: eager_ok_def)
  have ok': "eager_ok B' s' {}"
    using co assms(2) cur by (simp add: eager_ok_def s' tree_ok_def settled_def leaf_list_def leaves_def roots_def
        roots_ok_def conf_ok_def)
  then have "set (dead_roots s s') = roots (enodes s) A"
    using set_live_roots [OF ok] set_live_roots [OF ok'] eager_ok_leaves(5) [OF ok]
    by (auto simp: dead_roots_def roots_def)
  with ok' show ?thesis by blast
qed

section \<open>The pool over a root allocator\<close>

lemma pool_base_pos:
  assumes tree: "tree_ok ns A F" and roots: "\<And>i. i \<in> roots ns A \<Longrightarrow> fst (eptr (ns ! i)) \<noteq> 0"
  shows "i \<in> A \<Longrightarrow> fst (eptr (ns ! i)) \<noteq> 0"
proof (induction i rule: less_induct)
  case (less i)
  show ?case
  proof (cases "eparent (ns ! i)")
    case None
    then show ?thesis using roots less.prems by (simp add: roots_def)
  next
    case (Some p)
    then have p: "p \<in> A" "p < i" "i \<in> kids ns A p" using tree_parent [OF tree less.prems] by auto
    have "fst (eptr (ns ! i)) = fst (eptr (ns ! p))"
      using tree_pair [OF tree less.prems Some] p(3) by (auto simp: pair_ok_def)
    then show ?thesis using less.IH p by simp
  qed
qed

lemma chunk_key_chunk [simp]: "chunk_key (key_chunk q) = q"
  by (simp add: chunk_key_def key_chunk_def)

context raw_alloc
begin

lemma blocks_are_apart: "winv w \<Longrightarrow> blocks_apart (blocks w)"
  unfolding blocks_apart_def using blocks_disjoint by blast

lemma release_fold:
  assumes "winv w" and "\<forall>i \<in> set is. blocks w (k i) \<noteq> None" and "distinct is" and "inj_on k (set is)"
  shows "winv (fold (\<lambda>i. on_release (key_chunk (k i))) is w) \<and>
     blocks (fold (\<lambda>i. on_release (key_chunk (k i))) is w) = (\<lambda>q. if q \<in> k ` set is then None else blocks w q)"
  using assms
proof (induction "is" arbitrary: w)
  case (Cons i js)
  let ?w = "on_release (key_chunk (k i)) w"
  have w: "winv ?w" "blocks ?w = (blocks w)(k i := None)"
    using release_ok [OF Cons.prems(1), of "key_chunk (k i)"] Cons.prems(2) by auto
  have "k j \<noteq> k i" if "j \<in> set js" for j using that Cons.prems(3,4) by (auto simp: inj_on_def)
  then have "\<forall>j \<in> set js. blocks ?w (k j) \<noteq> None" using w Cons.prems(2) by auto
  then have IH: "winv (fold (\<lambda>i. on_release (key_chunk (k i))) js ?w)"
    "blocks (fold (\<lambda>i. on_release (key_chunk (k i))) js ?w) = (\<lambda>q. if q \<in> k ` set js then None else blocks ?w q)"
    using Cons.IH [OF w(1)] Cons.prems(3,4) by simp_all
  show ?case using IH(1) unfolding fold.simps comp_apply IH(2) w(2) by auto
qed simp

lemma pool_release:
  assumes w: "winv w" and ok: "eager_ok (blocks w) s A" and eq: "eager_release on_release allRelease s w = (s', w')"
    and grp: "allRelease \<longrightarrow> mGroups s = [] \<and> mCurrentFreeList s = None"
  shows "winv w' \<and> (\<exists>A'. eager_ok (blocks w') s' A' \<and>
       A' = (if allRelease then {} else A - {i \<in> set (mFreeList s). eparent (enodes s ! i) = None}) \<and>
       blocks w' = (\<lambda>q. if q \<in> root_keys (enodes s) A - root_keys (enodes s') A' then None else blocks w q) \<and>
       (allRelease \<longrightarrow> A' = {} \<and> eTotal s' = 0)) \<and> enodes s' = enodes s"
proof -
  let ?k = "\<lambda>i. eptr (enodes s ! i)"
  let ?S = "if allRelease then roots (enodes s) A else {i \<in> set (mFreeList s). eparent (enodes s ! i) = None}"
  have ro: "roots_ok (enodes s) (roots (enodes s) A) (blocks w) (eTotal s)" using ok by (simp add: eager_ok_def)
  have w': "w' = fold (\<lambda>i. on_release (key_chunk (?k i))) (dead_roots s s') w"
    using eq by (auto simp: eager_release_def release_dead_def dead_roots_def Let_def)
  have SR: "?S \<subseteq> roots (enodes s) A" using eager_ok_leaves(4) [OF ok] by (auto simp: roots_def leaf_list_def)
  have inj: "inj_on ?k (roots (enodes s) A)" using ro by (simp add: roots_ok_def)
  have dead: "set (dead_roots s s') = ?S"
  proof (cases allRelease)
    case True
    then show ?thesis using cleared_ok [OF ok _ _ refl] grp eq by (auto simp: eager_release_def Let_def)
  next
    case False
    then have "s' = s\<lparr>mFreeList := filter (\<lambda>i. eparent (enodes s ! i) \<noteq> None) (mFreeList s),
                eTotal := fold (\<lambda>i t. size_sub t (ekey (enodes s) i))
                  (filter (\<lambda>i. eparent (enodes s ! i) = None) (mFreeList s)) (eTotal s)\<rparr>"
      using eq by (simp add: eager_release_def Let_def)
    from pruned_ok [OF ok refl this refl] show ?thesis using False by simp
  qed
  have nn: "\<forall>i \<in> ?S. blocks w (?k i) \<noteq> None" using ro SR unfolding roots_ok_def by blast
  have dd: "distinct (dead_roots s s')" by (simp add: dead_roots_def)
  note rf = release_fold [OF w _ dd, of ?k, unfolded dead, OF nn inj_on_subset [OF inj SR]]
  have rel: "winv w'" "blocks w' = (\<lambda>q. if q \<in> ?k ` ?S then None else blocks w q)"
    unfolding w' using rf by blast+
  define A' where "A' = (if allRelease then {} else A - ?S)"
  have ok': "eager_ok (blocks w') s' A' \<and> enodes s' = enodes s \<and> (allRelease \<longrightarrow> A' = {} \<and> eTotal s' = 0) \<and>
    roots (enodes s) A' = roots (enodes s) A - ?S"
  proof (cases allRelease)
    case True
    then show ?thesis using cleared_ok [OF ok _ _ refl] grp eq by (auto simp: eager_release_def Let_def A'_def roots_def)
  next
    case False
    then have s': "s' = s\<lparr>mFreeList := filter (\<lambda>i. eparent (enodes s ! i) \<noteq> None) (mFreeList s),
                eTotal := fold (\<lambda>i t. size_sub t (ekey (enodes s) i))
                  (filter (\<lambda>i. eparent (enodes s ! i) = None) (mFreeList s)) (eTotal s)\<rparr>"
      using eq by (simp add: eager_release_def Let_def)
    have "eager_ok (blocks w') s' (A - ?S)" using pruned_ok [OF ok refl s'] rel(2) False by simp
    then show ?thesis using False by (auto simp: A'_def s' roots_def)
  qed
  moreover have "?k ` ?S = root_keys (enodes s) A - root_keys (enodes s') A'"
  proof -
    have "root_keys (enodes s') A' = ?k ` (roots (enodes s) A - ?S)" using ok' by (simp add: root_keys_def)
    also have "\<dots> = ?k ` roots (enodes s) A - ?k ` ?S" by (rule inj_on_image_set_diff [OF inj _ SR]) blast
    finally show ?thesis using image_mono [OF SR, of ?k] unfolding root_keys_def by blast
  qed
  moreover have "A' = (if allRelease then {} else A - {i \<in> set (mFreeList s). eparent (enodes s ! i) = None})"
    by (simp add: A'_def)
  ultimately show ?thesis using rel by (intro conjI exI [of _ A']) auto
qed

lemma pool_alloc:
  assumes w: "winv w" and ok: "eager_ok (blocks w) s A" and sz: "0 < sz"
    and grp: "mMinAllocSize s = 0 \<or> mCurrentFreeList s = None"
    and eq: "eager_alloc on_alloc sz separate align s w = (c, s', w')"
  shows "winv w' \<and> (if cfirst c = 0 then eager_ok (blocks w') s' A \<and> blocks w' = blocks w \<and> s' = s
     else cnode c = None \<and> taken s s' (chunk_key c) sz \<and> mMinAllocSize s' = mMinAllocSize s \<and>
       mCurrentFreeList s' = mCurrentFreeList s \<and>
       (\<exists>A'. eager_ok (blocks w') s' A' \<and>
          (blocks w' = blocks w \<and> root_keys (enodes s') A' = root_keys (enodes s) A \<or>
           (\<exists>e q. blocks w q = None \<and> blocks w' = (blocks w)(q \<mapsto> e) \<and>
              root_keys (enodes s') A' = insert q (root_keys (enodes s) A)))))"
proof -
  have pos: "0 < eAlign s" using ok by (simp add: eager_ok_def conf_ok_def)
  define al where "al = (if align = 0 then eAlign s else align)"
  have al: "0 < al" using pos by (simp add: al_def)
  note ap = blocks_are_apart [OF w]
  obtain r s1 where rs: "(if separate then (None, s) else eager_reuse sz al s) = (r, s1)" by fastforce
  have nz: "fst q \<noteq> 0" if t: "taken s s1 q sz" "eager_ok (blocks w) s1 A1" for q A1
  proof -
    obtain i where "mUsedList s1 = (q, i) # mUsedList s" using t(1) unfolding taken_def by blast
    then have i: "(q, i) \<in> set (mUsedList s1)" by simp
    note u = eager_ok_used [OF t(2) i]
    have tr: "tree_ok (enodes s1) A1 (set (mFreeList s1))" using t(2) by (simp add: eager_ok_def)
    have "fst (eptr (enodes s1 ! j)) \<noteq> 0" if "j \<in> roots (enodes s1) A1" for j
    proof -
      have "\<exists>e. blocks w (eptr (enodes s1 ! j)) = Some e"
        using t(2) that unfolding eager_ok_def roots_ok_def by blast
      then show ?thesis using blocks_pos [OF w] by blast
    qed
    then have "fst (eptr (enodes s1 ! i)) \<noteq> 0" using pool_base_pos [OF tr _ u(2)] by blast
    then show ?thesis using u(4) by (simp add: used_ok_def)
  qed
  show ?thesis
  proof (cases r)
    case (Some q)
    then have rq: "eager_reuse sz al s = (Some q, s1)" using rs by (simp split: if_splits)
    from reuse_ok [OF ok ap sz al rq] obtain A'
      where A': "eager_ok (blocks w) s1 A'" "root_keys (enodes s1) A' = root_keys (enodes s) A"
        and t: "taken s s1 q sz" "mMinAllocSize s1 = mMinAllocSize s" "mCurrentFreeList s1 = mCurrentFreeList s" by auto
    have e: "c = key_chunk q" "s' = s1" "w' = w"
      using eq rs Some by (simp_all add: eager_alloc_def al_def split: if_splits)
    have "cfirst c \<noteq> 0" using nz [OF t(1) A'(1)] by (simp add: e key_chunk_def)
    then show ?thesis using w A' t by (auto simp: e key_chunk_def chunk_key_def)
  next
    case None
    then have s1: "s1 = s"
    proof (cases separate)
      case False
      then have "eager_reuse sz al s = (None, s1)" using rs None by simp
      from reuse_ok [OF ok ap sz al this] show ?thesis by simp
    qed (use rs in simp)
    define sa where "sa = (if mMinAllocSize s \<noteq> 0 then max (mMinAllocSize s) sz else sz)"
    obtain c1 w1 where oa: "on_alloc sa al w = (c1, w1)" by fastforce
    have sa: "0 < sa" "sz \<le> sa" using sz by (auto simp: sa_def)
    have res: "(c, s', w') = (if cfirst c1 = 0 then (c1, s, w1)
        else (key_chunk (chunk_key c1), eager_root_block (chunk_key c1) sz sa s, w1))"
      using eq rs oa None s1 unfolding eager_alloc_def al_def [symmetric] Let_def sa_def
      by (simp split: if_splits)
    show ?thesis
    proof (cases "cfirst c1 = 0")
      case True
      then show ?thesis using res alloc_null [OF w sa(1) al oa] ok by simp
    next
      case False
      then have e: "c = key_chunk (chunk_key c1)" "s' = eager_root_block (chunk_key c1) sz sa s" "w' = w1"
        using res by simp_all
      from alloc_some [OF w sa(1) al oa False] obtain e
        where al1: "winv w1" "blocks w (chunk_key c1) = None" "sa \<le> e" "blocks w1 = (blocks w)(chunk_key c1 \<mapsto> e)" by blast
      from eager_add_root [OF ok blocks_are_apart [OF al1(1)] al1(2,4,3) sz sa(2) sa_def grp e(2)] obtain A' i
        where r: "eager_ok (blocks w1) s' A'" "root_keys (enodes s') A' = insert (chunk_key c1) (root_keys (enodes s) A)"
          "mUsedList s' = (chunk_key c1, i) # mUsedList s" "map_of (mUsedList s) (chunk_key c1) = None"
          "\<forall>j \<in> snd ` set (mUsedList s). eptr (enodes s' ! j) = eptr (enodes s ! j) \<and> esize (enodes s' ! j) = esize (enodes s ! j)"
          "eptr (enodes s' ! i) = chunk_key c1" "sz \<le> esize (enodes s' ! i)" by blast
      have "taken s s' (chunk_key c1) sz" unfolding taken_def using r(3-7) by (intro exI [of _ i]) simp
      moreover have "mMinAllocSize s' = mMinAllocSize s" "mCurrentFreeList s' = mCurrentFreeList s"
        unfolding e(2) eager_root_block_def Let_def by (simp_all split: option.split)
      moreover have "cfirst c \<noteq> 0" "chunk_key c = chunk_key c1" "cnode c = None"
        using False by (simp_all add: e(1)) (simp_all add: key_chunk_def chunk_key_def)
      moreover have "\<exists>A'. eager_ok (blocks w1) s' A' \<and> (\<exists>e q. blocks w q = None \<and> blocks w1 = (blocks w)(q \<mapsto> e) \<and>
          root_keys (enodes s') A' = insert q (root_keys (enodes s) A))"
        using al1(2,4) r(1,2) by blast
      ultimately show ?thesis using al1(1) e(3) by auto
    qed
  qed
qed

end

end
