(* ===== verification/Eager_Claims.thy ===== *)
theory Eager_Claims
  imports Eager_Ops Defer_Claims
begin

text \<open>
  The properties of \<open>EagerBufferAllocator\<close> over every run of a client, for every root allocator that
  keeps the contract \<open>raw_alloc\<close>, and the two places where the code does not keep it up.
\<close>

section \<open>The pool as a provider\<close>

text \<open>The blocks a pool has given out: from the pointer to the end of the node behind it.\<close>

definition pool_blocks :: "eager_state \<Rightarrow> ptr_key \<Rightarrow> nat option" where
  "pool_blocks s q =
     (case map_of (mUsedList s) q of
        None \<Rightarrow> None
      | Some i \<Rightarrow> Some (snd (eptr (enodes s ! i)) + esize (enodes s ! i) - snd q))"

definition pool_inv :: "('w \<Rightarrow> ptr_key \<Rightarrow> nat option) \<Rightarrow> ('w \<Rightarrow> bool) \<Rightarrow> eager_state \<Rightarrow> 'w \<Rightarrow> bool" where
  "pool_inv blocks winv s w \<longleftrightarrow> winv w \<and> (\<exists>A. eager_ok (blocks w) s A)"

lemma pool_blocks_taken:
  assumes "taken s s' q sz"
  shows "\<exists>e \<ge> sz. pool_blocks s' = (pool_blocks s)(q \<mapsto> e) \<and> pool_blocks s q = None"
proof -
  from assms obtain i where i: "mUsedList s' = (q, i) # mUsedList s" "map_of (mUsedList s) q = None"
    "\<forall>j \<in> snd ` set (mUsedList s). eptr (enodes s' ! j) = eptr (enodes s ! j) \<and> esize (enodes s' ! j) = esize (enodes s ! j)"
    "snd q + sz \<le> snd (eptr (enodes s' ! i)) + esize (enodes s' ! i)" unfolding taken_def by blast
  have "pool_blocks s' k = ((pool_blocks s)(q \<mapsto> snd (eptr (enodes s' ! i)) + esize (enodes s' ! i) - snd q)) k" for k
  proof (cases "k = q")
    case False
    show ?thesis
    proof (cases "map_of (mUsedList s) k")
      case None
      then show ?thesis using False i(1) by (simp add: pool_blocks_def)
    next
      case (Some j)
      then have "j \<in> snd ` set (mUsedList s)" using imageI [OF map_of_SomeD [OF Some], of snd] by simp
      then have "eptr (enodes s' ! j) = eptr (enodes s ! j) \<and> esize (enodes s' ! j) = esize (enodes s ! j)"
        using i(3) by blast
      then show ?thesis using False i(1) Some by (simp add: pool_blocks_def)
    qed
  qed (use i(1) in \<open>simp add: pool_blocks_def\<close>)
  moreover have "pool_blocks s q = None" using i(2) by (simp add: pool_blocks_def)
  ultimately show ?thesis using i(4)
    by (intro exI [of _ "snd (eptr (enodes s' ! i)) + esize (enodes s' ! i) - snd q"]) auto
qed

lemma pool_blocks_given:
  assumes g: "given s s' q" and ok: "eager_ok B s A"
  shows "pool_blocks s' = (pool_blocks s)(q := None)"
proof
  fix k
  have "j < length (enodes s)" if "map_of (mUsedList s) k = Some j" for j
    using eager_ok_used(3) [OF ok map_of_SomeD [OF that]] .
  with g show "pool_blocks s' k = ((pool_blocks s)(q := None)) k"
    by (auto simp: pool_blocks_def given_def map_of_used_erase same_geo_def split: option.split)
qed

lemma pool_block_range:
  assumes ok: "eager_ok B s A" and q: "pool_blocks s q = Some e"
  shows "\<exists>i. (q, i) \<in> set (mUsedList s) \<and> 0 < e \<and> naddr (enodes s) i \<le> key_addr q \<and>
     key_addr q + e = naddr (enodes s) i + esize (enodes s ! i)"
proof -
  from q obtain i where i: "map_of (mUsedList s) q = Some i"
    and e: "e = snd (eptr (enodes s ! i)) + esize (enodes s ! i) - snd q" by (auto simp: pool_blocks_def split: option.splits)
  have "used_ok (enodes s) (q, i)" using eager_ok_used(4) [OF ok map_of_SomeD [OF i]] .
  then show ?thesis using map_of_SomeD [OF i] e
    by (intro exI [of _ i]) (auto simp: used_ok_def naddr_def key_addr_def)
qed

lemma pool_blocks_apart:
  assumes ok: "eager_ok B s A" and ap: "blocks_apart B"
  shows "blocks_apart (pool_blocks s)"
  unfolding blocks_apart_def
proof (intro allI impI)
  fix q q' m m' assume a: "pool_blocks s q = Some m" "pool_blocks s q' = Some m'" "q \<noteq> q'"
  from pool_block_range [OF ok a(1)] obtain i where i: "(q, i) \<in> set (mUsedList s)" "0 < m"
    "naddr (enodes s) i \<le> key_addr q" "key_addr q + m = naddr (enodes s) i + esize (enodes s ! i)" by blast
  from pool_block_range [OF ok a(2)] obtain j where j: "(q', j) \<in> set (mUsedList s)" "0 < m'"
    "naddr (enodes s) j \<le> key_addr q'" "key_addr q' + m' = naddr (enodes s) j + esize (enodes s ! j)" by blast
  have "i \<noteq> j"
  proof
    assume "i = j"
    then have e: "e = e'" if "e \<in> set (mUsedList s)" "e' \<in> set (mUsedList s)" "snd e = snd e'" for e e'
      using that eager_ok_leaves(1) [OF ok] by (auto simp: leaf_list_def distinct_map inj_on_def)
    then show False using i(1) j(1) \<open>i = j\<close> a(3) by fastforce
  qed
  then have "node_disjoint (enodes s) i j"
    using eager_leaves_disjoint [OF ok ap] eager_ok_used(1) [OF ok] i(1) j(1) by blast
  then show "disjoint_ranges (key_addr q) m (key_addr q') m'" using i j by (auto simp: disjoint_ranges_def)
qed

text \<open>Every block a pool gives out lies inside one block of its root allocator.\<close>

lemma pool_block_inside:
  assumes ok: "eager_ok B s A" and q: "pool_blocks s q = Some e"
  shows "\<exists>k m. B k = Some m \<and> key_addr k \<le> key_addr q \<and> key_addr q + e \<le> key_addr k + m"
proof -
  from pool_block_range [OF ok q] obtain i where i: "(q, i) \<in> set (mUsedList s)"
    "naddr (enodes s) i \<le> key_addr q" "key_addr q + e = naddr (enodes s) i + esize (enodes s ! i)" by blast
  have tree: "tree_ok (enodes s) A (set (mFreeList s))" using ok by (simp add: eager_ok_def)
  note u = eager_ok_used [OF ok i(1)]
  from root_of_props [OF tree u(2), of "length (enodes s)"] u(3) obtain r
    where r: "r \<in> roots (enodes s) A" "naddr (enodes s) r \<le> naddr (enodes s) i"
      "naddr (enodes s) i + esize (enodes s ! i) \<le> naddr (enodes s) r + esize (enodes s ! r)" by auto
  obtain m where m: "esize (enodes s ! r) \<le> m" "B (eptr (enodes s ! r)) = Some m"
    using ok r(1) unfolding eager_ok_def roots_ok_def by blast
  then show ?thesis using i r by (intro exI [of _ "eptr (enodes s ! r)"] exI [of _ m]) (auto simp: naddr_def)
qed

lemma pool_key_base:
  assumes ok: "eager_ok B s A" and B: "\<And>k m. B k = Some m \<Longrightarrow> 0 < fst k" and q: "pool_blocks s q = Some e"
  shows "0 < fst q"
proof -
  from pool_block_range [OF ok q] obtain i where i: "(q, i) \<in> set (mUsedList s)" by blast
  have tree: "tree_ok (enodes s) A (set (mFreeList s))" using ok by (simp add: eager_ok_def)
  have "fst (eptr (enodes s ! j)) \<noteq> 0" if "j \<in> roots (enodes s) A" for j
    using ok B that unfolding eager_ok_def roots_ok_def by blast
  then have "fst (eptr (enodes s ! i)) \<noteq> 0" using pool_base_pos [OF tree] eager_ok_used(2) [OF ok i] by blast
  then show ?thesis using eager_ok_used(4) [OF ok i] by (simp add: used_ok_def)
qed

text \<open>The contract of \<open>RecurseAllocator\<close>: no group is open in a pool with a minimal allocation size.\<close>

definition recurse_blocks :: "eager_state \<times> 'w \<Rightarrow> ptr_key \<Rightarrow> nat option" where
  "recurse_blocks sw = pool_blocks (fst sw)"

definition recurse_inv ::
  "('w \<Rightarrow> ptr_key \<Rightarrow> nat option) \<Rightarrow> ('w \<Rightarrow> bool) \<Rightarrow> eager_state \<times> 'w \<Rightarrow> bool" where
  "recurse_inv blocks winv sw \<longleftrightarrow> pool_inv blocks winv (fst sw) (snd sw) \<and>
     (mMinAllocSize (fst sw) = 0 \<or> mCurrentFreeList (fst sw) = None)"


context raw_alloc
begin

lemma recurse_is_raw_alloc:
  "raw_alloc (recurse_onAlloc on_alloc) recurse_onRelease recurse_blocks (recurse_inv blocks winv)"
proof
  fix sw n a c sw'
  assume i: "recurse_inv blocks winv sw" and n: "0 < n" and eq: "recurse_onAlloc on_alloc n a sw = (c, sw')" and c: "cfirst c \<noteq> 0"
  obtain s w s' w' where sw: "sw = (s, w)" "sw' = (s', w')" by (cases sw, cases sw')
  from i sw obtain A where w: "winv w" and ok: "eager_ok (blocks w) s A"
    and g: "mMinAllocSize s = 0 \<or> mCurrentFreeList s = None" by (auto simp: recurse_inv_def pool_inv_def)
  have "eager_alloc on_alloc n False a s w = (c, s', w')" using eq by (simp add: sw recurse_onAlloc_def)
  from pool_alloc [OF w ok n g this] c obtain A' where r: "winv w'" "cnode c = None" "taken s s' (chunk_key c) n"
    "mMinAllocSize s' = mMinAllocSize s" "mCurrentFreeList s' = mCurrentFreeList s" "eager_ok (blocks w') s' A'" by auto
  then show "recurse_inv blocks winv sw' \<and> cnode c = None \<and> recurse_blocks sw (chunk_key c) = None \<and>
      (\<exists>e \<ge> n. recurse_blocks sw' = (recurse_blocks sw)(chunk_key c \<mapsto> e))"
    using pool_blocks_taken [OF r(3)] g by (auto simp: recurse_inv_def pool_inv_def recurse_blocks_def sw)
next
  fix sw n a c sw'
  assume i: "recurse_inv blocks winv sw" and n: "0 < n" and eq: "recurse_onAlloc on_alloc n a sw = (c, sw')" and c: "cfirst c = 0"
  obtain s w s' w' where sw: "sw = (s, w)" "sw' = (s', w')" by (cases sw, cases sw')
  from i sw obtain A where w: "winv w" and ok: "eager_ok (blocks w) s A"
    and g: "mMinAllocSize s = 0 \<or> mCurrentFreeList s = None" by (auto simp: recurse_inv_def pool_inv_def)
  have "eager_alloc on_alloc n False a s w = (c, s', w')" using eq by (simp add: sw recurse_onAlloc_def)
  from pool_alloc [OF w ok n g this] c have "winv w'" "eager_ok (blocks w') s' A" "s' = s" by auto
  then show "recurse_inv blocks winv sw' \<and> recurse_blocks sw' = recurse_blocks sw"
    using g by (auto simp: recurse_inv_def pool_inv_def recurse_blocks_def sw)
next
  fix sw c assume i: "recurse_inv blocks winv sw" and q: "recurse_blocks sw (chunk_key c) \<noteq> None"
  obtain s w where sw: "sw = (s, w)" by (cases sw)
  obtain b s' where f: "eager_free c s = (b, s')" by fastforce
  from i sw obtain A where w: "winv w" and ok: "eager_ok (blocks w) s A"
    and g: "mMinAllocSize s = 0 \<or> mCurrentFreeList s = None" by (auto simp: recurse_inv_def pool_inv_def)
  from q obtain j where "map_of (mUsedList s) (chunk_key c) = Some j"
    by (auto simp: recurse_blocks_def pool_blocks_def sw split: option.splits)
  from free_ok [OF ok blocks_are_apart [OF w] this f] obtain A'
    where r: "eager_ok (blocks w) s' A'" "given s s' (chunk_key c)" by blast
  show "recurse_inv blocks winv (recurse_onRelease c sw) \<and>
      recurse_blocks (recurse_onRelease c sw) = (recurse_blocks sw)(chunk_key c := None)"
    using pool_blocks_given [OF r(2) ok] r w g f
    by (auto simp: recurse_inv_def pool_inv_def recurse_blocks_def recurse_onRelease_def given_def sw)
next
  fix sw q m assume i: "recurse_inv blocks winv sw" and q: "recurse_blocks sw q = Some m"
  obtain s w where sw: "sw = (s, w)" by (cases sw)
  from i sw obtain A where w: "winv w" and ok: "eager_ok (blocks w) s A" by (auto simp: recurse_inv_def pool_inv_def)
  have q: "pool_blocks s q = Some m" using q by (simp add: recurse_blocks_def sw)
  have "0 < fst k" if "blocks w k = Some l" for k l using blocks_pos [OF w that] by blast
  then show "0 < m \<and> 0 < fst q" using pool_block_range [OF ok q] pool_key_base [OF ok _ q] by blast
next
  fix sw q m q' m'
  assume i: "recurse_inv blocks winv sw" and q: "recurse_blocks sw q = Some m" "recurse_blocks sw q' = Some m'" "q \<noteq> q'"
  obtain s w where sw: "sw = (s, w)" by (cases sw)
  from i sw obtain A where w: "winv w" and ok: "eager_ok (blocks w) s A" by (auto simp: recurse_inv_def pool_inv_def)
  show "disjoint_ranges (key_addr q) m (key_addr q') m'"
    using blocks_apartD [OF pool_blocks_apart [OF ok blocks_are_apart [OF w]]] q by (simp add: recurse_blocks_def sw)
qed

end

text \<open>
  The instances: a pool over \<open>DefaultAllocator\<close> as a root allocator, and a pool over that pool.
\<close>

interpretation static_pool: raw_alloc "recurse_onAlloc (default_onAlloc bump_malloc)" recurse_onRelease recurse_blocks
  "recurse_inv (default_blocks snd) (\<lambda>w. bump_inv (fst w))"
  by (rule bump.default.recurse_is_raw_alloc)

interpretation nested_pool: raw_alloc "recurse_onAlloc (recurse_onAlloc (default_onAlloc bump_malloc))" recurse_onRelease
  recurse_blocks "recurse_inv recurse_blocks (recurse_inv (default_blocks snd) (\<lambda>w. bump_inv (fst w)))"
  by (rule static_pool.recurse_is_raw_alloc)

section \<open>Runs of a client\<close>

text \<open>
  The states a client can bring a pool to. It asks for positive sizes, closes a group before it ends
  the barrier, releases everything only outside of groups, and opens no group in a pool with a minimal
  allocation size when it allocates.
\<close>

inductive pool_run ::
  "(nat \<Rightarrow> nat \<Rightarrow> 'w \<Rightarrow> mem_chunk \<times> 'w) \<Rightarrow> (mem_chunk \<Rightarrow> 'w \<Rightarrow> 'w) \<Rightarrow> nat \<Rightarrow> nat \<Rightarrow> 'w \<Rightarrow> eager_state \<Rightarrow> 'w \<Rightarrow> bool"
  for on_alloc on_release align minSize w0
where
  run_new: "pool_run on_alloc on_release align minSize w0 (eager_new align minSize) w0"
| run_alloc: "pool_run on_alloc on_release align minSize w0 s w \<Longrightarrow> 0 < sz \<Longrightarrow>
    mMinAllocSize s = 0 \<or> mCurrentFreeList s = None \<Longrightarrow>
    eager_alloc on_alloc sz separate a s w = (c, s', w') \<Longrightarrow> pool_run on_alloc on_release align minSize w0 s' w'"
| run_free: "pool_run on_alloc on_release align minSize w0 s w \<Longrightarrow>
    pool_run on_alloc on_release align minSize w0 (snd (eager_free c s)) w"
| run_beginGroup: "pool_run on_alloc on_release align minSize w0 s w \<Longrightarrow>
    pool_run on_alloc on_release align minSize w0 (eager_beginGroup s) w"
| run_endGroup: "pool_run on_alloc on_release align minSize w0 s w \<Longrightarrow>
    pool_run on_alloc on_release align minSize w0 (eager_endGroup s) w"
| run_barrierEnd: "pool_run on_alloc on_release align minSize w0 s w \<Longrightarrow> mCurrentFreeList s = None \<Longrightarrow>
    pool_run on_alloc on_release align minSize w0 (eager_barrierEnd s) w"
| run_release: "pool_run on_alloc on_release align minSize w0 s w \<Longrightarrow>
    allRelease \<longrightarrow> mGroups s = [] \<and> mCurrentFreeList s = None \<Longrightarrow>
    eager_release on_release allRelease s w = (s', w') \<Longrightarrow> pool_run on_alloc on_release align minSize w0 s' w'"

text \<open>The invariant of a run; \<open>K\<close> is what the root allocator had given out before.\<close>

definition run_ok :: "('w \<Rightarrow> ptr_key \<Rightarrow> nat option) \<Rightarrow> ptr_key set \<Rightarrow> eager_state \<Rightarrow> 'w \<Rightarrow> bool" where
  "run_ok blocks K s w \<longleftrightarrow> (\<exists>A. eager_ok (blocks w) s A \<and>
     dom (blocks w) = K \<union> root_keys (enodes s) A \<and> K \<inter> root_keys (enodes s) A = {})"

lemma run_okI:
  "eager_ok (blocks w) s A \<Longrightarrow> dom (blocks w) = K \<union> root_keys (enodes s) A \<Longrightarrow> K \<inter> root_keys (enodes s) A = {} \<Longrightarrow>
     run_ok blocks K s w"
  unfolding run_ok_def by blast

lemma free_unknown: "map_of (mUsedList s) (chunk_key c) = None \<Longrightarrow> eager_free c s = (False, s)"
  by (simp add: eager_free_def)

lemma raw_run_ok:
  assumes raw: "raw_alloc on_alloc on_release blocks winv" and w0: "winv w0" and al: "0 < align"
    and mn: "minSize = 0 \<or> align dvd minSize"
  shows "pool_run on_alloc on_release align minSize w0 s w \<Longrightarrow> winv w \<and> run_ok blocks (dom (blocks w0)) s w"
proof (induction rule: pool_run.induct)
  case run_new
  have "eager_ok (blocks w0) (eager_new align minSize) {}" using eager_new_ok [OF al mn] .
  then show ?case using w0 by (auto simp: run_ok_def root_keys_def roots_def)
next
  case (run_alloc s w sz separate a c s' w')
  let ?K = "dom (blocks w0)"
  from run_alloc.IH obtain A where w: "winv w" and ok: "eager_ok (blocks w) s A"
    and d: "dom (blocks w) = ?K \<union> root_keys (enodes s) A" "?K \<inter> root_keys (enodes s) A = {}"
    by (auto simp: run_ok_def)
  note r = raw_alloc.pool_alloc [OF raw w ok run_alloc.hyps(2,3,4)]
  show ?case
  proof (cases "cfirst c = 0")
    case True
    then show ?thesis using r d by (auto simp: run_ok_def)
  next
    case False
    with r obtain A' where w': "winv w'" and ok': "eager_ok (blocks w') s' A'"
      and c: "blocks w' = blocks w \<and> root_keys (enodes s') A' = root_keys (enodes s) A \<or>
         (\<exists>e q. blocks w q = None \<and> blocks w' = (blocks w)(q \<mapsto> e) \<and>
              root_keys (enodes s') A' = insert q (root_keys (enodes s) A))" by auto
    from c have "dom (blocks w') = ?K \<union> root_keys (enodes s') A' \<and> ?K \<inter> root_keys (enodes s') A' = {}"
    proof (elim disjE exE conjE)
      assume "blocks w' = blocks w" "root_keys (enodes s') A' = root_keys (enodes s) A"
      then show ?thesis using d by simp
    next
      fix e q assume q: "blocks w q = None" "blocks w' = (blocks w)(q \<mapsto> e)"
        "root_keys (enodes s') A' = insert q (root_keys (enodes s) A)"
      have "q \<notin> dom (blocks w)" using q(1) by blast
      then have "q \<notin> ?K" unfolding d(1) by blast
      moreover have "dom (blocks w') = insert q (dom (blocks w))" unfolding q(2) by simp
      ultimately show ?thesis using d(2) by (simp add: q(3) d(1))
    qed
    with w' ok' show ?thesis unfolding run_ok_def by blast
  qed
next
  case (run_free s w c)
  show ?case
  proof (cases "map_of (mUsedList s) (chunk_key c)")
    case None
    then show ?thesis using run_free.IH free_unknown by simp
  next
    case (Some i)
    obtain b s' where f: "eager_free c s = (b, s')" by fastforce
    from run_free.IH obtain A where w: "winv w" and ok: "eager_ok (blocks w) s A"
      and d: "dom (blocks w) = dom (blocks w0) \<union> root_keys (enodes s) A" "dom (blocks w0) \<inter> root_keys (enodes s) A = {}"
      by (auto simp: run_ok_def)
    from free_ok [OF ok raw_alloc.blocks_are_apart [OF raw w] Some f] obtain A'
      where "eager_ok (blocks w) s' A'" "root_keys (enodes s') A' = root_keys (enodes s) A" by blast
    then show ?thesis using w d f run_okI [of blocks w s' A'] by simp
  qed
next
  case (run_beginGroup s w)
  then show ?case using beginGroup_ok by (fastforce simp: run_ok_def eager_beginGroup_def)
next
  case (run_endGroup s w)
  then show ?case using endGroup_ok by (fastforce simp: run_ok_def eager_endGroup_def)
next
  case (run_barrierEnd s w)
  then obtain A where w: "winv w" and ok: "eager_ok (blocks w) s A"
    and d: "dom (blocks w) = dom (blocks w0) \<union> root_keys (enodes s) A" "dom (blocks w0) \<inter> root_keys (enodes s) A = {}"
    by (auto simp: run_ok_def)
  from barrierEnd_ok [OF ok run_barrierEnd.hyps(2)] show ?case
    using w d unfolding run_ok_def by metis
next
  case (run_release s w allRelease s' w')
  then obtain A where w: "winv w" and ok: "eager_ok (blocks w) s A"
    and d: "dom (blocks w) = dom (blocks w0) \<union> root_keys (enodes s) A" "dom (blocks w0) \<inter> root_keys (enodes s) A = {}"
    by (auto simp: run_ok_def)
  from raw_alloc.pool_release [OF raw w ok run_release.hyps(3) run_release.hyps(2)] obtain A'
    where r: "winv w'" "eager_ok (blocks w') s' A'"
        "A' = (if allRelease then {} else A - {i \<in> set (mFreeList s). eparent (enodes s ! i) = None})" "enodes s' = enodes s"
      "blocks w' = (\<lambda>q. if q \<in> root_keys (enodes s) A - root_keys (enodes s') A' then None else blocks w q)" by blast
  have "root_keys (enodes s') A' \<subseteq> root_keys (enodes s) A" using r(3,4)
    by (auto simp: root_keys_def roots_def split: if_splits)
  moreover have "dom (blocks w') = dom (blocks w) - (root_keys (enodes s) A - root_keys (enodes s') A')"
    unfolding r(5) by (auto split: if_splits)
  moreover have "\<And>K R R'. K \<inter> R = {} \<Longrightarrow> R' \<subseteq> R \<Longrightarrow> K \<union> R - (R - R') = K \<union> R' \<and> K \<inter> R' = {}" by blast
  ultimately have "dom (blocks w') = dom (blocks w0) \<union> root_keys (enodes s') A' \<and>
      dom (blocks w0) \<inter> root_keys (enodes s') A' = {}" using d by metis
  then show ?case using r(1,2) unfolding run_ok_def by blast
qed

section \<open>A concrete run\<close>

text \<open>
  The run behind the witnesses, over \<open>DefaultAllocator\<close> and the bump heap: a block of 256 bytes is given
  back and serves two smaller chunks by two splits.
\<close>

definition demo_world :: "(nat \<times> (addr \<Rightarrow> nat option)) \<times> (addr \<Rightarrow> addr)" where
  "demo_world = ((4096, Map.empty), \<lambda>_. 0)"

definition demo_ask ::
  "nat \<Rightarrow> eager_state \<times> ((nat \<times> (addr \<Rightarrow> nat option)) \<times> (addr \<Rightarrow> addr)) \<Rightarrow>
     mem_chunk \<times> eager_state \<times> (nat \<times> (addr \<Rightarrow> nat option)) \<times> (addr \<Rightarrow> addr)" where
  "demo_ask n = (\<lambda>(s, w). eager_alloc (default_onAlloc bump_malloc) n False 0 s w)"

definition demo_give :: "mem_chunk \<Rightarrow> eager_state \<times> 'w \<Rightarrow> eager_state \<times> 'w" where
  "demo_give c = (\<lambda>(s, w). (snd (eager_free c s), w))"

definition demo_first :: "eager_state \<times> (nat \<times> (addr \<Rightarrow> nat option)) \<times> (addr \<Rightarrow> addr)" where
  "demo_first =
     (\<lparr>enodes = [\<lparr>eptr = (4160, 0), eparent = None, esize = 256, euse = 0\<rparr>], mUsedList = [], mFreeList = [0],
       mCurrentFreeList = None, mGroups = [], eTotal = 256, eAlign = 64, mMinAllocSize = 0\<rparr>,
      (4424, [4096 \<mapsto> 328]), (\<lambda>_. 0)(4160 := 4096))"

definition demo_two :: "eager_state \<times> (nat \<times> (addr \<Rightarrow> nat option)) \<times> (addr \<Rightarrow> addr)" where
  "demo_two = snd (demo_ask 100 (snd (demo_ask 40 demo_first)))"

definition demo_back :: "eager_state \<times> (nat \<times> (addr \<Rightarrow> nat option)) \<times> (addr \<Rightarrow> addr)" where
  "demo_back = demo_give (key_chunk (4160, 0)) (demo_give (key_chunk (4160, 64)) demo_two)"

lemma merge_rec:
  "while merge_need merge_step (l, ns, p, True) = while merge_need merge_step (merge_step (l, ns, p, True))"
  "while merge_need merge_step (l, ns, p, False) = (l, ns, p, False)"
  by (subst while_unfold, simp add: merge_need_def)+

lemma merge_step_eq:
  "merge_step (list, ns, parent, b) =
     (let list2 = insert_by (ekey ns) parent (filter (\<lambda>i. eparent (ns ! i) \<noteq> Some parent) list)
      in case eparent (ns ! parent) of
           None \<Rightarrow> (list2, ns, parent, False)
         | Some p \<Rightarrow> (let ns' = use_count (\<lambda>u. size_sub u 1) p ns in (list2, ns', p, euse (ns' ! p) = 0)))"
  by (simp add: merge_step_def Let_def)

lemmas pool_eval = eager_alloc_def eager_reuse_def getFromFreeList_def eager_root_block_def eager_new_def
  default_onAlloc_def MNNMemoryAllocAlign_def MNN_MEMORY_ALIGN_DEFAULT_def alignPointer_def bump_malloc_def
  key_chunk_def chunk_key_def used_insert_def used_erase_def up_div_def Let_def ekey_def eager_free_def
  returnMemory_def merge_rec merge_step_eq use_count_def parent_count_def size_sub_def lower_bound_def insert_by_def
  demo_ask_def demo_give_def

lemma demo_first_run: "demo_first = demo_give (key_chunk (4160, 0)) (snd (demo_ask 256 (eager_new 64 0, demo_world)))"
  by (simp add: pool_eval demo_first_def demo_world_def)

lemma demo_ask_first: "fst (demo_ask 40 demo_first) = key_chunk (4160, 0)"
  by (simp add: pool_eval demo_first_def)

lemma demo_two_eq:
  "demo_two =
     (\<lparr>enodes = [\<lparr>eptr = (4160, 0), eparent = None, esize = 256, euse = Suc 1\<rparr>,
          \<lparr>eptr = (4160, 0), eparent = Some 0, esize = 64, euse = 0\<rparr>,
          \<lparr>eptr = (4160, 64), eparent = Some 0, esize = 192, euse = 1\<rparr>,
          \<lparr>eptr = (4160, 64), eparent = Some (Suc 1), esize = 128, euse = 0\<rparr>,
          \<lparr>eptr = (4160, 192), eparent = Some (Suc 1), esize = 64, euse = 0\<rparr>],
       mUsedList = [((4160, 64), Suc (Suc 1)), ((4160, 0), 1)], mFreeList = [Suc (Suc (Suc 1))],
       mCurrentFreeList = None, mGroups = [], eTotal = 256, eAlign = 64, mMinAllocSize = 0\<rparr>,
      (4424, [4096 \<mapsto> 328]), (\<lambda>_. 0)(4160 := 4096))"
  by (simp_all add: pool_eval demo_first_def demo_two_def)

lemma demo_back_lists: "mUsedList (fst demo_back) = []" "mGroups (fst demo_back) = []"
  by (simp_all add: pool_eval demo_back_def demo_two_eq)

abbreviation demo_reached ::
  "eager_state \<times> (nat \<times> (addr \<Rightarrow> nat option)) \<times> (addr \<Rightarrow> addr) \<Rightarrow> bool" where
  "demo_reached sw \<equiv> pool_run (default_onAlloc bump_malloc) (default_onRelease bump_free) 64 0 demo_world (fst sw) (snd sw)"

lemma demo_ask_reached:
  assumes r: "demo_reached sw" and n: "0 < n" and m: "mMinAllocSize (fst sw) = 0"
  shows "demo_reached (snd (demo_ask n sw))"
proof -
  obtain c s' w' where e: "demo_ask n sw = (c, s', w')" by (cases "demo_ask n sw")
  from run_alloc [OF r n disjI1 [OF m] e [unfolded demo_ask_def case_prod_unfold]] show ?thesis by (simp add: e)
qed

lemma demo_give_reached: "demo_reached sw \<Longrightarrow> demo_reached (demo_give c sw)"
  using run_free [of _ _ _ _ _ "fst sw" "snd sw" c] by (simp add: demo_give_def case_prod_unfold)

lemma demo_runs: "demo_reached demo_first" "demo_reached demo_two" "demo_reached demo_back"
proof -
  have "demo_reached (eager_new 64 0, demo_world)" by (simp add: run_new)
  then have "demo_reached (snd (demo_ask 256 (eager_new 64 0, demo_world)))"
    by (rule demo_ask_reached) (simp_all add: eager_new_def)
  then show 1: "demo_reached demo_first" unfolding demo_first_run by (rule demo_give_reached)
  have m: "mMinAllocSize (fst demo_first) = 0" by (simp add: demo_first_def)
  have m': "mMinAllocSize (fst (snd (demo_ask 40 demo_first))) = 0" by (simp add: pool_eval demo_first_def)
  show 2: "demo_reached demo_two" unfolding demo_two_def
    by (rule demo_ask_reached [OF demo_ask_reached [OF 1 _ m] _ m']) simp_all
  then show "demo_reached demo_back" unfolding demo_back_def by (intro demo_give_reached)
qed

lemma demo_contract:
  "raw_alloc (default_onAlloc bump_malloc) (default_onRelease bump_free) (default_blocks snd) (\<lambda>w. bump_inv (fst w))"
  "bump_inv (fst demo_world)" "c_heap bump_malloc bump_free snd bump_inv"
  by (rule bump.default_is_raw_alloc, simp add: demo_world_def bump_inv_def, rule bump.c_heap_axioms)

lemma demo_two_blocks:
  "pool_blocks (fst demo_two) (4160, 0) = Some 64" "pool_blocks (fst demo_two) (4160, 64) = Some 128"
  by (simp_all add: pool_blocks_def demo_two_eq)

section \<open>Properties\<close>

text \<open>
  C11. Whatever a client does with a pool, and whatever root allocator it sits on: two chunks it has
  not given back never share a byte, and each lies inside one block the root allocator has given.
\<close>

theorem pool_no_overlap:
  assumes raw: "raw_alloc on_alloc on_release blocks winv" and w0: "winv w0" and al: "0 < align"
    and mn: "minSize = 0 \<or> align dvd minSize" and run: "pool_run on_alloc on_release align minSize w0 s w"
    and q: "pool_blocks s q = Some e" "pool_blocks s q' = Some e'" "q \<noteq> q'"
  shows "disjoint_ranges (key_addr q) e (key_addr q') e' \<and>
     (\<exists>k m. blocks w k = Some m \<and> key_addr k \<le> key_addr q \<and> key_addr q + e \<le> key_addr k + m)"
proof -
  from raw_run_ok [OF raw w0 al mn run] obtain A where w: "winv w" and ok: "eager_ok (blocks w) s A"
    by (auto simp: run_ok_def)
  show ?thesis
    using blocks_apartD [OF pool_blocks_apart [OF ok raw_alloc.blocks_are_apart [OF raw w]] q] pool_block_inside [OF ok q(1)]
    by blast
qed

lemma pool_no_overlap_witness:
  "disjoint_ranges 4160 64 4224 128 \<and>
     (\<exists>k m. default_blocks snd (snd demo_two) k = Some m \<and> key_addr k \<le> 4160 \<and> 4160 + 64 \<le> key_addr k + m)"
  using pool_no_overlap [OF demo_contract(1,2) _ _ demo_runs(2) demo_two_blocks] by (simp add: key_addr_def)


text \<open>
  C12. An allocation in a reachable state either changes nothing and answers the null chunk, or gives a
  chunk that was not in use, with at least the requested size behind it, and leaves every other block as it was.
\<close>

theorem pool_alloc_spec:
  assumes raw: "raw_alloc on_alloc on_release blocks winv" and w0: "winv w0" and al: "0 < align"
    and mn: "minSize = 0 \<or> align dvd minSize" and run: "pool_run on_alloc on_release align minSize w0 s w"
    and sz: "0 < sz" and grp: "mMinAllocSize s = 0 \<or> mCurrentFreeList s = None"
    and eq: "eager_alloc on_alloc sz separate a s w = (c, s', w')"
  shows "if cfirst c = 0 then s' = s
     else pool_blocks s (chunk_key c) = None \<and> (\<exists>e \<ge> sz. pool_blocks s' = (pool_blocks s)(chunk_key c \<mapsto> e))"
proof -
  from raw_run_ok [OF raw w0 al mn run] obtain A where w: "winv w" and ok: "eager_ok (blocks w) s A"
    by (auto simp: run_ok_def)
  show ?thesis
    using raw_alloc.pool_alloc [OF raw w ok sz grp eq] pool_blocks_taken [of s s' "chunk_key c" sz] by auto
qed

lemma pool_alloc_spec_witness:
  "\<exists>e \<ge> 40. pool_blocks (fst (snd (demo_ask 40 demo_first))) = (pool_blocks (fst demo_first))((4160, 0) \<mapsto> e)"
proof -
  obtain c s' w' where e: "demo_ask 40 demo_first = (c, s', w')" by (cases "demo_ask 40 demo_first")
  have k: "chunk_key c = (4160, 0)" using demo_ask_first by (simp add: e chunk_key_def key_chunk_def)
  have m: "mMinAllocSize (fst demo_first) = 0" by (simp add: demo_first_def)
  show ?thesis
    using pool_alloc_spec [OF demo_contract(1,2) _ _ demo_runs(1) _ disjI1 [OF m] e [unfolded demo_ask_def case_prod_unfold]] k
    by (simp add: e chunk_key_def)
qed


text \<open>
  C13. \<open>free\<close> of a chunk in use answers true and takes that chunk alone out of the blocks given out;
  of any other chunk it answers false and changes nothing.
\<close>

theorem pool_free_spec:
  assumes raw: "raw_alloc on_alloc on_release blocks winv" and w0: "winv w0" and al: "0 < align"
    and mn: "minSize = 0 \<or> align dvd minSize" and run: "pool_run on_alloc on_release align minSize w0 s w"
    and eq: "eager_free c s = (b, s')"
  shows "if pool_blocks s (chunk_key c) = None then \<not> b \<and> s' = s
     else b \<and> pool_blocks s' = (pool_blocks s)(chunk_key c := None)"
proof (cases "map_of (mUsedList s) (chunk_key c)")
  case None
  then show ?thesis using eq free_unknown by (simp add: pool_blocks_def)
next
  case (Some i)
  from raw_run_ok [OF raw w0 al mn run] obtain A where w: "winv w" and ok: "eager_ok (blocks w) s A"
    by (auto simp: run_ok_def)
  from free_ok [OF ok raw_alloc.blocks_are_apart [OF raw w] Some eq] have "b" "given s s' (chunk_key c)" by auto
  then show ?thesis using pool_blocks_given [OF _ ok] Some by (simp add: pool_blocks_def)
qed

lemma pool_free_spec_witness:
  "pool_blocks (snd (eager_free (key_chunk (4160, 0)) (fst demo_two))) = (pool_blocks (fst demo_two))((4160, 0) := None)"
proof -
  obtain b s' where e: "eager_free (key_chunk (4160, 0)) (fst demo_two) = (b, s')" by fastforce
  show ?thesis using pool_free_spec [OF demo_contract(1,2) _ _ demo_runs(2) e] demo_two_blocks
    unfolding e by (simp add: chunk_key_def key_chunk_def)
qed


text \<open>A forest whose leaves are all free has no split node.\<close>

lemma all_free_roots:
  assumes tree: "tree_ok ns A F" and st: "settled ns A {}" and F: "F = leaves ns A"
  shows "p \<in> A \<Longrightarrow> kids ns A p = {}"
proof (induction "length ns - p" arbitrary: p rule: less_induct)
  case less
  show ?case
  proof (rule ccontr)
    assume k: "kids ns A p \<noteq> {}"
    have fin: "finite (kids ns A p - F)" using tree_finite [OF tree] by (simp add: kids_def)
    have "0 < euse (ns ! p)" using st k less.prems by (simp add: settled_def)
    then have "0 < card (kids ns A p - F)" using tree less.prems by (simp add: tree_ok_def)
    then obtain c where c: "c \<in> kids ns A p" "c \<notin> F" by (metis DiffE card_gt_0_iff ex_in_conv)
    then have cA: "c \<in> A" "eparent (ns ! c) = Some p" by (simp_all add: kids_def)
    then have "p < c" "c < length ns" using tree by (auto simp: tree_ok_def)
    then have "kids ns A c = {}" using less.hyps [of c] cA by simp
    then show False using c(2) cA(1) F by (simp add: leaves_def)
  qed
qed

text \<open>
  C14. Nothing leaks and nothing stays split: once every chunk is given back and the groups are closed,
  \<open>release(false)\<close> returns every block to the root allocator, which is left with exactly the blocks it
  had given out before the pool existed, and the total size is zero.
\<close>

theorem pool_returns_everything:
  assumes raw: "raw_alloc on_alloc on_release blocks winv" and w0: "winv w0" and al: "0 < align"
    and mn: "minSize = 0 \<or> align dvd minSize" and run: "pool_run on_alloc on_release align minSize w0 s w"
    and empty: "mUsedList s = []" "concat (mGroups s) = []"
    and eq: "eager_release on_release False s w = (s', w')"
  shows "dom (blocks w') = dom (blocks w0) \<and> eTotal s' = 0 \<and> mFreeList s' = []"
proof -
  from raw_run_ok [OF raw w0 al mn run] obtain A where w: "winv w" and ok: "eager_ok (blocks w) s A"
    and d: "dom (blocks w) = dom (blocks w0) \<union> root_keys (enodes s) A" "dom (blocks w0) \<inter> root_keys (enodes s) A = {}"
    by (auto simp: run_ok_def)
  have tree: "tree_ok (enodes s) A (set (mFreeList s))" and st: "settled (enodes s) A {}" using ok by (auto simp: eager_ok_def)
  have F: "set (mFreeList s) = leaves (enodes s) A"
    using eager_ok_leaves(2) [OF ok] empty by (simp add: leaf_list_def)
  have nokids: "kids (enodes s) A p = {}" if "p \<in> A" for p using all_free_roots [OF tree st F that] .
  have par: "eparent (enodes s ! i) = None" if "i \<in> A" for i
  proof (cases "eparent (enodes s ! i)")
    case (Some p)
    then show ?thesis using tree_parent [OF tree that] nokids [of p] by auto
  qed
  have AF: "A = {i \<in> set (mFreeList s). eparent (enodes s ! i) = None}"
    using F nokids par by (auto simp: leaves_def)
  from raw_alloc.pool_release [OF raw w ok eq] obtain A'
    where r: "eager_ok (blocks w') s' A'" "A' = A - {i \<in> set (mFreeList s). eparent (enodes s ! i) = None}"
      "blocks w' = (\<lambda>q. if q \<in> root_keys (enodes s) A - root_keys (enodes s') A' then None else blocks w q)" by auto
  have A': "A' = {}" using r(2) AF by auto
  have "dom (blocks w') = dom (blocks w) - root_keys (enodes s) A"
    unfolding r(3) A' by (auto simp: root_keys_def roots_def split: if_splits)
  then have "dom (blocks w') = dom (blocks w0)" using d by auto
  moreover have "eTotal s' = 0" using r(1) by (simp add: A' eager_ok_def roots_ok_def roots_def)
  moreover have "mFreeList s' = []"
    using eager_ok_leaves(2) [OF r(1)] by (simp add: A' leaves_def leaf_list_def)
  ultimately show ?thesis by blast
qed

lemma pool_returns_everything_witness:
  "dom (default_blocks snd (snd (eager_release (default_onRelease bump_free) False (fst demo_back) (snd demo_back)))) = {}"
proof -
  obtain s' w' where e: "eager_release (default_onRelease bump_free) False (fst demo_back) (snd demo_back) = (s', w')"
    by (rule prod.exhaust)
  note u = demo_back_lists(1) arg_cong [OF demo_back_lists(2), of concat, unfolded concat.simps(1)]
  have "dom (default_blocks snd demo_world) = {}"
    by (auto simp: demo_world_def default_blocks_def default_room_def split: if_splits)
  with pool_returns_everything [OF demo_contract(1,2) _ _ demo_runs(3) u e] show ?thesis by (simp add: e)
qed


text \<open>
  C15. \<open>RecurseAllocator\<close>: a pool over any root allocator that keeps the contract is itself a root
  allocator that keeps it, so that pools can be stacked to any depth.
\<close>

theorem recurse_keeps_contract:
  assumes "raw_alloc on_alloc on_release blocks winv"
  shows "raw_alloc (recurse_onAlloc on_alloc) recurse_onRelease recurse_blocks (recurse_inv blocks winv)"
  by (rule raw_alloc.recurse_is_raw_alloc [OF assms])

lemma recurse_keeps_contract_witness:
  "raw_alloc (recurse_onAlloc (default_onAlloc bump_malloc)) recurse_onRelease recurse_blocks
     (recurse_inv (default_blocks snd) (\<lambda>w. bump_inv (fst w)))"
  by (rule recurse_keeps_contract [OF demo_contract(1)])


text \<open>
  \<open>DefaultAllocator\<close> over a C heap that keeps the promises of \<open>malloc\<close> and \<open>free\<close> keeps the contract:
  the aligned block lies behind its header inside the block of \<open>malloc\<close>, and a release frees that block.
\<close>

lemma default_keeps_contract:
  assumes "c_heap malloc free heap hinv"
  shows "raw_alloc (default_onAlloc malloc) (default_onRelease free) (default_blocks heap) (\<lambda>w. hinv (fst w))"
  by (rule c_heap.default_is_raw_alloc [OF assms])

lemma default_keeps_contract_witness:
  "raw_alloc (default_onAlloc bump_malloc) (default_onRelease bump_free) (default_blocks snd) (\<lambda>w. bump_inv (fst w))"
  by (rule default_keeps_contract [OF demo_contract(3)])

text \<open>
  The merge loop of \<open>returnMemory\<close> ends: from every node of a reachable pool the loop that walks to
  the parents reaches a parent that stays.
\<close>

theorem pool_merge_terminates:
  assumes raw: "raw_alloc on_alloc on_release blocks winv" and w0: "winv w0" and al: "0 < align"
    and mn: "minSize = 0 \<or> align dvd minSize" and run: "pool_run on_alloc on_release align minSize w0 s w"
    and q: "map_of (mUsedList s) q = Some i" and p: "eparent (enodes s ! i) = Some p"
  shows "\<exists>r. while_option merge_need merge_step
     (insert_by (ekey (enodes s)) i (mFreeList s), use_count (\<lambda>u. size_sub u 1) p (enodes s), p, b) = Some r"
proof -
  from raw_run_ok [OF raw w0 al mn run] obtain A where ok: "eager_ok (blocks w) s A" by (auto simp: run_ok_def)
  then have tree: "tree_ok (enodes s) A (set (mFreeList s))" by (simp add: eager_ok_def)
  have "i \<in> A" using eager_ok_used(2) [OF ok map_of_SomeD [OF q]] .
  then have pA: "p \<in> A" using tree p by (auto simp: tree_ok_def)
  let ?P = "\<lambda>(l, ns, p, b). p \<in> A \<and> (\<forall>i \<in> A. i < length ns \<and> (\<forall>q. eparent (ns ! i) = Some q \<longrightarrow> q \<in> A \<and> q < i))"
  let ?m = "\<lambda>(l, ns, p, b). if b then Suc p else (0::nat)"
  have par: "eparent (use_count f q ns ! j) = eparent (ns ! j)" for f q ns j
    by (cases "q < length ns"; cases "j = q") (simp_all add: use_count_def list_update_beyond)
  have len: "length (use_count f q ns) = length ns" for f q ns by (simp add: use_count_def)
  show ?thesis
  proof (rule measure_while_option_Some [where P = ?P and f = ?m, THEN exE])
    fix st assume st: "?P st" "merge_need st"
    obtain l ns p b where e: "st = (l, ns, p, b)" by (metis prod_cases4)
    show "?P (merge_step st) \<and> ?m (merge_step st) < ?m st"
      using st by (auto simp: e merge_need_def merge_step_eq Let_def par len split: option.split)
  next
    show "?P (insert_by (ekey (enodes s)) i (mFreeList s), use_count (\<lambda>u. size_sub u 1) p (enodes s), p, b)"
      using tree pA by (simp add: tree_ok_def par len)
  qed blast
qed

lemma pool_merge_terminates_witness:
  "\<exists>r. while_option merge_need merge_step
     (insert_by (ekey (enodes (fst demo_two))) (Suc (Suc 1)) (mFreeList (fst demo_two)),
      use_count (\<lambda>u. size_sub u 1) (Suc 1) (enodes (fst demo_two)), Suc 1, True) = Some r"
  by (rule pool_merge_terminates [OF demo_contract(1,2) _ _ demo_runs(2), of "(4160, 64)"]) (simp_all add: demo_two_eq)

section \<open>Where the code does not keep it up\<close>

text \<open>Giving back the only child that is counted merges the root at once.\<close>

lemma merge_one_root:
  assumes "eparent (ns ! p) = None" and "eparent (ns ! i) = Some p" and "euse (ns ! p) = 1" and "p < length ns" and "i \<noteq> p"
  shows "returnMemory [] i True ns = ([p], use_count (\<lambda>u. size_sub u 1) p ns)"
  using assms by (simp add: returnMemory_def merge_rec merge_step_eq use_count_def size_sub_def insert_by_def Let_def)

text \<open>
  C16. A minimal allocation size and a group do not go together. In any pool that has nothing free and no group,
  over any root allocator: of a request below the minimal size inside a group, the rest of the new block goes to
  the list of the group without being counted as in use by the block. The end of the barrier gives that rest
  back, finds the block unused and merges it while its first part is in use, so that the next request of at
  most the minimal size gets the same pointer again, without asking the root allocator.
\<close>

theorem min_size_group_overlap:
  assumes min: "mMinAllocSize s = minSize" and empty: "mFreeList s = []" "mGroups s = []"
    and small: "n < minSize" "m \<le> minSize"
    and root: "on_alloc minSize (if align = 0 then eAlign s else align) w = (chunk, w1)" "cfirst chunk \<noteq> 0"
    and ask: "eager_alloc on_alloc n False align (eager_beginGroup s) w = (c1, s1, w1)"
    and again: "eager_alloc on_alloc m False 0 (eager_barrierEnd (eager_endGroup s1)) w1 = (c2, s2, w2)"
  shows "chunk_key c1 = chunk_key chunk \<and> chunk_key c2 = chunk_key c1 \<and> w2 = w1 \<and>
    pool_blocks (eager_barrierEnd (eager_endGroup s1)) (chunk_key c1) \<noteq> None"
proof -
  let ?r = "length (enodes s)"
  let ?k = "chunk_key chunk"
  have al: "eAlign (eager_beginGroup s) = eAlign s" "mMinAllocSize (eager_beginGroup s) = minSize"
    "mFreeList (eager_beginGroup s) = []" "mGroups (eager_beginGroup s) = [[]]" "mCurrentFreeList (eager_beginGroup s) = Some 0"
    "enodes (eager_beginGroup s) = enodes s"
    by (simp_all add: eager_beginGroup_def assms)
  have none: "eager_reuse n a (eager_beginGroup s) = (None, eager_beginGroup s)" for a
    using al by (simp add: eager_reuse_def getFromFreeList_def lower_bound_def Let_def)
  have "c1 = key_chunk ?k \<and> s1 = eager_root_block ?k n minSize (eager_beginGroup s)"
    using ask root small by (simp add: eager_alloc_def al none Let_def split: if_splits)
  then have c1: "chunk_key c1 = ?k" and s1: "s1 = eager_root_block ?k n minSize (eager_beginGroup s)"
    by (simp_all add: key_chunk_def chunk_key_def)
  define z where "z = up_div n (eAlign s) * eAlign s"
  define ns where "ns = enodes s @
      [\<lparr>eptr = ?k, eparent = None, esize = minSize, euse = 1\<rparr>, \<lparr>eptr = ?k, eparent = Some ?r, esize = z, euse = 0\<rparr>,
       \<lparr>eptr = (fst ?k, snd ?k + z), eparent = Some ?r, esize = size_sub minSize z, euse = 0\<rparr>]"
  have f1: "enodes s1 = ns" "mUsedList s1 = used_insert ?k (Suc ?r) (mUsedList s)" "mFreeList s1 = []"
    "mGroups s1 = [[Suc (Suc ?r)]]" "mMinAllocSize s1 = minSize" "eAlign s1 = eAlign s"
    unfolding s1 eager_root_block_def Let_def using small(1) al
    by (simp_all add: ns_def z_def insert_by_def eager_beginGroup_def)
  have nr: "eparent (ns ! ?r) = None" "eparent (ns ! Suc (Suc ?r)) = Some ?r" "euse (ns ! ?r) = 1" "?r < length ns"
    "esize (ns ! ?r) = minSize" "eptr (ns ! ?r) = ?k" by (simp_all add: ns_def nth_append)
  define ns2 where "ns2 = use_count (\<lambda>u. size_sub u 1) ?r ns"
  note merged = merge_one_root [OF nr(1-4), unfolded ns2_def [symmetric]]
  define t where "t = eager_barrierEnd (eager_endGroup s1)"
  have ft: "enodes t = ns2" "mUsedList t = mUsedList s1" "mFreeList t = [?r]" "mCurrentFreeList t = None" "eAlign t = eAlign s"
    using merged by (simp_all add: t_def eager_barrierEnd_def eager_endGroup_def f1 split: prod.split)
  have n2: "esize (ns2 ! ?r) = minSize" "eptr (ns2 ! ?r) = ?k" "eparent (ns2 ! ?r) = None"
    using nr by (simp_all add: ns2_def use_count_def)
  have "fst (eager_reuse m (eAlign s) t) = Some ?k"
    using small(2) n2 by (simp add: eager_reuse_def getFromFreeList_def lower_bound_def ekey_def parent_count_def ft Let_def)
  then have "c2 = key_chunk ?k \<and> w2 = w1"
    using again [folded t_def] by (auto simp: eager_alloc_def ft Let_def split: prod.splits)
  then have "chunk_key c2 = ?k \<and> w2 = w1" by (simp add: key_chunk_def chunk_key_def)
  moreover have "pool_blocks t ?k \<noteq> None"
    by (auto simp: pool_blocks_def ft f1 used_insert_def split: option.split)
  ultimately show ?thesis by (simp add: c1 t_def)
qed
text \<open>A pool with a minimal allocation size of 1024 in which a chunk of 64 bytes is taken inside a group.\<close>

definition demo_group :: "eager_state \<times> (nat \<times> (addr \<Rightarrow> nat option)) \<times> (addr \<Rightarrow> addr)" where
  "demo_group = (\<lambda>(s, w). (eager_barrierEnd (eager_endGroup s), w))
     (snd (demo_ask 64 (eager_beginGroup (eager_new 64 1024), demo_world)))"

lemma min_size_group_overlap_witness:
  "chunk_key (fst (demo_ask 64 (eager_beginGroup (eager_new 64 1024), demo_world))) = (4160, 0) \<and>
   chunk_key (fst (demo_ask 1024 demo_group)) = (4160, 0) \<and>
   pool_blocks (fst demo_group) (4160, 0) \<noteq> None"
proof -
  let ?g = "demo_ask 64 (eager_beginGroup (eager_new 64 1024), demo_world)"
  obtain c1 s1 w1 where a: "?g = (c1, s1, w1)" by (metis prod_cases3)
  have g: "demo_group = (eager_barrierEnd (eager_endGroup s1), w1)" by (simp add: demo_group_def a)
  obtain c2 s2 w2 where b: "demo_ask 1024 demo_group = (c2, s2, w2)" by (metis prod_cases3)
  obtain chunk w' where r: "default_onAlloc bump_malloc 1024 64 demo_world = (chunk, w')" by (metis surj_pair)
  have k: "chunk_key chunk = (4160, 0)" "cfirst chunk \<noteq> 0" "w' = w1"
    using r a by (auto simp: pool_eval demo_world_def eager_beginGroup_def)
  note t = min_size_group_overlap [where align = 0 and on_alloc = "default_onAlloc bump_malloc" and s = "eager_new 64 1024" and n = 64 and m = 1024]
  have "chunk_key c1 = chunk_key chunk \<and> chunk_key c2 = chunk_key c1 \<and> w2 = w1 \<and>
    pool_blocks (eager_barrierEnd (eager_endGroup s1)) (chunk_key c1) \<noteq> None"
    by (rule t [of 1024 demo_world chunk w1 c1 s1 c2 s2 w2])
      (use r k a b in \<open>simp_all add: eager_new_def demo_ask_def g\<close>)
  then show ?thesis using k by (auto simp: a b [unfolded g] g)
qed

text \<open>
  A buffer that once failed to grow reports success from then on: every later plan with a free chunk that
  needs no more than the size the buffer had before the failure is answered with \<open>NO_ERROR\<close> and has the null
  pointer as its buffer, whatever pointer it had before. A plan that held the old buffer is applied to the null
  pointer; one that held none yet is left as it is, for the code takes it to be applied already.
\<close>

lemma apply_after_failed_growth:
  assumes fail: "single_realloc on_alloc on_release n a b w = (OUT_OF_MEMORY, b', w')"
    and fits: "totalSize s \<le> currentSize b" and plan: "freeList s \<noteq> []"
  shows "\<exists>s' w2. defer_apply on_alloc on_release apply_fn s b' w1 = (NO_ERROR, s', b', w2) \<and> cfirst (mPtr s') = 0"
proof -
  from fail have b': "cfirst (current b') = 0" "currentSize b' = currentSize b"
    by (auto simp: single_realloc_def Let_def split: if_splits prod.splits)
  then show ?thesis using fits plan by (simp add: defer_apply_def Let_def)
qed

lemma apply_after_failed_growth_witness:
  "\<exists>b' w'. single_realloc (\<lambda>_ _ w. (\<lparr>cfirst = 0, csecond = 0, cnode = None\<rparr>, w)) (\<lambda>_ w. w) 64 4
       \<lparr>current = \<lparr>cfirst = 4096, csecond = 0, cnode = None\<rparr>, currentSize = 20\<rparr> () = (OUT_OF_MEMORY, b', w') \<and>
     (\<exists>s' w2. defer_apply (\<lambda>_ _ w. (\<lparr>cfirst = 0, csecond = 0, cnode = None\<rparr>, w)) (\<lambda>_ w. w) (\<lambda>_ _ _ w. w)
        (demo_plan\<lparr>mPtr := \<lparr>cfirst = 4096, csecond = 0, cnode = None\<rparr>, totalSize := 20\<rparr>) b' () = (NO_ERROR, s', b', w2) \<and>
       cfirst (mPtr s') = 0)"
proof -
  let ?b = "\<lparr>current = \<lparr>cfirst = 4096, csecond = 0, cnode = None\<rparr>, currentSize = 20\<rparr>"
  let ?oa = "\<lambda>_ _ w. (\<lparr>cfirst = 0, csecond = 0, cnode = None\<rparr>, w)"
  have e: "single_realloc ?oa (\<lambda>_ w. w) 64 4 ?b () = (OUT_OF_MEMORY, ?b\<lparr>current := \<lparr>cfirst = 0, csecond = 0, cnode = None\<rparr>\<rparr>, ())"
    by (simp add: single_realloc_def)
  have "freeList demo_plan \<noteq> []" by (simp add: demo_eval)
  then show ?thesis
    using apply_after_failed_growth [OF e, of "demo_plan\<lparr>mPtr := \<lparr>cfirst = 4096, csecond = 0, cnode = None\<rparr>, totalSize := 20\<rparr>"] e
    by fastforce
qed

end
