(* ===== verification/Geometry_Permute.thy ===== *)
theory Geometry_Permute
  imports Region_Grid
begin

text \<open>
  Permuting the axes of a tensor: \<open>ComputePermuteRegion\<close> of \<open>source/geometry/GeometryComputer.cpp\<close>
  and \<open>GeometryPermute::onCompute\<close> of \<open>source/geometry/GeometryPermute.cpp\<close>. The arrays of
  \<open>MNN_MAX_TENSOR_DIM\<close> entries are lists; shape, output stride and input stride of a fused dimension,
  which the code swaps together, are kept as triples.
\<close>

section \<open>The model\<close>

definition stride_behind :: "tensor \<Rightarrow> int \<Rightarrow> int" where
  "stride_behind input a = fold (\<lambda>v stride. stride * len_at input v) [nat (a + 1)..<ndim input] 1"

text \<open>One round of the loop that drops axes of length one and fuses axes that stay neighbours.\<close>

definition permute_step :: "tensor \<Rightarrow> int \<Rightarrow> int list \<times> int list \<times> int \<Rightarrow> int list \<times> int list \<times> int" where
  "permute_step input axis = (\<lambda>(inputShape, inputStrides, preAxis).
     (let len = len_at input (nat axis)
      in if len = 1 then (inputShape, inputStrides, preAxis)
         else if axis - preAxis = 1 then
           (inputShape[length inputShape - 1 := inputShape ! (length inputShape - 1) * len], inputStrides, axis)
         else (inputShape @ [len],
               if 0 \<le> preAxis then inputStrides @ [stride_behind input preAxis] else inputStrides, axis)))"

definition permute_fused :: "tensor \<Rightarrow> int list \<Rightarrow> (int \<times> int) list" where
  "permute_fused input axes =
     (let (inputShape, inputStrides, preAxis) = fold (permute_step input) axes ([], [], - 2)
      in zip inputShape (if 0 \<le> preAxis then inputStrides @ [stride_behind input preAxis] else inputStrides))"

definition dense_dims :: "(int \<times> int) list \<Rightarrow> (int \<times> int \<times> int) list" where
  "dense_dims P = map2 (\<lambda>(n, s) d. (n, d, s)) P (fst (computeStride (map fst P)))"

text \<open>The three largest extents are moved to the end.\<close>

definition max_three :: "int list \<Rightarrow> int \<times> int \<times> int" where
  "max_three shp =
     fold (\<lambda>x (max1, max2, max3).
         if max1 < x then (x, max1, max2) else if max2 < x then (max1, x, max2)
         else if max3 < x then (max1, max2, x) else (max1, max2, max3))
       (tl shp) (shp ! 0, - 1, - 1)"

definition swap_at :: "nat \<Rightarrow> nat \<Rightarrow> 'a list \<Rightarrow> 'a list" where
  "swap_at i j xs = (if i \<noteq> j then xs[i := xs ! j, j := xs ! i] else xs)"

primrec move_max :: "nat \<Rightarrow> (int \<times> int \<times> int) list \<Rightarrow> int \<times> int \<times> int \<Rightarrow> int \<Rightarrow> (int \<times> int \<times> int) list" where
  "move_max 0 T ms lastIndex = T"
| "move_max (Suc i) T ms lastIndex =
     (let n = fst (T ! i);
          (max1, max2, max3) = ms;
          (T', ms', last') =
            (if n = max1 then (swap_at i (nat lastIndex) T, (- 1, max2, max3), lastIndex - 1)
             else if n = max2 then (swap_at i (nat lastIndex) T, (max1, - 1, max3), lastIndex - 1)
             else if n = max3 then (swap_at i (nat lastIndex) T, (max1, max2, - 1), lastIndex - 1)
             else (T, (max1, max2, max3), lastIndex))
      in if last' < int (length T) - 3 then T' else move_max i T' ms' last')"

definition reorder_dims :: "(int \<times> int \<times> int) list \<Rightarrow> (int \<times> int \<times> int) list" where
  "reorder_dims T =
     (let shp = map fst T;
          isReorderShape = (if length shp = 4 then shp ! 1 + shp ! 2 + shp ! 3 < shp ! 0 else 4 < length shp)
      in if isReorderShape then move_max (length T) T (max_three shp) (int (length T) - 1) else T)"

text \<open>The regions of a list of dimensions: the last three inside a region, the others enumerated.\<close>

definition dim_from_end :: "nat \<Rightarrow> (int \<times> int \<times> int) list \<Rightarrow> int \<times> int \<times> int" where
  "dim_from_end k T = (if k \<le> length T then T ! (length T - k) else (1, 0, 0))"

definition split_regions :: "nat \<Rightarrow> (int \<times> int \<times> int) list \<Rightarrow> region list" where
  "split_regions input T =
     (let (outside, outputOutsideStride, outsideStride) = dim_from_end 3 T;
          (axis, outputAxisStride, axisStride) = dim_from_end 2 T;
          (inside, outputInsideStride, insideStride) = dim_from_end 1 T;
          D = take (length T - 3) T;
          remainSize = prod_list (map fst D);
          modulus = map (\<lambda>i. prod_list (map fst (drop (Suc i) D))) [0..<length D]
      in map (\<lambda>indice.
           (let coordinate = unravelIndexHelper modulus indice
            in \<lparr>rsrc = \<lparr>voffset = lin (map (snd \<circ> snd) D) coordinate, vstride = [outsideStride, axisStride, insideStride]\<rparr>,
                rdst = \<lparr>voffset = lin (map (fst \<circ> snd) D) coordinate,
                        vstride = [outputOutsideStride, outputAxisStride, outputInsideStride]\<rparr>,
                rsize = [outside, axis, inside], rorigin = input\<rparr>))
         [0..remainSize - 1])"

definition ComputePermuteRegion :: "tensor \<Rightarrow> int list option \<Rightarrow> region list" where
  "ComputePermuteRegion input newshape =
     (let axes = (case newshape of
            Some p \<Rightarrow> take (ndim input) p
          | None \<Rightarrow> map (\<lambda>i. dimensions input - int i - 1) [0..<ndim input]);
          fused = permute_fused input axes
      in if fused = [] then [makeFullSlice 0 input] else split_regions 0 (reorder_dims (dense_dims fused)))"

text \<open>\<open>GeometryPermute\<close>: the axes of \<open>Permute\<close> are an attribute or reverse the order.\<close>

datatype permute_op = OpPermute "int list option" | OpTranspose "int list"

definition permute_compute :: "permute_op \<Rightarrow> tensor \<Rightarrow> region list" where
  "permute_compute op input =
     (let dims = ndim input;
          neworder = (case op of
             OpPermute (Some p) \<Rightarrow> take dims p
           | OpPermute None \<Rightarrow> map (\<lambda>i. dimensions input - int i - 1) [0..<dims]
           | OpTranspose p \<Rightarrow> take dims p)
      in ComputePermuteRegion input (Some neworder))"

section \<open>Fusing dimensions\<close>

lemma dense_dims_simps [simp]:
  "dense_dims [] = []" "dense_dims ((n, s) # P) = (n, prod_list (map fst P), s) # dense_dims P"
  by (simp_all add: dense_dims_def computeStride_dense Let_def)

lemma map_fst_dense_dims [simp]: "map fst (dense_dims P) = map fst P"
  by (induction P) auto

lemma dense_dims_cong:
  assumes "grid (dense_dims Q) = grid (dense_dims Q')" and "prod_list (map fst Q) = prod_list (map fst Q')"
  shows "grid (dense_dims (P @ Q)) = grid (dense_dims (P @ Q'))"
proof (induction P)
  case (Cons p P)
  obtain n s where p: "p = (n, s)" by (cases p)
  from grid_Cons_cong [OF Cons] show ?case using assms(2) by (simp add: p del: grid.simps)
qed (simp add: assms(1))

lemma dense_dims_drop: "grid (dense_dims (P @ (1, s) # Q)) = grid (dense_dims (P @ Q))"
  by (rule dense_dims_cong) (simp_all add: grid_unit del: grid.simps)

lemma dense_dims_fuse:
  assumes "0 \<le> m"
  shows "grid (dense_dims (P @ (n, m * s) # (m, s) # Q)) = grid (dense_dims (P @ (n * m, s) # Q))"
  by (rule dense_dims_cong) (simp_all add: grid_fuse [OF assms] del: grid.simps)

lemma fold_mult_prod: "fold (\<lambda>v p. p * f v) vs k = k * prod_list (map f vs)" for f :: "'b \<Rightarrow> int"
  by (induction vs arbitrary: k) (simp_all add: mult.assoc)

lemma stride_behind_step:
  assumes "0 \<le> a" and "nat (a + 1) < ndim t"
  shows "stride_behind t a = len_at t (nat (a + 1)) * stride_behind t (a + 1)"
proof -
  have "[nat (a + 1)..<ndim t] = nat (a + 1) # [nat (a + 1 + 1)..<ndim t]"
    using assms by (simp add: upt_conv_Cons nat_add_distrib)
  then show ?thesis by (simp add: stride_behind_def fold_mult_prod)
qed

definition axis_dim :: "tensor \<Rightarrow> int \<Rightarrow> int \<times> int" where
  "axis_dim t a = (len_at t (nat a), stride_behind t a)"

lemma permute_fold:
  assumes axes: "\<And>a. a \<in> set axes \<Longrightarrow> 0 \<le> a \<and> nat a < ndim t \<and> 0 \<le> len_at t (nat a)"
    and P: "P = (if 0 \<le> pre then zip shp (strs @ [stride_behind t pre]) else [])"
    and inv: "if 0 \<le> pre then length shp = Suc (length strs) \<and> nat pre < ndim t else pre = - 2 \<and> shp = [] \<and> strs = []"
    and res: "fold (permute_step t) axes (shp, strs, pre) = (shp', strs', pre')"
  shows "grid (dense_dims (zip shp' (if 0 \<le> pre' then strs' @ [stride_behind t pre'] else strs'))) =
    grid (dense_dims (P @ map (axis_dim t) axes))"
  using assms
proof (induction axes arbitrary: shp strs pre P)
  case Nil
  then show ?case by auto
next
  case (Cons a axes)
  let ?len = "len_at t (nat a)"
  have a: "0 \<le> a" "nat a < ndim t" "0 \<le> ?len" using Cons.prems(1) by auto
  have pos: "\<And>b. b \<in> set axes \<Longrightarrow> 0 \<le> b \<and> nat b < ndim t \<and> 0 \<le> len_at t (nat b)"
    by (rule Cons.prems(1)) simp
  consider (one) "?len = 1" | (next_to) "?len \<noteq> 1" "a - pre = 1" | (new) "?len \<noteq> 1" "a - pre \<noteq> 1" by blast
  then show ?case
  proof cases
    case one
    then have step: "permute_step t a (shp, strs, pre) = (shp, strs, pre)" by (simp add: permute_step_def)
    have "fold (permute_step t) axes (shp, strs, pre) = (shp', strs', pre')" using Cons.prems(4) step by simp
    from Cons.IH [OF pos Cons.prems(2,3) this] show ?thesis using one by (simp add: axis_dim_def dense_dims_drop)
  next
    case next_to
    then have pre: "0 \<le> pre" "a = pre + 1" using Cons.prems(3) a(1) by (auto split: if_splits)
    with Cons.prems(3) have len: "length shp = Suc (length strs)" by simp
    then obtain shp0 n where shp: "shp = shp0 @ [n]" "length shp0 = length strs"
      by (metis append_butlast_last_id length_append_singleton length_greater_0_conv old.nat.inject zero_less_Suc)
    have step: "permute_step t a (shp, strs, pre) = (shp0 @ [n * ?len], strs, a)"
      using next_to by (simp add: permute_step_def shp(1) nth_append)
    have f: "fold (permute_step t) axes (shp0 @ [n * ?len], strs, a) = (shp', strs', pre')"
      using Cons.prems(4) step by simp
    have "grid (dense_dims (zip shp' (if 0 \<le> pre' then strs' @ [stride_behind t pre'] else strs'))) =
        grid (dense_dims ((zip shp0 strs @ [(n * ?len, stride_behind t a)]) @ map (axis_dim t) axes))"
      by (rule Cons.IH [OF pos _ _ f]) (use a shp in simp_all)
    also have "\<dots> = grid (dense_dims (zip shp0 strs @ (n, ?len * stride_behind t a) # (?len, stride_behind t a) # map (axis_dim t) axes))"
      using dense_dims_fuse [OF a(3), of "zip shp0 strs" n "stride_behind t a"] by simp
    also have "?len * stride_behind t a = stride_behind t pre" using stride_behind_step [OF pre(1)] a(2) pre(2) by simp
    finally show ?thesis using Cons.prems(2) pre(1) shp by (simp add: axis_dim_def)
  next
    case new
    let ?strs = "if 0 \<le> pre then strs @ [stride_behind t pre] else strs"
    have step: "permute_step t a (shp, strs, pre) = (shp @ [?len], ?strs, a)" using new by (simp add: permute_step_def)
    have f: "fold (permute_step t) axes (shp @ [?len], ?strs, a) = (shp', strs', pre')" using Cons.prems(4) step by simp
    have "grid (dense_dims (zip shp' (if 0 \<le> pre' then strs' @ [stride_behind t pre'] else strs'))) =
        grid (dense_dims ((P @ [axis_dim t a]) @ map (axis_dim t) axes))"
      by (rule Cons.IH [OF pos _ _ f]) (use a Cons.prems(2,3) in \<open>auto simp: axis_dim_def split: if_splits\<close>)
    then show ?thesis by simp
  qed
qed

lemma permute_fused_grid:
  assumes "\<And>a. a \<in> set axes \<Longrightarrow> 0 \<le> a \<and> nat a < ndim t \<and> 0 \<le> len_at t (nat a)"
  shows "grid (dense_dims (permute_fused t axes)) = grid (dense_dims (map (axis_dim t) axes))"
proof -
  obtain shp strs pre where f: "fold (permute_step t) axes ([], [], - 2) = (shp, strs, pre)" by (metis prod_cases3)
  from permute_fold [OF assms _ _ f, of "[]"] show ?thesis by (simp add: permute_fused_def f del: grid.simps)
qed

section \<open>Reordering and splitting\<close>

lemma mset_swap_at: "i < length xs \<Longrightarrow> j < length xs \<Longrightarrow> mset (swap_at i j xs) = mset xs"
  by (simp add: swap_at_def mset_swap)

lemma mset_move_max:
  "i \<le> length T \<Longrightarrow> 0 \<le> l \<Longrightarrow> l < int (length T) \<Longrightarrow> 3 \<le> length T \<Longrightarrow> mset (move_max i T ms l) = mset T"
proof (induction i arbitrary: T ms l)
  case (Suc i)
  obtain m1 m2 m3 where ms: "ms = (m1, m2, m3)" by (metis prod_cases3)
  define st where "st =
      (if fst (T ! i) = m1 then (swap_at i (nat l) T, (- 1, m2, m3), l - 1)
       else if fst (T ! i) = m2 then (swap_at i (nat l) T, (m1, - 1, m3), l - 1)
       else if fst (T ! i) = m3 then (swap_at i (nat l) T, (m1, m2, - 1), l - 1)
       else (T, (m1, m2, m3), l))"
  obtain T' ms' l' where st: "st = (T', ms', l')" by (metis prod_cases3)
  have sw: "mset (swap_at i (nat l) T) = mset T" "length (swap_at i (nat l) T) = length T"
    using Suc.prems by (intro mset_swap_at, simp_all) (simp add: swap_at_def)
  have T': "mset T' = mset T" "length T' = length T" "l' \<le> l"
    using st sw by (auto simp: st_def split: if_splits)
  have "move_max (Suc i) T ms l = (if l' < int (length T) - 3 then T' else move_max i T' ms' l')"
    using st by (simp only: ms move_max.simps Let_def st_def [symmetric] prod.case)
  then show ?case using Suc.IH [of T' l' ms'] Suc.prems T' by auto
qed simp

lemma mset_reorder: "mset (reorder_dims T) = mset T"
  by (auto simp: reorder_dims_def Let_def intro!: mset_move_max split: if_splits)

lemma split_regions_cover:
  assumes pos: "\<And>n. n \<in> fst ` set T \<Longrightarrow> 0 \<le> n"
  shows "(\<Union>r \<in> set (split_regions k T). region_set r) = grid T"
proof -
  obtain n3 d3 s3 where e3: "dim_from_end 3 T = (n3, d3, s3)" by (metis prod_cases3)
  obtain n2 d2 s2 where e2: "dim_from_end 2 T = (n2, d2, s2)" by (metis prod_cases3)
  obtain n1 d1 s1 where e1: "dim_from_end 1 T = (n1, d1, s1)" by (metis prod_cases3)
  define D where "D = take (length T - 3) T"
  have m: "map (\<lambda>i. prod_list (map fst (drop (Suc i) D))) [0..<length D] = dense_strides (map fst D)"
    by (simp add: dense_strides_def drop_map)
  define mk where "mk = (\<lambda>indice. \<lparr>rsrc = \<lparr>voffset = lin (map (snd \<circ> snd) D) (unravelIndexHelper (dense_strides (map fst D)) indice),
        vstride = [s3, s2, s1]\<rparr>,
      rdst = \<lparr>voffset = lin (map (fst \<circ> snd) D) (unravelIndexHelper (dense_strides (map fst D)) indice), vstride = [d3, d2, d1]\<rparr>,
      rsize = [n3, n2, n1], rorigin = k\<rparr>)"
  have regs: "split_regions k T = map mk [0..prod_list (map fst D) - 1]"
    by (simp only: split_regions_def e1 e2 e3 Let_def prod.case D_def [symmetric] m mk_def)
  have "(\<Union>r \<in> set (split_regions k T). region_set r) =
      {(0 + d, 0 + s) | d s. (d, s) \<in> grid (D @ [(n3, d3, s3), (n2, d2, s2), (n1, d1, s1)])}"
    by (rule regions_cover [OF regs]) (use pos in \<open>auto simp: mk_def D_def dest: in_set_takeD\<close>)
  also have "\<dots> = grid (D @ [(n3, d3, s3), (n2, d2, s2), (n1, d1, s1)])" by auto
  also have "\<dots> = grid T"
    using last_three_grid [of T 0 0] e1 e2 e3 by (simp add: D_def dim_from_end_def dim_or_def del: grid.simps)
  finally show ?thesis .
qed

section \<open>Coordinates of the permuted tensor\<close>

lemma sum_list_mset: "mset xs = mset ys \<Longrightarrow> sum_list (map f xs) = sum_list (map f ys)" for f :: "'b \<Rightarrow> int"
  by (metis mset_map sum_mset_sum_list)

lemma stride_behind_dense: "i < ndim t \<Longrightarrow> stride_behind t (int i) = dense_strides (shape t) ! i"
  by (simp add: nth_dense_strides shape_def drop_map stride_behind_def fold_mult_prod nat_add_distrib)

lemma lin_sum: "length strs = length c \<Longrightarrow> lin strs c = sum_list (map (\<lambda>i. c ! i * strs ! i) [0..<length c])"
  by (simp add: lin_def sum_list_sum_nth)

lemma lin_permuted:
  assumes p: "mset p = mset (map int [0..<ndim t])" and c: "length c = ndim t"
  shows "lin (map (stride_behind t) p) (map (\<lambda>a. c ! nat a) p) = flat (shape t) c"
proof -
  have "lin (map (stride_behind t) p) (map (\<lambda>a. c ! nat a) p) = sum_list (map (\<lambda>a. c ! nat a * stride_behind t a) p)"
    by (simp add: lin_def zip_map_map zip_same_conv_map o_def)
  also have "\<dots> = sum_list (map (\<lambda>a. c ! nat a * stride_behind t a) (map int [0..<ndim t]))"
    by (rule sum_list_mset [OF p])
  also have "\<dots> = sum_list (map (\<lambda>i. c ! i * dense_strides (shape t) ! i) [0..<length c])"
    unfolding map_map by (intro arg_cong [of _ _ sum_list] map_cong) (simp_all add: c stride_behind_dense)
  also have "\<dots> = flat (shape t) c" by (subst lin_sum) (simp_all add: c shape_def)
  finally show ?thesis .
qed

lemma coords_permuted:
  assumes p: "mset p = mset (map int [0..<ndim t])"
  shows "coords (map (\<lambda>a. len_at t (nat a)) p) = (\<lambda>c. map (\<lambda>a. c ! nat a) p) ` coords (shape t)"
proof (intro set_eqI iffI)
  have set_p: "set p = int ` {0..<ndim t}" using mset_eq_setD [OF p] by simp
  have dist: "distinct p" using p by (metis distinct_map distinct_upt inj_on_of_nat mset_eq_imp_distinct_iff)
  fix d assume "d \<in> (\<lambda>c. map (\<lambda>a. c ! nat a) p) ` coords (shape t)"
  then obtain c where c: "c \<in> coords (shape t)" "d = map (\<lambda>a. c ! nat a) p" by blast
  show "d \<in> coords (map (\<lambda>a. len_at t (nat a)) p)"
  proof (rule coordsI)
    fix i assume i: "i < length (map (\<lambda>a. len_at t (nat a)) p)"
    then have "p ! i \<in> int ` {0..<ndim t}" using set_p nth_mem by fastforce
    then have "nat (p ! i) < length (shape t)" by (auto simp: shape_def)
    from coords_nth [OF c(1) this] show "0 \<le> d ! i \<and> d ! i < map (\<lambda>a. len_at t (nat a)) p ! i"
      using i \<open>nat (p ! i) < _\<close> by (simp add: c(2) shape_def)
  qed (simp add: c(2))
next
  have set_p: "set p = int ` {0..<ndim t}" using mset_eq_setD [OF p] by simp
  have dist: "distinct p" using p by (metis distinct_map distinct_upt inj_on_of_nat mset_eq_imp_distinct_iff)
  fix d assume d: "d \<in> coords (map (\<lambda>a. len_at t (nat a)) p)"
  then have len: "length d = length p" using coords_length by fastforce
  define c where "c = map (\<lambda>i. the (map_of (zip p d) (int i))) [0..<ndim t]"
  have at: "c ! nat (p ! k) = d ! k" "nat (p ! k) < ndim t" if k: "k < length p" for k
  proof -
    have "p ! k \<in> int ` {0..<ndim t}" using set_p nth_mem [OF k] by blast
    then show n: "nat (p ! k) < ndim t" by auto
    have "map_of (zip p d) (p ! k) = Some (d ! k)" using dist len k by (simp add: map_of_zip_nth)
    moreover have "int (nat (p ! k)) = p ! k" using \<open>p ! k \<in> _\<close> by auto
    ultimately show "c ! nat (p ! k) = d ! k" using n by (simp add: c_def)
  qed
  have "c \<in> coords (shape t)"
  proof (rule coordsI)
    fix i assume i: "i < length (shape t)"
    then have "int i \<in> set p" using set_p by (simp add: shape_def)
    then obtain k where k: "k < length p" "p ! k = int i" by (auto simp: in_set_conv_nth)
    with at(1) [OF k(1)] coords_nth [OF d, of k] i show "0 \<le> c ! i \<and> c ! i < shape t ! i" by (simp add: shape_def)
  qed (simp add: c_def shape_def)
  moreover have "d = map (\<lambda>a. c ! nat a) p" by (rule nth_equalityI) (simp_all add: len at(1))
  ultimately show "d \<in> (\<lambda>c. map (\<lambda>a. c ! nat a) p) ` coords (shape t)" by blast
qed

lemma permuted_inj:
  assumes p: "mset p = mset (map int [0..<ndim t])"
  shows "inj_on (\<lambda>c. flat (map (\<lambda>a. len_at t (nat a)) p) (map (\<lambda>a. c ! nat a) p)) (coords (shape t))"
proof (rule inj_onI)
  fix c c' assume c: "c \<in> coords (shape t)" "c' \<in> coords (shape t)"
    and eq: "flat (map (\<lambda>a. len_at t (nat a)) p) (map (\<lambda>a. c ! nat a) p) =
      flat (map (\<lambda>a. len_at t (nat a)) p) (map (\<lambda>a. c' ! nat a) p)"
  have "map (\<lambda>a. c ! nat a) p = map (\<lambda>a. c' ! nat a) p"
    by (rule flat_inj [OF _ _ eq]) (use c coords_permuted [OF p] in auto)
  moreover have "int i \<in> set p" if "i < ndim t" for i using mset_eq_setD [OF p] that by auto
  ultimately have "c ! i = c' ! i" if "i < ndim t" for i using that by fastforce
  then show "c = c'" using coords_length [OF c(1)] coords_length [OF c(2)] by (intro nth_equalityI) (simp_all add: shape_def)
qed

lemma dense_dims_axes:
  "map fst (map (axis_dim t) p) = map (\<lambda>a. len_at t (nat a)) p"
  "map (fst \<circ> snd) (dense_dims P) = dense_strides (map fst P)"
  "map (snd \<circ> snd) (dense_dims P) = map snd P"
  by (auto simp: axis_dim_def) (induction P, auto)+

lemma permute_fold_nonneg:
  assumes "\<And>a. a \<in> set axes \<Longrightarrow> 0 \<le> len_at t (nat a)" and "\<And>n. n \<in> set shp \<Longrightarrow> 0 \<le> n"
    and "fold (permute_step t) axes (shp, strs, pre) = (shp', strs', pre')" and "n \<in> set shp'"
  shows "0 \<le> n"
  using assms
proof (induction axes arbitrary: shp strs pre)
  case (Cons a axes)
  obtain shp1 strs1 pre1 where st: "permute_step t a (shp, strs, pre) = (shp1, strs1, pre1)" by (metis prod_cases3)
  have a: "0 \<le> len_at t (nat a)" and rest: "\<And>b. b \<in> set axes \<Longrightarrow> 0 \<le> len_at t (nat b)" using Cons.prems(1) by simp_all
  have "0 \<le> m" if m: "m \<in> set shp1" for m
  proof (cases "len_at t (nat a) \<noteq> 1 \<and> a - pre = 1")
    case True
    then have e: "shp1 = shp[length shp - 1 := shp ! (length shp - 1) * len_at t (nat a)]"
      using st by (auto simp: permute_step_def Let_def)
    show ?thesis
    proof (cases "shp = []")
      case False
      then have "0 \<le> shp ! (length shp - 1) * len_at t (nat a)" using Cons.prems(2) a by simp
      then show ?thesis using m set_update_subset_insert Cons.prems(2) unfolding e by fastforce
    qed (use m e in simp)
  next
    case False
    then show ?thesis using st m Cons.prems(2) a by (auto simp: permute_step_def Let_def split: if_splits)
  qed
  from Cons.IH [OF rest this] Cons.prems(3,4) st show ?case by simp
qed simp

lemma full_slice_set: "region_set (makeFullSlice k t) = {(i, i) | i. 0 \<le> i \<and> i < prod_list (shape t)}"
proof -
  have n: "fold (\<lambda>i n. n * len_at t i) [0..<ndim t] 1 = prod_list (shape t)" by (simp add: fold_mult_prod shape_def)
  have "region_set (makeFullSlice k t) = grid [(1, prod_list (shape t), prod_list (shape t)),
      (1, prod_list (shape t), prod_list (shape t)), (prod_list (shape t), 1, 1)]"
    by (subst region_set_grid) (simp_all add: makeFullSlice_def n Let_def del: grid.simps)
  also have "\<dots> = grid [(prod_list (shape t), 1, 1)]" by (simp add: grid_unit del: grid.simps)
  also have "\<dots> = {(i, i) | i. 0 \<le> i \<and> i < prod_list (shape t)}" by simp
  finally show ?thesis .
qed

lemma axes_grid:
  assumes p: "mset p = mset (map int [0..<ndim t])"
  shows "grid (dense_dims (map (axis_dim t) p)) =
    {(flat (map (\<lambda>a. len_at t (nat a)) p) (map (\<lambda>a. c ! nat a) p), flat (shape t) c) | c. c \<in> coords (shape t)}"
proof -
  have "grid (dense_dims (map (axis_dim t) p)) =
      {(flat (map (\<lambda>a. len_at t (nat a)) p) d, lin (map (stride_behind t) p) d) | d. d \<in> coords (map (\<lambda>a. len_at t (nat a)) p)}"
    unfolding grid_coords dense_dims_axes map_fst_dense_dims by (simp add: axis_dim_def o_def)
  also have "\<dots> = {(flat (map (\<lambda>a. len_at t (nat a)) p) (map (\<lambda>a. c ! nat a) p),
      lin (map (stride_behind t) p) (map (\<lambda>a. c ! nat a) p)) | c. c \<in> coords (shape t)}"
    unfolding coords_permuted [OF p] by blast
  also have "\<dots> = {(flat (map (\<lambda>a. len_at t (nat a)) p) (map (\<lambda>a. c ! nat a) p), flat (shape t) c) | c. c \<in> coords (shape t)}"
    using lin_permuted [OF p] coords_length by (fastforce simp: shape_def)
  finally show ?thesis .
qed

lemma permute_region_cover:
  assumes p: "mset p = mset (map int [0..<ndim t])" and pos: "\<And>i. i < ndim t \<Longrightarrow> 0 \<le> len_at t i"
  shows "(\<Union>r \<in> set (ComputePermuteRegion t (Some p)). region_set r) =
    {(flat (map (\<lambda>a. len_at t (nat a)) p) (map (\<lambda>a. c ! nat a) p), flat (shape t) c) | c. c \<in> coords (shape t)}"
proof -
  have len: "length p = ndim t" using mset_eq_length [OF p] by simp
  have ax: "0 \<le> a \<and> nat a < ndim t \<and> 0 \<le> len_at t (nat a)" if "a \<in> set p" for a
    using that mset_eq_setD [OF p] pos by auto
  let ?F = "permute_fused t p"
  have F: "grid (dense_dims ?F) = {(flat (map (\<lambda>a. len_at t (nat a)) p) (map (\<lambda>a. c ! nat a) p), flat (shape t) c) | c. c \<in> coords (shape t)}"
    using permute_fused_grid [OF ax] axes_grid [OF p] by simp
  have nonneg: "0 \<le> n" if n: "n \<in> fst ` set (dense_dims ?F)" for n
  proof -
    obtain shp strs pre where f: "fold (permute_step t) p ([], [], - 2) = (shp, strs, pre)" by (metis prod_cases3)
    have "n \<in> set (map fst ?F)" using n by (metis map_fst_dense_dims set_map)
    then have "n \<in> set shp" by (auto simp: permute_fused_def f dest: set_zip_leftD)
    then show ?thesis using permute_fold_nonneg [OF _ _ f] ax by simp
  qed
  show ?thesis
  proof (cases "?F = []")
    case True
    have pos': "n \<in> set (shape t) \<Longrightarrow> 0 \<le> n" for n using pos by (auto simp: shape_def)
    have z: "flat (shape t) c = 0" if "c \<in> coords (shape t)" for c
      using F that unfolding True by (auto simp: set_eq_iff)
    have "{(0, 0)} = {(flat (map (\<lambda>a. len_at t (nat a)) p) (map (\<lambda>a. c ! nat a) p), flat (shape t) c) | c. c \<in> coords (shape t)}"
      using F unfolding True by simp
    then obtain c where c: "c \<in> coords (shape t)" by blast
    have "0 < prod_list (shape t)" using flat_bounds [OF c] by linarith
    moreover have "\<not> 1 < prod_list (shape t)" using flat_surj [of 1 "shape t"] pos' z by fastforce
    ultimately have "prod_list (shape t) = 1" by simp
    then have "{(i, i) | i. 0 \<le> i \<and> i < prod_list (shape t)} = {(0 :: int, 0 :: int)}" by auto
    with F True show ?thesis by (simp add: ComputePermuteRegion_def Let_def len full_slice_set)
  next
    case False
    have "(\<Union>r \<in> set (ComputePermuteRegion t (Some p)). region_set r) = grid (reorder_dims (dense_dims ?F))"
      using False split_regions_cover [of "reorder_dims (dense_dims ?F)" 0, OF nonneg]
        mset_eq_setD [OF mset_reorder [of "dense_dims ?F"]]
      by (simp add: ComputePermuteRegion_def Let_def len del: grid.simps)
    also have "\<dots> = grid (dense_dims ?F)" by (rule grid_perm [OF mset_reorder])
    finally show ?thesis using F by simp
  qed
qed

lemma permute_origin: "r \<in> set (ComputePermuteRegion t np) \<Longrightarrow> rorigin r = 0"
  by (auto simp: ComputePermuteRegion_def Let_def makeFullSlice_def split_regions_def split: if_splits prod.splits)

text \<open>
  C21. The regions of \<open>Permute\<close> and \<open>Transpose\<close> permute: for every permutation of the axes, whatever
  dimensions are fused and however they are reordered, the entry of the output at permuted coordinates
  is the entry of the input at the coordinates.
\<close>

theorem permute_correct:
  assumes "mset p = mset (map int [0..<ndim t])" and "\<And>i. i < ndim t \<Longrightarrow> 0 \<le> len_at t i"
    and "c \<in> coords (shape t)"
  shows "raster zero inputs (permute_compute (OpTranspose p) t)
      (flat (map (\<lambda>a. len_at t (nat a)) p) (map (\<lambda>a. c ! nat a) p)) = inputs 0 (flat (shape t) c)"
proof -
  have len: "length p = ndim t" using mset_eq_length [OF assms(1)] by simp
  have "permute_compute (OpTranspose p) t = ComputePermuteRegion t (Some p)" by (simp add: permute_compute_def len)
  then show ?thesis
    using raster_graph [OF permute_region_cover [OF assms(1,2)] permuted_inj [OF assms(1)] permute_origin assms(3)] by simp
qed

definition demo_rank6 :: tensor where
  "demo_rank6 = setShape [2, 3, 1, 2, 2, 2] (new_tensor 6 NCHW)"
lemma permute_correct_witness:
  "raster (- 1) demo_data (permute_compute (OpTranspose [5, 1, 2, 0, 3, 4]) demo_rank6) 25 = demo_data 0 3"
proof -
  have s: "shape demo_rank6 = [2, 3, 1, 2, 2, 2]" "dimensions demo_rank6 = 6" "\<forall>i < 6. 0 \<le> len_at demo_rank6 i" 
    "map (\<lambda>a. len_at demo_rank6 (nat a)) [5, 1, 2, 0, 3, 4] = [2,3,1,2,2,2]"
     by code_simp+
  have "mset [5, 1, 2, 0, 3, 4] = mset (map int [0..<ndim demo_rank6])" by code_simp
  then show ?thesis
    using permute_correct [of "[5, 1, 2, 0, 3, 4]" demo_rank6 "[0,0,0,0,1,1]" "- 1" demo_data] s
     by (simp add: s)
qed

end
