(* ===== verification/Geometry_Split.thy ===== *)
theory Geometry_Split
  imports Geometry_Permute
begin

text \<open>
  Joining and splitting along an axis: \<open>GeometryConcat\<close> (\<open>Concat\<close>, \<open>QuantizedConcat\<close>, \<open>Pack\<close>) of
  \<open>source/geometry/GeometryConcat.cpp\<close>, \<open>GeometrySlice\<close> (\<open>Slice\<close>, \<open>Unpack\<close>) and \<open>GeometrySliceTF\<close> of
  \<open>source/geometry/GeometrySlice.cpp\<close>. \<open>inputFix\<close> is set for \<open>Pack\<close> and \<open>Unpack\<close>, where every piece has
  the extent one along an axis it does not have itself.
\<close>

section \<open>The model\<close>

definition outer_size :: "tensor \<Rightarrow> int \<Rightarrow> int" where
  "outer_size t axis = fold (\<lambda>i n. n * len_at t i) [0..<nat axis] 1"

definition inner_size :: "tensor \<Rightarrow> int \<Rightarrow> int" where
  "inner_size t axis = fold (\<lambda>i n. n * len_at t i) [nat (axis + 1)..<ndim t] 1"

definition concat_region :: "nat \<Rightarrow> int \<Rightarrow> int \<Rightarrow> int \<Rightarrow> int \<Rightarrow> int \<Rightarrow> region" where
  "concat_region i offset outside n inside axisLength =
     \<lparr>rsrc = \<lparr>voffset = 0, vstride = [1 * n * inside, 1 * inside, 1]\<rparr>,
      rdst = \<lparr>voffset = offset * inside, vstride = [inside * axisLength, inside, 1]\<rparr>,
      rsize = [outside, n, inside], rorigin = i\<rparr>"

definition concat_compute :: "int \<Rightarrow> bool \<Rightarrow> tensor list \<Rightarrow> tensor \<Rightarrow> region list" where
  "concat_compute basicAxis inputFix inputs output =
     (let axis = (if basicAxis < 0 then dimensions output + basicAxis else basicAxis);
          outside = outer_size output axis;
          inside = inner_size output axis;
          axisLength = len_at output (nat axis)
      in if outside \<le> 0 \<or> inside \<le> 0 \<or> axisLength \<le> 0 then []
         else fst (fold (\<lambda>(i, t) (regs, offset).
             if elementSize t = 0 then (regs, offset)
             else (let n = (if inputFix then 1 else len_at t (nat axis))
                   in (regs @ [concat_region i offset outside n inside axisLength], offset + n)))
           (enumerate 0 inputs) ([], 0)))"

definition slice_region :: "int \<Rightarrow> int \<Rightarrow> int \<Rightarrow> int \<Rightarrow> int \<Rightarrow> region" where
  "slice_region offset outside n inside axisLength =
     \<lparr>rsrc = \<lparr>voffset = offset * inside, vstride = [axisLength * inside, inside, 1]\<rparr>,
      rdst = \<lparr>voffset = 0, vstride = [inside * n, inside, 1]\<rparr>,
      rsize = [outside, n, inside], rorigin = 0\<rparr>"

definition slice_compute :: "int \<Rightarrow> bool \<Rightarrow> tensor \<Rightarrow> tensor list \<Rightarrow> region list list" where
  "slice_compute axis0 inputFix input outputs =
     (let axis = (if axis0 < 0 then axis0 + dimensions input else axis0);
          outside = outer_size input axis;
          inside = inner_size input axis;
          inputZero = (elementSize input \<le> 0)
      in fst (fold (\<lambda>output (res, offset).
             if inputZero then (res @ [[]], offset)
             else (let n = (if inputFix then 1 else len_at output (nat axis))
                   in (res @ [[slice_region offset outside n inside (len_at input (nat axis))]], offset + n)))
           outputs ([], 0)))"

definition sliceTf_compute :: "int list \<Rightarrow> tensor \<Rightarrow> tensor \<Rightarrow> region list" where
  "sliceTf_compute begin input output =
     (let inStrides = map (\<lambda>i. fold (\<lambda>v n. n * len_at input v) [i + 1..<ndim input] 1) [0..<ndim input];
          begins = map (\<lambda>i. if begin ! i < 0 then begin ! i + len_at input i else begin ! i) [0..<ndim input];
          srcOffset = lin inStrides begins;
          seperate = filter (\<lambda>i. len_at output i \<noteq> 1) [0..<ndim output];
          dims = map (\<lambda>i. (len_at output i, inStrides ! i)) seperate;
          from_end = (\<lambda>k. if k \<le> length dims then dims ! (length dims - k) else (1, 0));
          (outside, outsideStride) = from_end 3;
          (axis, axisStride) = from_end 2;
          (inside, insideStride) = from_end 1;
          D = take (length dims - 3) dims;
          modulus = map (\<lambda>i. prod_list (map fst (drop (Suc i) D))) [0..<length D];
          remainSize = prod_list (map fst D)
      in map (\<lambda>indice.
           \<lparr>rsrc = \<lparr>voffset = lin (map snd D) (unravelIndexHelper modulus indice) + srcOffset,
                    vstride = [outsideStride * 1, axisStride * 1, insideStride * 1]\<rparr>,
            rdst = \<lparr>voffset = indice * outside * axis * inside, vstride = [axis * inside, inside, 1]\<rparr>,
            rsize = [outside, axis, inside], rorigin = 0\<rparr>) [0..remainSize - 1])"

section \<open>One axis of a tensor\<close>

lemma flat_append: "length c = length P \<Longrightarrow> flat (P @ S) (c @ d) = flat P c * prod_list S + flat S d"
proof (induction P arbitrary: c)
  case (Cons n P)
  then obtain x c' where "c = x # c'" "length c' = length P" by (metis length_Suc_conv)
  with Cons show ?case by (simp add: algebra_simps)
qed simp

lemma coords_append: "length c = length P \<Longrightarrow> c @ d \<in> coords (P @ S) \<longleftrightarrow> c \<in> coords P \<and> d \<in> coords S"
  by (auto simp: coords_def list_all2_append)

lemma grid3:
  "(d, s) \<in> grid [(n0, d0, s0), (n1, d1, s1), (n2, d2, s2)] \<longleftrightarrow>
     (\<exists>z y x. 0 \<le> z \<and> z < n0 \<and> 0 \<le> y \<and> y < n1 \<and> 0 \<le> x \<and> x < n2 \<and>
        d = z * d0 + (y * d1 + x * d2) \<and> s = z * s0 + (y * s1 + x * s2))" (is "?L \<longleftrightarrow> ?R")
proof
  assume ?R
  then obtain z y x where r: "0 \<le> z" "z < n0" "0 \<le> y" "y < n1" "0 \<le> x" "x < n2"
    "d = z * d0 + (y * d1 + x * d2)" "s = z * s0 + (y * s1 + x * s2)" by blast
  have "(x * d2 + 0, x * s2 + 0) \<in> grid [(n2, d2, s2)]" using r by auto
  then have "(y * d1 + (x * d2 + 0), y * s1 + (x * s2 + 0)) \<in> grid [(n1, d1, s1), (n2, d2, s2)]"
    using r(3,4) by (subst grid.simps) blast
  then show ?L using r(1,2) unfolding r(7,8) add_0_right by (subst grid.simps) blast
qed auto

text \<open>
  The moves between a piece of extent \<open>n\<close> and the range that starts at \<open>off\<close> of a whole of extent \<open>A\<close>.
\<close>

definition shift_axis :: "nat \<Rightarrow> int \<Rightarrow> int list \<Rightarrow> int list" where
  "shift_axis a off c = c[a := off + c ! a]"

lemma axis_grid:
  assumes P: "\<And>x. x \<in> set P \<Longrightarrow> 0 \<le> x" and S: "\<And>x. x \<in> set S \<Longrightarrow> 0 \<le> x"
  shows "{(off * prod_list S + d, s) | d s. (d, s) \<in> grid [(prod_list P, prod_list S * A, prod_list S * n), (n, prod_list S, prod_list S), (prod_list S, 1, 1)]} =
    {(flat (P @ A # S) (shift_axis (length P) off c), flat (P @ n # S) c) | c. c \<in> coords (P @ n # S)}"
    (is "?L = ?R")
proof (intro set_eqI iffI)
  fix p assume "p \<in> ?L"
  then obtain z y x where zyx: "0 \<le> z" "z < prod_list P" "0 \<le> y" "y < n" "0 \<le> x" "x < prod_list S"
    and p: "p = (off * prod_list S + (z * (prod_list S * A) + (y * prod_list S + x)), z * (prod_list S * n) + (y * prod_list S + x))"
    by auto
  from flat_surj [OF zyx(1,2) P] obtain c where c: "c \<in> coords P" "flat P c = z" by auto
  from flat_surj [OF zyx(5,6) S] obtain d where d: "d \<in> coords S" "flat S d = x" by auto
  have len: "length c = length P" using coords_length [OF c(1)] .
  have "c @ y # d \<in> coords (P @ n # S)" using c d zyx len by (simp add: coords_append)
  moreover have "p = (flat (P @ A # S) (shift_axis (length P) off (c @ y # d)), flat (P @ n # S) (c @ y # d))"
    using c(2) d(2) len by (simp add: p shift_axis_def flat_append nth_append list_update_append algebra_simps)
  ultimately show "p \<in> ?R" by blast
next
  fix p assume "p \<in> ?R"
  then obtain c where c: "c \<in> coords (P @ n # S)"
    and p: "p = (flat (P @ A # S) (shift_axis (length P) off c), flat (P @ n # S) c)" by blast
  obtain u y d where e: "c = u @ y # d" "length u = length P"
    using coords_length [OF c] by (metis append_Cons append_Nil append_eq_append_conv id_take_nth_drop length_append
        length_take min.absorb2 nat_less_le less_add_Suc1 list.size(4) add_Suc_right le_add1)
  have m: "u \<in> coords P" "0 \<le> y" "y < n" "d \<in> coords S" using c e by (simp_all add: coords_append)
  have "p = (off * prod_list S + (flat P u * (prod_list S * A) + (y * prod_list S + flat S d)),
      flat P u * (prod_list S * n) + (y * prod_list S + flat S d))"
    using e by (simp add: p shift_axis_def flat_append nth_append list_update_append algebra_simps)
  moreover have "(flat P u * (prod_list S * A) + (y * prod_list S + flat S d),
      flat P u * (prod_list S * n) + (y * prod_list S + flat S d)) \<in>
      grid [(prod_list P, prod_list S * A, prod_list S * n), (n, prod_list S, prod_list S), (prod_list S, 1, 1)]"
    unfolding grid3 using m flat_bounds [OF m(1)] flat_bounds [OF m(4)]
    by (intro exI [of _ "flat P u"] exI [of _ y] exI [of _ "flat S d"]) simp
  ultimately show "p \<in> ?L" by blast
qed

lemma shift_axis_coords:
  assumes "c \<in> coords (P @ n # S)" and "0 \<le> off" and "off + n \<le> A"
  shows "shift_axis (length P) off c \<in> coords (P @ A # S)"
proof (rule coordsI)
  fix i assume i: "i < length (P @ A # S)"
  have "0 \<le> c ! i \<and> c ! i < (P @ n # S) ! i" using coords_nth [OF assms(1)] i by simp
  then show "0 \<le> shift_axis (length P) off c ! i \<and> shift_axis (length P) off c ! i < (P @ A # S) ! i"
    using assms(2,3) i coords_length [OF assms(1)] by (auto simp: shift_axis_def nth_list_update_if nth_append nth_Cons')
qed (use coords_length [OF assms(1)] in \<open>simp add: shift_axis_def\<close>)

lemma shift_axis_eq:
  assumes "shift_axis a off c = shift_axis a off c'" and "length c = length c'"
  shows "c = c'"
proof (cases "a < length c")
  case True
  have "c ! a = c' ! a" using arg_cong [OF assms(1), of "\<lambda>l. l ! a"] True assms(2) by (simp add: shift_axis_def)
  moreover have "c ! i = c' ! i" if "i \<noteq> a" for i
    using arg_cong [OF assms(1), of "\<lambda>l. l ! i"] that by (simp add: shift_axis_def nth_list_update_if)
  ultimately have "c ! i = c' ! i" for i by (cases "i = a") blast+
  then show ?thesis using assms(2) by (intro nth_equalityI) auto
qed (use assms in \<open>simp add: shift_axis_def list_update_beyond\<close>)

lemma shape_split: "a < ndim t \<Longrightarrow> shape t = take a (shape t) @ len_at t a # drop (Suc a) (shape t)"
  by (subst id_take_nth_drop [of a]) (simp_all add: shape_def)

lemma outer_prod: "outer_size t (int a) = prod_list (take a (shape t))" if "a < ndim t"
  using that by (simp add: outer_size_def fold_mult_prod shape_def take_map)

lemma inner_prod: "inner_size t (int a) = prod_list (drop (Suc a) (shape t))"
  by (simp add: inner_size_def fold_mult_prod shape_def drop_map nat_add_distrib)

section \<open>Joining\<close>

text \<open>The place of the pieces in the whole: they follow each other without a gap.\<close>

definition starts :: "nat \<Rightarrow> tensor list \<Rightarrow> nat \<Rightarrow> int" where
  "starts a ts i = sum_list (map (\<lambda>t. len_at t a) (take i ts))"

lemma starts_Suc: "i < length ts \<Longrightarrow> starts a ts (Suc i) = starts a ts i + len_at (ts ! i) a"
  by (simp add: starts_def take_Suc_conv_app_nth)

lemma starts_mono:
  assumes "\<forall>t \<in> set ts. 0 \<le> len_at t a" and "i < j" and "j \<le> length ts"
  shows "starts a ts i + len_at (ts ! i) a \<le> starts a ts j"
  using assms(2,3)
proof (induction j)
  case (Suc j)
  have "0 \<le> len_at (ts ! j) a" using assms(1) Suc.prems by simp
  then show ?case using Suc starts_Suc [of j ts a] by (cases "i = j") auto
qed simp

text \<open>The pieces of a whole along axis \<open>a\<close>: the same shape off the axis, and no size that overflows to zero.\<close>

definition pieces :: "nat \<Rightarrow> tensor \<Rightarrow> tensor list \<Rightarrow> bool" where
  "pieces a whole ts \<longleftrightarrow> a < ndim whole \<and> (\<forall>i < ndim whole. 0 \<le> len_at whole i) \<and>
     (\<forall>t \<in> set ts. shape t = (shape whole)[a := len_at t a] \<and> 0 \<le> len_at t a) \<and>
     len_at whole a = starts a ts (length ts)"

definition no_overflow :: "tensor \<Rightarrow> bool" where
  "no_overflow t \<longleftrightarrow> (elementSize t \<le> 0 \<longrightarrow> 0 \<in> set (shape t))"

lemma concat_region_loop:
  fixes R :: "nat \<Rightarrow> int \<Rightarrow> int \<Rightarrow> region"
  assumes "\<And>t. t \<in> set ts \<Longrightarrow> Z t \<Longrightarrow> f t = 0"
  shows "fst (fold (\<lambda>(i, t) (regs, off). if Z t then (regs, off) else (regs @ [R i off (f t)], off + f t)) (enumerate k ts) (rs, base)) =
    rs @ concat (map (\<lambda>i. if Z (ts ! i) then [] else [R (k + i) (base + sum_list (map f (take i ts))) (f (ts ! i))]) [0..<length ts])"
  using assms
proof (induction ts arbitrary: k rs base)
  case (Cons t ts)
  let ?g = "\<lambda>k base ts i. if Z (ts ! i) then [] else [R (k + i) (base + sum_list (map f (take i ts))) (f (ts ! i))]"
  have IH: "fst (fold (\<lambda>(i, t) (regs, off). if Z t then (regs, off) else (regs @ [R i off (f t)], off + f t)) (enumerate (Suc k) ts) (rs, base)) =
      rs @ concat (map (?g (Suc k) base ts) [0..<length ts])" for rs base
    by (rule Cons.IH) (use Cons.prems in simp)
  have tail: "map (?g k base (t # ts)) [Suc 0..<Suc (length ts)] = map (?g (Suc k) (base + f t) ts) [0..<length ts]"
    by (simp add: map_Suc_upt [symmetric] o_def add.assoc del: upt_Suc)
  have all: "map (?g k base (t # ts)) [0..<length (t # ts)] = ?g k base (t # ts) 0 # map (?g (Suc k) (base + f t) ts) [0..<length ts]"
    using tail by (simp add: upt_conv_Cons del: upt_Suc)
  show ?case
  proof (cases "Z t")
    case True
    then have "base + f t = base" using Cons.prems [of t] by simp
    then show ?thesis using True unfolding all by (simp only:) (simp add: IH)
  qed (unfold all, simp add: IH)
qed simp

lemma prod_list_pos_int: "(\<And>x. x \<in> set xs \<Longrightarrow> 0 < x) \<Longrightarrow> 0 < prod_list xs" for xs :: "int list"
  by (induction xs) auto

lemma concat_compute_eq:
  assumes ok: "pieces a output ts" and nov: "\<And>t. t \<in> set ts \<Longrightarrow> no_overflow t"
    and ax: "(if axis < 0 then dimensions output + axis else axis) = int a" and pos: "0 \<notin> set (shape output)"
  shows "concat_compute axis False ts output =
    concat (map (\<lambda>i. if elementSize (ts ! i) = 0 then [] else
      [concat_region i (starts a ts i) (prod_list (take a (shape output))) (len_at (ts ! i) a)
         (prod_list (drop (Suc a) (shape output))) (len_at output a)]) [0..<length ts])"
proof -
  have a: "a < ndim output" using ok by (simp add: pieces_def)
  have nonneg: "0 < x" if "x \<in> set (shape output)" for x
  proof -
    have "0 \<le> x" using that ok by (auto simp: pieces_def shape_def)
    moreover have "x \<noteq> 0" using that pos by blast
    ultimately show ?thesis by simp
  qed
  have P: "0 < prod_list (take a (shape output))" "0 < prod_list (drop (Suc a) (shape output))" "0 < len_at output a"
    using nonneg a by (auto intro!: prod_list_pos_int dest: in_set_takeD in_set_dropD simp: shape_def)
  have z: "len_at t a = 0" if t: "t \<in> set ts" "elementSize t = 0" for t
  proof -
    have "0 \<in> set ((shape output)[a := len_at t a])" using t nov [OF t(1)] ok by (auto simp: no_overflow_def pieces_def)
    then show ?thesis using pos set_update_subset_insert by fastforce
  qed
  show ?thesis
    unfolding concat_compute_def Let_def ax outer_prod [OF a] inner_prod nat_int
    using P concat_region_loop [where Z = "\<lambda>t. elementSize t = 0" and f = "\<lambda>t. len_at t a" and ts = ts and k = 0 and rs = "[]" and base = 0
        and R = "\<lambda>i off n. concat_region i off (prod_list (take a (shape output))) n (prod_list (drop (Suc a) (shape output))) (len_at output a)"] z
    by (simp add: starts_def cong: if_cong)
qed

lemma piece_shape:
  assumes "pieces a whole ts" and "t \<in> set ts"
  shows "shape t = take a (shape whole) @ len_at t a # drop (Suc a) (shape whole)"
  using assms by (simp add: pieces_def upd_conv_take_nth_drop shape_def)

lemma piece_nth: "pieces a whole ts \<Longrightarrow> t \<in> set ts \<Longrightarrow> shape t ! a = len_at t a"
  using piece_shape [of a whole ts t] by (simp add: pieces_def nth_append)

lemma whole_nonneg: "pieces a whole ts \<Longrightarrow> x \<in> set (take a (shape whole)) \<union> set (drop (Suc a) (shape whole)) \<Longrightarrow> 0 \<le> x"
  by (auto simp: pieces_def shape_def dest!: in_set_takeD in_set_dropD)

lemma region_concat_set:
  assumes "pieces a whole ts" and "t \<in> set ts"
  shows "region_set (concat_region i off (prod_list (take a (shape whole))) (len_at t a) (prod_list (drop (Suc a) (shape whole)))
      (len_at whole a)) = {(flat (shape whole) (shift_axis a off c), flat (shape t) c) | c. c \<in> coords (shape t)}"
proof -
  let ?P = "take a (shape whole)" and ?S = "drop (Suc a) (shape whole)"
  have a: "a < ndim whole" using assms(1) by (simp add: pieces_def)
  have len: "length ?P = a" using a by (simp add: shape_def)
  have "region_set (concat_region i off (prod_list ?P) (len_at t a) (prod_list ?S) (len_at whole a)) =
      {(off * prod_list ?S + d, s) | d s. (d, s) \<in>
        grid [(prod_list ?P, prod_list ?S * len_at whole a, prod_list ?S * len_at t a), (len_at t a, prod_list ?S, prod_list ?S),
          (prod_list ?S, 1, 1)]}"
    by (subst region_set_grid) (simp_all add: concat_region_def mult.commute del: grid.simps)
  also have "\<dots> = {(flat (?P @ len_at whole a # ?S) (shift_axis (length ?P) off c), flat (?P @ len_at t a # ?S) c) |
      c. c \<in> coords (?P @ len_at t a # ?S)}"
    by (rule axis_grid) (use whole_nonneg [OF assms(1)] in blast)+
  finally show ?thesis using shape_split [OF a] piece_shape [OF assms] len by simp
qed

lemma piece_coords:
  assumes ok: "pieces a whole ts" and i: "i < length ts" and c: "c \<in> coords (shape (ts ! i))"
  shows "shift_axis a (starts a ts i) c \<in> coords (shape whole)"
proof -
  have a: "a < ndim whole" and nn: "\<forall>t \<in> set ts. 0 \<le> len_at t a" and A: "len_at whole a = starts a ts (length ts)"
    using ok by (auto simp: pieces_def)
  have "0 \<le> starts a ts i"
    unfolding starts_def by (rule sum_list_nonneg) (use nn in \<open>auto dest: in_set_takeD\<close>)
  moreover have "starts a ts i + len_at (ts ! i) a \<le> len_at whole a" unfolding A using starts_mono [OF nn] i by blast
  ultimately show ?thesis
    using shift_axis_coords [of c "take a (shape whole)" "len_at (ts ! i) a" "drop (Suc a) (shape whole)" "starts a ts i" "len_at whole a"]
      c piece_shape [OF ok, of "ts ! i"] shape_split [OF a] i a by (simp add: shape_def)
qed

lemma tagged_concat: "set (tagged_moves (concat (map F is))) = (\<Union>i \<in> set is. set (tagged_moves (F i)))"
  by (auto simp: tagged_moves_def)

lemma tagged_single:
  "set (tagged_moves [r]) = (\<lambda>(d, s). (d, rorigin r, s)) ` region_set r" "set (tagged_moves []) = {}"
  by (simp_all add: tagged_moves_def region_set_def)

lemma concat_tagged:
  assumes ok: "pieces a whole ts" and nov: "\<And>t. t \<in> set ts \<Longrightarrow> no_overflow t"
    and ax: "(if axis < 0 then dimensions whole + axis else axis) = int a" and pos: "0 \<notin> set (shape whole)"
  shows "set (tagged_moves (concat_compute axis False ts whole)) =
    (\<lambda>(i, c). (flat (shape whole) (shift_axis a (starts a ts i) c), i, flat (shape (ts ! i)) c)) `
      {(i, c). i < length ts \<and> c \<in> coords (shape (ts ! i))}"
proof -
  have e: "concat_compute axis False ts whole =
      concat (map (\<lambda>i. if elementSize (ts ! i) = 0 then [] else
      [concat_region i (starts a ts i) (prod_list (take a (shape whole))) (len_at (ts ! i) a)
         (prod_list (drop (Suc a) (shape whole))) (len_at whole a)]) [0..<length ts])"
    by (rule concat_compute_eq [OF ok nov ax pos])
  have o: "rorigin (concat_region i off z n x A) = i" for i off z n x A by (simp add: concat_region_def)
  have "set (tagged_moves (concat_compute axis False ts whole)) =
      (\<Union>i \<in> {..<length ts}. (\<lambda>c. (flat (shape whole) (shift_axis a (starts a ts i) c), i, flat (shape (ts ! i)) c)) ` coords (shape (ts ! i)))"
    (is "?L = (\<Union>i \<in> _. ?F i)")
  proof -
    have "?L = (\<Union>i \<in> {..<length ts}. if elementSize (ts ! i) = 0 then {} else
        (\<lambda>(d, s). (d, i, s)) ` region_set (concat_region i (starts a ts i) (prod_list (take a (shape whole))) (len_at (ts ! i) a)
          (prod_list (drop (Suc a) (shape whole))) (len_at whole a)))"
      unfolding e tagged_concat by (intro SUP_cong) (auto simp: tagged_single o)
    also have "\<dots> = (\<Union>i \<in> {..<length ts}. ?F i)"
    proof (rule SUP_cong [OF refl])
      fix i assume "i \<in> {..<length ts}"
      then have t: "ts ! i \<in> set ts" by simp
      show "(if elementSize (ts ! i) = 0 then {} else
        (\<lambda>(d, s). (d, i, s)) ` region_set (concat_region i (starts a ts i) (prod_list (take a (shape whole))) (len_at (ts ! i) a)
          (prod_list (drop (Suc a) (shape whole))) (len_at whole a))) = ?F i"
      proof (cases "elementSize (ts ! i) = 0")
        case True
        then have "0 \<in> set (shape (ts ! i))" using nov [OF t] by (simp add: no_overflow_def)
        then have "coords (shape (ts ! i)) = {}" using coords_nonneg by fastforce
        then show ?thesis using True by simp
      next
        case False
        then show ?thesis unfolding region_concat_set [OF ok t] by auto
      qed
    qed
    finally show ?thesis .
  qed
  also have "\<dots> = (\<lambda>(i, c). (flat (shape whole) (shift_axis a (starts a ts i) c), i, flat (shape (ts ! i)) c)) `
      {(i, c). i < length ts \<and> c \<in> coords (shape (ts ! i))}" by force
  finally show ?thesis .
qed

lemma concat_inj:
  assumes ok: "pieces a whole ts"
  shows "inj_on (\<lambda>(i, c). flat (shape whole) (shift_axis a (starts a ts i) c)) {(i, c). i < length ts \<and> c \<in> coords (shape (ts ! i))}"
proof (rule inj_onI, clarify)
  fix i c j d assume i: "i < length ts" "c \<in> coords (shape (ts ! i))" and j: "j < length ts" "d \<in> coords (shape (ts ! j))"
    and eq: "flat (shape whole) (shift_axis a (starts a ts i) c) = flat (shape whole) (shift_axis a (starts a ts j) d)"
  have nn: "\<forall>t \<in> set ts. 0 \<le> len_at t a" using ok by (auto simp: pieces_def)
  have a: "a < ndim whole" using ok by (simp add: pieces_def)
  have len: "length (shape (ts ! k)) = ndim whole" if "k < length ts" for k
  proof -
    have "length (shape (ts ! k)) = length ((shape whole)[a := len_at (ts ! k) a])" using ok that by (auto simp: pieces_def)
    then show ?thesis by (simp add: shape_def)
  qed
  have lc: "length c = ndim whole" "length d = ndim whole"
    using coords_length [OF i(2)] coords_length [OF j(2)] len i(1) j(1) by simp_all
  have e: "shift_axis a (starts a ts i) c = shift_axis a (starts a ts j) d"
    by (rule flat_inj [OF piece_coords [OF ok i] piece_coords [OF ok j] eq])
  have r: "0 \<le> c ! a" "c ! a < len_at (ts ! i) a" "0 \<le> d ! a" "d ! a < len_at (ts ! j) a"
    using coords_nth [OF i(2), of a] coords_nth [OF j(2), of a] piece_nth [OF ok] i j a len
    by simp_all
  have v: "starts a ts i + c ! a = starts a ts j + d ! a"
    using arg_cong [OF e, of "\<lambda>l. l ! a"] a lc by (simp add: shift_axis_def)
  have "i = j"
  proof (rule ccontr)
    assume "i \<noteq> j"
    then consider "i < j" | "j < i" by linarith
    then show False
      using starts_mono [OF nn, where i = i and j = j] starts_mono [OF nn, where i = j and j = i] i j v r by cases simp_all
  qed
  then show "i = j \<and> c = d" using shift_axis_eq [of a "starts a ts i" c d] e lc by simp
qed

text \<open>
  C23. \<open>Concat\<close> puts the pieces one behind the other: the entry of the output at coordinates moved by the
  extents of the pieces before is the entry of the piece.
\<close>

theorem concat_correct:
  assumes ok: "pieces a output ts" and nov: "\<And>t. t \<in> set ts \<Longrightarrow> no_overflow t"
    and ax: "(if axis < 0 then dimensions output + axis else axis) = int a"
    and i: "i < length ts" and c: "c \<in> coords (shape (ts ! i))"
  shows "raster zero inputs (concat_compute axis False ts output)
      (flat (shape output) (shift_axis a (starts a ts i) c)) = inputs i (flat (shape (ts ! i)) c)"
proof -
  have pos: "0 \<notin> set (shape output)" using coords_nonneg [OF piece_coords [OF ok i c]] by fastforce
  have "(\<lambda>(i, c). (flat (shape output) (shift_axis a (starts a ts i) c), i, flat (shape (ts ! i)) c)) =
      (\<lambda>x. ((\<lambda>(i, c). flat (shape output) (shift_axis a (starts a ts i) c)) x, fst x, (\<lambda>(i, c). flat (shape (ts ! i)) c) x))" by auto
  from raster_tagged [OF concat_tagged [OF ok nov ax pos, unfolded this] concat_inj [OF ok], of "(i, c)"] i c
  show ?thesis by simp
qed

section \<open>Splitting\<close>

lemma slice_loop:
  fixes R :: "int \<Rightarrow> int \<Rightarrow> region list"
  shows "fst (fold (\<lambda>t (res, off). if Z then (res @ [[]], off) else (res @ [R off (f t)], off + f t)) ts (rs, base)) =
    rs @ map (\<lambda>i. if Z then [] else R (base + sum_list (map f (take i ts))) (f (ts ! i))) [0..<length ts]"
proof (induction ts arbitrary: rs base)
  case (Cons t ts)
  let ?S = "\<lambda>t (res, off). if Z then (res @ [[]], off) else (res @ [R off (f t)], off + f t)"
  let ?g = "\<lambda>base ts i. if Z then [] else R (base + sum_list (map f (take i ts))) (f (ts ! i))"
  have "fst (fold ?S (t # ts) (rs, base)) =
      fst (fold ?S ts (rs @ [if Z then [] else R base (f t)], if Z then base else base + f t))" by simp
  also have "\<dots> = rs @ (if Z then [] else R base (f t)) # map (?g (if Z then base else base + f t) ts) [0..<length ts]"
    unfolding Cons by simp
  also have "\<dots> = rs @ map (?g base (t # ts)) [0..<length (t # ts)]"
    by (simp add: upt_conv_Cons map_Suc_upt [symmetric] o_def add.assoc del: upt_Suc)
  finally show ?case .
qed simp

lemma grid_converse: "grid (map (\<lambda>(n, d, s). (n, s, d)) ds) = prod.swap ` grid ds"
proof (induction ds rule: grid.induct)
  case (2 n a b ds)
  then show ?case by (auto simp: image_iff) force+
qed simp

lemma region_slice_set:
  assumes "pieces a whole ts" and "t \<in> set ts"
  shows "region_set (slice_region off (prod_list (take a (shape whole))) (len_at t a) (prod_list (drop (Suc a) (shape whole)))
      (len_at whole a)) = {(flat (shape t) c, flat (shape whole) (shift_axis a off c)) | c. c \<in> coords (shape t)}"
proof -
  let ?P = "prod_list (take a (shape whole))" and ?S = "prod_list (drop (Suc a) (shape whole))"
  let ?D = "[(?P, ?S * len_at whole a, ?S * len_at t a), (len_at t a, ?S, ?S), (?S, 1, 1)]"
  have "region_set (slice_region off ?P (len_at t a) ?S (len_at whole a)) =
      {(d, off * ?S + s) | d s. (d, s) \<in> grid (map (\<lambda>(n, d, s). (n, s, d)) ?D)}"
    by (subst region_set_grid) (simp_all add: slice_region_def mult.commute del: grid.simps)
  also have "\<dots> = prod.swap ` {(off * ?S + d, s) | d s. (d, s) \<in> grid ?D}"
    unfolding grid_converse by (force simp del: grid.simps)
  also have "{(off * ?S + d, s) | d s. (d, s) \<in> grid ?D} = region_set (concat_region 0 off ?P (len_at t a) ?S (len_at whole a))"
    by (subst region_set_grid) (simp_all add: concat_region_def mult.commute del: grid.simps)
  finally show ?thesis unfolding region_concat_set [OF assms] by force
qed

text \<open>
  C24. \<open>Slice\<close> cuts the pieces out of the input: entry by entry, each output is the range of the input that
  starts where the pieces before it end.
\<close>

theorem slice_correct:
  assumes ok: "pieces a input outs" and nov: "no_overflow input"
    and ax: "(if axis < 0 then axis + dimensions input else axis) = int a"
    and i: "i < length outs" and c: "c \<in> coords (shape (outs ! i))"
  shows "raster zero inputs (slice_compute axis False input outs ! i) (flat (shape (outs ! i)) c) =
     inputs 0 (flat (shape input) (shift_axis a (starts a outs i) c))"
proof -
  have a: "a < ndim input" using ok by (simp add: pieces_def)
  let ?R = "\<lambda>off n. [slice_region off (prod_list (take a (shape input))) n (prod_list (drop (Suc a) (shape input))) (len_at input a)]"
  have "0 \<notin> set (shape input)" using coords_nonneg [OF piece_coords [OF ok i c]] by fastforce
  then have z: "\<not> elementSize input \<le> 0" using nov by (auto simp: no_overflow_def)
  have "slice_compute axis False input outs ! i = ?R (starts a outs i) (len_at (outs ! i) a)"
    unfolding slice_compute_def Let_def ax outer_prod [OF a] inner_prod nat_int
    using slice_loop [where Z = False and f = "\<lambda>t. len_at t a" and ts = outs and rs = "[]" and base = 0 and R = ?R] i z
    by (simp add: starts_def cong: if_cong)
  note e = this
  have t: "outs ! i \<in> set outs" using i by simp
  have cov: "(\<Union>r \<in> set (?R (starts a outs i) (len_at (outs ! i) a)). region_set r) =
      {(flat (shape (outs ! i)) c, flat (shape input) (shift_axis a (starts a outs i) c)) | c. c \<in> coords (shape (outs ! i))}"
    using region_slice_set [OF ok t] by simp
  have inj: "inj_on (flat (shape (outs ! i))) (coords (shape (outs ! i)))" using flat_inj by (blast intro: inj_onI)
  show ?thesis unfolding e
    by (rule raster_graph [OF cov inj _ c]) (simp add: slice_region_def)
qed

text \<open>
  C25. Joining what was split gives the input back, for every axis and every way to cut it.
\<close>

theorem concat_slice_roundtrip:
  assumes ok: "pieces a whole ts" and nov: "\<And>t. t \<in> set ts \<Longrightarrow> no_overflow t" and novw: "no_overflow whole"
    and ax: "(if axis < 0 then dimensions whole + axis else axis) = int a" and c: "c \<in> coords (shape whole)"
  shows "raster zero (\<lambda>i. raster zero (\<lambda>_. data) (slice_compute axis False whole ts ! i)) (concat_compute axis False ts whole)
      (flat (shape whole) c) = data (flat (shape whole) c)"
proof -
  have a: "a < ndim whole" and A: "len_at whole a = starts a ts (length ts)" and nn: "\<forall>t \<in> set ts. 0 \<le> len_at t a"
    using ok by (auto simp: pieces_def)
  have ca: "0 \<le> c ! a" "c ! a < starts a ts (length ts)" using coords_nth [OF c, of a] a A by (simp_all add: shape_def)
  have "\<exists>i < length ts. starts a ts i \<le> c ! a \<and> c ! a < starts a ts (Suc i)"
    if "k \<le> length ts" "c ! a < starts a ts k" for k
    using that
  proof (induction k)
    case (Suc k)
    then show ?case by (cases "c ! a < starts a ts k") (auto intro: exI [of _ k])
  qed (use ca in \<open>simp add: starts_def\<close>)
  from this [OF order_refl ca(2)] obtain i where i: "i < length ts" "starts a ts i \<le> c ! a" "c ! a < starts a ts (Suc i)" by blast
  define d where "d = c[a := c ! a - starts a ts i]"
  have len: "length c = ndim whole" using coords_length [OF c] by simp
  have t: "ts ! i \<in> set ts" using i by simp
  have bk: "shift_axis a (starts a ts i) d = c" using a len by (simp add: shift_axis_def d_def)
  have sh: "shape (ts ! i) = (shape whole)[a := len_at (ts ! i) a]" using ok t by (simp add: pieces_def)
  have "d \<in> coords (shape (ts ! i))"
  proof (rule coordsI)
    show "length d = length (shape (ts ! i))" using sh len by (simp add: d_def) 
  next
    fix j assume j: "j < length (shape (ts ! i))"
    then have "j < length (shape whole)" using sh by simp
    from coords_nth [OF c this] show "0 \<le> d ! j \<and> d ! j < shape (ts ! i) ! j"
      using i starts_Suc [OF i(1), of a] len \<open>j < length (shape whole)\<close> a
      by (auto simp: d_def sh nth_list_update_if)
  qed
  note d = this
  have ax': "(if axis < 0 then axis + dimensions whole else axis) = int a" using ax by (simp split: if_splits)
  show ?thesis
    using concat_correct [OF ok nov ax i(1) d, of zero "\<lambda>i. raster zero (\<lambda>_. data) (slice_compute axis False whole ts ! i)"]
      slice_correct [OF ok novw ax' i(1) d, of zero "\<lambda>_. data"] bk by simp
qed

section \<open>A window of the input\<close>

lemma dense_dims_append:
  "dense_dims (P @ Q) = map (\<lambda>(n, d, s). (n, d * prod_list (map fst Q), s)) (dense_dims P) @ dense_dims Q"
proof (induction P)
  case (Cons p P)
  then show ?case by (cases p) simp
qed simp

lemma dense_dims_units: "grid (dense_dims (filter (\<lambda>p. fst p \<noteq> 1) P)) = grid (dense_dims P) \<and>
    prod_list (map fst (filter (\<lambda>p. fst p \<noteq> 1) P)) = prod_list (map fst P)"
proof (induction P)
  case (Cons p P)
  obtain n s where p: "p = (n, s)" by (cases p)
  show ?case
  proof (cases "n = 1")
    case True
    then show ?thesis using Cons by (simp add: p grid_unit del: grid.simps)
  next
    case False
    then show ?thesis using Cons grid_Cons_cong [OF conjunct1 [OF Cons]] by (simp add: p del: grid.simps)
  qed
qed simp

lemma scale_dims:
  "map fst (map (\<lambda>(n, d, s). (n, d * k, s)) X) = map fst X"
  "map (fst \<circ> snd) (map (\<lambda>(n, d, s). (n, d * k, s)) X) = map (\<lambda>x. x * k) (map (fst \<circ> snd) X)"
  "map (snd \<circ> snd) (map (\<lambda>(n, d, s). (n, d * k, s)) X) = map (snd \<circ> snd) X" for k :: int
  by (auto simp: case_prod_unfold)

lemma lin_scale: "lin (map (\<lambda>x. x * k) strs) c = k * lin strs c"
proof (induction strs arbitrary: c)
  case (Cons x strs)
  then show ?case by (cases c) (simp_all add: algebra_simps)
qed simp

lemma lin_add: "length a = length b \<Longrightarrow> lin strs (map2 (+) a b) = lin strs a + lin strs b"
proof (induction strs arbitrary: a b)
  case (Cons x strs)
  then show ?case by (cases a; cases b) (simp_all add: algebra_simps)
qed simp

lemma flat_unravel:
  assumes "\<And>n. n \<in> set ns \<Longrightarrow> 0 \<le> n" and "0 \<le> k" and "k < prod_list ns"
  shows "flat ns (unravelIndexHelper (dense_strides ns) k) = k"
  using flat_surj [OF assms(2,3)] assms(1) unravel_flat by auto

definition last_dim :: "(int \<times> int) list \<Rightarrow> nat \<Rightarrow> int \<times> int" where
  "last_dim dims k = (if k \<le> length dims then dims ! (length dims - k) else (1, 0))"

lemma last_dims_grid:
  fixes dims :: "(int \<times> int) list"
  defines "D \<equiv> take (length dims - 3) dims"
  assumes "last_dim dims 3 = (n3, s3)" and "last_dim dims 2 = (n2, s2)" and "last_dim dims 1 = (n1, s1)"
  shows "grid (map (\<lambda>(n, d, s). (n, d * (n3 * n2 * n1), s)) (dense_dims D) @ [(n3, n2 * n1, s3), (n2, n1, s2), (n1, 1, s1)]) =
    grid (dense_dims dims)"
proof (cases "3 \<le> length dims")
  case True
  define m where "m = length dims - 3"
  have m: "length dims = Suc (Suc (Suc m))" using True by (simp add: m_def)
  then have "drop m dims = [dims ! m, dims ! Suc m, dims ! Suc (Suc m)]"
    using Cons_nth_drop_Suc [of m dims] Cons_nth_drop_Suc [of "Suc m" dims] Cons_nth_drop_Suc [of "Suc (Suc m)" dims] by simp
  then have "dims = D @ [(n3, s3), (n2, s2), (n1, s1)]"
    using assms append_take_drop_id [of m dims] by (simp add: D_def last_dim_def m)
  then have "dense_dims dims = dense_dims (D @ [(n3, s3), (n2, s2), (n1, s1)])" by simp
  then show ?thesis by (simp add: dense_dims_append mult.assoc del: grid.simps)
next
  case False
  then have D: "D = []" by (simp add: D_def)
  consider "dims = []" | x where "dims = [x]" | x y where "dims = [x, y]"
    using False by (cases dims; cases "tl dims"; cases "tl (tl dims)") auto
  then show ?thesis
    by cases (use assms(2-4) in \<open>simp_all add: D last_dim_def grid_unit del: grid.simps\<close>)
qed

text \<open>The strides of the input as the loop from the back computes them.\<close>

lemma sliceTf_strides:
  "map (\<lambda>i. fold (\<lambda>v n. n * len_at t v) [i + 1..<ndim t] 1) [0..<ndim t] = dense_strides (shape t)"
  by (rule nth_equalityI) (simp_all add: nth_dense_strides fold_mult_prod shape_def drop_map)

lemma sliceTf_cover:
  assumes rank: "ndim output = ndim input" and pos: "\<And>i. i < ndim output \<Longrightarrow> 0 \<le> len_at output i"
    and st: "begins = map (\<lambda>i. if begin ! i < 0 then begin ! i + len_at input i else begin ! i) [0..<ndim input]"
  shows "(\<Union>r \<in> set (sliceTf_compute begin input output). region_set r) =
    {(flat (shape output) c, flat (shape input) (map2 (+) begins c)) | c. c \<in> coords (shape output)}"
proof -
  let ?str = "dense_strides (shape input)"
  define all where "all = map (\<lambda>i. (len_at output i, ?str ! i)) [0..<ndim output]"
  define dims where "dims = map (\<lambda>i. (len_at output i, ?str ! i)) (filter (\<lambda>i. len_at output i \<noteq> 1) [0..<ndim output])"
  have dims: "dims = filter (\<lambda>p. fst p \<noteq> 1) all" by (simp add: dims_def all_def filter_map o_def)
  obtain n3 s3 where e3: "last_dim dims 3 = (n3, s3)" by fastforce
  obtain n2 s2 where e2: "last_dim dims 2 = (n2, s2)" by fastforce
  obtain n1 s1 where e1: "last_dim dims 1 = (n1, s1)" by fastforce
  define D where "D = take (length dims - 3) dims"
  define D3 where "D3 = map (\<lambda>(n, d, s). (n, d * (n3 * n2 * n1), s)) (dense_dims D)"
  have m: "map (\<lambda>i. prod_list (map fst (drop (Suc i) D))) [0..<length D] = dense_strides (map fst D)"
    by (simp add: dense_strides_def drop_map)
  have fD: "map fst D3 = map fst D" "map (fst \<circ> snd) D3 = map (\<lambda>x. x * (n3 * n2 * n1)) (dense_strides (map fst D))"
      "map (snd \<circ> snd) D3 = map snd D"
    unfolding D3_def scale_dims dense_dims_axes(2,3) map_fst_dense_dims by (rule refl)+
  have nonneg: "0 \<le> n" if "n \<in> set (map fst D)" for n
    using that pos by (auto simp: D_def dims_def dest!: in_set_takeD)
  define mk where "mk = (\<lambda>indice. \<lparr>rsrc = \<lparr>voffset = lin (map snd D) (unravelIndexHelper (dense_strides (map fst D)) indice) + lin ?str begins,
        vstride = [s3 * 1, s2 * 1, s1 * 1]\<rparr>,
      rdst = \<lparr>voffset = indice * n3 * n2 * n1, vstride = [n2 * n1, n1, 1]\<rparr>, rsize = [n3, n2, n1], rorigin = 0\<rparr>)"
  have regs: "sliceTf_compute begin input output = map mk [0..prod_list (map fst D3) - 1]"
    unfolding sliceTf_compute_def sliceTf_strides Let_def st [symmetric] dims_def [symmetric] last_dim_def [symmetric] e1 e2 e3
      D_def [symmetric] prod.case m mk_def fD ..
  have "(\<Union>r \<in> set (sliceTf_compute begin input output). region_set r) =
      {(0 + d, lin ?str begins + s) | d s. (d, s) \<in> grid (D3 @ [(n3, n2 * n1, s3), (n2, n1, s2), (n1, 1, s1)])}"
  proof (rule regions_cover [OF regs])
    fix k assume k: "0 \<le> k" "k < prod_list (map fst D3)"
    show "voffset (rdst (mk k)) = 0 + lin (map (fst \<circ> snd) D3) (unravelIndexHelper (dense_strides (map fst D3)) k)"
      using flat_unravel [of "map fst D" k] nonneg k unfolding fD lin_scale by (simp add: mk_def)
  qed (use nonneg in \<open>auto simp: mk_def fD set_map [symmetric] simp del: set_map\<close>)
  also have "\<dots> = {(d, lin ?str begins + s) | d s. (d, s) \<in> grid (dense_dims all)}"
    using last_dims_grid [OF e3 e2 e1, folded D_def, folded D3_def] dense_dims_units [of all, folded dims] by simp
  also have "\<dots> = {(flat (shape output) c, lin ?str begins + lin ?str c) | c. c \<in> coords (shape output)}"
  proof -
    have f: "map fst all = shape output" "map snd all = ?str"
      using rank by (auto simp: all_def shape_def o_def intro!: nth_equalityI)
    show ?thesis unfolding grid_coords dense_dims_axes map_fst_dense_dims f by blast
  qed
  also have "\<dots> = {(flat (shape output) c, flat (shape input) (map2 (+) begins c)) | c. c \<in> coords (shape output)}"
  proof -
    have "flat (shape input) begins + flat (shape input) c = flat (shape input) (map2 (+) begins c)"
      if "c \<in> coords (shape output)" for c
      by (rule lin_add [symmetric]) (use coords_length [OF that] rank st in simp)
    then show ?thesis by force
  qed
  finally show ?thesis .
qed

text \<open>
  C26. \<open>SliceTf\<close> cuts a window out of its input: the entry at coordinates \<open>c\<close> is the entry of the input at
  \<open>c\<close> moved by the begins, where a negative begin counts from the end.
\<close>

theorem sliceTf_correct:
  assumes rank: "ndim output = ndim input" and pos: "\<And>i. i < ndim output \<Longrightarrow> 0 \<le> len_at output i"
    and c: "c \<in> coords (shape output)"
  shows "raster zero inputs (sliceTf_compute begin input output) (flat (shape output) c) =
    inputs 0 (flat (shape input)
      (map2 (+) (map (\<lambda>i. if begin ! i < 0 then begin ! i + len_at input i else begin ! i) [0..<ndim input]) c))"
proof -
  have o: "rorigin r = 0" if "r \<in> set (sliceTf_compute begin input output)" for r
    using that by (auto simp: sliceTf_compute_def Let_def split: prod.splits)
  have inj: "inj_on (flat (shape output)) (coords (shape output))" using flat_inj by (blast intro: inj_onI)
  show ?thesis by (rule raster_graph [OF sliceTf_cover [OF rank pos refl] inj o c])
qed

section \<open>Examples\<close>

definition demo_whole :: tensor where "demo_whole = setShape [2, 5, 3] (new_tensor 3 NCHW)"
definition demo_pieces :: "tensor list" where
  "demo_pieces = [setShape [2, 2, 3] (new_tensor 3 NCHW), setShape [2, 3, 3] (new_tensor 3 NCHW)]"

lemma demo_split:
  "pieces 1 demo_whole demo_pieces" "\<forall>t \<in> set demo_pieces. no_overflow t" "no_overflow demo_whole"
  "dimensions demo_whole = 3" "shape demo_whole = [2, 5, 3]" "shape (demo_pieces ! 1) = [2, 3, 3]" "starts 1 demo_pieces 1 = 2"
  by code_simp+

lemma concat_correct_witness:
  "raster (- 1) demo_data (concat_compute (- 2) False demo_pieces demo_whole) 21 = demo_data 1 9"
  using concat_correct [OF demo_split(1), of "- 2" 1 "[1, 0, 0]" "- 1" demo_data] demo_split
  by (simp add: shift_axis_def demo_pieces_def)

lemma slice_correct_witness:
  "raster (- 1) demo_data (slice_compute 1 False demo_whole demo_pieces ! 1) 9 = demo_data 0 21"
  using slice_correct [OF demo_split(1,3), of 1 1 "[1, 0, 0]" "- 1" demo_data] demo_split
  by (simp add: shift_axis_def demo_pieces_def)

lemma concat_slice_roundtrip_witness:
  "raster (- 1) (\<lambda>i. raster (- 1) (\<lambda>_. (demo_data 0)) (slice_compute 1 False demo_whole demo_pieces ! i))
     (concat_compute 1 False demo_pieces demo_whole) 21 = (demo_data 0) 21"
  using concat_slice_roundtrip [OF demo_split(1) _ demo_split(3), of 1 "[1, 2, 0]" "- 1" "demo_data 0"] demo_split by simp

lemma sliceTf_correct_witness:
  "raster (- 1) demo_data (sliceTf_compute [1, - 3, 0] demo_whole (setShape [1, 2, 3] (new_tensor 3 NCHW))) 4 = demo_data 0 25"
proof -
  have s: "shape (setShape [1, 2, 3] (new_tensor 3 NCHW)) = [1, 2, 3]" "dimensions (setShape [1, 2, 3] (new_tensor 3 NCHW)) = 3"
     by code_simp+
  have "\<forall>i < 3. 0 \<le> len_at (setShape [1, 2, 3] (new_tensor 3 NCHW)) i" by code_simp
  moreover have "len_at demo_whole 1 = 5" by code_simp
  then have "map (\<lambda>i. if [1, - 3, 0 :: int] ! i < 0 then [1, - 3, 0] ! i + len_at demo_whole i else [1, - 3, 0] ! i)
      [0..<ndim demo_whole] = [1, 2, 0]"
    by (simp add: demo_split(4) upt_rec)
  ultimately show ?thesis
    using sliceTf_correct [of "setShape [1, 2, 3] (new_tensor 3 NCHW)" demo_whole "[0, 1, 1]" "- 1" demo_data "[1, - 3, 0]"] demo_split(4,5) s
    by (simp only: s) simp
qed

end
