(* ===== verification/Geometry_Convert.thy ===== *)
theory Geometry_Convert
  imports Geometry_Split
begin

text \<open>
  Changing the layout of a tensor: \<open>ConvertUtils::compute\<close> of \<open>source/geometry/ConvertUtils.cpp\<close>, the
  reshape through \<open>NHWC\<close> of \<open>source/geometry/GeometryReshape.cpp\<close>, and \<open>GeometryDepthToSpace\<close> of
  \<open>source/geometry/GeometryDepthToSpace.cpp\<close> (\<open>DepthToSpace\<close> and \<open>SpaceToDepth\<close>).
\<close>

section \<open>The model\<close>

definition plain_format :: "data_format \<Rightarrow> data_format" where
  "plain_format f = (if f = NC4HW4 then NCHW else f)"

definition convert_swap :: "region \<Rightarrow> region" where
  "convert_swap r =
     r\<lparr>rsrc := (rsrc r)\<lparr>vstride := [vstride (rsrc r) ! 0, vstride (rsrc r) ! 2, vstride (rsrc r) ! 1]\<rparr>,
       rsize := [rsize r ! 0, rsize r ! 2, rsize r ! 1],
       rdst := (rdst r)\<lparr>vstride := [vstride (rdst r) ! 0, rsize r ! 1, 1]\<rparr>\<rparr>"

definition convert_compute :: "nat \<Rightarrow> tensor \<Rightarrow> data_format \<Rightarrow> region list" where
  "convert_compute k input outFormat =
     (let inputFormat = plain_format (dimensionFormat input);
          outputFormat = plain_format outFormat;
          slice = makeFullSlice k input;
          inside = width input * height input;
          axis = channel input;
          outside = batch input;
          reshape = (\<lambda>r. if inputFormat = NCHW then reshapeSlice r outside inside axis
                         else reshapeSlice r outside axis inside)
      in if inputFormat = outputFormat \<or> dimensions input = 2 then [slice]
         else (let (canReshape, inp) = reshape slice
               in if canReshape then [convert_swap inp] else [convert_swap (snd (reshape slice))]))"

text \<open>
  \<open>Reshape\<close> of a packed tensor whose extents are meant in \<open>NHWC\<close> order: the regions of the two
  conversions, for the tensors \<open>nhwc\<close> and \<open>nhwc2\<close> on the way; everything else is a plain reference.
\<close>

definition reshape_compute ::
  "data_format \<Rightarrow> tensor \<Rightarrow> tensor \<Rightarrow> region list + (region list \<times> region list)" where
  "reshape_compute midFormat input output =
     (if dimensionFormat input = NC4HW4 \<and> midFormat = NHWC then
        (let nhwc = setupTensorInfo input (new_tensor 4 NCHW) NHWC;
             slice = convert_compute 0 input (dimensionFormat nhwc);
             nhwc2 = setupTensorInfo output (new_tensor 4 NCHW) NHWC
         in Inr (if slice = [] then [makeFullSlice 0 nhwc] else slice, convert_compute 0 nhwc2 (dimensionFormat output)))
      else Inl (makeFullRef 0 input None))"

datatype depth_mode = DCR | CRD

definition depth_strides :: "data_format \<Rightarrow> int \<Rightarrow> int \<Rightarrow> int \<Rightarrow> int list" where
  "depth_strides fmt h w c = (if fmt = NHWC then [w * h * c, 1, w * c, c] else [w * h * c, w * h, w, 1])"

text \<open>
  The regions of \<open>DepthToSpace\<close>; \<open>small\<close> is the tensor with the deep channels and \<open>large\<close> the one with
  the large image. \<open>SpaceToDepth\<close> swaps the two views.
\<close>

definition depthToSpace_compute :: "bool \<Rightarrow> int \<Rightarrow> depth_mode \<Rightarrow> data_format \<Rightarrow> tensor \<Rightarrow> tensor \<Rightarrow> region list" where
  "depthToSpace_compute spaceToDepth blockSize mode fmt input0 output0 =
     (let (input, output) = (if spaceToDepth then (output0, input0) else (input0, output0));
          inS = depth_strides fmt (height input) (width input) (channel input);
          outS = depth_strides fmt (height output) (width output) (channel output)
      in concat (map (\<lambda>b. concat (map (\<lambda>hb. map (\<lambda>wb.
           (let dstWB = b * outS ! 0 + hb * outS ! 2 + wb * outS ! 3;
                offsetC = (hb * blockSize + wb) * (if mode = DCR then channel output else 1);
                srcWB = b * inS ! 0 + offsetC * inS ! 1;
                dstR = \<lparr>voffset = dstWB, vstride = [outS ! 2 * blockSize, outS ! 3 * blockSize, outS ! 1]\<rparr>;
                srcR = \<lparr>voffset = srcWB, vstride = [inS ! 2, inS ! 3,
                         (if mode = CRD then inS ! 1 * (blockSize * blockSize) else inS ! 1)]\<rparr>
            in \<lparr>rsrc = (if spaceToDepth then dstR else srcR), rdst = (if spaceToDepth then srcR else dstR),
                rsize = [height input, width input, channel output], rorigin = 0\<rparr>))
           [0..blockSize - 1]) [0..blockSize - 1])) [0..batch input - 1]))"

section \<open>Conversion between channel orders\<close>

lemma swap_region_set:
  assumes n: "0 \<le> n" and c: "0 \<le> c" and p: "0 \<le> p" and v: "prod_list (shape t) = n * p * c"
    and r: "r = convert_swap (snd (reshapeSlice (makeFullSlice k t) n p c))"
  shows "region_set r = grid [(n, p * c, c * p), (p, c, 1), (c, 1, p)]"
proof -
  have full: "makeFullSlice k t = \<lparr>rsrc = \<lparr>voffset = 0, vstride = [n * p * c, n * p * c, 1]\<rparr>,
      rdst = \<lparr>voffset = 0, vstride = [n * p * c, n * p * c, 1]\<rparr>, rsize = [1, 1, n * p * c], rorigin = k\<rparr>"
    by (simp add: makeFullSlice_def fold_mult_prod shape_def [symmetric] v Let_def)
  have "r = \<lparr>rsrc = \<lparr>voffset = 0, vstride = [1 * p * c, 1, 1 * p]\<rparr>, rdst = \<lparr>voffset = 0, vstride = [p * c, c, 1]\<rparr>,
      rsize = [n, p, c], rorigin = k\<rparr>"
    by (simp add: r full reshapeSlice_def convert_swap_def)
  then show ?thesis by (subst region_set_grid) (simp_all add: mult.commute del: grid.simps)
qed

text \<open>The entries of an image batch in the two orders.\<close>

definition image_coords :: "int \<Rightarrow> int \<Rightarrow> int \<Rightarrow> int \<Rightarrow> (int \<times> int \<times> int \<times> int) set" where
  "image_coords N C H W = {(a, k, y, x). 0 \<le> a \<and> a < N \<and> 0 \<le> k \<and> k < C \<and> 0 \<le> y \<and> y < H \<and> 0 \<le> x \<and> x < W}"

definition nchw :: "int \<Rightarrow> int \<Rightarrow> int \<Rightarrow> int \<times> int \<times> int \<times> int \<Rightarrow> int" where
  "nchw C H W = (\<lambda>(a, k, y, x). a * (C * H * W) + k * (H * W) + y * W + x)"

definition nhwc :: "int \<Rightarrow> int \<Rightarrow> int \<Rightarrow> int \<times> int \<times> int \<times> int \<Rightarrow> int" where
  "nhwc C H W = (\<lambda>(a, k, y, x). a * (H * W * C) + y * (W * C) + x * C + k)"

lemma nchw_flat: "nchw C H W (a, k, y, x) = flat [N, C, H, W] [a, k, y, x]"
  and nhwc_flat: "nhwc C H W (a, k, y, x) = flat [N, H, W, C] [a, y, x, k]"
  by (simp_all add: nchw_def nhwc_def algebra_simps)

lemma nchw_inj: "inj_on (nchw C H W) (image_coords N C H W)"
proof (rule inj_onI)
  fix p q assume p: "p \<in> image_coords N C H W" "q \<in> image_coords N C H W" "nchw C H W p = nchw C H W q"
  obtain a k y x a' k' y' x' where e: "p = (a, k, y, x)" "q = (a', k', y', x')" by (metis prod_cases4)
  have "[a, k, y, x] = [a', k', y', x']"
    by (rule flat_inj [of _ "[N, C, H, W]"]) (use p in \<open>simp_all add: e image_coords_def nchw_flat [of _ _ _ _ _ _ _ N]\<close>)
  then show "p = q" by (simp add: e)
qed

lemma nhwc_inj: "inj_on (nhwc C H W) (image_coords N C H W)"
proof (rule inj_onI)
  fix p q assume p: "p \<in> image_coords N C H W" "q \<in> image_coords N C H W" "nhwc C H W p = nhwc C H W q"
  obtain a k y x a' k' y' x' where e: "p = (a, k, y, x)" "q = (a', k', y', x')" by (metis prod_cases4)
  have "[a, y, x, k] = [a', y', x', k']"
    by (rule flat_inj [of _ "[N, H, W, C]"]) (use p in \<open>simp_all add: e image_coords_def nhwc_flat [of _ _ _ _ _ _ _ N]\<close>)
  then show "p = q" by (simp add: e)
qed

lemma layout_grid:
  assumes "0 \<le> W"
  shows "grid [(N, H * W * C, C * (H * W)), (H * W, C, 1), (C, 1, H * W)] =
    {(nhwc C H W p, nchw C H W p) | p. p \<in> image_coords N C H W}"
proof -
  have "grid [(N, H * W * C, C * (H * W)), (H * W, C, 1), (C, 1, H * W)] =
      grid [(N, H * W * C, C * (H * W)), (H, W * C, W * 1), (W, C, 1), (C, 1, H * W)]"
    using grid_append_cong [OF grid_fuse [OF assms, of H C 1 "[(C, 1, H * W)]"], of "[(N, H * W * C, C * (H * W))]"]
    by (simp del: grid.simps)
  also have "\<dots> = {(nhwc C H W p, nchw C H W p) | p. p \<in> image_coords N C H W}"
  proof (intro set_eqI iffI)
    fix e assume "e \<in> grid [(N, H * W * C, C * (H * W)), (H, W * C, W * 1), (W, C, 1), (C, 1, H * W)]"
    then obtain a y x k where "0 \<le> a" "a < N" "0 \<le> y" "y < H" "0 \<le> x" "x < W" "0 \<le> k" "k < C"
      "e = (a * (H * W * C) + (y * (W * C) + (x * C + k * 1)), a * (C * (H * W)) + (y * (W * 1) + (x * 1 + k * (H * W))))" by auto
    then show "e \<in> {(nhwc C H W p, nchw C H W p) | p. p \<in> image_coords N C H W}"
      by (intro CollectI exI [of _ "(a, k, y, x)"]) (simp add: image_coords_def nchw_def nhwc_def)
  next
    fix e assume "e \<in> {(nhwc C H W p, nchw C H W p) | p. p \<in> image_coords N C H W}"
    then obtain a k y x where r: "0 \<le> a" "a < N" "0 \<le> y" "y < H" "0 \<le> x" "x < W" "0 \<le> k" "k < C"
      and e: "e = (nhwc C H W (a, k, y, x), nchw C H W (a, k, y, x))" by (auto simp: image_coords_def)
    have "[a, y, x, k] \<in> coords (map fst [(N, H * W * C, C * (H * W)), (H, W * C, W * 1), (W, C, 1), (C, 1, H * W)])"
      using r by simp
    then have "(lin [H * W * C, W * C, C, 1] [a, y, x, k], lin [C * (H * W), W * 1, 1, H * W] [a, y, x, k]) \<in>
        grid [(N, H * W * C, C * (H * W)), (H, W * C, W * 1), (W, C, 1), (C, 1, H * W)]"
      unfolding grid_coords by (intro CollectI exI [of _ "[a, y, x, k]"]) simp
    then show "e \<in> grid [(N, H * W * C, C * (H * W)), (H, W * C, W * 1), (W, C, 1), (C, 1, H * W)]"
      unfolding e nchw_def nhwc_def by (simp add: algebra_simps del: grid.simps)
  qed
  finally show ?thesis .
qed

lemma layout_grid_back:
  assumes "0 \<le> W"
  shows "grid [(N, C * (H * W), H * W * C), (C, H * W, 1), (H * W, 1, C)] =
    {(nchw C H W p, nhwc C H W p) | p. p \<in> image_coords N C H W}"
proof -
  have "grid [(N, C * (H * W), H * W * C), (C, H * W, 1), (H * W, 1, C)] =
      grid [(N, C * (H * W), H * W * C), (H * W, 1, C), (C, H * W, 1)]" by (rule grid_perm) simp
  also have "\<dots> = prod.swap ` grid [(N, H * W * C, C * (H * W)), (H * W, C, 1), (C, 1, H * W)]"
    using grid_converse [of "[(N, H * W * C, C * (H * W)), (H * W, C, 1), (C, 1, H * W)]"] by (simp del: grid.simps)
  also have "\<dots> = {(nchw C H W p, nhwc C H W p) | p. p \<in> image_coords N C H W}"
    unfolding layout_grid [OF assms] by force
  finally show ?thesis .
qed

lemma shape4: "shape t = [a, b, c, d] \<Longrightarrow> dimensions t = 4 \<and> len_at t 0 = a \<and> len_at t 1 = b \<and> len_at t 2 = c \<and> len_at t 3 = d"
proof -
  assume s: "shape t = [a, b, c, d]"
  then have n: "ndim t = 4" using length_shape [of t] by simp
  then show ?thesis using s by (simp add: shape_def upt_rec numeral_eq_Suc)
qed

lemma convert_to_nhwc_set:
  assumes f: "dimensionFormat t \<in> {NCHW, NC4HW4}" and s: "shape t = [N, C, H, W]"
    and nn: "0 \<le> N" "0 \<le> C" "0 \<le> H" "0 \<le> W"
  shows "\<exists>r. convert_compute k t NHWC = [r] \<and> rorigin r = k \<and>
    region_set r = {(nhwc C H W p, nchw C H W p) | p. p \<in> image_coords N C H W}"
proof -
  note l = shape4 [OF s]
  have acc: "width t * height t = H * W" "channel t = C" "batch t = N"
    using f l by (auto simp: width_def height_def channel_def batch_def getDimensionType_def mult.commute)
  let ?r = "convert_swap (snd (reshapeSlice (makeFullSlice k t) N (H * W) C))"
  have "convert_compute k t NHWC = [?r]"
    using f l by (auto simp: convert_compute_def plain_format_def Let_def acc split: prod.split)
  moreover have "rorigin ?r = k" by (simp add: convert_swap_def reshapeSlice_def makeFullSlice_def Let_def)
  moreover have "region_set ?r = grid [(N, H * W * C, C * (H * W)), (H * W, C, 1), (C, 1, H * W)]"
    by (rule swap_region_set) (use nn s in simp_all)
  ultimately show ?thesis using layout_grid [OF nn(4), of N H C] by (simp del: grid.simps)
qed

lemma convert_to_nchw_set:
  assumes f: "dimensionFormat t = NHWC" and o: "fmt \<in> {NCHW, NC4HW4}" and s: "shape t = [N, H, W, C]"
    and nn: "0 \<le> N" "0 \<le> C" "0 \<le> H" "0 \<le> W"
  shows "\<exists>r. convert_compute k t fmt = [r] \<and> rorigin r = k \<and>
    region_set r = {(nchw C H W p, nhwc C H W p) | p. p \<in> image_coords N C H W}"
proof -
  note l = shape4 [OF s]
  have acc: "width t * height t = H * W" "channel t = C" "batch t = N"
    using f l by (auto simp: width_def height_def channel_def batch_def getDimensionType_def mult.commute)
  let ?r = "convert_swap (snd (reshapeSlice (makeFullSlice k t) N C (H * W)))"
  have "convert_compute k t fmt = [?r]"
    using f o l by (auto simp: convert_compute_def plain_format_def Let_def acc split: prod.split)
  moreover have "rorigin ?r = k" by (simp add: convert_swap_def reshapeSlice_def makeFullSlice_def Let_def)
  moreover have "region_set ?r = grid [(N, C * (H * W), H * W * C), (C, H * W, 1), (H * W, 1, C)]"
    by (rule swap_region_set) (use nn s in simp_all)
  ultimately show ?thesis using layout_grid_back [OF nn(4), of N C H] by (simp del: grid.simps)
qed

lemma to_nhwc_at:
  assumes "dimensionFormat t \<in> {NCHW, NC4HW4}" and "shape t = [N, C, H, W]" and "0 \<le> N" "0 \<le> C" "0 \<le> H" "0 \<le> W"
    and "p \<in> image_coords N C H W"
  shows "raster zero inputs (convert_compute k t NHWC) (nhwc C H W p) = inputs k (nchw C H W p)"
proof -
  from convert_to_nhwc_set [OF assms(1-6)] obtain r where r: "convert_compute k t NHWC = [r]" "rorigin r = k"
    "region_set r = {(nhwc C H W p, nchw C H W p) | p. p \<in> image_coords N C H W}" by blast
  show ?thesis unfolding r(1) by (rule raster_graph [OF _ nhwc_inj _ assms(7)]) (use r in auto)
qed

lemma to_nchw_at:
  assumes "dimensionFormat t = NHWC" and "fmt \<in> {NCHW, NC4HW4}" and "shape t = [N, H, W, C]" and "0 \<le> N" "0 \<le> C" "0 \<le> H" "0 \<le> W"
    and "p \<in> image_coords N C H W"
  shows "raster zero inputs (convert_compute k t fmt) (nchw C H W p) = inputs k (nhwc C H W p)"
proof -
  from convert_to_nchw_set [OF assms(1-7)] obtain r where r: "convert_compute k t fmt = [r]" "rorigin r = k"
    "region_set r = {(nchw C H W p, nhwc C H W p) | p. p \<in> image_coords N C H W}" by blast
  show ?thesis unfolding r(1) by (rule raster_graph [OF _ nchw_inj _ assms(8)]) (use r in auto)
qed

text \<open>
  C27. Converting a packed or channel-first image to \<open>NHWC\<close> and back gives every entry back, and in
  between the entry of channel \<open>k\<close> at row \<open>y\<close>, column \<open>x\<close> of image \<open>a\<close> is where \<open>NHWC\<close> puts it.
\<close>

theorem convert_roundtrip:
  assumes t: "dimensionFormat t \<in> {NCHW, NC4HW4}" "shape t = [N, C, H, W]"
    and u: "dimensionFormat u = NHWC" "shape u = [N, H, W, C]" and fmt: "fmt \<in> {NCHW, NC4HW4}"
    and r: "0 \<le> a" "a < N" "0 \<le> k" "k < C" "0 \<le> y" "y < H" "0 \<le> x" "x < W"
  shows "raster zero (\<lambda>_. data) (convert_compute 0 t NHWC) (flat [N, H, W, C] [a, y, x, k]) = data (flat [N, C, H, W] [a, k, y, x]) \<and>
    raster zero (\<lambda>_. raster zero (\<lambda>_. data) (convert_compute 0 t NHWC)) (convert_compute 0 u fmt) (flat [N, C, H, W] [a, k, y, x]) =
      data (flat [N, C, H, W] [a, k, y, x])"
proof -
  have nn: "0 \<le> N" "0 \<le> C" "0 \<le> H" "0 \<le> W" and p: "(a, k, y, x) \<in> image_coords N C H W"
    using r by (simp_all add: image_coords_def)
  show ?thesis
    using to_nhwc_at [OF t nn p, of zero "\<lambda>_. data" 0]
      to_nchw_at [OF u(1) fmt u(2) nn p, of zero "\<lambda>_. raster zero (\<lambda>_. data) (convert_compute 0 t NHWC)" 0]
    by (simp add: nchw_flat [of _ _ _ _ _ _ _ N] nhwc_flat [of _ _ _ _ _ _ _ N])
qed

section \<open>Reshape through NHWC\<close>

lemma fold_strides_only:
  assumes "\<And>i u n. extents (fst (F i (u, n))) = extents u \<and> dimensions (fst (F i (u, n))) = dimensions u \<and>
      dimensionFormat (fst (F i (u, n))) = dimensionFormat u"
  shows "extents (fst (fold F is (t, m))) = extents t \<and> dimensions (fst (fold F is (t, m))) = dimensions t \<and>
      dimensionFormat (fst (fold F is (t, m))) = dimensionFormat t"
proof (induction "is" arbitrary: t m)
  case (Cons i "is")
  then show ?case using assms [of i t m] by (cases "F i (t, m)") simp
qed simp

lemma setup_nhwc:
  assumes "dimensionFormat t \<in> {NCHW, NC4HW4}" and "shape t = [N, C, H, W]"
  shows "shape (setupTensorInfo t (new_tensor 4 NCHW) NHWC) = [N, H, W, C]"
    and "dimensionFormat (setupTensorInfo t (new_tensor 4 NCHW) NHWC) = NHWC"
proof -
  note l = shape4 [OF assms(2)]
  define w where "w = setLength 3 C (setLength 0 N (fill_lengths 1 3 (\<lambda>i. len_at t (i + 1)) ((new_tensor 4 NCHW)\<lparr>dimensionFormat := NHWC\<rparr>)))"
  have e: "setupTensorInfo t (new_tensor 4 NCHW) NHWC = (setLinearLayout w)\<lparr>ttype := ttype t\<rparr>"
    using assms(1) l by (auto simp: setupTensorInfo_def caffe_format_def tf_format_def Let_def w_def new_tensor_def)
  have w: "extents w = [N, H, W, C, 0, 0, 0, 0, 0]" "dimensions w = 4" "dimensionFormat w = NHWC"
    using l by (simp_all add: w_def fill_lengths_def setLength_def new_tensor_def max_dim_def upt_rec numeral_eq_Suc)
  have s: "extents (setLinearLayout w) = extents w \<and> dimensions (setLinearLayout w) = dimensions w \<and>
      dimensionFormat (setLinearLayout w) = dimensionFormat w"
    unfolding setLinearLayout_def
    by (rule fold_strides_only) (auto simp: setStride_def Let_def)
  show "shape (setupTensorInfo t (new_tensor 4 NCHW) NHWC) = [N, H, W, C]"
    using s w by (simp add: e shape_def len_at_def upt_rec numeral_eq_Suc)
  show "dimensionFormat (setupTensorInfo t (new_tensor 4 NCHW) NHWC) = NHWC" using s w by (simp add: e)
qed

text \<open>
  C28. A packed image reshaped in the \<open>NHWC\<close> sense: the entry of the output whose \<open>NHWC\<close> position is that
  of an entry of the input is that entry, although both tensors are stored channel first.
\<close>

theorem reshape_nhwc_correct:
  assumes t: "dimensionFormat t = NC4HW4" "shape t = [N, C, H, W]"
    and u: "dimensionFormat u = NC4HW4" "shape u = [N', C', H', W']"
    and r: "0 \<le> a" "a < N" "0 \<le> k" "k < C" "0 \<le> y" "y < H" "0 \<le> x" "x < W"
    and r': "0 \<le> a'" "a' < N'" "0 \<le> k'" "k' < C'" "0 \<le> y'" "y' < H'" "0 \<le> x'" "x' < W'"
    and same: "flat [N', H', W', C'] [a', y', x', k'] = flat [N, H, W, C] [a, y, x, k]"
  shows "\<exists>first second. reshape_compute NHWC t u = Inr (first, second) \<and>
    raster zero (\<lambda>_. raster zero (\<lambda>_. data) first) second (flat [N', C', H', W'] [a', k', y', x']) = data (flat [N, C, H, W] [a, k, y, x])"
proof -
  have nn: "0 \<le> N" "0 \<le> C" "0 \<le> H" "0 \<le> W" and p: "(a, k, y, x) \<in> image_coords N C H W"
    using r by (simp_all add: image_coords_def)
  have nn': "0 \<le> N'" "0 \<le> C'" "0 \<le> H'" "0 \<le> W'" and p': "(a', k', y', x') \<in> image_coords N' C' H' W'"
    using r' by (simp_all add: image_coords_def)
  have f: "dimensionFormat t \<in> {NCHW, NC4HW4}" "dimensionFormat u \<in> {NCHW, NC4HW4}" "NC4HW4 \<in> {NCHW, NC4HW4}" using t u by simp_all
  let ?m = "setupTensorInfo u (new_tensor 4 NCHW) NHWC"
  let ?first = "convert_compute 0 t NHWC" and ?second = "convert_compute 0 ?m NC4HW4"
  have "?first \<noteq> []" using convert_to_nhwc_set [OF f(1) t(2) nn, of 0] by auto
  then have e: "reshape_compute NHWC t u = Inr (?first, ?second)"
    using t u setup_nhwc(2) [OF f(1) t(2)] by (simp add: reshape_compute_def Let_def)
  have same: "nhwc C' H' W' (a', k', y', x') = nhwc C H W (a, k, y, x)"
    using same by (simp only: nhwc_flat [of C' H' W' a' k' y' x' N'] nhwc_flat [of C H W a k y x N])
  have "raster zero (\<lambda>_. raster zero (\<lambda>_. data) ?first) ?second (nchw C' H' W' (a', k', y', x')) = data (nchw C H W (a, k, y, x))"
    using to_nchw_at [OF setup_nhwc(2) [OF f(2) u(2)] f(3) setup_nhwc(1) [OF f(2) u(2)] nn' p',
        of zero "\<lambda>_. raster zero (\<lambda>_. data) ?first" 0] to_nhwc_at [OF f(1) t(2) nn p, of zero "\<lambda>_. data" 0] same by simp
  then show ?thesis using e
    by (simp only: nchw_flat [of C' H' W' a' k' y' x' N'] nchw_flat [of C H W a k y x N]) blast
qed

section \<open>Blocks of the image and channels\<close>

definition image_pos :: "data_format \<Rightarrow> int \<Rightarrow> int \<Rightarrow> int \<Rightarrow> int \<times> int \<times> int \<times> int \<Rightarrow> int" where
  "image_pos fmt C H W = (if fmt = NHWC then nhwc C H W else nchw C H W)"

definition block_coords :: "int \<Rightarrow> int \<Rightarrow> int \<Rightarrow> int \<Rightarrow> int \<Rightarrow> (int \<times> int \<times> int \<times> int \<times> int \<times> int) set" where
  "block_coords B N C H W = {(b, hb, wb, h, w, c). 0 \<le> b \<and> b < N \<and> 0 \<le> hb \<and> hb < B \<and> 0 \<le> wb \<and> wb < B \<and>
     0 \<le> h \<and> h < H \<and> 0 \<le> w \<and> w < W \<and> 0 \<le> c \<and> c < C}"

definition large_at :: "int \<Rightarrow> int \<times> int \<times> int \<times> int \<times> int \<times> int \<Rightarrow> int \<times> int \<times> int \<times> int" where
  "large_at B = (\<lambda>(b, hb, wb, h, w, c). (b, c, h * B + hb, w * B + wb))"

definition small_at :: "depth_mode \<Rightarrow> int \<Rightarrow> int \<Rightarrow> int \<times> int \<times> int \<times> int \<times> int \<times> int \<Rightarrow> int \<times> int \<times> int \<times> int" where
  "small_at mode B C = (\<lambda>(b, hb, wb, h, w, c).
     (b, (if mode = DCR then (hb * B + wb) * C + c else c * (B * B) + (hb * B + wb)), h, w))"

definition depth_dims :: "data_format \<Rightarrow> tensor \<Rightarrow> int \<Rightarrow> int \<Rightarrow> int \<Rightarrow> int \<Rightarrow> bool" where
  "depth_dims fmt t N C H W \<longleftrightarrow> dimensionFormat t = fmt \<and> batch t = N \<and> channel t = C \<and> height t = H \<and> width t = W"

definition swap_views :: "region \<Rightarrow> region" where
  "swap_views r = r\<lparr>rsrc := rdst r, rdst := rsrc r\<rparr>"

lemma swap_views_set: "region_set (swap_views r) = prod.swap ` region_set r"
  by (auto simp: region_set_def region_moves_def swap_views_def image_iff) force+

lemma space_swaps:
  "depthToSpace_compute True B mode fmt large small = map swap_views (depthToSpace_compute False B mode fmt small large)"
  by (simp add: depthToSpace_compute_def Let_def map_concat o_def swap_views_def)

definition depth_region :: "int \<Rightarrow> depth_mode \<Rightarrow> data_format \<Rightarrow> int \<Rightarrow> int \<Rightarrow> int \<Rightarrow> int \<Rightarrow> int \<Rightarrow> int \<Rightarrow> region" where
  "depth_region B mode fmt C H W b hb wb =
     (let inS = depth_strides fmt H W (C * B * B); outS = depth_strides fmt (H * B) (W * B) C
      in \<lparr>rsrc = \<lparr>voffset = b * inS ! 0 + ((hb * B + wb) * (if mode = DCR then C else 1)) * inS ! 1,
                  vstride = [inS ! 2, inS ! 3, (if mode = CRD then inS ! 1 * (B * B) else inS ! 1)]\<rparr>,
          rdst = \<lparr>voffset = b * outS ! 0 + hb * outS ! 2 + wb * outS ! 3, vstride = [outS ! 2 * B, outS ! 3 * B, outS ! 1]\<rparr>,
          rsize = [H, W, C], rorigin = 0\<rparr>)"

lemma depth_region_set:
  "region_set (depth_region B mode fmt C H W b hb wb) =
     {(image_pos fmt C (H * B) (W * B) (large_at B (b, hb, wb, h, w, c)),
       image_pos fmt (C * B * B) H W (small_at mode B C (b, hb, wb, h, w, c))) | h w c.
         0 \<le> h \<and> h < H \<and> 0 \<le> w \<and> w < W \<and> 0 \<le> c \<and> c < C}"
proof -
  let ?inS = "depth_strides fmt H W (C * B * B)" and ?outS = "depth_strides fmt (H * B) (W * B) C"
  let ?k = "if mode = CRD then ?inS ! 1 * (B * B) else ?inS ! 1"
  let ?do = "b * ?outS ! 0 + hb * ?outS ! 2 + wb * ?outS ! 3" and ?so = "b * ?inS ! 0 + ((hb * B + wb) * (if mode = DCR then C else 1)) * ?inS ! 1"
  have pos: "?do + (h * (?outS ! 2 * B) + (w * (?outS ! 3 * B) + c * ?outS ! 1)) = image_pos fmt C (H * B) (W * B) (large_at B (b, hb, wb, h, w, c)) \<and>
      ?so + (h * ?inS ! 2 + (w * ?inS ! 3 + c * ?k)) = image_pos fmt (C * B * B) H W (small_at mode B C (b, hb, wb, h, w, c))" for h w c
    by (cases mode; cases "fmt = NHWC")
      (simp_all add: depth_strides_def image_pos_def large_at_def small_at_def nchw_def nhwc_def algebra_simps)
  have "region_set (depth_region B mode fmt C H W b hb wb) =
      {(?do + d, ?so + s) | d s. (d, s) \<in> grid [(H, ?outS ! 2 * B, ?inS ! 2), (W, ?outS ! 3 * B, ?inS ! 3), (C, ?outS ! 1, ?k)]}"
    by (subst region_set_grid) (simp_all add: depth_region_def Let_def del: grid.simps)
  also have "\<dots> = {(?do + (h * (?outS ! 2 * B) + (w * (?outS ! 3 * B) + c * ?outS ! 1)), ?so + (h * ?inS ! 2 + (w * ?inS ! 3 + c * ?k))) | h w c.
      0 \<le> h \<and> h < H \<and> 0 \<le> w \<and> w < W \<and> 0 \<le> c \<and> c < C}" unfolding grid3 by blast
  finally show ?thesis unfolding conjunct1 [OF pos] conjunct2 [OF pos] .
qed

lemma depth_set:
  assumes t: "depth_dims fmt small N (C * B * B) H W" and u: "depth_dims fmt large N C (H * B) (W * B)"
  shows "(\<Union>r \<in> set (depthToSpace_compute False B mode fmt small large). region_set r) =
      {(image_pos fmt C (H * B) (W * B) (large_at B e), image_pos fmt (C * B * B) H W (small_at mode B C e)) | e. e \<in> block_coords B N C H W}"
    (is "?L = ?R")
    and "(\<Union>r \<in> set (depthToSpace_compute True B mode fmt large small). region_set r) =
      {(image_pos fmt (C * B * B) H W (small_at mode B C e), image_pos fmt C (H * B) (W * B) (large_at B e)) | e. e \<in> block_coords B N C H W}"
proof -
  have "depthToSpace_compute False B mode fmt small large =
      concat (map (\<lambda>b. concat (map (\<lambda>hb. map (depth_region B mode fmt C H W b hb) [0..B - 1]) [0..B - 1])) [0..N - 1])"
    using t u by (simp add: depthToSpace_compute_def depth_region_def [abs_def] depth_dims_def Let_def)
  then have "?L = (\<Union>b \<in> {0..N - 1}. \<Union>hb \<in> {0..B - 1}. \<Union>wb \<in> {0..B - 1}. region_set (depth_region B mode fmt C H W b hb wb))"
    by simp
  also have "\<dots> = ?R" unfolding depth_region_set by (fastforce simp: block_coords_def)
  finally show 1: "?L = ?R" .
  have "(\<Union>r \<in> set (depthToSpace_compute True B mode fmt large small). region_set r) = prod.swap ` ?L"
    unfolding space_swaps by (simp add: swap_views_set image_UN)
  then show "(\<Union>r \<in> set (depthToSpace_compute True B mode fmt large small). region_set r) =
      {(image_pos fmt (C * B * B) H W (small_at mode B C e), image_pos fmt C (H * B) (W * B) (large_at B e)) | e. e \<in> block_coords B N C H W}"
    unfolding 1 by force
qed

lemma image_pos_inj: "inj_on (image_pos fmt C H W) (image_coords N C H W)"
  by (simp add: image_pos_def nchw_inj nhwc_inj)

lemma digit_inj:
  fixes B :: int
  assumes "0 \<le> r" "r < B" "0 \<le> s" "s < B" "q * B + r = p * B + s"
  shows "q = p \<and> r = s"
proof -
  have "(q * B + r) div B = (p * B + s) div B" using assms(5) by simp
  then have "q = p" using assms(1-4) by simp
  then show ?thesis using assms(5) by simp
qed

lemma digit_bound: "0 \<le> q \<Longrightarrow> q < n \<Longrightarrow> 0 \<le> r \<Longrightarrow> r < B \<Longrightarrow> 0 \<le> q * B + r \<and> q * B + r < n * B" for B :: int
  using fuse_index [of B "q * B + r" n] by force

lemma large_inj: "inj_on (\<lambda>e. image_pos fmt C (H * B) (W * B) (large_at B e)) (block_coords B N C H W)"
proof (rule inj_onI)
  fix e e' assume e: "e \<in> block_coords B N C H W" "e' \<in> block_coords B N C H W"
    and eq: "image_pos fmt C (H * B) (W * B) (large_at B e) = image_pos fmt C (H * B) (W * B) (large_at B e')"
  have in_large: "large_at B e \<in> image_coords N C (H * B) (W * B)" if "e \<in> block_coords B N C H W" for e
  proof -
    obtain b hb wb h w c where x: "e = (b, hb, wb, h, w, c)" by (metis prod_cases6)
    show ?thesis using that digit_bound [of h H hb B] digit_bound [of w W wb B] by (simp add: x large_at_def block_coords_def image_coords_def)
  qed
  from inj_onD [OF image_pos_inj eq in_large [OF e(1)] in_large [OF e(2)]] have s: "large_at B e = large_at B e'" .
  obtain b hb wb h w c where x: "e = (b, hb, wb, h, w, c)" by (metis prod_cases6)
  obtain b' hb' wb' h' w' c' where x': "e' = (b', hb', wb', h', w', c')" by (metis prod_cases6)
  have r: "0 \<le> hb" "hb < B" "0 \<le> wb" "wb < B" and r': "0 \<le> hb'" "hb' < B" "0 \<le> wb'" "wb' < B"
    using e by (auto simp: x x' block_coords_def)
  have q: "h * B + hb = h' * B + hb'" "w * B + wb = w' * B + wb'" "b = b'" "c = c'" using s by (simp_all add: x x' large_at_def)
  show "e = e'" using digit_inj [OF r(1,2) r'(1,2) q(1)] digit_inj [OF r(3,4) r'(3,4) q(2)] q(3,4) by (simp add: x x')
qed

lemma small_inj: "inj_on (\<lambda>e. image_pos fmt (C * B * B) H W (small_at mode B C e)) (block_coords B N C H W)"
proof (rule inj_onI)
  fix e e' assume e: "e \<in> block_coords B N C H W" "e' \<in> block_coords B N C H W"
    and eq: "image_pos fmt (C * B * B) H W (small_at mode B C e) = image_pos fmt (C * B * B) H W (small_at mode B C e')"
  have bb: "0 \<le> hb * B + wb \<and> hb * B + wb < B * B" if "0 \<le> hb" "hb < B" "0 \<le> wb" "wb < B" for hb wb
    using digit_bound that by blast
  have "small_at mode B C e \<in> image_coords N (C * B * B) H W" if "e \<in> block_coords B N C H W" for e
  proof -
    obtain b hb wb h w c where x: "e = (b, hb, wb, h, w, c)" by (metis prod_cases6)
    have r: "0 \<le> hb" "hb < B" "0 \<le> wb" "wb < B" "0 \<le> c" "c < C" using that by (auto simp: x block_coords_def)
    have "0 \<le> (hb * B + wb) * C + c \<and> (hb * B + wb) * C + c < B * B * C" "0 \<le> c * (B * B) + (hb * B + wb) \<and> c * (B * B) + (hb * B + wb) < C * (B * B)"
      using digit_bound [OF _ _ r(5,6)] digit_bound [OF r(5,6)] bb [OF r(1-4)] by blast+
    then show ?thesis using that by (auto simp: x small_at_def block_coords_def image_coords_def algebra_simps)
  qed
  from inj_onD [OF image_pos_inj eq this [OF e(1)] this [OF e(2)]] have s: "small_at mode B C e = small_at mode B C e'" .
  obtain b hb wb h w c where x: "e = (b, hb, wb, h, w, c)" by (metis prod_cases6)
  obtain b' hb' wb' h' w' c' where x': "e' = (b', hb', wb', h', w', c')" by (metis prod_cases6)
  have r: "0 \<le> hb" "hb < B" "0 \<le> wb" "wb < B" "0 \<le> c" "c < C" and r': "0 \<le> hb'" "hb' < B" "0 \<le> wb'" "wb' < B" "0 \<le> c'" "c' < C"
    using e by (auto simp: x x' block_coords_def)
  have "hb * B + wb = hb' * B + wb' \<and> c = c'"
  proof (cases "mode = DCR")
    case True
    then have "(hb * B + wb) * C + c = (hb' * B + wb') * C + c'" using s by (simp add: x x' small_at_def)
    from digit_inj [OF r(5,6) r'(5,6) this] show ?thesis .
  next
    case False
    then have "c * (B * B) + (hb * B + wb) = c' * (B * B) + (hb' * B + wb')" using s by (simp add: x x' small_at_def)
    from digit_inj [OF _ _ _ _ this] bb r r' show ?thesis by blast
  qed
  then show "e = e'" using digit_inj [OF r(3,4) r'(3,4), of hb hb'] s by (simp add: x x' small_at_def)
qed

lemma depth_origin: "r \<in> set (depthToSpace_compute b B mode fmt x y) \<Longrightarrow> rorigin r = 0"
  by (auto simp: depthToSpace_compute_def Let_def split: prod.splits)

text \<open>
  C29. \<open>DepthToSpace\<close> takes the entry \<open>(hb, wb)\<close> of every block from its channel group, in both modes and
  both layouts, and \<open>SpaceToDepth\<close> undoes it.
\<close>

theorem depth_space_roundtrip:
  assumes t: "depth_dims fmt small N (C * B * B) H W" and u: "depth_dims fmt large N C (H * B) (W * B)"
    and r: "0 \<le> b" "b < N" "0 \<le> hb" "hb < B" "0 \<le> wb" "wb < B" "0 \<le> h" "h < H" "0 \<le> w" "w < W" "0 \<le> c" "c < C"
    and ch: "ch = (if mode = DCR then (hb * B + wb) * C + c else c * (B * B) + (hb * B + wb))"
  shows "raster zero (\<lambda>_. data) (depthToSpace_compute False B mode fmt small large)
        (image_pos fmt C (H * B) (W * B) (b, c, h * B + hb, w * B + wb)) = data (image_pos fmt (C * B * B) H W (b, ch, h, w)) \<and>
    raster zero (\<lambda>_. raster zero (\<lambda>_. data) (depthToSpace_compute False B mode fmt small large))
        (depthToSpace_compute True B mode fmt large small) (image_pos fmt (C * B * B) H W (b, ch, h, w)) =
      data (image_pos fmt (C * B * B) H W (b, ch, h, w))"
proof -
  let ?e = "(b, hb, wb, h, w, c)"
  have e: "?e \<in> block_coords B N C H W" using r by (simp add: block_coords_def)
  have at: "large_at B ?e = (b, c, h * B + hb, w * B + wb)" "small_at mode B C ?e = (b, ch, h, w)"
    by (simp_all add: large_at_def small_at_def ch)
  show ?thesis
    using raster_graph [OF depth_set(1) [OF t u, of mode] large_inj depth_origin e, where zero = zero and inputs = "\<lambda>_. data"]
      raster_graph [OF depth_set(2) [OF t u, of mode] small_inj depth_origin e,
        where zero = zero and inputs = "\<lambda>_. raster zero (\<lambda>_. data) (depthToSpace_compute False B mode fmt small large)"]
    unfolding at by simp
qed

section \<open>Examples\<close>

lemma convert_roundtrip_witness:
  "raster (- 1) (\<lambda>_. raster (- 1) (\<lambda>_. (demo_data 0)) (convert_compute 0 (setShape [2, 3, 2, 2] (new_tensor 4 NC4HW4)) NHWC))
     (convert_compute 0 (setShape [2, 2, 2, 3] (new_tensor 4 NHWC)) NC4HW4) 17 = (demo_data 0) 17"
proof -
  have s: "shape (setShape [2, 3, 2, 2] (new_tensor 4 NC4HW4)) = [2, 3, 2, 2]" "shape (setShape [2, 2, 2, 3] (new_tensor 4 NHWC)) = [2, 2, 2, 3]"
    "dimensionFormat (setShape [2, 3, 2, 2] (new_tensor 4 NC4HW4)) = NC4HW4" "dimensionFormat (setShape [2, 2, 2, 3] (new_tensor 4 NHWC)) = NHWC"
    by code_simp+
  show ?thesis using convert_roundtrip [OF _ s(1) s(4,2), of NC4HW4 1 1 0 1 "- 1" "demo_data 0"] s(3) by simp
qed

lemma reshape_nhwc_correct_witness:
  "\<exists>first second. reshape_compute NHWC (setShape [1, 4, 2, 1] (new_tensor 4 NC4HW4)) (setShape [1, 2, 2, 2] (new_tensor 4 NC4HW4)) =
     Inr (first, second) \<and> raster (- 1) (\<lambda>_. raster (- 1) (\<lambda>_. (demo_data 0)) first) second 1 = (demo_data 0) 4"
proof -
  have s: "shape (setShape [1, 4, 2, 1] (new_tensor 4 NC4HW4)) = [1, 4, 2, 1]" "shape (setShape [1, 2, 2, 2] (new_tensor 4 NC4HW4)) = [1, 2, 2, 2]"
    "dimensionFormat (setShape [1, 4, 2, 1] (new_tensor 4 NC4HW4)) = NC4HW4" "dimensionFormat (setShape [1, 2, 2, 2] (new_tensor 4 NC4HW4)) = NC4HW4"
    by code_simp+
  show ?thesis using reshape_nhwc_correct [OF s(3,1) s(4,2), of 0 2 0 0 0 0 0 1 "- 1" "demo_data 0"] by simp
qed

lemma depth_space_roundtrip_witness:
  "raster (- 1) (\<lambda>_. (demo_data 0)) (depthToSpace_compute False 2 DCR NCHW (setShape [1, 4, 1, 2] (new_tensor 4 NCHW))
     (setShape [1, 1, 2, 4] (new_tensor 4 NCHW))) 6 = (demo_data 0) 5"
proof -
  have "depth_dims NCHW (setShape [1, 4, 1, 2] (new_tensor 4 NCHW)) 1 (1 * 2 * 2) 1 2"
    "depth_dims NCHW (setShape [1, 1, 2, 4] (new_tensor 4 NCHW)) 1 1 (1 * 2) (2 * 2)" by code_simp+
  from depth_space_roundtrip [OF this, of 0 1 0 0 1 0 2 DCR "- 1" "demo_data 0"] show ?thesis
    by (simp add: image_pos_def nchw_def)
qed

end
