(* ===== verification/Geometry_Broadcast.thy ===== *)
theory Geometry_Broadcast
  imports Geometry_Convert
begin

text \<open>
  \<open>ConvertUtils::broadcastto\<close> of \<open>source/geometry/ConvertUtils.cpp\<close>, behind \<open>GeometryBroadcastTo\<close> and the
  binary and select operators. A pair holds the extents of input and output at one position.
\<close>

section \<open>The model\<close>

text \<open>One pass of the loop that merges neighbours along which the input has the extent one.\<close>

fun squeeze_pass :: "(int \<times> int) list \<Rightarrow> (int \<times> int) list \<times> bool" where
  "squeeze_pass (x # y # r) =
     (if fst x = 1 \<and> fst y = 1 then (fst (squeeze_pass ((fst x, snd x * snd y) # r)), True)
      else (let (l, canFuse) = squeeze_pass (y # r) in (x # l, canFuse)))"
| "squeeze_pass r = (r, False)"

lemma squeeze_pass_length: "length (fst (squeeze_pass P)) \<le> length P \<and> (snd (squeeze_pass P) \<longrightarrow> length (fst (squeeze_pass P)) < length P)"
  by (induction P rule: squeeze_pass.induct) (auto split: prod.splits)

function squeeze_ones :: "(int \<times> int) list \<Rightarrow> (int \<times> int) list" where
  "squeeze_ones P =
     (if 2 \<le> length P then (if snd (squeeze_pass P) then squeeze_ones (fst (squeeze_pass P)) else fst (squeeze_pass P)) else P)"
  by auto
termination by (relation "measure length") (use squeeze_pass_length in auto)

text \<open>Runs of positions with equal extents become one, positions that are broadcast stay alone.\<close>

definition separate_step :: "int \<times> int \<Rightarrow> (int \<times> int) list \<times> int \<times> int \<Rightarrow> (int \<times> int) list \<times> int \<times> int" where
  "separate_step = (\<lambda>(i, o') (sep, currentInput, currentOutput).
     if i \<noteq> o' then ((if 1 < currentOutput then sep @ [(currentInput, currentOutput)] else sep) @ [(i, o')], 1, 1)
     else (sep, currentInput * i, currentOutput * o'))"

definition separate_dims :: "(int \<times> int) list \<Rightarrow> (int \<times> int) list" where
  "separate_dims P =
     (let (sep, currentInput, currentOutput) = fold separate_step P ([], 1, 1)
      in if currentOutput \<noteq> 1 \<or> currentInput \<noteq> 1 then sep @ [(currentInput, currentOutput)] else sep)"

text \<open>Size, output stride and input stride; the input does not move along a position where it has one entry.\<close>

definition broadcast_dims :: "(int \<times> int) list \<Rightarrow> (int \<times> int \<times> int) list" where
  "broadcast_dims S =
     map (\<lambda>((i, o'), os, is). (o', os, if i = 1 then 0 else is))
       (zip S (zip (fst (computeStride (map snd S))) (fst (computeStride (map fst S)))))"

definition broadcast_pairs :: "tensor \<Rightarrow> tensor \<Rightarrow> (int \<times> int) list" where
  "broadcast_pairs input output =
     (let offset = ndim output - ndim input
      in map (\<lambda>i. (if i < offset then 1 else len_at input (i - offset), len_at output i)) [0..<ndim output])"

definition broadcast_regions :: "nat \<Rightarrow> (int \<times> int \<times> int) list \<Rightarrow> region list" where
  "broadcast_regions k T =
     (let D = take (length T - 3) T;
          (remainStride, remainSize) = computeStride (map fst D);
          (n0, d0, s0) = dim_or 1 1 3 T; (n1, d1, s1) = dim_or 1 1 2 T; (n2, d2, s2) = dim_or 1 1 1 T
      in map (\<lambda>index. (let cords = unravelIndexHelper remainStride index
           in \<lparr>rsrc = \<lparr>voffset = lin (map (snd \<circ> snd) D) cords, vstride = [s0, s1, s2]\<rparr>,
               rdst = \<lparr>voffset = lin (map (fst \<circ> snd) D) cords, vstride = [d0, d1, d2]\<rparr>,
               rsize = [n0, n1, n2], rorigin = k\<rparr>)) [0..remainSize - 1])"

definition broadcastto :: "tensor \<Rightarrow> tensor \<Rightarrow> bool \<Rightarrow> region list" where
  "broadcastto input output forward =
     (if getRawSize input = getRawSize output then [makeFullSlice 0 input]
      else if forward then
        (let srcSize = len_at input 0;
             multipler = fold (\<lambda>i m. m * len_at output i) [2..<ndim output] (len_at output 1)
         in [\<lparr>rsrc = \<lparr>voffset = 0, vstride = [srcSize, 1, 0]\<rparr>,
              rdst = \<lparr>voffset = 0, vstride = [srcSize * multipler, multipler, 1]\<rparr>,
              rsize = [1, srcSize, multipler], rorigin = 0\<rparr>])
      else broadcast_regions 0 (broadcast_dims (separate_dims (squeeze_ones (broadcast_pairs input output)))))"

declare squeeze_ones.simps [simp del]

text \<open>\<open>GeometryBroadcastTo::onCompute\<close>: the parameter is the axis attribute of the operator, if it has one.\<close>

definition broadcastTo_compute :: "int option \<Rightarrow> tensor \<Rightarrow> tensor \<Rightarrow> region list" where
  "broadcastTo_compute main input output =
     broadcastto input output (case main of None \<Rightarrow> False | Some axis \<Rightarrow> axis \<noteq> 0)"

section \<open>Merging positions\<close>

lemma broadcast_dims_simps [simp]:
  "broadcast_dims [] = []"
  "broadcast_dims ((i, n) # S) = (n, prod_list (map snd S), if i = 1 then 0 else prod_list (map fst S)) # broadcast_dims S"
  by (simp_all add: broadcast_dims_def computeStride_dense)

definition same_dims :: "(int \<times> int) list \<Rightarrow> (int \<times> int) list \<Rightarrow> bool" where
  "same_dims Q Q' \<longleftrightarrow> grid (broadcast_dims Q) = grid (broadcast_dims Q') \<and>
     prod_list (map fst Q) = prod_list (map fst Q') \<and> prod_list (map snd Q) = prod_list (map snd Q')"

lemma same_dims_refl [simp]: "same_dims Q Q"
  by (simp add: same_dims_def)

lemma same_dims_trans: "same_dims Q R \<Longrightarrow> same_dims R S \<Longrightarrow> same_dims Q S"
  by (simp add: same_dims_def)

lemma same_dims_sym: "same_dims Q R \<Longrightarrow> same_dims R Q"
  by (simp add: same_dims_def)

lemma same_dims_Cons: "same_dims Q Q' \<Longrightarrow> same_dims (x # Q) (x # Q')"
  by (cases x) (auto simp: same_dims_def simp del: grid.simps intro!: grid_Cons_cong)

lemma same_dims_append: "same_dims Q Q' \<Longrightarrow> same_dims (R @ Q) (R @ Q')"
  by (induction R) (simp_all add: same_dims_Cons)

definition compat :: "(int \<times> int) list \<Rightarrow> bool" where
  "compat P \<longleftrightarrow> (\<forall>(i, n) \<in> set P. 0 < i \<and> 0 < n \<and> (i = n \<or> i = 1))"

lemma same_dims_ones:
  assumes "0 < m"
  shows "same_dims ((1, n) # (1, m) # S) ((1, n * m) # S)"
  using grid_fuse [of m n "prod_list (map snd S)" 0 "broadcast_dims S"] assms by (simp add: same_dims_def del: grid.simps)

lemma same_dims_unit: "same_dims ((1, 1) # S) S"
  by (simp add: same_dims_def grid_unit del: grid.simps)

lemma same_dims_equal:
  assumes "0 < n" and "0 < m"
  shows "same_dims ((n, n) # (m, m) # S) ((n * m, n * m) # S)"
proof -
  consider "n = 1" | "m = 1" | "n \<noteq> 1" "m \<noteq> 1" "n * m \<noteq> 1"
    using assms by (metis pos_zmult_eq_1_iff)
  then show ?thesis
  proof cases
    case 1
    then show ?thesis using same_dims_unit [of "(m, m) # S"] by simp
  next
    case 2
    then show ?thesis using same_dims_Cons [OF same_dims_unit] by simp
  next
    case 3
    then show ?thesis
      using grid_fuse [of m n "prod_list (map snd S)" "prod_list (map fst S)" "broadcast_dims S"] assms
      by (simp add: same_dims_def del: grid.simps)
  qed
qed

lemma squeeze_pass_same: "compat P \<Longrightarrow> same_dims P (fst (squeeze_pass P)) \<and> compat (fst (squeeze_pass P))"
proof (induction P rule: squeeze_pass.induct)
  case (1 x y r)
  obtain i n j m where xy: "x = (i, n)" "y = (j, m)" by (cases x, cases y)
  show ?case
  proof (cases "fst x = 1 \<and> fst y = 1")
    case True
    have c: "compat ((1, n * m) # r)" using "1.prems" True by (auto simp: compat_def xy)
    have m: "0 < m" using "1.prems" by (auto simp: compat_def xy)
    from "1.IH"(1) [OF True] c True have "same_dims ((1, n * m) # r) (fst (squeeze_pass ((1, n * m) # r)))"
      "compat (fst (squeeze_pass ((1, n * m) # r)))" by (simp_all add: xy)
    then show ?thesis using same_dims_trans [OF same_dims_ones [OF m, of n r]] True by (simp add: xy)
  next
    case False
    have c: "compat (y # r)" and x: "compat [x]" using "1.prems" by (simp_all add: compat_def)
    from "1.IH"(2) [OF False c] show ?thesis
      using False x same_dims_Cons by (auto simp: compat_def split: prod.splits)
  qed
qed simp_all

lemma squeeze_ones_same: "compat P \<Longrightarrow> same_dims P (squeeze_ones P) \<and> compat (squeeze_ones P)"
proof (induction P rule: squeeze_ones.induct)
  case (1 P)
  note s = squeeze_pass_same [OF "1.prems"]
  show ?case
  proof (cases "2 \<le> length P \<and> snd (squeeze_pass P)")
    case True
    then have "same_dims (fst (squeeze_pass P)) (squeeze_ones (fst (squeeze_pass P))) \<and> compat (squeeze_ones (fst (squeeze_pass P)))"
      using "1.IH" s by blast
    moreover have "squeeze_ones P = squeeze_ones (fst (squeeze_pass P))" using True by (subst squeeze_ones.simps) simp
    ultimately show ?thesis using s same_dims_trans by metis
  next
    case False
    then have "squeeze_ones P = P \<or> squeeze_ones P = fst (squeeze_pass P)" by (subst (1 2) squeeze_ones.simps) auto
    then show ?thesis using s "1.prems" by auto
  qed
qed

lemma separate_fold:
  assumes "compat P" and "compat sep" and "0 < k" and "fold separate_step P (sep, k, k) = (sep', i', o'')"
  shows "i' = o'' \<and> 0 < i' \<and> compat sep' \<and> same_dims (sep @ (k, k) # P) (sep' @ [(i', i')])"
  using assms
proof (induction P arbitrary: sep k)
  case Nil
  then show ?case by simp
next
  case (Cons p P)
  obtain i n where p: "p = (i, n)" by (cases p)
  have c: "compat P" and i: "0 < i" "0 < n" "i = n \<or> i = 1" using Cons.prems(1) by (auto simp: compat_def p)
  show ?case
  proof (cases "i = n")
    case True
    then have f: "fold separate_step P (sep, k * i, k * i) = (sep', i', o'')"
      using Cons.prems(4) by (simp add: p separate_step_def)
    have "same_dims (sep @ (k, k) # p # P) (sep @ (k * i, k * i) # P)"
      using same_dims_append [OF same_dims_equal [OF Cons.prems(3) i(1), of P]] True by (simp add: p)
    moreover have "0 < k * i" using Cons.prems(3) i(1) by simp
    ultimately show ?thesis using Cons.IH [OF c Cons.prems(2) _ f] same_dims_trans by blast
  next
    case False
    let ?sep = "(if 1 < k then sep @ [(k, k)] else sep) @ [(i, n)]"
    have f: "fold separate_step P (?sep, 1, 1) = (sep', i', o'')" using Cons.prems(4) False by (simp add: p separate_step_def)
    have "compat ?sep" using Cons.prems(2,3) i by (auto simp: compat_def)
    note r = Cons.IH [OF c this zero_less_one f]
    have "same_dims (sep @ (k, k) # p # P) (?sep @ P)"
    proof (cases "1 < k")
      case False
      then have "k = 1" using Cons.prems(3) by simp
      then show ?thesis using same_dims_append [OF same_dims_unit, of sep "p # P"] by (simp add: p)
    qed (simp add: p)
    moreover have "same_dims (?sep @ P) (?sep @ (1, 1) # P)"
      by (rule same_dims_append [OF same_dims_sym [OF same_dims_unit]])
    ultimately show ?thesis using r same_dims_trans by blast
  qed
qed

lemma separate_same:
  assumes "compat P"
  shows "same_dims P (separate_dims P) \<and> compat (separate_dims P)"
proof -
  obtain sep i n where f: "fold separate_step P ([], 1, 1) = (sep, i, n)" by (metis prod_cases3)
  from separate_fold [OF assms _ _ f] have r: "i = n" "0 < i" "compat sep" "same_dims ((1, 1) # P) (sep @ [(i, i)])"
    by (auto simp: compat_def)
  have P: "same_dims P (sep @ [(i, i)])" by (rule same_dims_trans [OF same_dims_sym [OF same_dims_unit] r(4)])
  show ?thesis
  proof (cases "i = 1")
    case True
    then have "separate_dims P = sep" using r(1) f by (simp add: separate_dims_def)
    moreover have "same_dims (sep @ [(1, 1)]) sep" using same_dims_append [OF same_dims_unit, of sep "[]"] by simp
    ultimately show ?thesis using P r(3) same_dims_trans True by blast
  next
    case False
    then have "separate_dims P = sep @ [(i, i)]" using r(1) f by (simp add: separate_dims_def)
    then show ?thesis using P r(2,3) by (auto simp: compat_def)
  qed
qed

lemma broadcast_regions_cover:
  assumes "\<And>n. n \<in> fst ` set T \<Longrightarrow> 0 \<le> n"
  shows "(\<Union>r \<in> set (broadcast_regions k T). region_set r) = grid T"
proof -
  obtain n0 d0 s0 where e0: "dim_or 1 1 3 T = (n0, d0, s0)" by (metis prod_cases3)
  obtain n1 d1 s1 where e1: "dim_or 1 1 2 T = (n1, d1, s1)" by (metis prod_cases3)
  obtain n2 d2 s2 where e2: "dim_or 1 1 1 T = (n2, d2, s2)" by (metis prod_cases3)
  define D where "D = take (length T - 3) T"
  define mk where "mk = (\<lambda>index. \<lparr>rsrc = \<lparr>voffset = lin (map (snd \<circ> snd) D) (unravelIndexHelper (dense_strides (map fst D)) index), vstride = [s0, s1, s2]\<rparr>,
      rdst = \<lparr>voffset = lin (map (fst \<circ> snd) D) (unravelIndexHelper (dense_strides (map fst D)) index), vstride = [d0, d1, d2]\<rparr>,
      rsize = [n0, n1, n2], rorigin = k\<rparr>)"
  have regs: "broadcast_regions k T = map mk [0..prod_list (map fst D) - 1]"
    by (simp only: broadcast_regions_def e0 e1 e2 Let_def prod.case D_def [symmetric] computeStride_dense mk_def)
  have "(\<Union>r \<in> set (broadcast_regions k T). region_set r) =
      {(0 + d, 0 + s) | d s. (d, s) \<in> grid (D @ [(n0, d0, s0), (n1, d1, s1), (n2, d2, s2)])}"
    by (rule regions_cover [OF regs]) (use assms in \<open>auto simp: mk_def D_def dest: in_set_takeD\<close>)
  then show ?thesis using last_three_grid [of T 1 1, unfolded e0 e1 e2] by (simp add: D_def del: grid.simps)
qed

section \<open>Reading the input\<close>

definition clamp :: "int list \<Rightarrow> int list \<Rightarrow> int list" where
  "clamp c shp = map2 (\<lambda>x n. if n = 1 then 0 else x) c shp"

lemma clamp_Cons [simp]: "clamp (x # c) (n # ns) = (if n = 1 then 0 else x) # clamp c ns" "clamp [] ns = []" "clamp c [] = []"
  by (simp_all add: clamp_def)

lemma broadcast_grid:
  "grid (broadcast_dims P) = {(flat (map snd P) c, flat (map fst P) (clamp c (map fst P))) | c. c \<in> coords (map snd P)}"
proof -
  have f: "map fst (broadcast_dims P) = map snd P" "map (fst \<circ> snd) (broadcast_dims P) = dense_strides (map snd P)"
    by (induction P) auto
  have s: "lin (map (snd \<circ> snd) (broadcast_dims P)) c = flat (map fst P) (clamp c (map fst P))" if "length c = length P" for c
    using that
  proof (induction P arbitrary: c)
    case (Cons p P)
    then show ?case by (cases p; cases c) auto
  qed simp
  show ?thesis unfolding grid_coords f using s coords_length by fastforce
qed

lemma flat_leading_ones: "length c = k + length I \<Longrightarrow>
    flat (replicate k 1 @ I) (clamp c (replicate k 1 @ I)) = flat I (clamp (drop k c) I)"
proof (induction k arbitrary: c)
  case (Suc k)
  then show ?case by (cases c) auto
qed simp

lemma clamp_same: "c \<in> coords I \<Longrightarrow> clamp c I = c"
proof (induction I arbitrary: c)
  case (Cons n I)
  from coords_ConsE [OF Cons.prems] obtain x d where "c = x # d" "0 \<le> x" "x < n" "d \<in> coords I" by blast
  then show ?case using Cons.IH by auto
qed simp

lemma compat_le: "compat P \<Longrightarrow> 0 < prod_list (map fst P) \<and> prod_list (map fst P) \<le> prod_list (map snd P)"
proof (induction P)
  case (Cons q Q)
  obtain j m where q: "q = (j, m)" by (cases q)
  have "0 < j" "j \<le> m" "compat Q" using Cons.prems by (auto simp: compat_def q)
  then show ?case using Cons.IH by (auto simp: q intro: mult_mono)
qed simp

lemma raster_full_slice:
  assumes "0 \<le> i" and "i < prod_list (shape t)"
  shows "raster zero inputs [makeFullSlice k t] i = inputs k i"
proof -
  have "(\<Union>r \<in> set [makeFullSlice k t]. region_set r) = {(c, c) | c. c \<in> {0..<prod_list (shape t)}}"
    by (simp add: makeFullSlice_def Let_def fold_mult_prod shape_def [symmetric] region_set_grid grid_unit del: grid.simps) auto
  from raster_graph [OF this, of k i zero inputs] show ?thesis using assms by (simp add: makeFullSlice_def Let_def)
qed

lemma same_product:
  assumes "compat P" and "prod_list (map fst P) = prod_list (map snd P)"
  shows "map fst P = map snd P"
  using assms
proof (induction P)
  case (Cons p P)
  obtain i n where p: "p = (i, n)" by (cases p)
  have c: "compat P" and i: "0 < i" "0 < n" "i = n \<or> i = 1" using Cons.prems(1) by (auto simp: compat_def p)
  note le = compat_le [OF c]
  have "i = n"
  proof (rule ccontr)
    assume "i \<noteq> n"
    then have "i = 1" "2 \<le> n" using i by auto
    then have "prod_list (map fst P) = n * prod_list (map snd P)" using Cons.prems(2) by (simp add: p)
    moreover have "2 * prod_list (map snd P) \<le> n * prod_list (map snd P)" using \<open>2 \<le> n\<close> le by (intro mult_right_mono) auto
    ultimately show False using le by linarith
  qed
  then show ?case using Cons.IH [OF c] Cons.prems(2) i by (simp add: p)
qed simp

lemma raw_size: "getRawSize t = prod_list (shape t) mod 2 ^ 64"
proof -
  have "fold (\<lambda>i d. (d * f i) mod M) xs d0 = (d0 * prod_list (map f xs)) mod M" if "d0 mod M = d0" for f :: "nat \<Rightarrow> int" and xs d0 M
    using that
  proof (induction xs arbitrary: d0)
    case (Cons x xs)
    show ?case using Cons.IH [of "(d0 * f x) mod M"] by (simp add: mod_mult_left_eq mult.assoc)
  qed simp
  then show ?thesis by (simp add: getRawSize_def shape_def)
qed

text \<open>
  C22. \<open>BroadcastTo\<close>: with the axes aligned at the right, every entry of the output is the entry of the
  input at its coordinates, where the coordinate is zero along the axes in which the input has one entry.
\<close>

theorem broadcast_correct:
  assumes rank: "ndim input \<le> ndim output" and c: "c \<in> coords (shape output)"
    and fit: "\<And>i. i < ndim input \<Longrightarrow> 0 < len_at input i \<and>
        (len_at input i = 1 \<or> len_at input i = len_at output (i + (ndim output - ndim input)))"
    and size: "prod_list (shape output) < 2 ^ 64"
  shows "raster zero inputs (broadcastto input output False) (flat (shape output) c) =
    inputs 0 (flat (shape input) (clamp (drop (ndim output - ndim input) c) (shape input)))"
proof -
  let ?k = "ndim output - ndim input"
  let ?P = "broadcast_pairs input output"
  have nth_shift: "map (len_at input) [0..<ndim input] ! (i + ndim input - ndim output) = len_at input (i + ndim input - ndim output)"
    if "i < ndim output" "\<not> i < ndim output - ndim input" for i
  proof -
    have "i + ndim input - ndim output < ndim input" using that rank by linarith
    then show ?thesis by simp
  qed
  have fs: "map fst ?P = replicate ?k 1 @ shape input" "map snd ?P = shape output"
    using rank nth_shift by (auto simp: broadcast_pairs_def Let_def shape_def nth_append intro!: nth_equalityI)
  have opos: "0 < len_at output i" if "i < ndim output" for i
    using coords_nonneg [OF c, of "len_at output i"] that by (auto simp: shape_def)
  have comp: "compat ?P" unfolding compat_def broadcast_pairs_def Let_def
  proof (clarsimp, intro conjI impI, simp_all add: opos)
    fix i assume i: "i < ndim output" "\<not> i < ?k"
    then show "0 < len_at input (i - ?k)" using fit [of "i - ?k"] by auto
    show "len_at input (i - ?k) = len_at output i \<or> len_at input (i - ?k) = 1" using fit [of "i - ?k"] i by auto
  qed
  have lenc: "length c = ndim output" using coords_length [OF c] by simp
  have target: "flat (map fst ?P) (clamp c (map fst ?P)) = flat (shape input) (clamp (drop ?k c) (shape input))"
    unfolding fs using flat_leading_ones [of c ?k "shape input"] lenc rank by simp
  have inj: "inj_on (flat (shape output)) (coords (shape output))" using flat_inj by (blast intro: inj_onI)
  show ?thesis
  proof (cases "getRawSize input = getRawSize output")
    case False
    let ?S = "separate_dims (squeeze_ones ?P)"
    have S: "same_dims ?P ?S" "compat ?S"
      using squeeze_ones_same [OF comp] separate_same same_dims_trans by blast+
    have "(\<Union>r \<in> set (broadcastto input output False). region_set r) = grid (broadcast_dims ?S)"
    proof -
      have "0 \<le> n" if "n \<in> fst ` set (broadcast_dims ?S)" for n
      proof -
        have "map fst (broadcast_dims Q) = map snd Q" for Q by (induction Q) auto
        then have "n \<in> snd ` set ?S" using that by (metis list.set_map)
        then show ?thesis using S(2) by (force simp: compat_def)
      qed
      from broadcast_regions_cover [OF this, where k = 0] show ?thesis using False by (simp add: broadcastto_def del: grid.simps)
    qed
    also have "\<dots> = {(flat (shape output) c, flat (map fst ?P) (clamp c (map fst ?P))) | c. c \<in> coords (shape output)}"
      using S(1) broadcast_grid [of ?P] by (simp add: same_dims_def fs(2))
    finally have cov: "(\<Union>r \<in> set (broadcastto input output False). region_set r) = \<dots>" .
    have "rorigin r = 0" if "r \<in> set (broadcastto input output False)" for r
      using that False by (auto simp: broadcastto_def broadcast_regions_def Let_def split: prod.splits)
    from raster_graph [OF cov inj this c] show ?thesis using target by simp
  next
    case True
    have pos: "0 < prod_list (shape input)" "0 < prod_list (shape output)"
      using fit opos by (auto intro!: prod_list_pos_int simp: shape_def)
    have le: "prod_list (map fst ?P) \<le> prod_list (map snd ?P)" using compat_le [OF comp] by simp
    then have "prod_list (shape input) < 2 ^ 64" using size by (simp add: fs)
    then have "prod_list (map fst ?P) = prod_list (map snd ?P)"
      using True pos size by (simp add: raw_size fs)
    from same_product [OF comp this] have same: "map fst ?P = shape output" by (simp add: fs)
    have "replicate ?k 1 @ shape input = shape output" using same by (simp only: fs(1))
    then have "prod_list (replicate ?k 1 @ shape input) = prod_list (shape output)" by simp
    then have in_size: "prod_list (shape input) = prod_list (shape output)" by simp
    have "flat (shape input) (clamp (drop ?k c) (shape input)) = flat (shape output) c"
      using target clamp_same [OF c] by (simp add: same)
    moreover have "raster zero inputs [makeFullSlice 0 input] (flat (shape output) c) = inputs 0 (flat (shape output) c)"
      by (rule raster_full_slice) (use flat_bounds [OF c] in_size in linarith)+
    ultimately show ?thesis using True by (simp add: broadcastto_def)
  qed
qed

text \<open>
  The other direction, which \<open>Select\<close> asks for: a vector is aligned with the first axis of the output,
  and each of its entries fills one slab.
\<close>

theorem broadcast_forward_correct:
  assumes i: "shape input = [n]" and o': "shape output = n # s" and s: "s \<noteq> []" "\<forall>m \<in> set s. 2 \<le> m"
    and c: "c \<in> coords (shape output)" and size: "n < 2 ^ 64" "prod_list (shape output) < 2 ^ 64"
  shows "raster zero inputs (broadcastTo_compute (Some 1) input output) (flat (shape output) c) = inputs 0 (List.hd c)"
proof -
  from coords_ConsE [OF c [unfolded o']] obtain x d where cd: "c = x # d" "0 \<le> x" "x < n" "d \<in> coords s" by blast
  have two: "2 \<le> prod_list s" if "s \<noteq> []" "\<forall>m \<in> set s. 2 \<le> m" for s :: "int list"
    using that
  proof (induction s)
    case (Cons m s)
    then show ?case by (cases "s = []") (use mult_mono [of 2 m 1 "prod_list s"] in auto)
  qed simp
  note m = two [OF s]
  have "getRawSize input \<noteq> getRawSize output"
  proof -
    have "n * 2 \<le> n * prod_list s" using m cd by (intro mult_left_mono) auto
    then show ?thesis using size cd by (simp add: raw_size i o')
  qed
  moreover have l: "ndim input = 1" "len_at input 0 = n" "ndim output = Suc (length s)"
    using arg_cong [OF i, of length] arg_cong [OF i, of "\<lambda>l. l ! 0"] arg_cong [OF o', of length] by (simp_all add: shape_def)
  have rest: "len_at output (Suc j) = s ! j" if "j < length s" for j
    using arg_cong [OF o', of "\<lambda>l. l ! Suc j"] that l by (simp add: shape_def del: upt_Suc)
  have "fold (\<lambda>i m. m * len_at output i) [2..<ndim output] (len_at output 1) = prod_list s"
  proof -
    have "map (len_at output) [Suc 0..<Suc (length s)] = s"
      by (rule nth_equalityI) (use rest in \<open>simp_all del: upt_Suc\<close>)
    then have "prod_list (map (len_at output) [Suc 0..<Suc (length s)]) = prod_list s" by simp
    then show ?thesis using s(1) by (simp add: fold_mult_prod l upt_conv_Cons numeral_2_eq_2 del: upt_Suc)
  qed
  ultimately have b: "broadcastTo_compute (Some 1) input output =
     [\<lparr>rsrc = \<lparr>voffset = 0, vstride = [n, 1, 0]\<rparr>, rdst = \<lparr>voffset = 0, vstride = [n * prod_list s, prod_list s, 1]\<rparr>,
       rsize = [1, n, prod_list s], rorigin = 0\<rparr>]" (is "_ = [?r]")
    by (simp add: broadcastTo_compute_def broadcastto_def l Let_def)
  have "region_set ?r = grid [(n, prod_list s, 1), (prod_list s, 1, 0)]"
    by (simp add: region_set_grid grid_unit del: grid.simps)
  also have "\<dots> = {(x * prod_list s + b, x) | x b. 0 \<le> x \<and> x < n \<and> 0 \<le> b \<and> b < prod_list s}" by auto
  also have "\<dots> = {(flat (n # s) c, List.hd c) | c. c \<in> coords (n # s)}" (is "?L = ?R")
  proof (intro subset_antisym subsetI)
    fix e assume "e \<in> ?L"
    then obtain x b where e: "e = (x * prod_list s + b, x)" "0 \<le> x" "x < n" "0 \<le> b" "b < prod_list s" by blast
    obtain d where d: "d \<in> coords s" "flat s d = b" using flat_surj [OF e(4,5)] s(2) by force
    have "e = (flat (n # s) (x # d), List.hd (x # d))" "x # d \<in> coords (n # s)" using e d by auto
    then show "e \<in> ?R" by blast
  next
    fix e assume "e \<in> ?R"
    then obtain c where c: "c \<in> coords (n # s)" "e = (flat (n # s) c, List.hd c)" by blast
    from coords_ConsE [OF c(1)] obtain x d where "c = x # d" "0 \<le> x" "x < n" "d \<in> coords s" by blast
    then show "e \<in> ?L" using flat_bounds [of d s] c(2) by auto
  qed
  finally have cov: "(\<Union>r \<in> set [?r]. region_set r) = {(flat (n # s) c, List.hd c) | c. c \<in> coords (n # s)}" by simp
  have "inj_on (flat (n # s)) (coords (n # s))" using flat_inj by (blast intro: inj_onI)
  from raster_graph [OF cov this, of 0 c zero inputs] show ?thesis using c by (simp add: b o')
qed

section \<open>Concrete inputs\<close>

definition demo_column :: tensor where
  "demo_column = setShape [3, 1, 4] (new_tensor 3 NCHW)"

definition demo_stack :: tensor where
  "demo_stack = setShape [2, 3, 5, 4] (new_tensor 4 NCHW)"

lemma demo_broadcast:
  "shape demo_column = [3, 1, 4]" "shape demo_stack = [2, 3, 5, 4]" "ndim demo_column = 3" "ndim demo_stack = 4"
  by code_simp+

lemma broadcast_correct_witness:
  "raster (- 1) demo_data (broadcastto demo_column demo_stack False) 111 = demo_data 0 11"
proof -
  have "\<forall>i < 3. 0 < len_at demo_column i \<and> (len_at demo_column i = 1 \<or> len_at demo_column i = len_at demo_stack (i + 1))"
    by code_simp
  then show ?thesis using broadcast_correct [of demo_column demo_stack "[1, 2, 2, 3]" "- 1" demo_data] demo_broadcast by simp
qed

lemma broadcast_forward_correct_witness:
  "raster (- 1) demo_data (broadcastTo_compute (Some 1) (setShape [2] (new_tensor 1 NCHW)) demo_stack) 111 = demo_data 0 1"
proof -
  have "shape (setShape [2] (new_tensor 1 NCHW)) = [2]" by code_simp
  then show ?thesis
    using broadcast_forward_correct [of _ 2 demo_stack "[3, 5, 4]" "[1, 2, 2, 3]" "- 1" demo_data] demo_broadcast by simp
qed

end
