(* ===== verification/Shape_Base.thy ===== *)
theory Shape_Base
  imports Tensor_Model
begin

text \<open>
  The frame of shape inference, \<open>source/shape/SizeComputer.cpp\<close>: a size computer takes the
  operator's parameters, the input tensors and the output tensors and either rewrites the outputs or
  answers \<open>false\<close>. A run that reads outside an array, through a missing buffer or divides by zero is
  undefined in C++; it is the error \<open>Undefined\<close> here, and \<open>ReturnFalse\<close> is the answer \<open>false\<close>.
  \<open>MNN_ASSERT\<close> does nothing in a release build. Inputs and outputs are distinct objects.
\<close>

section \<open>Results\<close>

datatype shape_err = ReturnFalse | Undefined

type_synonym 'a res = "shape_err + 'a"

definition rbind :: "'a res \<Rightarrow> ('a \<Rightarrow> 'b res) \<Rightarrow> 'b res" where
  "rbind m f = (case m of Inl e \<Rightarrow> Inl e | Inr x \<Rightarrow> f x)"

definition check :: "bool \<Rightarrow> 'a res \<Rightarrow> 'a res" where
  "check b m = (if b then m else Inl ReturnFalse)"

primrec rfold :: "('b \<Rightarrow> 'a \<Rightarrow> 'a res) \<Rightarrow> 'b list \<Rightarrow> 'a \<Rightarrow> 'a res" where
  "rfold f [] s = Inr s"
| "rfold f (x # xs) s = rbind (f x s) (rfold f xs)"

definition rmap :: "('b \<Rightarrow> 'a res) \<Rightarrow> 'b list \<Rightarrow> 'a list res" where
  "rmap f xs = rfold (\<lambda>x ys. rbind (f x) (\<lambda>y. Inr (ys @ [y]))) xs []"

lemma rbind_simps [simp]: "rbind (Inr x) f = f x" "rbind (Inl e) f = Inl e"
  by (simp_all add: rbind_def)

lemma rbind_eq_Inr: "rbind m f = Inr y \<longleftrightarrow> (\<exists>x. m = Inr x \<and> f x = Inr y)"
  by (cases m) simp_all

lemma check_simps [simp]: "check True m = m" "check False m = Inl ReturnFalse"
  by (simp_all add: check_def)

lemma check_eq_Inr: "check b m = Inr y \<longleftrightarrow> b \<and> m = Inr y"
  by (simp add: check_def)

lemma not_isl_Inr: "\<not> isl m \<Longrightarrow> \<exists>x. m = Inr x"
  by (cases m) simp_all

lemma rfold_append: "rfold f (xs @ ys) s = rbind (rfold f xs s) (rfold f ys)"
proof (induction xs arbitrary: s)
  case (Cons x xs)
  then show ?case by (cases "f x s") simp_all
qed simp

lemma rfold_Inr:
  assumes "\<And>x s. x \<in> set xs \<Longrightarrow> f x s = Inr (g x s)"
  shows "rfold f xs s = Inr (fold g xs s)"
  using assms by (induction xs arbitrary: s) simp_all

text \<open>A left-to-right invariant for a loop that may leave early.\<close>

lemma rfold_invariant:
  assumes "rfold f xs s = Inr s'" and "P [] s"
    and "\<And>ys x zs t t'. xs = ys @ x # zs \<Longrightarrow> P ys t \<Longrightarrow> f x t = Inr t' \<Longrightarrow> P (ys @ [x]) t'"
  shows "P xs s'"
proof -
  have "\<forall>t'. rfold f ys s = Inr t' \<longrightarrow> P ys t'" if "\<exists>zs. xs = ys @ zs" for ys
    using that
  proof (induction ys rule: rev_induct)
    case (snoc y ys)
    then obtain zs where xs: "xs = ys @ y # zs" by auto
    show ?case
    proof (intro allI impI)
      fix t' assume "rfold f (ys @ [y]) s = Inr t'"
      then obtain t where "rfold f ys s = Inr t" and step: "f y t = Inr t'"
        by (auto simp: rfold_append rbind_eq_Inr)
      with snoc.IH xs have "P ys t" by auto
      from assms(3) [OF xs this step] show "P (ys @ [y]) t'" .
    qed
  qed (use assms(2) in auto)
  then show ?thesis using assms(1) by auto
qed

lemma rmap_Inr:
  assumes "\<And>x. x \<in> set xs \<Longrightarrow> f x = Inr (g x)"
  shows "rmap f xs = Inr (map g xs)"
proof -
  have "rfold (\<lambda>x ys. rbind (f x) (\<lambda>y. Inr (ys @ [y]))) xs zs = Inr (zs @ map g xs)" for zs
    using assms by (induction xs arbitrary: zs) simp_all
  then show ?thesis by (simp add: rmap_def)
qed

section \<open>Checked reads\<close>

text \<open>
  \<open>input->buffer().dim[i].extent\<close> at an index computed from operator data, and
  \<open>tensor->host<int32_t>()[i]\<close>.
\<close>

definition dim_at :: "tensor \<Rightarrow> int \<Rightarrow> int res" where
  "dim_at t i = (if 0 \<le> i \<and> i < int max_dim then Inr (len_at t (nat i)) else Inl Undefined)"

definition host_at :: "tensor \<Rightarrow> int \<Rightarrow> int res" where
  "host_at t i = (if 0 \<le> i \<and> nat i < length (contents t) then Inr (contents t ! nat i) else Inl Undefined)"

definition data_at :: "int list \<Rightarrow> int \<Rightarrow> int res" where
  "data_at xs i = (if 0 \<le> i \<and> nat i < length xs then Inr (xs ! nat i) else Inl Undefined)"

definition set_at :: "int \<Rightarrow> int \<Rightarrow> tensor \<Rightarrow> tensor res" where
  "set_at i v t = (if 0 \<le> i \<and> i < int max_dim then Inr (setLength (nat i) v t) else Inl Undefined)"

definition div_c :: "int \<Rightarrow> int \<Rightarrow> int res" where
  "div_c a b = (if b = 0 then Inl Undefined else Inr (a sdiv b))"

lemma upto_map_int: "map int [m..<n] = [int m..int n - 1]"
proof (induction n)
  case (Suc n)
  show ?case
  proof (cases "m \<le> n")
    case True
    then have "[int m..int n] = [int m..int n - 1] @ [int n]" by (simp add: upto_rec2)
    with True Suc show ?thesis by simp
  qed simp
qed simp

lemma dim_at_nat [simp]: "i < max_dim \<Longrightarrow> dim_at t (int i) = Inr (len_at t i)"
  by (simp add: dim_at_def)

lemma set_at_nat [simp]: "i < max_dim \<Longrightarrow> set_at (int i) v t = Inr (setLength i v t)"
  by (simp add: set_at_def)

text \<open>The loop that copies the extents \<open>a..b-1\<close> of a tensor.\<close>

lemma copy_range:
  assumes "0 \<le> a" and "b \<le> int max_dim"
  shows "rfold (\<lambda>i u. rbind (dim_at input i) (\<lambda>d. set_at i d u)) [a..b - 1] t =
     Inr (fill_lengths (nat a) (nat b) (len_at input) t)"
proof -
  have range: "[a..b - 1] = map int [nat a..<nat b]"
    using assms by (cases "0 \<le> b") (simp_all add: upto_map_int)
  have fold_map: "fold f (map int xs) s = fold (\<lambda>i. f (int i)) xs s" for f s and xs :: "nat list"
    by (induction xs arbitrary: s) simp_all
  have "rfold (\<lambda>i u. rbind (dim_at input i) (\<lambda>d. set_at i d u)) (map int [nat a..<nat b]) t =
      Inr (fold (\<lambda>i. setLength (nat i) (len_at input (nat i))) (map int [nat a..<nat b]) t)"
    using assms by (intro rfold_Inr) auto
  then show ?thesis by (simp add: range fill_lengths_def fold_map)
qed

text \<open>Copying type and format from a tensor, as nearly every computer does at its end.\<close>

definition like :: "tensor \<Rightarrow> tensor \<Rightarrow> tensor" where
  "like input t = t\<lparr>ttype := ttype input, dimensionFormat := dimensionFormat input\<rparr>"

lemma like_sel [simp]:
  "extents (like i t) = extents t" "strides (like i t) = strides t" "dimensions (like i t) = dimensions t"
  "ttype (like i t) = ttype i" "dimensionFormat (like i t) = dimensionFormat i" "contents (like i t) = contents t"
  "len_at (like i t) k = len_at t k"
  by (simp_all add: like_def len_at_def)

lemma shape_like [simp]: "shape (like i t) = shape t"
  by (simp add: shape_def)

lemma shape_update [simp]:
  "shape (t\<lparr>ttype := h\<rparr>) = shape t" "shape (t\<lparr>dimensionFormat := f\<rparr>) = shape t"
  by (simp_all add: shape_def)

section \<open>Broadcasting\<close>

definition max_rank_index :: "tensor list \<Rightarrow> nat" where
  "max_rank_index inputs = fst (fold
     (\<lambda>i (mi, md). if md < dimensions (inputs ! i) then (i, dimensions (inputs ! i)) else (mi, md))
     [1..<length inputs] (0, dimensions (inputs ! 0)))"

definition broadcast_dim :: "int \<Rightarrow> int \<Rightarrow> int res" where
  "broadcast_dim dim1 out =
     (if dim1 \<noteq> out \<and> dim1 \<noteq> 1 \<and> out \<noteq> 1 then Inl ReturnFalse
      else if dim1 = out then Inr out
      else Inr (out * dim1))"

definition broadcast_input :: "nat \<Rightarrow> tensor \<Rightarrow> int list \<Rightarrow> int list res" where
  "broadcast_input maxDimensions input1 outputDims =
     (let diff = maxDimensions - ndim input1
      in rfold (\<lambda>i od. rbind (broadcast_dim (len_at input1 (i - diff)) (od ! i)) (\<lambda>v. Inr (od[i := v])))
           [diff..<maxDimensions] outputDims)"

definition computeBroadCastDims :: "tensor list \<Rightarrow> tensor \<Rightarrow> tensor res" where
  "computeBroadCastDims inputs output =
     (let mi = max_rank_index inputs; r = ndim (inputs ! mi)
      in rbind (rfold (\<lambda>index od. if index = mi then Inr od else broadcast_input r (inputs ! index) od)
                  [0..<length inputs] (shape (inputs ! mi)))
           (\<lambda>od. Inr (fill_lengths 0 r (\<lambda>i. od ! i) (output\<lparr>dimensions := int r\<rparr>))))"

section \<open>The dispatcher\<close>

text \<open>
  What \<open>computeOutputSize\<close> distinguishes of an operator; the registered computer of an ordinary
  operator, if there is one, is an argument. A blob or a loop carries the shapes of its outputs.
\<close>

record blob =
  blob_dims :: "int list option"
  blob_format :: data_format
  blob_type :: data_type

datatype op_kind = CopyOp | BlobOp blob | LoopOp "blob list option" | ControlFlowOp
  | PlainOp "(tensor list \<Rightarrow> tensor list \<Rightarrow> tensor list res) option"

text \<open>\<open>source/utils/InitNet.cpp\<close>; the flag tells whether some dimension is not positive.\<close>

definition computeShapeForBlob :: "blob \<Rightarrow> tensor \<Rightarrow> bool \<times> tensor" where
  "computeShapeForBlob b t =
     (let t1 = (case blob_dims b of
                  Some ds \<Rightarrow> fill_lengths 0 (length ds) (\<lambda>i. ds ! i) (t\<lparr>dimensions := int (length ds)\<rparr>)
                | None \<Rightarrow> t\<lparr>dimensions := 0\<rparr>);
          zeroShape = (case blob_dims b of Some ds \<Rightarrow> \<exists>d \<in> set ds. d \<le> 0 | None \<Rightarrow> False);
          t2 = setType (if blob_type b = DT_HALF then DT_FLOAT else blob_type b) t1
      in (zeroShape, setLinearLayout (t2\<lparr>dimensionFormat := blob_format b\<rparr>)))"

definition setBlobShape :: "blob \<Rightarrow> tensor \<Rightarrow> tensor" where
  "setBlobShape b t =
     (let t1 = setType (blob_type b) (t\<lparr>dimensionFormat := blob_format b\<rparr>)
      in case blob_dims b of
           Some ds \<Rightarrow> fill_lengths 0 (length ds) (\<lambda>j. ds ! j) (t1\<lparr>dimensions := int (length ds)\<rparr>)
         | None \<Rightarrow> t1\<lparr>dimensions := 0\<rparr>)"

definition same_shape_output :: "tensor \<Rightarrow> tensor \<Rightarrow> tensor" where
  "same_shape_output input t =
     (copy_dims (ndim input) input t)\<lparr>dimensions := dimensions input, ttype := ttype input,
        dimensionFormat := dimensionFormat input\<rparr>"

definition default_output_size :: "tensor list \<Rightarrow> tensor list \<Rightarrow> tensor list res" where
  "default_output_size inputs outputs =
     (if 1 \<le> length inputs \<and> (length outputs = 1 \<or> length outputs = length inputs)
      then Inr (map (\<lambda>i. same_shape_output (inputs ! i) (outputs ! i)) [0..<length outputs])
      else Inl ReturnFalse)"

definition computeOutputSize :: "op_kind \<Rightarrow> tensor list \<Rightarrow> tensor list \<Rightarrow> tensor list res" where
  "computeOutputSize op inputs outputs =
     (case op of
        BlobOp b \<Rightarrow> (if outputs = [] then Inl Undefined else Inr (snd (computeShapeForBlob b (hd outputs)) # tl outputs))
      | LoopOp None \<Rightarrow> Inl ReturnFalse
      | LoopOp (Some infos) \<Rightarrow>
          (if length infos < length outputs then Inl Undefined
           else Inr (map (\<lambda>i. setBlobShape (infos ! i) (outputs ! i)) [0..<length outputs]))
      | ControlFlowOp \<Rightarrow> Inl ReturnFalse
      | CopyOp \<Rightarrow> default_output_size inputs outputs
      | PlainOp computer \<Rightarrow>
          (if \<exists>t \<in> set inputs. \<exists>d \<in> set (shape t). d < 0 then Inl ReturnFalse
           else case computer of
                  Some f \<Rightarrow> f inputs outputs
                | None \<Rightarrow> default_output_size inputs outputs))"

end
