(* ===== verification/Shape_Basic.thy ===== *)
theory Shape_Basic
  imports Shape_Base
begin

text \<open>
  Size computers that rearrange dimensions, in \<open>source/shape\<close>: \<open>ShapeBinaryOp\<close>, \<open>ShapePermute\<close>,
  \<open>ShapeTranspose\<close>, \<open>ShapeTile\<close>, \<open>ShapeBroadcastTo\<close>, \<open>ShapeExpandDims\<close>, \<open>ShapeSqueeze\<close> (both
  computers), \<open>ShapeReshape\<close> (reshape and flatten) and \<open>ShapeConcat\<close>. The output argument is
  \<open>outputs[0]\<close> as it was before the call.
\<close>

section \<open>Binary operators\<close>

datatype binary_op = GREATER_EQUAL | GREATER | LESS | LESS_EQUAL | EQUAL | NOTEQUAL | ARITHMETIC

definition outputBool :: "binary_op \<Rightarrow> bool" where
  "outputBool operation \<longleftrightarrow> operation \<noteq> ARITHMETIC"

definition binary_size :: "binary_op \<Rightarrow> tensor \<Rightarrow> tensor \<Rightarrow> tensor \<Rightarrow> tensor res" where
  "binary_size operation input0 input1 output =
     (let o1 = output\<lparr>ttype := (if outputBool operation then int32_type else ttype input0)\<rparr>
      in check (code (ttype input0) = code (ttype input1))
           (let first = (if dimensions input0 < dimensions input1 then input1 else input0)
            in computeBroadCastDims [input0, input1] (o1\<lparr>dimensionFormat := dimensionFormat first\<rparr>)))"

section \<open>Permute and transpose\<close>

definition permute_size :: "int list option \<Rightarrow> tensor \<Rightarrow> tensor \<Rightarrow> tensor res" where
  "permute_size dims input output =
     (let n = ndim input; o1 = output\<lparr>dimensions := dimensions input\<rparr>
      in rbind (case dims of
                  Some ds \<Rightarrow> rfold (\<lambda>i u. rbind (data_at ds (int i)) (\<lambda>d. rbind (dim_at input d) (\<lambda>v.
                                Inr (setLength i v u)))) [0..<n] o1
                | None \<Rightarrow> Inr (fill_lengths 0 n (\<lambda>i. len_at input (n - i - 1)) o1))
           (\<lambda>u. Inr (like input u)))"

definition transpose_size :: "tensor \<Rightarrow> tensor \<Rightarrow> tensor \<Rightarrow> tensor res" where
  "transpose_size input perm output =
     (let dims = dimensions input
      in check (code (ttype perm) = halide_type_int \<and> bits (ttype perm) = 32 \<and> dims = len_at perm 0)
           (rbind (rfold (\<lambda>i (used, u). rbind (host_at perm (int i)) (\<lambda>d.
                      check (0 \<le> d \<and> d < dims) (check (\<not> used ! nat d)
                        (Inr (used[nat d := True], setLength i (len_at input (nat d)) u)))))
                    [0..<nat dims]
                    (replicate max_dim False, output\<lparr>dimensions := dims, ttype := ttype input\<rparr>))
              (\<lambda>(used, u). Inr (u\<lparr>dimensionFormat := dimensionFormat input\<rparr>))))"

section \<open>Tile and broadcast\<close>

definition tile_size :: "tensor \<Rightarrow> tensor \<Rightarrow> tensor \<Rightarrow> tensor res" where
  "tile_size input multiples output =
     (let o1 = (copy_dims (ndim input) input output)\<lparr>dimensions := dimensions input, ttype := ttype input\<rparr>
      in rbind (rfold (\<lambda>i u. rbind (host_at multiples (int i)) (\<lambda>m. Inr (setLength i (len_at input i * m) u)))
                  [0..<ndim input] o1)
           (\<lambda>u. Inr (u\<lparr>dimensionFormat := dimensionFormat input\<rparr>)))"

definition broadcastTo_align :: "nat \<Rightarrow> int list \<Rightarrow> tensor \<Rightarrow> tensor res" where
  "broadcastTo_align offset alignShape output =
     rfold (\<lambda>i u. rbind (data_at alignShape (int (i - offset))) (\<lambda>dim1.
              let dim2 = len_at u i
              in if dim1 \<noteq> dim2 \<and> dim1 \<noteq> 1 \<and> dim2 \<noteq> 1 then Inl ReturnFalse
                 else if dim1 = dim2 then Inr u
                 else if dim1 \<noteq> 1 then Inr (setLength i dim1 u)
                 else Inr u))
       [offset..<ndim output] output"

text \<open>\<open>hasAxis\<close> says that the operator has a non-null \<open>axis\<close> list.\<close>

definition broadcastTo_size :: "bool \<Rightarrow> tensor \<Rightarrow> tensor \<Rightarrow> tensor \<Rightarrow> tensor res" where
  "broadcastTo_size hasAxis input shp output =
     (let inputDims = dimensions input; shapeDims = elementSize shp;
          o1 = output\<lparr>dimensions := (if shapeDims < inputDims then inputDims else shapeDims)\<rparr>
      in rbind (if hasAxis then
                  rfold (\<lambda>i u. rbind (host_at shp (int i)) (\<lambda>v. Inr (setLength i v u))) [0..<ndim o1] o1
                else if shapeDims < inputDims then
                  rbind (rmap (\<lambda>i. host_at shp (int i)) [0..<nat shapeDims]) (\<lambda>align.
                    broadcastTo_align (nat (inputDims - shapeDims)) align
                      (fill_lengths 0 (ndim input) (len_at input) o1))
                else
                  rbind (rfold (\<lambda>i u. rbind (host_at shp (int i)) (\<lambda>v. Inr (setLength i v u)))
                           [0..<nat shapeDims] o1) (\<lambda>u.
                    broadcastTo_align (nat (shapeDims - inputDims)) (shape input) u))
           (\<lambda>u. Inr (like input u)))"

section \<open>Expanding and squeezing\<close>

text \<open>\<open>dim\<close> is read from the second input or from the parameter.\<close>

definition expandDims_dim :: "int \<Rightarrow> tensor option \<Rightarrow> int res" where
  "expandDims_dim axis input1 = (case input1 of Some dims \<Rightarrow> host_at dims 0 | None \<Rightarrow> Inr axis)"

definition expandDims_size :: "int \<Rightarrow> tensor \<Rightarrow> tensor option \<Rightarrow> tensor \<Rightarrow> tensor res" where
  "expandDims_size axis input input1 output =
     rbind (expandDims_dim axis input1) (\<lambda>dim0.
       (let dim = (if dim0 < 0 then dimensions input + 1 + dim0 else dim0);
            (n, u) = fold (\<lambda>i (k, u).
                        if int i = dim then (k + 2, setLength (k + 1) (len_at input i) (setLength k 1 u))
                        else (k + 1, setLength k (len_at input i) u))
                       [0..<ndim input] (0, output\<lparr>ttype := ttype input\<rparr>);
            (n', u') = (if dim = dimensions input then (n + 1, setLength n 1 u) else (n, u))
        in Inr (u'\<lparr>dimensions := int n', dimensionFormat := dimensionFormat input\<rparr>)))"

text \<open>The axes: the parameter when it is there, else the second input, else none.\<close>

definition squeeze_dims :: "int list option \<Rightarrow> tensor option \<Rightarrow> int list res" where
  "squeeze_dims param input1 =
     (case (param, input1) of
        (Some ds, _) \<Rightarrow> Inr ds
      | (None, Some t) \<Rightarrow> rmap (\<lambda>i. host_at t (int i)) [0..<nat (elementSize t)]
      | (None, None) \<Rightarrow> Inr [])"

definition unsqueeze_mask :: "int \<Rightarrow> int list \<Rightarrow> bool list res" where
  "unsqueeze_mask dims squeezeDim =
     rfold (\<lambda>d mask. let axis = (if d < 0 then d + dims else d)
                     in check (0 \<le> axis \<and> axis < dims) (Inr (mask[nat axis := True])))
       squeezeDim (replicate max_dim False)"

definition unsqueeze_size :: "int list option \<Rightarrow> tensor \<Rightarrow> tensor option \<Rightarrow> tensor \<Rightarrow> tensor res" where
  "unsqueeze_size param input input1 output =
     rbind (squeeze_dims param input1) (\<lambda>squeezeDim.
       (let dims = dimensions input + int (length squeezeDim)
        in check (dims \<le> int max_dim \<and> 0 \<le> dims)
             (rbind (unsqueeze_mask dims squeezeDim) (\<lambda>mask.
                (let (k, u) = fold (\<lambda>i (k, u).
                                if mask ! i then (k, setLength i 1 u)
                                else (k + 1, setLength i (len_at input k) (setLength i 1 u)))
                              [0..<nat dims] (0, output\<lparr>dimensions := dims\<rparr>)
                 in Inr (like input u))))))"

definition squeeze_mask :: "tensor \<Rightarrow> int list \<Rightarrow> bool list res" where
  "squeeze_mask input squeezeDim =
     rbind (rfold (\<lambda>d mask. let axis = (if d < 0 then d + dimensions input else d)
                            in check (0 \<le> axis \<and> axis < dimensions input)
                                 (check (len_at input (nat axis) = 1) (Inr (mask[nat axis := True]))))
              squeezeDim (replicate max_dim False))
       (\<lambda>mask. Inr (if squeezeDim = []
                    then fold (\<lambda>i m. if len_at input i = 1 then m[i := True] else m) [0..<ndim input] mask
                    else mask))"

definition squeeze_size :: "int list option \<Rightarrow> tensor \<Rightarrow> tensor option \<Rightarrow> tensor \<Rightarrow> tensor res" where
  "squeeze_size param input input1 output =
     rbind (squeeze_dims param input1) (\<lambda>squeezeDim.
       rbind (squeeze_mask input squeezeDim) (\<lambda>mask.
         (let actualSqueeze = length (filter (\<lambda>i. mask ! i) [0..<ndim input]);
              (k, u) = fold (\<lambda>i (k, u). if mask ! i then (k, u) else (k + 1, setLength k (len_at input i) u))
                         [0..<ndim input] (0, output\<lparr>dimensions := dimensions input - int actualSqueeze\<rparr>)
          in Inr (like input u))))"

section \<open>Flatten and reshape\<close>

definition prod_range :: "tensor \<Rightarrow> int \<Rightarrow> int \<Rightarrow> int res" where
  "prod_range t a b = rfold (\<lambda>i p. rbind (dim_at t i) (\<lambda>d. Inr (p * d))) [a..b - 1] 1"

definition flatten_size :: "int \<Rightarrow> int \<Rightarrow> tensor \<Rightarrow> tensor \<Rightarrow> tensor res" where
  "flatten_size axis0 endAxis0 input output =
     (let dim = dimensions input;
          axis = (if axis0 < 0 then axis0 + dim else axis0);
          endAxis = (if endAxis0 < 0 then endAxis0 + dim else endAxis0)
      in rbind (if endAxis = 0 then
                  rbind (prod_range input 0 axis) (\<lambda>outside.
                    rbind (prod_range input axis dim) (\<lambda>inside.
                      Inr (setLength 1 inside (setLength 0 outside (output\<lparr>dimensions := 2\<rparr>)))))
                else
                  rbind (rfold (\<lambda>i u. rbind (dim_at input i) (\<lambda>d. set_at i d u)) [0..axis - 1]
                           (output\<lparr>dimensions := dim - endAxis + axis\<rparr>)) (\<lambda>u1.
                    rbind (prod_range input axis (endAxis + 1)) (\<lambda>outside.
                      rbind (set_at axis outside u1) (\<lambda>u2.
                        if endAxis + 1 < dim
                        then rfold (\<lambda>i u. rbind (dim_at input i) (\<lambda>d. set_at i d u)) [endAxis + 1..dim - 1] u2
                        else Inr u2))))
           (\<lambda>u. Inr (like input u)))"

text \<open>
  The requested shape: from the parameter, or from the second input, whose axes are moved when an
  \<open>NC4HW4\<close> tensor is reshaped with a shape given in \<open>NHWC\<close> order.
\<close>

definition reshape_dims :: "int list \<Rightarrow> data_format \<Rightarrow> tensor \<Rightarrow> tensor option \<Rightarrow> int list res" where
  "reshape_dims param dimType input input1 =
     (case input1 of
        None \<Rightarrow> Inr param
      | Some inputShape \<Rightarrow>
          check (ttype inputShape = int32_type \<or> ttype inputShape = \<lparr>code = halide_type_int, bits = 64\<rparr>)
            (if dimensionFormat input = NC4HW4 \<and> dimType = NHWC then
               (if 4 < elementSize inputShape then Inl Undefined
                else rbind (rmap (host_at inputShape) [0, 3, 1, 2]) (\<lambda>s.
                  Inr (map to_int32 (take (nat (elementSize inputShape)) s))))
             else rbind (rmap (\<lambda>i. host_at inputShape (int i)) [0..<nat (elementSize inputShape)]) (\<lambda>s.
               Inr (map to_int32 s))))"

definition reshape_size ::
  "int list \<Rightarrow> data_format \<Rightarrow> tensor \<Rightarrow> tensor option \<Rightarrow> tensor \<Rightarrow> tensor res" where
  "reshape_size param dimType input input1 output =
     rbind (reshape_dims param dimType input input1) (\<lambda>shapes.
       if max_dim < length shapes then Inl Undefined else
       (let fromTf = (case input1 of Some s \<Rightarrow> dimensionFormat s = NHWC | None \<Rightarrow> False);
            dimSize = length shapes;
            totalSizeInput = prod_list (shape input);
            o1 = output\<lparr>ttype := ttype input, dimensions := int dimSize\<rparr>;
            (determinAxis, o2) =
              fold (\<lambda>i (k, u).
                  if shapes ! i = -1 then (int i, setLength i 1 u)
                  else if shapes ! i = 0 \<and> \<not> fromTf then (k, setLength i (len_at input i) u)
                  else (k, setLength i (shapes ! i) u))
                [0..<dimSize] (-1, o1);
            total = prod_list (map (len_at o2) [0..<dimSize]);
            (o3, totalSizeOutput) =
              (if 0 \<le> determinAxis then
                 (let d = (if total \<noteq> 0 then totalSizeInput sdiv total else 0)
                  in (setLength (nat determinAxis) d o2, total * d))
               else (o2, total))
        in check (totalSizeInput = totalSizeOutput)
             (Inr (o3\<lparr>dimensionFormat := dimensionFormat input\<rparr>))))"

section \<open>Concat\<close>

definition concat_ranks_ok :: "tensor list \<Rightarrow> int \<Rightarrow> bool" where
  "concat_ranks_ok inputs axis \<longleftrightarrow>
     (\<forall>i \<in> set [0..<length inputs].
        0 < dimensions (inputs ! i) \<and> dimensions (inputs ! i) \<le> int max_dim \<and>
        (if i = 0 then 0 \<le> axis \<and> axis < dimensions (inputs ! 0)
         else dimensions (inputs ! i) = dimensions (inputs ! 0)))"

definition concat_input :: "nat \<Rightarrow> tensor \<Rightarrow> int \<times> tensor \<Rightarrow> (int \<times> tensor) res" where
  "concat_input axis t = (\<lambda>(sum, out).
     check (int axis < dimensions t)
       (let out1 = out\<lparr>ttype := ttype t\<rparr>
        in check (\<forall>i \<in> set [0..<ndim t]. i \<noteq> axis \<longrightarrow> len_at t i = len_at out1 i)
             (Inr (sum + len_at t axis, out1))))"

definition concat_size :: "int \<Rightarrow> tensor list \<Rightarrow> tensor \<Rightarrow> tensor res" where
  "concat_size basicAxis inputs output =
     (if inputs = [] then Inl ReturnFalse
      else
        (let i0 = inputs ! 0; axis = (if basicAxis < 0 then dimensions i0 + basicAxis else basicAxis);
             o1 = (copy_dims (ndim i0) i0 output)\<lparr>dimensions := dimensions i0, ttype := ttype i0\<rparr>
         in check (concat_ranks_ok inputs axis)
              (rbind (rfold (concat_input (nat axis)) inputs (0, o1)) (\<lambda>(sum, u).
                 Inr ((setLength (nat axis) sum u)\<lparr>dimensionFormat := dimensionFormat i0\<rparr>)))))"

end
