(* ===== verification/Shape_Broadcast.thy ===== *)
theory Shape_Broadcast
  imports Shape_Basic
begin

text \<open>
  Broadcasting against its specification: the shapes are aligned at their last dimension, every
  column of extents may hold one value besides 1, and the result takes that value.
\<close>

section \<open>The specification of one column\<close>

definition bcast_ok :: "int list \<Rightarrow> bool" where
  "bcast_ok ds \<longleftrightarrow> (\<forall>a \<in> set ds. \<forall>b \<in> set ds. a = b \<or> a = 1 \<or> b = 1)"

definition bcast_val :: "int list \<Rightarrow> int" where
  "bcast_val ds = (case filter (\<lambda>d. d \<noteq> 1) ds of [] \<Rightarrow> 1 | d # _ \<Rightarrow> d)"

definition bcast_column :: "nat \<Rightarrow> tensor list \<Rightarrow> nat \<Rightarrow> int list" where
  "bcast_column r ts i = map (\<lambda>t. len_at t (i - (r - ndim t))) (filter (\<lambda>t. r - ndim t \<le> i) ts)"

lemma bcast_val_cases: "bcast_val ds = 1 \<and> set ds \<subseteq> {1} \<or> bcast_val ds \<noteq> 1 \<and> bcast_val ds \<in> set ds"
proof (cases "filter (\<lambda>d. d \<noteq> 1) ds")
  case Nil
  then show ?thesis by (auto simp: bcast_val_def filter_empty_conv)
next
  case (Cons d es)
  have "d \<in> set (filter (\<lambda>d. d \<noteq> 1) ds)" unfolding Cons by simp
  then have "d \<noteq> 1" "d \<in> set ds" by simp_all
  then show ?thesis by (simp add: bcast_val_def Cons)
qed

lemma bcast_val_eqI:
  assumes "bcast_ok ds" and "v \<noteq> 1 \<and> v \<in> set ds \<or> v = 1 \<and> set ds \<subseteq> {1}"
  shows "bcast_val ds = v"
  using bcast_val_cases [of ds] assms unfolding bcast_ok_def by blast

lemma bcast_val_set: "set ds = set es \<Longrightarrow> bcast_ok es \<Longrightarrow> bcast_val ds = bcast_val es"
  using bcast_val_cases [of es] by (intro bcast_val_eqI) (auto simp: bcast_ok_def)

lemma bcast_ok_set: "set ds = set es \<Longrightarrow> bcast_ok ds = bcast_ok es"
  by (simp add: bcast_ok_def)

lemma bcast_val_member: "bcast_ok ds \<Longrightarrow> d \<in> set ds \<Longrightarrow> d = 1 \<or> d = bcast_val ds"
  using bcast_val_cases [of ds] by (auto simp: bcast_ok_def)

lemma broadcast_dim_step:
  assumes "bcast_ok xs"
  shows "broadcast_dim d (bcast_val xs) =
     (if bcast_ok (xs @ [d]) then Inr (bcast_val (xs @ [d])) else Inl ReturnFalse)"
proof (cases "bcast_ok (xs @ [d])")
  case True
  have mem: "bcast_val xs = 1 \<or> bcast_val xs \<in> set xs" using bcast_val_cases [of xs] by blast
  then have pair: "d = bcast_val xs \<or> d = 1 \<or> bcast_val xs = 1" using True by (auto simp: bcast_ok_def)
  then have dim: "broadcast_dim d (bcast_val xs) = Inr (if bcast_val xs = 1 then d else bcast_val xs)"
    by (auto simp: broadcast_dim_def)
  have "bcast_val (xs @ [d]) = (if bcast_val xs = 1 then d else bcast_val xs)"
    using bcast_val_cases [of xs] pair by (intro bcast_val_eqI [OF True]) auto
  then show ?thesis using True dim by simp
next
  case False
  then obtain a where a: "a \<in> set xs" "a \<noteq> d" "a \<noteq> 1" "d \<noteq> 1" using assms by (auto simp: bcast_ok_def)
  then have "bcast_val xs = a" using bcast_val_member [OF assms a(1)] by simp
  then show ?thesis using False a by (simp add: broadcast_dim_def)
qed

section \<open>The loops\<close>

lemma rfold_pointwise:
  assumes "distinct js" and "\<forall>j \<in> set js. j < length od"
    and "\<And>j v. j \<in> set js \<Longrightarrow> g j (od ! j) = (if p j then Inr (h j) else Inl e)"
  shows "rfold (\<lambda>j od. rbind (g j (od ! j)) (\<lambda>v. Inr (od[j := v]))) js od =
     (if \<forall>j \<in> set js. p j then Inr (map (\<lambda>i. if i \<in> set js then h i else od ! i) [0..<length od]) else Inl e)"
  using assms
proof (induction js arbitrary: od)
  case Nil
  then show ?case by (simp add: map_nth)
next
  case (Cons j js)
  show ?case
  proof (cases "p j")
    case True
    then have "g j (od ! j) = Inr (h j)" using Cons.prems(3) [of j] by simp
    then have "rfold (\<lambda>j od. rbind (g j (od ! j)) (\<lambda>v. Inr (od[j := v]))) (j # js) od =
        rfold (\<lambda>j od. rbind (g j (od ! j)) (\<lambda>v. Inr (od[j := v]))) js (od[j := h j])" by simp
    also have "\<dots> = (if \<forall>j \<in> set js. p j
        then Inr (map (\<lambda>i. if i \<in> set js then h i else od[j := h j] ! i) [0..<length (od[j := h j])]) else Inl e)"
    proof (rule Cons.IH)
      fix k assume k: "k \<in> set js"
      then have "k \<noteq> j" using Cons.prems(1) by auto
      then show "g k (od[j := h j] ! k) = (if p k then Inr (h k) else Inl e)"
        using Cons.prems(3) [of k] k by simp
    qed (use Cons.prems in simp_all)
    finally show ?thesis using True Cons.prems(1,2) by (auto simp: nth_list_update_if)
  qed (use Cons.prems(3) in simp)
qed

lemma bcast_column_append: "bcast_column r (ts @ us) i = bcast_column r ts i @ bcast_column r us i"
  by (simp add: bcast_column_def)

lemma broadcast_input_step:
  assumes "ndim t \<le> r" and ok: "\<forall>i < r. bcast_ok (bcast_column r ts i)"
  shows "broadcast_input r t (map (\<lambda>i. bcast_val (bcast_column r ts i)) [0..<r]) =
     (if \<forall>i < r. bcast_ok (bcast_column r (ts @ [t]) i)
      then Inr (map (\<lambda>i. bcast_val (bcast_column r (ts @ [t]) i)) [0..<r]) else Inl ReturnFalse)"
proof -
  let ?d = "r - ndim t" and ?od = "map (\<lambda>i. bcast_val (bcast_column r ts i)) [0..<r]"
  let ?p = "\<lambda>i. bcast_ok (bcast_column r (ts @ [t]) i)"
  let ?h = "\<lambda>i. bcast_val (bcast_column r (ts @ [t]) i)"
  have col: "bcast_column r (ts @ [t]) i = (if ?d \<le> i then bcast_column r ts i @ [len_at t (i - ?d)] else bcast_column r ts i)" for i
    by (simp add: bcast_column_def)
  have "broadcast_input r t ?od =
      (if \<forall>j \<in> set [?d..<r]. ?p j then Inr (map (\<lambda>i. if i \<in> set [?d..<r] then ?h i else ?od ! i) [0..<length ?od])
       else Inl ReturnFalse)"
    unfolding broadcast_input_def Let_def
  proof (rule rfold_pointwise)
    fix j assume "j \<in> set [?d..<r]"
    then show "broadcast_dim (len_at t (j - ?d)) (?od ! j) = (if ?p j then Inr (?h j) else Inl ReturnFalse)"
      using broadcast_dim_step [of "bcast_column r ts j" "len_at t (j - ?d)"] ok by (simp add: col)
  qed auto
  moreover have "(\<forall>j \<in> set [?d..<r]. ?p j) = (\<forall>i < r. ?p i)" using ok col by auto
  moreover have "map (\<lambda>i. if i \<in> set [?d..<r] then ?h i else ?od ! i) [0..<length ?od] = map ?h [0..<r]"
    using col by auto
  ultimately show ?thesis by (simp only:)
qed

lemma bcast_ok_prefix: "bcast_ok (xs @ ys) \<Longrightarrow> bcast_ok xs"
  by (simp add: bcast_ok_def)

lemma bcast_ok_prefix_column:
  "\<forall>i < r. bcast_ok (bcast_column r (ts @ us) i) \<Longrightarrow> \<forall>i < r. bcast_ok (bcast_column r ts i)"
  using bcast_ok_prefix by (metis bcast_column_append)

lemma broadcast_inputs:
  assumes "\<forall>t \<in> set us. ndim t \<le> r" and "\<forall>i < r. bcast_ok (bcast_column r ts i)"
  shows "rfold (broadcast_input r) us (map (\<lambda>i. bcast_val (bcast_column r ts i)) [0..<r]) =
     (if \<forall>i < r. bcast_ok (bcast_column r (ts @ us) i)
      then Inr (map (\<lambda>i. bcast_val (bcast_column r (ts @ us) i)) [0..<r]) else Inl ReturnFalse)"
  using assms
proof (induction us arbitrary: ts)
  case (Cons u us)
  show ?case
  proof (cases "\<forall>i < r. bcast_ok (bcast_column r (ts @ [u]) i)")
    case True
    have "broadcast_input r u (map (\<lambda>i. bcast_val (bcast_column r ts i)) [0..<r]) =
        Inr (map (\<lambda>i. bcast_val (bcast_column r (ts @ [u]) i)) [0..<r])"
      using Cons.prems True by (subst broadcast_input_step) simp_all
    moreover have "rfold (broadcast_input r) us (map (\<lambda>i. bcast_val (bcast_column r (ts @ [u]) i)) [0..<r]) =
     (if \<forall>i < r. bcast_ok (bcast_column r ((ts @ [u]) @ us) i)
      then Inr (map (\<lambda>i. bcast_val (bcast_column r ((ts @ [u]) @ us) i)) [0..<r]) else Inl ReturnFalse)"
      using Cons.prems by (intro Cons.IH True) simp
    ultimately show ?thesis by (simp only: rfold.simps rbind_simps append_assoc append_Cons append_Nil)
  next
    case False
    then have neg: "\<not> (\<forall>i < r. bcast_ok (bcast_column r (ts @ u # us) i))"
      using bcast_ok_prefix_column [of r "ts @ [u]" us] by (simp only: append_assoc append_Cons append_Nil) blast
    have "broadcast_input r u (map (\<lambda>i. bcast_val (bcast_column r ts i)) [0..<r]) = Inl ReturnFalse"
      using Cons.prems False by (subst broadcast_input_step) simp_all
    then show ?thesis unfolding if_not_P [OF neg] by simp
  qed
qed simp

lemma rfold_skip:
  "rfold (\<lambda>i s. if i = m then Inr s else f (xs ! i) s) js = rfold f (map ((!) xs) (filter (\<lambda>i. i \<noteq> m) js))"
proof (induction js)
  case (Cons j js)
  show ?case by (rule ext) (simp add: Cons.IH)
qed (simp add: fun_eq_iff)

lemma max_rank_index_correct:
  assumes "inputs \<noteq> []"
  shows "max_rank_index inputs < length inputs"
    and "t \<in> set inputs \<Longrightarrow> dimensions t \<le> dimensions (inputs ! max_rank_index inputs)"
proof -
  let ?f = "\<lambda>i (mi, md). if md < dimensions (inputs ! i) then (i, dimensions (inputs ! i)) else (mi, md)"
  have *: "\<exists>mi. fold ?f [1..<k] (0, dimensions (inputs ! 0)) = (mi, dimensions (inputs ! mi)) \<and> mi < k \<and>
      (\<forall>j < k. dimensions (inputs ! j) \<le> dimensions (inputs ! mi))" if "1 \<le> k" for k
    using that
  proof (induction k rule: dec_induct)
    case base
    then show ?case by simp
  next
    case (step k)
    then obtain mi where mi: "fold ?f [1..<k] (0, dimensions (inputs ! 0)) = (mi, dimensions (inputs ! mi))" "mi < k"
      "\<forall>j < k. dimensions (inputs ! j) \<le> dimensions (inputs ! mi)" by blast
    then have "fold ?f [1..<Suc k] (0, dimensions (inputs ! 0)) = ?f k (mi, dimensions (inputs ! mi))"
      using step.hyps by simp
    with mi show ?case by (auto simp: less_Suc_eq intro: order_trans less_imp_le)
  qed
  have "1 \<le> length inputs" using assms by (cases inputs) auto
  from * [OF this] obtain mi where mi: "max_rank_index inputs = mi" "mi < length inputs"
    "\<forall>j < length inputs. dimensions (inputs ! j) \<le> dimensions (inputs ! mi)"
    by (auto simp: max_rank_index_def)
  then show "max_rank_index inputs < length inputs"
    and "t \<in> set inputs \<Longrightarrow> dimensions t \<le> dimensions (inputs ! max_rank_index inputs)"
    by (auto simp: in_set_conv_nth)
qed

lemma set_skip_nth: "m < length xs \<Longrightarrow>
   set (xs ! m # map ((!) xs) (filter (\<lambda>i. i \<noteq> m) [0..<length xs])) = set xs"
proof -
  assume m: "m < length xs"
  have "set xs = (!) xs ` {0..<length xs}" by (auto simp: in_set_conv_nth)
  also have "{0..<length xs} = insert m {i \<in> {0..<length xs}. i \<noteq> m}" using m by auto
  finally show ?thesis by (simp add: Collect_conj_eq)
qed

lemma set_bcast_column: "set ts = set us \<Longrightarrow> set (bcast_column r ts i) = set (bcast_column r us i)"
  by (simp add: bcast_column_def)

lemma computeBroadCastDims_eq:
  assumes ne: "inputs \<noteq> []" and r: "r = ndim (inputs ! max_rank_index inputs)"
  shows "computeBroadCastDims inputs output =
     (if \<forall>i < r. bcast_ok (bcast_column r inputs i)
      then Inr (fill_lengths 0 r (\<lambda>i. bcast_val (bcast_column r inputs i)) (output\<lparr>dimensions := int r\<rparr>))
      else Inl ReturnFalse)"
proof -
  let ?m = "max_rank_index inputs"
  let ?us = "map ((!) inputs) (filter (\<lambda>i. i \<noteq> ?m) [0..<length inputs])"
  note m = max_rank_index_correct [OF ne]
  have le: "\<forall>t \<in> set inputs. ndim t \<le> r" unfolding r using m(2) by (simp add: nat_mono)
  have us: "set (inputs ! ?m # ?us) = set inputs" by (rule set_skip_nth [OF m(1)])
  have first: "bcast_column r [inputs ! ?m] i = [len_at (inputs ! ?m) i]" for i
    by (simp add: bcast_column_def r)
  have colset: "set (bcast_column r ([inputs ! ?m] @ ?us) i) = set (bcast_column r inputs i)" for i
    by (rule set_bcast_column) (use us in simp)
  have val1: "bcast_val [d] = d" for d by (simp add: bcast_val_def)
  have start: "shape (inputs ! ?m) = map (\<lambda>i. bcast_val (bcast_column r [inputs ! ?m] i)) [0..<r]"
    unfolding first val1 by (simp add: shape_def r)
  have "rfold (\<lambda>index od. if index = ?m then Inr od else broadcast_input r (inputs ! index) od)
      [0..<length inputs] (shape (inputs ! ?m)) =
     (if \<forall>i < r. bcast_ok (bcast_column r ([inputs ! ?m] @ ?us) i)
      then Inr (map (\<lambda>i. bcast_val (bcast_column r ([inputs ! ?m] @ ?us) i)) [0..<r]) else Inl ReturnFalse)"
    unfolding rfold_skip [where f = "broadcast_input r"] start
    by (rule broadcast_inputs) (use le us first in \<open>auto simp: bcast_ok_def\<close>)
  moreover have "(\<forall>i < r. bcast_ok (bcast_column r ([inputs ! ?m] @ ?us) i)) = (\<forall>i < r. bcast_ok (bcast_column r inputs i))"
    using bcast_ok_set [OF colset] by (simp only:)
  moreover have "bcast_val (bcast_column r ([inputs ! ?m] @ ?us) i) = bcast_val (bcast_column r inputs i)"
    if "bcast_ok (bcast_column r inputs i)" for i
    using bcast_val_set [OF colset that] .
  moreover have "fill_lengths 0 r f t = fill_lengths 0 r g t" if "\<forall>i < r. f i = g i" for f g t
    using that unfolding fill_lengths_def by (intro fold_cong) auto
  ultimately show ?thesis
    unfolding computeBroadCastDims_def Let_def r [symmetric] by auto
qed

section \<open>Properties\<close>

lemma bcast_result_sel:
  assumes "computeBroadCastDims inputs output = Inr u" and "inputs \<noteq> []" and "wf_tensor output"
    and "r = ndim (inputs ! max_rank_index inputs)" and "r \<le> 9"
  shows "shape u = map (\<lambda>i. bcast_val (bcast_column r inputs i)) [0..<r]"
    and "\<And>i. i < r \<Longrightarrow> bcast_ok (bcast_column r inputs i)"
proof -
  have u: "u = fill_lengths 0 r (\<lambda>i. bcast_val (bcast_column r inputs i)) (output\<lparr>dimensions := int r\<rparr>)"
    and ok: "\<forall>i < r. bcast_ok (bcast_column r inputs i)"
    using assms(1) unfolding computeBroadCastDims_eq [OF assms(2,4)] by (simp_all split: if_splits)
  show "shape u = map (\<lambda>i. bcast_val (bcast_column r inputs i)) [0..<r]"
    using shape_fill [where n = "int r" and t = "output"] wf_tensorD(1) [OF assms(3)] assms(5) by (simp add: u)
  show "\<And>i. i < r \<Longrightarrow> bcast_ok (bcast_column r inputs i)" using ok by simp
qed

lemma broadcast_spec_facts:
  assumes "inputs \<noteq> []" and "wf_tensor output" and "\<forall>t \<in> set inputs. wf_tensor t"
    and "r = Max (ndim ` set inputs)"
  shows "(\<exists>u. computeBroadCastDims inputs output = Inr u) \<longleftrightarrow> (\<forall>i < r. bcast_ok (bcast_column r inputs i))"
    and "computeBroadCastDims inputs output = Inr u \<Longrightarrow>
      shape u = map (\<lambda>i. bcast_val (bcast_column r inputs i)) [0..<r]"
    and "computeBroadCastDims inputs output \<noteq> Inl Undefined"
proof -
  note m = max_rank_index_correct [OF assms(1)]
  have "r = ndim (inputs ! max_rank_index inputs)"
    unfolding assms(4) using m by (intro Max_eqI) (auto intro: nat_mono)
  note r = this
  have "inputs ! max_rank_index inputs \<in> set inputs" using m(1) by simp
  then have "r \<le> 9" using assms(3) r wf_tensorD(2) by blast
  note eq = computeBroadCastDims_eq [OF assms(1) r]
  show "(\<exists>u. computeBroadCastDims inputs output = Inr u) \<longleftrightarrow> (\<forall>i < r. bcast_ok (bcast_column r inputs i))"
    unfolding eq by simp
  show "computeBroadCastDims inputs output = Inr u \<Longrightarrow>
      shape u = map (\<lambda>i. bcast_val (bcast_column r inputs i)) [0..<r]"
    using bcast_result_sel(1) [OF _ assms(1,2) r \<open>r \<le> 9\<close>] .
  show "computeBroadCastDims inputs output \<noteq> Inl Undefined" unfolding eq by simp
qed


text \<open>
  C34. Broadcasting of any number of inputs, whatever their order: it succeeds exactly when, with the
  shapes aligned at the last dimension, no column holds two different extents other than 1, and then
  the output has the rank of the deepest input and takes in every column the extent that is not 1.
\<close>

theorem broadcast_spec:
  assumes "inputs \<noteq> []" and "wf_tensor output" and "\<forall>t \<in> set inputs. wf_tensor t"
    and "r = Max (ndim ` set inputs)"
  shows "((\<exists>u. computeBroadCastDims inputs output = Inr u) \<longleftrightarrow>
       (\<forall>i < r. bcast_ok (bcast_column r inputs i))) \<and>
     (\<forall>u. computeBroadCastDims inputs output = Inr u \<longrightarrow>
       shape u = map (\<lambda>i. bcast_val (bcast_column r inputs i)) [0..<r]) \<and>
     computeBroadCastDims inputs output \<noteq> Inl Undefined"
  using broadcast_spec_facts [OF assms] by blast

text \<open>Tensors for the witnesses.\<close>

definition demo_tensor :: "int list \<Rightarrow> tensor" where
  "demo_tensor ds = (createDevice ds int32_type CAFFE)\<lparr>contents := ds\<rparr>"

lemma demo_wf: "wf_tensor (demo_tensor [])" "wf_tensor (demo_tensor [2, 3, 1])" "wf_tensor (demo_tensor [3, 4])"
  "wf_tensor (demo_tensor [2, 3, 4])" "wf_tensor (demo_tensor [2, 3, 4, 5])" "wf_tensor (demo_tensor [1, 2])"
  "wf_tensor (demo_tensor [2])" "wf_tensor (demo_tensor [1, 2, 1])" "wf_tensor (demo_tensor [0])"
  by code_simp+

lemma broadcast_spec_witness:
  "\<exists>u. computeBroadCastDims [demo_tensor [2, 3, 1], demo_tensor [3, 4]] (demo_tensor []) = Inr u \<and> shape u = [2, 3, 4]"
proof -
  let ?in = "[demo_tensor [2, 3, 1], demo_tensor [3, 4]]"
  have r: "3 = Max (ndim ` set ?in)" by code_simp
  have ok: "list_all (\<lambda>i. bcast_ok (bcast_column 3 ?in i)) [0..<3]"
    and val: "map (\<lambda>i. bcast_val (bcast_column 3 ?in i)) [0..<3] = [2, 3, 4]"
    by code_simp+
  have wf: "\<forall>t \<in> set ?in. wf_tensor t" using demo_wf by simp
  from ok have "\<forall>i < 3. bcast_ok (bcast_column 3 ?in i)" by (simp add: list_all_iff)
  with broadcast_spec [OF _ demo_wf(1) wf r] val show ?thesis by auto
qed

end
