(* ===== verification/Shape_Basic_Proofs.thy ===== *)
theory Shape_Basic_Proofs
  imports Shape_Broadcast "HOL-Library.Multiset"
begin

text \<open>
  What the rearranging size computers guarantee: reshape keeps the number of elements, transpose
  accepts exactly the permutations, squeeze undoes unsqueeze, concat adds the extents of its axis,
  and flatten leaves dimensions behind the flattened range where they were.
\<close>

section \<open>Reshape\<close>

lemma prod_list_update_one:
  fixes xs :: "int list"
  shows "k < length xs \<Longrightarrow> xs ! k = 1 \<Longrightarrow> prod_list (xs[k := d]) = prod_list xs * d"
proof (induction xs arbitrary: k)
  case (Cons x xs)
  then show ?case by (cases k) simp_all
qed simp

definition reshape_step :: "int list \<Rightarrow> bool \<Rightarrow> tensor \<Rightarrow> nat \<Rightarrow> int \<times> tensor \<Rightarrow> int \<times> tensor" where
  "reshape_step shapes fromTf input = (\<lambda>i (k, u).
     if shapes ! i = -1 then (int i, setLength i 1 u)
     else if shapes ! i = 0 \<and> \<not> fromTf then (k, setLength i (len_at input i) u)
     else (k, setLength i (shapes ! i) u))"

definition reshape_extent :: "int list \<Rightarrow> bool \<Rightarrow> tensor \<Rightarrow> nat \<Rightarrow> int" where
  "reshape_extent shapes fromTf input i =
     (if shapes ! i = -1 then 1 else if shapes ! i = 0 \<and> \<not> fromTf then len_at input i else shapes ! i)"

lemma reshape_step_eq:
  "reshape_step shapes fromTf input i (k, u) =
     (if shapes ! i = -1 then int i else k, setLength i (reshape_extent shapes fromTf input i) u)"
  by (simp add: reshape_step_def reshape_extent_def)

lemma reshape_fold:
  assumes "m \<le> length (extents t)"
  shows "\<exists>k. fold (reshape_step shapes fromTf input) [0..<m] (-1, t) =
       (k, fill_lengths 0 m (reshape_extent shapes fromTf input) t) \<and>
     (k = -1 \<and> (\<forall>i < m. shapes ! i \<noteq> -1) \<or>
      0 \<le> k \<and> nat k < m \<and> shapes ! nat k = -1 \<and> (\<forall>j. nat k < j \<and> j < m \<longrightarrow> shapes ! j \<noteq> -1))"
  using assms
proof (induction m)
  case (Suc m)
  then obtain k where "fold (reshape_step shapes fromTf input) [0..<m] (-1, t) =
       (k, fill_lengths 0 m (reshape_extent shapes fromTf input) t)"
    "k = -1 \<and> (\<forall>i < m. shapes ! i \<noteq> -1) \<or>
      0 \<le> k \<and> nat k < m \<and> shapes ! nat k = -1 \<and> (\<forall>j. nat k < j \<and> j < m \<longrightarrow> shapes ! j \<noteq> -1)" by auto
  then show ?case
    by (auto simp: reshape_step_eq fill_lengths_Suc less_Suc_eq)
qed simp

text \<open>The extents after the first loop, the last \<open>-1\<close>, and the answer they lead to.\<close>

lemma reshape_size_cases:
  assumes dims: "reshape_dims param dimType input input1 = Inr shapes" and wf: "wf_tensor t" and n: "length shapes \<le> max_dim"
  defines "fromTf \<equiv> (case input1 of Some s \<Rightarrow> dimensionFormat s = NHWC | None \<Rightarrow> False)"
  defines "xs \<equiv> map (reshape_extent shapes fromTf input) [0..<length shapes]"
  defines "d \<equiv> (if prod_list xs \<noteq> 0 then prod_list (shape input) sdiv prod_list xs else 0)"
  obtains (none) v where "-1 \<notin> set shapes" "shape v = xs"
      "reshape_size param dimType input input1 t = check (prod_list (shape input) = prod_list xs) (Inr v)"
    | (one) k v where "k < length shapes" "shapes ! k = -1" "-1 \<notin> set (drop (Suc k) shapes)" "shape v = xs[k := d]"
      "reshape_size param dimType input input1 t = check (prod_list (shape input) = prod_list xs * d) (Inr v)"
proof -
  let ?n = "length shapes"
  let ?o = "t\<lparr>ttype := ttype input, dimensions := int ?n\<rparr>"
  let ?o2 = "fill_lengths 0 ?n (reshape_extent shapes fromTf input) ?o"
  have ext: "length (extents t) = 9" using wf by blast
  have n9: "?n \<le> 9" using n by (simp add: max_dim_def)
  obtain k where fold: "fold (reshape_step shapes fromTf input) [0..<?n] (-1, ?o) = (k, ?o2)"
    and k: "k = -1 \<and> (\<forall>i < ?n. shapes ! i \<noteq> -1) \<or>
      0 \<le> k \<and> nat k < ?n \<and> shapes ! nat k = -1 \<and> (\<forall>j. nat k < j \<and> j < ?n \<longrightarrow> shapes ! j \<noteq> -1)"
    using reshape_fold [of ?n ?o shapes fromTf input] n9 ext by auto
  have len2: "i < ?n \<Longrightarrow> len_at ?o2 i = reshape_extent shapes fromTf input i" for i using n9 ext by simp
  have total: "map (len_at ?o2) [0..<?n] = xs" using len2 by (simp add: xs_def)
  have res: "reshape_size param dimType input input1 t =
     (let (o3, totalSizeOutput) = (if 0 \<le> k then (setLength (nat k) d ?o2, prod_list xs * d) else (?o2, prod_list xs))
      in check (prod_list (shape input) = totalSizeOutput) (Inr (o3\<lparr>dimensionFormat := dimensionFormat input\<rparr>)))"
    using fold n9 unfolding reshape_size_def dims rbind_simps Let_def fromTf_def [symmetric] d_def
    by (simp add: reshape_step_def [symmetric] total max_dim_def)
  define v where "v = (if 0 \<le> k then setLength (nat k) d ?o2 else ?o2)\<lparr>dimensionFormat := dimensionFormat input\<rparr>"
  have dim: "ndim v = ?n" by (simp add: v_def)
  have shp: "shape v = (if 0 \<le> k then xs[nat k := d] else xs)"
    by (cases "0 \<le> k"; rule shape_eqI) (use dim n9 ext len2 in \<open>auto simp: v_def xs_def nth_list_update_if\<close>)
  show ?thesis
  proof (cases "0 \<le> k")
    case True
    then have "-1 \<notin> set (drop (Suc (nat k)) shapes)" using k by (auto simp: in_set_conv_nth)
    then show ?thesis using one [of "nat k" v] True k shp res by (auto simp: v_def)
  next
    case False
    then have "-1 \<notin> set shapes" using k by (auto simp: in_set_conv_nth)
    then show ?thesis using none [of v] False shp res by (simp add: v_def)
  qed
qed

lemma sdiv_exact: "(q::int) \<noteq> 0 \<Longrightarrow> q dvd n \<Longrightarrow> n sdiv q = n div q"
proof (elim dvdE)
  fix k assume q: "q \<noteq> 0" and n: "n = q * k"
  have "n sdiv q = (sgn q * sgn q) * (sgn k * \<bar>k\<bar>)" using q by (simp add: n signed_divide_int_def sgn_mult abs_mult)
  then show ?thesis using q by (simp add: n sgn_if)
qed

lemma sdiv_mult_dvd: "(n::int) = q * (if q \<noteq> 0 then n sdiv q else 0) \<longleftrightarrow> q dvd n"
  using sdiv_exact [of q n] by (cases "q = 0") (auto, metis dvd_triv_left)

lemma in_set_drop_iff: "x \<in> set (drop n xs) \<longleftrightarrow> (\<exists>j \<ge> n. j < length xs \<and> xs ! j = x)"
proof
  assume "x \<in> set (drop n xs)"
  then obtain i where "i < length xs - n" "xs ! (n + i) = x" by (auto simp: in_set_conv_nth)
  then show "\<exists>j \<ge> n. j < length xs \<and> xs ! j = x" by (intro exI [of _ "n + i"]) auto
next
  assume "\<exists>j \<ge> n. j < length xs \<and> xs ! j = x"
  then obtain j where "n \<le> j" "j < length xs" "xs ! j = x" by blast
  then show "x \<in> set (drop n xs)" using nth_mem [of "j - n" "drop n xs"] by simp
qed

section \<open>Transpose\<close>

definition transpose_step :: "tensor \<Rightarrow> tensor \<Rightarrow> nat \<Rightarrow> bool list \<times> tensor \<Rightarrow> (bool list \<times> tensor) res" where
  "transpose_step input perm = (\<lambda>i (used, u). rbind (host_at perm (int i)) (\<lambda>d.
     check (0 \<le> d \<and> d < dimensions input) (check (\<not> used ! nat d)
       (Inr (used[nat d := True], setLength i (len_at input (nat d)) u)))))"

definition perm_ok :: "int \<Rightarrow> int list \<Rightarrow> bool" where
  "perm_ok n ps \<longleftrightarrow> (\<forall>p \<in> set ps. 0 \<le> p \<and> p < n) \<and> distinct ps"

lemma transpose_loop:
  assumes wf: "wf_tensor input" and len: "m \<le> length (contents perm)"
  shows "rfold (transpose_step input perm) [0..<m] (replicate max_dim False, t) =
     (if perm_ok (dimensions input) (take m (contents perm))
      then Inr (map (\<lambda>d. int d \<in> set (take m (contents perm))) [0..<max_dim],
             fill_lengths 0 m (\<lambda>i. len_at input (nat (contents perm ! i))) t)
      else Inl ReturnFalse)"
  using len
proof (induction m)
  case 0
  show ?case by (simp add: perm_ok_def map_replicate_const)
next
  case (Suc m)
  let ?c = "contents perm" and ?p = "contents perm ! m"
  have take: "take (Suc m) ?c = take m ?c @ [?p]" using Suc.prems by (simp add: take_Suc_conv_app_nth)
  have host: "host_at perm (int m) = Inr ?p" using Suc.prems by (simp add: host_at_def)
  show ?case
  proof (cases "perm_ok (dimensions input) (take m ?c)")
    case False
    then have "\<not> perm_ok (dimensions input) (take (Suc m) ?c)" by (auto simp: take perm_ok_def)
    with False show ?thesis using Suc by (simp add: rfold_append)
  next
    case True
    let ?used = "map (\<lambda>d. int d \<in> set (take m ?c)) [0..<max_dim]"
    have in_range: "nat ?p < max_dim" if "0 \<le> ?p" "?p < dimensions input"
      using that wf by (auto simp: wf_tensor_def)
    have ok: "perm_ok (dimensions input) (take (Suc m) ?c) \<longleftrightarrow>
        (0 \<le> ?p \<and> ?p < dimensions input) \<and> ?p \<notin> set (take m ?c)"
      using True by (auto simp: take perm_ok_def)
    have "rfold (transpose_step input perm) [0..<Suc m] (replicate max_dim False, t) =
        transpose_step input perm m (?used, fill_lengths 0 m (\<lambda>i. len_at input (nat (?c ! i))) t)"
      using Suc True by (simp add: rfold_append rbind_def split: sum.split)
    also have "\<dots> = check (0 \<le> ?p \<and> ?p < dimensions input) (check (\<not> ?used ! nat ?p)
        (Inr (?used[nat ?p := True], fill_lengths 0 (Suc m) (\<lambda>i. len_at input (nat (?c ! i))) t)))"
      by (simp add: transpose_step_def host fill_lengths_Suc)
    also have "\<dots> = (if (0 \<le> ?p \<and> ?p < dimensions input) \<and> ?p \<notin> set (take m ?c)
      then Inr (?used[nat ?p := True], fill_lengths 0 (Suc m) (\<lambda>i. len_at input (nat (?c ! i))) t)
      else Inl ReturnFalse)"
      using in_range by (auto simp: check_def)
    also have "?used[nat ?p := True] = map (\<lambda>d. int d \<in> set (take (Suc m) ?c)) [0..<max_dim]"
      if "0 \<le> ?p \<and> ?p < dimensions input"
      using that in_range by (intro nth_equalityI) (auto simp: take nth_list_update_if)
    ultimately show ?thesis unfolding ok by (auto simp: take)
  qed
qed

lemma transpose_size_eq:
  assumes "wf_tensor input" and "ttype perm = int32_type" and "dimensions input = len_at perm 0"
    and "ndim input \<le> length (contents perm)"
  shows "transpose_size input perm t =
     (if perm_ok (dimensions input) (take (ndim input) (contents perm))
      then Inr ((fill_lengths 0 (ndim input) (\<lambda>i. len_at input (nat (contents perm ! i)))
             (t\<lparr>dimensions := dimensions input, ttype := ttype input\<rparr>))\<lparr>dimensionFormat := dimensionFormat input\<rparr>)
      else Inl ReturnFalse)"
  using transpose_loop [OF assms(1,4), of "t\<lparr>dimensions := dimensions input, ttype := ttype input\<rparr>",
      unfolded transpose_step_def] assms(2) assms(3) [symmetric]
  by (simp add: transpose_size_def Let_def int32_type_def)

lemma perm_ok_set:
  assumes "perm_ok (int n) ps" and "length ps = n"
  shows "set ps = int ` {..<n}"
proof (rule card_subset_eq)
  show "set ps \<subseteq> int ` {..<n}"
  proof
    fix p assume "p \<in> set ps"
    then have "p = int (nat p)" "nat p < n" using assms(1) by (auto simp: perm_ok_def)
    then show "p \<in> int ` {..<n}" by blast
  qed
  show "card (set ps) = card (int ` {..<n})"
    using assms by (simp add: perm_ok_def distinct_card card_image)
qed simp


section \<open>Squeeze and unsqueeze\<close>

definition norm_axis :: "int \<Rightarrow> int \<Rightarrow> int" where
  "norm_axis n d = (if d < 0 then d + n else d)"

definition axis_mask :: "int \<Rightarrow> int list \<Rightarrow> bool list" where
  "axis_mask n ds = map (\<lambda>i. int i \<in> norm_axis n ` set ds) [0..<max_dim]"

lemma axis_mask_set:
  assumes "0 \<le> norm_axis n d" and "norm_axis n d < int max_dim"
  shows "(axis_mask n ds)[nat (norm_axis n d) := True] = axis_mask n (ds @ [d])"
  using assms by (intro nth_equalityI) (auto simp: axis_mask_def nth_list_update_if)

lemma mask_loop:
  assumes "n \<le> int max_dim" and "\<forall>d \<in> set ds. 0 \<le> norm_axis n d \<and> norm_axis n d < n \<and> p d"
    and "\<And>d. d \<in> set ds \<Longrightarrow> q d = p d"
  shows "rfold (\<lambda>d ms. let axis = (if d < 0 then d + n else d)
       in check (0 \<le> axis \<and> axis < n) (check (q d) (Inr (ms[nat axis := True])))) ds (replicate max_dim False) =
     Inr (axis_mask n ds)"
proof -
  let ?f = "\<lambda>d ms. let axis = (if d < 0 then d + n else d)
       in check (0 \<le> axis \<and> axis < n) (check (q d) (Inr (ms[nat axis := True])))"
  have step: "?f d (axis_mask n es) = Inr (axis_mask n (es @ [d]))" if "d \<in> set ds" for d es
    using assms that axis_mask_set [of n d es] by (auto simp: norm_axis_def Let_def)
  have "rfold ?f fs (axis_mask n es) = Inr (axis_mask n (es @ fs))" if "set fs \<subseteq> set ds" for es fs
    using that
  proof (induction fs arbitrary: es)
    case (Cons d fs)
    then show ?case using step [of d es] Cons.IH [of "es @ [d]"] by simp
  qed simp
  from this [of ds "[]"] show ?thesis by (simp add: axis_mask_def map_replicate_const)
qed

abbreviation unmasked :: "bool list \<Rightarrow> nat \<Rightarrow> nat list" where
  "unmasked ms m \<equiv> filter (\<lambda>i. \<not> ms ! i) [0..<m]"

lemma unsqueeze_fold:
  assumes "m \<le> length (extents t)"
  shows "fold (\<lambda>i (k, u). if ms ! i then (k, setLength i 1 u)
           else (k + 1, setLength i (len_at input k) (setLength i 1 u))) [0..<m] (0, t) =
     (length (unmasked ms m),
      fill_lengths 0 m (\<lambda>i. if ms ! i then 1 else len_at input (length (unmasked ms i))) t)"
  using assms
proof (induction m)
  case (Suc m)
  have "setLength i a (setLength i b u) = setLength i a u" for i a b u
    by (simp add: setLength_def)
  with Suc show ?case by (simp add: fill_lengths_Suc)
qed simp

lemma squeeze_fold:
  assumes "m \<le> length (extents t)"
  shows "fold (\<lambda>i (k, u). if ms ! i then (k, u) else (k + 1, setLength k (len_at input i) u)) [0..<m] (0, t) =
     (length (unmasked ms m), fill_lengths 0 (length (unmasked ms m)) (\<lambda>k. len_at input (unmasked ms m ! k)) t)"
  using assms
proof (induction m)
  case (Suc m)
  have cong: "fill_lengths 0 c f t = fill_lengths 0 c g t" if "\<And>k. k < c \<Longrightarrow> f k = g k" for c f g
    unfolding fill_lengths_def by (intro fold_cong) (use that in auto)
  let ?c = "length (unmasked ms m)"
  have "fill_lengths 0 ?c (\<lambda>k. len_at input (unmasked ms m ! k)) t =
      fill_lengths 0 ?c (\<lambda>k. len_at input ((unmasked ms m @ [m]) ! k)) t"
    by (rule cong) (simp add: nth_append)
  with Suc show ?case by (simp add: fill_lengths_Suc)
qed simp

lemma unmasked_lengths:
  "map (\<lambda>i. f (length (unmasked ms i))) (unmasked ms m) = map f [0..<length (unmasked ms m)]"
  by (induction m) simp_all

lemma unmasked_length_le: "length (unmasked ms m) \<le> m"
  using length_filter_le [of "\<lambda>i. \<not> ms ! i" "[0..<m]"] by simp

definition axes_ok :: "int \<Rightarrow> int list \<Rightarrow> bool" where
  "axes_ok n ds \<longleftrightarrow> (\<forall>d \<in> set ds. 0 \<le> norm_axis n d \<and> norm_axis n d < n) \<and> distinct (map (norm_axis n) ds)"

lemma unmasked_axis_mask:
  assumes "axes_ok n ds" and "n \<le> int max_dim" and "0 \<le> n"
  shows "length (unmasked (axis_mask n ds) (nat n)) = nat n - length ds"
proof -
  let ?S = "norm_axis n ` set ds"
  have mask: "axis_mask n ds ! i \<longleftrightarrow> int i \<in> ?S" if "i < nat n" for i
    using that assms(2) by (auto simp: axis_mask_def)
  have "length (unmasked (axis_mask n ds) (nat n)) = card {i \<in> {..<nat n}. int i \<notin> ?S}"
    unfolding length_filter_conv_card by (rule arg_cong [where f = card]) (use mask in auto)
  also have "{i \<in> {..<nat n}. int i \<notin> ?S} = {..<nat n} - nat ` ?S"
  proof (rule set_eqI)
    fix i
    have "int i \<in> ?S \<longleftrightarrow> i \<in> nat ` ?S"
    proof
      assume "i \<in> nat ` ?S"
      then obtain d where "d \<in> set ds" "i = nat (norm_axis n d)" by auto
      then have "int i = norm_axis n d" using assms(1) by (auto simp: axes_ok_def)
      then show "int i \<in> ?S" using \<open>d \<in> set ds\<close> by simp
    qed force
    then show "(i \<in> {i \<in> {..<nat n}. int i \<notin> ?S}) = (i \<in> {..<nat n} - nat ` ?S)" by blast
  qed
  also have "card \<dots> = nat n - card (nat ` ?S)"
    using assms by (subst card_Diff_subset) (auto simp: axes_ok_def)
  also have "card (nat ` ?S) = length ds"
  proof -
    have "inj_on nat ?S" using assms(1) by (auto simp: inj_on_def axes_ok_def eq_nat_nat_iff)
    moreover have "card ?S = length ds"
      using assms(1) distinct_card [of "map (norm_axis n) ds"] by (simp add: axes_ok_def)
    ultimately show ?thesis by (simp add: card_image)
  qed
  finally show ?thesis .
qed

lemma unsqueeze_size_eq:
  assumes "wf_tensor t" and "n = dimensions input + int (length ds)" and "0 \<le> n" and "n \<le> int max_dim"
    and "axes_ok n ds"
  shows "unsqueeze_size (Some ds) input i1 t = Inr (like input (fill_lengths 0 (nat n)
     (\<lambda>i. if axis_mask n ds ! i then 1 else len_at input (length (unmasked (axis_mask n ds) i))) (t\<lparr>dimensions := n\<rparr>)))"
proof -
  have "unsqueeze_mask n ds = Inr (axis_mask n ds)"
    using mask_loop [of n ds "\<lambda>_. True" "\<lambda>_. True"] assms(4,5) by (simp add: unsqueeze_mask_def axes_ok_def)
  moreover have "nat n \<le> length (extents (t\<lparr>dimensions := n\<rparr>))" using assms(1,4) by (simp add: wf_tensor_def)
  ultimately show ?thesis
    using assms(3,4) by (simp add: unsqueeze_size_def squeeze_dims_def assms(2) [symmetric] Let_def unsqueeze_fold)
qed

lemma squeeze_size_eq:
  assumes "wf_tensor t" and "wf_tensor input" and "axes_ok (dimensions input) ds" and "ds \<noteq> []"
    and "\<forall>d \<in> set ds. len_at input (nat (norm_axis (dimensions input) d)) = 1"
  defines "ms \<equiv> axis_mask (dimensions input) ds"
  shows "\<exists>u. squeeze_size (Some ds) input i1 t = Inr u \<and>
     shape u = map (len_at input) (unmasked ms (ndim input))"
proof -
  let ?n = "dimensions input"
  have n: "?n \<le> int max_dim" "0 \<le> ?n" using assms(2) by (simp_all add: wf_tensor_def)
  have m: "squeeze_mask input ds = Inr ms"
    using mask_loop [of ?n ds "\<lambda>d. len_at input (nat (norm_axis ?n d)) = 1"
        "\<lambda>d. len_at input (nat (norm_axis ?n d)) = 1"] n assms(3,4,5)
    by (simp add: squeeze_mask_def axes_ok_def ms_def norm_axis_def Let_def)
  let ?c = "length (unmasked ms (ndim input))"
  let ?t = "t\<lparr>dimensions := ?n - int (length (filter (\<lambda>i. ms ! i) [0..<ndim input]))\<rparr>"
  have "length (filter (\<lambda>i. ms ! i) [0..<ndim input]) + ?c = length [0..<ndim input]"
    by (rule sum_length_filter_compl)
  then have cnt: "?n - int (length (filter (\<lambda>i. ms ! i) [0..<ndim input])) = int ?c" using n by simp
  have le: "ndim input \<le> length (extents ?t)" using assms(1) n by (simp add: wf_tensor_def)
  let ?u = "like input (fill_lengths 0 ?c (\<lambda>k. len_at input (unmasked ms (ndim input) ! k)) ?t)"
  have "squeeze_size (Some ds) input i1 t = Inr ?u"
    using m squeeze_fold [OF le, of ms input] by (simp add: squeeze_size_def squeeze_dims_def Let_def)
  moreover have "shape ?u = map (len_at input) (unmasked ms (ndim input))"
    by (rule shape_eqI) (use cnt le unmasked_length_le [of ms "ndim input"] in auto)
  ultimately show ?thesis by blast
qed

section \<open>Concat\<close>

lemma concat_loop:
  assumes "\<forall>t \<in> set ts. int axis < dimensions t"
  shows "rfold (concat_input axis) ts (s, u) =
     (if \<forall>t \<in> set ts. \<forall>i < ndim t. i \<noteq> axis \<longrightarrow> len_at t i = len_at u i
      then Inr (s + sum_list (map (\<lambda>t. len_at t axis) ts), if ts = [] then u else u\<lparr>ttype := ttype (last ts)\<rparr>)
      else Inl ReturnFalse)"
  using assms
proof (induction ts arbitrary: s u)
  case (Cons t ts)
  let ?ok = "\<lambda>t. \<forall>i < ndim t. i \<noteq> axis \<longrightarrow> len_at t i = len_at u i"
  have "concat_input axis t (s, u) = (if ?ok t then Inr (s + len_at t axis, u\<lparr>ttype := ttype t\<rparr>) else Inl ReturnFalse)"
    using Cons.prems by (auto simp: concat_input_def Let_def check_def)
  then show ?case using Cons.IH [of "s + len_at t axis" "u\<lparr>ttype := ttype t\<rparr>"] Cons.prems
    by (auto simp: add.assoc)
qed simp

section \<open>Properties\<close>

text \<open>
  C35. What a reshape answers, in exact arithmetic (the counts of the code are \<open>int\<close>). Let \<open>rest\<close> be the product of
  the requested extents, where a \<open>-1\<close> counts as one and a 0 as the input's extent of its position (as a 0 when the
  shape comes from a TensorFlow model). The answer is \<open>true\<close> exactly when \<open>rest\<close> is the number of elements, or
  divides it if there is a \<open>-1\<close>. The output then has as many elements as the input; its last \<open>-1\<close> is the quotient, or
  0 when \<open>rest\<close> is 0, every \<open>-1\<close> before that is 1, and all other extents are the requested ones.
\<close>

theorem reshape_keeps_elements:
  assumes wf: "wf_tensor t" and dims: "reshape_dims param dimType input input1 = Inr shapes" and rank: "length shapes \<le> max_dim"
    and tf: "fromTf = (case input1 of Some s \<Rightarrow> dimensionFormat s = NHWC | None \<Rightarrow> False)"
    and size: "size_in = prod_list (shape input)"
      "rest = prod_list (map (\<lambda>i. if shapes ! i = -1 then 1 else if shapes ! i = 0 \<and> \<not> fromTf then len_at input i else shapes ! i) [0..<length shapes])"
  shows "((\<exists>u. reshape_size param dimType input input1 t = Inr u) \<longleftrightarrow> (if -1 \<in> set shapes then rest dvd size_in else rest = size_in)) \<and>
    (\<forall>u. reshape_size param dimType input input1 t = Inr u \<longrightarrow>
       prod_list (shape u) = size_in \<and> length (shape u) = length shapes \<and>
       (\<forall>i < length shapes. shape u ! i =
          (if shapes ! i = -1 then (if -1 \<in> set (drop (Suc i) shapes) then 1 else if rest = 0 then 0 else size_in div rest)
           else if shapes ! i = 0 \<and> \<not> fromTf then len_at input i else shapes ! i)))"
proof -
  let ?xs = "map (reshape_extent shapes fromTf input) [0..<length shapes]"
  have "reshape_extent shapes fromTf input =
      (\<lambda>i. if shapes ! i = -1 then 1 else if shapes ! i = 0 \<and> \<not> fromTf then len_at input i else shapes ! i)"
    by (rule ext) (simp add: reshape_extent_def)
  then have r: "prod_list ?xs = rest" by (simp add: size)
  from dims wf rank show ?thesis
  proof (cases rule: reshape_size_cases)
    case (none v)
    note none = none [folded tf, unfolded r]
    then have "shapes ! i \<noteq> -1" if "i < length shapes" for i using that nth_mem by fastforce
    moreover have "ndim v = length shapes" using arg_cong [OF none(2), of length] by simp
    ultimately show ?thesis using none by (auto simp: check_eq_Inr size(1) r reshape_extent_def)
  next
    case (one k v)
    note one = one [folded tf, unfolded r]
    have c: "reshape_size param dimType input input1 t = check (rest dvd size_in) (Inr v)"
      using one(5) by (simp only: size(1) [symmetric] sdiv_mult_dvd)
    have neg: "-1 \<in> set shapes" using one(1,2) nth_mem by fastforce
    have last: "j \<le> k" if "j < length shapes" "shapes ! j = -1" for j
      using one(3) that by (auto simp: in_set_drop_iff not_less_eq_eq)
    then have later: "-1 \<in> set (drop (Suc i) shapes) \<longleftrightarrow> i < k" if "i < length shapes" "shapes ! i = -1" for i
      using one(1,2) that by (auto simp: in_set_drop_iff Suc_le_eq) (meson less_le_trans)
    let ?d = "if rest = 0 then 0 else size_in div rest"
    have v: "shape v = ?xs[k := ?d]" if "rest dvd size_in"
      using one(4) that by (simp add: size(1) sdiv_exact)
    have len: "length (shape v) = length shapes" using one(4) by simp
    have "prod_list (shape v) = size_in" if "rest dvd size_in"
      unfolding v [OF that] using one(1,2) that by (simp add: prod_list_update_one r reshape_extent_def) auto
    moreover have "shape v ! i = (if shapes ! i = -1 then (if -1 \<in> set (drop (Suc i) shapes) then 1 else ?d)
        else if shapes ! i = 0 \<and> \<not> fromTf then len_at input i else shapes ! i)"
      if "rest dvd size_in" "i < length shapes" for i
      unfolding v [OF that(1)] using one(1-3) that(2) later [OF that(2)] last [OF that(2)]
      by (auto simp: nth_list_update_if reshape_extent_def)
    ultimately show ?thesis using neg len by (simp add: c check_eq_Inr)
  qed
qed

lemma reshape_keeps_elements_witness:
  "\<exists>u. reshape_size [-1, 0, -1] NCHW (demo_tensor [2, 3, 4]) None (demo_tensor []) = Inr u \<and> shape u = [1, 3, 8]"
proof -
  have d: "shape (demo_tensor [2, 3, 4]) = [2, 3, 4]" "len_at (demo_tensor [2, 3, 4]) 1 = 3" by code_simp+
  let ?r = "\<lambda>u. reshape_size [-1, 0, -1] NCHW (demo_tensor [2, 3, 4]) None (demo_tensor []) = Inr u"
  have p: "24 = prod_list (shape (demo_tensor [2, 3, 4]))"
    "3 = prod_list (map (\<lambda>i. if [-1, 0, -1 :: int] ! i = -1 then 1 else if [-1, 0, -1 :: int] ! i = 0 \<and> \<not> False
       then len_at (demo_tensor [2, 3, 4]) i else [-1, 0, -1] ! i) [0..<length [-1, 0, -1 :: int]])"
    using d by simp_all
  have h: "reshape_dims [-1, 0, -1] NCHW (demo_tensor [2, 3, 4]) None = Inr [-1, 0, -1]" "length [-1, 0, -1 :: int] \<le> max_dim"
    "False = (case (None :: tensor option) of Some s \<Rightarrow> dimensionFormat s = NHWC | None \<Rightarrow> False)"
    by (simp_all add: reshape_dims_def max_dim_def)
  note t = reshape_keeps_elements [OF demo_wf(1) h p]
  have "24 = (24 :: int) \<and> (3 :: int) dvd 24" by simp
  with conjunct1 [OF t] obtain u where u: "?r u" by auto
  note a = mp [OF spec [OF conjunct2 [OF t], of u] u]
  note at = spec [OF conjunct2 [OF conjunct2 [OF a]]]
  have len: "length (shape u) = 3" using conjunct1 [OF conjunct2 [OF a]] by simp
  have "shape u ! 0 = 1" "shape u ! 1 = 3" "shape u ! 2 = 8" using at [of 0] at [of 1] at [of 2] d(2) len by simp_all
  then have "shape u = [1, 3, 8]" using len by (intro nth_equalityI) (auto simp: less_Suc_eq numeral_3_eq_3 numeral_2_eq_2)
  with u show ?thesis by blast
qed

lemma transpose_accepts_permutations_facts:
  assumes "wf_tensor input" and "wf_tensor t" and "ttype perm = int32_type"
    and "dimensions input = len_at perm 0" and "length (contents perm) = ndim input"
  shows "(\<exists>u. transpose_size input perm t = Inr u) \<longleftrightarrow>
      mset (contents perm) = mset (map int [0..<ndim input])"
    and "transpose_size input perm t = Inr u \<Longrightarrow>
      shape u = map (\<lambda>d. shape input ! nat d) (contents perm) \<and> mset (shape u) = mset (shape input)"
proof -
  let ?c = "contents perm" and ?n = "ndim input"
  have n: "dimensions input = int ?n" using assms(1) by (simp add: wf_tensor_def)
  have eq: "transpose_size input perm t =
     (if perm_ok (int ?n) ?c
      then Inr ((fill_lengths 0 ?n (\<lambda>i. len_at input (nat (?c ! i)))
             (t\<lparr>dimensions := dimensions input, ttype := ttype input\<rparr>))\<lparr>dimensionFormat := dimensionFormat input\<rparr>)
      else Inl ReturnFalse)"
    using transpose_size_eq [OF assms(1,3,4), of t] assms(5) n by simp
  have iff: "perm_ok (int ?n) ?c \<longleftrightarrow> mset ?c = mset (map int [0..<?n])"
  proof
    assume ok: "perm_ok (int ?n) ?c"
    then have "set ?c = set (map int [0..<?n])" using perm_ok_set [OF ok assms(5)] by auto
    moreover have "distinct ?c" "distinct (map int [0..<?n])"
      using ok by (simp_all add: perm_ok_def distinct_map)
    ultimately show "mset ?c = mset (map int [0..<?n])" using set_eq_iff_mset_eq_distinct by blast
  next
    assume m: "mset ?c = mset (map int [0..<?n])"
    then have "set ?c = set (map int [0..<?n])" by (rule mset_eq_setD)
    moreover have "distinct ?c" using mset_eq_imp_distinct_iff [OF m] by (simp add: distinct_map)
    ultimately show "perm_ok (int ?n) ?c" by (auto simp: perm_ok_def)
  qed
  show "(\<exists>u. transpose_size input perm t = Inr u) \<longleftrightarrow> mset ?c = mset (map int [0..<?n])"
    unfolding eq iff by simp
  assume u: "transpose_size input perm t = Inr u"
  then have ok: "perm_ok (int ?n) ?c" and u: "u = (fill_lengths 0 ?n (\<lambda>i. len_at input (nat (?c ! i)))
     (t\<lparr>dimensions := dimensions input, ttype := ttype input\<rparr>))\<lparr>dimensionFormat := dimensionFormat input\<rparr>"
    unfolding eq by (simp_all split: if_splits)
  have bound: "nat (?c ! i) < ?n" if "i < ?n" for i
  proof -
    have "?c ! i \<in> set ?c" using that assms(5) by simp
    then have "0 \<le> ?c ! i \<and> ?c ! i < int ?n" using ok unfolding perm_ok_def by blast
    then show ?thesis by linarith
  qed
  have shp: "shape u = map (\<lambda>d. shape input ! nat d) ?c"
  proof (rule shape_eqI)
    show "ndim u = length (map (\<lambda>d. shape input ! nat d) ?c)" using assms(5) by (simp add: u)
    fix i assume "i < length (map (\<lambda>d. shape input ! nat d) ?c)"
    then show "len_at u i = map (\<lambda>d. shape input ! nat d) ?c ! i"
      using bound [of i] assms(1,2,5) wf_tensorD by (fastforce simp: u)
  qed
  have "mset (shape u) = image_mset (\<lambda>d. shape input ! nat d) (mset ?c)" unfolding shp by simp
  also have "\<dots> = mset (map (\<lambda>d. shape input ! nat d) (map int [0..<?n]))"
    using ok iff unfolding mset_map by (simp only:)
  also have "map (\<lambda>d. shape input ! nat d) (map int [0..<?n]) = shape input"
    by (rule nth_equalityI) simp_all
  finally show "shape u = map (\<lambda>d. shape input ! nat d) ?c \<and> mset (shape u) = mset (shape input)"
    using shp by simp
qed


text \<open>
  C36. Transpose with a shape tensor of the right type and length answers \<open>true\<close> exactly for the
  permutations of the axes (no axis out of range, none twice), and then permutes the extents.
\<close>

theorem transpose_accepts_permutations:
  assumes "wf_tensor input" and "wf_tensor t" and "ttype perm = int32_type"
    and "dimensions input = len_at perm 0" and "length (contents perm) = ndim input"
  shows "((\<exists>u. transpose_size input perm t = Inr u) \<longleftrightarrow>
       mset (contents perm) = mset (map int [0..<ndim input])) \<and>
     (\<forall>u. transpose_size input perm t = Inr u \<longrightarrow>
       shape u = map (\<lambda>d. shape input ! nat d) (contents perm) \<and> mset (shape u) = mset (shape input))"
  using transpose_accepts_permutations_facts [OF assms] by blast

lemma transpose_accepts_permutations_witness:
  "\<exists>u. transpose_size (demo_tensor [2, 3, 4]) ((demo_tensor [3])\<lparr>contents := [2, 0, 1]\<rparr>) (demo_tensor []) = Inr u \<and>
     shape u = [4, 2, 3]"
proof -
  let ?p = "(demo_tensor [3])\<lparr>contents := [2, 0, 1]\<rparr>"
  have h: "ttype ?p = int32_type" "dimensions (demo_tensor [2, 3, 4]) = len_at ?p 0"
    "length (contents ?p) = ndim (demo_tensor [2, 3, 4])" "ndim (demo_tensor [2, 3, 4]) = 3" by code_simp+
  have "mset (contents ?p) = mset (map int [0..<ndim (demo_tensor [2, 3, 4])])"
    by (simp add: h(4) upt_rec)
  note c = transpose_accepts_permutations [OF demo_wf(4,1) h(1-3)]
  from c \<open>mset (contents ?p) = mset (map int [0..<ndim (demo_tensor [2, 3, 4])])\<close> obtain u
    where u: "transpose_size (demo_tensor [2, 3, 4]) ?p (demo_tensor []) = Inr u" by auto
  have "map (\<lambda>d. shape (demo_tensor [2, 3, 4]) ! nat d) (contents ?p) = [4, 2, 3]" by code_simp
  with c u show ?thesis by auto
qed

text \<open>
  Squeezing the axes that unsqueeze has just inserted gives the shape back: for distinct axes in
  range, at least one of them, both computers answer \<open>true\<close>.
\<close>

lemma squeeze_unsqueeze:
  assumes "wf_tensor input" and "wf_tensor t" and "wf_tensor t'" and "ds \<noteq> []"
    and "n = dimensions input + int (length ds)" and "n \<le> int max_dim" and "axes_ok n ds"
  shows "\<exists>u v. unsqueeze_size (Some ds) input i1 t = Inr u \<and> dimensions u = n \<and>
     squeeze_size (Some ds) u i2 t' = Inr v \<and> shape v = shape input"
proof -
  have n0: "0 \<le> n" using assms(1,5) by (simp add: wf_tensor_def)
  let ?m = "axis_mask n ds"
  let ?f = "\<lambda>i. if ?m ! i then 1 else len_at input (length (unmasked ?m i))"
  let ?u = "like input (fill_lengths 0 (nat n) ?f (t\<lparr>dimensions := n\<rparr>))"
  have u: "unsqueeze_size (Some ds) input i1 t = Inr ?u"
    using unsqueeze_size_eq [OF assms(2,5) n0 assms(6,7)] .
  have dim: "dimensions ?u = n" by simp
  have wf: "wf_tensor ?u" using assms(2,6) n0 by (simp add: wf_tensor_def)
  have len: "len_at ?u i = ?f i" if "i < nat n" for i
  proof -
    have "i < length (extents t)" using that assms(2,6) unfolding wf_tensor_def by linarith
    then show ?thesis using that by simp
  qed
  have one: "\<forall>d \<in> set ds. len_at ?u (nat (norm_axis (dimensions ?u) d)) = 1"
  proof
    fix d assume d: "d \<in> set ds"
    then have r: "0 \<le> norm_axis n d" "norm_axis n d < n" using assms(7) by (simp_all add: axes_ok_def)
    have "?m ! nat (norm_axis n d)" using r d assms(6) by (simp add: axis_mask_def)
    then show "len_at ?u (nat (norm_axis (dimensions ?u) d)) = 1"
      using len [of "nat (norm_axis n d)"] r unfolding dim by (simp del: like_sel)
  qed
  from squeeze_size_eq [OF assms(3) wf _ assms(4) one, of i2] assms(7) obtain v
    where v: "squeeze_size (Some ds) ?u i2 t' = Inr v" "shape v = map (len_at ?u) (unmasked ?m (nat n))"
    unfolding dim by blast
  have "shape v = map (\<lambda>i. len_at input (length (unmasked ?m i))) (unmasked ?m (nat n))"
    unfolding v(2) by (rule map_cong [OF refl]) (use len in auto)
  also have "\<dots> = map (len_at input) [0..<nat n - length ds]"
    using unmasked_lengths [of "len_at input" ?m "nat n"] unmasked_axis_mask [OF assms(7,6) n0] by (simp only:)
  also have "nat n - length ds = ndim input" using assms(5) n0 by linarith
  finally have "shape v = shape input" by (simp add: shape_def)
  with u v(1) dim show ?thesis by blast
qed

lemma squeeze_unsqueeze_witness:
  "\<exists>u v. unsqueeze_size (Some [0, -1]) (demo_tensor [2, 3, 4]) None (demo_tensor []) = Inr u \<and> dimensions u = 5 \<and>
     squeeze_size (Some [0, -1]) u None (demo_tensor []) = Inr v \<and> shape v = shape (demo_tensor [2, 3, 4])"
proof (rule squeeze_unsqueeze [OF demo_wf(4,1,1)])
  show "5 = dimensions (demo_tensor [2, 3, 4]) + int (length [0, - 1 :: int])" by code_simp
qed (simp_all add: max_dim_def axes_ok_def norm_axis_def)


lemma concat_spec_facts:
  assumes "inputs \<noteq> []" and "\<forall>i \<in> set inputs. wf_tensor i \<and> dimensions i = n" and "0 < n"
    and "wf_tensor t" and "axis = (if basicAxis < 0 then n + basicAxis else basicAxis)" and "0 \<le> axis" and "axis < n"
  shows "(\<exists>u. concat_size basicAxis inputs t = Inr u) \<longleftrightarrow>
      (\<forall>x \<in> set inputs. \<forall>i < nat n. i \<noteq> nat axis \<longrightarrow> shape x ! i = shape (hd inputs) ! i)"
    and "concat_size basicAxis inputs t = Inr u \<Longrightarrow>
      shape u = (shape (hd inputs))[nat axis := sum_list (map (\<lambda>x. shape x ! nat axis) inputs)]"
proof -
  let ?i0 = "inputs ! 0" and ?a = "nat axis"
  have i0: "?i0 \<in> set inputs" "hd inputs = ?i0" using assms(1) by (simp_all add: hd_conv_nth)
  have n0: "dimensions ?i0 = n" "wf_tensor ?i0" using assms(2) i0 by auto
  have n9: "n \<le> int max_dim" using n0 by (simp add: wf_tensor_def)
  let ?o = "(copy_dims (nat n) ?i0 t)\<lparr>dimensions := n, ttype := ttype ?i0\<rparr>"
  have ranks: "concat_ranks_ok inputs axis"
    using assms(2,3,6,7) n9 n0(1) nth_mem [of _ inputs] by (simp add: concat_ranks_ok_def)
  have olen: "len_at ?o i = len_at ?i0 i" if "i < nat n" for i
    using that n0 n9 by (simp add: copy_dims_def len_at_def nth_append wf_tensor_def)
  have elen: "length (extents ?o) = 9"
    using n0(2) assms(4) n9 by (auto simp: copy_dims_def wf_tensor_def max_dim_def)
  let ?ok = "\<forall>x \<in> set inputs. \<forall>i < ndim x. i \<noteq> ?a \<longrightarrow> len_at x i = len_at ?o i"
  have "rfold (concat_input ?a) inputs (0, ?o) =
     (if ?ok then Inr (sum_list (map (\<lambda>x. len_at x ?a) inputs), ?o\<lparr>ttype := ttype (last inputs)\<rparr>) else Inl ReturnFalse)"
    using concat_loop [of inputs ?a 0 ?o] assms(1,2,6,7) by auto
  then have eq: "concat_size basicAxis inputs t =
     (if ?ok then Inr ((setLength ?a (sum_list (map (\<lambda>x. len_at x ?a) inputs)) (?o\<lparr>ttype := ttype (last inputs)\<rparr>))
         \<lparr>dimensionFormat := dimensionFormat ?i0\<rparr>) else Inl ReturnFalse)"
    using assms(1) ranks n0 unfolding concat_size_def Let_def assms(5) [symmetric, folded n0(1)] by auto
  have ok: "?ok \<longleftrightarrow> (\<forall>x \<in> set inputs. \<forall>i < nat n. i \<noteq> ?a \<longrightarrow> shape x ! i = shape (hd inputs) ! i)"
    using assms(2) olen i0 n0(1) by simp
  show "(\<exists>u. concat_size basicAxis inputs t = Inr u) \<longleftrightarrow>
      (\<forall>x \<in> set inputs. \<forall>i < nat n. i \<noteq> ?a \<longrightarrow> shape x ! i = shape (hd inputs) ! i)"
    unfolding eq using ok by simp
  assume "concat_size basicAxis inputs t = Inr u"
  then have u: "u = (setLength ?a (sum_list (map (\<lambda>x. len_at x ?a) inputs)) (?o\<lparr>ttype := ttype (last inputs)\<rparr>))
         \<lparr>dimensionFormat := dimensionFormat ?i0\<rparr>" unfolding eq by (simp split: if_splits)
  have sum: "map (\<lambda>x. shape x ! ?a) inputs = map (\<lambda>x. len_at x ?a) inputs"
    using assms(2,6,7) by (auto simp: nat_less_eq_zless)
  show "shape u = (shape (hd inputs))[?a := sum_list (map (\<lambda>x. shape x ! ?a) inputs)]"
  proof (rule shape_eqI)
    show "ndim u = length ((shape (hd inputs))[?a := sum_list (map (\<lambda>x. shape x ! ?a) inputs)])"
      using i0 n0(1) by (simp add: u)
    fix i assume "i < length ((shape (hd inputs))[?a := sum_list (map (\<lambda>x. shape x ! ?a) inputs)])"
    then have i: "i < nat n" using i0 n0(1) by simp
    then show "len_at u i = (shape (hd inputs))[?a := sum_list (map (\<lambda>x. shape x ! ?a) inputs)] ! i"
      using olen [OF i] elen n9 i0 n0(1) unfolding sum by (auto simp: u nth_list_update_if max_dim_def)
  qed
qed


text \<open>
  Concat: for inputs of one positive rank it answers \<open>true\<close> exactly when all extents off the
  axis agree, and the output has the first input's extents with the sum along the axis. The axis
  may be given counted from the end.
\<close>

lemma concat_spec:
  assumes "inputs \<noteq> []" and "\<forall>i \<in> set inputs. wf_tensor i \<and> dimensions i = n" and "0 < n"
    and "wf_tensor t" and "axis = (if basicAxis < 0 then n + basicAxis else basicAxis)" and "0 \<le> axis" and "axis < n"
  shows "((\<exists>u. concat_size basicAxis inputs t = Inr u) \<longleftrightarrow>
       (\<forall>x \<in> set inputs. \<forall>i < nat n. i \<noteq> nat axis \<longrightarrow> shape x ! i = shape (hd inputs) ! i)) \<and>
     (\<forall>u. concat_size basicAxis inputs t = Inr u \<longrightarrow>
       shape u = (shape (hd inputs))[nat axis := sum_list (map (\<lambda>x. shape x ! nat axis) inputs)])"
  using concat_spec_facts [OF assms] by blast

lemma concat_spec_witness:
  "\<exists>u. concat_size (-1) [demo_tensor [2, 3, 4], demo_tensor [2, 3, 1]] (demo_tensor []) = Inr u \<and> shape u = [2, 3, 5]"
proof -
  let ?in = "[demo_tensor [2, 3, 4], demo_tensor [2, 3, 1]]"
  have d: "dimensions (demo_tensor [2, 3, 4]) = 3" "dimensions (demo_tensor [2, 3, 1]) = 3" by code_simp+
  have h: "\<forall>i \<in> set ?in. wf_tensor i \<and> dimensions i = 3" using d demo_wf by simp
  have "list_all (\<lambda>x. list_all (\<lambda>i. i \<noteq> 2 \<longrightarrow> shape x ! i = shape (hd ?in) ! i) [0..<3]) ?in"
    and val: "(shape (hd ?in))[nat 2 := sum_list (map (\<lambda>x. shape x ! nat 2) ?in)] = [2, 3, 5]" by code_simp+
  then have "\<forall>x \<in> set ?in. \<forall>i < nat 3. i \<noteq> nat 2 \<longrightarrow> shape x ! i = shape (hd ?in) ! i"
    unfolding list_all_iff by simp
  note agree = this
  have ne: "?in \<noteq> []" and pos: "(0::int) < 3" and ax: "(2::int) = (if (-1::int) < 0 then 3 + -1 else -1)"
    and r: "(0::int) \<le> 2" "(2::int) < 3" by simp_all
  note c = concat_spec [OF ne h pos demo_wf(1) ax r]
  from c [THEN conjunct1, THEN iffD2, OF agree] obtain u where u: "concat_size (-1) ?in (demo_tensor []) = Inr u" ..
  with c val show ?thesis by simp
qed


lemma prod_range_Inr:
  assumes "b \<le> max_dim"
  shows "prod_range input (int a) (int b) = Inr (prod_list (map (len_at input) [a..<b]))"
proof -
  have "fold (\<lambda>i p. p * len_at input (nat i)) (map int xs) q = q * prod_list (map (len_at input) xs)" for xs q
    by (induction xs arbitrary: q) simp_all
  moreover have "prod_range input (int a) (int b) = Inr (fold (\<lambda>i p. p * len_at input (nat i)) (map int [a..<b]) 1)"
    unfolding prod_range_def upto_map_int [symmetric] by (rule rfold_Inr) (use assms in \<open>auto simp: dim_at_def\<close>)
  ultimately show ?thesis by simp
qed

text \<open>
  C37. Flatten with an inner range, \<open>axis < endAxis < dims - 1\<close>, answers \<open>true\<close> with \<open>dims - (endAxis - axis)\<close> extents,
  of which those up to the flattened axis are right. Behind it the code writes the remaining extents of the input to
  the positions they have in the input, not to their new ones: a position up to \<open>endAxis\<close>, and there is always
  one, keeps what the output tensor held before, and one behind \<open>endAxis\<close> gets the input's extent of that same
  position.
\<close>

theorem flatten_tail_stale:
  assumes wf: "wf_tensor input" "wf_tensor t" and inner: "a < e" "Suc e < ndim input"
  shows "\<exists>u. flatten_size (int a) (int e) input t = Inr u \<and> length (shape u) = ndim input - (e - a) \<and> Suc a < length (shape u) \<and>
    (\<forall>i < length (shape u). shape u ! i =
      (if i < a then len_at input i else if i = a then prod_list (map (len_at input) [a..<Suc e])
       else if i \<le> e then len_at t i else len_at input i))"
proof -
  let ?d = "dimensions input" and ?p = "prod_list (map (len_at input) [a..<Suc e])"
  have d9: "?d \<le> int max_dim" "?d = int (ndim input)" using wf(1) by (auto simp: wf_tensor_def)
  have ext: "length (extents t) = 9" "ndim input \<le> 9" using wf by blast+
  let ?t = "t\<lparr>dimensions := ?d - int e + int a\<rparr>"
  let ?u1 = "fill_lengths 0 a (len_at input) ?t"
  let ?u = "fill_lengths (Suc e) (nat ?d) (len_at input) (setLength a ?p ?u1)"
  have p: "prod_range input (int a) (int e + 1) = Inr ?p" using prod_range_Inr [of "Suc e" input a] d9 inner by (simp add: add.commute)
  have s: "set_at (int a) ?p ?u1 = Inr (setLength a ?p ?u1)" using inner d9 by (simp add: set_at_def)
  have c1: "rfold (\<lambda>i u. rbind (dim_at input i) (\<lambda>d. set_at i d u)) [0..int a - 1] ?t = Inr ?u1"
    using copy_range [of 0 "int a" input ?t] inner d9 by simp
  have c2: "rfold (\<lambda>i u. rbind (dim_at input i) (\<lambda>d. set_at i d u)) [int e + 1..?d - 1] (setLength a ?p ?u1) = Inr ?u"
    using copy_range [of "int e + 1" ?d input "setLength a ?p ?u1"] inner d9 by (simp add: nat_add_distrib)
  have f: "flatten_size (int a) (int e) input t = Inr (like input ?u)"
    using inner c1 c2 p s d9 by (simp add: flatten_size_def Let_def)
  moreover have n: "ndim (like input ?u) = ndim input - (e - a)" using inner d9(2) by simp
  moreover have "len_at ?u i = (if i < a then len_at input i else if i = a then ?p else if i \<le> e then len_at t i else len_at input i)"
    if "i < ndim input - (e - a)" for i
  proof -
    have "i < ndim input" using that inner by linarith
    then show ?thesis using ext inner by simp
  qed
  ultimately show ?thesis using inner by (intro exI [of _ "like input ?u"]) simp
qed

lemma flatten_tail_stale_witness:
  "\<exists>u. flatten_size 1 2 (demo_tensor [2, 3, 4, 5]) (demo_tensor [7, 7, 7, 7]) = Inr u \<and> shape u = [2, 12, 7]"
proof -
  have d: "ndim (demo_tensor [2, 3, 4, 5]) = 4" "wf_tensor (demo_tensor [7, 7, 7, 7])"
    "len_at (demo_tensor [7, 7, 7, 7]) 2 = 7" by code_simp+
  from flatten_tail_stale [OF demo_wf(5) d(2), of 1 2] obtain u where
    u: "flatten_size 1 2 (demo_tensor [2, 3, 4, 5]) (demo_tensor [7, 7, 7, 7]) = Inr u" "length (shape u) = 3"
    "\<forall>i < 3. shape u ! i = (if i < 1 then len_at (demo_tensor [2, 3, 4, 5]) i else if i = 1
       then prod_list (map (len_at (demo_tensor [2, 3, 4, 5])) [1..<Suc 2])
       else if i \<le> 2 then len_at (demo_tensor [7, 7, 7, 7]) i else len_at (demo_tensor [2, 3, 4, 5]) i)"
    by (auto simp: d(1))
  have "map (len_at (demo_tensor [2, 3, 4, 5])) [1..<Suc 2] = [3, 4]" "len_at (demo_tensor [2, 3, 4, 5]) 0 = 2" by code_simp+
  then have "shape u ! 0 = 2" "shape u ! 1 = 12" "shape u ! 2 = 7" using u(3) d(3) by simp_all
  then have "shape u = [2, 12, 7]" using u(2) by (intro nth_equalityI) (auto simp: less_Suc_eq numeral_3_eq_3 numeral_2_eq_2)
  with u(1) show ?thesis by blast
qed

end
