(* ===== verification/Shape_Index.thy ===== *)
theory Shape_Index
  imports Shape_Base
begin

text \<open>
  Size computers that split, select and regroup along axes, in \<open>source/shape\<close>: \<open>ShapeSlice\<close>,
  \<open>ShapeSliceTf\<close>, \<open>ShapeCrop\<close>, \<open>ShapePadding\<close>, \<open>ShapeGatherV2\<close>, \<open>ShapeGatherND\<close> (both computers),
  \<open>ShapeOneHot\<close>, \<open>ShapePack\<close>, \<open>ShapeUnpack\<close>, \<open>ShapeTopKV2\<close>, \<open>ShapeArgMax\<close>, \<open>ShapeReduction\<close>,
  \<open>ShapeSpaceToDepth\<close> and \<open>ShapeDepthToSpace\<close>.
\<close>

section \<open>Slice\<close>

datatype net_source = SRC_CAFFE | SRC_TENSORFLOW | SRC_TORCH | SRC_OTHER

text \<open>The common start of every output of a slice: rank, type and dimension records of the input.\<close>

definition slice_output :: "tensor \<Rightarrow> tensor \<Rightarrow> tensor" where
  "slice_output input t =
     (copy_dims (ndim input) input t)\<lparr>dimensions := dimensions input, ttype := ttype input\<rparr>"

definition upd_out :: "nat \<Rightarrow> (tensor \<Rightarrow> tensor res) \<Rightarrow> tensor list \<Rightarrow> tensor list res" where
  "upd_out i f outs =
     (if i < length outs then rbind (f (outs ! i)) (\<lambda>t. Inr (outs[i := t])) else Inl Undefined)"

definition slice_caffe :: "int list \<Rightarrow> int \<Rightarrow> tensor \<Rightarrow> tensor list \<Rightarrow> tensor list res" where
  "slice_caffe points axis input outs =
     rbind (rfold (\<lambda>i (previous, os).
              rbind (upd_out i (\<lambda>t. set_at axis (points ! i - previous) (slice_output input t)) os)
                (\<lambda>os'. Inr (points ! i, os')))
              [0..<length points] (0, outs))
       (\<lambda>(previous, os). rbind (dim_at input axis) (\<lambda>d.
          upd_out (length os - 1) (\<lambda>t. set_at axis (d - previous) (slice_output input t)) os))"

text \<open>\<open>splitDim\<close> of the equal split: \<open>points\<close> has no element or one.\<close>

definition slice_equal_dim :: "net_source \<Rightarrow> int list option \<Rightarrow> int \<Rightarrow> int \<Rightarrow> int res" where
  "slice_equal_dim source points extent outputSize =
     rbind (div_c extent outputSize) (\<lambda>splitDim.
       case source of
         SRC_TORCH \<Rightarrow>
           (let sd = (case points of Some p \<Rightarrow> p ! 0 | None \<Rightarrow> splitDim)
            in rbind (div_c extent sd) (\<lambda>_. Inr sd))
       | SRC_TENSORFLOW \<Rightarrow>
           div_c extent (case points of Some p \<Rightarrow> if p ! 0 \<noteq> outputSize then p ! 0 else outputSize
                         | None \<Rightarrow> outputSize)
       | _ \<Rightarrow> Inr splitDim)"

definition slice_equal :: "int \<Rightarrow> int \<Rightarrow> tensor \<Rightarrow> tensor list \<Rightarrow> tensor list res" where
  "slice_equal splitDim axis input outs = rmap (\<lambda>t. set_at axis splitDim (slice_output input t)) outs"

definition slice_points :: "int list \<Rightarrow> int \<Rightarrow> tensor \<Rightarrow> tensor list \<Rightarrow> tensor list res" where
  "slice_points points axis input outs =
     rbind (dim_at input axis) (\<lambda>extent.
       check (sum_list points \<le> extent)
         (rbind (rfold (\<lambda>i (determine, maxSize, os).
                    let t = slice_output input (os ! i); len = points ! i
                    in if len \<noteq> -1 then
                         rbind (set_at axis len t) (\<lambda>t'. Inr (determine, maxSize + len, os[i := t']))
                       else check (determine < 0) (Inr (int i, maxSize, os[i := t])))
                  [0..<min (length points) (length outs)] (-1, 0, outs))
           (\<lambda>(determine, maxSize, os).
              if 0 \<le> determine then upd_out (nat determine) (set_at axis (extent - maxSize)) os
              else Inr os)))"

definition slice_size ::
  "net_source \<Rightarrow> int list option \<Rightarrow> int \<Rightarrow> tensor \<Rightarrow> tensor option \<Rightarrow> tensor list \<Rightarrow> tensor list res" where
  "slice_size source points axis0 input input1 outs =
     (let axis = (if axis0 < 0 then axis0 + dimensions input else axis0) in
      rbind (if source = SRC_CAFFE then
               (case points of Some p \<Rightarrow> slice_caffe p axis input outs | None \<Rightarrow> Inl Undefined)
             else if input1 = None \<and> (case points of None \<Rightarrow> True | Some p \<Rightarrow> length p = 1) then
               rbind (dim_at input axis) (\<lambda>extent.
                 rbind (slice_equal_dim source points extent (int (length outs))) (\<lambda>sd.
                   slice_equal sd axis input outs))
             else
               rbind (case input1 of
                        Some t \<Rightarrow> rmap (\<lambda>i. host_at t (int i)) [0..<nat (elementSize t)]
                      | None \<Rightarrow> Inr (case points of Some p \<Rightarrow> p | None \<Rightarrow> []))
                 (\<lambda>ps. slice_points ps axis input outs))
        (\<lambda>os. Inr (map (\<lambda>t. t\<lparr>dimensionFormat := dimensionFormat input\<rparr>) os)))"

definition sliceTf_size :: "tensor \<Rightarrow> tensor \<Rightarrow> tensor \<Rightarrow> tensor \<Rightarrow> tensor res" where
  "sliceTf_size input begin_tensor size_tensor output =
     rbind (rfold (\<lambda>i u. rbind (host_at size_tensor (int i)) (\<lambda>dim0. rbind (host_at begin_tensor (int i)) (\<lambda>b0.
              let len = len_at input i; b = (if b0 < 0 then b0 + len else b0)
              in check (0 \<le> b \<and> b \<le> len)
                   (let dim = (if dim0 = -1 then len - b else dim0)
                    in check (0 \<le> dim \<and> b + dim \<le> len) (Inr (setLength i dim u))))))
              [0..<ndim input] (output\<lparr>dimensions := dimensions input, ttype := ttype input\<rparr>))
       (\<lambda>u. Inr (u\<lparr>dimensionFormat := dimensionFormat input\<rparr>))"

section \<open>Crop and padding\<close>

definition crop_offset :: "int list \<Rightarrow> int \<Rightarrow> int res" where
  "crop_offset offsets idx =
     (if length offsets = 1 then Inr (offsets ! 0)
      else if 1 < length offsets then data_at offsets idx
      else Inr 0)"

definition crop_size :: "int list \<Rightarrow> int \<Rightarrow> tensor \<Rightarrow> tensor \<Rightarrow> tensor \<Rightarrow> tensor res" where
  "crop_size offsets axis input0 input1 output =
     rbind (rfold (\<lambda>i u.
              if int i < axis then Inr (setLength i (len_at input0 i) u)
              else rbind (crop_offset offsets (int i - axis)) (\<lambda>off.
                check (\<not> (off < 0 \<or> len_at input0 i \<le> off))
                  (check (\<not> len_at input0 i < len_at input1 i) (Inr u))))
              [0..<ndim input1]
              (copy_dims (ndim input1) input1 (output\<lparr>dimensions := dimensions input1\<rparr>)))
       (\<lambda>u. Inr (like input0 u))"

definition padding_size :: "nat \<Rightarrow> tensor \<Rightarrow> tensor \<Rightarrow> tensor list \<Rightarrow> tensor list res" where
  "padding_size inputCount input paddings outs =
     check ((inputCount = 2 \<or> inputCount = 3) \<and> length outs = 1)
       (let o1 = copyShape input ((outs ! 0)\<lparr>ttype := ttype input\<rparr>) True False
        in check (dimensions o1 * 2 \<le> elementSize paddings)
             (rbind (rfold (\<lambda>i u. rbind (host_at paddings (2 * int i)) (\<lambda>a.
                        rbind (host_at paddings (2 * int i + 1)) (\<lambda>b.
                          Inr (setLength i (len_at input i + a + b) u))))
                        [0..<ndim input] o1)
               (\<lambda>u. Inr [u])))"

section \<open>Gather\<close>

record input_param =
  in_dtype :: data_type
  in_dims :: "int list option"
  in_dformat :: data_format

text \<open>
  With one input the gathered tensor is a constant described by the operator's \<open>Input\<close> parameter;
  \<open>axisParam\<close> is the parameter of type \<open>Axis\<close>, if the operator has one.
\<close>

definition gatherV2_source ::
  "input_param option \<Rightarrow> tensor list \<Rightarrow> tensor \<Rightarrow> (int list \<times> tensor \<times> tensor) res" where
  "gatherV2_source inp inputs output =
     (if length inputs = 1 then
        (case inp of
           None \<Rightarrow> Inl ReturnFalse
         | Some p \<Rightarrow> Inr (case in_dims p of Some ds \<Rightarrow> ds | None \<Rightarrow> [], inputs ! 0,
             (setType (in_dtype p) output)\<lparr>dimensionFormat := in_dformat p\<rparr>))
      else if length inputs = 0 then Inl Undefined
      else Inr (shape (inputs ! 0), inputs ! 1, like (inputs ! 0) output))"

definition gatherV2_axis :: "int option \<Rightarrow> tensor list \<Rightarrow> int res" where
  "gatherV2_axis axisParam inputs =
     rbind (if length inputs = 3 then host_at (inputs ! 2) 0 else Inr 0) (\<lambda>a.
       Inr (case axisParam of Some x \<Rightarrow> x | None \<Rightarrow> a))"

definition gatherV2_size ::
  "input_param option \<Rightarrow> int option \<Rightarrow> tensor list \<Rightarrow> tensor \<Rightarrow> tensor res" where
  "gatherV2_size inp axisParam inputs output =
     rbind (gatherV2_source inp inputs output) (\<lambda>(paramShape, indices, o1).
       check (code (ttype indices) = halide_type_int)
         (rbind (gatherV2_axis axisParam inputs) (\<lambda>axis0.
            let paramDim = int (length paramShape)
            in check (\<not> (axis0 \<le> - paramDim \<or> paramDim \<le> axis0))
                 (let axis = nat (if axis0 < 0 then paramDim + axis0 else axis0);
                      result = take axis paramShape @ shape indices @ drop (axis + 1) paramShape
                  in Inr (fill_lengths 0 (length result) (\<lambda>i. result ! i)
                       (o1\<lparr>dimensions := int (length result)\<rparr>))))))"

definition gatherND_size :: "int option \<Rightarrow> tensor \<Rightarrow> tensor \<Rightarrow> tensor \<Rightarrow> tensor res" where
  "gatherND_size axisParam params indices output =
     check (code (ttype indices) = halide_type_int)
       (check (\<not> (dimensions params < 1 \<or> dimensions indices < 1))
          (let batchDim = (case axisParam of Some a \<Rightarrow> a | None \<Rightarrow> 0) in
           if elementSize indices = 0 then
             Inr (setLength 1 (last (shape params)) (setLength 0 0 ((like params output)\<lparr>dimensions := 2\<rparr>)))
           else
             (let indiceNd = len_at indices (ndim indices - 1) in
              check (\<not> dimensions params < indiceNd)
                (let o1 = (like params output)\<lparr>dimensions :=
                            dimensions params + dimensions indices - indiceNd - 1 - batchDim\<rparr>;
                     (k, o2) = fold (\<lambda>i (k, u). (k + 1, setLength k (len_at indices i) u))
                                 [0..<ndim indices - 1] (0, o1)
                 in rbind (rfold (\<lambda>i (k, u). rbind (dim_at params i) (\<lambda>d. Inr (k + 1, setLength k d u)))
                             [indiceNd + batchDim..dimensions params - 1] (k, o2))
                      (\<lambda>(k, u). Inr u)))))"

definition gatherElements_size :: "tensor \<Rightarrow> tensor \<Rightarrow> tensor \<Rightarrow> tensor res" where
  "gatherElements_size input0 input1 output =
     Inr (like input0 (fill_lengths 0 (ndim input1) (len_at input1) (output\<lparr>dimensions := dimensions input1\<rparr>)))"

section \<open>One-hot, pack, unpack, top-k\<close>

definition oneHot_size :: "int \<Rightarrow> tensor \<Rightarrow> tensor \<Rightarrow> tensor \<Rightarrow> tensor \<Rightarrow> tensor res" where
  "oneHot_size axis0 indices depthTensor onValue output =
     rbind (host_at depthTensor 0) (\<lambda>depth.
       check (0 \<le> depth)
         (let outputDimension = dimensions indices + 1;
              axis = (if axis0 < 0 then outputDimension + axis0 else axis0)
          in if axis < 0 then Inl Undefined
             else Inr ((fill_lengths 0 (nat outputDimension)
                (\<lambda>i. if int i < axis then len_at indices i
                     else if int i = axis then depth
                     else len_at indices (i - 1))
                (output\<lparr>dimensions := outputDimension, ttype := ttype onValue\<rparr>))
              \<lparr>dimensionFormat := dimensionFormat indices\<rparr>)))"

definition pack_size :: "int \<Rightarrow> tensor list \<Rightarrow> tensor \<Rightarrow> tensor res" where
  "pack_size axis0 inputs output =
     (let input = inputs ! 0; n = dimensions input + 1;
          axis = (if axis0 < 0 then axis0 + n else axis0);
          (j, u) = fold (\<lambda>i (j, u).
                     if int i = axis then (j, setLength i (int (length inputs)) u)
                     else (j + 1, setLength i (len_at input j) u))
                    [0..<nat n] (0, output\<lparr>dimensions := n, ttype := ttype input\<rparr>)
      in Inr (u\<lparr>dimensionFormat := dimensionFormat input\<rparr>))"

definition unpack_size :: "int \<Rightarrow> tensor list \<Rightarrow> tensor list \<Rightarrow> tensor list res" where
  "unpack_size axis0 inputs outs =
     check (inputs \<noteq> [] \<and> outs \<noteq> [])
       (let input = inputs ! 0; axis = (if axis0 < 0 then axis0 + dimensions input else axis0) in
        rbind (dim_at input axis) (\<lambda>extent.
          check (\<not> extent mod 2 ^ 64 < int (length outs))
            (let a = nat axis;
                 outDims = map (len_at input) [0..<a] @ map (len_at input) [a + 1..<ndim input];
                 n = ndim input - 1
             in Inr (map (\<lambda>t. (fill_lengths 0 n (\<lambda>j. outDims ! j)
                   (t\<lparr>dimensions := dimensions input - 1, ttype := ttype input\<rparr>))
                  \<lparr>dimensionFormat := dimensionFormat input\<rparr>) outs))))"

definition topKV2_size :: "tensor \<Rightarrow> tensor \<Rightarrow> tensor option \<Rightarrow> tensor \<Rightarrow> tensor \<Rightarrow> (tensor \<times> tensor) res" where
  "topKV2_size input kTensor axisTensor outputData outputIndices =
     rbind (host_at kTensor 0) (\<lambda>k.
       rbind (case axisTensor of Some t \<Rightarrow> host_at t 0 | None \<Rightarrow> Inr (dimensions input - 1)) (\<lambda>axis0.
         let axis = (if axis0 < 0 then axis0 + dimensions input else axis0);
             base = (\<lambda>t. copy_dims (ndim input) input (t\<lparr>dimensions := dimensions input\<rparr>))
         in rbind (set_at axis k (base outputData)) (\<lambda>d.
              rbind (set_at axis k (base outputIndices)) (\<lambda>i.
                Inr (like input d,
                     (setType DT_INT32 i)\<lparr>dimensionFormat := dimensionFormat kTensor\<rparr>)))))"

section \<open>ArgMax and reductions\<close>

record argmax_param =
  am_axis :: int
  am_topK :: int
  am_outMaxVal :: bool

definition argMax_size :: "argmax_param \<Rightarrow> tensor \<Rightarrow> tensor \<Rightarrow> tensor res" where
  "argMax_size p input output =
     (let o1 = (copy_dims (ndim input) input (output\<lparr>dimensions := dimensions input\<rparr>))
                 \<lparr>dimensionFormat := dimensionFormat input\<rparr>
      in if dimensionFormat input \<noteq> NC4HW4 then
           (let axis = (if am_axis p < 0 then dimensions input + am_axis p else am_axis p);
                (j, u) = fold (\<lambda>i (j, u). if int i = axis then (j, u) else (j + 1, setLength j (len_at input i) u))
                           [0..<ndim input] (0, o1\<lparr>dimensions := dimensions input - 1\<rparr>)
            in rbind (set_at (dimensions input - 1) 0 u) (\<lambda>v. Inr (v\<lparr>ttype := int32_type\<rparr>)))
         else if am_axis p = 0 then
           (let key = (if am_outMaxVal p then am_topK p * 2 else am_topK p);
                at = (if 1 < len_at input 3 then 3 else if 1 < len_at input 2 then 2 else 1)
            in Inr (setLength at key (o1\<lparr>ttype := float_type\<rparr>)))
         else if am_axis p \<noteq> 10000 then
           set_at (am_axis p) (if am_outMaxVal p then am_topK p * 2 else am_topK p) (o1\<lparr>ttype := float_type\<rparr>)
         else
           (if dimensions input < 3 then Inl Undefined
            else Inr (fill_lengths 0 (ndim input)
              (\<lambda>i. ((replicate (ndim input) 1)[0 := len_at input 0, 2 := am_topK p,
                      1 := (if am_outMaxVal p then 2 else 1)]) ! i) (o1\<lparr>ttype := float_type\<rparr>))))"

definition getRealAxis :: "int \<Rightarrow> int \<Rightarrow> int" where
  "getRealAxis axis n = (if axis < 0 then axis + n else axis)"

definition reduce_mask :: "int \<Rightarrow> int list \<Rightarrow> bool list res" where
  "reduce_mask n axes =
     rfold (\<lambda>a m. let r = getRealAxis a n
                  in if 0 \<le> r \<and> r < int max_dim then Inr (m[nat r := True]) else Inl Undefined)
       axes (replicate max_dim False)"

definition reduction_size :: "int list option \<Rightarrow> bool \<Rightarrow> tensor \<Rightarrow> tensor option \<Rightarrow> tensor \<Rightarrow> tensor res" where
  "reduction_size dim keepDims input input1 output =
     (let o1 = like input output in
      if dim = None \<and> input1 = None then
        Inr (if keepDims then fill_lengths 0 (ndim input) (\<lambda>_. 1) (o1\<lparr>dimensions := dimensions input\<rparr>)
             else o1\<lparr>dimensions := 0\<rparr>)
      else
        rbind (case (dim, input1) of
                 (Some ds, _) \<Rightarrow> Inr ds
               | (None, Some t) \<Rightarrow> rmap (\<lambda>i. host_at t (int i)) [0..<nat (elementSize t)]
               | (None, None) \<Rightarrow> Inr []) (\<lambda>axes.
          rbind (reduce_mask (dimensions input) axes) (\<lambda>m.
            let (k, u) = fold (\<lambda>i (k, u).
                           if m ! i then (if keepDims then (k + 1, setLength k 1 u) else (k, u))
                           else (k + 1, setLength k (len_at input i) u))
                          [0..<ndim input] (0, o1)
            in Inr (u\<lparr>dimensions := int k\<rparr>))))"

section \<open>Space and depth\<close>

definition spaceToDepth_size :: "int \<Rightarrow> tensor \<Rightarrow> tensor \<Rightarrow> tensor res" where
  "spaceToDepth_size blockSize input output =
     check (dimensions input = 4) (check (0 < blockSize)
       (let d = len_at input; nhwc = (dimensionFormat input = NHWC)
        in check (if nhwc then d 1 smod blockSize = 0 \<and> d 2 smod blockSize = 0
                  else d 2 smod blockSize = 0 \<and> d 3 smod blockSize = 0)
             (let o1 = setLength 0 (d 0) (output\<lparr>dimensions := dimensions input, ttype := ttype input\<rparr>);
                  o2 = (if nhwc then
                          setLength 3 (d 3 * (blockSize * blockSize))
                            (setLength 2 (d 2 sdiv blockSize) (setLength 1 (d 1 sdiv blockSize) o1))
                        else
                          setLength 1 (d 1 * (blockSize * blockSize))
                            (setLength 2 (d 2 sdiv blockSize) (setLength 3 (d 3 sdiv blockSize) o1)))
              in Inr (o2\<lparr>dimensionFormat := dimensionFormat input\<rparr>))))"

definition depthToSpace_size :: "int \<Rightarrow> tensor \<Rightarrow> tensor \<Rightarrow> tensor res" where
  "depthToSpace_size blockSize input output =
     (let d = len_at input; nhwc = (dimensionFormat input = NHWC);
          o1 = setLength 0 (d 0) (output\<lparr>dimensions := dimensions input, ttype := ttype input\<rparr>)
      in rbind (div_c (if nhwc then d 3 else d 1) (blockSize * blockSize)) (\<lambda>c.
           let o2 = (if nhwc then
                       setLength 3 c (setLength 2 (d 2 * blockSize) (setLength 1 (d 1 * blockSize) o1))
                     else
                       setLength 1 c (setLength 2 (d 2 * blockSize) (setLength 3 (d 3 * blockSize) o1)))
           in Inr (o2\<lparr>dimensionFormat := dimensionFormat input\<rparr>)))"

end
