(* ===== verification/Shape_Window.thy ===== *)
theory Shape_Window
  imports Shape_Base
begin

text \<open>
  Size computers of the windowed and matrix operators, in \<open>source/shape\<close>: \<open>ShapePool\<close>,
  \<open>ShapeConvolution\<close> (convolution, filter gradient, im2col, col2im), \<open>ShapeDeconvolution\<close> and
  \<open>ShapeMatMul\<close> with \<open>OpCommonUtils::computeMatMulSize\<close>. Where the code divides in \<open>float\<close> and
  takes the ceiling, the model takes the exact ceiling; the two agree for extents below \<open>2 ^ 24\<close>,
  which a \<open>float\<close> holds exactly. The floating point estimates of the operation counts are left out.
\<close>

definition ceil_div :: "int \<Rightarrow> int \<Rightarrow> int" where
  "ceil_div a b = - ((- a) div b)"

section \<open>Pooling\<close>

datatype pool_pad = PoolPad_CAFFE | PoolPad_VALID | PoolPad_SAME

record pool_param =
  isGlobal :: bool
  pstrideX :: int
  pstrideY :: int
  ppadType :: pool_pad
  ppadX :: int
  ppadY :: int
  ppads :: "int list option"
  pkernelX :: int
  pkernelY :: int
  ceilModel :: bool

definition pool_padded :: "pool_param \<Rightarrow> tensor \<Rightarrow> int \<times> int" where
  "pool_padded p input =
     (let w = width input; h = height input in
      case ppads p of
        Some ps \<Rightarrow>
          (if length ps = 2 then (w, h + (ps ! 0 + ps ! 1))
           else if length ps = 4 then (w + (ps ! 1 + ps ! 3), h + (ps ! 0 + ps ! 2))
           else (w, h))
      | None \<Rightarrow> (w + ppadX p * 2, h + ppadY p * 2))"

text \<open>One extent of the output: padded size, kernel clipped to it, stride.\<close>

definition pool_extent :: "pool_pad \<Rightarrow> bool \<Rightarrow> int \<Rightarrow> int \<Rightarrow> int \<Rightarrow> int" where
  "pool_extent padType ceil w kern stride =
     (case padType of
        PoolPad_SAME \<Rightarrow> ceil_div w stride
      | PoolPad_VALID \<Rightarrow> ceil_div (w - kern + 1) stride
      | PoolPad_CAFFE \<Rightarrow>
          (if ceil then up_div_int (w - kern) stride + 1 else (w - kern) sdiv stride + 1))"

definition pool_out :: "pool_param \<Rightarrow> tensor \<Rightarrow> (int \<times> int) res" where
  "pool_out p input =
     (if isGlobal p then Inr (1, 1)
      else check (\<not> (pstrideX p \<le> 0 \<or> pstrideY p \<le> 0))
        (check (\<not> (ppadType p \<noteq> PoolPad_CAFFE \<and> (ppadX p \<noteq> 0 \<or> ppadY p \<noteq> 0)))
          (let (w, h) = pool_padded p input in
           Inr (pool_extent (ppadType p) (ceilModel p) w (min (pkernelX p) w) (pstrideX p),
                pool_extent (ppadType p) (ceilModel p) h (min (pkernelY p) h) (pstrideY p)))))"

definition set_hw :: "data_format \<Rightarrow> int \<Rightarrow> int \<Rightarrow> tensor \<Rightarrow> tensor" where
  "set_hw format h w t =
     (if format = NHWC then setLength 1 h (setLength 2 w t) else setLength 2 h (setLength 3 w t))"

definition pool_size :: "pool_param \<Rightarrow> tensor \<Rightarrow> tensor \<Rightarrow> tensor option \<Rightarrow> (tensor \<times> tensor option) res" where
  "pool_size p input output indice =
     (let base = (\<lambda>t. copy_dims (ndim input) input (t\<lparr>dimensions := dimensions input\<rparr>));
          format = dimensionFormat input
      in rbind (pool_out p input) (\<lambda>(outw, outh).
           check (\<not> (outw \<le> 0 \<or> outh \<le> 0))
             (Inr (like input (set_hw format outh outw (base output)),
                   map_option (\<lambda>t. (set_hw format outh outw (base t))
                     \<lparr>dimensionFormat := format, ttype := int32_type\<rparr>) indice))))"

section \<open>Convolution\<close>

datatype pad_mode = PadMode_CAFFE | PadMode_VALID | PadMode_SAME

record conv_common =
  strideX :: int
  strideY :: int
  dilateX :: int
  dilateY :: int
  kernelX :: int
  kernelY :: int
  padX :: int
  padY :: int
  pads :: "int list option"
  outPads :: "int list option"
  padMode :: pad_mode
  group :: int
  inputCount :: int
  outputCount :: int
  hasOutputShape :: bool

text \<open>Kernel width, kern height and output channels; a second input may carry the weights.\<close>

definition conv_kernel :: "conv_common \<Rightarrow> tensor option \<Rightarrow> int \<times> int \<times> int" where
  "conv_kernel c weight =
     (case weight of
        Some w \<Rightarrow> if outputCount c = 0 then (len_at w 3, len_at w 2, len_at w 0)
                  else (kernelX c, kernelY c, outputCount c)
      | None \<Rightarrow> (kernelX c, kernelY c, outputCount c))"

definition conv_channels_ok :: "conv_common \<Rightarrow> tensor \<Rightarrow> bool" where
  "conv_channels_ok c input \<longleftrightarrow>
     inputCount c = 0 \<or>
     (inputCount c = outputCount c \<and> inputCount c = group c \<and> inputCount c = channel input) \<or>
     (inputCount c = channel input \<or> inputCount c * group c = channel input)"

text \<open>
  One extent of the output; \<open>lo\<close> and \<open>hi\<close> are the explicit paddings of that axis, if there are any,
  and \<open>pad\<close> is the symmetric one.
\<close>

definition conv_extent :: "pad_mode \<Rightarrow> (int \<times> int) option \<Rightarrow> int \<Rightarrow> int \<Rightarrow> int \<Rightarrow> int \<Rightarrow> int" where
  "conv_extent mode explicit pad len kern stride =
     (case mode of
        PadMode_SAME \<Rightarrow> ceil_div len stride
      | PadMode_VALID \<Rightarrow> ceil_div (len - kern + 1) stride
      | PadMode_CAFFE \<Rightarrow>
          (case explicit of
             Some (lo, hi) \<Rightarrow>
               (let padded = len + lo + hi
                in if padded < kern then 0 else (padded - kern) sdiv stride + 1)
           | None \<Rightarrow> (len + pad * 2 - kern) sdiv stride + 1))"

text \<open>The explicit paddings of the two axes, read only in the mode that uses them.\<close>

definition conv_pads :: "conv_common \<Rightarrow> ((int \<times> int) option \<times> (int \<times> int) option) res" where
  "conv_pads c =
     (case pads c of
        Some ps \<Rightarrow>
          (if padMode c \<noteq> PadMode_CAFFE then Inr (None, None)
           else if length ps < 4 then Inl Undefined
           else Inr (Some (ps ! 1, ps ! 3), Some (ps ! 0, ps ! 2)))
      | None \<Rightarrow> Inr (None, None))"

text \<open>
  \<open>quanType\<close> is the output type of a quantised convolution other than \<open>DT_INT8\<close>; \<open>plainConv\<close> says that
  the operator is \<open>OpType_Convolution\<close>.
\<close>

definition conv_size ::
  "conv_common \<Rightarrow> data_type option \<Rightarrow> bool \<Rightarrow> tensor \<Rightarrow> tensor option \<Rightarrow> tensor \<Rightarrow> tensor res" where
  "conv_size c quanType plainConv input weight output =
     check (\<not> (strideX c \<le> 0 \<or> strideY c \<le> 0 \<or> dilateX c \<le> 0 \<or> dilateY c \<le> 0))
       (let (kX, kY, oc) = conv_kernel c weight;
            kernel_width = dilateX c * (kX - 1) + 1;
            kernel_height = dilateY c * (kY - 1) + 1
        in check (\<not> dimensions input \<le> 1)
             (check (\<not> (weight = None \<and> \<not> conv_channels_ok c input \<and> plainConv))
               (rbind (conv_pads c) (\<lambda>(ex, ey).
                  let ow = conv_extent (padMode c) ex (padX c) (width input) kernel_width (strideX c);
                      oh = conv_extent (padMode c) ey (padY c) (height input) kernel_height (strideY c);
                      o1 = output\<lparr>dimensions := dimensions input, ttype := ttype input\<rparr>;
                      o2 = (case quanType of Some d \<Rightarrow> if d \<noteq> DT_INT8 then setType d o1 else o1 | None \<Rightarrow> o1);
                      o3 = setLength 0 (len_at input 0) o2;
                      o4 = (if dimensionFormat input = NHWC
                            then setLength 2 ow (setLength 1 oh (setLength 3 oc o3))
                            else setLength 3 ow (setLength 2 oh (setLength 1 oc o3)))
                  in Inr (o4\<lparr>dimensionFormat := dimensionFormat input\<rparr>)))))"

definition convBackpropFilter_size :: "conv_common \<Rightarrow> tensor \<Rightarrow> tensor \<Rightarrow> tensor \<Rightarrow> tensor res" where
  "convBackpropFilter_size c input0 input1 kern =
     rbind (div_c (channel input0) (group c)) (\<lambda>ic.
       Inr (setLength 3 (kernelX c) (setLength 2 (kernelY c) (setLength 1 ic (setLength 0 (channel input1)
         (kern\<lparr>dimensions := 4, ttype := float_type, dimensionFormat := NCHW\<rparr>))))))"

text \<open>\<open>Im2Col\<close> ignores the answer of the convolution's computer, which changes nothing when it is \<open>false\<close>.\<close>

definition im2Col_size :: "conv_common \<Rightarrow> tensor \<Rightarrow> tensor \<Rightarrow> tensor res" where
  "im2Col_size c input output =
     rbind (case conv_size c None False input None output of
              Inr u \<Rightarrow> Inr u | Inl ReturnFalse \<Rightarrow> Inr output | Inl Undefined \<Rightarrow> Inl Undefined)
       (\<lambda>u. let oh = height u; ow = width u
            in Inr (setLength 1 (batch input * oh * ow)
                 (setLength 0 (channel input * kernelY c * kernelX c) (u\<lparr>dimensions := 2\<rparr>))))"

definition col2Im_size :: "conv_common \<Rightarrow> tensor \<Rightarrow> tensor \<Rightarrow> tensor \<Rightarrow> tensor res" where
  "col2Im_size c input outputShape output =
     rbind (if elementSize outputShape = 2
            then rbind (host_at outputShape 0) (\<lambda>a. rbind (host_at outputShape 1) (\<lambda>b. Inr (a, b)))
            else Inr (1, 1)) (\<lambda>(oh, ow).
       if shape input = [] then Inl Undefined
       else
         (let iDim = shape input;
              (n, colSize) = (if length iDim = 3 then (iDim ! 0, iDim ! 1) else (1, iDim ! 0))
          in rbind (div_c colSize (kernelY c * kernelX c)) (\<lambda>oc.
               Inr (setLength 3 ow (setLength 2 oh (setLength 1 oc (setLength 0 n
                 (output\<lparr>dimensions := 4\<rparr>))))))))"

section \<open>Deconvolution\<close>

definition deconv_extent :: "conv_common \<Rightarrow> (int \<times> int) option \<Rightarrow> int \<Rightarrow> int \<Rightarrow> int \<Rightarrow> int \<Rightarrow> int \<Rightarrow> int" where
  "deconv_extent c explicit pad len kern stride dilate =
     (case explicit of
        Some (lo, hi) \<Rightarrow> (len - 1) * stride + dilate * (kern - 1) + 1 - lo - hi
      | None \<Rightarrow> (len - 1) * stride + dilate * (kern - 1) + 1 - pad * 2)"

definition deconv_out :: "conv_common \<Rightarrow> tensor \<Rightarrow> (int \<times> int) res" where
  "deconv_out c input =
     (if padMode c = PadMode_SAME then Inr (width input * strideX c, height input * strideY c)
      else
        rbind (case pads c of
                 Some ps \<Rightarrow> if length ps < 4 then Inl Undefined
                            else Inr (Some (ps ! 1, ps ! 3), Some (ps ! 0, ps ! 2))
               | None \<Rightarrow> Inr (None, None)) (\<lambda>(ex, ey).
          rbind (case outPads c of
                   Some os \<Rightarrow> if length os < 2 then Inl Undefined else Inr (os ! 1, os ! 0)
                 | None \<Rightarrow> Inr (0, 0)) (\<lambda>(ax, ay).
            Inr (deconv_extent c ex (padX c) (width input) (kernelX c) (strideX c) (dilateX c) + ax,
                 deconv_extent c ey (padY c) (height input) (kernelY c) (strideY c) (dilateY c) + ay))))"

definition deconv_size :: "conv_common \<Rightarrow> tensor \<Rightarrow> tensor \<Rightarrow> tensor \<Rightarrow> tensor res" where
  "deconv_size c input lastInput output =
     rbind (if hasOutputShape c
            then rbind (host_at lastInput 1) (\<lambda>h. rbind (host_at lastInput 2) (\<lambda>w. Inr (h, w)))
            else Inr (0, 0)) (\<lambda>(outputHeight, outputWidth).
       rbind (if 0 < outputHeight \<and> 0 < outputWidth then Inr (outputWidth, outputHeight)
              else deconv_out c input) (\<lambda>(ow, oh).
         (let o1 = setLength 0 (len_at input 0) (output\<lparr>ttype := ttype input, dimensions := dimensions input\<rparr>);
              o2 = (if dimensionFormat input = NHWC
                    then setLength 2 ow (setLength 1 oh (setLength 3 (outputCount c) o1))
                    else setLength 3 ow (setLength 2 oh (setLength 1 (outputCount c) o1)))
          in Inr (o2\<lparr>dimensionFormat := dimensionFormat input\<rparr>))))"

section \<open>Matrix product\<close>

text \<open>\<open>(e, l, h)\<close>: rows, common extent and columns.\<close>

definition computeMatMulSize :: "bool \<Rightarrow> bool \<Rightarrow> tensor \<Rightarrow> tensor \<Rightarrow> (int \<times> int \<times> int) res" where
  "computeMatMulSize transposeA transposeB A B =
     check (\<not> (dimensions A < 1 \<or> dimensions B < 1))
       (let (w0, h0, tA) = (if dimensions A = 1 then (len_at A 0, 1, False)
                            else (len_at A (ndim A - 1), len_at A (ndim A - 2), transposeA));
            (w1, h1, tB) = (if dimensions B = 1 then (1, len_at B 0, False)
                            else (len_at B (ndim B - 1), len_at B (ndim B - 2), transposeB));
            (w0', h0') = (if tA then (h0, w0) else (w0, h0));
            (w1', h1') = (if tB then (h1, w1) else (w1, h1))
        in check (w0' = h1') (Inr (h0', w0', w1')))"

definition matMul_batch :: "tensor \<Rightarrow> tensor \<Rightarrow> tensor \<Rightarrow> tensor res" where
  "matMul_batch deep shallow output =
     (let maxDimensions = ndim deep - 2; diff = ndim deep - ndim shallow
      in rfold (\<lambda>i u. rbind (broadcast_dim (len_at shallow (i - diff)) (len_at u i)) (\<lambda>v. Inr (setLength i v u)))
           [diff..<maxDimensions] (fill_lengths 0 maxDimensions (len_at deep) output))"

definition matMul_tail :: "int \<Rightarrow> int \<Rightarrow> int \<Rightarrow> bool \<Rightarrow> bool \<Rightarrow> tensor \<Rightarrow> tensor" where
  "matMul_tail n e h eValid hValid u =
     (let m = nat n;
          u1 = (if 2 \<le> n then setLength (m - 1) h (setLength (m - 2) e u)
                else if n = 1 then setLength 0 e u else u);
          u2 = (if \<not> eValid \<and> 2 \<le> n then setLength (m - 2) h u1 else u1);
          u3 = (if \<not> hValid \<and> 2 \<le> n then setLength (m - 1) e u2 else u2);
          squeezeDim = (if eValid then 0 else 1) + (if hValid then 0 else 1);
          newDim = n - squeezeDim
      in if 0 < squeezeDim then
           (if newDim \<le> 0 then (setLength 0 1 u3)\<lparr>dimensions := 1\<rparr> else u3\<lparr>dimensions := newDim\<rparr>)
         else u3)"

definition matMul_size :: "bool \<Rightarrow> bool \<Rightarrow> tensor \<Rightarrow> tensor \<Rightarrow> tensor \<Rightarrow> tensor res" where
  "matMul_size transposeA transposeB input0 input1 output =
     rbind (computeMatMulSize transposeA transposeB input0 input1) (\<lambda>(e, l, h).
       (let (deep, shallow) = (if dimensions input0 < dimensions input1 then (input1, input0) else (input0, input1));
            n = dimensions deep
        in rbind (matMul_batch deep shallow (output\<lparr>ttype := ttype input0, dimensions := n\<rparr>)) (\<lambda>u.
             Inr ((matMul_tail n e h (1 < dimensions input0) (1 < dimensions input1) u)
               \<lparr>dimensionFormat := dimensionFormat input0\<rparr>))))"

end
