(* ===== verification/Shape_Strided.thy ===== *)
theory Shape_Strided
  imports Shape_Base
begin

text \<open>
  The strided slice, \<open>source/shape/ShapeStridedSlice.cpp\<close>: the parameters of TensorFlow (masks,
  ellipsis) and of ONNX (axes and steps) are brought into one list of ranges per dimension, and the
  extent of each range is computed.
\<close>

section \<open>Parameters\<close>

record strided_param =
  beginMask :: int
  endMask :: int
  ellipsisMask :: int
  newAxisMask :: int
  shrinkAxisMask :: int
  fromType :: int

text \<open>The arrays of the code, of \<open>MNN_MAX_TENSOR_DIM\<close> entries each; masks are kept as flags.\<close>

record strided_ranges =
  begins :: "int list"
  ends :: "int list"
  steps :: "int list"
  beginMasks :: "bool list"
  endMasks :: "bool list"
  shrinkMasks :: "bool list"
  newAxisMasks :: "bool list"

definition mask_flags :: "int \<Rightarrow> nat \<Rightarrow> bool list" where
  "mask_flags m n = map (\<lambda>i. i < n \<and> odd (m div 2 ^ i)) [0..<max_dim]"

definition init_ranges :: "strided_param \<Rightarrow> tensor \<Rightarrow> nat \<Rightarrow> strided_ranges" where
  "init_ranges p input strideSize =
     \<lparr>begins = replicate max_dim 0,
      ends = map (\<lambda>i. if i < ndim input then len_at input i else 0) [0..<max_dim],
      steps = map (\<lambda>i. if i < ndim input then 1 else 0) [0..<max_dim],
      beginMasks = mask_flags (beginMask p) strideSize, endMasks = mask_flags (endMask p) strideSize,
      shrinkMasks = mask_flags (shrinkAxisMask p) strideSize,
      newAxisMasks = mask_flags (newAxisMask p) strideSize\<rparr>"

definition set_range :: "nat \<Rightarrow> int \<Rightarrow> int \<Rightarrow> int \<Rightarrow> strided_ranges \<Rightarrow> strided_ranges" where
  "set_range i b e s r = r\<lparr>begins := (begins r)[i := b], ends := (ends r)[i := e], steps := (steps r)[i := s]\<rparr>"

section \<open>ONNX: axes and steps\<close>

definition onnx_axis :: "tensor \<Rightarrow> tensor option \<Rightarrow> nat \<Rightarrow> int res" where
  "onnx_axis input axis i =
     rbind (case axis of
              Some t \<Rightarrow> rbind (host_at t (int i)) (\<lambda>a. Inr (if a < 0 then a + dimensions input else a))
            | None \<Rightarrow> Inr (int i))
       (\<lambda>a. if 0 \<le> a \<and> a < int max_dim then Inr a else Inl Undefined)"

definition onnx_range ::
  "tensor \<Rightarrow> tensor \<Rightarrow> tensor \<Rightarrow> tensor option \<Rightarrow> tensor option \<Rightarrow> nat \<Rightarrow> strided_ranges \<Rightarrow> strided_ranges res" where
  "onnx_range input begin_t end_t axis step i r =
     rbind (onnx_axis input axis i) (\<lambda>a.
       let k = nat a; len = (if k < ndim input then len_at input k else 0)
       in rbind (case step of Some t \<Rightarrow> host_at t (int i) | None \<Rightarrow> Inr (steps r ! k)) (\<lambda>s.
            check (step = None \<or> s \<noteq> 0)
              (rbind (host_at begin_t (int i)) (\<lambda>b. rbind (host_at end_t (int i)) (\<lambda>e.
                 Inr (set_range k (if b < 0 then b + len else b) (if e < 0 then e + len else e) s r))))))"

section \<open>TensorFlow: ellipsis and plain ranges\<close>

definition ellipsis_pos :: "int \<Rightarrow> nat \<Rightarrow> int" where
  "ellipsis_pos m n = (case filter (\<lambda>i. odd (m div 2 ^ i)) [0..<n] of [] \<Rightarrow> -1 | i # _ \<Rightarrow> int i)"

text \<open>
  One step of the expansion; \<open>old\<close> holds the masks before the expansion, \<open>k\<close> is \<open>strideIdx\<close>.
\<close>

definition ellipsis_step ::
  "int \<Rightarrow> int \<Rightarrow> tensor \<Rightarrow> tensor \<Rightarrow> tensor \<Rightarrow> tensor option \<Rightarrow> strided_ranges \<Rightarrow> nat \<Rightarrow>
    nat \<times> strided_ranges \<Rightarrow> (nat \<times> strided_ranges) res" where
  "ellipsis_step pos ellipsisSize input begin_t end_t strided old i = (\<lambda>(k0, r).
     let k = (if int i = pos then k0 + 1 else k0) in
     if pos \<le> int i \<and> int i \<le> pos + ellipsisSize then
       Inr (k, (set_range i 0 (len_at input i) 1 r)
         \<lparr>beginMasks := (beginMasks r)[i := False], endMasks := (endMasks r)[i := False],
          shrinkMasks := (shrinkMasks r)[i := False], newAxisMasks := (newAxisMasks r)[i := False]\<rparr>)
     else if max_dim \<le> k then Inl Undefined
     else
       rbind (host_at begin_t (int k)) (\<lambda>b. rbind (host_at end_t (int k)) (\<lambda>e.
         rbind (case strided of Some t \<Rightarrow> host_at t (int k) | None \<Rightarrow> Inr (steps r ! i)) (\<lambda>s.
           Inr (k + 1, (set_range i b e s r)
             \<lparr>beginMasks := (beginMasks r)[i := beginMasks old ! k],
              endMasks := (endMasks r)[i := endMasks old ! k],
              shrinkMasks := (shrinkMasks r)[i := shrinkMasks old ! k],
              newAxisMasks := (newAxisMasks r)[i := newAxisMasks old ! k]\<rparr>)))))"

definition tf_range :: "tensor \<Rightarrow> tensor \<Rightarrow> tensor option \<Rightarrow> nat \<Rightarrow> strided_ranges \<Rightarrow> strided_ranges res" where
  "tf_range begin_t end_t strided i r =
     rbind (host_at begin_t (int i)) (\<lambda>b. rbind (host_at end_t (int i)) (\<lambda>e.
       rbind (case strided of Some t \<Rightarrow> host_at t (int i) | None \<Rightarrow> Inl Undefined) (\<lambda>s.
         check (s \<noteq> 0) (Inr (set_range i b e s r)))))"

text \<open>The ranges and the number of them; \<open>inputs\<close> are all the inputs.\<close>

definition strided_setup :: "strided_param \<Rightarrow> tensor list \<Rightarrow> (nat \<times> strided_ranges) res" where
  "strided_setup p inputs =
     (let input = inputs ! 0; begin_t = inputs ! 1; end_t = inputs ! 2;
          size0 = nat (len_at begin_t 0);
          opt = (\<lambda>n i. if n \<le> length inputs then Some (inputs ! i) else None);
          r0 = init_ranges p input size0
      in if max_dim < size0 then Inl Undefined
         else if fromType p = 1 then
           rbind (rfold (onnx_range input begin_t end_t (opt 4 3) (if length inputs = 5 then Some (inputs ! 4) else None))
                    [0..<size0] r0)
             (\<lambda>r. Inr (ndim input, r))
         else if fromType p = 0 then
           (if 0 < ellipsisMask p then
              rbind (rfold (ellipsis_step (ellipsis_pos (ellipsisMask p) size0) (dimensions input - int size0)
                              input begin_t end_t (opt 4 3) r0) [0..<ndim input] (0, r0))
                (\<lambda>(k, r). Inr (ndim input, r))
            else
              rbind (rfold (tf_range begin_t end_t (opt 4 3)) [0..<size0] r0) (\<lambda>r. Inr (size0, r)))
         else Inr (size0, r0))"

section \<open>The extent of a range\<close>

definition range_limit :: "int \<Rightarrow> int \<Rightarrow> bool \<Rightarrow> int" where
  "range_limit x dimSize exclusive =
     (let maxShape = (if exclusive then dimSize else dimSize - 1);
          minShape = (if exclusive then - dimSize - 1 else - dimSize);
          y = min x maxShape; z = max y minShape
      in if z < 0 then z + dimSize else z)"

definition range_begin :: "bool \<Rightarrow> int \<Rightarrow> int \<Rightarrow> int \<Rightarrow> int res" where
  "range_begin masked stride b dim =
     (let b0 = (if masked then (if stride < 0 then dim - 1 else 0)
                else if stride < 0 then range_limit b dim False
                else min dim b)
      in if b0 < 0 then rbind (div_c (- b0 + dim - 1) dim) (\<lambda>q. Inr (q * dim + b0)) else Inr b0)"

definition range_end :: "bool \<Rightarrow> int \<Rightarrow> int \<Rightarrow> int \<Rightarrow> int" where
  "range_end masked stride e dim =
     (if masked then (if stride < 0 then -1 else dim)
      else if stride < 0 then max (-1) (min dim e)
      else range_limit e dim True)"

text \<open>\<open>(begin, end, stride)\<close> after the exchange of the bounds of a descending range.\<close>

definition range_order :: "int \<Rightarrow> int \<Rightarrow> int \<Rightarrow> (int \<times> int \<times> int) res" where
  "range_order b e stride =
     (if e < b then
        check (stride \<noteq> 0) (Inr (if stride < 0 then (e, b, - stride) else (b, b, stride)))
      else Inr (b, e, stride))"

definition range_size :: "int \<Rightarrow> int \<Rightarrow> int \<Rightarrow> int res" where
  "range_size b e stride =
     rbind (range_order b e stride) (\<lambda>(b', e', s).
       rbind (div_c (e' - b' - 1) s) (\<lambda>q. Inr (q + 1)))"

text \<open>One dimension: the state is the shape so far and the number of input dimensions used.\<close>

definition strided_dim :: "tensor \<Rightarrow> strided_ranges \<Rightarrow> nat \<Rightarrow> int list \<times> nat \<Rightarrow> (int list \<times> nat) res" where
  "strided_dim input r i = (\<lambda>(out, k).
     if newAxisMasks r ! i then Inr (out @ [1], k)
     else
       (let dim = (if k < ndim input then len_at input k else 0);
            stride = (if shrinkMasks r ! i then 1 else steps r ! i)
        in rbind (range_begin (beginMasks r ! i) stride (begins r ! i) dim) (\<lambda>b.
             let e = range_end (endMasks r ! i) stride (ends r ! i) dim
             in if shrinkMasks r ! i
                then rbind (range_order b e stride) (\<lambda>_. Inr (out, k + 1))
                else rbind (range_size b e stride) (\<lambda>s. Inr (out @ [s], k + 1)))))"

definition stridedSlice_size :: "strided_param \<Rightarrow> tensor list \<Rightarrow> tensor \<Rightarrow> tensor res" where
  "stridedSlice_size p inputs output =
     (let input = inputs ! 0 in
      check (\<not> (dimensions input \<le> 0 \<or> int max_dim < dimensions input))
        (if fromType p = 0 \<and> length inputs = 5 then
           Inr ((copyShape input output True False)\<lparr>ttype := ttype input, dimensionFormat := dimensionFormat input\<rparr>)
         else
           check (\<not> (ellipsisMask p \<noteq> 0 \<and> \<not> (0 < ellipsisMask p \<and> (\<exists>i \<in> {..<31::nat}. ellipsisMask p = 2 ^ i))))
             (rbind (strided_setup p inputs) (\<lambda>(n, r).
                rbind (rfold (strided_dim input r) [0..<n] ([], 0)) (\<lambda>(out, k).
                  let result = out @ map (len_at input) [k..<ndim input]
                  in if max_dim < length result then Inl Undefined
                     else Inr (like input (fill_lengths 0 (length result) (\<lambda>i. result ! i)
                            (output\<lparr>dimensions := int (length result)\<rparr>))))))))"

section \<open>Properties of the extent\<close>

text \<open>The positions a range selects: \<open>b, b + s, b + 2 * s, ...\<close> before \<open>e\<close> is reached or passed.\<close>

definition range_positions :: "int \<Rightarrow> int \<Rightarrow> int \<Rightarrow> nat set" where
  "range_positions b e s = {k. if 0 < s then b + int k * s < e else e < b + int k * s}"

lemma positions_up:
  assumes "0 < s" and "b < e"
  shows "card (range_positions b e s) = nat ((e - b - 1) div s + 1)"
proof -
  let ?q = "(e - b - 1) div s"
  have "0 \<le> ?q" using assms by (simp add: pos_imp_zdiv_nonneg_iff)
  have "range_positions b e s = {..<nat (?q + 1)}"
  proof (rule set_eqI)
    fix k
    have "b + int k * s < e \<longleftrightarrow> int k * s \<le> e - b - 1" by linarith
    also have "\<dots> \<longleftrightarrow> int k \<le> ?q"
    proof
      assume "int k * s \<le> e - b - 1"
      then have "int k * s div s \<le> ?q" using assms(1) by (rule zdiv_mono1)
      then show "int k \<le> ?q" using assms(1) by simp
    next
      assume "int k \<le> ?q"
      then have "int k * s \<le> ?q * s" using assms(1) by (simp add: mult_right_mono)
      also have "\<dots> \<le> e - b - 1"
        using div_mult_mod_eq [of "e - b - 1" s] pos_mod_sign [OF assms(1), of "e - b - 1"] by linarith
      finally show "int k * s \<le> e - b - 1" .
    qed
    finally show "k \<in> range_positions b e s \<longleftrightarrow> k \<in> {..<nat (?q + 1)}"
      using assms(1) \<open>0 \<le> ?q\<close> by (simp add: range_positions_def) linarith
  qed
  then show ?thesis by simp
qed


lemma positions_down:
  assumes "s < 0" and "e < b"
  shows "card (range_positions b e s) = nat ((b - e - 1) div (- s) + 1)"
proof -
  have "range_positions b e s = range_positions e b (- s)"
    using assms by (auto simp: range_positions_def)
  then show ?thesis using positions_up [of "- s" e b] assms by simp
qed

text \<open>
  C38. The extent of one dimension of a strided slice: for an ascending range that is not empty, and
  for a descending one, it is the number of positions the range selects.
\<close>

theorem strided_extent_exact:
  assumes "0 < s \<and> b < e \<or> s < 0 \<and> e < b"
  shows "range_size b e s = Inr (int (card (range_positions b e s)))"
proof (cases "0 < s")
  case True
  with assms have "b < e" by auto
  moreover from this True have "0 \<le> (e - b - 1) div s" by (simp add: pos_imp_zdiv_nonneg_iff)
  ultimately show ?thesis using True
    by (simp add: range_size_def range_order_def div_c_def sdiv_pos positions_up)
next
  case False
  with assms have "s < 0" "e < b" by auto
  moreover from this have "0 \<le> (b - e - 1) div (- s)" by (simp add: pos_imp_zdiv_nonneg_iff)
  moreover from \<open>s < 0\<close> \<open>e < b\<close> have "- ((b - e - 1) sdiv s) = (b - e - 1) div (- s)"
    using sdiv_pos [of "b - e - 1" "- s"] by simp
  ultimately show ?thesis
    by (simp add: range_size_def range_order_def div_c_def positions_down)
qed

lemma strided_extent_exact_witness: "range_size 9 0 (-2) = Inr (int (card (range_positions 9 0 (-2))))"
  using strided_extent_exact [of "-2" 9 0] by simp

lemma strided_empty_extent_facts:
  assumes "if 0 < s then e \<le> b else s = -1 \<and> b \<le> e"
  shows "card (range_positions b e s) = 0"
    and "range_size b e s = Inr (if s = 1 then 0 else if 0 < s then 1 else 2 - (e - b))"
proof -
  have "k \<notin> range_positions b e s" for k
  proof (cases "0 < s")
    case True
    have "0 \<le> int k * s" using True by simp
    moreover have "e \<le> b" using True assms by simp
    ultimately have "\<not> b + int k * s < e" by linarith
    with True assms show ?thesis unfolding range_positions_def by simp
  qed (use assms in \<open>auto simp: range_positions_def\<close>)
  then have "range_positions b e s = {}" by blast
  then show "card (range_positions b e s) = 0" by simp
  have "(-1) sdiv s = (if s = 1 then -1 else 0)" if "0 < s"
  proof -
    have "s = 1 \<or> 1 div s = 0" using that div_pos_pos_trivial [of 1 s] by linarith
    then show ?thesis using that by (auto simp: signed_divide_int_def)
  qed
  moreover have "(e - b - 1) sdiv (-1) = - (e - b - 1)"
    by (auto simp: signed_divide_int_def sgn_if)
  ultimately show "range_size b e s = Inr (if s = 1 then 0 else if 0 < s then 1 else 2 - (e - b))"
    using assms by (auto simp: range_size_def range_order_def div_c_def split: if_splits)
qed


text \<open>
  C39. A range that selects nothing does not always get the extent 0: ascending with a step of at
  least 2 it gets 1, and descending with a step of -1 it gets the negative distance plus 2.
\<close>

theorem strided_empty_extent:
  assumes "if 0 < s then e \<le> b else s = -1 \<and> b \<le> e"
  shows "card (range_positions b e s) = 0 \<and>
     range_size b e s = Inr (if s = 1 then 0 else if 0 < s then 1 else 2 - (e - b))"
  using strided_empty_extent_facts [OF assms] by simp

lemma strided_empty_extent_witness:
  "card (range_positions 3 3 2) = 0 \<and> range_size 3 3 2 = Inr 1 \<and> range_size 2 5 (-1) = Inr (-1)"
  using strided_empty_extent [of 2 3 3] strided_empty_extent [of "-1" 5 2] by simp

end
