(* ===== verification/Shape_Misc.thy ===== *)
theory Shape_Misc
  imports Shape_Base
begin

text \<open>
  Size computers of the remaining simple operators, in \<open>source/shape\<close>: \<open>ShapeShape\<close> (shape and
  raster), \<open>ShapeRange\<close>, \<open>ShapeWhere\<close>, \<open>ShapeUnique\<close>, \<open>ShapeScatterNd\<close>, \<open>ShapeCropAndResize\<close>,
  \<open>ShapeSpaceToBatchND\<close>, \<open>ShapeBatchToSpaceND\<close>, \<open>ShapeSelect\<close>, \<open>ShapeSize\<close>, \<open>ShapeFill\<close>, \<open>ShapeCast\<close>
  and \<open>ShapeTensorConvert\<close>. A tensor without contents stands for one with a null host pointer.
\<close>

section \<open>Shape and raster\<close>

record shape_param =
  startIndex :: "int option"
  endIndex :: "int option"

definition resolveShapeRange :: "shape_param option \<Rightarrow> int \<Rightarrow> int \<times> int" where
  "resolveShapeRange param rank =
     (let wrap = (\<lambda>x. if x < 0 then x + rank else x);
          start = (case param of Some p \<Rightarrow> (case startIndex p of Some s \<Rightarrow> wrap s | None \<Rightarrow> 0) | None \<Rightarrow> 0);
          end' = (case param of Some p \<Rightarrow> (case endIndex p of Some e \<Rightarrow> wrap e | None \<Rightarrow> rank) | None \<Rightarrow> rank);
          start' = max 0 (min start rank)
      in (start', max start' (min end' rank)))"

definition shape_size :: "shape_param option \<Rightarrow> data_format \<Rightarrow> tensor \<Rightarrow> tensor \<Rightarrow> tensor res" where
  "shape_size param defaultFormat input output =
     (let rank = (if dimensionFormat input = NC4HW4 \<and> defaultFormat = NHWC then 4 else dimensions input);
          (a, b) = resolveShapeRange param rank
      in Inr (setLength 0 (b - a)
           ((setType DT_INT32 (output\<lparr>dimensions := 1\<rparr>))\<lparr>dimensionFormat := defaultFormat\<rparr>)))"

text \<open>The attributes the raster operator understands; others are skipped.\<close>

datatype raster_attr = AttrShape "int list option" | AttrCode type_code | AttrBits int
  | AttrFormat data_format | AttrOther

definition raster_attr_step :: "raster_attr \<Rightarrow> tensor \<Rightarrow> tensor" where
  "raster_attr_step a t =
     (case a of
        AttrShape (Some ds) \<Rightarrow> fill_lengths 0 (length ds) (\<lambda>j. ds ! j) (t\<lparr>dimensions := int (length ds)\<rparr>)
      | AttrShape None \<Rightarrow> t\<lparr>dimensions := 0\<rparr>
      | AttrCode c \<Rightarrow> t\<lparr>ttype := (ttype t)\<lparr>code := c\<rparr>\<rparr>
      | AttrBits b \<Rightarrow> t\<lparr>ttype := (ttype t)\<lparr>bits := b\<rparr>\<rparr>
      | AttrFormat f \<Rightarrow> t\<lparr>dimensionFormat := f\<rparr>
      | AttrOther \<Rightarrow> t)"

definition raster_size :: "raster_attr list option \<Rightarrow> tensor list \<Rightarrow> tensor \<Rightarrow> tensor res" where
  "raster_size extra inputs output =
     (case extra of
        None \<Rightarrow> (if inputs = [] then Inl Undefined
                 else Inr (copyShape (inputs ! 0) (output\<lparr>ttype := ttype (inputs ! 0)\<rparr>) True False))
      | Some attrs \<Rightarrow>
          Inr (fold raster_attr_step attrs (if inputs = [] then output else like (inputs ! 0) output)))"

section \<open>Sizes that depend on the contents\<close>

text \<open>
  \<open>computeSize<int32_t>\<close> of a range; the code goes through \<open>float\<close>, exact for integers below
  \<open>2 ^ 24\<close>.
\<close>

definition range_count :: "int \<Rightarrow> int \<Rightarrow> int \<Rightarrow> int res" where
  "range_count start limit delta =
     (if 0 < delta \<and> limit < start then Inr 0
      else if \<not> 0 < delta \<and> start < limit then Inr 0
      else if delta = 0 then Inl Undefined
      else Inr (- ((- \<bar>limit - start\<bar>) div \<bar>delta\<bar>)))"

definition range_op_size :: "tensor \<Rightarrow> tensor \<Rightarrow> tensor \<Rightarrow> tensor \<Rightarrow> tensor res" where
  "range_op_size start_in limit_in delta_in output =
     rbind (host_at start_in 0) (\<lambda>s. rbind (host_at limit_in 0) (\<lambda>l. rbind (host_at delta_in 0) (\<lambda>d.
       rbind (range_count s l d) (\<lambda>n.
         Inr ((setLength 0 n ((setType DT_INT32 output)\<lparr>dimensions := 1\<rparr>))
           \<lparr>dimensionFormat := dimensionFormat start_in\<rparr>)))))"

text \<open>
  \<open>hasExtra\<close> tells the current form of the operator from the old one; the number of positive entries
  of a \<open>float\<close> input is the argument \<open>floatCount\<close>.
\<close>

definition where_size :: "bool \<Rightarrow> int \<Rightarrow> tensor \<Rightarrow> tensor \<Rightarrow> tensor res" where
  "where_size hasExtra floatCount input output =
     (let o1 = (setLength 1 (dimensions input) (setLength 0 (elementSize input) (output\<lparr>dimensions := 2\<rparr>)))
                 \<lparr>dimensionFormat := dimensionFormat input, ttype := int32_type\<rparr>;
          count = (\<lambda>n. if 0 < n then setLength 0 n o1 else setLength 1 (dimensions input) (setLength 0 0 o1))
      in if \<not> hasExtra then Inr o1
         else if contents input = [] then Inr (setLength 0 0 o1)
         else if ttype input = float_type then Inr (count floatCount)
         else if ttype input = int32_type \<or> ttype input = \<lparr>code = halide_type_uint, bits = 8\<rparr> then
           rbind (rmap (\<lambda>i. host_at input (int i)) [0..<nat (elementSize input)]) (\<lambda>xs.
             Inr (count (int (length (filter (\<lambda>x. 0 < x) xs)))))
         else Inl ReturnFalse)"

definition unique_size :: "tensor \<Rightarrow> tensor list \<Rightarrow> tensor list res" where
  "unique_size input outs =
     check (type_bytes (ttype input) = 4) (check (contents input \<noteq> [])
       (if outs = [] then Inl Undefined
        else
          rbind (rmap (\<lambda>i. host_at input (int i)) [0..<nat (elementSize input)]) (\<lambda>xs.
            let n = int (card (set xs)); e = elementSize input;
                idx = (\<lambda>len t. (setLength 0 len (t\<lparr>dimensions := 1\<rparr>))
                  \<lparr>dimensionFormat := dimensionFormat input, ttype := int32_type\<rparr>)
            in Inr (map (\<lambda>i.
                 if i = 0 then setLength 0 n (like input ((outs ! 0)\<lparr>dimensions := 1\<rparr>))
                 else if i = 1 then idx (if length outs \<le> 2 then e else n) (outs ! 1)
                 else if i = 2 then idx e (outs ! 2)
                 else if i = 3 then idx n (outs ! 3)
                 else outs ! i) [0..<length outs]))))"

definition scatterNd_size :: "tensor \<Rightarrow> tensor \<Rightarrow> tensor \<Rightarrow> tensor \<Rightarrow> tensor res" where
  "scatterNd_size indices updates shp output =
     (let dimension = len_at shp 0; n = ndim indices in
      if n = 0 then Inl Undefined
      else check (\<not> dimension < len_at indices (n - 1))
        (check (\<not> elementSize updates < prod_list (map (len_at indices) [0..<n - 1]))
          (rbind (rfold (\<lambda>i u. rbind (host_at shp (int i)) (\<lambda>v. Inr (setLength i v u))) [0..<nat dimension]
                    (output\<lparr>dimensions := dimension\<rparr>))
            (\<lambda>u. Inr (like updates u)))))"

definition cropAndResize_size :: "tensor \<Rightarrow> tensor \<Rightarrow> tensor \<Rightarrow> tensor \<Rightarrow> tensor \<Rightarrow> tensor res" where
  "cropAndResize_size img boxes box_index crop_size output =
     rbind (host_at crop_size 0) (\<lambda>crop_height. rbind (host_at crop_size 1) (\<lambda>crop_width.
       let num_boxes = (if len_at boxes 0 = 0 \<and> len_at box_index 0 = 0 then 0 else len_at boxes 0)
       in Inr (like img (setLength 3 (len_at img 3) (setLength 2 crop_width (setLength 1 crop_height
            (setLength 0 num_boxes (output\<lparr>dimensions := 4\<rparr>))))))))"

section \<open>Space and batch\<close>

text \<open>Number of blocks, block extents and paddings, from the inputs or from the parameter.\<close>

record space_batch =
  sb_count :: int
  sb_block :: "int list"
  sb_padding :: "int list"

definition sb_params :: "space_batch \<Rightarrow> tensor list \<Rightarrow> space_batch" where
  "sb_params p inputs =
     (if length inputs = 3
      then \<lparr>sb_count = len_at (inputs ! 1) 0, sb_block = contents (inputs ! 1), sb_padding = contents (inputs ! 2)\<rparr>
      else p)"

definition spaceToBatch_length :: "space_batch \<Rightarrow> tensor \<Rightarrow> nat \<Rightarrow> nat \<Rightarrow> int res" where
  "spaceToBatch_length p input base i =
     rbind (data_at (sb_padding p) (2 * int i)) (\<lambda>a. rbind (data_at (sb_padding p) (2 * int i + 1)) (\<lambda>b.
       rbind (data_at (sb_block p) (int i)) (\<lambda>s. div_c (len_at input (base + i) + a + b) s)))"

definition spaceToBatch_size :: "space_batch \<Rightarrow> tensor list \<Rightarrow> tensor \<Rightarrow> tensor res" where
  "spaceToBatch_size p0 inputs output =
     (let p = sb_params p0 inputs; input = inputs ! 0; format = dimensionFormat input;
          start = (if format \<noteq> NHWC then 2 else 1); n = nat (sb_count p)
      in check (\<not> dimensions input < sb_count p + start)
           (rbind (rmap (\<lambda>i. rbind (data_at (sb_block p) (int i)) (\<lambda>s. check (0 < s) (Inr s))) [0..<n]) (\<lambda>bs.
              let o1 = (setLength 0 (batch input * prod_list bs)
                          (output\<lparr>ttype := ttype input, dimensions := dimensions input\<rparr>))
                         \<lparr>dimensionFormat := format\<rparr>
              in if format \<noteq> NHWC then
                   rfold (\<lambda>i u. rbind (spaceToBatch_length p input 2 i) (\<lambda>v. Inr (setLength (i + 2) v u)))
                     [0..<n] (setLength 1 (len_at input 1) o1)
                 else
                   rbind (rfold (\<lambda>i u. rbind (spaceToBatch_length p input 1 i) (\<lambda>v. Inr (setLength (i + 1) v u)))
                            [0..<n] o1)
                     (\<lambda>u. rbind (dim_at input (1 + sb_count p)) (\<lambda>d. set_at (1 + sb_count p) d u)))))"

definition batchToSpace_length :: "space_batch \<Rightarrow> tensor \<Rightarrow> nat \<Rightarrow> nat \<Rightarrow> int res" where
  "batchToSpace_length p input base i =
     rbind (data_at (sb_padding p) (2 * int i)) (\<lambda>a. rbind (data_at (sb_padding p) (2 * int i + 1)) (\<lambda>b.
       rbind (data_at (sb_block p) (int i)) (\<lambda>s. Inr (len_at input (base + i) * s - a - b))))"

definition batchToSpace_size :: "space_batch \<Rightarrow> tensor list \<Rightarrow> tensor \<Rightarrow> tensor res" where
  "batchToSpace_size p0 inputs output =
     (let p = sb_params p0 inputs; input = inputs ! 0; format = dimensionFormat input; n = nat (sb_count p)
      in rbind (rfold (\<lambda>i b. rbind (data_at (sb_block p) (int i)) (\<lambda>s. div_c b s)) [0..<n] (batch input)) (\<lambda>b.
           let o1 = (setLength 0 b output)\<lparr>dimensions := dimensions input, ttype := ttype input, dimensionFormat := format\<rparr>
           in if format \<noteq> NHWC then
                rfold (\<lambda>i u. rbind (batchToSpace_length p input 2 i) (\<lambda>v. Inr (setLength (i + 2) v u)))
                  [0..<n] (setLength 1 (len_at input 1) o1)
              else
                rbind (rbind (dim_at input (1 + sb_count p)) (\<lambda>d. set_at (1 + sb_count p) d o1)) (\<lambda>u.
                  rfold (\<lambda>i u. rbind (batchToSpace_length p input 1 i) (\<lambda>v. Inr (setLength (i + 1) v u))) [0..<n] u)))"

section \<open>Select, size, fill, cast, layout conversion\<close>

definition select_size :: "tensor list \<Rightarrow> tensor \<Rightarrow> tensor res" where
  "select_size inputs output =
     rbind (computeBroadCastDims inputs (output\<lparr>ttype := ttype (inputs ! 1)\<rparr>)) (\<lambda>u.
       Inr (u\<lparr>dimensionFormat := dimensionFormat (inputs ! 1)\<rparr>))"

definition size_op_size :: "data_format \<Rightarrow> tensor \<Rightarrow> tensor res" where
  "size_op_size defaultFormat output =
     Inr ((setType DT_INT32 (output\<lparr>dimensions := 0\<rparr>))\<lparr>dimensionFormat := defaultFormat\<rparr>)"

definition fill_size :: "tensor \<Rightarrow> tensor \<Rightarrow> tensor \<Rightarrow> tensor res" where
  "fill_size input0 input1 output =
     rfold (\<lambda>i u. rbind (host_at input0 (int i)) (\<lambda>v. Inr (setLength i v u))) [0..<nat (len_at input0 0)]
       (like input1 (output\<lparr>dimensions := len_at input0 0\<rparr>))"

datatype cast_kind = CastLike tensor | FloatToInt8 | Int8ToFloat | CastTo data_type

definition cast_size :: "cast_kind \<Rightarrow> tensor \<Rightarrow> tensor \<Rightarrow> tensor res" where
  "cast_size k input output =
     (let o1 = copyShape input output True False
      in Inr (case k of
                CastLike t \<Rightarrow> o1\<lparr>ttype := ttype t\<rparr>
              | FloatToInt8 \<Rightarrow> o1\<lparr>ttype := \<lparr>code = halide_type_int, bits = 8\<rparr>\<rparr>
              | Int8ToFloat \<Rightarrow> o1\<lparr>ttype := float_type\<rparr>
              | CastTo d \<Rightarrow> setType d o1))"

definition planar_format :: "data_format \<Rightarrow> data_format" where
  "planar_format f = (if f = NC4HW4 then NCHW else f)"

definition tensorConvert_size :: "data_format \<Rightarrow> tensor \<Rightarrow> tensor \<Rightarrow> tensor res" where
  "tensorConvert_size dest input output =
     (let source = planar_format (dimensionFormat input); destFmt = planar_format dest; n = ndim input;
          o1 = output\<lparr>dimensionFormat := dest, ttype := ttype input, dimensions := dimensions input\<rparr>
      in if dimensions input = 2 \<or> source = destFmt then Inr (fill_lengths 0 n (len_at input) o1)
         else
           (let o2 = setLength 0 (len_at input 0) o1
            in if source = NCHW \<and> destFmt = NHWC then
                 (if n = 0 then Inl Undefined
                  else Inr (fill_lengths 1 (n - 1) (\<lambda>i. len_at input (i + 1)) (setLength (n - 1) (len_at input 1) o2)))
               else if destFmt = NCHW \<and> source = NHWC then
                 (if n = 0 then Inl Undefined
                  else Inr (fill_lengths 2 n (\<lambda>i. len_at input (i - 1)) (setLength 1 (len_at input (n - 1)) o2)))
               else Inr o2))"

end
