(* ===== verification/Spec2Isabelle.thy ===== *)
theory Spec2Isabelle
  imports Pipeline_Claims Raster_Claims Fuse_Claims Quant_Claims Defer_Claims Eager_Claims Geometry_Broadcast Shape_Basic_Proofs Shape_Index Shape_Window Shape_Strided Shape_Misc
begin

text \<open>
  MNN is an inference engine. Before it runs a network it (1) infers the shape of every tensor
  (\<open>source/shape\<close>), (2) replaces the operators that only move data by regions, strided copies between
  tensors (\<open>source/geometry\<close>), (3) plans the memory of all intermediate tensors (\<open>source/core/Pipeline.cpp\<close>
  over the allocators of \<open>source/core/BufferAllocator.cpp\<close>), and (4) unpacks the quantised weights of the
  model file (\<open>source/core/ConvolutionCommon.cpp\<close>). The development models these four parts, statement by
  statement, and proves what each of them promises the next one.

  \<^bold>\<open>Conventions.\<close> \<open>size_t\<close> is \<open>nat\<close> with wrapping subtraction written out, \<open>int\<close> is \<open>int\<close> with C's
  truncating division, bytes are \<open>8 word\<close>, \<open>float\<close> is an exact rational. Objects behind pointers are
  entries of an array or of a map, the null pointer is \<open>None\<close>. A C array is a list; reading outside it,
  through a missing buffer, or dividing by zero is an error value of the model. \<open>MNN_ASSERT\<close> does
  nothing in a release build, and the release build is what is modelled. Extents are not bounded by the
  width of \<open>int\<close>: overflow of the product of extents is not modelled.

  \<^bold>\<open>Shared.\<close> \<open>Prelude\<close>: the macros of \<open>Macro.h\<close>, error codes, lists. \<open>Tensor_Model\<close>: \<open>Tensor\<close> and
  \<open>TensorUtils\<close> as far as shapes go (\<open>dim\<close> array with its nine entries, formats, strides, sizes).

  \<^bold>\<open>Deferred allocator\<close> (\<open>DeferBufferAllocator\<close>, \<open>MemNode\<close>, \<open>SingleBufferWithAllocator\<close>).
  \<open>Defer_Model\<close> holds state and operations, \<open>Defer_Plan\<close> the abstract specification (a line of blocks and
  its four elementary changes), \<open>Defer_Refine\<close> the representation relation between the two,
  \<open>Defer_Ops\<close> the simulation of each operation, \<open>Defer_Safety\<close> the runs of a client
  (\<open>defer_run\<close>) with the invariant over them and the passes of \<open>compute\<close>, \<open>Defer_Claims\<close> the properties:
  chunks that are held at the same time get disjoint addresses. \<open>compute\<close> recurses over the absorbed
  chunks with fuel; the fuel given is the number of chunks, which is enough because a chunk is absorbed
  once (\<open>defer_compute_terminates\<close>).

  \<^bold>\<open>Root allocator and eager allocator.\<close> \<open>Alloc_Contract\<close> states the contract of an allocator as the
  locale \<open>raw_alloc\<close> and the promises of \<open>malloc\<close> and \<open>free\<close> as \<open>c_heap\<close>; \<open>DefaultAllocator\<close> over a C heap
  is an instance. \<open>Eager_Model\<close> is \<open>EagerBufferAllocator\<close>; \<open>Eager_Tree\<close>, \<open>Eager_Inv\<close> and \<open>Eager_State\<close> the
  invariant of its forest of nodes, \<open>Eager_Ops\<close> its operations and the runs of a client,
  \<open>Eager_Claims\<close> the properties: a pool over any allocator that keeps the contract keeps the contract
  itself (\<open>RecurseAllocator\<close>), no two chunks in use overlap, everything goes back. Two places where the
  code does not keep its word are proved as such.

  \<^bold>\<open>Shape inference.\<close> \<open>Shape_Base\<close> is the frame (the three outcomes of a size computer),
  \<open>Shape_Basic\<close> the computers that rearrange dimensions with \<open>Shape_Broadcast\<close> and \<open>Shape_Basic_Proofs\<close>
  their properties, \<open>Shape_Index\<close> those that select (gather, scatter, one-hot, top-k), \<open>Shape_Window\<close> those
  with windows (convolution, pooling, padding), \<open>Shape_Strided\<close> the strided slice with the count of its
  positions, \<open>Shape_Misc\<close> the rest.

  \<^bold>\<open>Geometry.\<close> \<open>Region_Model\<close> is a region as the three nested loops of copies it stands for, and the raster
  of a list of regions; \<open>Region_Grid\<close> the calculus of strided grids behind the proofs.
  \<open>Geometry_Permute\<close>, \<open>Geometry_Split\<close> (concat, slice), \<open>Geometry_Convert\<close> (layout conversion, reshape,
  depth and space) and \<open>Geometry_Broadcast\<close> translate \<open>onCompute\<close> of the operators and show, for every rank
  and every extent, which entry of the input each entry of the output receives.

  \<^bold>\<open>Fusion of regions.\<close> \<open>Region_Fuse\<close> translates \<open>FuseRegionStatus\<close> of \<open>TensorUtils.cpp\<close>, the object that
  decides whether a region that reads a virtual tensor may read the origin of that tensor's region
  instead (\<open>match\<close>) and rewrites it (\<open>apply\<close>), with the arrays it keeps between calls. \<open>Fuse_Boxes\<close> composes
  two boxes of positions digit by digit, \<open>Fuse_Arrays\<close> says what the arrays hold after each phase,
  \<open>Fuse_Align\<close> and \<open>Fuse_Apply\<close> follow the two regions to the fused one, and \<open>Fuse_Claims\<close> shows that the
  fused region copies the composition of the two, under the conditions it needs: a copy without gaps,
  or boxes of one grid stepped through in falling strides. For two families of regions outside
  these conditions \<open>match\<close> answers true and the fused region reads what it must not.

  \<^bold>\<open>Raster commands.\<close> \<open>Raster_Model\<close> translates the caller of the fusion,
  \<open>Context::getRasterCacheCreateRecursive\<close> of \<open>GeometryComputer.cpp\<close>: the regions of a virtual tensor are fused with
  those of their origins as long as these are virtual, what is left of the origins is emitted first, then the
  tensor. \<open>Raster_Content\<close> says what a graph of virtual tensors means and which sets of regions are closed under
  exact fusion, \<open>Raster_Steps\<close> and \<open>Raster_Emit\<close> follow the loops and the recursion, and \<open>Raster_Claims\<close> shows that
  the content of every tensor is kept and the commands come in an order in which they can run, for graphs of
  contiguous copies for instance.

  \<^bold>\<open>Quantised weights.\<close> \<open>Quant_Bits\<close> is the packing of values of 1 to 8 bits into bytes, \<open>Quant_Model\<close> the
  encoder (\<open>IDSTEncoder.hpp\<close>) and the decoder, \<open>Quant_Dense\<close> and \<open>Quant_Sparse\<close> the round trips of the two
  streams, \<open>Quant_Claims\<close> the properties, among them what \<open>load\<close> makes of a stream of \<open>encode\<close>, as integers
  and, in exact arithmetic, as the distance between the weights loaded and the weights encoded.

  \<^bold>\<open>Memory plan of a pipeline.\<close> \<open>Pipeline_Model\<close> translates \<open>Pipeline::_allocForTensor\<close> with everything it
  calls in \<open>Pipeline.cpp\<close>: the counting of uses, the allocation of the outputs of a command, its
  \<open>onResize\<close>, the release of its inputs after their last use, the recycling of the outputs nobody reads,
  the begin and the end of the resize of the two backends. The state is the describes of the tensors (use
  count, memory, usage), the backends' own world and what is cached; the backends are a record of
  operations. \<open>Pipeline_Plan\<close> holds the reference count invariant and the locale \<open>planner\<close>: what a backend
  promises (what it acquires is held, what is freed is not, a held object stays with its pool), with
  the lemmas about the plan proved once inside it. \<open>Pipeline_CPU\<close> translates the memory part of
  \<open>CPUBackend.cpp\<close>, and \<open>Pipeline_Safety\<close> interprets \<open>planner\<close> on it over the deferred allocators: this is
  where the plan meets the invariant of \<open>Defer_Safety\<close>. \<open>Pipeline_Ends\<close> follows the plan through the end
  of the resize, \<open>Pipeline_Success\<close> shows that it answers \<open>NO_ERROR\<close>, \<open>Pipeline_Claims\<close> holds the
  properties: the memory a tensor has until its last reader never overlaps with that of a tensor alive
  at the same time, everything goes back, the plan succeeds. The \<open>onResize\<close> of the kernels is a parameter;
  the contract \<open>kernels_ok\<close> says that a kernel leaves the tensors alone and that what it takes for itself is
  in the cache the end of the resize gives back; the witnesses run a plan of three commands.

  \<^bold>\<open>Bounds and fuel.\<close> Loops over arrays are structural recursions or folds. Fuel is used in \<open>compute\<close> of the
  deferred allocator: for its walk over the list and for \<open>visiChildren\<close>, both given the number of
  chunks; \<open>defer_compute_terminates\<close> shows that it suffices in every state a client can reach. The
  recursion of the raster commands over the origins has fuel too, and its property states that some amount is
  enough and that more changes nothing. The
  removal of pairs of ones in \<open>Geometry_Broadcast\<close> is a \<open>function\<close> with a termination proof, and the merge
  loop of \<open>returnMemory\<close> is a \<open>while\<close>; \<open>pool_merge_terminates\<close> shows that it ends from every node of a
  reachable pool.

  \<^bold>\<open>Not modelled.\<close> The backends apart from the memory of the CPU one (kernels and vendor APIs), the front
  ends (\<open>express\<close>, \<open>Module\<close>), converters and tools, the generated schema, bindings and third party code. Of
  the modelled parts: creation and execution of a pipeline and the copies it inserts between backends,
  the cache of constants of the geometry context,
  shared memory objects, \<open>MmapAllocator\<close> (files), host and device copies of \<open>Tensor\<close>, half precision weights,
  weights in external files, and the size computers whose extents come from floating point scales.
\<close>

end
